(* ===== verification/Go_Prelude.thy ===== *)
theory Go_Prelude
  imports Main "HOL-Library.Word"
begin

text \<open>
  The fragment of Go's semantics that every component of the library uses, and the arithmetic
  of ring positions.

  \<^item> Machine integers: \<open>uint64\<close>, \<open>int64\<close>, \<open>int\<close> and \<open>uintptr\<close> are 64-bit words; the source
    needs a 64-bit platform (\<open>emptyFlag = 1 << 63\<close> is stored in a \<open>uintptr\<close>). Conversions
    between them keep the bits; signed comparisons read the word with \<open>sint\<close>.
  \<^item> A call returns a value, panics, or never returns: \<open>'r go\<close>.
  \<^item> An \<open>error\<close> result is an \<open>err option\<close>, \<open>None\<close> being Go's \<open>nil\<close>.
  \<^item> A power-of-two ring: masking a position with \<open>n - 1\<close> is reduction modulo \<open>n\<close>, and
    the contents of a ring from a head position on form a list.
\<close>

unbundle bit_operations_syntax

named_theorems go_simps \<open>unfolding rules for the Go fragment\<close>
named_theorems ring_simps \<open>positions, masks and ring contents\<close>

section \<open>Calls, panics and errors\<close>

type_synonym u64 = "64 word"

text \<open>
  The ways a call can go wrong: an explicit \<open>panic("lfq: ...")\<close>, the run-time panics of slice
  indexing, of division and of \<open>make\<close>, and an access outside a slice through \<open>unsafe.Add\<close>, which Go leaves
  undefined.
\<close>

datatype panic =
    PanicMsg string
  | IndexOutOfRange
  | DivideByZero
  | MakeSliceLenOutOfRange
  | UnsafeOutOfBounds

text \<open>\<open>None\<close>: the call never returns; \<open>Some (Inl p)\<close>: it panics; \<open>Some (Inr r)\<close>: it returns \<open>r\<close>.\<close>

type_synonym 'r go = "(panic + 'r) option"

abbreviation ret :: "'r \<Rightarrow> 'r go" where
  "ret r \<equiv> Some (Inr r)"

abbreviation panics :: "panic \<Rightarrow> 'r go" where
  "panics p \<equiv> Some (Inl p)"

text \<open>The sentinel of \<open>errors.go\<close>; the queues return no other error.\<close>

datatype err = ErrWouldBlock

text \<open>
  \<open>make([]T, n)\<close> with an unsigned length: Go panics when the length is not representable as an
  \<open>int\<close>. (Exhaustion of the machine's memory is not modelled.)
\<close>

definition make_slice :: "u64 \<Rightarrow> 'a \<Rightarrow> 'a list go" where
  "make_slice n z = (if sint n < 0 then panics MakeSliceLenOutOfRange
                     else ret (replicate (unat n) z))"

fun go_bind :: "'a go \<Rightarrow> ('a \<Rightarrow> 'b go) \<Rightarrow> 'b go" where
  "go_bind None f = None"
| "go_bind (Some (Inl p)) f = panics p"
| "go_bind (Some (Inr r)) f = f r"

lemma go_bind_ret_iff [go_simps]:
  "go_bind m f = ret r \<longleftrightarrow> (\<exists>x. m = ret x \<and> f x = ret r)"
  by (cases "(m, f)" rule: go_bind.cases) auto

lemma go_bind_assoc: "go_bind (go_bind m f) g = go_bind m (\<lambda>x. go_bind (f x) g)"
  by (cases "(m, f)" rule: go_bind.cases) auto

lemma go_bind_ret_right: "go_bind m (\<lambda>x. ret x) = m"
  by (cases "(m, \<lambda>_ :: 'a. m)" rule: go_bind.cases) auto

section \<open>Words read as numbers\<close>

lemma unat_u64_lt [simp]: "unat (x :: u64) < 2 ^ 64"
  using unsigned_less [of x, where ?'a = nat] by simp

lemma unat_of_nat_u64: "unat (of_nat m :: u64) = m mod 2 ^ 64"
  by (simp add: unat_of_nat)

lemma unat_eq_of_nat_u64: "unat x = m \<Longrightarrow> (x :: u64) = of_nat m"
  by auto

lemma unat_pow2 [ring_simps]: "k < 64 \<Longrightarrow> unat (2 ^ k :: u64) = 2 ^ k"
proof -
  assume k: "k < 64"
  then have "(2 ^ k :: nat) < 2 ^ 64"
    by (intro power_strict_increasing) auto
  moreover have "unat (2 ^ k :: u64) = 2 ^ k mod 2 ^ 64"
    using unat_of_nat_u64 [of "2 ^ k"] by simp
  ultimately show ?thesis by simp
qed

lemma unat_pow2_minus_1 [ring_simps]: "k < 64 \<Longrightarrow> unat (2 ^ k - 1 :: u64) = 2 ^ k - 1"
proof -
  assume k: "k < 64"
  then have "(1 :: u64) \<le> 2 ^ k"
    by (simp add: word_le_nat_alt unat_pow2)
  then have "unat (2 ^ k - 1 :: u64) = unat (2 ^ k :: u64) - unat (1 :: u64)"
    by (rule unat_sub)
  with k show ?thesis by (simp add: unat_pow2)
qed

lemma pow2_le_62: "k \<le> 62 \<Longrightarrow> (2 :: nat) ^ k \<le> 2 ^ 62"
  by (intro power_increasing) auto

lemma nat_pow2 [simp]: "nat (2 ^ k) = 2 ^ k"
  by (simp add: nat_power_eq)

lemma unat_add_no_wrap:
  "unat (x :: u64) + unat y < 2 ^ 64 \<Longrightarrow> unat (x + y) = unat x + unat y"
  by (simp add: unat_word_ariths)

lemma unat_Suc_no_wrap: "unat (x :: u64) + 1 < 2 ^ 64 \<Longrightarrow> unat (x + 1) = unat x + 1"
  using unat_add_no_wrap [of x 1] by simp

lemma unat_diff_le: "unat (y :: u64) \<le> unat x \<Longrightarrow> unat (x - y) = unat x - unat y"
  by (simp add: unat_sub word_le_nat_alt)

lemma int_mod_shift:
  assumes "0 \<le> (u :: int)" and "u < 2 * m"
  shows "(u + m) mod (2 * m) - m = (if u < m then u else u - 2 * m)"
proof (cases "u < m")
  case True
  with assms show ?thesis by (simp add: mod_pos_pos_trivial)
next
  case False
  have "(u + m) mod (2 * m) = (u - m) mod (2 * m)"
    using minus_mod_self2 [of "u + m" "2 * m"] by (simp add: algebra_simps)
  also have "\<dots> = u - m"
    using False assms by (intro mod_pos_pos_trivial) auto
  finally show ?thesis using False by simp
qed

lemma sint_u64: "sint (x :: u64) = (if unat x < 2 ^ 63 then int (unat x) else int (unat x) - 2 ^ 64)"
proof -
  have "sint x = (uint x + 2 ^ 63) mod 2 ^ 64 - 2 ^ 63"
    by (simp add: sint_uint signed_take_bit_eq_take_bit_shift take_bit_eq_mod)
  also have "\<dots> = (if uint x < 2 ^ 63 then uint x else uint x - 2 ^ 64)"
    using int_mod_shift [of "uint x" "2 ^ 63"] uint_lt2p [of x] by simp
  also have "uint x < 2 ^ 63 \<longleftrightarrow> unat x < 2 ^ 63"
    by (simp add: nat_less_iff flip: nat_uint_eq)
  finally show ?thesis by simp
qed

lemma sint_neg_iff: "sint (x :: u64) < 0 \<longleftrightarrow> 2 ^ 63 \<le> unat x"
proof -
  have "int (unat x) < 2 ^ 64"
    using uint_lt2p [of x] by simp
  then show ?thesis unfolding sint_u64 by (simp only: split: if_splits) auto
qed

lemma sint_pred: "0 \<le> sint (x :: u64) \<Longrightarrow> sint (x - 1) = sint x - 1"
proof -
  assume x: "0 \<le> sint x"
  then have u: "unat x < 2 ^ 63" using sint_neg_iff [of x] by linarith
  show ?thesis
  proof (cases "x = 0")
    case False
    then have "unat (x - 1) = unat x - 1" "1 \<le> unat x" using unat_gt_0 [of x]
      by (auto simp: unat_diff_le)
    with u show ?thesis by (simp add: sint_u64 of_nat_diff del: of_nat_unat)
  qed simp
qed

lemma sint_pow2: "k \<le> 62 \<Longrightarrow> sint (2 ^ k :: u64) = 2 ^ k"
  using pow2_le_62 [of k] by (simp add: sint_u64 unat_pow2 del: of_nat_unat)

section \<open>Masks\<close>

text \<open>\<open>p & (n - 1)\<close> for a power of two \<open>n\<close> is \<open>p mod n\<close>, also where positions wrap at \<open>2^64\<close>.\<close>

lemma unat_and_mask [ring_simps]:
  "k < 64 \<Longrightarrow> unat ((x :: u64) AND (2 ^ k - 1)) = unat x mod 2 ^ k"
proof -
  have "x AND (2 ^ k - 1) = take_bit k x"
    by (simp add: take_bit_eq_mask mask_eq_exp_minus_1)
  then show ?thesis
    by (simp add: unsigned_take_bit_eq) (simp add: take_bit_eq_mod)
qed

lemma mod_pow2_mod_pow64: "k < 64 \<Longrightarrow> (m mod 2 ^ 64) mod 2 ^ k = m mod (2 ^ k :: nat)"
  by (intro mod_mod_cancel le_imp_power_dvd) simp

lemma unat_add_mod_pow2 [ring_simps]:
  "k < 64 \<Longrightarrow> unat ((x :: u64) + y) mod 2 ^ k = (unat x + unat y) mod 2 ^ k"
  using mod_pow2_mod_pow64 [of k "unat x + unat y"] by (simp add: unat_word_ariths)

lemma mod_pow2_inj:
  assumes "i < n" and "j < n" and "(h + i) mod n = (h + j) mod (n :: nat)"
  shows "i = j"
proof -
  have less: "a = b" if "a \<le> b" "b < n" "(h + a) mod n = (h + b) mod n" for a b
  proof -
    have "n dvd (h + b) - (h + a)"
      using that by (subst mod_eq_dvd_iff_nat [symmetric]) auto
    then have "n dvd b - a" by simp
    with that show ?thesis by (auto dest: dvd_imp_le)
  qed
  show ?thesis using less [of i j] less [of j i] assms by (cases "i \<le> j") auto
qed

section \<open>Ring contents\<close>

text \<open>The \<open>len\<close> entries of a ring of \<open>n\<close> slots from position \<open>h\<close> on, as the list they stand for.\<close>

definition ring_list :: "(nat \<Rightarrow> 'a) \<Rightarrow> nat \<Rightarrow> nat \<Rightarrow> nat \<Rightarrow> 'a list" where
  "ring_list get n h len = map (\<lambda>i. get ((h + i) mod n)) [0..<len]"

lemma length_ring_list [simp]: "length (ring_list get n h len) = len"
  by (simp add: ring_list_def)

lemma ring_list_0 [simp]: "ring_list get n h 0 = []"
  by (simp add: ring_list_def)

lemma ring_list_Nil_iff [simp]: "ring_list get n h len = [] \<longleftrightarrow> len = 0"
  by (simp add: ring_list_def)

lemma nth_ring_list: "i < len \<Longrightarrow> ring_list get n h len ! i = get ((h + i) mod n)"
  by (simp add: ring_list_def)

lemma ring_list_mod: "ring_list get n (h mod n) len = ring_list get n h len"
  by (simp add: ring_list_def mod_add_left_eq)

lemma ring_list_cong:
  "(\<And>i. i < len \<Longrightarrow> get ((h + i) mod n) = get' ((h' + i) mod n)) \<Longrightarrow>
   ring_list get n h len = ring_list get' n h' len"
  by (simp add: ring_list_def)

lemma ring_list_snoc:
  assumes "len < n"
    and "\<And>i. i < n \<Longrightarrow> i \<noteq> (h + len) mod n \<Longrightarrow> get' i = get i"
  shows "ring_list get' n h (Suc len) = ring_list get n h len @ [get' ((h + len) mod n)]"
proof -
  have "get' ((h + i) mod n) = get ((h + i) mod n)" if "i < len" for i
    using assms that mod_pow2_inj [of i n len h] by (intro assms(2)) auto
  then show ?thesis by (simp add: ring_list_def)
qed

lemma ring_list_Cons:
  "ring_list get n h (Suc len) = get (h mod n) # ring_list get n (Suc h) len"
  by (simp add: ring_list_def upt_conv_Cons map_Suc_upt [symmetric] del: upt_Suc map_Suc_upt)

lemma ring_list_tl:
  assumes "len < n"
    and "\<And>i. i < n \<Longrightarrow> i \<noteq> h mod n \<Longrightarrow> get' i = get i"
  shows "ring_list get n h (Suc len) = get (h mod n) # ring_list get' n (Suc h) len"
proof -
  have "get ((Suc h + i) mod n) = get' ((Suc h + i) mod n)" if "i < len" for i
  proof -
    have "(h + Suc i) mod n \<noteq> (h + 0) mod n"
      using that assms(1) mod_pow2_inj [of "Suc i" n 0 h] by auto
    with assms show ?thesis by simp
  qed
  then have "ring_list get n (Suc h) len = ring_list get' n (Suc h) len"
    by (rule ring_list_cong)
  then show ?thesis by (simp add: ring_list_Cons)
qed

lemma ring_list_unat_succ:
  "k < 64 \<Longrightarrow> ring_list get (2 ^ k) (unat ((h :: u64) + 1)) len = ring_list get (2 ^ k) (Suc (unat h)) len"
  using unat_add_mod_pow2 [of k h 1] ring_list_mod [of get "2 ^ k" "unat (h + 1)" len]
    ring_list_mod [of get "2 ^ k" "Suc (unat h)" len]
  by simp

section \<open>Initialisation loops\<close>

text \<open>\<open>for i := 0; i < n; i++ { buffer[i] = ... }\<close> over a freshly made slice.\<close>

lemma fold_init_slots:
  "m \<le> length buf \<Longrightarrow>
   fold (\<lambda>i buf. buf[i := f i (buf ! i)]) [0..<m] buf
     = map (\<lambda>i. f i (buf ! i)) [0..<m] @ drop m buf"
proof (induction m)
  case 0
  then show ?case by simp
next
  case (Suc m)
  then show ?case
    by (simp add: nth_append list_update_append Cons_nth_drop_Suc [symmetric])
qed

lemma fold_init_replicate:
  "fold (\<lambda>i buf. buf[i := f i (buf ! i)]) [0..<m] (replicate m z) = map (\<lambda>i. f i z) [0..<m]"
  by (subst fold_init_slots) auto

text \<open>Two loops are equal if each returns what the other returns.\<close>

lemma option_eqI: "(\<And>r. a = Some r \<Longrightarrow> b = Some r) \<Longrightarrow> (\<And>r. b = Some r \<Longrightarrow> a = Some r) \<Longrightarrow> a = b"
  by (cases a; cases b) auto

end
