(* ===== verification/Pow2.thy ===== *)
theory Pow2
  imports Go_Prelude
begin

text \<open>
  Capacity rounding, \<open>roundToPow2\<close> of \<open>options.go\<close>: every constructor rounds the requested capacity
  up to a power of two with it, on Go's 64-bit signed \<open>int\<close>.
\<close>

text \<open>Go's \<open>>>\<close> on an \<open>int\<close> is the arithmetic shift \<open>signed_drop_bit\<close>; \<open>n + 1\<close> wraps.\<close>

definition roundToPow2 :: "u64 \<Rightarrow> u64" where
  "roundToPow2 n =
     (if sint n < 2 then 2
      else (let n = n - 1;
                n = n OR signed_drop_bit 1 n;
                n = n OR signed_drop_bit 2 n;
                n = n OR signed_drop_bit 4 n;
                n = n OR signed_drop_bit 8 n;
                n = n OR signed_drop_bit 16 n;
                n = n OR signed_drop_bit 32 n
            in n + 1))"

section \<open>Smearing the highest bit downwards\<close>

text \<open>
  \<open>smear w m x\<close>: bit \<open>i\<close> of \<open>x\<close> tells whether one of the \<open>w\<close> bits of \<open>m\<close> from \<open>i\<close> upwards is set.
  Each \<open>n |= n >> w\<close> doubles the window.
\<close>

definition smear :: "nat \<Rightarrow> u64 \<Rightarrow> u64 \<Rightarrow> bool" where
  "smear w m x \<longleftrightarrow> (\<forall>i. bit x i \<longleftrightarrow> (\<exists>j. i \<le> j \<and> j < i + w \<and> bit m j))"

lemma smear_start: "smear 1 m m"
proof -
  have "i \<le> j \<and> j < i + 1 \<longleftrightarrow> j = i" for i j :: nat
    by auto
  then show ?thesis by (simp add: smear_def conj_assoc [symmetric])
qed

lemma bit_sign_shift:
  assumes "\<not> bit (x :: u64) 63"
  shows "bit (signed_drop_bit w x) i \<longleftrightarrow> bit x (w + i)"
proof -
  have "\<not> bit x j" if "63 \<le> j" for j
    using that assms by (cases "j = 63") (auto dest: bit_imp_le_length)
  then show ?thesis by (auto simp: bit_signed_drop_bit_iff)
qed

lemma smear_step:
  assumes "smear w m x" and "\<not> bit m 63" and "w' = w + w"
  shows "smear w' m (x OR signed_drop_bit w x)"
proof -
  have x: "bit x i \<longleftrightarrow> (\<exists>j. i \<le> j \<and> j < i + w \<and> bit m j)" for i
    using assms(1) by (simp add: smear_def)
  have "\<not> bit m j" if "63 \<le> j" for j
    using that assms(2) by (cases "j = 63") (auto dest: bit_imp_le_length)
  then have "\<not> bit x 63"
    by (auto simp: x)
  then have "bit (x OR signed_drop_bit w x) i \<longleftrightarrow> bit x i \<or> bit x (w + i)" for i
    by (simp add: bit_or_iff bit_sign_shift)
  also have "bit x i \<or> bit x (w + i) \<longleftrightarrow> (\<exists>j. i \<le> j \<and> j < i + (w + w) \<and> bit m j)" for i
  proof -
    have "i \<le> j \<and> j < i + (w + w) \<longleftrightarrow> (i \<le> j \<and> j < i + w) \<or> (w + i \<le> j \<and> j < w + i + w)" for j
      by arith
    then show ?thesis unfolding x by blast
  qed
  finally show ?thesis using assms(3) by (simp add: smear_def)
qed

lemma smear_full:
  assumes "smear 64 m x" and "bit m h" and "\<And>j. bit m j \<Longrightarrow> j \<le> h"
  shows "x = 2 ^ Suc h - 1"
proof -
  have "h < 64" using assms(2) by (auto dest: bit_imp_le_length)
  have "bit x i \<longleftrightarrow> i \<le> h" for i
  proof
    assume "bit x i"
    then show "i \<le> h" using assms(1,3) by (fastforce simp: smear_def)
  next
    assume "i \<le> h"
    then show "bit x i" using assms(1,2) \<open>h < 64\<close> by (auto simp: smear_def)
  qed
  then have "x = mask (Suc h)"
    using \<open>h < 64\<close> by (intro bit_word_eqI) (simp add: bit_mask_iff less_Suc_eq_le)
  then show ?thesis by (simp add: mask_eq_exp_minus_1)
qed

lemma highest_bit:
  assumes "(m :: u64) \<noteq> 0"
  obtains h where "bit m h" and "\<And>j. bit m j \<Longrightarrow> j \<le> h"
    and "2 ^ h \<le> unat m" and "unat m < 2 ^ Suc h"
proof -
  let ?h = "Max {j. bit m j}"
  have fin: "finite {j. bit m j}"
    by (rule finite_subset [of _ "{..<64}"]) (auto dest: bit_imp_le_length)
  have ne: "{j. bit m j} \<noteq> {}"
    using assms bit_word_eqI [of m 0] by auto
  have h: "bit m ?h"
    using Max_in [OF fin ne] by simp
  have max: "j \<le> ?h" if "bit m j" for j
    using Max_ge [OF fin] that by simp
  have nb: "bit (unat m) j \<longleftrightarrow> bit m j" for j
    by (simp add: bit_unsigned_iff)
  have "take_bit ?h (unat m) \<noteq> unat m"
    using h nb [of ?h] by (metis bit_take_bit_iff less_irrefl)
  then have lo: "2 ^ ?h \<le> unat m"
    by (simp add: take_bit_nat_eq_self_iff)
  have "take_bit (Suc ?h) (unat m) = unat m"
    using max nb by (intro bit_eqI) (auto simp: bit_take_bit_iff less_Suc_eq_le)
  then have hi: "unat m < 2 ^ Suc ?h"
    by (simp only: take_bit_nat_eq_self_iff)
  from h max lo hi show thesis by (rule that)
qed

section \<open>The result\<close>

lemma roundToPow2_small: "sint n < 2 \<Longrightarrow> roundToPow2 n = 2"
  by (simp add: roundToPow2_def)

lemma roundToPow2_pow2:
  assumes "2 \<le> sint n"
  obtains k where "1 \<le> k" and "k < 64" and "roundToPow2 n = 2 ^ k"
    and "unat n \<le> 2 ^ k" and "2 ^ k < 2 * unat n"
proof -
  have "2 ^ 63 > unat n" using assms sint_neg_iff [of n] by fastforce
  then have n2: "2 \<le> unat n" using assms by (simp add: sint_u64 del: of_nat_unat)
  let ?m = "n - 1"
  have m: "unat ?m = unat n - 1"
    using n2 unat_diff_le [of 1 n] by simp
  then have "?m \<noteq> 0" using n2 by auto
  then obtain h where h: "bit ?m h" "\<And>j. bit ?m j \<Longrightarrow> j \<le> h" "2 ^ h \<le> unat ?m" "unat ?m < 2 ^ Suc h"
    by (rule highest_bit) blast
  have "h < 63"
  proof (rule ccontr)
    assume "\<not> h < 63"
    then have "(2 :: nat) ^ 63 \<le> 2 ^ h" by (intro power_increasing) auto
    with h(3) m \<open>2 ^ 63 > unat n\<close> show False by simp
  qed
  then have top: "\<not> bit ?m 63" using h(2) by fastforce
  define m1 where "m1 = ?m OR signed_drop_bit 1 ?m"
  define m2 where "m2 = m1 OR signed_drop_bit 2 m1"
  define m3 where "m3 = m2 OR signed_drop_bit 4 m2"
  define m4 where "m4 = m3 OR signed_drop_bit 8 m3"
  define m5 where "m5 = m4 OR signed_drop_bit 16 m4"
  define m6 where "m6 = m5 OR signed_drop_bit 32 m5"
  note ms = m1_def m2_def m3_def m4_def m5_def m6_def
  have "smear 2 ?m m1" unfolding m1_def by (rule smear_step [OF smear_start top]) simp
  then have "smear 4 ?m m2" unfolding m2_def by (rule smear_step [OF _ top]) simp
  then have "smear 8 ?m m3" unfolding m3_def by (rule smear_step [OF _ top]) simp
  then have "smear 16 ?m m4" unfolding m4_def by (rule smear_step [OF _ top]) simp
  then have "smear 32 ?m m5" unfolding m5_def by (rule smear_step [OF _ top]) simp
  then have "smear 64 ?m m6" unfolding m6_def by (rule smear_step [OF _ top]) simp
  from smear_full [OF this h(1,2)] have "m6 + 1 = 2 ^ Suc h" by simp
  moreover have "roundToPow2 n = m6 + 1"
    using assms unfolding roundToPow2_def Let_def ms by (simp only: not_less [symmetric] if_False)
  ultimately have "roundToPow2 n = 2 ^ Suc h" by simp
  moreover have "unat n \<le> 2 ^ Suc h" "2 ^ Suc h < 2 * unat n"
    using h(3,4) m n2 by auto
  ultimately show thesis using \<open>h < 63\<close> by (intro that [of "Suc h"]) auto
qed

lemma pow2_strict_mono_iff: "(2 :: nat) ^ i < 2 ^ j \<longleftrightarrow> i < j"
  by simp

text \<open>Up to \<open>2^62\<close> the result is a positive \<open>int\<close>; beyond, it is \<open>2^63\<close>, the smallest \<open>int\<close>.\<close>

lemma roundToPow2_in_range:
  assumes "2 \<le> sint n" and "sint n \<le> 2 ^ 62"
  obtains k where "1 \<le> k" and "k \<le> 62" and "roundToPow2 n = 2 ^ k"
    and "unat n \<le> 2 ^ k" and "2 ^ k < 2 * unat n"
proof -
  from assms(1) obtain k where k: "1 \<le> k" "k < 64" "roundToPow2 n = 2 ^ k"
      "unat n \<le> 2 ^ k" "2 ^ k < 2 * unat n"
    by (rule roundToPow2_pow2)
  have "unat n \<le> 2 ^ 62"
    using assms unat_u64_lt [of n] by (simp add: sint_u64 del: of_nat_unat unat_u64_lt split: if_splits)
  with k(5) have "(2 :: nat) ^ k < 2 ^ 63" by simp
  then have "k \<le> 62" by (simp only: pow2_strict_mono_iff)
  with k show thesis by (intro that)
qed

lemma roundToPow2_overflow: "2 ^ 62 < sint n \<Longrightarrow> roundToPow2 n = 2 ^ 63"
proof -
  assume n: "2 ^ 62 < sint n"
  then have "2 \<le> sint n" by simp
  then obtain k where k: "k < 64" "roundToPow2 n = 2 ^ k" "unat n \<le> 2 ^ k"
    by (rule roundToPow2_pow2) blast
  have "2 ^ 62 < unat n"
    using n unat_u64_lt [of n] by (simp add: sint_u64 del: of_nat_unat split: if_splits)
  with k(3) have "(2 :: nat) ^ 62 < 2 ^ k" by simp
  then have "62 < k" by (simp only: pow2_strict_mono_iff)
  with k(1) have "k = 63" by simp
  with k(2) show ?thesis by simp
qed

text \<open>It is the least power of two that holds the request.\<close>

lemma roundToPow2_62:
  assumes c: "2 ^ 61 < sint c" "sint c \<le> 2 ^ 62"
  shows "roundToPow2 c = 2 ^ 62"
proof -
  from c(1) have "2 \<le> sint c" by simp
  from this c(2) obtain k where k: "k \<le> 62" "roundToPow2 c = 2 ^ k" "unat c \<le> 2 ^ k"
    by (rule roundToPow2_in_range) blast
  have "unat c < 2 ^ 63" using \<open>2 \<le> sint c\<close> sint_neg_iff [of c] by linarith
  then have "2 ^ 61 < unat c" using c(1) by (simp add: sint_u64 del: of_nat_unat)
  with k(3) have "(2 :: nat) ^ 61 < 2 ^ k" by linarith
  then have "61 < k" by (subst (asm) power_strict_increasing_iff) simp
  with k(1) have "k = 62" by simp
  with k(2) show ?thesis by simp
qed

lemma roundToPow2_least:
  assumes "2 \<le> sint n" and "unat n \<le> 2 ^ j"
  shows "unat (roundToPow2 n) \<le> 2 ^ j"
proof -
  from assms(1) obtain k where k: "k < 64" "roundToPow2 n = 2 ^ k" "2 ^ k < 2 * unat n"
    by (rule roundToPow2_pow2) blast
  with assms(2) have "(2 :: nat) ^ k < 2 ^ Suc j" by simp
  then have "k < Suc j" by (simp only: pow2_strict_mono_iff)
  then have "(2 :: nat) ^ k \<le> 2 ^ j" by (intro power_increasing) auto
  with k show ?thesis by (simp add: unat_pow2)
qed

lemma roundToPow2_Cap:
  assumes "2 \<le> sint n" and "sint n \<le> 2 ^ 62"
  shows "sint (roundToPow2 n) = int (unat (roundToPow2 n))" and "0 < unat (roundToPow2 n)"
proof -
  from assms obtain k where "k \<le> 62" "roundToPow2 n = 2 ^ k" by (rule roundToPow2_in_range) blast
  then show "sint (roundToPow2 n) = int (unat (roundToPow2 n))" and "0 < unat (roundToPow2 n)"
    by (simp_all add: sint_pow2 unat_pow2)
qed

lemma roundToPow2_2: "roundToPow2 2 = 2"
  by code_simp

end
