(* ===== verification/Fifo_Spec.thy ===== *)
theory Fifo_Spec
  imports Go_Prelude
begin

text \<open>
  What the interfaces \<open>Queue\<close>, \<open>QueueIndirect\<close> and \<open>QueuePtr\<close> of \<open>types.go\<close> promise, as an
  abstract bounded FIFO on lists, and the locale through which every queue of the library is
  shown to keep that promise.

  A queue's counters are 64 bits wide and several of its comparisons are not wrap-safe, so
  the contract carries a budget: \<open>inv b q\<close> says that the queue is well formed and that at least
  \<open>b\<close> more operations may be performed before a counter reaches the end of its range. Queues
  whose arithmetic is wrap-safe keep the invariant at every budget.
\<close>

section \<open>The abstract bounded FIFO\<close>

definition fifo_enq :: "nat \<Rightarrow> 'a \<Rightarrow> 'a list \<Rightarrow> err option \<times> 'a list" where
  "fifo_enq cap x xs = (if length xs < cap then (None, xs @ [x]) else (Some ErrWouldBlock, xs))"

definition fifo_deq :: "'a \<Rightarrow> 'a list \<Rightarrow> ('a \<times> err option) \<times> 'a list" where
  "fifo_deq zero xs = (case xs of [] \<Rightarrow> ((zero, Some ErrWouldBlock), [])
                                | x # ys \<Rightarrow> ((x, None), ys))"

text \<open>Client programs: sequences of calls, and the answers they get.\<close>

datatype 'a call = Enqueue 'a | Dequeue

datatype 'a answer = EnqueueRet "err option" | DequeueRet 'a "err option"

fun fifo_call :: "'a \<Rightarrow> nat \<Rightarrow> 'a call \<Rightarrow> 'a list \<Rightarrow> 'a answer \<times> 'a list" where
  "fifo_call zero cap (Enqueue x) xs = (let (e, xs') = fifo_enq cap x xs in (EnqueueRet e, xs'))"
| "fifo_call zero cap Dequeue xs = (let ((v, e), xs') = fifo_deq zero xs in (DequeueRet v e, xs'))"

fun fifo_run :: "'a \<Rightarrow> nat \<Rightarrow> 'a call list \<Rightarrow> 'a list \<Rightarrow> 'a answer list \<times> 'a list" where
  "fifo_run zero cap [] xs = ([], xs)"
| "fifo_run zero cap (c # cs) xs =
     (let (a, xs') = fifo_call zero cap c xs; (as, xs'') = fifo_run zero cap cs xs'
      in (a # as, xs''))"

text \<open>The values that went in and those that came out, read off the calls and their answers.\<close>

fun accepted :: "'a call list \<Rightarrow> 'a answer list \<Rightarrow> 'a list" where
  "accepted (Enqueue x # cs) (EnqueueRet None # as) = x # accepted cs as"
| "accepted (c # cs) (a # as) = accepted cs as"
| "accepted _ _ = []"

fun delivered :: "'a answer list \<Rightarrow> 'a list" where
  "delivered [] = []"
| "delivered (DequeueRet v None # as) = v # delivered as"
| "delivered (a # as) = delivered as"

lemma fifo_enq_simps [simp]:
  "length xs < cap \<Longrightarrow> fifo_enq cap x xs = (None, xs @ [x])"
  "\<not> length xs < cap \<Longrightarrow> fifo_enq cap x xs = (Some ErrWouldBlock, xs)"
  by (simp_all add: fifo_enq_def)

lemma fifo_deq_simps [simp]:
  "fifo_deq zero [] = ((zero, Some ErrWouldBlock), [])"
  "fifo_deq zero (x # xs) = ((x, None), xs)"
  by (simp_all add: fifo_deq_def)

lemma length_fifo_call: "length xs \<le> cap \<Longrightarrow> length (snd (fifo_call zero cap c xs)) \<le> cap"
  by (cases c) (auto simp: fifo_enq_def fifo_deq_def split: list.split)

lemma length_fifo_run: "length xs \<le> cap \<Longrightarrow> length (snd (fifo_run zero cap cs xs)) \<le> cap"
proof (induction cs arbitrary: xs)
  case (Cons c cs)
  obtain a ys where "fifo_call zero cap c xs = (a, ys)" by fastforce
  moreover from this have "length ys \<le> cap" using length_fifo_call [OF Cons.prems, of zero c] by simp
  ultimately show ?case using Cons.IH [of ys] by (simp add: case_prod_beta Let_def)
qed simp

text \<open>Conservation and order: what was in, then what was accepted, comes out first in, first out.\<close>

lemma fifo_run_conservation:
  assumes "fifo_run zero cap cs xs = (as, xs')"
  shows "delivered as @ xs' = xs @ accepted cs as"
  using assms
proof (induction cs arbitrary: xs as)
  case Nil
  then show ?case by simp
next
  case (Cons c cs)
  obtain a ys where a: "fifo_call zero cap c xs = (a, ys)" by fastforce
  obtain bs zs where b: "fifo_run zero cap cs ys = (bs, zs)" by fastforce
  from Cons.prems a b have as: "as = a # bs" "xs' = zs" by auto
  with Cons.IH b have IH: "delivered bs @ xs' = ys @ accepted cs bs" by simp
  show ?case
  proof (cases c)
    case (Enqueue x)
    with a as IH show ?thesis by (cases "length xs < cap") auto
  next
    case Dequeue
    with a as IH show ?thesis by (cases xs) auto
  qed
qed

lemma fifo_run_append:
  "fifo_run zero cap (cs @ ds) xs =
     (let (as, ys) = fifo_run zero cap cs xs; (bs, zs) = fifo_run zero cap ds ys
      in (as @ bs, zs))"
  by (induction cs arbitrary: xs) (auto split: prod.splits)

lemma fifo_run_enqueues:
  "length xs + length ys \<le> cap \<Longrightarrow>
   fifo_run zero cap (map Enqueue ys) xs = (replicate (length ys) (EnqueueRet None), xs @ ys)"
  by (induction ys arbitrary: xs) auto

lemma fifo_run_dequeues:
  "fifo_run zero cap (replicate (length xs) Dequeue) (xs @ ys) = (map (\<lambda>x. DequeueRet x None) xs, ys)"
  by (induction xs) auto

section \<open>The contract of a queue\<close>

text \<open>Running a client program against a queue's operations.\<close>

fun run_calls :: "('a \<Rightarrow> 'q \<Rightarrow> (err option \<times> 'q) go) \<Rightarrow> ('q \<Rightarrow> (('a \<times> err option) \<times> 'q) go)
    \<Rightarrow> 'a call list \<Rightarrow> 'q \<Rightarrow> ('a answer list \<times> 'q) go" where
  "run_calls enq deq [] q = ret ([], q)"
| "run_calls enq deq (Enqueue x # cs) q =
     go_bind (enq x q) (\<lambda>(e, q'). go_bind (run_calls enq deq cs q')
       (\<lambda>(as, q''). ret (EnqueueRet e # as, q'')))"
| "run_calls enq deq (Dequeue # cs) q =
     go_bind (deq q) (\<lambda>((v, e), q'). go_bind (run_calls enq deq cs q')
       (\<lambda>(as, q''). ret (DequeueRet v e # as, q'')))"

text \<open>
  What a client sees of a queue from its construction on: the constructor returns a queue of the
  stated capacity, and every program of at most \<open>budget\<close> calls with admissible values returns and
  gets the answers of the abstract FIFO of that capacity.
\<close>

definition fifo_object :: "'q go \<Rightarrow> ('a \<Rightarrow> 'q \<Rightarrow> (err option \<times> 'q) go)
    \<Rightarrow> ('q \<Rightarrow> (('a \<times> err option) \<times> 'q) go) \<Rightarrow> ('q \<Rightarrow> int) \<Rightarrow> 'a \<Rightarrow> ('a \<Rightarrow> bool) \<Rightarrow> nat \<Rightarrow> nat \<Rightarrow> bool" where
  "fifo_object new enq deq capf zero valid c budget \<longleftrightarrow>
     (\<exists>q. new = ret q \<and> capf q = int c \<and>
       (\<forall>cs. length cs \<le> budget \<longrightarrow> (\<forall>x. Enqueue x \<in> set cs \<longrightarrow> valid x) \<longrightarrow>
         (\<exists>q'. run_calls enq deq cs q = ret (fst (fifo_run zero c cs []), q') \<and> capf q' = int c)))"

locale bounded_queue =
  fixes enq :: "'a \<Rightarrow> 'q \<Rightarrow> (err option \<times> 'q) go"
    and deq :: "'q \<Rightarrow> (('a \<times> err option) \<times> 'q) go"
    and cap :: "'q \<Rightarrow> nat"
    and elems :: "'q \<Rightarrow> 'a list"
    and inv :: "nat \<Rightarrow> 'q \<Rightarrow> bool"
    and zero :: 'a
    and valid :: "'a \<Rightarrow> bool"
  assumes enq_refines: "inv (Suc b) q \<Longrightarrow> valid x \<Longrightarrow>
      \<exists>q'. enq x q = ret (fst (fifo_enq (cap q) x (elems q)), q')
         \<and> elems q' = snd (fifo_enq (cap q) x (elems q)) \<and> cap q' = cap q \<and> inv b q'"
    and deq_refines: "inv (Suc b) q \<Longrightarrow>
      \<exists>q'. deq q = ret (fst (fifo_deq zero (elems q)), q')
         \<and> elems q' = snd (fifo_deq zero (elems q)) \<and> cap q' = cap q \<and> inv b q'"
    and elems_le_cap: "inv b q \<Longrightarrow> length (elems q) \<le> cap q"
begin

lemma enq_accepts:
  assumes "inv (Suc b) q" and "valid x" and "length (elems q) < cap q"
  shows "\<exists>q'. enq x q = ret (None, q') \<and> elems q' = elems q @ [x] \<and> inv b q'"
  using enq_refines [OF assms(1,2)] assms(3) by auto

lemma enq_full:
  assumes "inv (Suc b) q" and "valid x" and "length (elems q) = cap q"
  shows "\<exists>q'. enq x q = ret (Some ErrWouldBlock, q') \<and> elems q' = elems q \<and> inv b q'"
  using enq_refines [OF assms(1,2)] assms(3) by auto

lemma deq_empty:
  assumes "inv (Suc b) q" and "elems q = []"
  shows "\<exists>q'. deq q = ret ((zero, Some ErrWouldBlock), q') \<and> elems q' = [] \<and> inv b q'"
  using deq_refines [OF assms(1)] assms(2) by auto

lemma deq_first:
  assumes "inv (Suc b) q" and "elems q = x # xs"
  shows "\<exists>q'. deq q = ret ((x, None), q') \<and> elems q' = xs \<and> inv b q'"
  using deq_refines [OF assms(1)] assms(2) by auto

text \<open>Every client program within the budget gets the answers of the abstract FIFO.\<close>

lemma run_refines:
  assumes "inv (length cs + b) q" and "\<And>x. Enqueue x \<in> set cs \<Longrightarrow> valid x"
  shows "\<exists>q'. run_calls enq deq cs q = ret (fst (fifo_run zero (cap q) cs (elems q)), q')
            \<and> elems q' = snd (fifo_run zero (cap q) cs (elems q)) \<and> cap q' = cap q \<and> inv b q'"
  using assms
proof (induction cs arbitrary: q)
  case Nil
  then show ?case by simp
next
  case (Cons c cs)
  then have i: "inv (Suc (length cs + b)) q" by simp
  show ?case
  proof (cases c)
    case (Enqueue x)
    with Cons.prems(2) have "valid x" by simp
    from enq_refines [OF i this] obtain q1 where q1:
      "enq x q = ret (fst (fifo_enq (cap q) x (elems q)), q1)"
      "elems q1 = snd (fifo_enq (cap q) x (elems q))" "cap q1 = cap q" "inv (length cs + b) q1"
      by blast
    from Cons.IH [OF q1(4)] Cons.prems(2) obtain q2 where
      "run_calls enq deq cs q1 = ret (fst (fifo_run zero (cap q1) cs (elems q1)), q2)"
      "elems q2 = snd (fifo_run zero (cap q1) cs (elems q1))" "cap q2 = cap q1" "inv b q2"
      by auto
    with q1 Enqueue show ?thesis by (auto simp: case_prod_beta Let_def)
  next
    case Dequeue
    from deq_refines [OF i] obtain q1 where q1:
      "deq q = ret (fst (fifo_deq zero (elems q)), q1)"
      "elems q1 = snd (fifo_deq zero (elems q))" "cap q1 = cap q" "inv (length cs + b) q1"
      by blast
    from Cons.IH [OF q1(4)] Cons.prems(2) obtain q2 where
      "run_calls enq deq cs q1 = ret (fst (fifo_run zero (cap q1) cs (elems q1)), q2)"
      "elems q2 = snd (fifo_run zero (cap q1) cs (elems q1))" "cap q2 = cap q1" "inv b q2"
      by auto
    with q1 Dequeue show ?thesis by (auto simp: case_prod_beta Let_def)
  qed
qed

lemma new_fifo_object:
  assumes "new = ret q" and "inv b q" and "elems q = []" and cap: "\<And>q. cap q = nat (capf q)"
    and c: "capf q = int c" "0 < c"
  shows "fifo_object new enq deq capf zero valid c b"
proof -
  have "\<exists>q'. run_calls enq deq cs q = ret (fst (fifo_run zero c cs []), q') \<and> capf q' = int c"
    if "length cs \<le> b" and "\<forall>x. Enqueue x \<in> set cs \<longrightarrow> valid x" for cs
  proof -
    from that(1) have "length cs + (b - length cs) = b" by simp
    with run_refines [of cs "b - length cs" q] assms that(2)
    obtain q' where "run_calls enq deq cs q = ret (fst (fifo_run zero c cs []), q')" "nat (capf q') = c"
      by auto
    with c(2) show ?thesis by auto
  qed
  with assms show ?thesis by (auto simp: fifo_object_def)
qed

text \<open>FIFO order over a whole run.\<close>

lemma run_fifo_order:
  assumes "inv (length cs) q" and "\<And>x. Enqueue x \<in> set cs \<Longrightarrow> valid x"
  shows "\<exists>as q'. run_calls enq deq cs q = ret (as, q')
            \<and> delivered as @ elems q' = elems q @ accepted cs as \<and> length (elems q') \<le> cap q"
proof -
  from run_refines [of cs 0 q] assms obtain q' where q':
    "run_calls enq deq cs q = ret (fst (fifo_run zero (cap q) cs (elems q)), q')"
    "elems q' = snd (fifo_run zero (cap q) cs (elems q))" "cap q' = cap q" "inv 0 q'"
    by auto
  have "delivered (fst (fifo_run zero (cap q) cs (elems q))) @ elems q'
      = elems q @ accepted cs (fst (fifo_run zero (cap q) cs (elems q)))"
    unfolding q'(2) by (rule fifo_run_conservation) simp
  with q' elems_le_cap show ?thesis by metis
qed

text \<open>Round trip: filling an empty queue and draining it returns the values in order.\<close>

lemma fill_drain:
  assumes "inv (2 * length xs) q" and "elems q = []" and "length xs \<le> cap q"
    and "\<And>x. x \<in> set xs \<Longrightarrow> valid x"
  shows "\<exists>q'. run_calls enq deq (map Enqueue xs @ replicate (length xs) Dequeue) q
        = ret (replicate (length xs) (EnqueueRet None) @ map (\<lambda>x. DequeueRet x None) xs, q')
      \<and> elems q' = [] \<and> inv 0 q'"
proof -
  let ?cs = "map Enqueue xs @ replicate (length xs) Dequeue"
  have "fifo_run zero (cap q) ?cs (elems q)
      = (replicate (length xs) (EnqueueRet None) @ map (\<lambda>x. DequeueRet x None) xs, [])"
    using assms(2,3) fifo_run_enqueues [of "[]" xs "cap q" zero]
      fifo_run_dequeues [of zero "cap q" xs "[]"]
    by (simp add: fifo_run_append)
  moreover have "inv (length ?cs + 0) q"
    using assms(1) by (simp add: mult_2)
  ultimately show ?thesis using run_refines [of ?cs 0 q] assms(4) by auto
qed

end

section \<open>Refinement between queues\<close>

text \<open>A call's result carried along a map on the queue's state.\<close>

definition go_map :: "('q \<Rightarrow> 's) \<Rightarrow> ('r \<times> 'q) go \<Rightarrow> ('r \<times> 's) go" where
  "go_map f = map_option (map_sum id (map_prod id f))"

lemma go_map_simps [simp]:
  "go_map f None = None"
  "go_map f (panics p) = panics p"
  "go_map f (ret (r, q)) = ret (r, f q)"
  by (simp_all add: go_map_def)

lemma go_map_if [simp]: "go_map f (if c then x else y) = (if c then go_map f x else go_map f y)"
  by simp

lemma go_map_ret_iff: "go_map f m = ret (r, s) \<longleftrightarrow> (\<exists>q. m = ret (r, q) \<and> s = f q)"
  by (cases m rule: option.exhaust) (auto simp: go_map_def map_sum_def split: sum.splits)

text \<open>A constructor that commutes with the abstraction returns when the abstract one does.\<close>

lemma go_constructor_lift:
  assumes "map_option (map_sum id f) m = ret s"
  shows "\<exists>q. m = ret q \<and> s = f q"
proof -
  from assms obtain r where r: "m = Some r" "map_sum id f r = Inr s" by auto
  then show ?thesis by (cases r) auto
qed

text \<open>
  A queue whose operations commute with an abstraction onto a queue that keeps the contract
  keeps the contract itself.
\<close>

locale queue_simulation = abstract: bounded_queue enq deq cap elems inv zero valid
  for enq :: "'a \<Rightarrow> 's \<Rightarrow> (err option \<times> 's) go"
    and deq :: "'s \<Rightarrow> (('a \<times> err option) \<times> 's) go"
    and cap :: "'s \<Rightarrow> nat"
    and elems :: "'s \<Rightarrow> 'a list"
    and inv :: "nat \<Rightarrow> 's \<Rightarrow> bool"
    and zero :: 'a
    and valid :: "'a \<Rightarrow> bool" +
  fixes enq' :: "'a \<Rightarrow> 'q \<Rightarrow> (err option \<times> 'q) go"
    and deq' :: "'q \<Rightarrow> (('a \<times> err option) \<times> 'q) go"
    and abs :: "'q \<Rightarrow> 's"
  assumes enq_sim: "inv (Suc b) (abs q) \<Longrightarrow> valid x \<Longrightarrow> go_map abs (enq' x q) = enq x (abs q)"
    and deq_sim: "inv (Suc b) (abs q) \<Longrightarrow> go_map abs (deq' q) = deq (abs q)"

sublocale queue_simulation < concrete: bounded_queue enq' deq' "\<lambda>q. cap (abs q)"
    "\<lambda>q. elems (abs q)" "\<lambda>b q. inv b (abs q)" zero valid
proof unfold_locales
  fix b q x
  assume i: "inv (Suc b) (abs q)"
  show "valid x \<Longrightarrow> \<exists>q'. enq' x q = ret (fst (fifo_enq (cap (abs q)) x (elems (abs q))), q')
      \<and> elems (abs q') = snd (fifo_enq (cap (abs q)) x (elems (abs q)))
      \<and> cap (abs q') = cap (abs q) \<and> inv b (abs q')"
    using abstract.enq_refines [OF i, of x] enq_sim [OF i, of x] by (auto simp: go_map_ret_iff)
  show "\<exists>q'. deq' q = ret (fst (fifo_deq zero (elems (abs q))), q')
      \<and> elems (abs q') = snd (fifo_deq zero (elems (abs q)))
      \<and> cap (abs q') = cap (abs q) \<and> inv b (abs q')"
    using abstract.deq_refines [OF i] deq_sim [OF i] by (auto simp: go_map_ret_iff)
qed (rule abstract.elems_le_cap)

section \<open>Queues behind an interface\<close>

text \<open>
  A queue stored in an interface value: the operations of the interface dispatch to those of the
  concrete type, and what a client sees is the same.
\<close>

lemma go_map_go_bind: "go_bind (go_map f m) g = go_bind m (\<lambda>p. g (fst p, f (snd p)))"
  by (cases m rule: option.exhaust) (auto simp: go_map_def map_sum_def map_prod_def split: sum.splits)

lemma go_map_distrib: "go_map f (go_bind m g) = go_bind m (\<lambda>p. go_map f (g p))"
  by (cases "(m, g)" rule: go_bind.cases) auto

lemma run_calls_lift:
  assumes "\<And>x q. enq' x (con q) = go_map con (enq x q)" and "\<And>q. deq' (con q) = go_map con (deq q)"
  shows "run_calls enq' deq' cs (con q) = go_map con (run_calls enq deq cs q)"
proof (induction cs arbitrary: q)
  case Nil
  then show ?case by simp
next
  case (Cons c cs)
  show ?case
    by (cases c) (simp_all add: assms go_map_go_bind go_map_distrib Cons.IH case_prod_unfold)
qed

lemma fifo_object_lift:
  assumes "fifo_object new enq deq capf zero valid c b" and "b' \<le> b"
    and "\<And>x q. enq' x (con q) = go_map con (enq x q)" and "\<And>q. deq' (con q) = go_map con (deq q)"
    and "\<And>q. capf' (con q) = capf q"
  shows "fifo_object (go_bind new (\<lambda>q. ret (con q))) enq' deq' capf' zero valid c b'"
proof -
  from assms(1) obtain q where q: "new = ret q" "capf q = int c"
    "\<And>cs. length cs \<le> b \<Longrightarrow> \<forall>x. Enqueue x \<in> set cs \<longrightarrow> valid x \<Longrightarrow>
      \<exists>q'. run_calls enq deq cs q = ret (fst (fifo_run zero c cs []), q') \<and> capf q' = int c"
    by (auto simp: fifo_object_def)
  have "\<exists>q'. run_calls enq' deq' cs (con q) = ret (fst (fifo_run zero c cs []), q') \<and> capf' q' = int c"
    if "length cs \<le> b'" and "\<forall>x. Enqueue x \<in> set cs \<longrightarrow> valid x" for cs
  proof -
    from q(3) [of cs] that assms(2) obtain q' where
      "run_calls enq deq cs q = ret (fst (fifo_run zero c cs []), q')" "capf q' = int c" by auto
    with run_calls_lift [of enq' con enq deq' deq cs q, OF assms(3,4)] assms(5) show ?thesis by auto
  qed
  with q(1,2) assms(5) show ?thesis by (auto simp: fifo_object_def)
qed

lemma fifo_object_budget:
  "fifo_object new enq deq capf zero valid c b \<Longrightarrow> b' \<le> b \<Longrightarrow> fifo_object new enq deq capf zero valid c b'"
  by (force simp: fifo_object_def)

lemma fifo_object_run:
  assumes "fifo_object new enq deq capf zero valid c b" and "length cs \<le> b"
    and "\<And>x. Enqueue x \<in> set cs \<Longrightarrow> valid x"
  shows "\<exists>q q'. new = ret q \<and> run_calls enq deq cs q = ret (fst (fifo_run zero c cs []), q')"
  using assms by (auto simp: fifo_object_def)

text \<open>Order and conservation, and the round trip, as a client of a fresh queue sees them.\<close>

lemma fifo_object_fill_drain:
  assumes "fifo_object new enq deq capf zero valid c b" and "length xs \<le> c" and "2 * length xs \<le> b"
    and "\<And>x. x \<in> set xs \<Longrightarrow> valid x"
  shows "\<exists>q q'. new = ret q \<and> run_calls enq deq (map Enqueue xs @ replicate (length xs) Dequeue) q
     = ret (replicate (length xs) (EnqueueRet None) @ map (\<lambda>x. DequeueRet x None) xs, q')"
proof -
  let ?cs = "map Enqueue xs @ replicate (length xs) Dequeue"
  have "fifo_run zero c ?cs [] = (replicate (length xs) (EnqueueRet None) @ map (\<lambda>x. DequeueRet x None) xs, [])"
    using assms(2) fifo_run_enqueues [of "[]" xs c zero] fifo_run_dequeues [of zero c xs "[]"]
    by (simp add: fifo_run_append)
  with fifo_object_run [OF assms(1), of ?cs] assms(3,4) show ?thesis by auto
qed

section \<open>What a client observes\<close>

text \<open>
  The same contract without the abstract FIFO, in terms of what a client sees of one program of
  calls on a fresh queue. The values delivered are the first of those accepted, in order, and the
  others are inside: further calls of \<open>Dequeue\<close> deliver exactly them and then report an empty queue. A call
  is refused if and only if, by the answers before it, as many values are inside as the capacity
  (\<open>Enqueue\<close>), or none (\<open>Dequeue\<close>).
\<close>

fun answer_err :: "'a answer \<Rightarrow> err option" where
  "answer_err (EnqueueRet e) = e"
| "answer_err (DequeueRet v e) = e"

fun must_wait :: "nat \<Rightarrow> 'a call \<Rightarrow> nat \<Rightarrow> bool" where
  "must_wait cap (Enqueue x) inside \<longleftrightarrow> cap \<le> inside"
| "must_wait cap Dequeue inside \<longleftrightarrow> inside = 0"

definition observed_fifo :: "'q go \<Rightarrow> ('a \<Rightarrow> 'q \<Rightarrow> (err option \<times> 'q) go) \<Rightarrow> ('q \<Rightarrow> (('a \<times> err option) \<times> 'q) go)
    \<Rightarrow> 'a \<Rightarrow> nat \<Rightarrow> 'a call list \<Rightarrow> bool" where
  "observed_fifo new enq deq zero cap cs \<longleftrightarrow>
     (\<exists>q as q' rest q''. new = ret q \<and> run_calls enq deq cs q = ret (as, q') \<and> length as = length cs
       \<and> accepted cs as = delivered as @ rest
       \<and> run_calls enq deq (replicate (Suc (length rest)) Dequeue) q'
           = ret (map (\<lambda>x. DequeueRet x None) rest @ [DequeueRet zero (Some ErrWouldBlock)], q'')
       \<and> (\<forall>i < length cs. answer_err (as ! i) \<noteq> None \<longleftrightarrow>
            must_wait cap (cs ! i) (length (accepted (take i cs) (take i as)) - length (delivered (take i as)))))"

lemma run_calls_append:
  "run_calls enq deq (cs @ ds) q = go_bind (run_calls enq deq cs q) (\<lambda>(as, q'). go_bind (run_calls enq deq ds q')
     (\<lambda>(bs, q''). ret (as @ bs, q'')))"
proof (induction cs arbitrary: q)
  case Nil
  show ?case by (simp add: case_prod_beta go_bind_ret_right)
next
  case (Cons c cs)
  then show ?case by (cases c) (simp_all add: go_bind_assoc split_def)
qed

lemma answer_err_fifo_call: "answer_err (fst (fifo_call zero cap c xs)) \<noteq> None \<longleftrightarrow> must_wait cap c (length xs)"
  by (cases c; cases xs) (auto simp: fifo_enq_def)

lemma length_fifo_run_answers: "length (fst (fifo_run zero cap cs xs)) = length cs"
  by (induction cs arbitrary: xs) (simp_all add: case_prod_beta Let_def)

lemma take_fifo_run: "take i (fst (fifo_run zero cap cs xs)) = fst (fifo_run zero cap (take i cs) xs)"
  by (induction cs arbitrary: xs i) (auto simp: case_prod_beta Let_def take_Cons split: nat.split)

lemma fifo_run_nth:
  "i < length cs \<Longrightarrow> fst (fifo_run zero cap cs xs) ! i
     = fst (fifo_call zero cap (cs ! i) (snd (fifo_run zero cap (take i cs) xs)))"
proof (induction cs arbitrary: xs i)
  case (Cons c cs)
  then show ?case by (cases i) (simp_all add: case_prod_beta Let_def)
qed simp

lemma fifo_run_inside:
  "length (snd (fifo_run zero cap cs [])) =
     length (accepted cs (fst (fifo_run zero cap cs []))) - length (delivered (fst (fifo_run zero cap cs [])))"
  using fifo_run_conservation [of zero cap cs "[]", OF prod.collapse [symmetric]]
  by (metis append_Nil diff_add_inverse length_append)

lemma fifo_object_observed:
  assumes ob: "fifo_object new enq deq capf zero valid cap b" and "length cs + cap < b"
    and "\<And>x. Enqueue x \<in> set cs \<Longrightarrow> valid x"
  shows "observed_fifo new enq deq zero cap cs"
proof -
  obtain as rest where r: "fifo_run zero cap cs [] = (as, rest)" by fastforce
  have "length rest \<le> cap" using length_fifo_run [of "[]" cap zero cs] r by simp
  let ?ds = "replicate (Suc (length rest)) Dequeue"
  have ds: "fifo_run zero cap ?ds rest = (map (\<lambda>x. DequeueRet x None) rest @ [DequeueRet zero (Some ErrWouldBlock)], [])"
    unfolding replicate_Suc replicate_append_same [symmetric]
    using fifo_run_dequeues [of zero cap rest "[]"] by (simp add: fifo_run_append)
  from ob obtain q where q: "new = ret q" and run: "\<And>cs. length cs \<le> b \<Longrightarrow> \<forall>x. Enqueue x \<in> set cs \<longrightarrow> valid x \<Longrightarrow>
      \<exists>q'. run_calls enq deq cs q = ret (fst (fifo_run zero cap cs []), q')" by (fastforce simp: fifo_object_def)
  from run [of cs] assms(2,3) r obtain q' where q': "run_calls enq deq cs q = ret (as, q')" by auto
  from run [of "cs @ ?ds"] assms(2,3) \<open>length rest \<le> cap\<close> obtain q'' where
    "run_calls enq deq (cs @ ?ds) q = ret (fst (fifo_run zero cap (cs @ ?ds) []), q'')" by fastforce
  then have "\<exists>q''. run_calls enq deq ?ds q' = ret (map (\<lambda>x. DequeueRet x None) rest @ [DequeueRet zero (Some ErrWouldBlock)], q'')"
    unfolding run_calls_append fifo_run_append r q' prod.case Let_def ds
    by (auto simp: go_bind_ret_iff simp del: replicate_Suc)
  moreover have "answer_err (as ! i) \<noteq> None \<longleftrightarrow>
      must_wait cap (cs ! i) (length (accepted (take i cs) (take i as)) - length (delivered (take i as)))" if "i < length cs" for i
    using fifo_run_nth [OF that, of zero cap "[]"] take_fifo_run [of i zero cap cs "[]"]
    by (simp only: r fst_conv answer_err_fifo_call fifo_run_inside)
  moreover have "length as = length cs" using length_fifo_run_answers [of zero cap cs "[]"] r by simp
  moreover have "accepted cs as = delivered as @ rest" using fifo_run_conservation [OF r] by simp
  ultimately show ?thesis unfolding observed_fifo_def using q q' by blast
qed

end
