(* ===== verification/SPSC.thy ===== *)
theory SPSC
  imports Pow2 Fifo_Spec
begin

text \<open>
  The single-producer single-consumer queues of \<open>spsc.go\<close> and \<open>spsc_indirect_generic.go\<close>: Lamport's
  ring buffer with a cached copy of the other side's index. \<open>SPSC[T]\<close>, \<open>SPSCIndirect\<close> and
  \<open>SPSCPtr\<close> have the same fields; the last two hold 64-bit words and reach their slots by pointer
  arithmetic, without a bounds check and without clearing a slot they have read.

  Each operation is one function from the struct to its result and the struct afterwards, as it
  behaves when the other side does not move during the call. The interleaved executions of the
  two sides are the subject of \<open>SPSC_Concurrent\<close>.
\<close>

section \<open>The queue\<close>

record 'a SPSC =
  head :: u64
  cachedTail :: u64
  tail :: u64
  cachedHead :: u64
  buffer :: "'a list"
  mask_q :: u64

definition NewSPSC :: "'a \<Rightarrow> u64 \<Rightarrow> 'a SPSC go" where
  "NewSPSC zero capacity =
     (if sint capacity < 2 then panics (PanicMsg ''lfq: capacity must be >= 2'')
      else let n = roundToPow2 capacity in
        go_bind (make_slice n zero) (\<lambda>buf.
          ret \<lparr>head = 0, cachedTail = 0, tail = 0, cachedHead = 0, buffer = buf, mask_q = n - 1\<rparr>))"

definition SPSC_Enqueue :: "'a \<Rightarrow> 'a SPSC \<Rightarrow> (err option \<times> 'a SPSC) go" where
  "SPSC_Enqueue elem q =
     (let t = tail q;
          store = (\<lambda>q. if unat (t AND mask_q q) < length (buffer q)
            then ret (None, q\<lparr>buffer := (buffer q)[unat (t AND mask_q q) := elem], tail := t + 1\<rparr>)
            else panics IndexOutOfRange)
      in if t - cachedHead q > mask_q q
         then let q = q\<lparr>cachedHead := head q\<rparr>
              in if t - cachedHead q > mask_q q then ret (Some ErrWouldBlock, q) else store q
         else store q)"

definition SPSC_Dequeue :: "'a \<Rightarrow> 'a SPSC \<Rightarrow> (('a \<times> err option) \<times> 'a SPSC) go" where
  "SPSC_Dequeue zero q =
     (let h = head q;
          load = (\<lambda>q. if unat (h AND mask_q q) < length (buffer q)
            then let elem = buffer q ! unat (h AND mask_q q)
                 in ret ((elem, None),
                         q\<lparr>buffer := (buffer q)[unat (h AND mask_q q) := zero], head := h + 1\<rparr>)
            else panics IndexOutOfRange)
      in if h \<ge> cachedTail q
         then let q = q\<lparr>cachedTail := tail q\<rparr>
              in if h \<ge> cachedTail q then ret ((zero, Some ErrWouldBlock), q) else load q
         else load q)"

definition SPSC_Cap :: "'a SPSC \<Rightarrow> int" where
  "SPSC_Cap q = sint (mask_q q + 1)"

definition spsc_ring :: "nat \<Rightarrow> 'a SPSC \<Rightarrow> bool" where
  "spsc_ring k q \<longleftrightarrow> 1 \<le> k \<and> k \<le> 62 \<and> mask_q q = 2 ^ k - 1 \<and> length (buffer q) = 2 ^ k"

definition spsc_inv :: "nat \<Rightarrow> 'a SPSC \<Rightarrow> bool" where
  "spsc_inv b q \<longleftrightarrow> (\<exists>k\<le>62. spsc_ring k q)
     \<and> unat (head q) \<le> unat (tail q) \<and> unat (tail q) \<le> unat (head q) + length (buffer q)
     \<and> unat (cachedHead q) \<le> unat (head q) \<and> unat (cachedTail q) \<le> unat (tail q)
     \<and> unat (tail q) + b < 2 ^ 64"

definition spsc_elems :: "'a SPSC \<Rightarrow> 'a list" where
  "spsc_elems q = ring_list (\<lambda>i. buffer q ! i) (length (buffer q)) (unat (head q))
                    (unat (tail q) - unat (head q))"

lemma spsc_Cap_eq: "spsc_ring k q \<Longrightarrow> SPSC_Cap q = int (length (buffer q))"
  by (simp add: spsc_ring_def SPSC_Cap_def sint_pow2)

lemma spsc_idx: "spsc_ring k q \<Longrightarrow> unat (p AND mask_q q) = unat p mod length (buffer q)"
  by (simp add: spsc_ring_def unat_and_mask)

lemma spsc_pos: "spsc_ring k q \<Longrightarrow> 0 < length (buffer q)"
  by (simp add: spsc_ring_def)

lemma spsc_full_test:
  assumes "spsc_ring k q" and "unat (c :: u64) \<le> unat t"
  shows "t - c > mask_q q \<longleftrightarrow> unat c + length (buffer q) \<le> unat t"
proof -
  have "unat (mask_q q) = length (buffer q) - 1"
    using assms(1) by (simp add: spsc_ring_def unat_pow2_minus_1)
  then show ?thesis
    using assms spsc_pos [OF assms(1)]
    by (simp only: word_less_nat_alt unat_diff_le) linarith
qed

lemma spsc_push:
  assumes "spsc_ring k q" and "unat (head q) \<le> unat (tail q)"
    and "unat (tail q) < unat (head q) + length (buffer q)" and "unat (tail q) + 1 < 2 ^ 64"
  shows "spsc_elems (q\<lparr>buffer := (buffer q)[unat (tail q) mod length (buffer q) := elem],
                      tail := tail q + 1\<rparr>) = spsc_elems q @ [elem]"
proof -
  let ?n = "length (buffer q)" and ?h = "unat (head q)" and ?t = "unat (tail q)"
  have "ring_list (\<lambda>i. (buffer q)[?t mod ?n := elem] ! i) ?n ?h (Suc (?t - ?h))
      = ring_list (\<lambda>i. buffer q ! i) ?n ?h (?t - ?h)
          @ [(buffer q)[?t mod ?n := elem] ! ((?h + (?t - ?h)) mod ?n)]"
    using assms by (intro ring_list_snoc) auto
  moreover have "unat (tail q + 1) - ?h = Suc (?t - ?h)"
    using assms(2,4) by (simp add: unat_Suc_no_wrap Suc_diff_le)
  ultimately show ?thesis
    using assms spsc_pos [OF assms(1)] by (simp add: spsc_elems_def)
qed

lemma spsc_pop:
  fixes q :: "'a SPSC" and buf' :: "'a list"
  defines "q' \<equiv> \<lambda>c. q\<lparr>cachedTail := c, buffer := buf', head := head q + 1\<rparr>"
  assumes inv: "spsc_inv (Suc b) q" and ne: "unat (head q) < unat (tail q)"
    and len: "length buf' = length (buffer q)"
    and same: "\<And>i. i \<noteq> unat (head q) mod length (buffer q) \<Longrightarrow> buf' ! i = buffer q ! i"
    and c: "unat c \<le> unat (tail q)"
  shows "spsc_elems q = buffer q ! (unat (head q) mod length (buffer q)) # spsc_elems (q' c)"
    and "spsc_inv b (q' c)"
proof -
  let ?n = "length (buffer q)" and ?h = "unat (head q)" and ?t = "unat (tail q)"
  have h1: "unat (head q + 1) = Suc ?h"
    using ne unat_u64_lt [of "tail q"] by (subst unat_Suc_no_wrap) auto
  have "ring_list (\<lambda>i. buffer q ! i) ?n ?h (Suc (?t - Suc ?h))
      = buffer q ! (?h mod ?n) # ring_list (\<lambda>i. buf' ! i) ?n (Suc ?h) (?t - Suc ?h)"
    using inv ne same by (intro ring_list_tl) (auto simp: spsc_inv_def)
  then show "spsc_elems q = buffer q ! (?h mod ?n) # spsc_elems (q' c)"
    using ne h1 len by (simp add: spsc_elems_def q'_def Suc_diff_Suc)
  show "spsc_inv b (q' c)"
    using inv ne len c h1 by (auto simp: spsc_inv_def spsc_ring_def q'_def)
qed

lemma spsc_Enqueue_refines:
  assumes "spsc_inv (Suc b) q"
  shows "\<exists>q'. SPSC_Enqueue x q = ret (fst (fifo_enq (nat (SPSC_Cap q)) x (spsc_elems q)), q')
     \<and> spsc_elems q' = snd (fifo_enq (nat (SPSC_Cap q)) x (spsc_elems q))
     \<and> nat (SPSC_Cap q') = nat (SPSC_Cap q) \<and> spsc_inv b q'"
proof -
  from assms obtain k where r: "spsc_ring k q" and k: "k \<le> 62"
    by (auto simp: spsc_inv_def)
  let ?n = "length (buffer q)" and ?h = "unat (head q)" and ?t = "unat (tail q)"
  have i: "?h \<le> ?t" "?t \<le> ?h + ?n" "unat (cachedHead q) \<le> ?h" "unat (cachedTail q) \<le> ?t"
    "?t + Suc b < 2 ^ 64"
    using assms by (auto simp: spsc_inv_def)
  have len: "length (spsc_elems q) = ?t - ?h" by (simp add: spsc_elems_def)
  have cap: "nat (SPSC_Cap q) = ?n" using spsc_Cap_eq [OF r] by simp
  have r': "spsc_ring k (q\<lparr>cachedHead := c, buffer := (buffer q)[j := x], tail := u\<rparr>)" for c j u
    using r by (simp add: spsc_ring_def)
  show ?thesis
  proof (cases "?t < ?h + ?n")
    case True
    let ?q' = "\<lambda>c. q\<lparr>cachedHead := c, buffer := (buffer q)[?t mod ?n := x], tail := tail q + 1\<rparr>"
    have t1: "unat (tail q + 1) = ?t + 1" using i by (subst unat_Suc_no_wrap) auto
    have e: "spsc_elems (?q' c) = spsc_elems q @ [x]" for c
      using spsc_push [OF r i(1) True, of x] i(5) by (simp add: spsc_elems_def)
    have inv: "spsc_inv b (?q' c)" if "unat c \<le> ?h" for c
      using i that True t1 r' k by (auto simp: spsc_inv_def)
    have c: "nat (SPSC_Cap (?q' c)) = nat (SPSC_Cap q)" for c
      by (simp add: SPSC_Cap_def)
    have "SPSC_Enqueue x q = ret (None, ?q' (if tail q - cachedHead q > mask_q q then head q else cachedHead q))"
      using True i spsc_idx [OF r] spsc_pos [OF r] spsc_full_test [OF r, of "head q" "tail q"]
      by (simp add: SPSC_Enqueue_def Let_def)
    then show ?thesis using e inv c i(3) True len cap i(1) by auto
  next
    case False
    then have full: "tail q - cachedHead q > mask_q q" "tail q - head q > mask_q q"
      using i spsc_full_test [OF r, of "head q" "tail q"] spsc_full_test [OF r, of "cachedHead q" "tail q"]
      by auto
    have "spsc_inv b (q\<lparr>cachedHead := head q\<rparr>)"
      using i r k by (auto simp: spsc_inv_def spsc_ring_def)
    with full False len cap i show ?thesis
      by (auto simp: SPSC_Enqueue_def Let_def spsc_elems_def SPSC_Cap_def)
  qed
qed

text \<open>The consumer's test and its refresh of \<open>cachedTail\<close>, shared by the three dequeues.\<close>

lemma spsc_Dequeue_refines_gen:
  assumes inv: "spsc_inv (Suc b) q"
    and deq: "\<And>k. spsc_ring k q \<Longrightarrow> deq q =
      (if head q < cachedTail q \<or> head q < tail q
       then ret ((buffer q ! (unat (head q) mod length (buffer q)), None),
         q\<lparr>cachedTail := (if head q \<ge> cachedTail q then tail q else cachedTail q),
           buffer := buf', head := head q + 1\<rparr>)
       else ret ((zero, Some ErrWouldBlock), q\<lparr>cachedTail := tail q\<rparr>))"
    and len: "length buf' = length (buffer q)"
    and same: "\<And>i. i \<noteq> unat (head q) mod length (buffer q) \<Longrightarrow> buf' ! i = buffer q ! i"
  shows "\<exists>q'. deq q = ret (fst (fifo_deq zero (spsc_elems q)), q')
     \<and> spsc_elems q' = snd (fifo_deq zero (spsc_elems q))
     \<and> nat (SPSC_Cap q') = nat (SPSC_Cap q) \<and> spsc_inv b q'"
proof -
  from inv obtain k where r: "spsc_ring k q" by (auto simp: spsc_inv_def)
  have i: "unat (head q) \<le> unat (tail q)" "unat (cachedTail q) \<le> unat (tail q)"
    using inv by (auto simp: spsc_inv_def)
  let ?c = "if head q \<ge> cachedTail q then tail q else cachedTail q"
  show ?thesis
  proof (cases "unat (head q) < unat (tail q)")
    case True
    have "unat ?c \<le> unat (tail q)" using i by simp
    note p = spsc_pop [OF inv True len same this]
    from True deq [OF r] show ?thesis
      using p(2) by (auto simp: p(1) SPSC_Cap_def word_less_nat_alt)
  next
    case False
    then have "\<not> head q < cachedTail q" "\<not> head q < tail q"
      using i by (auto simp: word_less_nat_alt)
    moreover have "spsc_inv b (q\<lparr>cachedTail := tail q\<rparr>)"
      using inv by (auto simp: spsc_inv_def spsc_ring_def)
    ultimately show ?thesis
      using deq [OF r] False by (auto simp: spsc_elems_def SPSC_Cap_def)
  qed
qed

lemma spsc_Dequeue_refines:
  assumes "spsc_inv (Suc b) q"
  shows "\<exists>q'. SPSC_Dequeue zero q = ret (fst (fifo_deq zero (spsc_elems q)), q')
     \<and> spsc_elems q' = snd (fifo_deq zero (spsc_elems q))
     \<and> nat (SPSC_Cap q') = nat (SPSC_Cap q) \<and> spsc_inv b q'"
proof (rule spsc_Dequeue_refines_gen [OF assms,
      where buf' = "(buffer q)[unat (head q) mod length (buffer q) := zero]"])
  fix k
  assume r: "spsc_ring k q"
  then show "SPSC_Dequeue zero q =
      (if head q < cachedTail q \<or> head q < tail q
       then ret ((buffer q ! (unat (head q) mod length (buffer q)), None),
         q\<lparr>cachedTail := (if head q \<ge> cachedTail q then tail q else cachedTail q),
           buffer := (buffer q)[unat (head q) mod length (buffer q) := zero], head := head q + 1\<rparr>)
       else ret ((zero, Some ErrWouldBlock), q\<lparr>cachedTail := tail q\<rparr>))"
    using spsc_idx [OF r] spsc_pos [OF r] by (auto simp: SPSC_Dequeue_def Let_def not_less)
qed auto

interpretation spsc: bounded_queue SPSC_Enqueue "SPSC_Dequeue zero" "\<lambda>q. nat (SPSC_Cap q)"
    spsc_elems spsc_inv zero "\<lambda>_. True" for zero
proof unfold_locales
  show "length (spsc_elems q) \<le> nat (SPSC_Cap q)" if "spsc_inv b q" for b and q :: "'a SPSC"
    using that spsc_Cap_eq by (fastforce simp: spsc_inv_def spsc_elems_def)
qed (auto intro: spsc_Enqueue_refines spsc_Dequeue_refines)

text \<open>The constructor: what it builds, and when it panics.\<close>

lemma NewSPSC_ok:
  assumes "2 \<le> sint c" and "sint c \<le> 2 ^ 62"
  shows "\<exists>q. NewSPSC zero c = ret q \<and> spsc_inv (2 ^ 64 - 1) q \<and> spsc_elems q = []
           \<and> SPSC_Cap q = sint (roundToPow2 c)"
proof -
  from assms obtain k where k: "1 \<le> k" "k \<le> 62" "roundToPow2 c = 2 ^ k"
    by (rule roundToPow2_in_range) blast
  have "0 \<le> sint (2 ^ k :: u64)" using k(2) by (simp add: sint_pow2)
  with assms k show ?thesis
    by (auto simp: NewSPSC_def make_slice_def spsc_inv_def spsc_ring_def spsc_elems_def
        SPSC_Cap_def unat_pow2)
qed

lemma NewSPSC_panics:
  "sint c < 2 \<Longrightarrow> NewSPSC zero c = panics (PanicMsg ''lfq: capacity must be >= 2'')"
  "2 ^ 62 < sint c \<Longrightarrow> NewSPSC zero c = panics MakeSliceLenOutOfRange"
  by (simp_all add: NewSPSC_def roundToPow2_overflow make_slice_def sint_neg_iff)

section \<open>\<open>SPSCIndirect\<close> and \<open>SPSCPtr\<close>\<close>

text \<open>
  A \<open>uintptr\<close> and an \<open>unsafe.Pointer\<close> are 64-bit words, the nil pointer is 0. Both queues reach
  \<open>buffer[i]\<close> as \<open>*(base + i * ptrSize)\<close>, which is the slot \<open>i\<close> for \<open>i < len(buffer)\<close> and undefined
  behaviour beyond.
\<close>

type_synonym SPSCIndirect = "u64 SPSC"
type_synonym SPSCPtr = "u64 SPSC"

definition NewSPSCIndirect :: "u64 \<Rightarrow> SPSCIndirect go" where
  "NewSPSCIndirect capacity =
     (if sint capacity < 2 then panics (PanicMsg ''lfq: capacity must be >= 2'')
      else let n = roundToPow2 capacity in
        go_bind (make_slice n 0) (\<lambda>buf.
          ret \<lparr>head = 0, cachedTail = 0, tail = 0, cachedHead = 0, buffer = buf, mask_q = n - 1\<rparr>))"

definition SPSCIndirect_Enqueue :: "u64 \<Rightarrow> SPSCIndirect \<Rightarrow> (err option \<times> SPSCIndirect) go" where
  "SPSCIndirect_Enqueue elem q =
     (let t = tail q;
          store = (\<lambda>q. if unat (t AND mask_q q) < length (buffer q)
            then ret (None, q\<lparr>buffer := (buffer q)[unat (t AND mask_q q) := elem], tail := t + 1\<rparr>)
            else panics UnsafeOutOfBounds)
      in if t - cachedHead q > mask_q q
         then let q = q\<lparr>cachedHead := head q\<rparr>
              in if t - cachedHead q > mask_q q then ret (Some ErrWouldBlock, q) else store q
         else store q)"

definition SPSCIndirect_Dequeue :: "SPSCIndirect \<Rightarrow> ((u64 \<times> err option) \<times> SPSCIndirect) go" where
  "SPSCIndirect_Dequeue q =
     (let h = head q;
          load = (\<lambda>q. if unat (h AND mask_q q) < length (buffer q)
            then ret ((buffer q ! unat (h AND mask_q q), None), q\<lparr>head := h + 1\<rparr>)
            else panics UnsafeOutOfBounds)
      in if h \<ge> cachedTail q
         then let q = q\<lparr>cachedTail := tail q\<rparr>
              in if h \<ge> cachedTail q then ret ((0, Some ErrWouldBlock), q) else load q
         else load q)"

definition SPSCIndirect_Cap :: "SPSCIndirect \<Rightarrow> int" where
  "SPSCIndirect_Cap q = sint (mask_q q + 1)"

definition NewSPSCPtr :: "u64 \<Rightarrow> SPSCPtr go" where
  "NewSPSCPtr capacity =
     (if sint capacity < 2 then panics (PanicMsg ''lfq: capacity must be >= 2'')
      else let n = roundToPow2 capacity in
        go_bind (make_slice n 0) (\<lambda>buf.
          ret \<lparr>head = 0, cachedTail = 0, tail = 0, cachedHead = 0, buffer = buf, mask_q = n - 1\<rparr>))"

definition SPSCPtr_Enqueue :: "u64 \<Rightarrow> SPSCPtr \<Rightarrow> (err option \<times> SPSCPtr) go" where
  "SPSCPtr_Enqueue elem q =
     (let t = tail q;
          store = (\<lambda>q. if unat (t AND mask_q q) < length (buffer q)
            then ret (None, q\<lparr>buffer := (buffer q)[unat (t AND mask_q q) := elem], tail := t + 1\<rparr>)
            else panics UnsafeOutOfBounds)
      in if t - cachedHead q > mask_q q
         then let q = q\<lparr>cachedHead := head q\<rparr>
              in if t - cachedHead q > mask_q q then ret (Some ErrWouldBlock, q) else store q
         else store q)"

definition SPSCPtr_Dequeue :: "SPSCPtr \<Rightarrow> ((u64 \<times> err option) \<times> SPSCPtr) go" where
  "SPSCPtr_Dequeue q =
     (let h = head q;
          load = (\<lambda>q. if unat (h AND mask_q q) < length (buffer q)
            then ret ((buffer q ! unat (h AND mask_q q), None), q\<lparr>head := h + 1\<rparr>)
            else panics UnsafeOutOfBounds)
      in if h \<ge> cachedTail q
         then let q = q\<lparr>cachedTail := tail q\<rparr>
              in if h \<ge> cachedTail q then ret ((0, Some ErrWouldBlock), q) else load q
         else load q)"

definition SPSCPtr_Cap :: "SPSCPtr \<Rightarrow> int" where
  "SPSCPtr_Cap q = sint (mask_q q + 1)"

text \<open>The two are the same algorithm, and their unchecked accesses stay in bounds.\<close>

lemma spsc_Ptr_Indirect:
  "NewSPSCPtr = NewSPSCIndirect" "SPSCPtr_Enqueue = SPSCIndirect_Enqueue"
  "SPSCPtr_Dequeue = SPSCIndirect_Dequeue" "SPSCPtr_Cap = SPSCIndirect_Cap"
  by (intro ext, simp add: NewSPSCPtr_def NewSPSCIndirect_def SPSCPtr_Enqueue_def
      SPSCIndirect_Enqueue_def SPSCPtr_Dequeue_def SPSCIndirect_Dequeue_def
      SPSCPtr_Cap_def SPSCIndirect_Cap_def)+

lemma spsc_Indirect_generic:
  "NewSPSCIndirect = NewSPSC 0" "SPSCIndirect_Cap = SPSC_Cap"
  "spsc_ring k q \<Longrightarrow> SPSCIndirect_Enqueue x q = SPSC_Enqueue x q"
  by (intro ext, simp add: NewSPSCIndirect_def NewSPSC_def SPSCIndirect_Cap_def SPSC_Cap_def)+
    (use spsc_idx [of k q] spsc_pos [of k q] in
      \<open>simp add: SPSCIndirect_Enqueue_def SPSC_Enqueue_def Let_def\<close>)

lemma spsc_Indirect_Enqueue_refines:
  assumes "spsc_inv (Suc b) q"
  shows "\<exists>q'. SPSCIndirect_Enqueue x q
        = ret (fst (fifo_enq (nat (SPSCIndirect_Cap q)) x (spsc_elems q)), q')
     \<and> spsc_elems q' = snd (fifo_enq (nat (SPSCIndirect_Cap q)) x (spsc_elems q))
     \<and> nat (SPSCIndirect_Cap q') = nat (SPSCIndirect_Cap q) \<and> spsc_inv b q'"
  using spsc_Enqueue_refines [OF assms, of x] assms spsc_Indirect_generic(3)
  by (auto simp: spsc_Indirect_generic(2) spsc_inv_def)

lemma spsc_Indirect_Dequeue_refines:
  assumes "spsc_inv (Suc b) q"
  shows "\<exists>q'. SPSCIndirect_Dequeue q = ret (fst (fifo_deq 0 (spsc_elems q)), q')
     \<and> spsc_elems q' = snd (fifo_deq 0 (spsc_elems q))
     \<and> nat (SPSCIndirect_Cap q') = nat (SPSCIndirect_Cap q) \<and> spsc_inv b q'"
  unfolding spsc_Indirect_generic(2)
proof (rule spsc_Dequeue_refines_gen [OF assms, where buf' = "buffer q"])
  fix k
  assume r: "spsc_ring k q"
  show "SPSCIndirect_Dequeue q =
      (if head q < cachedTail q \<or> head q < tail q
       then ret ((buffer q ! (unat (head q) mod length (buffer q)), None),
         q\<lparr>cachedTail := (if head q \<ge> cachedTail q then tail q else cachedTail q),
           buffer := buffer q, head := head q + 1\<rparr>)
       else ret ((0, Some ErrWouldBlock), q\<lparr>cachedTail := tail q\<rparr>))"
    using spsc_idx [OF r] spsc_pos [OF r] by (auto simp: SPSCIndirect_Dequeue_def Let_def not_less)
qed auto

interpretation spsc_ind: bounded_queue SPSCIndirect_Enqueue SPSCIndirect_Dequeue
    "\<lambda>q. nat (SPSCIndirect_Cap q)" spsc_elems spsc_inv 0 "\<lambda>_. True"
  by unfold_locales
    (use spsc_Indirect_Enqueue_refines spsc_Indirect_Dequeue_refines in blast,
      use spsc_Indirect_Dequeue_refines in blast,
      simp add: spsc_Indirect_generic(2) spsc.elems_le_cap)

interpretation spsc_ptr: bounded_queue SPSCPtr_Enqueue SPSCPtr_Dequeue
    "\<lambda>q. nat (SPSCPtr_Cap q)" spsc_elems spsc_inv 0 "\<lambda>_. True"
  unfolding spsc_Ptr_Indirect by (rule spsc_ind.bounded_queue_axioms)

end
