(* ===== verification/Seq_Ring.thy ===== *)
theory Seq_Ring
  imports Pow2 Fifo_Spec
begin

text \<open>
  The per-slot sequence numbers of the CAS-based queues (\<open>*Seq\<close>), independent of how a queue
  stores them: the slot of position \<open>p\<close> carries \<open>p\<close> while it waits for the producer of
  position \<open>p\<close> and \<open>p + 1\<close> while it holds that producer's value. All arithmetic is modulo \<open>2^64\<close>, so
  the lemmas hold across the wrap-around of the counters.
\<close>

definition seq_ring :: "nat \<Rightarrow> u64 \<Rightarrow> u64 \<Rightarrow> (nat \<Rightarrow> u64) \<Rightarrow> bool" where
  "seq_ring n h t S \<longleftrightarrow> unat (t - h) \<le> n \<and>
     (\<forall>i<n. S ((unat h + i) mod n) = h + of_nat i + (if i < unat (t - h) then 1 else 0))"

lemma seq_ring_cong:
  "(\<And>i. i < n \<Longrightarrow> S i = S' i) \<Longrightarrow> seq_ring n h t S = seq_ring n h t S'"
  by (auto simp: seq_ring_def)

lemma seq_ringD:
  "seq_ring n h t S \<Longrightarrow> i < n \<Longrightarrow>
   S ((unat h + i) mod n) = h + of_nat i + (if i < unat (t - h) then 1 else 0)"
  by (simp add: seq_ring_def)

lemma seq_ring_init: "n \<le> 2 ^ 62 \<Longrightarrow> seq_ring n 0 0 of_nat"
  by (simp add: seq_ring_def)

lemma seq_ring_len: "seq_ring n h t S \<Longrightarrow> unat (t - h) \<le> n"
  by (simp add: seq_ring_def)

text \<open>Reading the slot under the tail and under the head.\<close>

lemma tail_index:
  "k \<le> 62 \<Longrightarrow> unat t mod 2 ^ k = (unat h + unat (t - h)) mod (2 ^ k :: nat)" for t h :: u64
  using unat_add_mod_pow2 [of k h "t - h"] by simp

lemma of_nat_unat_u64 [simp]: "of_nat (unat x) = (x :: u64)"
  by simp

lemma seq_at_tail:
  assumes "k \<le> 62" and "seq_ring (2 ^ k) h t S" and "unat (t - h) < 2 ^ k"
  shows "S (unat t mod 2 ^ k) = t"
proof -
  have "S ((unat h + unat (t - h)) mod 2 ^ k) = h + of_nat (unat (t - h))"
    using assms(2,3) unfolding seq_ring_def by auto
  with tail_index [OF assms(1), of t h] show ?thesis by simp
qed

lemma seq_at_full_tail:
  assumes "k \<le> 62" and "seq_ring (2 ^ k) h t S" and "unat (t - h) = 2 ^ k"
  shows "S (unat t mod 2 ^ k) = t - 2 ^ k + 1"
proof -
  have "S ((unat h + 0) mod 2 ^ k) = h + 1"
    using seq_ringD [OF assms(2), of 0] assms(3) by simp
  moreover have "unat t mod 2 ^ k = unat h mod 2 ^ k"
    using tail_index [OF assms(1), of t h] assms(3) by simp
  moreover have "t - h = 2 ^ k"
    using assms(1,3) by (intro word_unat_eq_iff [THEN iffD2]) (simp add: unat_pow2)
  ultimately show ?thesis by (simp add: algebra_simps)
qed

lemma seq_at_head:
  assumes "k \<le> 62" and "seq_ring (2 ^ k) h t S"
  shows "S (unat h mod 2 ^ k) = (if t = h then h else h + 1)"
proof -
  have "S ((unat h + 0) mod 2 ^ k) = h + of_nat 0 + (if 0 < unat (t - h) then 1 else 0)"
    using seq_ringD [OF assms(2), of 0] by simp
  then show ?thesis by (simp add: unat_gt_0)
qed

text \<open>The signed differences the code tests.\<close>

lemma sint_uminus_neg: "0 < unat x \<Longrightarrow> unat x \<le> 2 ^ 63 \<Longrightarrow> sint (- x) < 0" for x :: u64
proof -
  assume x: "0 < unat x" "unat x \<le> 2 ^ 63"
  have "unat (- x) = 2 ^ 64 - unat x"
    using x(1) unat_sub_if' [of 0 x] by (auto simp: word_le_nat_alt)
  with x show ?thesis by (simp add: sint_neg_iff)
qed

lemma full_diff: "1 \<le> k \<Longrightarrow> k \<le> 62 \<Longrightarrow> sint (t - 2 ^ k + 1 - t :: u64) < 0"
proof -
  assume k: "1 \<le> k" "k \<le> 62"
  have "(2 :: nat) ^ 1 \<le> 2 ^ k" using k by (intro power_increasing) auto
  with k pow2_le_62 [OF k(2)] have "sint (- (2 ^ k - 1 :: u64)) < 0"
    by (intro sint_uminus_neg) (simp_all add: unat_pow2_minus_1)
  moreover have "t - 2 ^ k + 1 - t = - (2 ^ k - 1 :: u64)" by simp
  ultimately show ?thesis by (simp only:)
qed

lemma minus_1_neg: "sint (x - (x + 1) :: u64) < 0"
  by (simp add: sint_neg_iff)

text \<open>One enqueue and one dequeue.\<close>

lemma unat_succ_diff: "unat (t - h) < 2 ^ 62 + 1 \<Longrightarrow> unat (t + 1 - h) = Suc (unat (t - h))" for t h :: u64
proof -
  assume "unat (t - h) < 2 ^ 62 + 1"
  then have "unat ((t - h) + 1) = Suc (unat (t - h))"
    by (subst unat_Suc_no_wrap) auto
  then show ?thesis by (simp add: algebra_simps)
qed

lemma unat_diff_succ: "t \<noteq> h \<Longrightarrow> unat (t - (h + 1)) = unat (t - h) - 1" for t h :: u64
proof -
  assume "t \<noteq> h"
  then have "1 \<le> unat (t - h)" by (simp add: unat_gt_0 Suc_le_eq)
  then have "unat ((t - h) - 1) = unat (t - h) - unat (1 :: u64)"
    by (intro unat_diff_le) simp
  then show ?thesis by (simp add: algebra_simps)
qed

lemma seq_ring_push:
  assumes "k \<le> 62" and "seq_ring (2 ^ k) h t S" and "unat (t - h) < 2 ^ k"
  shows "seq_ring (2 ^ k) h (t + 1) (S(unat t mod 2 ^ k := t + 1))"
proof -
  have t1: "unat (t + 1 - h) = Suc (unat (t - h))"
    using assms(3) pow2_le_62 [OF assms(1)] by (intro unat_succ_diff) simp
  have "(S(unat t mod 2 ^ k := t + 1)) ((unat h + i) mod 2 ^ k)
      = h + of_nat i + (if i < Suc (unat (t - h)) then 1 else 0)" if i: "i < 2 ^ k" for i
  proof (cases "i = unat (t - h)")
    case True
    then show ?thesis using tail_index [OF assms(1), of t h] by simp
  next
    case False
    then have "(unat h + i) mod 2 ^ k \<noteq> unat t mod 2 ^ k"
      unfolding tail_index [OF assms(1), of t h] using mod_pow2_inj i assms(3) by blast
    with False i assms(2) show ?thesis by (auto simp: seq_ring_def)
  qed
  with t1 assms(3) show ?thesis by (simp add: seq_ring_def)
qed

lemma seq_ring_pop:
  assumes "k \<le> 62" and "seq_ring (2 ^ k) h t S" and "t \<noteq> h"
  shows "seq_ring (2 ^ k) (h + 1) t (S(unat h mod 2 ^ k := h + 2 ^ k))"
proof -
  let ?n = "2 ^ k :: nat"
  have len: "unat (t - (h + 1)) = unat (t - h) - 1" by (rule unat_diff_succ [OF assms(3)])
  have h1: "(unat (h + 1) + i) mod ?n = (unat h + Suc i) mod ?n" for i
  proof -
    have "(unat (h + 1) + i) mod ?n = (unat (h + 1) mod ?n + i) mod ?n"
      by (simp only: mod_add_left_eq)
    also have "unat (h + 1) mod ?n = (unat h + 1) mod ?n"
      using unat_add_mod_pow2 [of k h 1] assms(1) by simp
    also have "((unat h + 1) mod ?n + i) mod ?n = (unat h + 1 + i) mod ?n"
      by (simp only: mod_add_left_eq)
    finally show ?thesis by simp
  qed
  have "(S(unat h mod ?n := h + 2 ^ k)) ((unat (h + 1) + i) mod ?n)
      = h + 1 + of_nat i + (if i < unat (t - h) - 1 then 1 else 0)" if i: "i < ?n" for i
  proof (cases "Suc i = ?n")
    case True
    then have "(unat h + Suc i) mod ?n = unat h mod ?n" by simp
    moreover have "(1 :: u64) + of_nat i = 2 ^ k"
      using arg_cong [OF True, of "of_nat :: nat \<Rightarrow> u64"] by simp
    moreover have "\<not> i < unat (t - h) - 1"
      using seq_ring_len [OF assms(2)] True by simp
    ultimately show ?thesis using h1 by (simp add: add.assoc)
  next
    case False
    with i have "Suc i < ?n" by simp
    then have "(unat h + Suc i) mod ?n \<noteq> (unat h + 0) mod ?n"
      using mod_pow2_inj [of "Suc i" ?n 0 "unat h"] by auto
    with \<open>Suc i < ?n\<close> assms(2) show ?thesis
      unfolding h1 by (auto simp: seq_ring_def add_ac)
  qed
  with seq_ring_len [OF assms(2)] show ?thesis by (simp add: seq_ring_def len)
qed

end
