(* ===== verification/Atomix.thy ===== *)
theory Atomix
  imports Go_Prelude
begin

text \<open>
  The read-modify-write primitives of the third-party package \<open>code.hybscloud.com/atomix\<close>, which
  the queues call and whose source is not part of this repository. They are a parameter of the
  model: a record of functions that every operation using them takes as its first argument.
  What the queues rely on is the package's documented behaviour, the predicate \<open>atomix_ok\<close>.

  An atomic cell is represented by the value it holds, so \<open>Load*\<close> reads the field and
  \<open>Store*\<close> replaces it. A read-modify-write primitive takes the cell's content first and returns
  its Go result together with the cell's content afterwards. The memory orderings in the names
  (\<open>Relaxed\<close>, \<open>Acquire\<close>, \<open>Release\<close>, \<open>AcqRel\<close>) do not change what a call does to its cell.
\<close>

record atomix =
  CompareAndSwap64 :: "u64 \<Rightarrow> u64 \<Rightarrow> u64 \<Rightarrow> bool \<times> u64"
  CompareAndSwapUintptr :: "u64 \<Rightarrow> u64 \<Rightarrow> u64 \<Rightarrow> bool \<times> u64"
  CompareAndSwap128 :: "u64 \<times> u64 \<Rightarrow> u64 \<times> u64 \<Rightarrow> u64 \<times> u64 \<Rightarrow> bool \<times> (u64 \<times> u64)"
  Add64 :: "u64 \<Rightarrow> u64 \<Rightarrow> u64 \<times> u64"
  AddInt64 :: "u64 \<Rightarrow> u64 \<Rightarrow> u64 \<times> u64"

definition cas_spec :: "('c \<Rightarrow> 'c \<Rightarrow> 'c \<Rightarrow> bool \<times> 'c) \<Rightarrow> bool" where
  "cas_spec cas \<longleftrightarrow>
     (\<forall>cell old new. cas cell old new = (if cell = old then (True, new) else (False, cell)))"

definition add_spec :: "(u64 \<Rightarrow> u64 \<Rightarrow> u64 \<times> u64) \<Rightarrow> bool" where
  "add_spec add \<longleftrightarrow> (\<forall>cell delta. add cell delta = (cell + delta, cell + delta))"

definition atomix_ok :: "atomix \<Rightarrow> bool" where
  "atomix_ok A \<longleftrightarrow> cas_spec (CompareAndSwap64 A) \<and> cas_spec (CompareAndSwapUintptr A)
     \<and> cas_spec (CompareAndSwap128 A) \<and> add_spec (Add64 A) \<and> add_spec (AddInt64 A)"

text \<open>The interface as a locale: what the lemmas of the queues use of it.\<close>

locale atomix_sem =
  fixes A :: atomix
  assumes ok: "atomix_ok A"
begin

lemma cas64: "CompareAndSwap64 A cell old new = (if cell = old then (True, new) else (False, cell))"
  using ok by (simp add: atomix_ok_def cas_spec_def)

lemma casUintptr:
  "CompareAndSwapUintptr A cell old new = (if cell = old then (True, new) else (False, cell))"
  using ok by (simp add: atomix_ok_def cas_spec_def)

lemma cas128: "CompareAndSwap128 A cell old new = (if cell = old then (True, new) else (False, cell))"
  using ok unfolding atomix_ok_def cas_spec_def by blast

lemma add64: "Add64 A cell delta = (cell + delta, cell + delta)"
  using ok by (simp add: atomix_ok_def add_spec_def)

lemma addInt64: "AddInt64 A cell delta = (cell + delta, cell + delta)"
  using ok by (simp add: atomix_ok_def add_spec_def)

lemmas rmw = cas64 casUintptr cas128 add64 addInt64

end

text \<open>An implementation of the documented behaviour, which shows that it can be met.\<close>

definition cas_impl :: "'c \<Rightarrow> 'c \<Rightarrow> 'c \<Rightarrow> bool \<times> 'c" where
  "cas_impl cell old new = (if cell = old then (True, new) else (False, cell))"

definition add_impl :: "u64 \<Rightarrow> u64 \<Rightarrow> u64 \<times> u64" where
  "add_impl cell delta = (cell + delta, cell + delta)"

definition atomix_impl :: atomix where
  "atomix_impl = \<lparr>CompareAndSwap64 = cas_impl, CompareAndSwapUintptr = cas_impl,
     CompareAndSwap128 = cas_impl, Add64 = add_impl, AddInt64 = add_impl\<rparr>"

lemma atomix_ok_impl: "atomix_ok atomix_impl"
  by (simp add: atomix_ok_def atomix_impl_def cas_spec_def add_spec_def cas_impl_def add_impl_def)

interpretation impl: atomix_sem atomix_impl
  by unfold_locales (rule atomix_ok_impl)

end
