(* ===== verification/Seq_Queues.thy ===== *)
theory Seq_Queues
  imports Seq_Ring Atomix
begin

text \<open>
  The CAS-based generic queues \<open>MPMCSeq[T]\<close> (\<open>mpmc_seq.go\<close>), \<open>MPSCSeq[T]\<close> (\<open>mpsc_seq.go\<close>) and
  \<open>SPMCSeq[T]\<close> (\<open>spmc_seq.go\<close>). The three structs have the same fields and the same slot type, so
  one record serves the three.

  Each operation is one function, as it behaves when no other goroutine moves during the call;
  a retry loop is a \<^theory_text>\<open>partial_function\<close>, whose value \<open>None\<close> would be a call that never
  returns. \<open>spin.Wait.Once\<close> only pauses the processor and is left out.
\<close>

section \<open>Slots and structs\<close>

record 'a mpmcSeqSlot =
  seq :: u64
  data :: 'a

record 'a MPMCSeq =
  tail :: u64
  head :: u64
  buffer :: "'a mpmcSeqSlot list"
  mask_q :: u64
  capacity :: u64

type_synonym 'a mpscSeqSlot = "'a mpmcSeqSlot"
type_synonym 'a MPSCSeq = "'a MPMCSeq"
type_synonym 'a spmcSeqSlot = "'a mpmcSeqSlot"
type_synonym 'a SPMCSeq = "'a MPMCSeq"

section \<open>\<open>MPMCSeq\<close>\<close>

definition NewMPMCSeq :: "'a \<Rightarrow> u64 \<Rightarrow> 'a MPMCSeq go" where
  "NewMPMCSeq zero cap =
     (if sint cap < 2 then panics (PanicMsg ''lfq: capacity must be >= 2'')
      else let n = roundToPow2 cap in
        go_bind (make_slice n \<lparr>seq = 0, data = zero\<rparr>) (\<lambda>buf.
          ret \<lparr>tail = 0, head = 0,
               buffer = fold (\<lambda>i buf. buf[i := (buf ! i)\<lparr>seq := of_nat i\<rparr>]) [0..<unat n] buf,
               mask_q = n - 1, capacity = n\<rparr>))"

partial_function (option) MPMCSeq_Enqueue
  :: "atomix \<Rightarrow> 'a \<Rightarrow> 'a MPMCSeq \<Rightarrow> (err option \<times> 'a MPMCSeq) go" where
  "MPMCSeq_Enqueue A elem q =
     (let t = tail q; i = unat (t AND mask_q q)
      in if \<not> i < length (buffer q) then panics IndexOutOfRange
         else let s = seq (buffer q ! i); diff = s - t
           in if diff = 0
              then (case CompareAndSwap64 A (tail q) t (t + 1) of (swapped, cell) \<Rightarrow>
                let q = q\<lparr>tail := cell\<rparr>
                in if swapped
                   then let q = q\<lparr>buffer := (buffer q)[i := (buffer q ! i)\<lparr>data := elem\<rparr>]\<rparr>;
                            q = q\<lparr>buffer := (buffer q)[i := (buffer q ! i)\<lparr>seq := t + 1\<rparr>]\<rparr>
                        in ret (None, q)
                   else MPMCSeq_Enqueue A elem q)
              else if sint diff < 0 then ret (Some ErrWouldBlock, q)
              else MPMCSeq_Enqueue A elem q)"

partial_function (option) MPMCSeq_Dequeue
  :: "atomix \<Rightarrow> 'a \<Rightarrow> 'a MPMCSeq \<Rightarrow> (('a \<times> err option) \<times> 'a MPMCSeq) go" where
  "MPMCSeq_Dequeue A zero q =
     (let h = head q; i = unat (h AND mask_q q)
      in if \<not> i < length (buffer q) then panics IndexOutOfRange
         else let s = seq (buffer q ! i); diff = s - (h + 1)
           in if diff = 0
              then (case CompareAndSwap64 A (head q) h (h + 1) of (swapped, cell) \<Rightarrow>
                let q = q\<lparr>head := cell\<rparr>
                in if swapped
                   then let elem = data (buffer q ! i);
                            q = q\<lparr>buffer := (buffer q)[i := (buffer q ! i)\<lparr>data := zero\<rparr>]\<rparr>;
                            q = q\<lparr>buffer := (buffer q)[i := (buffer q ! i)\<lparr>seq := h + capacity q\<rparr>]\<rparr>
                        in ret ((elem, None), q)
                   else MPMCSeq_Dequeue A zero q)
              else if sint diff < 0 then ret ((zero, Some ErrWouldBlock), q)
              else MPMCSeq_Dequeue A zero q)"

definition MPMCSeq_Cap :: "'a MPMCSeq \<Rightarrow> int" where
  "MPMCSeq_Cap q = sint (capacity q)"

section \<open>\<open>MPSCSeq\<close>\<close>

definition NewMPSCSeq :: "'a \<Rightarrow> u64 \<Rightarrow> 'a MPSCSeq go" where
  "NewMPSCSeq zero cap =
     (if sint cap < 2 then panics (PanicMsg ''lfq: capacity must be >= 2'')
      else let n = roundToPow2 cap in
        go_bind (make_slice n \<lparr>seq = 0, data = zero\<rparr>) (\<lambda>buf.
          ret \<lparr>tail = 0, head = 0,
               buffer = fold (\<lambda>i buf. buf[i := (buf ! i)\<lparr>seq := of_nat i\<rparr>]) [0..<unat n] buf,
               mask_q = n - 1, capacity = n\<rparr>))"

partial_function (option) MPSCSeq_Enqueue
  :: "atomix \<Rightarrow> 'a \<Rightarrow> 'a MPSCSeq \<Rightarrow> (err option \<times> 'a MPSCSeq) go" where
  "MPSCSeq_Enqueue A elem q =
     (let t = tail q; h = head q
      in if t \<ge> h + capacity q then ret (Some ErrWouldBlock, q)
         else let i = unat (t AND mask_q q)
           in if \<not> i < length (buffer q) then panics IndexOutOfRange
              else let s = seq (buffer q ! i)
                in if s = t
                   then (case CompareAndSwap64 A (tail q) t (t + 1) of (swapped, cell) \<Rightarrow>
                     let q = q\<lparr>tail := cell\<rparr>
                     in if swapped
                        then let q = q\<lparr>buffer := (buffer q)[i := (buffer q ! i)\<lparr>data := elem\<rparr>]\<rparr>;
                                 q = q\<lparr>buffer := (buffer q)[i := (buffer q ! i)\<lparr>seq := t + 1\<rparr>]\<rparr>
                             in ret (None, q)
                        else MPSCSeq_Enqueue A elem q)
                   else if s < t then ret (Some ErrWouldBlock, q)
                   else MPSCSeq_Enqueue A elem q)"

definition MPSCSeq_Dequeue :: "'a \<Rightarrow> 'a MPSCSeq \<Rightarrow> (('a \<times> err option) \<times> 'a MPSCSeq) go" where
  "MPSCSeq_Dequeue zero q =
     (let h = head q; i = unat (h AND mask_q q)
      in if \<not> i < length (buffer q) then panics IndexOutOfRange
         else let s = seq (buffer q ! i)
           in if s \<noteq> h + 1 then ret ((zero, Some ErrWouldBlock), q)
              else let elem = data (buffer q ! i);
                       q = q\<lparr>buffer := (buffer q)[i := (buffer q ! i)\<lparr>data := zero\<rparr>]\<rparr>;
                       q = q\<lparr>buffer := (buffer q)[i := (buffer q ! i)\<lparr>seq := h + capacity q\<rparr>]\<rparr>;
                       q = q\<lparr>head := h + 1\<rparr>
                   in ret ((elem, None), q))"

definition MPSCSeq_Cap :: "'a MPSCSeq \<Rightarrow> int" where
  "MPSCSeq_Cap q = sint (capacity q)"

section \<open>\<open>SPMCSeq\<close>\<close>

definition NewSPMCSeq :: "'a \<Rightarrow> u64 \<Rightarrow> 'a SPMCSeq go" where
  "NewSPMCSeq zero cap =
     (if sint cap < 2 then panics (PanicMsg ''lfq: capacity must be >= 2'')
      else let n = roundToPow2 cap in
        go_bind (make_slice n \<lparr>seq = 0, data = zero\<rparr>) (\<lambda>buf.
          ret \<lparr>tail = 0, head = 0,
               buffer = fold (\<lambda>i buf. buf[i := (buf ! i)\<lparr>seq := of_nat i\<rparr>]) [0..<unat n] buf,
               mask_q = n - 1, capacity = n\<rparr>))"

definition SPMCSeq_Enqueue :: "'a \<Rightarrow> 'a SPMCSeq \<Rightarrow> (err option \<times> 'a SPMCSeq) go" where
  "SPMCSeq_Enqueue elem q =
     (let t = tail q; i = unat (t AND mask_q q)
      in if \<not> i < length (buffer q) then panics IndexOutOfRange
         else let s = seq (buffer q ! i)
           in if s \<noteq> t then ret (Some ErrWouldBlock, q)
              else let q = q\<lparr>buffer := (buffer q)[i := (buffer q ! i)\<lparr>data := elem\<rparr>]\<rparr>;
                       q = q\<lparr>buffer := (buffer q)[i := (buffer q ! i)\<lparr>seq := t + 1\<rparr>]\<rparr>;
                       q = q\<lparr>tail := t + 1\<rparr>
                   in ret (None, q))"

partial_function (option) SPMCSeq_Dequeue
  :: "atomix \<Rightarrow> 'a \<Rightarrow> 'a SPMCSeq \<Rightarrow> (('a \<times> err option) \<times> 'a SPMCSeq) go" where
  "SPMCSeq_Dequeue A zero q =
     (let h = head q; t = tail q
      in if h \<ge> t then ret ((zero, Some ErrWouldBlock), q)
         else let i = unat (h AND mask_q q)
           in if \<not> i < length (buffer q) then panics IndexOutOfRange
              else let s = seq (buffer q ! i)
                in if s = h + 1
                   then (case CompareAndSwap64 A (head q) h (h + 1) of (swapped, cell) \<Rightarrow>
                     let q = q\<lparr>head := cell\<rparr>
                     in if swapped
                        then let elem = data (buffer q ! i);
                                 q = q\<lparr>buffer := (buffer q)[i := (buffer q ! i)\<lparr>data := zero\<rparr>]\<rparr>;
                                 q = q\<lparr>buffer := (buffer q)[i := (buffer q ! i)\<lparr>seq := h + capacity q\<rparr>]\<rparr>
                             in ret ((elem, None), q)
                        else SPMCSeq_Dequeue A zero q)
                   else if s < h + 1 then ret ((zero, Some ErrWouldBlock), q)
                   else SPMCSeq_Dequeue A zero q)"

definition SPMCSeq_Cap :: "'a SPMCSeq \<Rightarrow> int" where
  "SPMCSeq_Cap q = sint (capacity q)"

section \<open>The invariant and the contents\<close>

definition seqq_shape :: "nat \<Rightarrow> 'a MPMCSeq \<Rightarrow> bool" where
  "seqq_shape k q \<longleftrightarrow> 1 \<le> k \<and> k \<le> 62 \<and> capacity q = 2 ^ k \<and> mask_q q = 2 ^ k - 1
     \<and> length (buffer q) = 2 ^ k"

definition seqq_ok :: "'a MPMCSeq \<Rightarrow> bool" where
  "seqq_ok q \<longleftrightarrow> (\<exists>k\<le>62. seqq_shape k q)
     \<and> seq_ring (length (buffer q)) (head q) (tail q) (\<lambda>i. seq (buffer q ! i))"

definition seqq_elems :: "'a MPMCSeq \<Rightarrow> 'a list" where
  "seqq_elems q = ring_list (\<lambda>i. data (buffer q ! i)) (length (buffer q)) (unat (head q))
                    (unat (tail q - head q))"

text \<open>\<open>MPMCSeq\<close> is wrap-safe; \<open>MPSCSeq\<close> and \<open>SPMCSeq\<close> compare counters unsigned and need room.\<close>

definition mpmcseq_inv :: "nat \<Rightarrow> 'a MPMCSeq \<Rightarrow> bool" where
  "mpmcseq_inv b q \<longleftrightarrow> seqq_ok q"

definition seqq_inv :: "nat \<Rightarrow> 'a MPMCSeq \<Rightarrow> bool" where
  "seqq_inv b q \<longleftrightarrow> seqq_ok q \<and> unat (head q) \<le> unat (tail q)
     \<and> unat (tail q) + b + unat (capacity q) < 2 ^ 64"

lemma seqq_index:
  "seqq_shape k q \<Longrightarrow> unat (p AND mask_q q) = unat p mod length (buffer q)"
  by (simp add: seqq_shape_def unat_and_mask)

lemma seqq_length:
  "seqq_shape k q \<Longrightarrow> length (buffer q) = 2 ^ k"
  "seqq_shape k q \<Longrightarrow> unat (capacity q) = 2 ^ k"
  "seqq_shape k q \<Longrightarrow> sint (capacity q) = 2 ^ k"
  by (simp_all add: seqq_shape_def unat_pow2 sint_pow2)

lemma seqq_slot_upd:
  "seq ((buf[i := s] ! j)) = (if j = i \<and> i < length buf then seq s else seq (buf ! j))"
  "data ((buf[i := s] ! j)) = (if j = i \<and> i < length buf then data s else data (buf ! j))"
  by (auto simp: nth_list_update list_update_beyond)

lemma seqq_slot_eta [simp]:
  "(s :: 'a mpmcSeqSlot)\<lparr>data := x, seq := y\<rparr> = \<lparr>seq = y, data = x\<rparr>"
  by (cases s) simp

lemma length_seqq_elems [simp]: "length (seqq_elems q) = unat (tail q - head q)"
  by (simp add: seqq_elems_def)

lemma seqq_elems_le: "seqq_ok q \<Longrightarrow> length (seqq_elems q) \<le> nat (sint (capacity q))"
  by (auto simp: seqq_ok_def seqq_length dest!: seq_ring_len)

text \<open>One slot filled at the tail, one slot emptied at the head.\<close>

definition seqq_push :: "'a \<Rightarrow> 'a MPMCSeq \<Rightarrow> 'a MPMCSeq" where
  "seqq_push x q = q\<lparr>tail := tail q + 1,
     buffer := (buffer q)[unat (tail q) mod length (buffer q) := \<lparr>seq = tail q + 1, data = x\<rparr>]\<rparr>"

definition seqq_pop :: "'a \<Rightarrow> 'a MPMCSeq \<Rightarrow> 'a MPMCSeq" where
  "seqq_pop zero q = q\<lparr>head := head q + 1,
     buffer := (buffer q)[unat (head q) mod length (buffer q)
                            := \<lparr>seq = head q + capacity q, data = zero\<rparr>]\<rparr>"

lemma seqq_push_ok:
  assumes "seqq_ok q" and "seqq_shape k q" and "unat (tail q - head q) < 2 ^ k"
  shows "seqq_ok (seqq_push x q)" and "seqq_elems (seqq_push x q) = seqq_elems q @ [x]"
proof -
  let ?n = "length (buffer q)" and ?i = "unat (tail q) mod length (buffer q)"
  let ?S = "\<lambda>i. seq (buffer q ! i)"
  from assms(2) have k: "k \<le> 62" and n: "?n = 2 ^ k" by (auto simp: seqq_shape_def)
  have "seq_ring ?n (head q) (tail q + 1) (?S(?i := tail q + 1))"
    using assms(1,3) seq_ring_push [OF k] by (simp add: seqq_ok_def n)
  then have "seq_ring ?n (head q) (tail q + 1) (\<lambda>i. seq (buffer (seqq_push x q) ! i))"
    by (rule iffD1 [OF seq_ring_cong, rotated])
      (simp add: seqq_push_def seqq_slot_upd n)
  with assms(2) k show "seqq_ok (seqq_push x q)"
    by (auto simp: seqq_ok_def seqq_push_def seqq_shape_def)
  have len: "unat (tail q + 1 - head q) = Suc (unat (tail q - head q))"
    using assms(3) pow2_le_62 [OF k] by (intro unat_succ_diff) simp
  have i: "(unat (head q) + unat (tail q - head q)) mod 2 ^ k = ?i"
    using tail_index [OF k] n by simp
  have "ring_list (\<lambda>i. data (buffer (seqq_push x q) ! i)) (2 ^ k) (unat (head q)) (Suc (unat (tail q - head q)))
      = ring_list (\<lambda>i. data (buffer q ! i)) (2 ^ k) (unat (head q)) (unat (tail q - head q))
          @ [data (buffer (seqq_push x q) ! ?i)]"
    unfolding i [symmetric] using assms(3)
    by (intro ring_list_snoc) (auto simp: seqq_push_def seqq_slot_upd i n)
  then show "seqq_elems (seqq_push x q) = seqq_elems q @ [x]"
    by (simp add: seqq_elems_def len n) (simp add: seqq_push_def len n)
qed

lemma seqq_pop_ok:
  assumes "seqq_ok q" and "seqq_shape k q" and "tail q \<noteq> head q"
  shows "seqq_ok (seqq_pop zero q)"
    and "seqq_elems q = data (buffer q ! (unat (head q) mod length (buffer q)))
                          # seqq_elems (seqq_pop zero q)"
proof -
  let ?n = "length (buffer q)" and ?i = "unat (head q) mod length (buffer q)"
  let ?S = "\<lambda>i. seq (buffer q ! i)"
  from assms(2) have k: "k \<le> 62" and n: "?n = 2 ^ k" and c: "capacity q = 2 ^ k"
    by (auto simp: seqq_shape_def)
  have "seq_ring ?n (head q + 1) (tail q) (?S(?i := head q + 2 ^ k))"
    using assms(1,3) seq_ring_pop [OF k] by (simp add: seqq_ok_def n)
  then have "seq_ring ?n (head q + 1) (tail q) (\<lambda>i. seq (buffer (seqq_pop zero q) ! i))"
    by (rule iffD1 [OF seq_ring_cong, rotated])
      (simp add: seqq_pop_def seqq_slot_upd n c)
  with assms(2) k show "seqq_ok (seqq_pop zero q)"
    by (auto simp: seqq_ok_def seqq_pop_def seqq_shape_def)
  have len: "unat (tail q - head q) = Suc (unat (tail q - (head q + 1)))"
    using unat_diff_succ [OF assms(3)] assms(3) unat_gt_0 [of "tail q - head q"] by simp
  have "unat (tail q - (head q + 1)) < 2 ^ k"
    using assms(1) len n seq_ring_len by (fastforce simp: seqq_ok_def)
  then have "ring_list (\<lambda>i. data (buffer q ! i)) (2 ^ k) (unat (head q)) (Suc (unat (tail q - (head q + 1))))
      = data (buffer q ! (unat (head q) mod 2 ^ k))
         # ring_list (\<lambda>i. data (buffer (seqq_pop zero q) ! i)) (2 ^ k) (Suc (unat (head q)))
             (unat (tail q - (head q + 1)))"
    by (intro ring_list_tl) (auto simp: seqq_pop_def seqq_slot_upd n)
  then show "seqq_elems q = data (buffer q ! ?i) # seqq_elems (seqq_pop zero q)"
    using k by (simp add: seqq_elems_def len n) (simp add: seqq_pop_def len n ring_list_unat_succ)
qed


section \<open>The operations\<close>

text \<open>What each operation does on a well-formed queue, in terms of \<open>seqq_push\<close> and \<open>seqq_pop\<close>.\<close>

lemma seqq_tail_slot:
  assumes "seqq_ok q" and "seqq_shape k q"
  shows "seq (buffer q ! (unat (tail q) mod length (buffer q)))
      = (if unat (tail q - head q) < 2 ^ k then tail q else tail q - 2 ^ k + 1)"
proof -
  from assms have k: "k \<le> 62" and r: "seq_ring (2 ^ k) (head q) (tail q) (\<lambda>i. seq (buffer q ! i))"
    by (auto simp: seqq_ok_def seqq_shape_def)
  show ?thesis
    using seq_at_tail [OF k r] seq_at_full_tail [OF k r] seq_ring_len [OF r] assms(2)
    by (auto simp: seqq_shape_def)
qed

lemma seqq_head_slot:
  assumes "seqq_ok q" and "seqq_shape k q"
  shows "seq (buffer q ! (unat (head q) mod length (buffer q)))
      = (if tail q = head q then head q else head q + 1)"
proof -
  from assms have k: "k \<le> 62" and r: "seq_ring (2 ^ k) (head q) (tail q) (\<lambda>i. seq (buffer q ! i))"
    by (auto simp: seqq_ok_def seqq_shape_def)
  show ?thesis using seq_at_head [OF k r] assms(2) by (simp add: seqq_shape_def)
qed

lemma seqq_push_refines:
  assumes "seqq_ok q" and "seqq_shape k q" and "unat (tail q - head q) < 2 ^ k"
  shows "(None, seqq_elems (seqq_push x q)) = fifo_enq (nat (sint (capacity q))) x (seqq_elems q)"
  using assms seqq_push_ok(2) [OF assms] by (simp add: seqq_length)

lemma seqq_full_refines:
  assumes "seqq_shape k q" and "\<not> unat (tail q - head q) < 2 ^ k"
  shows "(Some ErrWouldBlock, seqq_elems q) = fifo_enq (nat (sint (capacity q))) x (seqq_elems q)"
  using assms by (simp add: seqq_length)

lemma seqq_pop_refines:
  assumes "seqq_ok q" and "seqq_shape k q" and "tail q \<noteq> head q"
  shows "((data (buffer q ! (unat (head q) mod length (buffer q))), None), seqq_elems (seqq_pop zero q))
       = fifo_deq zero (seqq_elems q)"
  using seqq_pop_ok(2) [OF assms, of zero] by simp

lemma seqq_empty_refines:
  "tail q = head q \<Longrightarrow> ((zero, Some ErrWouldBlock), seqq_elems q) = fifo_deq zero (seqq_elems q)"
  by (simp add: seqq_elems_def)

context atomix_sem
begin

lemma MPMCSeq_Enqueue_eq:
  assumes "seqq_ok q" and "seqq_shape k q"
  shows "MPMCSeq_Enqueue A x q = (if unat (tail q - head q) < 2 ^ k then ret (None, seqq_push x q)
                                  else ret (Some ErrWouldBlock, q))"
proof -
  have i: "unat (tail q AND mask_q q) = unat (tail q) mod length (buffer q)"
    "unat (tail q) mod length (buffer q) < length (buffer q)"
    using seqq_index [OF assms(2)] assms(2) by (simp_all add: seqq_shape_def)
  have k: "1 \<le> k" "k \<le> 62" using assms(2) by (auto simp: seqq_shape_def)
  have "tail q - 2 ^ k + 1 - tail q \<noteq> 0" using full_diff [OF k, of "tail q"] by auto
  with i seqq_tail_slot [OF assms] full_diff [OF k, of "tail q"] show ?thesis
    by (subst MPMCSeq_Enqueue.simps) (simp add: Let_def cas64 seqq_push_def)
qed

lemma MPMCSeq_Dequeue_eq:
  assumes "seqq_ok q" and "seqq_shape k q"
  shows "MPMCSeq_Dequeue A zero q = (if tail q = head q then ret ((zero, Some ErrWouldBlock), q)
      else ret ((data (buffer q ! (unat (head q) mod length (buffer q))), None), seqq_pop zero q))"
proof -
  have i: "unat (head q AND mask_q q) = unat (head q) mod length (buffer q)"
    "unat (head q) mod length (buffer q) < length (buffer q)"
    using seqq_index [OF assms(2)] assms(2) by (simp_all add: seqq_shape_def)
  with seqq_head_slot [OF assms] minus_1_neg [of "head q"] show ?thesis
    by (subst MPMCSeq_Dequeue.simps) (simp add: Let_def cas64 seqq_pop_def)
qed

text \<open>The unsigned comparisons of the one-sided queues, while the counters have room.\<close>

lemma seqq_full_test:
  assumes "seqq_inv b q" and "seqq_shape k q"
  shows "tail q \<ge> head q + capacity q \<longleftrightarrow> \<not> unat (tail q - head q) < 2 ^ k"
proof -
  have "unat (head q + capacity q) = unat (head q) + 2 ^ k"
    using assms seqq_length(2) [OF assms(2)] by (subst unat_add_no_wrap) (auto simp: seqq_inv_def)
  moreover have "unat (tail q - head q) = unat (tail q) - unat (head q)"
    using assms(1) by (intro unat_diff_le) (simp add: seqq_inv_def)
  ultimately show ?thesis using assms(1) by (auto simp: word_le_nat_alt seqq_inv_def)
qed

lemma seqq_empty_test: "seqq_inv b q \<Longrightarrow> head q \<ge> tail q \<longleftrightarrow> tail q = head q"
  by (auto simp: word_le_nat_alt seqq_inv_def word_unat_eq_iff)

lemma MPSCSeq_Enqueue_eq:
  assumes "seqq_inv b q" and "seqq_shape k q"
  shows "MPSCSeq_Enqueue A x q = (if unat (tail q - head q) < 2 ^ k then ret (None, seqq_push x q)
                                  else ret (Some ErrWouldBlock, q))"
proof -
  have ok: "seqq_ok q" using assms(1) by (simp add: seqq_inv_def)
  have i: "unat (tail q AND mask_q q) = unat (tail q) mod length (buffer q)"
    "unat (tail q) mod length (buffer q) < length (buffer q)"
    using seqq_index [OF assms(2)] assms(2) by (simp_all add: seqq_shape_def)
  from i seqq_full_test [OF assms] seqq_tail_slot [OF ok assms(2)] show ?thesis
    by (subst MPSCSeq_Enqueue.simps) (simp add: Let_def cas64 seqq_push_def)
qed

lemma SPMCSeq_Dequeue_eq:
  assumes "seqq_inv b q" and "seqq_shape k q"
  shows "SPMCSeq_Dequeue A zero q = (if tail q = head q then ret ((zero, Some ErrWouldBlock), q)
      else ret ((data (buffer q ! (unat (head q) mod length (buffer q))), None), seqq_pop zero q))"
proof -
  have ok: "seqq_ok q" using assms(1) by (simp add: seqq_inv_def)
  have i: "unat (head q AND mask_q q) = unat (head q) mod length (buffer q)"
    "unat (head q) mod length (buffer q) < length (buffer q)"
    using seqq_index [OF assms(2)] assms(2) by (simp_all add: seqq_shape_def)
  from i seqq_empty_test [OF assms(1)] seqq_head_slot [OF ok assms(2)] show ?thesis
    by (subst SPMCSeq_Dequeue.simps) (simp add: Let_def cas64 seqq_pop_def)
qed

end

lemma MPSCSeq_Dequeue_eq:
  assumes "seqq_ok q" and "seqq_shape k q"
  shows "MPSCSeq_Dequeue zero q = (if tail q = head q then ret ((zero, Some ErrWouldBlock), q)
      else ret ((data (buffer q ! (unat (head q) mod length (buffer q))), None), seqq_pop zero q))"
proof -
  have i: "unat (head q AND mask_q q) = unat (head q) mod length (buffer q)"
    "unat (head q) mod length (buffer q) < length (buffer q)"
    using seqq_index [OF assms(2)] assms(2) by (simp_all add: seqq_shape_def)
  with seqq_head_slot [OF assms] show ?thesis
    by (simp add: MPSCSeq_Dequeue_def Let_def seqq_pop_def)
qed

lemma SPMCSeq_Enqueue_eq:
  assumes "seqq_ok q" and "seqq_shape k q"
  shows "SPMCSeq_Enqueue x q = (if unat (tail q - head q) < 2 ^ k then ret (None, seqq_push x q)
                                else ret (Some ErrWouldBlock, q))"
proof -
  have i: "unat (tail q AND mask_q q) = unat (tail q) mod length (buffer q)"
    "unat (tail q) mod length (buffer q) < length (buffer q)"
    using seqq_index [OF assms(2)] assms(2) by (simp_all add: seqq_shape_def)
  have k: "1 \<le> k" "k \<le> 62" using assms(2) by (auto simp: seqq_shape_def)
  have "tail q - 2 ^ k + 1 \<noteq> tail q" using full_diff [OF k, of "tail q"] by auto
  with i seqq_tail_slot [OF assms] show ?thesis
    by (simp add: SPMCSeq_Enqueue_def Let_def seqq_push_def)
qed

section \<open>The contract\<close>

text \<open>
  From such an equation to the laws of \<open>bounded_queue\<close>: once for enqueue and once for dequeue, for
  any invariant that contains \<open>seqq_ok\<close> and that \<open>seqq_push\<close> and \<open>seqq_pop\<close> keep.
\<close>

lemma seqq_enq_law:
  assumes "seqq_ok q" and "I b q"
    and "\<And>k. seqq_shape k q \<Longrightarrow> enq x q =
      (if unat (tail q - head q) < 2 ^ k then ret (None, seqq_push x q) else ret (Some ErrWouldBlock, q))"
    and "seqq_ok (seqq_push x q) \<Longrightarrow> unat (tail q - head q) < 2 ^ 63 \<Longrightarrow> I b (seqq_push x q)"
  shows "\<exists>q'. enq x q = ret (fst (fifo_enq (nat (sint (capacity q))) x (seqq_elems q)), q')
     \<and> seqq_elems q' = snd (fifo_enq (nat (sint (capacity q))) x (seqq_elems q))
     \<and> nat (sint (capacity q')) = nat (sint (capacity q)) \<and> I b q'"
proof -
  from assms(1) obtain k where k: "seqq_shape k q" "k \<le> 62" by (auto simp: seqq_ok_def)
  show ?thesis
  proof (cases "unat (tail q - head q) < 2 ^ k")
    case True
    have "unat (tail q - head q) < 2 ^ 63" using True pow2_le_62 [OF k(2)] by simp
    with True assms(3) [OF k(1)] assms(4) seqq_push_ok(1) [OF assms(1) k(1) True]
      seqq_push_refines [OF assms(1) k(1) True, of x, symmetric]
    show ?thesis by (simp add: seqq_push_def)
  next
    case False
    with assms(2) assms(3) [OF k(1)] seqq_full_refines [OF k(1) False, of x, symmetric]
    show ?thesis by simp
  qed
qed

lemma seqq_deq_law:
  assumes "seqq_ok q" and "I b q"
    and "\<And>k. seqq_shape k q \<Longrightarrow> deq q = (if tail q = head q then ret ((zero, Some ErrWouldBlock), q)
      else ret ((data (buffer q ! (unat (head q) mod length (buffer q))), None), seqq_pop zero q))"
    and "seqq_ok (seqq_pop zero q) \<Longrightarrow> tail q \<noteq> head q \<Longrightarrow> I b (seqq_pop zero q)"
  shows "\<exists>q'. deq q = ret (fst (fifo_deq zero (seqq_elems q)), q')
     \<and> seqq_elems q' = snd (fifo_deq zero (seqq_elems q))
     \<and> nat (sint (capacity q')) = nat (sint (capacity q)) \<and> I b q'"
proof -
  from assms(1) obtain k where k: "seqq_shape k q" by (auto simp: seqq_ok_def)
  show ?thesis
  proof (cases "tail q = head q")
    case True
    with assms(2) assms(3) [OF k] seqq_empty_refines [OF True, of zero, symmetric]
    show ?thesis by simp
  next
    case False
    with assms(3) [OF k] assms(4) seqq_pop_ok(1) [OF assms(1) k False]
      seqq_pop_refines [OF assms(1) k False, of zero, symmetric]
    show ?thesis by (simp add: seqq_pop_def)
  qed
qed

lemma seqq_inv_push:
  assumes "seqq_inv (Suc b) q" and "seqq_ok (seqq_push x q)"
  shows "seqq_inv b (seqq_push x q)"
proof -
  have "unat (tail q + 1) = unat (tail q) + 1"
    using assms(1) by (subst unat_Suc_no_wrap) (auto simp: seqq_inv_def)
  with assms show ?thesis by (simp add: seqq_inv_def seqq_push_def)
qed

lemma seqq_inv_pop:
  assumes "seqq_inv (Suc b) q" and "seqq_ok (seqq_pop zero q)" and "tail q \<noteq> head q"
  shows "seqq_inv b (seqq_pop zero q)"
proof -
  have "unat (head q) < unat (tail q)"
    using assms(1,3) by (auto simp: seqq_inv_def word_unat_eq_iff)
  moreover from this have "unat (head q + 1) = unat (head q) + 1"
    using assms(1) by (subst unat_Suc_no_wrap) (auto simp: seqq_inv_def)
  ultimately show ?thesis using assms(1,2) by (simp add: seqq_inv_def seqq_pop_def)
qed

lemma seqq_inv_less: "seqq_inv (Suc b) q \<Longrightarrow> seqq_inv b q"
  by (simp add: seqq_inv_def)

sublocale atomix_sem < mpmcseq: bounded_queue "MPMCSeq_Enqueue A" "MPMCSeq_Dequeue A zero"
    "\<lambda>q. nat (MPMCSeq_Cap q)" seqq_elems mpmcseq_inv zero "\<lambda>_. True" for zero
proof unfold_locales
  fix b and q :: "'a MPMCSeq" and x :: 'a
  assume "mpmcseq_inv (Suc b) q"
  then have ok: "seqq_ok q" by (simp add: mpmcseq_inv_def)
  note enq = MPMCSeq_Enqueue_eq [OF ok] and deq = MPMCSeq_Dequeue_eq [OF ok]
  show "\<exists>q'. MPMCSeq_Enqueue A x q = ret (fst (fifo_enq (nat (MPMCSeq_Cap q)) x (seqq_elems q)), q')
     \<and> seqq_elems q' = snd (fifo_enq (nat (MPMCSeq_Cap q)) x (seqq_elems q))
     \<and> nat (MPMCSeq_Cap q') = nat (MPMCSeq_Cap q) \<and> mpmcseq_inv b q'"
    unfolding MPMCSeq_Cap_def
    by (rule seqq_enq_law [OF ok, where I = mpmcseq_inv]) (simp_all add: enq ok mpmcseq_inv_def)
  show "\<exists>q'. MPMCSeq_Dequeue A zero q = ret (fst (fifo_deq zero (seqq_elems q)), q')
     \<and> seqq_elems q' = snd (fifo_deq zero (seqq_elems q))
     \<and> nat (MPMCSeq_Cap q') = nat (MPMCSeq_Cap q) \<and> mpmcseq_inv b q'"
    unfolding MPMCSeq_Cap_def
    by (rule seqq_deq_law [OF ok, where I = mpmcseq_inv]) (simp_all add: deq ok mpmcseq_inv_def)
next
  show "length (seqq_elems q) \<le> nat (MPMCSeq_Cap q)" if "mpmcseq_inv b q" for b and q :: "'a MPMCSeq"
    using that seqq_elems_le [of q] by (simp add: mpmcseq_inv_def MPMCSeq_Cap_def)
qed

sublocale atomix_sem < mpscseq: bounded_queue "MPSCSeq_Enqueue A" "MPSCSeq_Dequeue zero"
    "\<lambda>q. nat (MPSCSeq_Cap q)" seqq_elems seqq_inv zero "\<lambda>_. True" for zero
proof unfold_locales
  fix b and q :: "'a MPSCSeq" and x :: 'a
  assume i: "seqq_inv (Suc b) q"
  then have ok: "seqq_ok q" by (simp add: seqq_inv_def)
  show "\<exists>q'. MPSCSeq_Enqueue A x q = ret (fst (fifo_enq (nat (MPSCSeq_Cap q)) x (seqq_elems q)), q')
     \<and> seqq_elems q' = snd (fifo_enq (nat (MPSCSeq_Cap q)) x (seqq_elems q))
     \<and> nat (MPSCSeq_Cap q') = nat (MPSCSeq_Cap q) \<and> seqq_inv b q'"
    unfolding MPSCSeq_Cap_def
    by (rule seqq_enq_law [OF ok, where I = seqq_inv])
      (simp_all add: MPSCSeq_Enqueue_eq [OF i] seqq_inv_less [OF i] seqq_inv_push [OF i])
  show "\<exists>q'. MPSCSeq_Dequeue zero q = ret (fst (fifo_deq zero (seqq_elems q)), q')
     \<and> seqq_elems q' = snd (fifo_deq zero (seqq_elems q))
     \<and> nat (MPSCSeq_Cap q') = nat (MPSCSeq_Cap q) \<and> seqq_inv b q'"
    unfolding MPSCSeq_Cap_def
    by (rule seqq_deq_law [OF ok, where I = seqq_inv])
      (simp_all add: MPSCSeq_Dequeue_eq [OF ok] seqq_inv_less [OF i] seqq_inv_pop [OF i])
next
  show "length (seqq_elems q) \<le> nat (MPSCSeq_Cap q)" if "seqq_inv b q" for b and q :: "'a MPSCSeq"
    using that seqq_elems_le [of q] by (simp add: seqq_inv_def MPSCSeq_Cap_def)
qed

sublocale atomix_sem < spmcseq: bounded_queue SPMCSeq_Enqueue "SPMCSeq_Dequeue A zero"
    "\<lambda>q. nat (SPMCSeq_Cap q)" seqq_elems seqq_inv zero "\<lambda>_. True" for zero
proof unfold_locales
  fix b and q :: "'a SPMCSeq" and x :: 'a
  assume i: "seqq_inv (Suc b) q"
  then have ok: "seqq_ok q" by (simp add: seqq_inv_def)
  show "\<exists>q'. SPMCSeq_Enqueue x q = ret (fst (fifo_enq (nat (SPMCSeq_Cap q)) x (seqq_elems q)), q')
     \<and> seqq_elems q' = snd (fifo_enq (nat (SPMCSeq_Cap q)) x (seqq_elems q))
     \<and> nat (SPMCSeq_Cap q') = nat (SPMCSeq_Cap q) \<and> seqq_inv b q'"
    unfolding SPMCSeq_Cap_def
    by (rule seqq_enq_law [OF ok, where I = seqq_inv])
      (simp_all add: SPMCSeq_Enqueue_eq [OF ok] seqq_inv_less [OF i] seqq_inv_push [OF i])
  show "\<exists>q'. SPMCSeq_Dequeue A zero q = ret (fst (fifo_deq zero (seqq_elems q)), q')
     \<and> seqq_elems q' = snd (fifo_deq zero (seqq_elems q))
     \<and> nat (SPMCSeq_Cap q') = nat (SPMCSeq_Cap q) \<and> seqq_inv b q'"
    unfolding SPMCSeq_Cap_def
    by (rule seqq_deq_law [OF ok, where I = seqq_inv])
      (simp_all add: SPMCSeq_Dequeue_eq [OF i] seqq_inv_less [OF i] seqq_inv_pop [OF i])
next
  show "length (seqq_elems q) \<le> nat (SPMCSeq_Cap q)" if "seqq_inv b q" for b and q :: "'a SPMCSeq"
    using that seqq_elems_le [of q] by (simp add: seqq_inv_def SPMCSeq_Cap_def)
qed

section \<open>The constructors\<close>

lemma NewMPMCSeq_ok:
  assumes "2 \<le> sint c" and "sint c \<le> 2 ^ 62"
  shows "\<exists>q. NewMPMCSeq zero c = ret q \<and> seqq_inv (2 ^ 63) q \<and> seqq_elems q = []
           \<and> capacity q = roundToPow2 c"
proof -
  from assms obtain k where k: "1 \<le> k" "k \<le> 62" "roundToPow2 c = 2 ^ k"
    by (rule roundToPow2_in_range) blast
  let ?buf = "map (\<lambda>i. \<lparr>seq = of_nat i, data = zero\<rparr>) [0..<2 ^ k]"
  have "fold (\<lambda>i buf. buf[i := (buf ! i)\<lparr>seq := of_nat i\<rparr>]) [0..<2 ^ k]
      (replicate (2 ^ k) \<lparr>seq = 0, data = zero\<rparr>) = ?buf"
    by (subst fold_init_replicate) simp
  moreover have "seq_ring (2 ^ k) 0 0 (\<lambda>i. seq (?buf ! i))"
    using seq_ring_init [OF pow2_le_62 [OF k(2)]] by (rule iffD1 [OF seq_ring_cong, rotated]) simp
  ultimately show ?thesis
    using assms k pow2_le_62 [OF k(2)]
    by (auto simp: NewMPMCSeq_def Let_def make_slice_def seqq_inv_def seqq_ok_def seqq_shape_def
        seqq_elems_def unat_pow2 sint_pow2)
qed

lemma NewSeq_same: "NewMPSCSeq = NewMPMCSeq" "NewSPMCSeq = NewMPMCSeq"
  by (intro ext, simp add: NewMPSCSeq_def NewSPMCSeq_def NewMPMCSeq_def)+

lemma NewMPMCSeq_panics:
  "sint c < 2 \<Longrightarrow> NewMPMCSeq zero c = panics (PanicMsg ''lfq: capacity must be >= 2'')"
  "2 ^ 62 < sint c \<Longrightarrow> NewMPMCSeq zero c = panics MakeSliceLenOutOfRange"
  by (simp_all add: NewMPMCSeq_def roundToPow2_overflow make_slice_def sint_neg_iff)

lemma mpmcseq_inv_if_seqq_inv: "seqq_inv b q \<Longrightarrow> mpmcseq_inv b' q"
  by (simp add: seqq_inv_def mpmcseq_inv_def)

end
