(* ===== verification/Seq128_Queues.thy ===== *)
theory Seq128_Queues
  imports Seq_Queues
begin

text \<open>
  The CAS-based queues for words, \<open>MPMCIndirectSeq\<close> and \<open>MPMCPtrSeq\<close> (\<open>mpmc_128_seq.go\<close>),
  \<open>MPSCIndirectSeq\<close> and \<open>MPSCPtrSeq\<close> (\<open>mpsc_128_seq.go\<close>), \<open>SPMCIndirectSeq\<close> and \<open>SPMCPtrSeq\<close>
  (\<open>spmc_128_seq.go\<close>). A slot is one 128-bit atomic entry that packs the sequence number (low half)
  with the value (high half), so a slot is claimed and filled by a single compare-and-swap and
  the shared index is advanced afterwards. The six structs have the same fields. A \<open>uintptr\<close> and an
  \<open>unsafe.Pointer\<close> are 64-bit words.

  The operations are shown to commute with the abstraction onto the generic queues of
  \<open>Seq_Queues\<close>, from which they inherit the contract.
\<close>

section \<open>Slots and structs\<close>

record mpmc128SeqSlot =
  entry :: "u64 \<times> u64"

record MPMCIndirectSeq =
  tail :: u64
  head :: u64
  buffer :: "mpmc128SeqSlot list"
  mask_q :: u64
  capacity :: u64

type_synonym MPMCPtrSeq = MPMCIndirectSeq
type_synonym MPSCIndirectSeq = MPMCIndirectSeq
type_synonym MPSCPtrSeq = MPMCIndirectSeq
type_synonym SPMCIndirectSeq = MPMCIndirectSeq
type_synonym SPMCPtrSeq = MPMCIndirectSeq

section \<open>\<open>MPMCIndirectSeq\<close>\<close>

definition NewMPMCIndirectSeq :: "u64 \<Rightarrow> MPMCIndirectSeq go" where
  "NewMPMCIndirectSeq cap =
     (if sint cap < 2 then panics (PanicMsg ''lfq: capacity must be >= 2'')
      else let n = roundToPow2 cap in
        go_bind (make_slice n \<lparr>entry = (0, 0)\<rparr>) (\<lambda>buf.
          ret \<lparr>tail = 0, head = 0,
               buffer = fold (\<lambda>i buf. buf[i := \<lparr>entry = (of_nat i, 0)\<rparr>]) [0..<unat n] buf,
               mask_q = n - 1, capacity = n\<rparr>))"

partial_function (option) MPMCIndirectSeq_Enqueue
  :: "atomix \<Rightarrow> u64 \<Rightarrow> MPMCIndirectSeq \<Rightarrow> (err option \<times> MPMCIndirectSeq) go" where
  "MPMCIndirectSeq_Enqueue A elem q =
     (let t = tail q; i = unat (t AND mask_q q)
      in if \<not> i < length (buffer q) then panics IndexOutOfRange
         else let (seqLo, valHi) = entry (buffer q ! i); diff = seqLo - t
           in if diff = 0
              then (case CompareAndSwap128 A (entry (buffer q ! i)) (seqLo, valHi) (t + 1, elem) of
                (swapped, cell) \<Rightarrow>
                  let q = q\<lparr>buffer := (buffer q)[i := \<lparr>entry = cell\<rparr>]\<rparr>
                  in if swapped
                     then let q = q\<lparr>tail := snd (CompareAndSwap64 A (tail q) t (t + 1))\<rparr>
                          in ret (None, q)
                     else MPMCIndirectSeq_Enqueue A elem q)
              else if sint diff < 0 then ret (Some ErrWouldBlock, q)
              else MPMCIndirectSeq_Enqueue A elem q)"

partial_function (option) MPMCIndirectSeq_Dequeue
  :: "atomix \<Rightarrow> MPMCIndirectSeq \<Rightarrow> ((u64 \<times> err option) \<times> MPMCIndirectSeq) go" where
  "MPMCIndirectSeq_Dequeue A q =
     (let h = head q; i = unat (h AND mask_q q)
      in if \<not> i < length (buffer q) then panics IndexOutOfRange
         else let (seqLo, valHi) = entry (buffer q ! i); diff = seqLo - (h + 1)
           in if diff = 0
              then (case CompareAndSwap128 A (entry (buffer q ! i)) (seqLo, valHi) (h + capacity q, 0) of
                (swapped, cell) \<Rightarrow>
                  let q = q\<lparr>buffer := (buffer q)[i := \<lparr>entry = cell\<rparr>]\<rparr>
                  in if swapped
                     then let q = q\<lparr>head := snd (CompareAndSwap64 A (head q) h (h + 1))\<rparr>
                          in ret ((valHi, None), q)
                     else MPMCIndirectSeq_Dequeue A q)
              else if sint diff < 0 then ret ((0, Some ErrWouldBlock), q)
              else MPMCIndirectSeq_Dequeue A q)"

definition MPMCIndirectSeq_Cap :: "MPMCIndirectSeq \<Rightarrow> int" where
  "MPMCIndirectSeq_Cap q = sint (capacity q)"

section \<open>\<open>MPMCPtrSeq\<close>\<close>

definition NewMPMCPtrSeq :: "u64 \<Rightarrow> MPMCPtrSeq go" where
  "NewMPMCPtrSeq cap =
     (if sint cap < 2 then panics (PanicMsg ''lfq: capacity must be >= 2'')
      else let n = roundToPow2 cap in
        go_bind (make_slice n \<lparr>entry = (0, 0)\<rparr>) (\<lambda>buf.
          ret \<lparr>tail = 0, head = 0,
               buffer = fold (\<lambda>i buf. buf[i := \<lparr>entry = (of_nat i, 0)\<rparr>]) [0..<unat n] buf,
               mask_q = n - 1, capacity = n\<rparr>))"

partial_function (option) MPMCPtrSeq_Enqueue
  :: "atomix \<Rightarrow> u64 \<Rightarrow> MPMCPtrSeq \<Rightarrow> (err option \<times> MPMCPtrSeq) go" where
  "MPMCPtrSeq_Enqueue A elem q =
     (let t = tail q; i = unat (t AND mask_q q)
      in if \<not> i < length (buffer q) then panics IndexOutOfRange
         else let (seqLo, valHi) = entry (buffer q ! i); diff = seqLo - t
           in if diff = 0
              then (case CompareAndSwap128 A (entry (buffer q ! i)) (seqLo, valHi) (t + 1, elem) of
                (swapped, cell) \<Rightarrow>
                  let q = q\<lparr>buffer := (buffer q)[i := \<lparr>entry = cell\<rparr>]\<rparr>
                  in if swapped
                     then let q = q\<lparr>tail := snd (CompareAndSwap64 A (tail q) t (t + 1))\<rparr>
                          in ret (None, q)
                     else MPMCPtrSeq_Enqueue A elem q)
              else if sint diff < 0 then ret (Some ErrWouldBlock, q)
              else MPMCPtrSeq_Enqueue A elem q)"

partial_function (option) MPMCPtrSeq_Dequeue
  :: "atomix \<Rightarrow> MPMCPtrSeq \<Rightarrow> ((u64 \<times> err option) \<times> MPMCPtrSeq) go" where
  "MPMCPtrSeq_Dequeue A q =
     (let h = head q; i = unat (h AND mask_q q)
      in if \<not> i < length (buffer q) then panics IndexOutOfRange
         else let (seqLo, valHi) = entry (buffer q ! i); diff = seqLo - (h + 1)
           in if diff = 0
              then (case CompareAndSwap128 A (entry (buffer q ! i)) (seqLo, valHi) (h + capacity q, 0) of
                (swapped, cell) \<Rightarrow>
                  let q = q\<lparr>buffer := (buffer q)[i := \<lparr>entry = cell\<rparr>]\<rparr>
                  in if swapped
                     then let q = q\<lparr>head := snd (CompareAndSwap64 A (head q) h (h + 1))\<rparr>
                          in ret ((valHi, None), q)
                     else MPMCPtrSeq_Dequeue A q)
              else if sint diff < 0 then ret ((0, Some ErrWouldBlock), q)
              else MPMCPtrSeq_Dequeue A q)"

definition MPMCPtrSeq_Cap :: "MPMCPtrSeq \<Rightarrow> int" where
  "MPMCPtrSeq_Cap q = sint (capacity q)"

section \<open>\<open>MPSCIndirectSeq\<close>\<close>

definition NewMPSCIndirectSeq :: "u64 \<Rightarrow> MPSCIndirectSeq go" where
  "NewMPSCIndirectSeq cap =
     (if sint cap < 2 then panics (PanicMsg ''lfq: capacity must be >= 2'')
      else let n = roundToPow2 cap in
        go_bind (make_slice n \<lparr>entry = (0, 0)\<rparr>) (\<lambda>buf.
          ret \<lparr>tail = 0, head = 0,
               buffer = fold (\<lambda>i buf. buf[i := \<lparr>entry = (of_nat i, 0)\<rparr>]) [0..<unat n] buf,
               mask_q = n - 1, capacity = n\<rparr>))"

partial_function (option) MPSCIndirectSeq_Enqueue
  :: "atomix \<Rightarrow> u64 \<Rightarrow> MPSCIndirectSeq \<Rightarrow> (err option \<times> MPSCIndirectSeq) go" where
  "MPSCIndirectSeq_Enqueue A elem q =
     (let t = tail q; h = head q
      in if t \<ge> h + capacity q then ret (Some ErrWouldBlock, q)
         else let i = unat (t AND mask_q q)
           in if \<not> i < length (buffer q) then panics IndexOutOfRange
              else let (seqLo, valHi) = entry (buffer q ! i)
                in if seqLo = t
                   then (case CompareAndSwap128 A (entry (buffer q ! i)) (seqLo, valHi) (t + 1, elem) of
                     (swapped, cell) \<Rightarrow>
                       let q = q\<lparr>buffer := (buffer q)[i := \<lparr>entry = cell\<rparr>]\<rparr>
                       in if swapped
                          then let q = q\<lparr>tail := snd (CompareAndSwap64 A (tail q) t (t + 1))\<rparr>
                               in ret (None, q)
                          else MPSCIndirectSeq_Enqueue A elem q)
                   else if seqLo < t then ret (Some ErrWouldBlock, q)
                   else MPSCIndirectSeq_Enqueue A elem q)"

definition MPSCIndirectSeq_Dequeue :: "MPSCIndirectSeq \<Rightarrow> ((u64 \<times> err option) \<times> MPSCIndirectSeq) go" where
  "MPSCIndirectSeq_Dequeue q =
     (let h = head q; i = unat (h AND mask_q q)
      in if \<not> i < length (buffer q) then panics IndexOutOfRange
         else let (seqLo, valHi) = entry (buffer q ! i)
           in if seqLo \<noteq> h + 1 then ret ((0, Some ErrWouldBlock), q)
              else let q = q\<lparr>buffer := (buffer q)[i := \<lparr>entry = (h + capacity q, 0)\<rparr>]\<rparr>;
                       q = q\<lparr>head := h + 1\<rparr>
                   in ret ((valHi, None), q))"

definition MPSCIndirectSeq_Cap :: "MPSCIndirectSeq \<Rightarrow> int" where
  "MPSCIndirectSeq_Cap q = sint (capacity q)"

section \<open>\<open>MPSCPtrSeq\<close>\<close>

definition NewMPSCPtrSeq :: "u64 \<Rightarrow> MPSCPtrSeq go" where
  "NewMPSCPtrSeq cap =
     (if sint cap < 2 then panics (PanicMsg ''lfq: capacity must be >= 2'')
      else let n = roundToPow2 cap in
        go_bind (make_slice n \<lparr>entry = (0, 0)\<rparr>) (\<lambda>buf.
          ret \<lparr>tail = 0, head = 0,
               buffer = fold (\<lambda>i buf. buf[i := \<lparr>entry = (of_nat i, 0)\<rparr>]) [0..<unat n] buf,
               mask_q = n - 1, capacity = n\<rparr>))"

partial_function (option) MPSCPtrSeq_Enqueue
  :: "atomix \<Rightarrow> u64 \<Rightarrow> MPSCPtrSeq \<Rightarrow> (err option \<times> MPSCPtrSeq) go" where
  "MPSCPtrSeq_Enqueue A elem q =
     (let t = tail q; h = head q
      in if t \<ge> h + capacity q then ret (Some ErrWouldBlock, q)
         else let i = unat (t AND mask_q q)
           in if \<not> i < length (buffer q) then panics IndexOutOfRange
              else let (seqLo, valHi) = entry (buffer q ! i)
                in if seqLo = t
                   then (case CompareAndSwap128 A (entry (buffer q ! i)) (seqLo, valHi) (t + 1, elem) of
                     (swapped, cell) \<Rightarrow>
                       let q = q\<lparr>buffer := (buffer q)[i := \<lparr>entry = cell\<rparr>]\<rparr>
                       in if swapped
                          then let q = q\<lparr>tail := snd (CompareAndSwap64 A (tail q) t (t + 1))\<rparr>
                               in ret (None, q)
                          else MPSCPtrSeq_Enqueue A elem q)
                   else if seqLo < t then ret (Some ErrWouldBlock, q)
                   else MPSCPtrSeq_Enqueue A elem q)"

definition MPSCPtrSeq_Dequeue :: "MPSCPtrSeq \<Rightarrow> ((u64 \<times> err option) \<times> MPSCPtrSeq) go" where
  "MPSCPtrSeq_Dequeue q =
     (let h = head q; i = unat (h AND mask_q q)
      in if \<not> i < length (buffer q) then panics IndexOutOfRange
         else let (seqLo, valHi) = entry (buffer q ! i)
           in if seqLo \<noteq> h + 1 then ret ((0, Some ErrWouldBlock), q)
              else let q = q\<lparr>buffer := (buffer q)[i := \<lparr>entry = (h + capacity q, 0)\<rparr>]\<rparr>;
                       q = q\<lparr>head := h + 1\<rparr>
                   in ret ((valHi, None), q))"

definition MPSCPtrSeq_Cap :: "MPSCPtrSeq \<Rightarrow> int" where
  "MPSCPtrSeq_Cap q = sint (capacity q)"

section \<open>\<open>SPMCIndirectSeq\<close>\<close>

definition NewSPMCIndirectSeq :: "u64 \<Rightarrow> SPMCIndirectSeq go" where
  "NewSPMCIndirectSeq cap =
     (if sint cap < 2 then panics (PanicMsg ''lfq: capacity must be >= 2'')
      else let n = roundToPow2 cap in
        go_bind (make_slice n \<lparr>entry = (0, 0)\<rparr>) (\<lambda>buf.
          ret \<lparr>tail = 0, head = 0,
               buffer = fold (\<lambda>i buf. buf[i := \<lparr>entry = (of_nat i, 0)\<rparr>]) [0..<unat n] buf,
               mask_q = n - 1, capacity = n\<rparr>))"

definition SPMCIndirectSeq_Enqueue :: "u64 \<Rightarrow> SPMCIndirectSeq \<Rightarrow> (err option \<times> SPMCIndirectSeq) go" where
  "SPMCIndirectSeq_Enqueue elem q =
     (let t = tail q; i = unat (t AND mask_q q)
      in if \<not> i < length (buffer q) then panics IndexOutOfRange
         else let (seqLo, _) = entry (buffer q ! i)
           in if seqLo \<noteq> t then ret (Some ErrWouldBlock, q)
              else let q = q\<lparr>buffer := (buffer q)[i := \<lparr>entry = (t + 1, elem)\<rparr>]\<rparr>;
                       q = q\<lparr>tail := t + 1\<rparr>
                   in ret (None, q))"

partial_function (option) SPMCIndirectSeq_Dequeue
  :: "atomix \<Rightarrow> SPMCIndirectSeq \<Rightarrow> ((u64 \<times> err option) \<times> SPMCIndirectSeq) go" where
  "SPMCIndirectSeq_Dequeue A q =
     (let h = head q; t = tail q
      in if h \<ge> t then ret ((0, Some ErrWouldBlock), q)
         else let i = unat (h AND mask_q q)
           in if \<not> i < length (buffer q) then panics IndexOutOfRange
              else let (seqLo, valHi) = entry (buffer q ! i)
                in if seqLo = h + 1
                   then (case CompareAndSwap128 A (entry (buffer q ! i)) (seqLo, valHi) (h + capacity q, 0) of
                     (swapped, cell) \<Rightarrow>
                       let q = q\<lparr>buffer := (buffer q)[i := \<lparr>entry = cell\<rparr>]\<rparr>
                       in if swapped
                          then let q = q\<lparr>head := snd (CompareAndSwap64 A (head q) h (h + 1))\<rparr>
                               in ret ((valHi, None), q)
                          else SPMCIndirectSeq_Dequeue A q)
                   else if seqLo < h + 1 then ret ((0, Some ErrWouldBlock), q)
                   else SPMCIndirectSeq_Dequeue A q)"

definition SPMCIndirectSeq_Cap :: "SPMCIndirectSeq \<Rightarrow> int" where
  "SPMCIndirectSeq_Cap q = sint (capacity q)"

section \<open>\<open>SPMCPtrSeq\<close>\<close>

definition NewSPMCPtrSeq :: "u64 \<Rightarrow> SPMCPtrSeq go" where
  "NewSPMCPtrSeq cap =
     (if sint cap < 2 then panics (PanicMsg ''lfq: capacity must be >= 2'')
      else let n = roundToPow2 cap in
        go_bind (make_slice n \<lparr>entry = (0, 0)\<rparr>) (\<lambda>buf.
          ret \<lparr>tail = 0, head = 0,
               buffer = fold (\<lambda>i buf. buf[i := \<lparr>entry = (of_nat i, 0)\<rparr>]) [0..<unat n] buf,
               mask_q = n - 1, capacity = n\<rparr>))"

definition SPMCPtrSeq_Enqueue :: "u64 \<Rightarrow> SPMCPtrSeq \<Rightarrow> (err option \<times> SPMCPtrSeq) go" where
  "SPMCPtrSeq_Enqueue elem q =
     (let t = tail q; i = unat (t AND mask_q q)
      in if \<not> i < length (buffer q) then panics IndexOutOfRange
         else let (seqLo, _) = entry (buffer q ! i)
           in if seqLo \<noteq> t then ret (Some ErrWouldBlock, q)
              else let q = q\<lparr>buffer := (buffer q)[i := \<lparr>entry = (t + 1, elem)\<rparr>]\<rparr>;
                       q = q\<lparr>tail := t + 1\<rparr>
                   in ret (None, q))"

partial_function (option) SPMCPtrSeq_Dequeue
  :: "atomix \<Rightarrow> SPMCPtrSeq \<Rightarrow> ((u64 \<times> err option) \<times> SPMCPtrSeq) go" where
  "SPMCPtrSeq_Dequeue A q =
     (let h = head q; t = tail q
      in if h \<ge> t then ret ((0, Some ErrWouldBlock), q)
         else let i = unat (h AND mask_q q)
           in if \<not> i < length (buffer q) then panics IndexOutOfRange
              else let (seqLo, valHi) = entry (buffer q ! i)
                in if seqLo = h + 1
                   then (case CompareAndSwap128 A (entry (buffer q ! i)) (seqLo, valHi) (h + capacity q, 0) of
                     (swapped, cell) \<Rightarrow>
                       let q = q\<lparr>buffer := (buffer q)[i := \<lparr>entry = cell\<rparr>]\<rparr>
                       in if swapped
                          then let q = q\<lparr>head := snd (CompareAndSwap64 A (head q) h (h + 1))\<rparr>
                               in ret ((valHi, None), q)
                          else SPMCPtrSeq_Dequeue A q)
                   else if seqLo < h + 1 then ret ((0, Some ErrWouldBlock), q)
                   else SPMCPtrSeq_Dequeue A q)"

definition SPMCPtrSeq_Cap :: "SPMCPtrSeq \<Rightarrow> int" where
  "SPMCPtrSeq_Cap q = sint (capacity q)"

section \<open>Abstraction onto the generic queues\<close>

definition seq128_abs :: "MPMCIndirectSeq \<Rightarrow> u64 MPMCSeq" where
  "seq128_abs q = \<lparr>MPMCSeq.tail = tail q, MPMCSeq.head = head q,
     MPMCSeq.buffer = map (\<lambda>s. \<lparr>seq = fst (entry s), data = snd (entry s)\<rparr>) (buffer q),
     MPMCSeq.mask_q = mask_q q, MPMCSeq.capacity = capacity q\<rparr>"

lemma seq128_abs_simps [simp]:
  "MPMCSeq.tail (seq128_abs q) = tail q" "MPMCSeq.head (seq128_abs q) = head q"
  "length (MPMCSeq.buffer (seq128_abs q)) = length (buffer q)"
  "MPMCSeq.mask_q (seq128_abs q) = mask_q q" "MPMCSeq.capacity (seq128_abs q) = capacity q"
  "i < length (buffer q) \<Longrightarrow> MPMCSeq.buffer (seq128_abs q) ! i
     = \<lparr>seq = fst (entry (buffer q ! i)), data = snd (entry (buffer q ! i))\<rparr>"
  by (simp_all add: seq128_abs_def)

text \<open>Filling and emptying a slot, on packed entries.\<close>

definition seq128_push :: "u64 \<Rightarrow> MPMCIndirectSeq \<Rightarrow> MPMCIndirectSeq" where
  "seq128_push x q = q\<lparr>buffer := (buffer q)[unat (tail q) mod length (buffer q)
      := \<lparr>entry = (tail q + 1, x)\<rparr>], tail := tail q + 1\<rparr>"

definition seq128_pop :: "MPMCIndirectSeq \<Rightarrow> MPMCIndirectSeq" where
  "seq128_pop q = q\<lparr>buffer := (buffer q)[unat (head q) mod length (buffer q)
      := \<lparr>entry = (head q + capacity q, 0)\<rparr>], head := head q + 1\<rparr>"

lemma seq128_abs_push: "seq128_abs (seq128_push x q) = seqq_push x (seq128_abs q)"
  by (simp add: seq128_abs_def seq128_push_def seqq_push_def map_update)

lemma seq128_abs_pop: "seq128_abs (seq128_pop q) = seqq_pop 0 (seq128_abs q)"
  by (simp add: seq128_abs_def seq128_pop_def seqq_pop_def map_update)

lemma seq128_index:
  assumes "seqq_shape k (seq128_abs q)"
  shows "unat (p AND mask_q q) = unat p mod length (buffer q)"
    and "unat p mod length (buffer q) < length (buffer q)"
  using seqq_index [OF assms, of p] assms by (simp_all add: seqq_shape_def)

lemma seq128_tail_slot:
  assumes "seqq_ok (seq128_abs q)" and "seqq_shape k (seq128_abs q)"
  shows "fst (entry (buffer q ! (unat (tail q) mod length (buffer q))))
      = (if unat (tail q - head q) < 2 ^ k then tail q else tail q - 2 ^ k + 1)"
  using seqq_tail_slot [OF assms] seq128_index(2) [OF assms(2)] by simp

lemma seq128_head_slot:
  assumes "seqq_ok (seq128_abs q)" and "seqq_shape k (seq128_abs q)"
  shows "fst (entry (buffer q ! (unat (head q) mod length (buffer q))))
      = (if tail q = head q then head q else head q + 1)"
  using seqq_head_slot [OF assms] seq128_index(2) [OF assms(2)] by simp


section \<open>Simulation\<close>

text \<open>What the slot under the tail and the slot under the head look like to the code's tests.\<close>

lemma seq128_enq_cases:
  assumes "seqq_ok (seq128_abs q)" and "seqq_shape k (seq128_abs q)"
  obtains (room) v where "unat (tail q - head q) < 2 ^ k"
      "unat (tail q AND mask_q q) = unat (tail q) mod length (buffer q)"
      "unat (tail q) mod length (buffer q) < length (buffer q)"
      "entry (buffer q ! (unat (tail q) mod length (buffer q))) = (tail q, v)"
  | (full) s v where "\<not> unat (tail q - head q) < 2 ^ k"
      "unat (tail q AND mask_q q) = unat (tail q) mod length (buffer q)"
      "unat (tail q) mod length (buffer q) < length (buffer q)"
      "entry (buffer q ! (unat (tail q) mod length (buffer q))) = (s, v)"
      "s \<noteq> tail q" "sint (s - tail q) < 0"
proof (cases "unat (tail q - head q) < 2 ^ k")
  case True
  with seq128_tail_slot [OF assms] seq128_index [OF assms(2)] show thesis
    by (metis prod.collapse room)
next
  case False
  have k: "1 \<le> k" "k \<le> 62" using assms(2) by (auto simp: seqq_shape_def)
  let ?e = "entry (buffer q ! (unat (tail q) mod length (buffer q)))"
  have e: "fst ?e = tail q - 2 ^ k + 1"
    using False seq128_tail_slot [OF assms] by simp
  have neg: "sint (fst ?e - tail q) < 0"
    unfolding e by (rule full_diff [OF k])
  then have "fst ?e \<noteq> tail q" by auto
  with False neg seq128_index [OF assms(2)] show thesis
    by (intro full [of "fst ?e" "snd ?e"]) simp_all
qed

lemma seq128_deq_cases:
  assumes "seqq_ok (seq128_abs q)" and "seqq_shape k (seq128_abs q)"
  obtains (some) v where "tail q \<noteq> head q"
      "unat (head q AND mask_q q) = unat (head q) mod length (buffer q)"
      "unat (head q) mod length (buffer q) < length (buffer q)"
      "entry (buffer q ! (unat (head q) mod length (buffer q))) = (head q + 1, v)"
  | (none) v where "tail q = head q"
      "unat (head q AND mask_q q) = unat (head q) mod length (buffer q)"
      "unat (head q) mod length (buffer q) < length (buffer q)"
      "entry (buffer q ! (unat (head q) mod length (buffer q))) = (head q, v)"
proof (cases "tail q = head q")
  case True
  with seq128_head_slot [OF assms] seq128_index [OF assms(2)] show thesis
    by (metis prod.collapse none)
next
  case False
  with seq128_head_slot [OF assms] seq128_index [OF assms(2)] show thesis
    by (metis prod.collapse some)
qed

text \<open>The unsigned tests of the one-sided queues agree with them while the counters have room.\<close>

lemma seq128_room_tests:
  assumes "seqq_inv b (seq128_abs q)" and "seqq_shape k (seq128_abs q)"
  shows "tail q \<ge> head q + capacity q \<longleftrightarrow> \<not> unat (tail q - head q) < 2 ^ k"
    and "head q \<ge> tail q \<longleftrightarrow> tail q = head q"
proof -
  have c: "unat (capacity q) = 2 ^ k" using seqq_length(2) [OF assms(2)] by simp
  have "unat (head q + capacity q) = unat (head q) + 2 ^ k"
    using assms(1) c by (subst unat_add_no_wrap) (auto simp: seqq_inv_def)
  moreover have "unat (tail q - head q) = unat (tail q) - unat (head q)"
    using assms(1) by (intro unat_diff_le) (simp add: seqq_inv_def)
  ultimately show "tail q \<ge> head q + capacity q \<longleftrightarrow> \<not> unat (tail q - head q) < 2 ^ k"
    using assms(1) by (auto simp: word_le_nat_alt seqq_inv_def)
  show "head q \<ge> tail q \<longleftrightarrow> tail q = head q"
    using assms(1) by (auto simp: word_le_nat_alt seqq_inv_def word_unat_eq_iff)
qed

lemma seq128_pop_data:
  "unat (head q) mod length (buffer q) < length (buffer q) \<Longrightarrow>
   data (MPMCSeq.buffer (seq128_abs q) ! (unat (head q) mod length (buffer q)))
     = snd (entry (buffer q ! (unat (head q) mod length (buffer q))))"
  by simp

lemmas seq128_abs_fold =
  seq128_abs_push [unfolded seq128_push_def, symmetric]
  seq128_abs_pop [unfolded seq128_pop_def, symmetric]

context atomix_sem
begin

lemma MPMCIndirectSeq_Enqueue_sim:
  assumes i: "mpmcseq_inv b (seq128_abs q)"
  shows "go_map seq128_abs (MPMCIndirectSeq_Enqueue A x q) = MPMCSeq_Enqueue A x (seq128_abs q)"
proof -
  from i obtain k where ok: "seqq_ok (seq128_abs q)" and s: "seqq_shape k (seq128_abs q)"
    by (auto simp: mpmcseq_inv_def seqq_ok_def)
  show ?thesis
  proof (cases rule: seq128_enq_cases [OF ok s, case_names room full])
    case (room v)
    then show ?thesis
      by (subst MPMCIndirectSeq_Enqueue.simps, simp add: Let_def cas64 cas128 MPMCSeq_Enqueue_eq [OF ok s] seq128_abs_fold)
  next
    case (full s' v)
    then show ?thesis
      by (subst MPMCIndirectSeq_Enqueue.simps, simp add: Let_def MPMCSeq_Enqueue_eq [OF ok s])
  qed
qed

lemma MPMCIndirectSeq_Dequeue_sim:
  assumes i: "mpmcseq_inv b (seq128_abs q)"
  shows "go_map seq128_abs (MPMCIndirectSeq_Dequeue A q) = MPMCSeq_Dequeue A 0 (seq128_abs q)"
proof -
  from i obtain k where ok: "seqq_ok (seq128_abs q)" and s: "seqq_shape k (seq128_abs q)"
    by (auto simp: mpmcseq_inv_def seqq_ok_def)
  show ?thesis
  proof (cases rule: seq128_deq_cases [OF ok s, case_names some none])
    case (some v)
    then show ?thesis
      by (subst MPMCIndirectSeq_Dequeue.simps, simp add: Let_def cas64 cas128 MPMCSeq_Dequeue_eq [OF ok s] seq128_abs_fold)
  next
    case (none v)
    then show ?thesis
      by (subst MPMCIndirectSeq_Dequeue.simps, simp add: Let_def MPMCSeq_Dequeue_eq [OF ok s] minus_1_neg)
  qed
qed

lemma MPMCPtrSeq_Enqueue_sim:
  assumes i: "mpmcseq_inv b (seq128_abs q)"
  shows "go_map seq128_abs (MPMCPtrSeq_Enqueue A x q) = MPMCSeq_Enqueue A x (seq128_abs q)"
proof -
  from i obtain k where ok: "seqq_ok (seq128_abs q)" and s: "seqq_shape k (seq128_abs q)"
    by (auto simp: mpmcseq_inv_def seqq_ok_def)
  show ?thesis
  proof (cases rule: seq128_enq_cases [OF ok s, case_names room full])
    case (room v)
    then show ?thesis
      by (subst MPMCPtrSeq_Enqueue.simps, simp add: Let_def cas64 cas128 MPMCSeq_Enqueue_eq [OF ok s] seq128_abs_fold)
  next
    case (full s' v)
    then show ?thesis
      by (subst MPMCPtrSeq_Enqueue.simps, simp add: Let_def MPMCSeq_Enqueue_eq [OF ok s])
  qed
qed

lemma MPMCPtrSeq_Dequeue_sim:
  assumes i: "mpmcseq_inv b (seq128_abs q)"
  shows "go_map seq128_abs (MPMCPtrSeq_Dequeue A q) = MPMCSeq_Dequeue A 0 (seq128_abs q)"
proof -
  from i obtain k where ok: "seqq_ok (seq128_abs q)" and s: "seqq_shape k (seq128_abs q)"
    by (auto simp: mpmcseq_inv_def seqq_ok_def)
  show ?thesis
  proof (cases rule: seq128_deq_cases [OF ok s, case_names some none])
    case (some v)
    then show ?thesis
      by (subst MPMCPtrSeq_Dequeue.simps, simp add: Let_def cas64 cas128 MPMCSeq_Dequeue_eq [OF ok s] seq128_abs_fold)
  next
    case (none v)
    then show ?thesis
      by (subst MPMCPtrSeq_Dequeue.simps, simp add: Let_def MPMCSeq_Dequeue_eq [OF ok s] minus_1_neg)
  qed
qed

lemma MPSCIndirectSeq_Enqueue_sim:
  assumes i: "seqq_inv b (seq128_abs q)"
  shows "go_map seq128_abs (MPSCIndirectSeq_Enqueue A x q) = MPSCSeq_Enqueue A x (seq128_abs q)"
proof -
  from i obtain k where ok: "seqq_ok (seq128_abs q)" and s: "seqq_shape k (seq128_abs q)"
    by (auto simp: seqq_inv_def seqq_ok_def)
  show ?thesis
  proof (cases rule: seq128_enq_cases [OF ok s, case_names room full])
    case (room v)
    then show ?thesis using seq128_room_tests [OF i s]
      by (subst MPSCIndirectSeq_Enqueue.simps, simp add: Let_def cas64 cas128 MPSCSeq_Enqueue_eq [OF i s] seq128_abs_fold)
  next
    case (full s' v)
    then show ?thesis using seq128_room_tests [OF i s]
      by (subst MPSCIndirectSeq_Enqueue.simps, simp add: Let_def MPSCSeq_Enqueue_eq [OF i s])
  qed
qed

lemma MPSCIndirectSeq_Dequeue_sim:
  assumes i: "seqq_inv b (seq128_abs q)"
  shows "go_map seq128_abs (MPSCIndirectSeq_Dequeue q) = MPSCSeq_Dequeue 0 (seq128_abs q)"
proof -
  from i obtain k where ok: "seqq_ok (seq128_abs q)" and s: "seqq_shape k (seq128_abs q)"
    by (auto simp: seqq_inv_def seqq_ok_def)
  show ?thesis
  proof (cases rule: seq128_deq_cases [OF ok s, case_names some none])
    case (some v)
    then show ?thesis
      by (simp add: MPSCIndirectSeq_Dequeue_def Let_def cas64 cas128 MPSCSeq_Dequeue_eq [OF ok s] seq128_abs_fold)
  next
    case (none v)
    then show ?thesis
      by (simp add: MPSCIndirectSeq_Dequeue_def Let_def MPSCSeq_Dequeue_eq [OF ok s] minus_1_neg)
  qed
qed

lemma MPSCPtrSeq_Enqueue_sim:
  assumes i: "seqq_inv b (seq128_abs q)"
  shows "go_map seq128_abs (MPSCPtrSeq_Enqueue A x q) = MPSCSeq_Enqueue A x (seq128_abs q)"
proof -
  from i obtain k where ok: "seqq_ok (seq128_abs q)" and s: "seqq_shape k (seq128_abs q)"
    by (auto simp: seqq_inv_def seqq_ok_def)
  show ?thesis
  proof (cases rule: seq128_enq_cases [OF ok s, case_names room full])
    case (room v)
    then show ?thesis using seq128_room_tests [OF i s]
      by (subst MPSCPtrSeq_Enqueue.simps, simp add: Let_def cas64 cas128 MPSCSeq_Enqueue_eq [OF i s] seq128_abs_fold)
  next
    case (full s' v)
    then show ?thesis using seq128_room_tests [OF i s]
      by (subst MPSCPtrSeq_Enqueue.simps, simp add: Let_def MPSCSeq_Enqueue_eq [OF i s])
  qed
qed

lemma MPSCPtrSeq_Dequeue_sim:
  assumes i: "seqq_inv b (seq128_abs q)"
  shows "go_map seq128_abs (MPSCPtrSeq_Dequeue q) = MPSCSeq_Dequeue 0 (seq128_abs q)"
proof -
  from i obtain k where ok: "seqq_ok (seq128_abs q)" and s: "seqq_shape k (seq128_abs q)"
    by (auto simp: seqq_inv_def seqq_ok_def)
  show ?thesis
  proof (cases rule: seq128_deq_cases [OF ok s, case_names some none])
    case (some v)
    then show ?thesis
      by (simp add: MPSCPtrSeq_Dequeue_def Let_def cas64 cas128 MPSCSeq_Dequeue_eq [OF ok s] seq128_abs_fold)
  next
    case (none v)
    then show ?thesis
      by (simp add: MPSCPtrSeq_Dequeue_def Let_def MPSCSeq_Dequeue_eq [OF ok s] minus_1_neg)
  qed
qed

lemma SPMCIndirectSeq_Enqueue_sim:
  assumes i: "seqq_inv b (seq128_abs q)"
  shows "go_map seq128_abs (SPMCIndirectSeq_Enqueue x q) = SPMCSeq_Enqueue x (seq128_abs q)"
proof -
  from i obtain k where ok: "seqq_ok (seq128_abs q)" and s: "seqq_shape k (seq128_abs q)"
    by (auto simp: seqq_inv_def seqq_ok_def)
  show ?thesis
  proof (cases rule: seq128_enq_cases [OF ok s, case_names room full])
    case (room v)
    then show ?thesis
      by (simp add: SPMCIndirectSeq_Enqueue_def Let_def cas64 cas128 SPMCSeq_Enqueue_eq [OF ok s] seq128_abs_fold)
  next
    case (full s' v)
    then show ?thesis
      by (simp add: SPMCIndirectSeq_Enqueue_def Let_def SPMCSeq_Enqueue_eq [OF ok s])
  qed
qed

lemma SPMCIndirectSeq_Dequeue_sim:
  assumes i: "seqq_inv b (seq128_abs q)"
  shows "go_map seq128_abs (SPMCIndirectSeq_Dequeue A q) = SPMCSeq_Dequeue A 0 (seq128_abs q)"
proof -
  from i obtain k where ok: "seqq_ok (seq128_abs q)" and s: "seqq_shape k (seq128_abs q)"
    by (auto simp: seqq_inv_def seqq_ok_def)
  show ?thesis
  proof (cases rule: seq128_deq_cases [OF ok s, case_names some none])
    case (some v)
    then show ?thesis using seq128_room_tests [OF i s]
      by (subst SPMCIndirectSeq_Dequeue.simps, simp add: Let_def cas64 cas128 SPMCSeq_Dequeue_eq [OF i s] seq128_abs_fold)
  next
    case (none v)
    then show ?thesis using seq128_room_tests [OF i s]
      by (subst SPMCIndirectSeq_Dequeue.simps, simp add: Let_def SPMCSeq_Dequeue_eq [OF i s] minus_1_neg)
  qed
qed

lemma SPMCPtrSeq_Enqueue_sim:
  assumes i: "seqq_inv b (seq128_abs q)"
  shows "go_map seq128_abs (SPMCPtrSeq_Enqueue x q) = SPMCSeq_Enqueue x (seq128_abs q)"
proof -
  from i obtain k where ok: "seqq_ok (seq128_abs q)" and s: "seqq_shape k (seq128_abs q)"
    by (auto simp: seqq_inv_def seqq_ok_def)
  show ?thesis
  proof (cases rule: seq128_enq_cases [OF ok s, case_names room full])
    case (room v)
    then show ?thesis
      by (simp add: SPMCPtrSeq_Enqueue_def Let_def cas64 cas128 SPMCSeq_Enqueue_eq [OF ok s] seq128_abs_fold)
  next
    case (full s' v)
    then show ?thesis
      by (simp add: SPMCPtrSeq_Enqueue_def Let_def SPMCSeq_Enqueue_eq [OF ok s])
  qed
qed

lemma SPMCPtrSeq_Dequeue_sim:
  assumes i: "seqq_inv b (seq128_abs q)"
  shows "go_map seq128_abs (SPMCPtrSeq_Dequeue A q) = SPMCSeq_Dequeue A 0 (seq128_abs q)"
proof -
  from i obtain k where ok: "seqq_ok (seq128_abs q)" and s: "seqq_shape k (seq128_abs q)"
    by (auto simp: seqq_inv_def seqq_ok_def)
  show ?thesis
  proof (cases rule: seq128_deq_cases [OF ok s, case_names some none])
    case (some v)
    then show ?thesis using seq128_room_tests [OF i s]
      by (subst SPMCPtrSeq_Dequeue.simps, simp add: Let_def cas64 cas128 SPMCSeq_Dequeue_eq [OF i s] seq128_abs_fold)
  next
    case (none v)
    then show ?thesis using seq128_room_tests [OF i s]
      by (subst SPMCPtrSeq_Dequeue.simps, simp add: Let_def SPMCSeq_Dequeue_eq [OF i s] minus_1_neg)
  qed
qed

end

sublocale atomix_sem < mpmcindirectseq: queue_simulation "MPMCSeq_Enqueue A" "MPMCSeq_Dequeue A 0"
    "\<lambda>q. nat (MPMCSeq_Cap q)" seqq_elems mpmcseq_inv 0 "\<lambda>_. True" "MPMCIndirectSeq_Enqueue A" "MPMCIndirectSeq_Dequeue A" seq128_abs
  by (rule queue_simulation.intro [OF mpmcseq.bounded_queue_axioms], unfold_locales)
    (rule MPMCIndirectSeq_Enqueue_sim, assumption, rule MPMCIndirectSeq_Dequeue_sim, assumption)

sublocale atomix_sem < mpmcptrseq: queue_simulation "MPMCSeq_Enqueue A" "MPMCSeq_Dequeue A 0"
    "\<lambda>q. nat (MPMCSeq_Cap q)" seqq_elems mpmcseq_inv 0 "\<lambda>_. True" "MPMCPtrSeq_Enqueue A" "MPMCPtrSeq_Dequeue A" seq128_abs
  by (rule queue_simulation.intro [OF mpmcseq.bounded_queue_axioms], unfold_locales)
    (rule MPMCPtrSeq_Enqueue_sim, assumption, rule MPMCPtrSeq_Dequeue_sim, assumption)

sublocale atomix_sem < mpscindirectseq: queue_simulation "MPSCSeq_Enqueue A" "MPSCSeq_Dequeue 0"
    "\<lambda>q. nat (MPSCSeq_Cap q)" seqq_elems seqq_inv 0 "\<lambda>_. True" "MPSCIndirectSeq_Enqueue A" "MPSCIndirectSeq_Dequeue" seq128_abs
  by (rule queue_simulation.intro [OF mpscseq.bounded_queue_axioms], unfold_locales)
    (rule MPSCIndirectSeq_Enqueue_sim, assumption, rule MPSCIndirectSeq_Dequeue_sim, assumption)

sublocale atomix_sem < mpscptrseq: queue_simulation "MPSCSeq_Enqueue A" "MPSCSeq_Dequeue 0"
    "\<lambda>q. nat (MPSCSeq_Cap q)" seqq_elems seqq_inv 0 "\<lambda>_. True" "MPSCPtrSeq_Enqueue A" "MPSCPtrSeq_Dequeue" seq128_abs
  by (rule queue_simulation.intro [OF mpscseq.bounded_queue_axioms], unfold_locales)
    (rule MPSCPtrSeq_Enqueue_sim, assumption, rule MPSCPtrSeq_Dequeue_sim, assumption)

sublocale atomix_sem < spmcindirectseq: queue_simulation "SPMCSeq_Enqueue" "SPMCSeq_Dequeue A 0"
    "\<lambda>q. nat (SPMCSeq_Cap q)" seqq_elems seqq_inv 0 "\<lambda>_. True" "SPMCIndirectSeq_Enqueue" "SPMCIndirectSeq_Dequeue A" seq128_abs
  by (rule queue_simulation.intro [OF spmcseq.bounded_queue_axioms], unfold_locales)
    (rule SPMCIndirectSeq_Enqueue_sim, assumption, rule SPMCIndirectSeq_Dequeue_sim, assumption)

sublocale atomix_sem < spmcptrseq: queue_simulation "SPMCSeq_Enqueue" "SPMCSeq_Dequeue A 0"
    "\<lambda>q. nat (SPMCSeq_Cap q)" seqq_elems seqq_inv 0 "\<lambda>_. True" "SPMCPtrSeq_Enqueue" "SPMCPtrSeq_Dequeue A" seq128_abs
  by (rule queue_simulation.intro [OF spmcseq.bounded_queue_axioms], unfold_locales)
    (rule SPMCPtrSeq_Enqueue_sim, assumption, rule SPMCPtrSeq_Dequeue_sim, assumption)

section \<open>The constructors\<close>

lemma New128Seq_same:
  "NewMPMCPtrSeq = NewMPMCIndirectSeq" "NewMPSCIndirectSeq = NewMPMCIndirectSeq"
  "NewMPSCPtrSeq = NewMPMCIndirectSeq" "NewSPMCIndirectSeq = NewMPMCIndirectSeq"
  "NewSPMCPtrSeq = NewMPMCIndirectSeq"
  by (intro ext, simp add: NewMPMCPtrSeq_def NewMPSCIndirectSeq_def NewMPSCPtrSeq_def
      NewSPMCIndirectSeq_def NewSPMCPtrSeq_def NewMPMCIndirectSeq_def)+

text \<open>They build what the generic constructor builds, with every value 0.\<close>

lemma NewMPMCIndirectSeq_abs:
  "map_option (map_sum id seq128_abs) (NewMPMCIndirectSeq c) = NewMPMCSeq 0 c"
proof -
  have "fold (\<lambda>i buf. buf[i := \<lparr>entry = (of_nat i, 0)\<rparr>]) [0..<m] (replicate m \<lparr>entry = (0, 0)\<rparr>)
      = map (\<lambda>i. \<lparr>entry = (of_nat i, 0)\<rparr>) [0..<m]" for m
    using fold_init_replicate [of "\<lambda>i _. \<lparr>entry = (of_nat i, 0)\<rparr>"] .
  moreover have "fold (\<lambda>i buf. buf[i := (buf ! i)\<lparr>seq := of_nat i\<rparr>]) [0..<m]
      (replicate m \<lparr>seq = 0, data = 0\<rparr>) = map (\<lambda>i. \<lparr>seq = of_nat i, data = (0 :: u64)\<rparr>) [0..<m]" for m
    by (subst fold_init_replicate) simp
  ultimately show ?thesis
    by (simp add: NewMPMCIndirectSeq_def NewMPMCSeq_def Let_def make_slice_def seq128_abs_def)
qed

lemma NewMPMCIndirectSeq_ok:
  assumes "2 \<le> sint c" and "sint c \<le> 2 ^ 62"
  shows "\<exists>q. NewMPMCIndirectSeq c = ret q \<and> seqq_inv (2 ^ 63) (seq128_abs q)
           \<and> seqq_elems (seq128_abs q) = [] \<and> capacity q = roundToPow2 c"
proof -
  from NewMPMCSeq_ok [OF assms, of 0] obtain s :: "u64 MPMCSeq" where
    s: "NewMPMCSeq 0 c = ret s" "seqq_inv (2 ^ 63) s" "seqq_elems s = []"
      "MPMCSeq.capacity s = roundToPow2 c"
    by blast
  have "map_option (map_sum id seq128_abs) (NewMPMCIndirectSeq c) = ret s"
    using NewMPMCIndirectSeq_abs [of c] s(1) by simp
  from go_constructor_lift [OF this] obtain q where "NewMPMCIndirectSeq c = ret q" "s = seq128_abs q"
    by blast
  with s show ?thesis by (auto simp: seq128_abs_def)
qed

section \<open>The pointer queues run the same code\<close>

text \<open>
  The variants for \<open>unsafe.Pointer\<close> return what the variants for \<open>uintptr\<close> return, in every state and
  whatever the atomic operations do: one returns a result just when the other does.
\<close>

lemma MPMCPtrSeq_Enqueue_le: "MPMCPtrSeq_Enqueue A x q = Some r \<Longrightarrow> MPMCIndirectSeq_Enqueue A x q = Some r"
  by (erule MPMCPtrSeq_Enqueue.raw_induct [rotated], subst MPMCIndirectSeq_Enqueue.simps)
    (auto simp: Let_def split: prod.splits if_splits)

lemma MPMCIndirectSeq_Enqueue_le: "MPMCIndirectSeq_Enqueue A x q = Some r \<Longrightarrow> MPMCPtrSeq_Enqueue A x q = Some r"
  by (erule MPMCIndirectSeq_Enqueue.raw_induct [rotated], subst MPMCPtrSeq_Enqueue.simps)
    (auto simp: Let_def split: prod.splits if_splits)

lemma MPMCPtrSeq_Dequeue_le: "MPMCPtrSeq_Dequeue A q = Some r \<Longrightarrow> MPMCIndirectSeq_Dequeue A q = Some r"
  by (erule MPMCPtrSeq_Dequeue.raw_induct [rotated], subst MPMCIndirectSeq_Dequeue.simps)
    (auto simp: Let_def split: prod.splits if_splits)

lemma MPMCIndirectSeq_Dequeue_le: "MPMCIndirectSeq_Dequeue A q = Some r \<Longrightarrow> MPMCPtrSeq_Dequeue A q = Some r"
  by (erule MPMCIndirectSeq_Dequeue.raw_induct [rotated], subst MPMCPtrSeq_Dequeue.simps)
    (auto simp: Let_def split: prod.splits if_splits)

lemma MPSCPtrSeq_Enqueue_le: "MPSCPtrSeq_Enqueue A x q = Some r \<Longrightarrow> MPSCIndirectSeq_Enqueue A x q = Some r"
  by (erule MPSCPtrSeq_Enqueue.raw_induct [rotated], subst MPSCIndirectSeq_Enqueue.simps)
    (auto simp: Let_def split: prod.splits if_splits)

lemma MPSCIndirectSeq_Enqueue_le: "MPSCIndirectSeq_Enqueue A x q = Some r \<Longrightarrow> MPSCPtrSeq_Enqueue A x q = Some r"
  by (erule MPSCIndirectSeq_Enqueue.raw_induct [rotated], subst MPSCPtrSeq_Enqueue.simps)
    (auto simp: Let_def split: prod.splits if_splits)

lemma SPMCPtrSeq_Dequeue_le: "SPMCPtrSeq_Dequeue A q = Some r \<Longrightarrow> SPMCIndirectSeq_Dequeue A q = Some r"
  by (erule SPMCPtrSeq_Dequeue.raw_induct [rotated], subst SPMCIndirectSeq_Dequeue.simps)
    (auto simp: Let_def split: prod.splits if_splits)

lemma SPMCIndirectSeq_Dequeue_le: "SPMCIndirectSeq_Dequeue A q = Some r \<Longrightarrow> SPMCPtrSeq_Dequeue A q = Some r"
  by (erule SPMCIndirectSeq_Dequeue.raw_induct [rotated], subst SPMCPtrSeq_Dequeue.simps)
    (auto simp: Let_def split: prod.splits if_splits)

lemma MPMCPtrSeq_same:
  "MPMCPtrSeq_Enqueue = MPMCIndirectSeq_Enqueue" "MPMCPtrSeq_Dequeue = MPMCIndirectSeq_Dequeue"
  by (((rule ext)+, rule option_eqI), erule MPMCPtrSeq_Enqueue_le, erule MPMCIndirectSeq_Enqueue_le)
    (((rule ext)+, rule option_eqI), erule MPMCPtrSeq_Dequeue_le, erule MPMCIndirectSeq_Dequeue_le)

lemma MPSCPtrSeq_same:
  "MPSCPtrSeq_Enqueue = MPSCIndirectSeq_Enqueue" "MPSCPtrSeq_Dequeue = MPSCIndirectSeq_Dequeue"
  by (((rule ext)+, rule option_eqI), erule MPSCPtrSeq_Enqueue_le, erule MPSCIndirectSeq_Enqueue_le)
    (simp add: fun_eq_iff MPSCPtrSeq_Dequeue_def MPSCIndirectSeq_Dequeue_def)

lemma SPMCPtrSeq_same:
  "SPMCPtrSeq_Enqueue = SPMCIndirectSeq_Enqueue" "SPMCPtrSeq_Dequeue = SPMCIndirectSeq_Dequeue"
  by (simp add: fun_eq_iff SPMCPtrSeq_Enqueue_def SPMCIndirectSeq_Enqueue_def)
    (((rule ext)+, rule option_eqI), erule SPMCPtrSeq_Dequeue_le, erule SPMCIndirectSeq_Dequeue_le)

end
