(* ===== verification/Faa_Ring.thy ===== *)
theory Faa_Ring
  imports Pow2 Fifo_Spec
begin

text \<open>
  The per-slot cycle numbers of the FAA-based queues: capacity \<open>n\<close>, \<open>2n\<close> physical slots, and the
  slot of position \<open>p\<close> carries \<open>p div n\<close> while it waits for the producer of \<open>p\<close> and \<open>p div n + 1\<close>
  while it holds that producer's value. Consuming the slot, or giving it up, advances it to
  \<open>(p + 2n) div n\<close>, the cycle of its next position. Positions are natural numbers here; the
  queues' counters stand for them as long as they do not wrap.
\<close>

definition faa_ring :: "nat \<Rightarrow> nat \<Rightarrow> nat \<Rightarrow> (nat \<Rightarrow> u64) \<Rightarrow> bool" where
  "faa_ring n h t C \<longleftrightarrow> h \<le> t \<and> t \<le> h + n \<and>
     (\<forall>i<2 * n. C ((h + i) mod (2 * n)) = of_nat ((h + i) div n + (if i < t - h then 1 else 0)))"

lemma faa_ring_cong:
  "0 < n \<Longrightarrow> (\<And>i. i < 2 * n \<Longrightarrow> C i = C' i) \<Longrightarrow> faa_ring n h t C = faa_ring n h t C'"
  by (auto simp: faa_ring_def)

lemma faa_ringD:
  "faa_ring n h t C \<Longrightarrow> i < 2 * n \<Longrightarrow>
   C ((h + i) mod (2 * n)) = of_nat ((h + i) div n + (if i < t - h then 1 else 0))"
  by (simp add: faa_ring_def)

lemma faa_ring_bounds: "faa_ring n h t C \<Longrightarrow> h \<le> t \<and> t \<le> h + n"
  by (simp add: faa_ring_def)

lemma faa_ring_init: "faa_ring n 0 0 (\<lambda>i. of_nat (i div n))"
  by (simp add: faa_ring_def)

text \<open>What a producer and a consumer find.\<close>

lemma faa_at_tail:
  assumes "faa_ring n h t C" and "t < h + n"
  shows "C (t mod (2 * n)) = of_nat (t div n)"
proof -
  have "h + (t - h) = t" using faa_ring_bounds [OF assms(1)] by simp
  with faa_ringD [OF assms(1), of "t - h"] assms(2) show ?thesis by simp
qed

lemma faa_at_head:
  assumes "faa_ring n h t C" and "0 < n"
  shows "C (h mod (2 * n)) = of_nat (h div n + (if h < t then 1 else 0))"
  using faa_ringD [OF assms(1), of 0] assms(2) by simp

text \<open>Filling a slot, consuming one, and giving one up on an empty queue.\<close>

lemma faa_ring_push:
  assumes "faa_ring n h t C" and "t < h + n"
  shows "faa_ring n h (Suc t) (C(t mod (2 * n) := of_nat (t div n + 1)))"
proof -
  have b: "h \<le> t" using faa_ring_bounds [OF assms(1)] by simp
  then have ht: "h + (t - h) = t" by simp
  have "(C(t mod (2 * n) := of_nat (t div n + 1))) ((h + i) mod (2 * n))
      = of_nat ((h + i) div n + (if i < Suc t - h then 1 else 0))" if i: "i < 2 * n" for i
  proof (cases "i = t - h")
    case True
    then show ?thesis using b ht by simp
  next
    case False
    have "(h + i) mod (2 * n) \<noteq> t mod (2 * n)"
    proof
      assume "(h + i) mod (2 * n) = t mod (2 * n)"
      then have "(h + i) mod (2 * n) = (h + (t - h)) mod (2 * n)" using ht by simp
      moreover have "t - h < 2 * n" using assms(2) b by arith
      ultimately show False using mod_pow2_inj [of i "2 * n" "t - h" h] i False by simp
    qed
    moreover have "i < Suc t - h \<longleftrightarrow> i < t - h" using False b by arith
    ultimately show ?thesis using faa_ringD [OF assms(1) i] by simp
  qed
  with b assms(2) show ?thesis by (simp add: faa_ring_def)
qed

lemma faa_ring_advance:
  assumes "h \<le> t" and "t \<le> Suc h + n" and "0 < n" and "h < t"
    and "\<And>i. 0 < i \<Longrightarrow> i < 2 * n \<Longrightarrow>
      C ((h + i) mod (2 * n)) = of_nat ((h + i) div n + (if i < t - h then 1 else 0))"
  shows "faa_ring n (Suc h) t (C(h mod (2 * n) := of_nat ((h + 2 * n) div n)))"
proof -
  have "(C(h mod (2 * n) := of_nat ((h + 2 * n) div n))) ((Suc h + i) mod (2 * n))
      = of_nat ((Suc h + i) div n + (if i < t - Suc h then 1 else 0))" if i: "i < 2 * n" for i
  proof (cases "Suc i = 2 * n")
    case True
    then have e: "Suc h + i = h + 2 * n" by simp
    have "\<not> i < t - Suc h" using True assms(2,3) by simp
    then show ?thesis unfolding e by simp
  next
    case False
    with i have i': "Suc i < 2 * n" by simp
    then have "(h + Suc i) mod (2 * n) \<noteq> (h + 0) mod (2 * n)"
      using mod_pow2_inj [of "Suc i" "2 * n" 0 h] by auto
    moreover have "Suc i < t - h \<longleftrightarrow> i < t - Suc h" by arith
    ultimately show ?thesis using assms(5) [of "Suc i"] i' by simp
  qed
  with assms(2,4) show ?thesis by (simp add: faa_ring_def)
qed

lemma faa_ring_pop:
  assumes "faa_ring n h t C" and "h < t"
  shows "faa_ring n (Suc h) t (C(h mod (2 * n) := of_nat ((h + 2 * n) div n)))"
  using assms faa_ring_bounds [OF assms(1)] by (intro faa_ring_advance) (auto simp: faa_ring_def)

lemma faa_ring_skip:
  assumes "faa_ring n h h C" and "0 < n"
  shows "faa_ring n (Suc h) (Suc h) (C(h mod (2 * n) := of_nat ((h + 2 * n) div n)))"
  using assms by (intro faa_ring_advance) (auto simp: faa_ring_def)

end
