(* ===== verification/Faa_Queues.thy ===== *)
theory Faa_Queues
  imports Faa_Ring Atomix
begin

text \<open>
  The FAA-based generic queues \<open>MPMC[T]\<close> (\<open>mpmc.go\<close>), \<open>MPSC[T]\<close> (\<open>mpsc.go\<close>) and \<open>SPMC[T]\<close>
  (\<open>spmc.go\<close>): capacity \<open>n\<close>, \<open>2n\<close> physical slots, per-slot cycle numbers. Producers and consumers
  claim a position by fetch-and-add before they look at its slot. \<open>MPMC\<close> and \<open>SPMC\<close> have the same
  fields and share a record; \<open>MPSC\<close> has no threshold.

  As for the other queues, an operation is one function, as it behaves when no other goroutine
  moves during the call, and a retry loop is a \<^theory_text>\<open>partial_function\<close> whose value \<open>None\<close> would be
  a call that never returns. A dequeue on an empty queue is not a no-op: it burns a position,
  repairs the slot, moves the tail up to the head and lowers the threshold.
\<close>

section \<open>Slots and structs\<close>

record 'a mpmcSlot =
  cycle :: u64
  data :: 'a

record 'a MPMC =
  tail :: u64
  head :: u64
  threshold :: u64
  draining :: bool
  buffer :: "'a mpmcSlot list"
  capacity :: u64
  size_q :: u64
  mask_q :: u64

type_synonym 'a spmcSlot = "'a mpmcSlot"
type_synonym 'a SPMC = "'a MPMC"
type_synonym 'a mpscSlot = "'a mpmcSlot"

record 'a MPSC =
  sc_head :: u64
  sc_tail :: u64
  sc_draining :: bool
  sc_buffer :: "'a mpscSlot list"
  sc_capacity :: u64
  sc_size :: u64
  sc_mask :: u64

section \<open>\<open>MPMC\<close>\<close>

definition NewMPMC :: "'a \<Rightarrow> u64 \<Rightarrow> 'a MPMC go" where
  "NewMPMC zero cap =
     (if sint cap < 2 then panics (PanicMsg ''lfq: capacity must be >= 2'')
      else let n = roundToPow2 cap; size = n * 2 in
        go_bind (make_slice size \<lparr>cycle = 0, data = zero\<rparr>) (\<lambda>buf.
          ret \<lparr>tail = 0, head = 0, threshold = 3 * n - 1, draining = False,
               buffer = fold (\<lambda>i buf. buf[i := (buf ! i)\<lparr>cycle := of_nat i div n\<rparr>]) [0..<unat size] buf,
               capacity = n, size_q = size, mask_q = size - 1\<rparr>))"

partial_function (option) MPMC_Enqueue
  :: "atomix \<Rightarrow> 'a \<Rightarrow> 'a MPMC \<Rightarrow> (err option \<times> 'a MPMC) go" where
  "MPMC_Enqueue A elem q =
     (let t = tail q; h = head q
      in if t \<ge> h + capacity q then ret (Some ErrWouldBlock, q)
         else (case Add64 A (tail q) 1 of (added, cell) \<Rightarrow>
           let q = q\<lparr>tail := cell\<rparr>; myTail = added - 1; i = unat (myTail AND mask_q q)
           in if \<not> i < length (buffer q) then panics IndexOutOfRange
              else if capacity q = 0 then panics DivideByZero
              else let expectedCycle = myTail div capacity q; slotCycle = cycle (buffer q ! i)
                in if slotCycle = expectedCycle
                   then let q = q\<lparr>buffer := (buffer q)[i := (buffer q ! i)\<lparr>data := elem\<rparr>]\<rparr>;
                            q = q\<lparr>buffer := (buffer q)[i := (buffer q ! i)\<lparr>cycle := expectedCycle + 1\<rparr>]\<rparr>;
                            q = q\<lparr>threshold := 3 * capacity q - 1\<rparr>
                        in ret (None, q)
                   else if sint slotCycle < sint expectedCycle then ret (Some ErrWouldBlock, q)
                   else MPMC_Enqueue A elem q))"

partial_function (option) MPMC_catchup
  :: "atomix \<Rightarrow> u64 \<Rightarrow> u64 \<Rightarrow> 'a MPMC \<Rightarrow> 'a MPMC go" where
  "MPMC_catchup A t h q =
     (if t < h
      then (case CompareAndSwap64 A (tail q) t h of (swapped, cell) \<Rightarrow>
        let q = q\<lparr>tail := cell\<rparr>
        in if swapped then ret q else MPMC_catchup A (tail q) (head q) q)
      else ret q)"

partial_function (option) MPMC_Dequeue_loop
  :: "atomix \<Rightarrow> 'a \<Rightarrow> 'a MPMC \<Rightarrow> (('a \<times> err option) \<times> 'a MPMC) go" where
  "MPMC_Dequeue_loop A zero q =
     (case Add64 A (head q) 1 of (added, cell) \<Rightarrow>
        let q = q\<lparr>head := cell\<rparr>; myHead = added - 1; i = unat (myHead AND mask_q q)
        in if \<not> i < length (buffer q) then panics IndexOutOfRange
           else if capacity q = 0 then panics DivideByZero
           else let expectedCycle = myHead div capacity q + 1; slotCycle = cycle (buffer q ! i)
             in if slotCycle = expectedCycle
                then let elem = data (buffer q ! i);
                         q = q\<lparr>buffer := (buffer q)[i := (buffer q ! i)\<lparr>data := zero\<rparr>]\<rparr>;
                         nextEnqCycle = (myHead + size_q q) div capacity q;
                         q = q\<lparr>buffer := (buffer q)[i := (buffer q ! i)\<lparr>cycle := nextEnqCycle\<rparr>]\<rparr>
                     in ret ((elem, None), q)
                else if sint slotCycle < sint expectedCycle
                then let nextEnqCycle = (myHead + size_q q) div capacity q;
                         repaired = snd (CompareAndSwap64 A (cycle (buffer q ! i)) slotCycle nextEnqCycle);
                         q = q\<lparr>buffer := (buffer q)[i := (buffer q ! i)\<lparr>cycle := repaired\<rparr>]\<rparr>;
                         t = tail q
                     in if t \<le> myHead + 1
                        then go_bind (MPMC_catchup A t (myHead + 1) q) (\<lambda>q.
                          let q = q\<lparr>threshold := snd (AddInt64 A (threshold q) (- 1))\<rparr>
                          in ret ((zero, Some ErrWouldBlock), q))
                        else (case AddInt64 A (threshold q) (- 1) of (left, cell) \<Rightarrow>
                          let q = q\<lparr>threshold := cell\<rparr>
                          in if sint left \<le> 0 \<and> \<not> draining q
                             then ret ((zero, Some ErrWouldBlock), q)
                             else MPMC_Dequeue_loop A zero q)
                else MPMC_Dequeue_loop A zero q)"

definition MPMC_Dequeue
  :: "atomix \<Rightarrow> 'a \<Rightarrow> 'a MPMC \<Rightarrow> (('a \<times> err option) \<times> 'a MPMC) go" where
  "MPMC_Dequeue A zero q =
     (if \<not> draining q \<and> sint (threshold q) < 0 then ret ((zero, Some ErrWouldBlock), q)
      else MPMC_Dequeue_loop A zero q)"

definition MPMC_Drain :: "'a MPMC \<Rightarrow> 'a MPMC" where
  "MPMC_Drain q = q\<lparr>draining := True\<rparr>"

definition MPMC_Cap :: "'a MPMC \<Rightarrow> int" where
  "MPMC_Cap q = sint (capacity q)"

section \<open>\<open>MPSC\<close>\<close>

definition NewMPSC :: "'a \<Rightarrow> u64 \<Rightarrow> 'a MPSC go" where
  "NewMPSC zero cap =
     (if sint cap < 2 then panics (PanicMsg ''lfq: capacity must be >= 2'')
      else let n = roundToPow2 cap; size = n * 2 in
        go_bind (make_slice size \<lparr>cycle = 0, data = zero\<rparr>) (\<lambda>buf.
          ret \<lparr>sc_head = 0, sc_tail = 0, sc_draining = False,
               sc_buffer = fold (\<lambda>i buf. buf[i := (buf ! i)\<lparr>cycle := of_nat i div n\<rparr>]) [0..<unat size] buf,
               sc_capacity = n, sc_size = size, sc_mask = size - 1\<rparr>))"

definition MPSC_Drain :: "'a MPSC \<Rightarrow> 'a MPSC" where
  "MPSC_Drain q = q\<lparr>sc_draining := True\<rparr>"

partial_function (option) MPSC_Enqueue
  :: "atomix \<Rightarrow> 'a \<Rightarrow> 'a MPSC \<Rightarrow> (err option \<times> 'a MPSC) go" where
  "MPSC_Enqueue A elem q =
     (let t = sc_tail q; h = sc_head q
      in if t \<ge> h + sc_capacity q then ret (Some ErrWouldBlock, q)
         else (case Add64 A (sc_tail q) 1 of (added, cell) \<Rightarrow>
           let q = q\<lparr>sc_tail := cell\<rparr>; myTail = added - 1; i = unat (myTail AND sc_mask q)
           in if \<not> i < length (sc_buffer q) then panics IndexOutOfRange
              else if sc_capacity q = 0 then panics DivideByZero
              else let expectedCycle = myTail div sc_capacity q; slotCycle = cycle (sc_buffer q ! i)
                in if slotCycle = expectedCycle
                   then let q = q\<lparr>sc_buffer := (sc_buffer q)[i := (sc_buffer q ! i)\<lparr>data := elem\<rparr>]\<rparr>;
                            q = q\<lparr>sc_buffer := (sc_buffer q)[i := (sc_buffer q ! i)\<lparr>cycle := expectedCycle + 1\<rparr>]\<rparr>
                        in ret (None, q)
                   else if sint slotCycle < sint expectedCycle then ret (Some ErrWouldBlock, q)
                   else MPSC_Enqueue A elem q))"

definition MPSC_Dequeue :: "'a \<Rightarrow> 'a MPSC \<Rightarrow> (('a \<times> err option) \<times> 'a MPSC) go" where
  "MPSC_Dequeue zero q =
     (let h = sc_head q
      in if sc_capacity q = 0 then panics DivideByZero
         else let c = h div sc_capacity q; i = unat (h AND sc_mask q)
           in if \<not> i < length (sc_buffer q) then panics IndexOutOfRange
              else let slotCycle = cycle (sc_buffer q ! i)
                in if slotCycle \<noteq> c + 1 then ret ((zero, Some ErrWouldBlock), q)
                   else let elem = data (sc_buffer q ! i);
                            q = q\<lparr>sc_buffer := (sc_buffer q)[i := (sc_buffer q ! i)\<lparr>data := zero\<rparr>]\<rparr>;
                            nextEnqCycle = (h + sc_size q) div sc_capacity q;
                            q = q\<lparr>sc_buffer := (sc_buffer q)[i := (sc_buffer q ! i)\<lparr>cycle := nextEnqCycle\<rparr>]\<rparr>;
                            q = q\<lparr>sc_head := h + 1\<rparr>
                        in ret ((elem, None), q))"

definition MPSC_Cap :: "'a MPSC \<Rightarrow> int" where
  "MPSC_Cap q = sint (sc_capacity q)"

section \<open>\<open>SPMC\<close>\<close>

definition NewSPMC :: "'a \<Rightarrow> u64 \<Rightarrow> 'a SPMC go" where
  "NewSPMC zero cap =
     (if sint cap < 2 then panics (PanicMsg ''lfq: capacity must be >= 2'')
      else let n = roundToPow2 cap; size = n * 2 in
        go_bind (make_slice size \<lparr>cycle = 0, data = zero\<rparr>) (\<lambda>buf.
          ret \<lparr>tail = 0, head = 0, threshold = 3 * n - 1, draining = False,
               buffer = fold (\<lambda>i buf. buf[i := (buf ! i)\<lparr>cycle := of_nat i div n\<rparr>]) [0..<unat size] buf,
               capacity = n, size_q = size, mask_q = size - 1\<rparr>))"

definition SPMC_Enqueue :: "'a \<Rightarrow> 'a SPMC \<Rightarrow> (err option \<times> 'a SPMC) go" where
  "SPMC_Enqueue elem q =
     (let t = tail q; h = head q
      in if t \<ge> h + capacity q then ret (Some ErrWouldBlock, q)
         else if capacity q = 0 then panics DivideByZero
         else let c = t div capacity q; i = unat (t AND mask_q q)
           in if \<not> i < length (buffer q) then panics IndexOutOfRange
              else let slotCycle = cycle (buffer q ! i)
                in if slotCycle \<noteq> c then ret (Some ErrWouldBlock, q)
                   else let q = q\<lparr>buffer := (buffer q)[i := (buffer q ! i)\<lparr>data := elem\<rparr>]\<rparr>;
                            q = q\<lparr>buffer := (buffer q)[i := (buffer q ! i)\<lparr>cycle := c + 1\<rparr>]\<rparr>;
                            q = q\<lparr>tail := t + 1\<rparr>;
                            q = q\<lparr>threshold := 3 * capacity q - 1\<rparr>
                        in ret (None, q))"

partial_function (option) SPMC_catchup
  :: "atomix \<Rightarrow> u64 \<Rightarrow> u64 \<Rightarrow> 'a SPMC \<Rightarrow> 'a SPMC go" where
  "SPMC_catchup A t h q =
     (if t < h
      then (case CompareAndSwap64 A (tail q) t h of (swapped, cell) \<Rightarrow>
        let q = q\<lparr>tail := cell\<rparr>
        in if swapped then ret q else SPMC_catchup A (tail q) (head q) q)
      else ret q)"

partial_function (option) SPMC_Dequeue_loop
  :: "atomix \<Rightarrow> 'a \<Rightarrow> 'a SPMC \<Rightarrow> (('a \<times> err option) \<times> 'a SPMC) go" where
  "SPMC_Dequeue_loop A zero q =
     (case Add64 A (head q) 1 of (added, cell) \<Rightarrow>
        let q = q\<lparr>head := cell\<rparr>; myHead = added - 1; i = unat (myHead AND mask_q q)
        in if \<not> i < length (buffer q) then panics IndexOutOfRange
           else if capacity q = 0 then panics DivideByZero
           else let expectedCycle = myHead div capacity q + 1; slotCycle = cycle (buffer q ! i)
             in if slotCycle = expectedCycle
                then let elem = data (buffer q ! i);
                         q = q\<lparr>buffer := (buffer q)[i := (buffer q ! i)\<lparr>data := zero\<rparr>]\<rparr>;
                         nextEnqCycle = (myHead + size_q q) div capacity q;
                         q = q\<lparr>buffer := (buffer q)[i := (buffer q ! i)\<lparr>cycle := nextEnqCycle\<rparr>]\<rparr>
                     in ret ((elem, None), q)
                else if sint slotCycle < sint expectedCycle
                then let nextEnqCycle = (myHead + size_q q) div capacity q;
                         repaired = snd (CompareAndSwap64 A (cycle (buffer q ! i)) slotCycle nextEnqCycle);
                         q = q\<lparr>buffer := (buffer q)[i := (buffer q ! i)\<lparr>cycle := repaired\<rparr>]\<rparr>;
                         t = tail q
                     in if t \<le> myHead + 1
                        then go_bind (SPMC_catchup A t (myHead + 1) q) (\<lambda>q.
                          let q = q\<lparr>threshold := snd (AddInt64 A (threshold q) (- 1))\<rparr>
                          in ret ((zero, Some ErrWouldBlock), q))
                        else (case AddInt64 A (threshold q) (- 1) of (left, cell) \<Rightarrow>
                          let q = q\<lparr>threshold := cell\<rparr>
                          in if sint left \<le> 0 \<and> \<not> draining q
                             then ret ((zero, Some ErrWouldBlock), q)
                             else SPMC_Dequeue_loop A zero q)
                else SPMC_Dequeue_loop A zero q)"

definition SPMC_Dequeue
  :: "atomix \<Rightarrow> 'a \<Rightarrow> 'a SPMC \<Rightarrow> (('a \<times> err option) \<times> 'a SPMC) go" where
  "SPMC_Dequeue A zero q =
     (if \<not> draining q \<and> sint (threshold q) < 0 then ret ((zero, Some ErrWouldBlock), q)
      else SPMC_Dequeue_loop A zero q)"

definition SPMC_Drain :: "'a SPMC \<Rightarrow> 'a SPMC" where
  "SPMC_Drain q = q\<lparr>draining := True\<rparr>"

definition SPMC_Cap :: "'a SPMC \<Rightarrow> int" where
  "SPMC_Cap q = sint (capacity q)"

section \<open>The ring of slots\<close>

text \<open>
  The part of the state the three queues share: head, tail and slots. \<open>faa_ok k h t buf\<close> is the
  invariant for capacity \<open>2 ^ k\<close>, \<open>faa_list\<close> the queue's contents.
\<close>

definition faa_ok :: "nat \<Rightarrow> u64 \<Rightarrow> u64 \<Rightarrow> 'a mpmcSlot list \<Rightarrow> bool" where
  "faa_ok k h t buf \<longleftrightarrow> 1 \<le> k \<and> k \<le> 61 \<and> length buf = 2 * 2 ^ k
     \<and> faa_ring (2 ^ k) (unat h) (unat t) (\<lambda>i. cycle (buf ! i)) \<and> unat t + 4 * 2 ^ k < 2 ^ 64"

definition faa_list :: "u64 \<Rightarrow> u64 \<Rightarrow> 'a mpmcSlot list \<Rightarrow> 'a list" where
  "faa_list h t buf = ring_list (\<lambda>i. data (buf ! i)) (length buf) (unat h) (unat t - unat h)"

definition faa_idx :: "nat \<Rightarrow> u64 \<Rightarrow> nat" where
  "faa_idx k p = unat p mod (2 * 2 ^ k)"

lemma faa_slot_eta [simp]: "(s :: 'a mpmcSlot)\<lparr>data := x, cycle := y\<rparr> = \<lparr>cycle = y, data = x\<rparr>"
  by (cases s) simp

lemma faa_slot_cycle_upd: "(s :: 'a mpmcSlot)\<lparr>cycle := y\<rparr> = \<lparr>cycle = y, data = data s\<rparr>"
  by (cases s) simp

lemma faa_slot_upd:
  "cycle ((buf[i := s]) ! j) = (if j = i \<and> i < length buf then cycle s else cycle (buf ! j))"
  "data ((buf[i := s]) ! j) = (if j = i \<and> i < length buf then data s else data (buf ! j))"
  by (auto simp: nth_list_update list_update_beyond)

lemma faa_consts:
  assumes "1 \<le> k" and "k \<le> 61"
  shows "unat (2 ^ k :: u64) = 2 ^ k" and "unat (2 ^ k * 2 :: u64) = 2 * 2 ^ k"
    and "sint (2 ^ k :: u64) = 2 ^ k" and "(2 :: nat) ^ k \<le> 2 ^ 61"
    and "0 \<le> sint (3 * 2 ^ k - 1 :: u64)"
proof -
  show n: "unat (2 ^ k :: u64) = 2 ^ k" using assms by (simp add: unat_pow2)
  show "unat (2 ^ k * 2 :: u64) = 2 * 2 ^ k"
    using assms unat_pow2 [of "Suc k"] by (simp add: mult.commute)
  show "sint (2 ^ k :: u64) = 2 ^ k" using assms by (simp add: sint_pow2)
  show le: "(2 :: nat) ^ k \<le> 2 ^ 61" using assms by (intro power_increasing) auto
  have "unat (3 * 2 ^ k :: u64) = 3 * 2 ^ k"
    using n le by (simp add: unat_word_ariths)
  moreover from this have "unat (3 * 2 ^ k - 1 :: u64) = 3 * 2 ^ k - 1"
    by (subst unat_diff_le) auto
  ultimately have "\<not> 2 ^ 63 \<le> unat (3 * 2 ^ k - 1 :: u64)" using le by simp
  then show "0 \<le> sint (3 * 2 ^ k - 1 :: u64)" using sint_neg_iff [of "3 * 2 ^ k - 1"] by linarith
qed

lemma faa_mask:
  assumes "1 \<le> k" and "k \<le> 61"
  shows "unat (p AND (2 ^ k * 2 - 1)) = faa_idx k p"
  using assms unat_and_mask [of "Suc k" p] by (simp add: faa_idx_def mult.commute)

lemma faa_idx_lt: "faa_ok k h t buf \<Longrightarrow> faa_idx k p < length buf"
  by (simp add: faa_ok_def faa_idx_def)

text \<open>The cycle numbers the code computes.\<close>

lemma faa_cycles:
  assumes "1 \<le> k" and "k \<le> 61" and "unat p + 4 * 2 ^ k < 2 ^ 64"
  shows "(p :: u64) div 2 ^ k = of_nat (unat p div 2 ^ k)"
    and "p div 2 ^ k + 1 = of_nat (unat p div 2 ^ k + 1)"
    and "(p + 2 ^ k * 2) div 2 ^ k = of_nat ((unat p + 2 * 2 ^ k) div 2 ^ k)"
    and "sint (p div 2 ^ k) < sint (p div 2 ^ k + 1)"
    and "p div 2 ^ k \<noteq> p div 2 ^ k + 1"
proof -
  note n = faa_consts(1,2) [OF assms(1,2)]
  have u: "unat (p div 2 ^ k) = unat p div 2 ^ k" by (simp add: unat_div n)
  have two: "(2 :: nat) \<le> 2 ^ k" using assms(1) power_increasing [of 1 k "2 :: nat"] by simp
  then have "2 * (unat p div 2 ^ k) \<le> 2 ^ k * (unat p div 2 ^ k)" by (rule mult_right_mono) simp
  also have "\<dots> \<le> unat p" by simp
  finally have small: "unat p div 2 ^ k + 1 < 2 ^ 63" using two assms(3) by simp
  show d: "p div 2 ^ k = of_nat (unat p div 2 ^ k)"
    unfolding u [symmetric] by simp
  show d1: "p div 2 ^ k + 1 = of_nat (unat p div 2 ^ k + 1)" by (simp add: d)
  have "unat ((p + 2 ^ k * 2) div 2 ^ k) = (unat p + 2 * 2 ^ k) div 2 ^ k"
    using assms(3) by (simp add: unat_div n unat_add_no_wrap)
  then show "(p + 2 ^ k * 2) div 2 ^ k = of_nat ((unat p + 2 * 2 ^ k) div 2 ^ k)"
    by (metis unat_eq_of_nat_u64)
  have u1: "unat (p div 2 ^ k + 1) = unat p div 2 ^ k + 1"
    using small u by (subst unat_Suc_no_wrap) auto
  show "sint (p div 2 ^ k) < sint (p div 2 ^ k + 1)"
    using u u1 small by (simp add: sint_u64 del: of_nat_unat)
  then show "p div 2 ^ k \<noteq> p div 2 ^ k + 1" by auto
qed

lemma faa_okD:
  assumes "faa_ok k h t buf"
  shows "1 \<le> k" and "k \<le> 61" and "length buf = 2 * 2 ^ k" and "unat h \<le> unat t"
    and "unat t \<le> unat h + 2 ^ k" and "unat t + 4 * 2 ^ k < 2 ^ 64" and "unat h + 4 * 2 ^ k < 2 ^ 64"
proof -
  have "unat h \<le> unat t \<and> unat t \<le> unat h + 2 ^ k"
    using assms by (auto simp: faa_ok_def dest!: faa_ring_bounds)
  then show "1 \<le> k" and "k \<le> 61" and "length buf = 2 * 2 ^ k" and "unat h \<le> unat t"
    and "unat t \<le> unat h + 2 ^ k" and "unat t + 4 * 2 ^ k < 2 ^ 64" and "unat h + 4 * 2 ^ k < 2 ^ 64"
    using assms by (auto simp: faa_ok_def)
qed

lemma faa_succ: "unat p + 4 * 2 ^ k < 2 ^ 64 \<Longrightarrow> unat (p + 1 :: u64) = Suc (unat p)"
proof -
  assume "unat p + 4 * 2 ^ k < 2 ^ 64"
  moreover have "(1 :: nat) \<le> 2 ^ k" by simp
  ultimately have "unat p + 1 < 2 ^ 64" by linarith
  then show ?thesis by (simp add: unat_Suc_no_wrap)
qed

lemma length_faa_list [simp]: "length (faa_list h t buf) = unat t - unat h"
  by (simp add: faa_list_def)

lemma faa_push:
  assumes ok: "faa_ok k h t buf" and room: "unat t < unat h + 2 ^ k"
    and wrap: "unat t + 1 + 4 * 2 ^ k < 2 ^ 64"
  shows "cycle (buf ! faa_idx k t) = t div 2 ^ k"
    and "faa_ok k h (t + 1) (buf[faa_idx k t := \<lparr>cycle = t div 2 ^ k + 1, data = x\<rparr>])" (is "faa_ok _ _ _ ?buf")
    and "faa_list h (t + 1) (buf[faa_idx k t := \<lparr>cycle = t div 2 ^ k + 1, data = x\<rparr>])
      = faa_list h t buf @ [x]"
proof -
  note D = faa_okD [OF ok] and c = faa_cycles [OF faa_okD(1,2,6) [OF ok]]
  let ?C = "\<lambda>i. cycle (buf ! i)"
  have r: "faa_ring (2 ^ k) (unat h) (unat t) ?C" using ok by (simp add: faa_ok_def)
  show "?C (faa_idx k t) = t div 2 ^ k"
    using faa_at_tail [OF r room] by (simp add: faa_idx_def c(1))
  have t1: "unat (t + 1) = Suc (unat t)" using D(6) by (rule faa_succ)
  have "faa_ring (2 ^ k) (unat h) (Suc (unat t)) (\<lambda>i. cycle (?buf ! i))"
    using faa_ring_push [OF r room]
    by (rule iffD1 [OF faa_ring_cong, rotated 2]) (auto simp: faa_slot_upd D(3) faa_idx_def c(2))
  with D wrap t1 show "faa_ok k h (t + 1) ?buf" by (simp add: faa_ok_def)
  have i: "faa_idx k t = (unat h + (unat t - unat h)) mod (2 * 2 ^ k)"
    using D(4) by (simp add: faa_idx_def)
  have "ring_list (\<lambda>i. data (?buf ! i)) (2 * 2 ^ k) (unat h) (Suc (unat t - unat h))
      = faa_list h t buf @ [data (?buf ! faa_idx k t)]"
    unfolding faa_list_def i D(3) using room D(3,4)
    by (intro ring_list_snoc) (auto simp: faa_slot_upd)
  moreover have "unat (t + 1) - unat h = Suc (unat t - unat h)" using t1 D(4) by simp
  ultimately show "faa_list h (t + 1) ?buf = faa_list h t buf @ [x]"
    using faa_idx_lt [OF ok] by (simp add: faa_list_def faa_slot_upd D(3))
qed

lemma faa_pop:
  assumes ok: "faa_ok k h t buf" and ne: "unat h < unat t"
  shows "cycle (buf ! faa_idx k h) = h div 2 ^ k + 1"
    and "faa_ok k (h + 1) t (buf[faa_idx k h := \<lparr>cycle = (h + 2 ^ k * 2) div 2 ^ k, data = z\<rparr>])" (is "faa_ok _ _ _ ?buf")
    and "faa_list h t buf = data (buf ! faa_idx k h)
      # faa_list (h + 1) t (buf[faa_idx k h := \<lparr>cycle = (h + 2 ^ k * 2) div 2 ^ k, data = z\<rparr>])"
proof -
  note D = faa_okD [OF ok] and c = faa_cycles [OF faa_okD(1,2,7) [OF ok]]
  let ?C = "\<lambda>i. cycle (buf ! i)"
  have r: "faa_ring (2 ^ k) (unat h) (unat t) ?C" using ok by (simp add: faa_ok_def)
  show "?C (faa_idx k h) = h div 2 ^ k + 1"
    using faa_at_head [OF r] ne by (simp add: faa_idx_def c(1))
  have h1: "unat (h + 1) = Suc (unat h)" using D(7) by (rule faa_succ)
  have "faa_ring (2 ^ k) (Suc (unat h)) (unat t) (\<lambda>i. cycle (?buf ! i))"
    using faa_ring_pop [OF r ne]
    by (rule iffD1 [OF faa_ring_cong, rotated 2]) (auto simp: faa_slot_upd D(3) faa_idx_def c(3))
  with D h1 show "faa_ok k (h + 1) t ?buf" by (simp add: faa_ok_def)
  have "ring_list (\<lambda>i. data (buf ! i)) (2 * 2 ^ k) (unat h) (Suc (unat t - Suc (unat h)))
      = data (buf ! (unat h mod (2 * 2 ^ k)))
        # ring_list (\<lambda>i. data (?buf ! i)) (2 * 2 ^ k) (Suc (unat h)) (unat t - Suc (unat h))"
    using D(5) ne by (intro ring_list_tl) (auto simp: faa_slot_upd faa_idx_def)
  moreover have "unat t - unat h = Suc (unat t - Suc (unat h))" using ne by simp
  ultimately show "faa_list h t buf = data (buf ! faa_idx k h) # faa_list (h + 1) t ?buf"
    by (simp add: faa_list_def h1 faa_idx_def D(3))
qed

lemma faa_empty_cycle:
  assumes "faa_ok k h h buf"
  shows "cycle (buf ! faa_idx k h) = h div 2 ^ k"
proof -
  have "faa_ring (2 ^ k) (unat h) (unat h) (\<lambda>i. cycle (buf ! i))" using assms by (simp add: faa_ok_def)
  from faa_at_head [OF this] show ?thesis
    by (simp add: faa_idx_def faa_cycles(1) [OF faa_okD(1,2,7) [OF assms]])
qed

lemma faa_skip:
  assumes ok: "faa_ok k h h buf" and wrap: "unat h + 1 + 4 * 2 ^ k < 2 ^ 64"
  shows "faa_ok k (h + 1) (h + 1) (buf[faa_idx k h := \<lparr>cycle = (h + 2 ^ k * 2) div 2 ^ k, data = d\<rparr>])"
      (is "faa_ok _ _ _ ?buf")
proof -
  note D = faa_okD [OF ok] and c = faa_cycles [OF faa_okD(1,2,7) [OF ok]]
  let ?C = "\<lambda>i. cycle (buf ! i)"
  have r: "faa_ring (2 ^ k) (unat h) (unat h) ?C" using ok by (simp add: faa_ok_def)
  have h1: "unat (h + 1) = Suc (unat h)" using D(7) by (rule faa_succ)
  have "faa_ring (2 ^ k) (Suc (unat h)) (Suc (unat h)) (\<lambda>i. cycle (?buf ! i))"
    using faa_ring_skip [OF r]
    by (rule iffD1 [OF faa_ring_cong, rotated 2]) (auto simp: faa_slot_upd D(3) faa_idx_def c(3))
  with D h1 wrap show "faa_ok k (h + 1) (h + 1) ?buf" by (simp add: faa_ok_def)
qed

lemma faa_full_test:
  assumes "faa_ok k h t buf"
  shows "t \<ge> h + 2 ^ k \<longleftrightarrow> \<not> unat t < unat h + 2 ^ k"
proof -
  note D = faa_okD [OF assms]
  have "unat (h + 2 ^ k) = unat h + 2 ^ k"
    using D(7) faa_consts(1) [OF D(1,2)] by (subst unat_add_no_wrap) auto
  then show ?thesis by (simp add: word_le_nat_alt not_less)
qed

lemma faa_empty_iff:
  assumes "faa_ok k h t buf"
  shows "faa_list h t buf = [] \<longleftrightarrow> t = h" and "\<not> unat h < unat t \<longleftrightarrow> t = h"
  using faa_okD(4) [OF assms] by (auto simp: faa_list_def word_unat_eq_iff)

section \<open>\<open>MPMC\<close> and \<open>SPMC\<close>: invariant and contents\<close>

definition mpmc_shape :: "nat \<Rightarrow> 'a MPMC \<Rightarrow> bool" where
  "mpmc_shape k q \<longleftrightarrow> capacity q = 2 ^ k \<and> size_q q = 2 ^ k * 2 \<and> mask_q q = 2 ^ k * 2 - 1
     \<and> faa_ok k (head q) (tail q) (buffer q)"

text \<open>
  The threshold may run down to a negative value while the queue is empty, but never while it
  holds an element: the early exit of \<open>Dequeue\<close> never hides one.
\<close>

definition mpmc_inv :: "nat \<Rightarrow> 'a MPMC \<Rightarrow> bool" where
  "mpmc_inv b q \<longleftrightarrow> (\<exists>k. mpmc_shape k q \<and> unat (tail q) + b + 4 * 2 ^ k < 2 ^ 64)
     \<and> (tail q = head q \<or> draining q \<or> 0 \<le> sint (threshold q))"

definition mpmc_elems :: "'a MPMC \<Rightarrow> 'a list" where
  "mpmc_elems q = faa_list (head q) (tail q) (buffer q)"

definition mpmc_push :: "nat \<Rightarrow> 'a \<Rightarrow> 'a MPMC \<Rightarrow> 'a MPMC" where
  "mpmc_push k x q = q\<lparr>tail := tail q + 1, threshold := 3 * 2 ^ k - 1,
     buffer := (buffer q)[faa_idx k (tail q) := \<lparr>cycle = tail q div 2 ^ k + 1, data = x\<rparr>]\<rparr>"

definition mpmc_pop :: "nat \<Rightarrow> 'a \<Rightarrow> 'a MPMC \<Rightarrow> 'a MPMC" where
  "mpmc_pop k z q = q\<lparr>head := head q + 1,
     buffer := (buffer q)[faa_idx k (head q) := \<lparr>cycle = (head q + 2 ^ k * 2) div 2 ^ k, data = z\<rparr>]\<rparr>"

definition mpmc_skip :: "nat \<Rightarrow> 'a \<Rightarrow> 'a MPMC \<Rightarrow> 'a MPMC" where
  "mpmc_skip k d q = q\<lparr>head := head q + 1, tail := head q + 1, threshold := threshold q - 1,
     buffer := (buffer q)[faa_idx k (head q) := \<lparr>cycle = (head q + 2 ^ k * 2) div 2 ^ k, data = d\<rparr>]\<rparr>"

lemma mpmc_shapeD:
  assumes "mpmc_shape k q"
  shows "faa_ok k (head q) (tail q) (buffer q)" and "capacity q = 2 ^ k" and "\<not> 64 \<le> k"
    and "size_q q = 2 ^ k * 2" and "unat (p AND mask_q q) = faa_idx k p"
    and "faa_idx k p < length (buffer q)"
proof -
  show ok: "faa_ok k (head q) (tail q) (buffer q)" and "capacity q = 2 ^ k" "size_q q = 2 ^ k * 2"
    using assms by (simp_all add: mpmc_shape_def)
  note D = faa_okD(1,2) [OF ok]
  show "\<not> 64 \<le> k" using D by simp
  show "unat (p AND mask_q q) = faa_idx k p" using faa_mask [OF D] assms by (simp add: mpmc_shape_def)
  show "faa_idx k p < length (buffer q)" by (rule faa_idx_lt [OF ok])
qed

lemma MPMC_Cap_eq: "mpmc_shape k q \<Longrightarrow> nat (MPMC_Cap q) = 2 ^ k"
  using faa_consts(3) [OF faa_okD(1,2) [OF mpmc_shapeD(1)], of k q] mpmc_shapeD(2) [of k q]
  by (simp add: MPMC_Cap_def)

lemma mpmc_push_law:
  assumes "mpmc_shape k q" and "unat (tail q) < unat (head q) + 2 ^ k"
    and "unat (tail q) + Suc b + 4 * 2 ^ k < 2 ^ 64"
  shows "mpmc_inv b (mpmc_push k x q)" and "mpmc_elems (mpmc_push k x q) = mpmc_elems q @ [x]"
proof -
  note S = mpmc_shapeD [OF assms(1)] and D = faa_okD [OF mpmc_shapeD(1) [OF assms(1)]]
  have w: "unat (tail q) + 1 + 4 * 2 ^ k < 2 ^ 64" using assms(3) by simp
  have "mpmc_shape k (mpmc_push k x q)"
    using assms(1) faa_push(2) [OF S(1) assms(2) w] by (simp add: mpmc_shape_def mpmc_push_def)
  moreover have "unat (tail (mpmc_push k x q)) + b + 4 * 2 ^ k < 2 ^ 64"
    using assms(3) faa_succ [OF D(6)] by (simp add: mpmc_push_def)
  moreover have "0 \<le> sint (threshold (mpmc_push k x q))"
    using faa_consts(5) [OF D(1,2)] by (simp add: mpmc_push_def)
  ultimately show "mpmc_inv b (mpmc_push k x q)" by (auto simp: mpmc_inv_def)
  show "mpmc_elems (mpmc_push k x q) = mpmc_elems q @ [x]"
    using faa_push(3) [OF S(1) assms(2) w] by (simp add: mpmc_elems_def mpmc_push_def)
qed

lemma mpmc_pop_law:
  assumes "mpmc_shape k q" and "unat (head q) < unat (tail q)"
    and "unat (tail q) + Suc b + 4 * 2 ^ k < 2 ^ 64" and "draining q \<or> 0 \<le> sint (threshold q)"
  shows "mpmc_inv b (mpmc_pop k z q)"
    and "mpmc_elems q = data (buffer q ! faa_idx k (head q)) # mpmc_elems (mpmc_pop k z q)"
proof -
  note S = mpmc_shapeD [OF assms(1)]
  have "mpmc_shape k (mpmc_pop k z q)"
    using assms(1) faa_pop(2) [OF S(1) assms(2)] by (simp add: mpmc_shape_def mpmc_pop_def)
  with assms(3,4) show "mpmc_inv b (mpmc_pop k z q)" by (auto simp: mpmc_inv_def mpmc_pop_def)
  show "mpmc_elems q = data (buffer q ! faa_idx k (head q)) # mpmc_elems (mpmc_pop k z q)"
    using faa_pop(3) [OF S(1) assms(2)] by (simp add: mpmc_elems_def mpmc_pop_def)
qed

lemma mpmc_skip_law:
  assumes "mpmc_shape k q" and "tail q = head q" and "unat (tail q) + Suc b + 4 * 2 ^ k < 2 ^ 64"
  shows "mpmc_inv b (mpmc_skip k d q)" and "mpmc_elems (mpmc_skip k d q) = []"
proof -
  note S = mpmc_shapeD [OF assms(1)] and D = faa_okD [OF mpmc_shapeD(1) [OF assms(1)]]
  have "mpmc_shape k (mpmc_skip k d q)"
    using assms faa_skip [of k "head q" "buffer q" d] S(1) by (simp add: mpmc_shape_def mpmc_skip_def)
  with assms(2,3) show "mpmc_inv b (mpmc_skip k d q)" using faa_succ [OF D(6)]
    by (auto simp: mpmc_inv_def mpmc_skip_def intro!: exI [of _ k])
  show "mpmc_elems (mpmc_skip k d q) = []" by (simp add: mpmc_elems_def mpmc_skip_def faa_list_def)
qed

text \<open>From the equation of an operation to the law of \<open>bounded_queue\<close>.\<close>

lemma mpmc_enq_law:
  assumes inv: "mpmc_inv (Suc b) q"
    and eq: "\<And>k. mpmc_shape k q \<Longrightarrow> unat (tail q) + 1 + 4 * 2 ^ k < 2 ^ 64 \<Longrightarrow> enq x q =
      (if unat (tail q) < unat (head q) + 2 ^ k then ret (None, mpmc_push k x q)
       else ret (Some ErrWouldBlock, q))"
  shows "\<exists>q'. enq x q = ret (fst (fifo_enq (nat (MPMC_Cap q)) x (mpmc_elems q)), q')
     \<and> mpmc_elems q' = snd (fifo_enq (nat (MPMC_Cap q)) x (mpmc_elems q))
     \<and> nat (MPMC_Cap q') = nat (MPMC_Cap q) \<and> mpmc_inv b q'"
proof -
  from inv obtain k where k: "mpmc_shape k q" "unat (tail q) + Suc b + 4 * 2 ^ k < 2 ^ 64"
    by (auto simp: mpmc_inv_def)
  note D = faa_okD [OF mpmc_shapeD(1) [OF k(1)]]
  have e: "enq x q = (if unat (tail q) < unat (head q) + 2 ^ k then ret (None, mpmc_push k x q)
       else ret (Some ErrWouldBlock, q))" using eq [OF k(1)] k(2) by simp
  have len: "length (mpmc_elems q) = unat (tail q) - unat (head q)" by (simp add: mpmc_elems_def)
  show ?thesis
  proof (cases "unat (tail q) < unat (head q) + 2 ^ k")
    case True
    then have "length (mpmc_elems q) < nat (MPMC_Cap q)" using len MPMC_Cap_eq [OF k(1)] D(4) by simp
    with True e mpmc_push_law [OF k(1) True k(2), of x] show ?thesis
      by (simp add: mpmc_push_def MPMC_Cap_def)
  next
    case False
    then have "\<not> length (mpmc_elems q) < nat (MPMC_Cap q)" using len MPMC_Cap_eq [OF k(1)] D(4) by simp
    moreover have "mpmc_inv b q" using inv by (auto simp: mpmc_inv_def)
    ultimately show ?thesis using False e by simp
  qed
qed

lemma mpmc_deq_law:
  assumes inv: "mpmc_inv (Suc b) q"
    and eq: "\<And>k. mpmc_shape k q \<Longrightarrow> deq q =
      (if \<not> draining q \<and> sint (threshold q) < 0 then ret ((z, Some ErrWouldBlock), q)
       else if unat (head q) < unat (tail q)
         then ret ((data (buffer q ! faa_idx k (head q)), None), mpmc_pop k z q)
       else ret ((z, Some ErrWouldBlock), mpmc_skip k (d k) q))"
  shows "\<exists>q'. deq q = ret (fst (fifo_deq z (mpmc_elems q)), q')
     \<and> mpmc_elems q' = snd (fifo_deq z (mpmc_elems q))
     \<and> nat (MPMC_Cap q') = nat (MPMC_Cap q) \<and> mpmc_inv b q'"
proof -
  from inv obtain k where k: "mpmc_shape k q" "unat (tail q) + Suc b + 4 * 2 ^ k < 2 ^ 64"
    by (auto simp: mpmc_inv_def)
  note S = mpmc_shapeD [OF k(1)] and e = eq [OF k(1)]
  show ?thesis
  proof (cases "unat (head q) < unat (tail q)")
    case True
    then have "draining q \<or> 0 \<le> sint (threshold q)" using inv by (auto simp: mpmc_inv_def)
    with True e mpmc_pop_law [OF k(1) True k(2), of z] show ?thesis
      by (auto simp: mpmc_pop_def MPMC_Cap_def)
  next
    case False
    then have t: "tail q = head q" using faa_empty_iff(2) [OF S(1)] by simp
    then have "mpmc_elems q = []" by (simp add: mpmc_elems_def faa_list_def)
    moreover have "mpmc_inv b q" using inv by (auto simp: mpmc_inv_def)
    moreover note mpmc_skip_law [OF k(1) t k(2), of "d k"]
    ultimately show ?thesis using False e by (simp add: mpmc_skip_def MPMC_Cap_def)
  qed
qed

text \<open>One enqueue as one equation, one dequeue as one equation.\<close>

context atomix_sem
begin

lemma MPMC_Enqueue_eq:
  assumes "mpmc_shape k q" and "unat (tail q) + 1 + 4 * 2 ^ k < 2 ^ 64"
  shows "MPMC_Enqueue A x q = (if unat (tail q) < unat (head q) + 2 ^ k then ret (None, mpmc_push k x q)
                               else ret (Some ErrWouldBlock, q))"
proof -
  note S = mpmc_shapeD [OF assms(1)]
  show ?thesis
    using faa_full_test [OF S(1)] faa_push(1) [OF S(1) _ assms(2)]
    by (subst MPMC_Enqueue.simps) (simp add: Let_def S rmw mpmc_push_def)
qed

lemma MPMC_catchup_eq:
  "t < h \<Longrightarrow> tail q = t \<Longrightarrow> MPMC_catchup A t h q = ret (q\<lparr>tail := h\<rparr>)"
  by (subst MPMC_catchup.simps) (simp add: rmw)

lemma MPMC_Dequeue_eq:
  assumes "mpmc_shape k q"
  shows "MPMC_Dequeue A z q =
    (if \<not> draining q \<and> sint (threshold q) < 0 then ret ((z, Some ErrWouldBlock), q)
     else if unat (head q) < unat (tail q)
       then ret ((data (buffer q ! faa_idx k (head q)), None), mpmc_pop k z q)
     else ret ((z, Some ErrWouldBlock), mpmc_skip k (data (buffer q ! faa_idx k (head q))) q))"
proof -
  note S = mpmc_shapeD [OF assms] and D = faa_okD [OF mpmc_shapeD(1) [OF assms]]
  note c = faa_cycles [OF D(1,2,7)]
  have lt: "h < h + 1" "h \<le> h + 1" if "h = head q" for h
    using faa_succ [OF D(7)] that by (simp_all add: word_less_nat_alt word_le_nat_alt)
  show ?thesis
  proof (cases "unat (head q) < unat (tail q)")
    case True
    with faa_pop(1) [OF S(1) True] show ?thesis
      by (subst MPMC_Dequeue_def, subst MPMC_Dequeue_loop.simps)
        (simp add: Let_def S rmw mpmc_pop_def)
  next
    case False
    then have e: "tail q = head q" using faa_empty_iff(2) [OF S(1)] by simp
    then have cy: "cycle (buffer q ! faa_idx k (head q)) = head q div 2 ^ k"
      using S(1) by (intro faa_empty_cycle) simp
    with False e c(4,5) lt [OF refl] show ?thesis
      by (subst MPMC_Dequeue_def, subst MPMC_Dequeue_loop.simps)
        (simp add: Let_def S rmw MPMC_catchup_eq mpmc_skip_def faa_slot_cycle_upd)
  qed
qed

lemma SPMC_catchup_eq:
  "t < h \<Longrightarrow> tail q = t \<Longrightarrow> SPMC_catchup A t h q = ret (q\<lparr>tail := h\<rparr>)"
  by (subst SPMC_catchup.simps) (simp add: rmw)

lemma SPMC_Dequeue_eq:
  assumes "mpmc_shape k q"
  shows "SPMC_Dequeue A z q =
    (if \<not> draining q \<and> sint (threshold q) < 0 then ret ((z, Some ErrWouldBlock), q)
     else if unat (head q) < unat (tail q)
       then ret ((data (buffer q ! faa_idx k (head q)), None), mpmc_pop k z q)
     else ret ((z, Some ErrWouldBlock), mpmc_skip k (data (buffer q ! faa_idx k (head q))) q))"
proof -
  note S = mpmc_shapeD [OF assms] and D = faa_okD [OF mpmc_shapeD(1) [OF assms]]
  note c = faa_cycles [OF D(1,2,7)]
  have lt: "h < h + 1" "h \<le> h + 1" if "h = head q" for h
    using faa_succ [OF D(7)] that by (simp_all add: word_less_nat_alt word_le_nat_alt)
  show ?thesis
  proof (cases "unat (head q) < unat (tail q)")
    case True
    with faa_pop(1) [OF S(1) True] show ?thesis
      by (subst SPMC_Dequeue_def, subst SPMC_Dequeue_loop.simps)
        (simp add: Let_def S rmw mpmc_pop_def)
  next
    case False
    then have e: "tail q = head q" using faa_empty_iff(2) [OF S(1)] by simp
    then have cy: "cycle (buffer q ! faa_idx k (head q)) = head q div 2 ^ k"
      using S(1) by (intro faa_empty_cycle) simp
    with False e c(4,5) lt [OF refl] show ?thesis
      by (subst SPMC_Dequeue_def, subst SPMC_Dequeue_loop.simps)
        (simp add: Let_def S rmw SPMC_catchup_eq mpmc_skip_def faa_slot_cycle_upd)
  qed
qed

end

lemma SPMC_Enqueue_eq:
  assumes "mpmc_shape k q" and "unat (tail q) + 1 + 4 * 2 ^ k < 2 ^ 64"
  shows "SPMC_Enqueue x q = (if unat (tail q) < unat (head q) + 2 ^ k then ret (None, mpmc_push k x q)
                             else ret (Some ErrWouldBlock, q))"
proof -
  note S = mpmc_shapeD [OF assms(1)]
  show ?thesis
    using faa_full_test [OF S(1)] faa_push(1) [OF S(1) _ assms(2)]
    by (subst SPMC_Enqueue_def) (simp add: Let_def S mpmc_push_def)
qed

lemma mpmc_elems_le: "mpmc_inv b q \<Longrightarrow> length (mpmc_elems q) \<le> nat (MPMC_Cap q)"
  using faa_okD(5) [OF mpmc_shapeD(1)] MPMC_Cap_eq by (fastforce simp: mpmc_inv_def mpmc_elems_def)

sublocale atomix_sem < mpmc: bounded_queue "MPMC_Enqueue A" "MPMC_Dequeue A zero"
    "\<lambda>q. nat (MPMC_Cap q)" mpmc_elems mpmc_inv zero "\<lambda>_. True" for zero
  by unfold_locales
    (erule mpmc_enq_law, erule (1) MPMC_Enqueue_eq, erule mpmc_deq_law, erule MPMC_Dequeue_eq,
      erule mpmc_elems_le)

lemma SPMC_Cap_eq: "SPMC_Cap = MPMC_Cap"
  by (intro ext) (simp add: SPMC_Cap_def MPMC_Cap_def)

sublocale atomix_sem < spmc: bounded_queue SPMC_Enqueue "SPMC_Dequeue A zero"
    "\<lambda>q. nat (SPMC_Cap q)" mpmc_elems mpmc_inv zero "\<lambda>_. True" for zero
  unfolding SPMC_Cap_eq
  by unfold_locales
    (erule mpmc_enq_law, erule (1) SPMC_Enqueue_eq, erule mpmc_deq_law, erule SPMC_Dequeue_eq,
      erule mpmc_elems_le)

text \<open>\<open>Drain\<close> only lifts the threshold: no element is lost or added.\<close>

lemma MPMC_Drain_keeps:
  assumes "mpmc_inv b q"
  shows "mpmc_inv b (MPMC_Drain q)" and "mpmc_elems (MPMC_Drain q) = mpmc_elems q"
    and "MPMC_Cap (MPMC_Drain q) = MPMC_Cap q"
  using assms by (auto simp: mpmc_inv_def MPMC_Drain_def mpmc_shape_def mpmc_elems_def MPMC_Cap_def)

text \<open>
  Polling an empty queue. A failed \<open>Dequeue\<close> burns a position of head and tail and lowers the threshold;
  once the threshold is negative it leaves the queue as it is, unless the queue is draining, where
  the threshold is not looked at and every poll burns a position.
\<close>

definition burned :: "'a MPMC \<Rightarrow> nat \<Rightarrow> nat" where
  "burned q n = (if draining q then n else min n (nat (sint (threshold q) + 1)))"

lemma burned_Suc:
  assumes "draining q \<or> 0 \<le> sint (threshold q)"
  shows "burned q (Suc n) = Suc (burned (mpmc_skip k d q) n)"
proof (cases "draining q")
  case True
  then show ?thesis by (simp add: burned_def mpmc_skip_def)
next
  case False
  with assms have t: "0 \<le> sint (threshold q)" by simp
  then have "sint (threshold q - 1) = sint (threshold q) - 1" by (intro sint_pred) simp
  with False t show ?thesis by (simp add: burned_def mpmc_skip_def nat_add_distrib)
qed

lemma empty_polls:
  assumes deq: "\<And>k q. mpmc_shape k q \<Longrightarrow> deq q =
    (if \<not> draining q \<and> sint (threshold q) < 0 then ret ((z, Some ErrWouldBlock), q)
     else if unat (head q) < unat (tail q)
       then ret ((data (buffer q ! faa_idx k (head q)), None), mpmc_pop k z q)
     else ret ((z, Some ErrWouldBlock), mpmc_skip k (data (buffer q ! faa_idx k (head q))) q))"
    and "mpmc_inv n q" and "mpmc_elems q = []"
  shows "\<exists>q'. run_calls enq deq (replicate n Dequeue) q = ret (replicate n (DequeueRet z (Some ErrWouldBlock)), q')
      \<and> head q' = head q + of_nat (burned q n) \<and> tail q' = tail q + of_nat (burned q n)
      \<and> threshold q' = threshold q - of_nat (burned q n) \<and> mpmc_elems q' = [] \<and> (burned q n = 0 \<longrightarrow> q' = q)"
  using assms(2,3)
proof (induction n arbitrary: q)
  case 0
  then show ?case by (simp add: burned_def)
next
  case (Suc n)
  from Suc.prems(1) obtain k where k: "mpmc_shape k q" "unat (tail q) + Suc n + 4 * 2 ^ k < 2 ^ 64"
    by (auto simp: mpmc_inv_def)
  let ?q = "mpmc_skip k (data (buffer q ! faa_idx k (head q))) q"
  have t: "tail q = head q"
    using Suc.prems(2) faa_empty_iff(1) [OF mpmc_shapeD(1) [OF k(1)]] by (simp add: mpmc_elems_def)
  show ?case
  proof (cases "draining q \<or> 0 \<le> sint (threshold q)")
    case True
    then have d: "deq q = ret ((z, Some ErrWouldBlock), ?q)" using t by (subst deq [OF k(1)]) auto
    have "mpmc_inv n ?q" "mpmc_elems ?q = []" using mpmc_skip_law [OF k(1) t k(2)] by simp_all
    from Suc.IH [OF this] show ?thesis
      unfolding burned_Suc [OF True, of n k "data (buffer q ! faa_idx k (head q))"]
      by (auto simp: d) (auto simp: mpmc_skip_def t algebra_simps)
  next
    case False
    then have d: "deq q = ret ((z, Some ErrWouldBlock), q)" by (simp add: deq [OF k(1)])
    from False have b: "burned q (Suc n) = burned q n" by (simp add: burned_def)
    have "mpmc_inv n q" using k t by (auto simp: mpmc_inv_def)
    from Suc.IH [OF this Suc.prems(2)] show ?thesis unfolding b by (auto simp: d)
  qed
qed

lemma SPMC_Drain_eq: "SPMC_Drain = MPMC_Drain"
  by (intro ext) (simp add: SPMC_Drain_def MPMC_Drain_def)

section \<open>\<open>MPSC\<close>\<close>

text \<open>Read as an \<open>MPMC\<close> queue without its threshold.\<close>

definition mpsc_abs :: "'a MPSC \<Rightarrow> 'a MPMC" where
  "mpsc_abs q = \<lparr>tail = sc_tail q, head = sc_head q, threshold = 3 * sc_capacity q - 1, draining = True,
     buffer = sc_buffer q, capacity = sc_capacity q, size_q = sc_size q, mask_q = sc_mask q\<rparr>"

lemma mpsc_abs_simps [simp]:
  "tail (mpsc_abs q) = sc_tail q" "head (mpsc_abs q) = sc_head q" "buffer (mpsc_abs q) = sc_buffer q"
  "capacity (mpsc_abs q) = sc_capacity q" "size_q (mpsc_abs q) = sc_size q"
  "mask_q (mpsc_abs q) = sc_mask q" "draining (mpsc_abs q)"
  by (simp_all add: mpsc_abs_def)

lemma mpsc_abs_Cap: "MPMC_Cap (mpsc_abs q) = MPSC_Cap q"
  by (simp add: MPMC_Cap_def MPSC_Cap_def)

context atomix_sem
begin

lemma MPSC_Enqueue_sim:
  assumes "mpmc_inv (Suc b) (mpsc_abs q)"
  shows "go_map mpsc_abs (MPSC_Enqueue A x q) = MPMC_Enqueue A x (mpsc_abs q)"
proof -
  from assms obtain k where k: "mpmc_shape k (mpsc_abs q)"
      "unat (sc_tail q) + 1 + 4 * 2 ^ k < 2 ^ 64"
    by (auto simp: mpmc_inv_def)
  note S = mpmc_shapeD [OF k(1), unfolded mpsc_abs_simps]
  show ?thesis
    using faa_full_test [OF S(1)] faa_push(1) [OF S(1) _ k(2)] k(2)
    by (subst MPSC_Enqueue.simps, subst MPMC_Enqueue_eq [OF k(1)])
      (simp_all add: Let_def S rmw mpmc_push_def mpsc_abs_def)
qed

end

text \<open>Dequeue differs: on an empty queue \<open>MPSC\<close> leaves everything as it is.\<close>

lemma MPSC_Dequeue_eq:
  assumes "mpmc_shape k (mpsc_abs q)"
  shows "go_map mpsc_abs (MPSC_Dequeue z q) =
    (if unat (sc_head q) < unat (sc_tail q)
     then ret ((data (sc_buffer q ! faa_idx k (sc_head q)), None), mpmc_pop k z (mpsc_abs q))
     else ret ((z, Some ErrWouldBlock), mpsc_abs q))"
proof -
  note S = mpmc_shapeD [OF assms, unfolded mpsc_abs_simps] and D = faa_okD [OF mpmc_shapeD(1) [OF assms], unfolded mpsc_abs_simps]
  note c = faa_cycles [OF D(1,2,7)]
  show ?thesis
  proof (cases "unat (sc_head q) < unat (sc_tail q)")
    case True
    with faa_pop(1) [OF S(1) True] show ?thesis
      by (simp add: MPSC_Dequeue_def Let_def S mpmc_pop_def mpsc_abs_def)
  next
    case False
    then have e: "sc_tail q = sc_head q" using faa_empty_iff(2) [OF S(1)] by simp
    then have "cycle (sc_buffer q ! faa_idx k (sc_head q)) = sc_head q div 2 ^ k"
      using S(1) by (intro faa_empty_cycle) simp
    with False c(5) show ?thesis by (simp add: MPSC_Dequeue_def Let_def S)
  qed
qed

lemma MPSC_Dequeue_refines:
  assumes inv: "mpmc_inv (Suc b) (mpsc_abs q)"
  shows "\<exists>q'. MPSC_Dequeue z q = ret (fst (fifo_deq z (mpmc_elems (mpsc_abs q))), q')
     \<and> mpmc_elems (mpsc_abs q') = snd (fifo_deq z (mpmc_elems (mpsc_abs q)))
     \<and> nat (MPSC_Cap q') = nat (MPSC_Cap q) \<and> mpmc_inv b (mpsc_abs q')"
proof -
  from inv obtain k where k: "mpmc_shape k (mpsc_abs q)"
      "unat (tail (mpsc_abs q)) + Suc b + 4 * 2 ^ k < 2 ^ 64"
    by (auto simp: mpmc_inv_def)
  note S = mpmc_shapeD [OF k(1)] and e = MPSC_Dequeue_eq [OF k(1), of z]
  have m: "mpmc_inv b (mpsc_abs q)" using inv by (auto simp: mpmc_inv_def)
  show ?thesis
  proof (cases "unat (sc_head q) < unat (sc_tail q)")
    case True
    with e obtain q' where q': "MPSC_Dequeue z q = ret ((data (sc_buffer q ! faa_idx k (sc_head q)), None), q')"
        "mpsc_abs q' = mpmc_pop k z (mpsc_abs q)"
      by (auto simp: go_map_ret_iff)
    moreover have "MPSC_Cap q' = MPSC_Cap q"
      using q'(2) unfolding mpsc_abs_Cap [symmetric] by (simp add: mpmc_pop_def MPMC_Cap_def)
    moreover have "mpmc_elems (mpsc_abs q) = data (sc_buffer q ! faa_idx k (sc_head q)) # mpmc_elems (mpsc_abs q')"
      "mpmc_inv b (mpsc_abs q')"
      using mpmc_pop_law [OF k(1) _ k(2), of z] True q'(2) by simp_all
    ultimately show ?thesis by simp
  next
    case False
    with e obtain q' where "MPSC_Dequeue z q = ret ((z, Some ErrWouldBlock), q')" "mpsc_abs q' = mpsc_abs q"
      by (auto simp: go_map_ret_iff)
    moreover have "mpmc_elems (mpsc_abs q) = []" using False by (simp add: mpmc_elems_def faa_list_def)
    ultimately show ?thesis using m by (metis fifo_deq_simps(1) fst_conv snd_conv mpsc_abs_Cap)
  qed
qed

sublocale atomix_sem < mpsc: bounded_queue "MPSC_Enqueue A" "MPSC_Dequeue zero"
    "\<lambda>q. nat (MPSC_Cap q)" "\<lambda>q. mpmc_elems (mpsc_abs q)" "\<lambda>b q. mpmc_inv b (mpsc_abs q)" zero "\<lambda>_. True" for zero
proof unfold_locales
  fix b and q :: "'a MPSC" and x :: 'a
  assume i: "mpmc_inv (Suc b) (mpsc_abs q)"
  show "\<exists>q'. MPSC_Enqueue A x q = ret (fst (fifo_enq (nat (MPSC_Cap q)) x (mpmc_elems (mpsc_abs q))), q')
     \<and> mpmc_elems (mpsc_abs q') = snd (fifo_enq (nat (MPSC_Cap q)) x (mpmc_elems (mpsc_abs q)))
     \<and> nat (MPSC_Cap q') = nat (MPSC_Cap q) \<and> mpmc_inv b (mpsc_abs q')"
    using mpmc.enq_refines [OF i TrueI, of x] MPSC_Enqueue_sim [OF i, of x]
    unfolding mpsc_abs_Cap [symmetric] by (auto simp: go_map_ret_iff)
qed (rule MPSC_Dequeue_refines, assumption, use mpmc_elems_le mpsc_abs_Cap in metis)

section \<open>The constructors\<close>

lemma NewMPMC_ok:
  assumes "2 \<le> sint c" and "sint c \<le> 2 ^ 61"
  shows "\<exists>q. NewMPMC zero c = ret q \<and> mpmc_inv (2 ^ 62) q \<and> mpmc_elems q = []
           \<and> capacity q = roundToPow2 c"
proof -
  have "sint c \<le> 2 ^ 62" using assms(2) by simp
  with assms(1) obtain k where k: "1 \<le> k" "k \<le> 62" "roundToPow2 c = 2 ^ k" "2 ^ k < 2 * unat c"
    by (rule roundToPow2_in_range) blast
  have "unat c < 2 ^ 63" using assms(1) sint_neg_iff [of c] by linarith
  then have "unat c \<le> 2 ^ 61" using assms by (simp add: sint_u64 del: of_nat_unat)
  then have "(2 :: nat) ^ k < 2 ^ 62" using k(4) by simp
  then have k61: "k \<le> 61" by (subst (asm) power_strict_increasing_iff) auto
  note C = faa_consts [OF k(1) k61]
  let ?m = "2 * 2 ^ k :: nat"
  let ?buf = "map (\<lambda>i. \<lparr>cycle = of_nat i div 2 ^ k, data = zero\<rparr>) [0..<?m]"
  have f: "fold (\<lambda>i buf. buf[i := (buf ! i)\<lparr>cycle := of_nat i div 2 ^ k\<rparr>]) [0..<?m]
      (replicate ?m \<lparr>cycle = 0, data = zero\<rparr>) = ?buf"
    by (subst fold_init_replicate) simp
  have "(of_nat i :: u64) div 2 ^ k = of_nat (i div 2 ^ k)" if "i < ?m" for i
  proof -
    have "unat (of_nat i :: u64) = i" using that C(4) by (simp add: unat_of_nat_u64)
    with that C(4) faa_cycles(1) [OF k(1) k61, of "of_nat i"] show ?thesis by simp
  qed
  then have "faa_ring (2 ^ k) 0 0 (\<lambda>i. cycle (?buf ! i))"
    by (intro iffD1 [OF faa_ring_cong faa_ring_init]) auto
  then have "faa_ok k 0 0 ?buf" using k(1) k61 C(4) by (simp add: faa_ok_def)
  moreover have "\<not> sint (2 ^ k * 2 :: u64) < 0" unfolding sint_neg_iff C(2) using C(4) by simp
  moreover have "(2 ^ 62 + 4 * 2 ^ k :: nat) < 2 ^ 64" using C(4) by simp
  ultimately show ?thesis using assms(1) k(3) f C(2)
    by (auto simp: NewMPMC_def Let_def make_slice_def mpmc_inv_def mpmc_shape_def mpmc_elems_def faa_list_def)
qed

lemma NewSPMC_same: "NewSPMC = NewMPMC"
  by (intro ext) (simp add: NewSPMC_def NewMPMC_def)

lemma NewMPSC_ok:
  assumes "2 \<le> sint c" and "sint c \<le> 2 ^ 61"
  shows "\<exists>q. NewMPSC zero c = ret q \<and> mpmc_inv (2 ^ 62) (mpsc_abs q) \<and> mpmc_elems (mpsc_abs q) = []
           \<and> sc_capacity q = roundToPow2 c"
proof -
  from NewMPMC_ok [OF assms, of zero] obtain p where p: "NewMPMC zero c = ret p"
      "mpmc_inv (2 ^ 62) p" "mpmc_elems p = []" "capacity p = roundToPow2 c"
    by blast
  from p(1) assms(1) obtain buf where
    buf: "make_slice (roundToPow2 c * 2) \<lparr>cycle = 0, data = zero\<rparr> = ret buf"
    by (auto simp: NewMPMC_def Let_def go_simps)
  with p(1) assms(1) obtain q where
    q: "NewMPSC zero c = ret q" "mpsc_abs q = MPMC_Drain p" "sc_capacity q = roundToPow2 c"
    by (fastforce simp: NewMPMC_def NewMPSC_def Let_def mpsc_abs_def MPMC_Drain_def)
  with p MPMC_Drain_keeps [OF p(2)] show ?thesis by simp
qed

text \<open>
  Capacities above \<open>2 ^ 61\<close> do not fit: up to \<open>2 ^ 62\<close> the slice of \<open>2n\<close> slots is refused by
  \<open>make\<close>; above that \<open>n * 2\<close> wraps to 0 and the constructor returns a queue without slots.
\<close>

lemma NewMPMC_panics:
  "sint c < 2 \<Longrightarrow> NewMPMC zero c = panics (PanicMsg ''lfq: capacity must be >= 2'')"
  "2 ^ 61 < sint c \<Longrightarrow> sint c \<le> 2 ^ 62 \<Longrightarrow> NewMPMC zero c = panics MakeSliceLenOutOfRange"
  by (simp_all add: NewMPMC_def Let_def roundToPow2_62 make_slice_def sint_neg_iff)

lemma NewMPMC_overflow:
  "2 ^ 62 < sint c \<Longrightarrow> NewMPMC zero c = ret \<lparr>tail = 0, head = 0, threshold = 3 * 2 ^ 63 - 1,
     draining = False, buffer = [], capacity = 2 ^ 63, size_q = 0, mask_q = - 1\<rparr>"
  by (simp add: NewMPMC_def Let_def roundToPow2_overflow make_slice_def)

context atomix_sem
begin

lemma MPMC_overflow_unusable:
  assumes "2 ^ 62 < sint c"
  shows "\<exists>q. NewMPMC zero c = ret q \<and> MPMC_Cap q < 0 \<and> MPMC_Enqueue A x q = panics IndexOutOfRange"
  unfolding NewMPMC_overflow [OF assms]
  by (subst MPMC_Enqueue.simps) (simp add: rmw MPMC_Cap_def)

end

end
