(* ===== verification/Faa128_Queues.thy ===== *)
theory Faa128_Queues
  imports Faa_Queues
begin

text \<open>
  The FAA-based queues for words, \<open>MPMCIndirect\<close> and \<open>MPMCPtr\<close> (\<open>mpmc_128.go\<close>), \<open>MPSCIndirect\<close>
  and \<open>MPSCPtr\<close> (\<open>mpsc_128.go\<close>), \<open>SPMCIndirect\<close> and \<open>SPMCPtr\<close> (\<open>spmc_128.go\<close>). A slot is one
  128-bit atomic entry with the cycle in its low half and the value in its high half. The four
  structs with a threshold have the same fields, and so have the two without.

  The proofs go through the abstraction onto the generic queues of \<open>Faa_Queues\<close>. It is exact for
  \<open>MPSC*\<close>; for \<open>MPMC*\<close> and \<open>SPMC*\<close> it is exact except that the repair of a slot on an empty queue
  also clears the slot's value.
\<close>

section \<open>Slots and structs\<close>

record mpmc128Slot =
  entry :: "u64 \<times> u64"

record MPMCIndirect =
  tail :: u64
  head :: u64
  threshold :: u64
  draining :: bool
  buffer :: "mpmc128Slot list"
  capacity :: u64
  size_q :: u64
  mask_q :: u64

type_synonym MPMCPtr = MPMCIndirect
type_synonym SPMCIndirect = MPMCIndirect
type_synonym SPMCPtr = MPMCIndirect

record MPSCIndirect =
  sc_head :: u64
  sc_tail :: u64
  sc_draining :: bool
  sc_buffer :: "mpmc128Slot list"
  sc_capacity :: u64
  sc_size :: u64
  sc_mask :: u64

type_synonym MPSCPtr = MPSCIndirect

section \<open>\<open>MPMCIndirect\<close>\<close>

definition NewMPMCIndirect :: "u64 \<Rightarrow> MPMCIndirect go" where
  "NewMPMCIndirect cap =
     (if sint cap < 2 then panics (PanicMsg ''lfq: capacity must be >= 2'')
      else let n = roundToPow2 cap; size = n * 2 in
        go_bind (make_slice size \<lparr>entry = (0, 0)\<rparr>) (\<lambda>buf.
          ret \<lparr>tail = 0, head = 0, threshold = 3 * n - 1, draining = False,
               buffer = fold (\<lambda>i buf. buf[i := \<lparr>entry = (of_nat i div n, 0)\<rparr>]) [0..<unat size] buf,
               capacity = n, size_q = size, mask_q = size - 1\<rparr>))"

definition MPMCIndirect_Drain :: "MPMCIndirect \<Rightarrow> MPMCIndirect" where
  "MPMCIndirect_Drain q = q\<lparr>draining := True\<rparr>"

partial_function (option) MPMCIndirect_Enqueue
  :: "atomix \<Rightarrow> u64 \<Rightarrow> MPMCIndirect \<Rightarrow> (err option \<times> MPMCIndirect) go" where
  "MPMCIndirect_Enqueue A elem q =
     (let t = tail q; h = head q
      in if t \<ge> h + capacity q then ret (Some ErrWouldBlock, q)
         else (case Add64 A (tail q) 1 of (added, cell) \<Rightarrow>
           let q = q\<lparr>tail := cell\<rparr>; myTail = added - 1; i = unat (myTail AND mask_q q)
           in if \<not> i < length (buffer q) then panics IndexOutOfRange
              else if capacity q = 0 then panics DivideByZero
              else let expectedCycle = myTail div capacity q; (slotCycle, valHi) = entry (buffer q ! i)
                in (case (if slotCycle = expectedCycle
                          then CompareAndSwap128 A (entry (buffer q ! i)) (expectedCycle, valHi) (expectedCycle + 1, elem)
                          else (False, entry (buffer q ! i))) of (swapped, cell) \<Rightarrow>
                  let q = q\<lparr>buffer := (buffer q)[i := \<lparr>entry = cell\<rparr>]\<rparr>
                  in if swapped
                     then let q = q\<lparr>threshold := 3 * capacity q - 1\<rparr> in ret (None, q)
                     else if sint slotCycle < sint expectedCycle then ret (Some ErrWouldBlock, q)
                     else MPMCIndirect_Enqueue A elem q)))"

partial_function (option) MPMCIndirect_catchup
  :: "atomix \<Rightarrow> u64 \<Rightarrow> u64 \<Rightarrow> MPMCIndirect \<Rightarrow> MPMCIndirect go" where
  "MPMCIndirect_catchup A t h q =
     (if t < h
      then (case CompareAndSwap64 A (tail q) t h of (swapped, cell) \<Rightarrow>
        let q = q\<lparr>tail := cell\<rparr>
        in if swapped then ret q else MPMCIndirect_catchup A (tail q) (head q) q)
      else ret q)"

partial_function (option) MPMCIndirect_Dequeue_loop
  :: "atomix \<Rightarrow> MPMCIndirect \<Rightarrow> ((u64 \<times> err option) \<times> MPMCIndirect) go" where
  "MPMCIndirect_Dequeue_loop A q =
     (case Add64 A (head q) 1 of (added, cell) \<Rightarrow>
        let q = q\<lparr>head := cell\<rparr>; myHead = added - 1; i = unat (myHead AND mask_q q)
        in if \<not> i < length (buffer q) then panics IndexOutOfRange
           else if capacity q = 0 then panics DivideByZero
           else let expectedCycle = myHead div capacity q + 1; (slotCycle, valHi) = entry (buffer q ! i);
                    nextEnqCycle = (myHead + size_q q) div capacity q
             in (case (if slotCycle = expectedCycle
                       then CompareAndSwap128 A (entry (buffer q ! i)) (slotCycle, valHi) (nextEnqCycle, 0)
                       else (False, entry (buffer q ! i))) of (swapped, cell) \<Rightarrow>
               let q = q\<lparr>buffer := (buffer q)[i := \<lparr>entry = cell\<rparr>]\<rparr>
               in if swapped then ret ((valHi, None), q)
                  else if sint slotCycle < sint expectedCycle
                  then let repaired = snd (CompareAndSwap128 A (entry (buffer q ! i)) (slotCycle, valHi) (nextEnqCycle, 0));
                           q = q\<lparr>buffer := (buffer q)[i := \<lparr>entry = repaired\<rparr>]\<rparr>;
                           t = tail q
                       in if t \<le> myHead + 1
                          then go_bind (MPMCIndirect_catchup A t (myHead + 1) q) (\<lambda>q.
                            let q = q\<lparr>threshold := snd (AddInt64 A (threshold q) (- 1))\<rparr>
                            in ret ((0, Some ErrWouldBlock), q))
                          else (case AddInt64 A (threshold q) (- 1) of (left, cell) \<Rightarrow>
                            let q = q\<lparr>threshold := cell\<rparr>
                            in if sint left \<le> 0 \<and> \<not> draining q
                               then ret ((0, Some ErrWouldBlock), q)
                               else MPMCIndirect_Dequeue_loop A q)
                  else MPMCIndirect_Dequeue_loop A q))"

definition MPMCIndirect_Dequeue :: "atomix \<Rightarrow> MPMCIndirect \<Rightarrow> ((u64 \<times> err option) \<times> MPMCIndirect) go" where
  "MPMCIndirect_Dequeue A q =
     (if \<not> draining q \<and> sint (threshold q) < 0 then ret ((0, Some ErrWouldBlock), q)
      else MPMCIndirect_Dequeue_loop A q)"

definition MPMCIndirect_Cap :: "MPMCIndirect \<Rightarrow> int" where
  "MPMCIndirect_Cap q = sint (capacity q)"

section \<open>\<open>MPMCPtr\<close>\<close>

definition NewMPMCPtr :: "u64 \<Rightarrow> MPMCPtr go" where
  "NewMPMCPtr cap =
     (if sint cap < 2 then panics (PanicMsg ''lfq: capacity must be >= 2'')
      else let n = roundToPow2 cap; size = n * 2 in
        go_bind (make_slice size \<lparr>entry = (0, 0)\<rparr>) (\<lambda>buf.
          ret \<lparr>tail = 0, head = 0, threshold = 3 * n - 1, draining = False,
               buffer = fold (\<lambda>i buf. buf[i := \<lparr>entry = (of_nat i div n, 0)\<rparr>]) [0..<unat size] buf,
               capacity = n, size_q = size, mask_q = size - 1\<rparr>))"

definition MPMCPtr_Drain :: "MPMCPtr \<Rightarrow> MPMCPtr" where
  "MPMCPtr_Drain q = q\<lparr>draining := True\<rparr>"

partial_function (option) MPMCPtr_Enqueue
  :: "atomix \<Rightarrow> u64 \<Rightarrow> MPMCPtr \<Rightarrow> (err option \<times> MPMCPtr) go" where
  "MPMCPtr_Enqueue A elem q =
     (let t = tail q; h = head q
      in if t \<ge> h + capacity q then ret (Some ErrWouldBlock, q)
         else (case Add64 A (tail q) 1 of (added, cell) \<Rightarrow>
           let q = q\<lparr>tail := cell\<rparr>; myTail = added - 1; i = unat (myTail AND mask_q q)
           in if \<not> i < length (buffer q) then panics IndexOutOfRange
              else if capacity q = 0 then panics DivideByZero
              else let expectedCycle = myTail div capacity q; (slotCycle, valHi) = entry (buffer q ! i)
                in (case (if slotCycle = expectedCycle
                          then CompareAndSwap128 A (entry (buffer q ! i)) (expectedCycle, valHi) (expectedCycle + 1, elem)
                          else (False, entry (buffer q ! i))) of (swapped, cell) \<Rightarrow>
                  let q = q\<lparr>buffer := (buffer q)[i := \<lparr>entry = cell\<rparr>]\<rparr>
                  in if swapped
                     then let q = q\<lparr>threshold := 3 * capacity q - 1\<rparr> in ret (None, q)
                     else if sint slotCycle < sint expectedCycle then ret (Some ErrWouldBlock, q)
                     else MPMCPtr_Enqueue A elem q)))"

partial_function (option) MPMCPtr_catchupPtr
  :: "atomix \<Rightarrow> u64 \<Rightarrow> u64 \<Rightarrow> MPMCPtr \<Rightarrow> MPMCPtr go" where
  "MPMCPtr_catchupPtr A t h q =
     (if t < h
      then (case CompareAndSwap64 A (tail q) t h of (swapped, cell) \<Rightarrow>
        let q = q\<lparr>tail := cell\<rparr>
        in if swapped then ret q else MPMCPtr_catchupPtr A (tail q) (head q) q)
      else ret q)"

partial_function (option) MPMCPtr_Dequeue_loop
  :: "atomix \<Rightarrow> MPMCPtr \<Rightarrow> ((u64 \<times> err option) \<times> MPMCPtr) go" where
  "MPMCPtr_Dequeue_loop A q =
     (case Add64 A (head q) 1 of (added, cell) \<Rightarrow>
        let q = q\<lparr>head := cell\<rparr>; myHead = added - 1; i = unat (myHead AND mask_q q)
        in if \<not> i < length (buffer q) then panics IndexOutOfRange
           else if capacity q = 0 then panics DivideByZero
           else let expectedCycle = myHead div capacity q + 1; (slotCycle, valHi) = entry (buffer q ! i);
                    nextEnqCycle = (myHead + size_q q) div capacity q
             in (case (if slotCycle = expectedCycle
                       then CompareAndSwap128 A (entry (buffer q ! i)) (slotCycle, valHi) (nextEnqCycle, 0)
                       else (False, entry (buffer q ! i))) of (swapped, cell) \<Rightarrow>
               let q = q\<lparr>buffer := (buffer q)[i := \<lparr>entry = cell\<rparr>]\<rparr>
               in if swapped then ret ((valHi, None), q)
                  else if sint slotCycle < sint expectedCycle
                  then let repaired = snd (CompareAndSwap128 A (entry (buffer q ! i)) (slotCycle, valHi) (nextEnqCycle, 0));
                           q = q\<lparr>buffer := (buffer q)[i := \<lparr>entry = repaired\<rparr>]\<rparr>;
                           t = tail q
                       in if t \<le> myHead + 1
                          then go_bind (MPMCPtr_catchupPtr A t (myHead + 1) q) (\<lambda>q.
                            let q = q\<lparr>threshold := snd (AddInt64 A (threshold q) (- 1))\<rparr>
                            in ret ((0, Some ErrWouldBlock), q))
                          else (case AddInt64 A (threshold q) (- 1) of (left, cell) \<Rightarrow>
                            let q = q\<lparr>threshold := cell\<rparr>
                            in if sint left \<le> 0 \<and> \<not> draining q
                               then ret ((0, Some ErrWouldBlock), q)
                               else MPMCPtr_Dequeue_loop A q)
                  else MPMCPtr_Dequeue_loop A q))"

definition MPMCPtr_Dequeue :: "atomix \<Rightarrow> MPMCPtr \<Rightarrow> ((u64 \<times> err option) \<times> MPMCPtr) go" where
  "MPMCPtr_Dequeue A q =
     (if \<not> draining q \<and> sint (threshold q) < 0 then ret ((0, Some ErrWouldBlock), q)
      else MPMCPtr_Dequeue_loop A q)"

definition MPMCPtr_Cap :: "MPMCPtr \<Rightarrow> int" where
  "MPMCPtr_Cap q = sint (capacity q)"

section \<open>\<open>MPSCIndirect\<close>\<close>

definition NewMPSCIndirect :: "u64 \<Rightarrow> MPSCIndirect go" where
  "NewMPSCIndirect cap =
     (if sint cap < 2 then panics (PanicMsg ''lfq: capacity must be >= 2'')
      else let n = roundToPow2 cap; size = n * 2 in
        go_bind (make_slice size \<lparr>entry = (0, 0)\<rparr>) (\<lambda>buf.
          ret \<lparr>sc_head = 0, sc_tail = 0, sc_draining = False,
               sc_buffer = fold (\<lambda>i buf. buf[i := \<lparr>entry = (of_nat i div n, 0)\<rparr>]) [0..<unat size] buf,
               sc_capacity = n, sc_size = size, sc_mask = size - 1\<rparr>))"

definition MPSCIndirect_Drain :: "MPSCIndirect \<Rightarrow> MPSCIndirect" where
  "MPSCIndirect_Drain q = q\<lparr>sc_draining := True\<rparr>"

partial_function (option) MPSCIndirect_Enqueue
  :: "atomix \<Rightarrow> u64 \<Rightarrow> MPSCIndirect \<Rightarrow> (err option \<times> MPSCIndirect) go" where
  "MPSCIndirect_Enqueue A elem q =
     (let t = sc_tail q; h = sc_head q
      in if t \<ge> h + sc_capacity q then ret (Some ErrWouldBlock, q)
         else (case Add64 A (sc_tail q) 1 of (added, cell) \<Rightarrow>
           let q = q\<lparr>sc_tail := cell\<rparr>; myTail = added - 1; i = unat (myTail AND sc_mask q)
           in if \<not> i < length (sc_buffer q) then panics IndexOutOfRange
              else if sc_capacity q = 0 then panics DivideByZero
              else let expectedCycle = myTail div sc_capacity q; (slotCycle, valHi) = entry (sc_buffer q ! i)
                in (case (if slotCycle = expectedCycle
                          then CompareAndSwap128 A (entry (sc_buffer q ! i)) (expectedCycle, valHi) (expectedCycle + 1, elem)
                          else (False, entry (sc_buffer q ! i))) of (swapped, cell) \<Rightarrow>
                  let q = q\<lparr>sc_buffer := (sc_buffer q)[i := \<lparr>entry = cell\<rparr>]\<rparr>
                  in if swapped then ret (None, q)
                     else if sint slotCycle < sint expectedCycle then ret (Some ErrWouldBlock, q)
                     else MPSCIndirect_Enqueue A elem q)))"

definition MPSCIndirect_Dequeue :: "MPSCIndirect \<Rightarrow> ((u64 \<times> err option) \<times> MPSCIndirect) go" where
  "MPSCIndirect_Dequeue q =
     (let h = sc_head q
      in if sc_capacity q = 0 then panics DivideByZero
         else let c = h div sc_capacity q; i = unat (h AND sc_mask q)
           in if \<not> i < length (sc_buffer q) then panics IndexOutOfRange
              else let (slotCycle, valHi) = entry (sc_buffer q ! i)
                in if slotCycle \<noteq> c + 1 then ret ((0, Some ErrWouldBlock), q)
                   else let nextEnqCycle = (h + sc_size q) div sc_capacity q;
                            q = q\<lparr>sc_buffer := (sc_buffer q)[i := \<lparr>entry = (nextEnqCycle, 0)\<rparr>]\<rparr>;
                            q = q\<lparr>sc_head := h + 1\<rparr>
                        in ret ((valHi, None), q))"

definition MPSCIndirect_Cap :: "MPSCIndirect \<Rightarrow> int" where
  "MPSCIndirect_Cap q = sint (sc_capacity q)"

section \<open>\<open>MPSCPtr\<close>\<close>

definition NewMPSCPtr :: "u64 \<Rightarrow> MPSCPtr go" where
  "NewMPSCPtr cap =
     (if sint cap < 2 then panics (PanicMsg ''lfq: capacity must be >= 2'')
      else let n = roundToPow2 cap; size = n * 2 in
        go_bind (make_slice size \<lparr>entry = (0, 0)\<rparr>) (\<lambda>buf.
          ret \<lparr>sc_head = 0, sc_tail = 0, sc_draining = False,
               sc_buffer = fold (\<lambda>i buf. buf[i := \<lparr>entry = (of_nat i div n, 0)\<rparr>]) [0..<unat size] buf,
               sc_capacity = n, sc_size = size, sc_mask = size - 1\<rparr>))"

definition MPSCPtr_Drain :: "MPSCPtr \<Rightarrow> MPSCPtr" where
  "MPSCPtr_Drain q = q\<lparr>sc_draining := True\<rparr>"

partial_function (option) MPSCPtr_Enqueue
  :: "atomix \<Rightarrow> u64 \<Rightarrow> MPSCPtr \<Rightarrow> (err option \<times> MPSCPtr) go" where
  "MPSCPtr_Enqueue A elem q =
     (let t = sc_tail q; h = sc_head q
      in if t \<ge> h + sc_capacity q then ret (Some ErrWouldBlock, q)
         else (case Add64 A (sc_tail q) 1 of (added, cell) \<Rightarrow>
           let q = q\<lparr>sc_tail := cell\<rparr>; myTail = added - 1; i = unat (myTail AND sc_mask q)
           in if \<not> i < length (sc_buffer q) then panics IndexOutOfRange
              else if sc_capacity q = 0 then panics DivideByZero
              else let expectedCycle = myTail div sc_capacity q; (slotCycle, valHi) = entry (sc_buffer q ! i)
                in (case (if slotCycle = expectedCycle
                          then CompareAndSwap128 A (entry (sc_buffer q ! i)) (expectedCycle, valHi) (expectedCycle + 1, elem)
                          else (False, entry (sc_buffer q ! i))) of (swapped, cell) \<Rightarrow>
                  let q = q\<lparr>sc_buffer := (sc_buffer q)[i := \<lparr>entry = cell\<rparr>]\<rparr>
                  in if swapped then ret (None, q)
                     else if sint slotCycle < sint expectedCycle then ret (Some ErrWouldBlock, q)
                     else MPSCPtr_Enqueue A elem q)))"

definition MPSCPtr_Dequeue :: "MPSCPtr \<Rightarrow> ((u64 \<times> err option) \<times> MPSCPtr) go" where
  "MPSCPtr_Dequeue q =
     (let h = sc_head q
      in if sc_capacity q = 0 then panics DivideByZero
         else let c = h div sc_capacity q; i = unat (h AND sc_mask q)
           in if \<not> i < length (sc_buffer q) then panics IndexOutOfRange
              else let (slotCycle, valHi) = entry (sc_buffer q ! i)
                in if slotCycle \<noteq> c + 1 then ret ((0, Some ErrWouldBlock), q)
                   else let nextEnqCycle = (h + sc_size q) div sc_capacity q;
                            q = q\<lparr>sc_buffer := (sc_buffer q)[i := \<lparr>entry = (nextEnqCycle, 0)\<rparr>]\<rparr>;
                            q = q\<lparr>sc_head := h + 1\<rparr>
                        in ret ((valHi, None), q))"

definition MPSCPtr_Cap :: "MPSCPtr \<Rightarrow> int" where
  "MPSCPtr_Cap q = sint (sc_capacity q)"

section \<open>\<open>SPMCIndirect\<close>\<close>

definition NewSPMCIndirect :: "u64 \<Rightarrow> SPMCIndirect go" where
  "NewSPMCIndirect cap =
     (if sint cap < 2 then panics (PanicMsg ''lfq: capacity must be >= 2'')
      else let n = roundToPow2 cap; size = n * 2 in
        go_bind (make_slice size \<lparr>entry = (0, 0)\<rparr>) (\<lambda>buf.
          ret \<lparr>tail = 0, head = 0, threshold = 3 * n - 1, draining = False,
               buffer = fold (\<lambda>i buf. buf[i := \<lparr>entry = (of_nat i div n, 0)\<rparr>]) [0..<unat size] buf,
               capacity = n, size_q = size, mask_q = size - 1\<rparr>))"

definition SPMCIndirect_Drain :: "SPMCIndirect \<Rightarrow> SPMCIndirect" where
  "SPMCIndirect_Drain q = q\<lparr>draining := True\<rparr>"

definition SPMCIndirect_Enqueue :: "u64 \<Rightarrow> SPMCIndirect \<Rightarrow> (err option \<times> SPMCIndirect) go" where
  "SPMCIndirect_Enqueue elem q =
     (let t = tail q; h = head q
      in if t \<ge> h + capacity q then ret (Some ErrWouldBlock, q)
         else if capacity q = 0 then panics DivideByZero
         else let c = t div capacity q; i = unat (t AND mask_q q)
           in if \<not> i < length (buffer q) then panics IndexOutOfRange
              else let slotCycle = fst (entry (buffer q ! i))
                in if slotCycle \<noteq> c then ret (Some ErrWouldBlock, q)
                   else let q = q\<lparr>buffer := (buffer q)[i := \<lparr>entry = (c + 1, elem)\<rparr>]\<rparr>;
                            q = q\<lparr>tail := t + 1\<rparr>;
                            q = q\<lparr>threshold := 3 * capacity q - 1\<rparr>
                        in ret (None, q))"

partial_function (option) SPMCIndirect_catchup
  :: "atomix \<Rightarrow> u64 \<Rightarrow> u64 \<Rightarrow> SPMCIndirect \<Rightarrow> SPMCIndirect go" where
  "SPMCIndirect_catchup A t h q =
     (if t < h
      then (case CompareAndSwap64 A (tail q) t h of (swapped, cell) \<Rightarrow>
        let q = q\<lparr>tail := cell\<rparr>
        in if swapped then ret q else SPMCIndirect_catchup A (tail q) (head q) q)
      else ret q)"

partial_function (option) SPMCIndirect_Dequeue_loop
  :: "atomix \<Rightarrow> SPMCIndirect \<Rightarrow> ((u64 \<times> err option) \<times> SPMCIndirect) go" where
  "SPMCIndirect_Dequeue_loop A q =
     (case Add64 A (head q) 1 of (added, cell) \<Rightarrow>
        let q = q\<lparr>head := cell\<rparr>; myHead = added - 1; i = unat (myHead AND mask_q q)
        in if \<not> i < length (buffer q) then panics IndexOutOfRange
           else if capacity q = 0 then panics DivideByZero
           else let expectedCycle = myHead div capacity q + 1; (slotCycle, valHi) = entry (buffer q ! i);
                    nextEnqCycle = (myHead + size_q q) div capacity q
             in (case (if slotCycle = expectedCycle
                       then CompareAndSwap128 A (entry (buffer q ! i)) (slotCycle, valHi) (nextEnqCycle, 0)
                       else (False, entry (buffer q ! i))) of (swapped, cell) \<Rightarrow>
               let q = q\<lparr>buffer := (buffer q)[i := \<lparr>entry = cell\<rparr>]\<rparr>
               in if swapped then ret ((valHi, None), q)
                  else if sint slotCycle < sint expectedCycle
                  then let repaired = snd (CompareAndSwap128 A (entry (buffer q ! i)) (slotCycle, valHi) (nextEnqCycle, 0));
                           q = q\<lparr>buffer := (buffer q)[i := \<lparr>entry = repaired\<rparr>]\<rparr>;
                           t = tail q
                       in if t \<le> myHead + 1
                          then go_bind (SPMCIndirect_catchup A t (myHead + 1) q) (\<lambda>q.
                            let q = q\<lparr>threshold := snd (AddInt64 A (threshold q) (- 1))\<rparr>
                            in ret ((0, Some ErrWouldBlock), q))
                          else (case AddInt64 A (threshold q) (- 1) of (left, cell) \<Rightarrow>
                            let q = q\<lparr>threshold := cell\<rparr>
                            in if sint left \<le> 0 \<and> \<not> draining q
                               then ret ((0, Some ErrWouldBlock), q)
                               else SPMCIndirect_Dequeue_loop A q)
                  else SPMCIndirect_Dequeue_loop A q))"

definition SPMCIndirect_Dequeue :: "atomix \<Rightarrow> SPMCIndirect \<Rightarrow> ((u64 \<times> err option) \<times> SPMCIndirect) go" where
  "SPMCIndirect_Dequeue A q =
     (if \<not> draining q \<and> sint (threshold q) < 0 then ret ((0, Some ErrWouldBlock), q)
      else SPMCIndirect_Dequeue_loop A q)"

definition SPMCIndirect_Cap :: "SPMCIndirect \<Rightarrow> int" where
  "SPMCIndirect_Cap q = sint (capacity q)"

section \<open>\<open>SPMCPtr\<close>\<close>

definition NewSPMCPtr :: "u64 \<Rightarrow> SPMCPtr go" where
  "NewSPMCPtr cap =
     (if sint cap < 2 then panics (PanicMsg ''lfq: capacity must be >= 2'')
      else let n = roundToPow2 cap; size = n * 2 in
        go_bind (make_slice size \<lparr>entry = (0, 0)\<rparr>) (\<lambda>buf.
          ret \<lparr>tail = 0, head = 0, threshold = 3 * n - 1, draining = False,
               buffer = fold (\<lambda>i buf. buf[i := \<lparr>entry = (of_nat i div n, 0)\<rparr>]) [0..<unat size] buf,
               capacity = n, size_q = size, mask_q = size - 1\<rparr>))"

definition SPMCPtr_Drain :: "SPMCPtr \<Rightarrow> SPMCPtr" where
  "SPMCPtr_Drain q = q\<lparr>draining := True\<rparr>"

definition SPMCPtr_Enqueue :: "u64 \<Rightarrow> SPMCPtr \<Rightarrow> (err option \<times> SPMCPtr) go" where
  "SPMCPtr_Enqueue elem q =
     (let t = tail q; h = head q
      in if t \<ge> h + capacity q then ret (Some ErrWouldBlock, q)
         else if capacity q = 0 then panics DivideByZero
         else let c = t div capacity q; i = unat (t AND mask_q q)
           in if \<not> i < length (buffer q) then panics IndexOutOfRange
              else let slotCycle = fst (entry (buffer q ! i))
                in if slotCycle \<noteq> c then ret (Some ErrWouldBlock, q)
                   else let q = q\<lparr>buffer := (buffer q)[i := \<lparr>entry = (c + 1, elem)\<rparr>]\<rparr>;
                            q = q\<lparr>tail := t + 1\<rparr>;
                            q = q\<lparr>threshold := 3 * capacity q - 1\<rparr>
                        in ret (None, q))"

partial_function (option) SPMCPtr_catchupPtr
  :: "atomix \<Rightarrow> u64 \<Rightarrow> u64 \<Rightarrow> SPMCPtr \<Rightarrow> SPMCPtr go" where
  "SPMCPtr_catchupPtr A t h q =
     (if t < h
      then (case CompareAndSwap64 A (tail q) t h of (swapped, cell) \<Rightarrow>
        let q = q\<lparr>tail := cell\<rparr>
        in if swapped then ret q else SPMCPtr_catchupPtr A (tail q) (head q) q)
      else ret q)"

partial_function (option) SPMCPtr_Dequeue_loop
  :: "atomix \<Rightarrow> SPMCPtr \<Rightarrow> ((u64 \<times> err option) \<times> SPMCPtr) go" where
  "SPMCPtr_Dequeue_loop A q =
     (case Add64 A (head q) 1 of (added, cell) \<Rightarrow>
        let q = q\<lparr>head := cell\<rparr>; myHead = added - 1; i = unat (myHead AND mask_q q)
        in if \<not> i < length (buffer q) then panics IndexOutOfRange
           else if capacity q = 0 then panics DivideByZero
           else let expectedCycle = myHead div capacity q + 1; (slotCycle, valHi) = entry (buffer q ! i);
                    nextEnqCycle = (myHead + size_q q) div capacity q
             in (case (if slotCycle = expectedCycle
                       then CompareAndSwap128 A (entry (buffer q ! i)) (slotCycle, valHi) (nextEnqCycle, 0)
                       else (False, entry (buffer q ! i))) of (swapped, cell) \<Rightarrow>
               let q = q\<lparr>buffer := (buffer q)[i := \<lparr>entry = cell\<rparr>]\<rparr>
               in if swapped then ret ((valHi, None), q)
                  else if sint slotCycle < sint expectedCycle
                  then let repaired = snd (CompareAndSwap128 A (entry (buffer q ! i)) (slotCycle, valHi) (nextEnqCycle, 0));
                           q = q\<lparr>buffer := (buffer q)[i := \<lparr>entry = repaired\<rparr>]\<rparr>;
                           t = tail q
                       in if t \<le> myHead + 1
                          then go_bind (SPMCPtr_catchupPtr A t (myHead + 1) q) (\<lambda>q.
                            let q = q\<lparr>threshold := snd (AddInt64 A (threshold q) (- 1))\<rparr>
                            in ret ((0, Some ErrWouldBlock), q))
                          else (case AddInt64 A (threshold q) (- 1) of (left, cell) \<Rightarrow>
                            let q = q\<lparr>threshold := cell\<rparr>
                            in if sint left \<le> 0 \<and> \<not> draining q
                               then ret ((0, Some ErrWouldBlock), q)
                               else SPMCPtr_Dequeue_loop A q)
                  else SPMCPtr_Dequeue_loop A q))"

definition SPMCPtr_Dequeue :: "atomix \<Rightarrow> SPMCPtr \<Rightarrow> ((u64 \<times> err option) \<times> SPMCPtr) go" where
  "SPMCPtr_Dequeue A q =
     (if \<not> draining q \<and> sint (threshold q) < 0 then ret ((0, Some ErrWouldBlock), q)
      else SPMCPtr_Dequeue_loop A q)"

definition SPMCPtr_Cap :: "SPMCPtr \<Rightarrow> int" where
  "SPMCPtr_Cap q = sint (capacity q)"

section \<open>Abstraction onto the generic queues\<close>

definition faa128_slot :: "mpmc128Slot \<Rightarrow> u64 mpmcSlot" where
  "faa128_slot s = \<lparr>cycle = fst (entry s), data = snd (entry s)\<rparr>"

definition faa128_abs :: "MPMCIndirect \<Rightarrow> u64 MPMC" where
  "faa128_abs q = \<lparr>MPMC.tail = tail q, MPMC.head = head q, MPMC.threshold = threshold q,
     MPMC.draining = draining q, MPMC.buffer = map faa128_slot (buffer q),
     MPMC.capacity = capacity q, MPMC.size_q = size_q q, MPMC.mask_q = mask_q q\<rparr>"

definition mpsc128_abs :: "MPSCIndirect \<Rightarrow> u64 MPSC" where
  "mpsc128_abs q = \<lparr>MPSC.sc_head = sc_head q, MPSC.sc_tail = sc_tail q, MPSC.sc_draining = sc_draining q,
     MPSC.sc_buffer = map faa128_slot (sc_buffer q), MPSC.sc_capacity = sc_capacity q,
     MPSC.sc_size = sc_size q, MPSC.sc_mask = sc_mask q\<rparr>"

lemma faa128_slot_simps [simp]:
  "cycle (faa128_slot s) = fst (entry s)" "data (faa128_slot s) = snd (entry s)"
  by (simp_all add: faa128_slot_def)

lemma faa128_abs_simps [simp]:
  "MPMC.tail (faa128_abs q) = tail q" "MPMC.head (faa128_abs q) = head q"
  "MPMC.threshold (faa128_abs q) = threshold q" "MPMC.draining (faa128_abs q) = draining q"
  "MPMC.buffer (faa128_abs q) = map faa128_slot (buffer q)" "MPMC.capacity (faa128_abs q) = capacity q"
  "MPMC.size_q (faa128_abs q) = size_q q" "MPMC.mask_q (faa128_abs q) = mask_q q"
  by (simp_all add: faa128_abs_def)

lemma mpsc128_abs_simps [simp]:
  "MPSC.sc_tail (mpsc128_abs q) = sc_tail q" "MPSC.sc_head (mpsc128_abs q) = sc_head q"
  "MPSC.sc_buffer (mpsc128_abs q) = map faa128_slot (sc_buffer q)"
  "MPSC.sc_capacity (mpsc128_abs q) = sc_capacity q"
  "MPSC.sc_size (mpsc128_abs q) = sc_size q" "MPSC.sc_mask (mpsc128_abs q) = sc_mask q"
  by (simp_all add: mpsc128_abs_def)

lemma faa128_Cap: "MPMC_Cap (faa128_abs q) = sint (capacity q)"
  by (simp add: MPMC_Cap_def)

text \<open>What the slots under the tail and the head look like.\<close>

lemma faa128_shapeD:
  assumes "mpmc_shape k (faa128_abs q)"
  shows "faa_ok k (head q) (tail q) (map faa128_slot (buffer q))" and "capacity q = 2 ^ k"
    and "\<not> 64 \<le> k" and "size_q q = 2 ^ k * 2" and "unat (p AND mask_q q) = faa_idx k p"
    and "faa_idx k p < length (buffer q)"
  using mpmc_shapeD [OF assms] by simp_all

lemma faa128_at_tail:
  assumes "mpmc_shape k (faa128_abs q)" and "unat (tail q) + 1 + 4 * 2 ^ k < 2 ^ 64"
    and "unat (tail q) < unat (head q) + 2 ^ k"
  obtains v where "entry (buffer q ! faa_idx k (tail q)) = (tail q div 2 ^ k, v)"
  using faa_push(1) [OF faa128_shapeD(1) [OF assms(1)] assms(3,2)] faa128_shapeD(6) [OF assms(1)]
  by (metis faa128_slot_simps(1) nth_map prod.collapse)

lemma faa128_at_head:
  assumes "mpmc_shape k (faa128_abs q)"
  obtains v where "entry (buffer q ! faa_idx k (head q))
    = (if unat (head q) < unat (tail q) then head q div 2 ^ k + 1 else head q div 2 ^ k, v)"
proof -
  note S = faa128_shapeD [OF assms]
  let ?e = "entry (buffer q ! faa_idx k (head q))"
  have "fst ?e = (if unat (head q) < unat (tail q) then head q div 2 ^ k + 1 else head q div 2 ^ k)"
  proof (cases "unat (head q) < unat (tail q)")
    case True
    from faa_pop(1) [OF S(1) True] S(6) True show ?thesis by simp
  next
    case False
    then have "faa_ok k (head q) (head q) (map faa128_slot (buffer q))"
      using S(1) faa_empty_iff(2) [OF S(1)] by simp
    from faa_empty_cycle [OF this] S(6) False show ?thesis by simp
  qed
  then show thesis by (intro that [of "snd ?e"]) (simp only: prod_eq_iff fst_conv snd_conv simp_thms)
qed

context atomix_sem
begin

lemma MPMCIndirect_Enqueue_eq:
  assumes "mpmc_shape k (faa128_abs q)" and "unat (tail q) + 1 + 4 * 2 ^ k < 2 ^ 64"
  shows "go_map faa128_abs (MPMCIndirect_Enqueue A x q) =
    (if unat (tail q) < unat (head q) + 2 ^ k then ret (None, mpmc_push k x (faa128_abs q))
     else ret (Some ErrWouldBlock, faa128_abs q))"
proof (cases "unat (tail q) < unat (head q) + 2 ^ k")
  case True
  note S = faa128_shapeD [OF assms(1)]
  from faa128_at_tail [OF assms True] obtain v
    where "entry (buffer q ! faa_idx k (tail q)) = (tail q div 2 ^ k, v)" .
  with True faa_full_test [OF S(1)] show ?thesis
    by (subst MPMCIndirect_Enqueue.simps)
      (simp add: Let_def S rmw faa128_abs_def mpmc_push_def map_update faa128_slot_def)
next
  case False
  note S = faa128_shapeD [OF assms(1)]
  from False faa_full_test [OF S(1)] show ?thesis by (subst MPMCIndirect_Enqueue.simps) (simp add: Let_def S)
qed

lemma MPMCIndirect_catchup_eq:
  "t < h \<Longrightarrow> tail q = t \<Longrightarrow> MPMCIndirect_catchup A t h q = ret (q\<lparr>tail := h\<rparr>)"
  by (subst MPMCIndirect_catchup.simps) (simp add: rmw)

lemma MPMCIndirect_Dequeue_eq:
  assumes "mpmc_shape k (faa128_abs q)"
  shows "go_map faa128_abs (MPMCIndirect_Dequeue A q) =
    (if \<not> draining q \<and> sint (threshold q) < 0 then ret ((0, Some ErrWouldBlock), faa128_abs q)
     else if unat (head q) < unat (tail q)
       then ret ((data (faa128_slot (buffer q ! faa_idx k (head q))), None), mpmc_pop k 0 (faa128_abs q))
     else ret ((0, Some ErrWouldBlock), mpmc_skip k 0 (faa128_abs q)))"
proof -
  note S = faa128_shapeD [OF assms] and D = faa_okD [OF faa128_shapeD(1) [OF assms]]
  note c = faa_cycles [OF D(1,2,7)]
  from faa128_at_head [OF assms] obtain v where v: "entry (buffer q ! faa_idx k (head q))
    = (if unat (head q) < unat (tail q) then head q div 2 ^ k + 1 else head q div 2 ^ k, v)" .
  show ?thesis
  proof (cases "unat (head q) < unat (tail q)")
    case True
    with v show ?thesis
      by (subst MPMCIndirect_Dequeue_def, subst MPMCIndirect_Dequeue_loop.simps)
        (simp add: Let_def S rmw mpmc_pop_def faa128_abs_def map_update faa128_slot_def)
  next
    case False
    then have e: "tail q = head q" using faa_empty_iff(2) [OF S(1)] by simp
    have "head q < head q + 1" "head q \<le> head q + 1"
      using faa_succ [OF D(7)] by (simp_all add: word_less_nat_alt word_le_nat_alt)
    with False e c(4,5) v show ?thesis
      by (subst MPMCIndirect_Dequeue_def, subst MPMCIndirect_Dequeue_loop.simps)
        (simp add: Let_def S rmw MPMCIndirect_catchup_eq mpmc_skip_def faa128_abs_def map_update faa128_slot_def)
  qed
qed

lemma MPMCPtr_Enqueue_eq:
  assumes "mpmc_shape k (faa128_abs q)" and "unat (tail q) + 1 + 4 * 2 ^ k < 2 ^ 64"
  shows "go_map faa128_abs (MPMCPtr_Enqueue A x q) =
    (if unat (tail q) < unat (head q) + 2 ^ k then ret (None, mpmc_push k x (faa128_abs q))
     else ret (Some ErrWouldBlock, faa128_abs q))"
proof (cases "unat (tail q) < unat (head q) + 2 ^ k")
  case True
  note S = faa128_shapeD [OF assms(1)]
  from faa128_at_tail [OF assms True] obtain v
    where "entry (buffer q ! faa_idx k (tail q)) = (tail q div 2 ^ k, v)" .
  with True faa_full_test [OF S(1)] show ?thesis
    by (subst MPMCPtr_Enqueue.simps)
      (simp add: Let_def S rmw faa128_abs_def mpmc_push_def map_update faa128_slot_def)
next
  case False
  note S = faa128_shapeD [OF assms(1)]
  from False faa_full_test [OF S(1)] show ?thesis by (subst MPMCPtr_Enqueue.simps) (simp add: Let_def S)
qed

lemma MPMCPtr_catchupPtr_eq:
  "t < h \<Longrightarrow> tail q = t \<Longrightarrow> MPMCPtr_catchupPtr A t h q = ret (q\<lparr>tail := h\<rparr>)"
  by (subst MPMCPtr_catchupPtr.simps) (simp add: rmw)

lemma MPMCPtr_Dequeue_eq:
  assumes "mpmc_shape k (faa128_abs q)"
  shows "go_map faa128_abs (MPMCPtr_Dequeue A q) =
    (if \<not> draining q \<and> sint (threshold q) < 0 then ret ((0, Some ErrWouldBlock), faa128_abs q)
     else if unat (head q) < unat (tail q)
       then ret ((data (faa128_slot (buffer q ! faa_idx k (head q))), None), mpmc_pop k 0 (faa128_abs q))
     else ret ((0, Some ErrWouldBlock), mpmc_skip k 0 (faa128_abs q)))"
proof -
  note S = faa128_shapeD [OF assms] and D = faa_okD [OF faa128_shapeD(1) [OF assms]]
  note c = faa_cycles [OF D(1,2,7)]
  from faa128_at_head [OF assms] obtain v where v: "entry (buffer q ! faa_idx k (head q))
    = (if unat (head q) < unat (tail q) then head q div 2 ^ k + 1 else head q div 2 ^ k, v)" .
  show ?thesis
  proof (cases "unat (head q) < unat (tail q)")
    case True
    with v show ?thesis
      by (subst MPMCPtr_Dequeue_def, subst MPMCPtr_Dequeue_loop.simps)
        (simp add: Let_def S rmw mpmc_pop_def faa128_abs_def map_update faa128_slot_def)
  next
    case False
    then have e: "tail q = head q" using faa_empty_iff(2) [OF S(1)] by simp
    have "head q < head q + 1" "head q \<le> head q + 1"
      using faa_succ [OF D(7)] by (simp_all add: word_less_nat_alt word_le_nat_alt)
    with False e c(4,5) v show ?thesis
      by (subst MPMCPtr_Dequeue_def, subst MPMCPtr_Dequeue_loop.simps)
        (simp add: Let_def S rmw MPMCPtr_catchupPtr_eq mpmc_skip_def faa128_abs_def map_update faa128_slot_def)
  qed
qed

lemma SPMCIndirect_catchup_eq:
  "t < h \<Longrightarrow> tail q = t \<Longrightarrow> SPMCIndirect_catchup A t h q = ret (q\<lparr>tail := h\<rparr>)"
  by (subst SPMCIndirect_catchup.simps) (simp add: rmw)

lemma SPMCIndirect_Dequeue_eq:
  assumes "mpmc_shape k (faa128_abs q)"
  shows "go_map faa128_abs (SPMCIndirect_Dequeue A q) =
    (if \<not> draining q \<and> sint (threshold q) < 0 then ret ((0, Some ErrWouldBlock), faa128_abs q)
     else if unat (head q) < unat (tail q)
       then ret ((data (faa128_slot (buffer q ! faa_idx k (head q))), None), mpmc_pop k 0 (faa128_abs q))
     else ret ((0, Some ErrWouldBlock), mpmc_skip k 0 (faa128_abs q)))"
proof -
  note S = faa128_shapeD [OF assms] and D = faa_okD [OF faa128_shapeD(1) [OF assms]]
  note c = faa_cycles [OF D(1,2,7)]
  from faa128_at_head [OF assms] obtain v where v: "entry (buffer q ! faa_idx k (head q))
    = (if unat (head q) < unat (tail q) then head q div 2 ^ k + 1 else head q div 2 ^ k, v)" .
  show ?thesis
  proof (cases "unat (head q) < unat (tail q)")
    case True
    with v show ?thesis
      by (subst SPMCIndirect_Dequeue_def, subst SPMCIndirect_Dequeue_loop.simps)
        (simp add: Let_def S rmw mpmc_pop_def faa128_abs_def map_update faa128_slot_def)
  next
    case False
    then have e: "tail q = head q" using faa_empty_iff(2) [OF S(1)] by simp
    have "head q < head q + 1" "head q \<le> head q + 1"
      using faa_succ [OF D(7)] by (simp_all add: word_less_nat_alt word_le_nat_alt)
    with False e c(4,5) v show ?thesis
      by (subst SPMCIndirect_Dequeue_def, subst SPMCIndirect_Dequeue_loop.simps)
        (simp add: Let_def S rmw SPMCIndirect_catchup_eq mpmc_skip_def faa128_abs_def map_update faa128_slot_def)
  qed
qed

lemma SPMCPtr_catchupPtr_eq:
  "t < h \<Longrightarrow> tail q = t \<Longrightarrow> SPMCPtr_catchupPtr A t h q = ret (q\<lparr>tail := h\<rparr>)"
  by (subst SPMCPtr_catchupPtr.simps) (simp add: rmw)

lemma SPMCPtr_Dequeue_eq:
  assumes "mpmc_shape k (faa128_abs q)"
  shows "go_map faa128_abs (SPMCPtr_Dequeue A q) =
    (if \<not> draining q \<and> sint (threshold q) < 0 then ret ((0, Some ErrWouldBlock), faa128_abs q)
     else if unat (head q) < unat (tail q)
       then ret ((data (faa128_slot (buffer q ! faa_idx k (head q))), None), mpmc_pop k 0 (faa128_abs q))
     else ret ((0, Some ErrWouldBlock), mpmc_skip k 0 (faa128_abs q)))"
proof -
  note S = faa128_shapeD [OF assms] and D = faa_okD [OF faa128_shapeD(1) [OF assms]]
  note c = faa_cycles [OF D(1,2,7)]
  from faa128_at_head [OF assms] obtain v where v: "entry (buffer q ! faa_idx k (head q))
    = (if unat (head q) < unat (tail q) then head q div 2 ^ k + 1 else head q div 2 ^ k, v)" .
  show ?thesis
  proof (cases "unat (head q) < unat (tail q)")
    case True
    with v show ?thesis
      by (subst SPMCPtr_Dequeue_def, subst SPMCPtr_Dequeue_loop.simps)
        (simp add: Let_def S rmw mpmc_pop_def faa128_abs_def map_update faa128_slot_def)
  next
    case False
    then have e: "tail q = head q" using faa_empty_iff(2) [OF S(1)] by simp
    have "head q < head q + 1" "head q \<le> head q + 1"
      using faa_succ [OF D(7)] by (simp_all add: word_less_nat_alt word_le_nat_alt)
    with False e c(4,5) v show ?thesis
      by (subst SPMCPtr_Dequeue_def, subst SPMCPtr_Dequeue_loop.simps)
        (simp add: Let_def S rmw SPMCPtr_catchupPtr_eq mpmc_skip_def faa128_abs_def map_update faa128_slot_def)
  qed
qed

end

lemma SPMCIndirect_Enqueue_eq:
  assumes "mpmc_shape k (faa128_abs q)" and "unat (tail q) + 1 + 4 * 2 ^ k < 2 ^ 64"
  shows "go_map faa128_abs (SPMCIndirect_Enqueue x q) =
    (if unat (tail q) < unat (head q) + 2 ^ k then ret (None, mpmc_push k x (faa128_abs q))
     else ret (Some ErrWouldBlock, faa128_abs q))"
proof (cases "unat (tail q) < unat (head q) + 2 ^ k")
  case True
  note S = faa128_shapeD [OF assms(1)]
  from faa128_at_tail [OF assms True] obtain v
    where "entry (buffer q ! faa_idx k (tail q)) = (tail q div 2 ^ k, v)" .
  with True faa_full_test [OF S(1)] show ?thesis
    by (subst SPMCIndirect_Enqueue_def)
      (simp add: Let_def S faa128_abs_def mpmc_push_def map_update faa128_slot_def)
next
  case False
  note S = faa128_shapeD [OF assms(1)]
  from False faa_full_test [OF S(1)] show ?thesis by (subst SPMCIndirect_Enqueue_def) (simp add: Let_def S)
qed

lemma SPMCPtr_Enqueue_eq:
  assumes "mpmc_shape k (faa128_abs q)" and "unat (tail q) + 1 + 4 * 2 ^ k < 2 ^ 64"
  shows "go_map faa128_abs (SPMCPtr_Enqueue x q) =
    (if unat (tail q) < unat (head q) + 2 ^ k then ret (None, mpmc_push k x (faa128_abs q))
     else ret (Some ErrWouldBlock, faa128_abs q))"
proof (cases "unat (tail q) < unat (head q) + 2 ^ k")
  case True
  note S = faa128_shapeD [OF assms(1)]
  from faa128_at_tail [OF assms True] obtain v
    where "entry (buffer q ! faa_idx k (tail q)) = (tail q div 2 ^ k, v)" .
  with True faa_full_test [OF S(1)] show ?thesis
    by (subst SPMCPtr_Enqueue_def)
      (simp add: Let_def S faa128_abs_def mpmc_push_def map_update faa128_slot_def)
next
  case False
  note S = faa128_shapeD [OF assms(1)]
  from False faa_full_test [OF S(1)] show ?thesis by (subst SPMCPtr_Enqueue_def) (simp add: Let_def S)
qed

text \<open>From such equations to the contract, once for the four queues.\<close>

lemma faa128_enq_law:
  assumes i: "mpmc_inv (Suc b) (faa128_abs q)"
    and eq: "\<And>k. mpmc_shape k (faa128_abs q) \<Longrightarrow> unat (tail q) + 1 + 4 * 2 ^ k < 2 ^ 64 \<Longrightarrow>
      go_map faa128_abs (enq x q) =
        (if unat (tail q) < unat (head q) + 2 ^ k then ret (None, mpmc_push k x (faa128_abs q))
         else ret (Some ErrWouldBlock, faa128_abs q))"
  shows "\<exists>q'. enq x q = ret (fst (fifo_enq (nat (sint (capacity q))) x (mpmc_elems (faa128_abs q))), q')
     \<and> mpmc_elems (faa128_abs q') = snd (fifo_enq (nat (sint (capacity q))) x (mpmc_elems (faa128_abs q)))
     \<and> nat (sint (capacity q')) = nat (sint (capacity q)) \<and> mpmc_inv b (faa128_abs q')"
  using mpmc_enq_law [OF i, of "\<lambda>x _. go_map faa128_abs (enq x q)" x] eq
  by (auto simp: go_map_ret_iff faa128_Cap)

lemma faa128_deq_law:
  assumes i: "mpmc_inv (Suc b) (faa128_abs q)"
    and eq: "\<And>k. mpmc_shape k (faa128_abs q) \<Longrightarrow> go_map faa128_abs (deq q) =
      (if \<not> draining q \<and> sint (threshold q) < 0 then ret ((0, Some ErrWouldBlock), faa128_abs q)
       else if unat (head q) < unat (tail q)
         then ret ((data (faa128_slot (buffer q ! faa_idx k (head q))), None), mpmc_pop k 0 (faa128_abs q))
       else ret ((0, Some ErrWouldBlock), mpmc_skip k 0 (faa128_abs q)))"
  shows "\<exists>q'. deq q = ret (fst (fifo_deq 0 (mpmc_elems (faa128_abs q))), q')
     \<and> mpmc_elems (faa128_abs q') = snd (fifo_deq 0 (mpmc_elems (faa128_abs q)))
     \<and> nat (sint (capacity q')) = nat (sint (capacity q)) \<and> mpmc_inv b (faa128_abs q')"
proof -
  have "go_map faa128_abs (deq q) =
      (if \<not> MPMC.draining (faa128_abs q) \<and> sint (MPMC.threshold (faa128_abs q)) < 0
       then ret ((0, Some ErrWouldBlock), faa128_abs q)
       else if unat (MPMC.head (faa128_abs q)) < unat (MPMC.tail (faa128_abs q))
         then ret ((data (MPMC.buffer (faa128_abs q) ! faa_idx k (MPMC.head (faa128_abs q))), None),
                   mpmc_pop k 0 (faa128_abs q))
       else ret ((0, Some ErrWouldBlock), mpmc_skip k 0 (faa128_abs q)))"
    if "mpmc_shape k (faa128_abs q)" for k
    using eq [OF that] faa128_shapeD(6) [OF that] by simp
  from mpmc_deq_law [OF i, of "\<lambda>_. go_map faa128_abs (deq q)" 0 "\<lambda>_. 0", OF this] show ?thesis
    by (auto simp: go_map_ret_iff faa128_Cap)
qed

lemma faa128_elems_le:
  "mpmc_inv b (faa128_abs q) \<Longrightarrow> length (mpmc_elems (faa128_abs q)) \<le> nat (sint (capacity q))"
  using mpmc_elems_le [of b "faa128_abs q"] by (simp only: faa128_Cap)

sublocale atomix_sem < mpmcindirect: bounded_queue "MPMCIndirect_Enqueue A" "MPMCIndirect_Dequeue A"
    "\<lambda>q. nat (MPMCIndirect_Cap q)" "\<lambda>q. mpmc_elems (faa128_abs q)" "\<lambda>b q. mpmc_inv b (faa128_abs q)" 0 "\<lambda>_. True"
  unfolding MPMCIndirect_Cap_def
  by unfold_locales
    (erule faa128_enq_law, erule (1) MPMCIndirect_Enqueue_eq, erule faa128_deq_law, erule MPMCIndirect_Dequeue_eq,
      erule faa128_elems_le)

sublocale atomix_sem < mpmcptr: bounded_queue "MPMCPtr_Enqueue A" "MPMCPtr_Dequeue A"
    "\<lambda>q. nat (MPMCPtr_Cap q)" "\<lambda>q. mpmc_elems (faa128_abs q)" "\<lambda>b q. mpmc_inv b (faa128_abs q)" 0 "\<lambda>_. True"
  unfolding MPMCPtr_Cap_def
  by unfold_locales
    (erule faa128_enq_law, erule (1) MPMCPtr_Enqueue_eq, erule faa128_deq_law, erule MPMCPtr_Dequeue_eq,
      erule faa128_elems_le)

sublocale atomix_sem < spmcindirect: bounded_queue "SPMCIndirect_Enqueue" "SPMCIndirect_Dequeue A"
    "\<lambda>q. nat (SPMCIndirect_Cap q)" "\<lambda>q. mpmc_elems (faa128_abs q)" "\<lambda>b q. mpmc_inv b (faa128_abs q)" 0 "\<lambda>_. True"
  unfolding SPMCIndirect_Cap_def
  by unfold_locales
    (erule faa128_enq_law, erule (1) SPMCIndirect_Enqueue_eq, erule faa128_deq_law, erule SPMCIndirect_Dequeue_eq,
      erule faa128_elems_le)

sublocale atomix_sem < spmcptr: bounded_queue "SPMCPtr_Enqueue" "SPMCPtr_Dequeue A"
    "\<lambda>q. nat (SPMCPtr_Cap q)" "\<lambda>q. mpmc_elems (faa128_abs q)" "\<lambda>b q. mpmc_inv b (faa128_abs q)" 0 "\<lambda>_. True"
  unfolding SPMCPtr_Cap_def
  by unfold_locales
    (erule faa128_enq_law, erule (1) SPMCPtr_Enqueue_eq, erule faa128_deq_law, erule SPMCPtr_Dequeue_eq,
      erule faa128_elems_le)

section \<open>\<open>MPSCIndirect\<close> and \<open>MPSCPtr\<close>: simulation\<close>

lemma mpsc128_shapeD:
  assumes "mpmc_shape k (mpsc_abs (mpsc128_abs q))"
  shows "faa_ok k (sc_head q) (sc_tail q) (map faa128_slot (sc_buffer q))" and "sc_capacity q = 2 ^ k"
    and "\<not> 64 \<le> k" and "sc_size q = 2 ^ k * 2" and "unat (p AND sc_mask q) = faa_idx k p"
    and "faa_idx k p < length (sc_buffer q)"
  using mpmc_shapeD [OF assms] by simp_all

context atomix_sem
begin

lemma MPSCIndirect_Enqueue_sim:
  assumes "mpmc_inv (Suc b) (mpsc_abs (mpsc128_abs q))"
  shows "go_map mpsc128_abs (MPSCIndirect_Enqueue A x q) = MPSC_Enqueue A x (mpsc128_abs q)"
proof -
  from assms obtain k where k: "mpmc_shape k (mpsc_abs (mpsc128_abs q))"
      "unat (sc_tail q) + 1 + 4 * 2 ^ k < 2 ^ 64"
    by (auto simp: mpmc_inv_def)
  note S = mpsc128_shapeD [OF k(1)]
  show ?thesis
  proof (cases "unat (sc_tail q) < unat (sc_head q) + 2 ^ k")
    case True
    with faa_push(1) [OF S(1) True k(2)] S(6) obtain v
      where "entry (sc_buffer q ! faa_idx k (sc_tail q)) = (sc_tail q div 2 ^ k, v)"
      by (metis faa128_slot_simps(1) nth_map prod.collapse)
    with True faa_full_test [OF S(1)] show ?thesis
      by (subst MPSCIndirect_Enqueue.simps, subst MPSC_Enqueue.simps)
        (simp add: Let_def S rmw mpsc128_abs_def map_update faa128_slot_def)
  next
    case False
    with faa_full_test [OF S(1)] show ?thesis
      by (subst MPSCIndirect_Enqueue.simps, subst MPSC_Enqueue.simps) (simp add: Let_def S)
  qed
qed

lemma MPSCPtr_Enqueue_sim:
  assumes "mpmc_inv (Suc b) (mpsc_abs (mpsc128_abs q))"
  shows "go_map mpsc128_abs (MPSCPtr_Enqueue A x q) = MPSC_Enqueue A x (mpsc128_abs q)"
proof -
  from assms obtain k where k: "mpmc_shape k (mpsc_abs (mpsc128_abs q))"
      "unat (sc_tail q) + 1 + 4 * 2 ^ k < 2 ^ 64"
    by (auto simp: mpmc_inv_def)
  note S = mpsc128_shapeD [OF k(1)]
  show ?thesis
  proof (cases "unat (sc_tail q) < unat (sc_head q) + 2 ^ k")
    case True
    with faa_push(1) [OF S(1) True k(2)] S(6) obtain v
      where "entry (sc_buffer q ! faa_idx k (sc_tail q)) = (sc_tail q div 2 ^ k, v)"
      by (metis faa128_slot_simps(1) nth_map prod.collapse)
    with True faa_full_test [OF S(1)] show ?thesis
      by (subst MPSCPtr_Enqueue.simps, subst MPSC_Enqueue.simps)
        (simp add: Let_def S rmw mpsc128_abs_def map_update faa128_slot_def)
  next
    case False
    with faa_full_test [OF S(1)] show ?thesis
      by (subst MPSCPtr_Enqueue.simps, subst MPSC_Enqueue.simps) (simp add: Let_def S)
  qed
qed

end

lemma MPSCIndirect_Dequeue_sim:
  assumes "mpmc_inv (Suc b) (mpsc_abs (mpsc128_abs q))"
  shows "go_map mpsc128_abs (MPSCIndirect_Dequeue q) = MPSC_Dequeue 0 (mpsc128_abs q)"
proof -
  from assms obtain k where k: "mpmc_shape k (mpsc_abs (mpsc128_abs q))" by (auto simp: mpmc_inv_def)
  note S = mpsc128_shapeD [OF k]
  show ?thesis
    using S(6)
    by (simp add: MPSCIndirect_Dequeue_def MPSC_Dequeue_def Let_def S mpsc128_abs_def map_update
        faa128_slot_def case_prod_beta)
qed

lemma MPSCPtr_Dequeue_sim:
  assumes "mpmc_inv (Suc b) (mpsc_abs (mpsc128_abs q))"
  shows "go_map mpsc128_abs (MPSCPtr_Dequeue q) = MPSC_Dequeue 0 (mpsc128_abs q)"
proof -
  from assms obtain k where k: "mpmc_shape k (mpsc_abs (mpsc128_abs q))" by (auto simp: mpmc_inv_def)
  note S = mpsc128_shapeD [OF k]
  show ?thesis
    using S(6)
    by (simp add: MPSCPtr_Dequeue_def MPSC_Dequeue_def Let_def S mpsc128_abs_def map_update
        faa128_slot_def case_prod_beta)
qed

sublocale atomix_sem < mpscindirect: queue_simulation "MPSC_Enqueue A" "MPSC_Dequeue 0"
    "\<lambda>q. nat (MPSC_Cap q)" "\<lambda>q. mpmc_elems (mpsc_abs q)" "\<lambda>b q. mpmc_inv b (mpsc_abs q)" 0 "\<lambda>_. True"
    "MPSCIndirect_Enqueue A" MPSCIndirect_Dequeue mpsc128_abs
  by (rule queue_simulation.intro [OF mpsc.bounded_queue_axioms], unfold_locales)
    (rule MPSCIndirect_Enqueue_sim, assumption, rule MPSCIndirect_Dequeue_sim, assumption)

sublocale atomix_sem < mpscptr: queue_simulation "MPSC_Enqueue A" "MPSC_Dequeue 0"
    "\<lambda>q. nat (MPSC_Cap q)" "\<lambda>q. mpmc_elems (mpsc_abs q)" "\<lambda>b q. mpmc_inv b (mpsc_abs q)" 0 "\<lambda>_. True"
    "MPSCPtr_Enqueue A" MPSCPtr_Dequeue mpsc128_abs
  by (rule queue_simulation.intro [OF mpsc.bounded_queue_axioms], unfold_locales)
    (rule MPSCPtr_Enqueue_sim, assumption, rule MPSCPtr_Dequeue_sim, assumption)

section \<open>The constructors\<close>

lemma New128_same:
  "NewMPMCPtr = NewMPMCIndirect" "NewSPMCIndirect = NewMPMCIndirect" "NewSPMCPtr = NewMPMCIndirect"
  "NewMPSCPtr = NewMPSCIndirect"
  by (intro ext, simp add: NewMPMCPtr_def NewSPMCIndirect_def NewSPMCPtr_def NewMPMCIndirect_def
      NewMPSCPtr_def NewMPSCIndirect_def)+

lemma faa128_init:
  "map faa128_slot (fold (\<lambda>i buf. buf[i := \<lparr>entry = (f i, 0)\<rparr>]) [0..<m] (replicate m \<lparr>entry = (0, 0)\<rparr>))
    = fold (\<lambda>i buf. buf[i := (buf ! i)\<lparr>cycle := f i\<rparr>]) [0..<m] (replicate m \<lparr>cycle = 0, data = 0\<rparr>)"
proof -
  have "fold (\<lambda>i buf. buf[i := \<lparr>entry = (f i, 0)\<rparr>]) [0..<m] (replicate m \<lparr>entry = (0, 0)\<rparr>)
      = map (\<lambda>i. \<lparr>entry = (f i, 0)\<rparr>) [0..<m]"
    using fold_init_replicate [of "\<lambda>i _. \<lparr>entry = (f i, 0)\<rparr>"] .
  moreover have "fold (\<lambda>i buf. buf[i := (buf ! i)\<lparr>cycle := f i\<rparr>]) [0..<m] (replicate m \<lparr>cycle = 0, data = 0\<rparr>)
      = map (\<lambda>i. \<lparr>cycle = f i, data = (0 :: u64)\<rparr>) [0..<m]"
    by (subst fold_init_replicate) simp
  ultimately show ?thesis by (simp add: faa128_slot_def)
qed

lemma NewMPMCIndirect_abs:
  "map_option (map_sum id faa128_abs) (NewMPMCIndirect c) = NewMPMC 0 c"
  by (simp add: NewMPMCIndirect_def NewMPMC_def Let_def make_slice_def faa128_abs_def faa128_init)

lemma NewMPSCIndirect_abs:
  "map_option (map_sum id mpsc128_abs) (NewMPSCIndirect c) = NewMPSC 0 c"
  by (simp add: NewMPSCIndirect_def NewMPSC_def Let_def make_slice_def mpsc128_abs_def faa128_init)

lemma NewMPMCIndirect_ok:
  assumes "2 \<le> sint c" and "sint c \<le> 2 ^ 61"
  shows "\<exists>q. NewMPMCIndirect c = ret q \<and> mpmc_inv (2 ^ 62) (faa128_abs q)
           \<and> mpmc_elems (faa128_abs q) = [] \<and> capacity q = roundToPow2 c"
proof -
  from NewMPMC_ok [OF assms, of 0] obtain s :: "u64 MPMC" where
    s: "NewMPMC 0 c = ret s" "mpmc_inv (2 ^ 62) s" "mpmc_elems s = []" "MPMC.capacity s = roundToPow2 c"
    by blast
  with NewMPMCIndirect_abs [of c] obtain q where "NewMPMCIndirect c = ret q" "s = faa128_abs q"
    by (metis go_constructor_lift)
  with s show ?thesis by auto
qed

lemma NewMPSCIndirect_ok:
  assumes "2 \<le> sint c" and "sint c \<le> 2 ^ 61"
  shows "\<exists>q. NewMPSCIndirect c = ret q \<and> mpmc_inv (2 ^ 62) (mpsc_abs (mpsc128_abs q))
           \<and> mpmc_elems (mpsc_abs (mpsc128_abs q)) = [] \<and> sc_capacity q = roundToPow2 c"
proof -
  from NewMPSC_ok [OF assms, of 0] obtain s :: "u64 MPSC" where
    s: "NewMPSC 0 c = ret s" "mpmc_inv (2 ^ 62) (mpsc_abs s)" "mpmc_elems (mpsc_abs s) = []"
      "MPSC.sc_capacity s = roundToPow2 c"
    by blast
  with NewMPSCIndirect_abs [of c] obtain q where "NewMPSCIndirect c = ret q" "s = mpsc128_abs q"
    by (metis go_constructor_lift)
  with s show ?thesis by auto
qed

end
