(* ===== verification/Compact_Queues.thy ===== *)
theory Compact_Queues
  imports Pow2 Fifo_Spec Atomix
begin

text \<open>
  The compact queues for words, \<open>MPMCCompactIndirect\<close> (\<open>mpmc_compact.go\<close>), \<open>MPSCCompactIndirect\<close>
  (\<open>mpsc_compact.go\<close>) and \<open>SPMCCompactIndirect\<close> (\<open>spmc_compact.go\<close>). A slot is a single word: a value
  with its high bit clear, or \<open>emptyFlag\<close> together with the round in which the slot is next filled.
  The three structs have the same fields. As elsewhere an operation is one function, run without
  interference; reading a shared index twice then gives the same value twice, and the retry this
  guards against is kept in the text of the loop.
\<close>

section \<open>The struct\<close>

definition emptyFlag :: u64 where
  "emptyFlag = 2 ^ 63"

record MPMCCompactIndirect =
  tail :: u64
  head :: u64
  buffer :: "u64 list"
  mask_q :: u64
  capacity :: u64
  order_q :: u64

type_synonym MPSCCompactIndirect = MPMCCompactIndirect
type_synonym SPMCCompactIndirect = MPMCCompactIndirect

text \<open>\<open>order := uint64(0); for (1 << order) < n { order++ }\<close>\<close>

partial_function (option) order_loop :: "u64 \<Rightarrow> u64 \<Rightarrow> u64 go" where
  "order_loop n order = (if push_bit (unat order) 1 < n then order_loop n (order + 1) else ret order)"

section \<open>\<open>MPMCCompactIndirect\<close>\<close>

definition NewMPMCCompactIndirect :: "u64 \<Rightarrow> MPMCCompactIndirect go" where
  "NewMPMCCompactIndirect cap =
     (if sint cap < 2 then panics (PanicMsg ''lfq: capacity must be >= 2'')
      else let n = roundToPow2 cap in
        go_bind (order_loop n 0) (\<lambda>order.
        go_bind (make_slice n 0) (\<lambda>buf.
          ret \<lparr>tail = 0, head = 0,
               buffer = fold (\<lambda>i buf. buf[i := emptyFlag OR 0]) [0..<length buf] buf,
               mask_q = n - 1, capacity = n, order_q = order\<rparr>)))"

partial_function (option) MPMCCompactIndirect_Enqueue_loop
  :: "atomix \<Rightarrow> u64 \<Rightarrow> MPMCCompactIndirect \<Rightarrow> (err option \<times> MPMCCompactIndirect) go" where
  "MPMCCompactIndirect_Enqueue_loop A elem q =
     (let t = tail q; h = head q
      in if t \<noteq> tail q then MPMCCompactIndirect_Enqueue_loop A elem q
         else if t \<ge> h + capacity q then ret (Some ErrWouldBlock, q)
         else let i = unat (t AND mask_q q);
                  round = drop_bit (unat (order_q q)) t AND (emptyFlag - 1);
                  expected = emptyFlag OR round
           in if \<not> i < length (buffer q) then panics IndexOutOfRange
              else (case CompareAndSwapUintptr A (buffer q ! i) expected elem of (swapped, cell) \<Rightarrow>
                let q = q\<lparr>buffer := (buffer q)[i := cell]\<rparr>
                in if swapped
                   then let q = q\<lparr>tail := snd (CompareAndSwap64 A (tail q) t (t + 1))\<rparr> in ret (None, q)
                   else let q = q\<lparr>tail := snd (CompareAndSwap64 A (tail q) t (t + 1))\<rparr>
                        in MPMCCompactIndirect_Enqueue_loop A elem q))"

definition MPMCCompactIndirect_Enqueue :: "atomix \<Rightarrow> u64 \<Rightarrow> MPMCCompactIndirect \<Rightarrow> (err option \<times> MPMCCompactIndirect) go" where
  "MPMCCompactIndirect_Enqueue A elem q =
     (if elem AND emptyFlag \<noteq> 0 then panics (PanicMsg ''lfq: value exceeds 63 bits'')
      else MPMCCompactIndirect_Enqueue_loop A elem q)"

partial_function (option) MPMCCompactIndirect_Dequeue
  :: "atomix \<Rightarrow> MPMCCompactIndirect \<Rightarrow> ((u64 \<times> err option) \<times> MPMCCompactIndirect) go" where
  "MPMCCompactIndirect_Dequeue A q =
     (let h = head q; t = tail q; i = unat (h AND mask_q q)
      in if \<not> i < length (buffer q) then panics IndexOutOfRange
         else let elem = buffer q ! i
           in if h \<noteq> head q then MPMCCompactIndirect_Dequeue A q
              else if h \<ge> t then ret ((0, Some ErrWouldBlock), q)
              else let nextRound = (drop_bit (unat (order_q q)) h + 1) AND (emptyFlag - 1);
                       nextEmpty = emptyFlag OR nextRound
                in if elem = nextEmpty
                   then let q = q\<lparr>head := snd (CompareAndSwap64 A (head q) h (h + 1))\<rparr>
                        in MPMCCompactIndirect_Dequeue A q
                   else if elem AND emptyFlag \<noteq> 0
                   then let q = q\<lparr>head := snd (CompareAndSwap64 A (head q) h (h + 1))\<rparr>
                        in MPMCCompactIndirect_Dequeue A q
                   else (case CompareAndSwapUintptr A (buffer q ! i) elem nextEmpty of (swapped, cell) \<Rightarrow>
                     let q = q\<lparr>buffer := (buffer q)[i := cell]\<rparr>;
                         q = q\<lparr>head := snd (CompareAndSwap64 A (head q) h (h + 1))\<rparr>
                     in if swapped then ret ((elem, None), q) else MPMCCompactIndirect_Dequeue A q))"

definition MPMCCompactIndirect_Cap :: "MPMCCompactIndirect \<Rightarrow> int" where
  "MPMCCompactIndirect_Cap q = sint (capacity q)"

section \<open>\<open>MPSCCompactIndirect\<close>\<close>

definition NewMPSCCompactIndirect :: "u64 \<Rightarrow> MPSCCompactIndirect go" where
  "NewMPSCCompactIndirect cap =
     (if sint cap < 2 then panics (PanicMsg ''lfq: capacity must be >= 2'')
      else let n = roundToPow2 cap in
        go_bind (order_loop n 0) (\<lambda>order.
        go_bind (make_slice n 0) (\<lambda>buf.
          ret \<lparr>tail = 0, head = 0,
               buffer = fold (\<lambda>i buf. buf[i := emptyFlag OR 0]) [0..<length buf] buf,
               mask_q = n - 1, capacity = n, order_q = order\<rparr>)))"

partial_function (option) MPSCCompactIndirect_Enqueue_loop
  :: "atomix \<Rightarrow> u64 \<Rightarrow> MPSCCompactIndirect \<Rightarrow> (err option \<times> MPSCCompactIndirect) go" where
  "MPSCCompactIndirect_Enqueue_loop A elem q =
     (let t = tail q; h = head q
      in if t \<ge> h + capacity q then ret (Some ErrWouldBlock, q)
         else let i = unat (t AND mask_q q);
                  round = drop_bit (unat (order_q q)) t AND (emptyFlag - 1);
                  expected = emptyFlag OR round
           in if \<not> i < length (buffer q) then panics IndexOutOfRange
              else (case CompareAndSwapUintptr A (buffer q ! i) expected elem of (swapped, cell) \<Rightarrow>
                let q = q\<lparr>buffer := (buffer q)[i := cell]\<rparr>
                in if swapped
                   then let q = q\<lparr>tail := snd (CompareAndSwap64 A (tail q) t (t + 1))\<rparr> in ret (None, q)
                   else let q = q\<lparr>tail := snd (CompareAndSwap64 A (tail q) t (t + 1))\<rparr>
                        in MPSCCompactIndirect_Enqueue_loop A elem q))"

definition MPSCCompactIndirect_Enqueue :: "atomix \<Rightarrow> u64 \<Rightarrow> MPSCCompactIndirect \<Rightarrow> (err option \<times> MPSCCompactIndirect) go" where
  "MPSCCompactIndirect_Enqueue A elem q =
     (if elem AND emptyFlag \<noteq> 0 then panics (PanicMsg ''lfq: value exceeds 63 bits'')
      else MPSCCompactIndirect_Enqueue_loop A elem q)"

definition MPSCCompactIndirect_Dequeue :: "MPSCCompactIndirect \<Rightarrow> ((u64 \<times> err option) \<times> MPSCCompactIndirect) go" where
  "MPSCCompactIndirect_Dequeue q =
     (let h = head q; t = tail q
      in if h \<ge> t then ret ((0, Some ErrWouldBlock), q)
         else let i = unat (h AND mask_q q)
           in if \<not> i < length (buffer q) then panics IndexOutOfRange
              else let elem = buffer q ! i;
                       nextRound = (drop_bit (unat (order_q q)) h + 1) AND (emptyFlag - 1);
                       nextEmpty = emptyFlag OR nextRound
                in if elem AND emptyFlag \<noteq> 0 then ret ((0, Some ErrWouldBlock), q)
                   else let q = q\<lparr>buffer := (buffer q)[i := nextEmpty]\<rparr>;
                            q = q\<lparr>head := h + 1\<rparr>
                        in ret ((elem, None), q))"

definition MPSCCompactIndirect_Cap :: "MPSCCompactIndirect \<Rightarrow> int" where
  "MPSCCompactIndirect_Cap q = sint (capacity q)"

section \<open>\<open>SPMCCompactIndirect\<close>\<close>

definition NewSPMCCompactIndirect :: "u64 \<Rightarrow> SPMCCompactIndirect go" where
  "NewSPMCCompactIndirect cap =
     (if sint cap < 2 then panics (PanicMsg ''lfq: capacity must be >= 2'')
      else let n = roundToPow2 cap in
        go_bind (order_loop n 0) (\<lambda>order.
        go_bind (make_slice n 0) (\<lambda>buf.
          ret \<lparr>tail = 0, head = 0,
               buffer = fold (\<lambda>i buf. buf[i := emptyFlag OR 0]) [0..<length buf] buf,
               mask_q = n - 1, capacity = n, order_q = order\<rparr>)))"

definition SPMCCompactIndirect_Enqueue :: "atomix \<Rightarrow> u64 \<Rightarrow> SPMCCompactIndirect \<Rightarrow> (err option \<times> SPMCCompactIndirect) go" where
  "SPMCCompactIndirect_Enqueue A elem q =
     (if elem AND emptyFlag \<noteq> 0 then panics (PanicMsg ''lfq: value exceeds 63 bits'')
      else let t = tail q; h = head q
        in if t \<ge> h + capacity q then ret (Some ErrWouldBlock, q)
           else let i = unat (t AND mask_q q);
                    round = drop_bit (unat (order_q q)) t AND (emptyFlag - 1);
                    expected = emptyFlag OR round
             in if \<not> i < length (buffer q) then panics IndexOutOfRange
                else (case CompareAndSwapUintptr A (buffer q ! i) expected elem of (swapped, cell) \<Rightarrow>
                  let q = q\<lparr>buffer := (buffer q)[i := cell]\<rparr>
                  in if \<not> swapped then ret (Some ErrWouldBlock, q)
                     else let q = q\<lparr>tail := t + 1\<rparr> in ret (None, q)))"

partial_function (option) SPMCCompactIndirect_Dequeue
  :: "atomix \<Rightarrow> SPMCCompactIndirect \<Rightarrow> ((u64 \<times> err option) \<times> SPMCCompactIndirect) go" where
  "SPMCCompactIndirect_Dequeue A q =
     (let h = head q; t = tail q
      in if h \<ge> t then ret ((0, Some ErrWouldBlock), q)
         else let i = unat (h AND mask_q q)
           in if \<not> i < length (buffer q) then panics IndexOutOfRange
              else let elem = buffer q ! i
                in if h \<noteq> head q then SPMCCompactIndirect_Dequeue A q
                   else let currentRound = drop_bit (unat (order_q q)) h AND (emptyFlag - 1);
                            nextRound = (currentRound + 1) AND (emptyFlag - 1);
                            nextEmpty = emptyFlag OR nextRound
                     in if elem = nextEmpty
                        then let q = q\<lparr>head := snd (CompareAndSwap64 A (head q) h (h + 1))\<rparr>
                             in SPMCCompactIndirect_Dequeue A q
                        else if elem AND emptyFlag \<noteq> 0
                        then let q = q\<lparr>head := snd (CompareAndSwap64 A (head q) h (h + 1))\<rparr>
                             in SPMCCompactIndirect_Dequeue A q
                        else (case CompareAndSwapUintptr A (buffer q ! i) elem nextEmpty of (swapped, cell) \<Rightarrow>
                          let q = q\<lparr>buffer := (buffer q)[i := cell]\<rparr>;
                              q = q\<lparr>head := snd (CompareAndSwap64 A (head q) h (h + 1))\<rparr>
                          in if swapped then ret ((elem, None), q) else SPMCCompactIndirect_Dequeue A q))"

definition SPMCCompactIndirect_Cap :: "SPMCCompactIndirect \<Rightarrow> int" where
  "SPMCCompactIndirect_Cap q = sint (capacity q)"

section \<open>Values and empty marks\<close>

definition valid63 :: "u64 \<Rightarrow> bool" where
  "valid63 x \<longleftrightarrow> x AND emptyFlag = 0"

lemma valid63_iff: "valid63 x \<longleftrightarrow> unat x < 2 ^ 63"
proof -
  have "valid63 x \<longleftrightarrow> \<not> bit x 63"
    unfolding valid63_def emptyFlag_def
    by (metis and_exp_eq_0_iff_not_bit)
  also have "\<dots> \<longleftrightarrow> unat x < 2 ^ 63"
  proof -
    have "bit x 63 \<longleftrightarrow> sint x < 0" using bit_last_iff [of x] by simp
    then show ?thesis by (simp add: sint_neg_iff not_le)
  qed
  finally show ?thesis .
qed

definition empty_mark :: "nat \<Rightarrow> u64" where
  "empty_mark r = emptyFlag OR of_nat r"

lemma empty_mark_not_valid: "\<not> valid63 (empty_mark r)"
proof -
  have "bit (empty_mark r) 63" by (simp add: empty_mark_def emptyFlag_def bit_simps)
  then show ?thesis unfolding valid63_def emptyFlag_def by (metis and_exp_eq_0_iff_not_bit)
qed

lemma compact_div_lt:
  assumes "1 \<le> k" and "m < (2 ^ 64 :: nat)"
  shows "m div 2 ^ k < 2 ^ 63"
proof -
  have "m div 2 ^ k \<le> m div 2 ^ 1" using assms(1) by (intro div_le_mono2 power_increasing) auto
  with assms(2) show ?thesis by simp
qed

lemma unat_drop_bit_u64: "k < 64 \<Longrightarrow> unat (drop_bit k (p :: u64)) = unat p div 2 ^ k"
  by (simp add: drop_bit_eq_div unat_div unat_pow2)

text \<open>The rounds the code computes.\<close>

lemma compact_round:
  assumes "1 \<le> k" and "k \<le> 62"
  shows "emptyFlag OR (drop_bit k p AND (emptyFlag - 1)) = empty_mark (unat p div 2 ^ k)"
proof -
  have "unat (drop_bit k p AND (emptyFlag - 1)) = unat p div 2 ^ k mod 2 ^ 63"
    unfolding emptyFlag_def using assms by (subst unat_and_mask) (simp_all add: unat_drop_bit_u64)
  also have "\<dots> = unat p div 2 ^ k" using compact_div_lt [OF assms(1) unat_u64_lt, of p] by simp
  finally show ?thesis unfolding empty_mark_def by (metis unat_eq_of_nat_u64)
qed

lemma compact_next_round:
  assumes "1 \<le> k" and "k \<le> 62" and "unat p + 2 ^ k < 2 ^ 64"
  shows "emptyFlag OR ((drop_bit k p + 1) AND (emptyFlag - 1)) = empty_mark ((unat p + 2 ^ k) div 2 ^ k)"
    and "emptyFlag OR (((drop_bit k p AND (emptyFlag - 1)) + 1) AND (emptyFlag - 1))
           = empty_mark ((unat p + 2 ^ k) div 2 ^ k)"
proof -
  have d: "unat (drop_bit k p) = unat p div 2 ^ k"
    using assms by (simp add: unat_drop_bit_u64)
  have e: "(unat p + 2 ^ k) div 2 ^ k = unat p div 2 ^ k + 1" by (rule div_add_self2) simp
  have lt: "unat p div 2 ^ k + 1 < 2 ^ 63"
    using compact_div_lt [OF assms(1,3)] unfolding e .
  then have "unat (drop_bit k p + 1) = unat p div 2 ^ k + 1" using d by (subst unat_Suc_no_wrap) auto
  then have u: "unat ((drop_bit k p + 1) AND (emptyFlag - 1)) = (unat p + 2 ^ k) div 2 ^ k"
    unfolding emptyFlag_def e by (subst unat_and_mask) (use lt in simp_all)
  then show "emptyFlag OR ((drop_bit k p + 1) AND (emptyFlag - 1)) = empty_mark ((unat p + 2 ^ k) div 2 ^ k)"
    unfolding empty_mark_def by (metis unat_eq_of_nat_u64)
  moreover have "unat (drop_bit k p AND (emptyFlag - 1)) = unat (drop_bit k p)"
    unfolding emptyFlag_def by (subst unat_and_mask) (use lt d in simp_all)
  then have "drop_bit k p AND (emptyFlag - 1) = drop_bit k p" by (simp only: word_unat_eq_iff)
  ultimately show "emptyFlag OR (((drop_bit k p AND (emptyFlag - 1)) + 1) AND (emptyFlag - 1))
      = empty_mark ((unat p + 2 ^ k) div 2 ^ k)" by simp
qed

section \<open>The invariant and the contents\<close>

definition compact_shape :: "nat \<Rightarrow> MPMCCompactIndirect \<Rightarrow> bool" where
  "compact_shape k q \<longleftrightarrow> 1 \<le> k \<and> k \<le> 62 \<and> capacity q = 2 ^ k \<and> mask_q q = 2 ^ k - 1
     \<and> order_q q = of_nat k \<and> length (buffer q) = 2 ^ k
     \<and> unat (head q) \<le> unat (tail q) \<and> unat (tail q) \<le> unat (head q) + 2 ^ k"

definition compact_slots :: "nat \<Rightarrow> nat \<Rightarrow> nat \<Rightarrow> (nat \<Rightarrow> u64) \<Rightarrow> bool" where
  "compact_slots n h t B \<longleftrightarrow> (\<forall>i<n. if i < t - h then valid63 (B ((h + i) mod n))
                                      else B ((h + i) mod n) = empty_mark ((h + i) div n))"

definition compact_inv :: "nat \<Rightarrow> MPMCCompactIndirect \<Rightarrow> bool" where
  "compact_inv b q \<longleftrightarrow> (\<exists>k. compact_shape k q
       \<and> compact_slots (2 ^ k) (unat (head q)) (unat (tail q)) (\<lambda>i. buffer q ! i)
       \<and> unat (tail q) + b + 2 ^ k < 2 ^ 64)"

definition compact_elems :: "MPMCCompactIndirect \<Rightarrow> u64 list" where
  "compact_elems q = ring_list (\<lambda>i. buffer q ! i) (length (buffer q)) (unat (head q))
                       (unat (tail q) - unat (head q))"

lemma compact_slots_cong:
  "0 < n \<Longrightarrow> (\<And>i. i < n \<Longrightarrow> B i = B' i) \<Longrightarrow> compact_slots n h t B = compact_slots n h t B'"
  by (auto simp: compact_slots_def)

lemma compact_slots_push:
  assumes "compact_slots n h t B" and "h \<le> t" and "t < h + n" and "valid63 x"
  shows "B (t mod n) = empty_mark (t div n)" and "compact_slots n h (Suc t) (B(t mod n := x))"
proof -
  have t: "h + (t - h) = t" and lt: "t - h < n" using assms(2,3) by auto
  show "B (t mod n) = empty_mark (t div n)"
    using assms(1) lt t unfolding compact_slots_def by (metis less_irrefl)
  have "if i < Suc t - h then valid63 ((B(t mod n := x)) ((h + i) mod n))
        else (B(t mod n := x)) ((h + i) mod n) = empty_mark ((h + i) div n)" if i: "i < n" for i
  proof (cases "i = t - h")
    case True
    moreover have "t - h < Suc t - h" using assms(2) by arith
    ultimately show ?thesis using t assms(4) by simp
  next
    case False
    have "(h + i) mod n \<noteq> t mod n" using mod_pow2_inj [OF i lt, of h] False t by auto
    moreover have "i < Suc t - h \<longleftrightarrow> i < t - h" using False assms(2) by arith
    ultimately show ?thesis using assms(1) i by (auto simp: compact_slots_def)
  qed
  then show "compact_slots n h (Suc t) (B(t mod n := x))" unfolding compact_slots_def by blast
qed

lemma compact_slots_pop:
  assumes "compact_slots n h t B" and "h < t" and "t \<le> h + n"
  shows "valid63 (B (h mod n))" and "compact_slots n (Suc h) t (B(h mod n := empty_mark ((h + n) div n)))"
proof -
  have n: "0 < n" using assms(2,3) by simp
  show "valid63 (B (h mod n))"
    using assms(1,2) n unfolding compact_slots_def by (metis add_0_right zero_less_diff)
  have "if i < t - Suc h then valid63 ((B(h mod n := empty_mark ((h + n) div n))) ((Suc h + i) mod n))
        else (B(h mod n := empty_mark ((h + n) div n))) ((Suc h + i) mod n) = empty_mark ((Suc h + i) div n)"
    if i: "i < n" for i
  proof (cases "Suc i = n")
    case True
    then have e: "Suc h + i = h + n" by simp
    have "\<not> i < t - Suc h" using True assms(3) by simp
    then show ?thesis unfolding e by simp
  next
    case False
    with i have i': "Suc i < n" by simp
    then have "(h + Suc i) mod n \<noteq> (h + 0) mod n" using mod_pow2_inj [of "Suc i" n 0 h] by auto
    moreover have "Suc i < t - h \<longleftrightarrow> i < t - Suc h" by arith
    ultimately show ?thesis using assms(1) i' unfolding compact_slots_def
      by (auto dest: spec [of _ "Suc i"])
  qed
  then show "compact_slots n (Suc h) t (B(h mod n := empty_mark ((h + n) div n)))"
    unfolding compact_slots_def by blast
qed

definition compact_push :: "nat \<Rightarrow> u64 \<Rightarrow> MPMCCompactIndirect \<Rightarrow> MPMCCompactIndirect" where
  "compact_push k x q = q\<lparr>buffer := (buffer q)[unat (tail q) mod 2 ^ k := x], tail := tail q + 1\<rparr>"

definition compact_pop :: "nat \<Rightarrow> MPMCCompactIndirect \<Rightarrow> MPMCCompactIndirect" where
  "compact_pop k q = q\<lparr>buffer := (buffer q)[unat (head q) mod 2 ^ k
     := empty_mark ((unat (head q) + 2 ^ k) div 2 ^ k)], head := head q + 1\<rparr>"

lemma compact_shapeD:
  assumes "compact_shape k q"
  shows "1 \<le> k" and "k \<le> 62" and "capacity q = 2 ^ k" and "unat (p AND mask_q q) = unat p mod 2 ^ k"
    and "unat (order_q q) = k" and "length (buffer q) = 2 ^ k" and "unat (head q) \<le> unat (tail q)"
    and "unat (tail q) \<le> unat (head q) + 2 ^ k" and "nat (sint (capacity q)) = 2 ^ k"
  using assms by (simp_all add: compact_shape_def unat_and_mask unat_of_nat_u64 sint_pow2)

lemma compact_full_test:
  assumes "compact_shape k q" and "unat (tail q) + b + 2 ^ k < 2 ^ 64"
  shows "tail q \<ge> head q + 2 ^ k \<longleftrightarrow> \<not> unat (tail q) < unat (head q) + 2 ^ k"
proof -
  note S = compact_shapeD [OF assms(1)]
  have "unat (head q + 2 ^ k) = unat (head q) + 2 ^ k"
    using S(2,7) assms(2) by (subst unat_add_no_wrap) (simp_all add: unat_pow2)
  then show ?thesis by (auto simp: word_le_nat_alt)
qed

lemma compact_push_law:
  assumes "compact_shape k q" and "compact_slots (2 ^ k) (unat (head q)) (unat (tail q)) (\<lambda>i. buffer q ! i)"
    and "unat (tail q) + Suc b + 2 ^ k < 2 ^ 64" and "unat (tail q) < unat (head q) + 2 ^ k" and "valid63 x"
  shows "buffer q ! (unat (tail q) mod 2 ^ k) = empty_mark (unat (tail q) div 2 ^ k)"
    and "compact_inv b (compact_push k x q)" and "compact_elems (compact_push k x q) = compact_elems q @ [x]"
proof -
  note S = compact_shapeD [OF assms(1)] and P = compact_slots_push [OF assms(2) compact_shapeD(7) [OF assms(1)] assms(4,5)]
  let ?i = "unat (tail q) mod 2 ^ k"
  show "buffer q ! ?i = empty_mark (unat (tail q) div 2 ^ k)" by (rule P(1))
  have t1: "unat (tail q + 1) = Suc (unat (tail q))" using assms(3) by (subst unat_Suc_no_wrap) auto
  have "compact_slots (2 ^ k) (unat (head q)) (Suc (unat (tail q))) (\<lambda>i. (buffer q)[?i := x] ! i)"
    using P(2) by (rule iffD1 [OF compact_slots_cong, rotated 2]) (simp_all add: S(6) nth_list_update)
  moreover have "compact_shape k (compact_push k x q)"
    using assms(1,4) S(7) t1 by (simp add: compact_shape_def compact_push_def)
  ultimately show "compact_inv b (compact_push k x q)"
    using assms(3) t1 by (auto simp: compact_inv_def compact_push_def)
  have i: "?i = (unat (head q) + (unat (tail q) - unat (head q))) mod 2 ^ k" using S(7) by simp
  have "ring_list (\<lambda>i. (buffer q)[?i := x] ! i) (2 ^ k) (unat (head q)) (Suc (unat (tail q) - unat (head q)))
      = ring_list (\<lambda>i. buffer q ! i) (2 ^ k) (unat (head q)) (unat (tail q) - unat (head q))
        @ [(buffer q)[?i := x] ! ?i]"
    unfolding i using assms(4) S(6,7) by (intro ring_list_snoc) auto
  moreover have "Suc (unat (tail q)) - unat (head q) = Suc (unat (tail q) - unat (head q))" using S(7) by simp
  ultimately show "compact_elems (compact_push k x q) = compact_elems q @ [x]"
    by (simp add: compact_elems_def compact_push_def S(6) t1)
qed

lemma compact_pop_law:
  assumes "compact_shape k q" and "compact_slots (2 ^ k) (unat (head q)) (unat (tail q)) (\<lambda>i. buffer q ! i)"
    and "unat (tail q) + Suc b + 2 ^ k < 2 ^ 64" and "unat (head q) < unat (tail q)"
  shows "valid63 (buffer q ! (unat (head q) mod 2 ^ k))"
    and "compact_inv b (compact_pop k q)"
    and "compact_elems q = buffer q ! (unat (head q) mod 2 ^ k) # compact_elems (compact_pop k q)"
proof -
  note S = compact_shapeD [OF assms(1)] and P = compact_slots_pop [OF assms(2,4) compact_shapeD(8) [OF assms(1)]]
  let ?i = "unat (head q) mod 2 ^ k" and ?e = "empty_mark ((unat (head q) + 2 ^ k) div 2 ^ k)"
  show "valid63 (buffer q ! ?i)" by (rule P(1))
  have h1: "unat (head q + 1) = Suc (unat (head q))" using assms(3,4) by (subst unat_Suc_no_wrap) auto
  have "compact_slots (2 ^ k) (Suc (unat (head q))) (unat (tail q)) (\<lambda>i. (buffer q)[?i := ?e] ! i)"
    using P(2) by (rule iffD1 [OF compact_slots_cong, rotated 2]) (simp_all add: S(6) nth_list_update)
  moreover have "compact_shape k (compact_pop k q)"
    using assms(1,4) S(8) h1 by (simp add: compact_shape_def compact_pop_def)
  ultimately show "compact_inv b (compact_pop k q)"
    using assms(3) h1 by (auto simp: compact_inv_def compact_pop_def)
  have "ring_list (\<lambda>i. buffer q ! i) (2 ^ k) (unat (head q)) (Suc (unat (tail q) - Suc (unat (head q))))
      = buffer q ! ?i # ring_list (\<lambda>i. (buffer q)[?i := ?e] ! i) (2 ^ k) (Suc (unat (head q)))
          (unat (tail q) - Suc (unat (head q)))"
    using S(8) assms(4) by (intro ring_list_tl) auto
  moreover have "unat (tail q) - unat (head q) = Suc (unat (tail q) - Suc (unat (head q)))" using assms(4) by simp
  ultimately show "compact_elems q = buffer q ! ?i # compact_elems (compact_pop k q)"
    by (simp add: compact_elems_def compact_pop_def S(6) h1)
qed

text \<open>From the equation of an operation to the law of \<open>bounded_queue\<close>.\<close>

definition compact_good :: "nat \<Rightarrow> nat \<Rightarrow> MPMCCompactIndirect \<Rightarrow> bool" where
  "compact_good k b q \<longleftrightarrow> compact_shape k q
     \<and> compact_slots (2 ^ k) (unat (head q)) (unat (tail q)) (\<lambda>i. buffer q ! i)
     \<and> unat (tail q) + b + 2 ^ k < 2 ^ 64"

lemma compact_inv_good: "compact_inv b q \<longleftrightarrow> (\<exists>k. compact_good k b q)"
  by (simp add: compact_inv_def compact_good_def)

lemma compact_goodD:
  assumes "compact_good k b q"
  shows "compact_shape k q"
    and "compact_slots (2 ^ k) (unat (head q)) (unat (tail q)) (\<lambda>i. buffer q ! i)"
    and "unat (tail q) + b + 2 ^ k < 2 ^ 64"
  using assms by (simp_all add: compact_good_def)

lemma compact_enq_law:
  assumes inv: "compact_inv (Suc b) q" and x: "valid63 x"
    and eq: "\<And>k. compact_good k (Suc b) q \<Longrightarrow> enq x q =
      (if unat (tail q) < unat (head q) + 2 ^ k then ret (None, compact_push k x q)
       else ret (Some ErrWouldBlock, q))"
  shows "\<exists>q'. enq x q = ret (fst (fifo_enq (nat (sint (capacity q))) x (compact_elems q)), q')
     \<and> compact_elems q' = snd (fifo_enq (nat (sint (capacity q))) x (compact_elems q))
     \<and> nat (sint (capacity q')) = nat (sint (capacity q)) \<and> compact_inv b q'"
proof -
  from inv obtain k where k: "compact_good k (Suc b) q" by (auto simp: compact_inv_good)
  note G = compact_goodD [OF k] and S = compact_shapeD [OF compact_goodD(1) [OF k]] and e = eq [OF k]
  show ?thesis
  proof (cases "unat (tail q) < unat (head q) + 2 ^ k")
    case True
    then have "length (compact_elems q) < nat (sint (capacity q))" using S(7,9) by (simp add: compact_elems_def)
    with True e compact_push_law(2,3) [OF G True x] show ?thesis by (simp add: compact_push_def)
  next
    case False
    then have "\<not> length (compact_elems q) < nat (sint (capacity q))" using S(7,9) by (simp add: compact_elems_def)
    moreover have "compact_inv b q" using inv by (auto simp: compact_inv_def)
    ultimately show ?thesis using False e by simp
  qed
qed

lemma compact_deq_law:
  assumes inv: "compact_inv (Suc b) q"
    and eq: "\<And>k. compact_good k (Suc b) q \<Longrightarrow> deq q =
      (if unat (head q) < unat (tail q) then ret ((buffer q ! (unat (head q) mod 2 ^ k), None), compact_pop k q)
       else ret ((0, Some ErrWouldBlock), q))"
  shows "\<exists>q'. deq q = ret (fst (fifo_deq 0 (compact_elems q)), q')
     \<and> compact_elems q' = snd (fifo_deq 0 (compact_elems q))
     \<and> nat (sint (capacity q')) = nat (sint (capacity q)) \<and> compact_inv b q'"
proof -
  from inv obtain k where k: "compact_good k (Suc b) q" by (auto simp: compact_inv_good)
  note G = compact_goodD [OF k] and e = eq [OF k]
  show ?thesis
  proof (cases "unat (head q) < unat (tail q)")
    case True
    with e compact_pop_law(2,3) [OF G True] show ?thesis by (simp add: compact_pop_def)
  next
    case False
    then have "compact_elems q = []" by (simp add: compact_elems_def)
    moreover have "compact_inv b q" using inv by (auto simp: compact_inv_def)
    ultimately show ?thesis using False e by simp
  qed
qed

lemma compact_elems_le: "compact_inv b q \<Longrightarrow> length (compact_elems q) \<le> nat (sint (capacity q))"
  using compact_shapeD(8,9) by (fastforce simp: compact_inv_def compact_elems_def)

text \<open>Each operation as one equation.\<close>

lemma compact_enq_facts:
  assumes "compact_good k (Suc b) q"
  shows "tail q \<ge> head q + 2 ^ k \<longleftrightarrow> \<not> unat (tail q) < unat (head q) + 2 ^ k"
    and "unat (tail q) < unat (head q) + 2 ^ k \<Longrightarrow>
      buffer q ! (unat (tail q) mod 2 ^ k) = empty_mark (unat (tail q) div 2 ^ k)"
    and "emptyFlag OR (drop_bit k (tail q) AND (emptyFlag - 1)) = empty_mark (unat (tail q) div 2 ^ k)"
proof -
  note G = compact_goodD [OF assms] and S = compact_shapeD [OF compact_goodD(1) [OF assms]]
  show "tail q \<ge> head q + 2 ^ k \<longleftrightarrow> \<not> unat (tail q) < unat (head q) + 2 ^ k"
    by (rule compact_full_test [OF G(1,3)])
  show "buffer q ! (unat (tail q) mod 2 ^ k) = empty_mark (unat (tail q) div 2 ^ k)"
    if "unat (tail q) < unat (head q) + 2 ^ k"
    using compact_push_law(1) [OF G that, of 0] by (simp add: valid63_def)
  show "emptyFlag OR (drop_bit k (tail q) AND (emptyFlag - 1)) = empty_mark (unat (tail q) div 2 ^ k)"
    by (rule compact_round [OF S(1,2)])
qed

lemma compact_deq_facts:
  assumes "compact_good k (Suc b) q"
  shows "head q \<ge> tail q \<longleftrightarrow> \<not> unat (head q) < unat (tail q)"
    and "unat (head q) < unat (tail q) \<Longrightarrow> valid63 (buffer q ! (unat (head q) mod 2 ^ k))"
    and "unat (head q) < unat (tail q) \<Longrightarrow>
      buffer q ! (unat (head q) mod 2 ^ k) \<noteq> empty_mark ((unat (head q) + 2 ^ k) div 2 ^ k)"
    and "emptyFlag OR ((drop_bit k (head q) + 1) AND (emptyFlag - 1))
      = empty_mark ((unat (head q) + 2 ^ k) div 2 ^ k)"
    and "emptyFlag OR (((drop_bit k (head q) AND (emptyFlag - 1)) + 1) AND (emptyFlag - 1))
      = empty_mark ((unat (head q) + 2 ^ k) div 2 ^ k)"
proof -
  note G = compact_goodD [OF assms] and S = compact_shapeD [OF compact_goodD(1) [OF assms]]
  show "head q \<ge> tail q \<longleftrightarrow> \<not> unat (head q) < unat (tail q)" by (auto simp: word_le_nat_alt)
  show v: "valid63 (buffer q ! (unat (head q) mod 2 ^ k))" if "unat (head q) < unat (tail q)"
    by (rule compact_pop_law(1) [OF G that])
  show "buffer q ! (unat (head q) mod 2 ^ k) \<noteq> empty_mark ((unat (head q) + 2 ^ k) div 2 ^ k)"
    if "unat (head q) < unat (tail q)" using v [OF that] empty_mark_not_valid by metis
  have "unat (head q) + 2 ^ k < 2 ^ 64" using G(3) S(7) by simp
  then show "emptyFlag OR ((drop_bit k (head q) + 1) AND (emptyFlag - 1))
      = empty_mark ((unat (head q) + 2 ^ k) div 2 ^ k)"
    "emptyFlag OR (((drop_bit k (head q) AND (emptyFlag - 1)) + 1) AND (emptyFlag - 1))
      = empty_mark ((unat (head q) + 2 ^ k) div 2 ^ k)"
    by (rule compact_next_round [OF S(1,2)])+
qed

context atomix_sem
begin

lemma compact_Enqueue_eq:
  assumes "compact_good k (Suc b) q" and "valid63 x"
  shows "MPMCCompactIndirect_Enqueue A x q = (if unat (tail q) < unat (head q) + 2 ^ k
      then ret (None, compact_push k x q) else ret (Some ErrWouldBlock, q))" (is ?m)
    and "MPSCCompactIndirect_Enqueue A x q = (if unat (tail q) < unat (head q) + 2 ^ k
      then ret (None, compact_push k x q) else ret (Some ErrWouldBlock, q))" (is ?s)
    and "SPMCCompactIndirect_Enqueue A x q = (if unat (tail q) < unat (head q) + 2 ^ k
      then ret (None, compact_push k x q) else ret (Some ErrWouldBlock, q))" (is ?p)
proof -
  note S = compact_shapeD [OF compact_goodD(1) [OF assms(1)]] and F = compact_enq_facts [OF assms(1)]
  note u = Let_def S casUintptr cas64 compact_push_def
  have x: "x AND emptyFlag = 0" using assms(2) by (simp add: valid63_def)
  show ?m using F x by (subst MPMCCompactIndirect_Enqueue_def, subst MPMCCompactIndirect_Enqueue_loop.simps) (simp add: u)
  show ?s using F x by (subst MPSCCompactIndirect_Enqueue_def, subst MPSCCompactIndirect_Enqueue_loop.simps) (simp add: u)
  show ?p using F x by (subst SPMCCompactIndirect_Enqueue_def) (simp add: u)
qed

lemma compact_Dequeue_eq:
  assumes "compact_good k (Suc b) q"
  shows "MPMCCompactIndirect_Dequeue A q = (if unat (head q) < unat (tail q)
      then ret ((buffer q ! (unat (head q) mod 2 ^ k), None), compact_pop k q)
      else ret ((0, Some ErrWouldBlock), q))" (is ?m)
    and "MPSCCompactIndirect_Dequeue q = (if unat (head q) < unat (tail q)
      then ret ((buffer q ! (unat (head q) mod 2 ^ k), None), compact_pop k q)
      else ret ((0, Some ErrWouldBlock), q))" (is ?s)
    and "SPMCCompactIndirect_Dequeue A q = (if unat (head q) < unat (tail q)
      then ret ((buffer q ! (unat (head q) mod 2 ^ k), None), compact_pop k q)
      else ret ((0, Some ErrWouldBlock), q))" (is ?p)
proof -
  note S = compact_shapeD [OF compact_goodD(1) [OF assms(1)]] and F = compact_deq_facts [OF assms(1)]
  note u = Let_def S casUintptr cas64 compact_pop_def
  show ?m using F(1-4) unfolding valid63_def by (subst MPMCCompactIndirect_Dequeue.simps) (simp add: u)
  show ?s using F(1-4) unfolding valid63_def by (subst MPSCCompactIndirect_Dequeue_def) (simp add: u)
  show ?p using F(1-3,5) unfolding valid63_def by (subst SPMCCompactIndirect_Dequeue.simps) (simp add: u)
qed

end

section \<open>The contract\<close>

sublocale atomix_sem < mpmccompact: bounded_queue "MPMCCompactIndirect_Enqueue A"
    "MPMCCompactIndirect_Dequeue A" "\<lambda>q. nat (MPMCCompactIndirect_Cap q)" compact_elems compact_inv 0 valid63
  unfolding MPMCCompactIndirect_Cap_def
  by unfold_locales (erule (1) compact_enq_law, erule (1) compact_Enqueue_eq, erule compact_deq_law,
      erule compact_Dequeue_eq, erule compact_elems_le)

sublocale atomix_sem < mpsccompact: bounded_queue "MPSCCompactIndirect_Enqueue A"
    MPSCCompactIndirect_Dequeue "\<lambda>q. nat (MPSCCompactIndirect_Cap q)" compact_elems compact_inv 0 valid63
  unfolding MPSCCompactIndirect_Cap_def
  by unfold_locales (erule (1) compact_enq_law, erule (1) compact_Enqueue_eq, erule compact_deq_law,
      erule compact_Dequeue_eq, erule compact_elems_le)

sublocale atomix_sem < spmccompact: bounded_queue "SPMCCompactIndirect_Enqueue A"
    "SPMCCompactIndirect_Dequeue A" "\<lambda>q. nat (SPMCCompactIndirect_Cap q)" compact_elems compact_inv 0 valid63
  unfolding SPMCCompactIndirect_Cap_def
  by unfold_locales (erule (1) compact_enq_law, erule (1) compact_Enqueue_eq, erule compact_deq_law,
      erule compact_Dequeue_eq, erule compact_elems_le)

lemma compact_Enqueue_invalid:
  assumes "\<not> valid63 x"
  shows "MPMCCompactIndirect_Enqueue A x q = panics (PanicMsg ''lfq: value exceeds 63 bits'')"
    and "MPSCCompactIndirect_Enqueue A x q = panics (PanicMsg ''lfq: value exceeds 63 bits'')"
    and "SPMCCompactIndirect_Enqueue A x q = panics (PanicMsg ''lfq: value exceeds 63 bits'')"
  using assms by (simp_all add: valid63_def MPMCCompactIndirect_Enqueue_def
      MPSCCompactIndirect_Enqueue_def SPMCCompactIndirect_Enqueue_def)

section \<open>The constructors\<close>

lemma order_loop_step: "k < 64 \<Longrightarrow> j < k \<Longrightarrow> order_loop (2 ^ k) (of_nat j) = order_loop (2 ^ k) (of_nat (Suc j))"
proof -
  assume k: "k < 64" and j: "j < k"
  have u: "unat (of_nat j :: u64) = j" using k j by (simp add: unat_of_nat_u64)
  have "(2 :: nat) ^ j < 2 ^ k" using j by simp
  then have "(2 ^ j :: u64) < 2 ^ k" using k j by (simp add: word_less_nat_alt unat_pow2)
  then show ?thesis by (subst order_loop.simps) (simp add: u push_bit_eq_mult add.commute)
qed

lemma order_loop_pow2:
  assumes "k < 64" and "j \<le> k"
  shows "order_loop (2 ^ k) (of_nat j) = ret (of_nat k)"
  using assms(2)
proof (induction "k - j" arbitrary: j)
  case 0
  then have "j = k" by simp
  moreover have "unat (of_nat k :: u64) = k" using assms(1) by (simp add: unat_of_nat_u64)
  ultimately show ?case by (subst order_loop.simps) (simp add: push_bit_eq_mult)
next
  case (Suc m)
  then have "j < k" "m = k - Suc j" by auto
  with Suc.hyps(1) [of "Suc j"] order_loop_step [OF assms(1), of j] show ?case by simp
qed

lemma NewMPMCCompactIndirect_ok:
  assumes "2 \<le> sint c" and "sint c \<le> 2 ^ 62"
  shows "\<exists>q. NewMPMCCompactIndirect c = ret q \<and> compact_inv (2 ^ 63) q \<and> compact_elems q = []
           \<and> capacity q = roundToPow2 c"
proof -
  from assms obtain k where k: "1 \<le> k" "k \<le> 62" "roundToPow2 c = 2 ^ k"
    by (rule roundToPow2_in_range) blast
  have o: "order_loop (2 ^ k) 0 = ret (of_nat k)" using order_loop_pow2 [of k 0] k(2) by simp
  have f: "fold (\<lambda>i buf. buf[i := emptyFlag OR 0]) [0..<2 ^ k] (replicate (2 ^ k) 0)
      = map (\<lambda>i. emptyFlag) [0..<2 ^ k]"
    using fold_init_replicate [of "\<lambda>_ _. emptyFlag" "2 ^ k" 0] by simp
  have "compact_slots (2 ^ k) 0 0 (\<lambda>i. map (\<lambda>i. emptyFlag) [0..<2 ^ k] ! i)"
    by (simp add: compact_slots_def empty_mark_def)
  with assms k o f pow2_le_62 [OF k(2)] show ?thesis
    by (auto simp: NewMPMCCompactIndirect_def Let_def make_slice_def compact_inv_def compact_shape_def
        compact_elems_def unat_pow2 sint_pow2)
qed

lemma NewMPMCCompactIndirect_panics:
  "sint c < 2 \<Longrightarrow> NewMPMCCompactIndirect c = panics (PanicMsg ''lfq: capacity must be >= 2'')"
  "2 ^ 62 < sint c \<Longrightarrow> NewMPMCCompactIndirect c = panics MakeSliceLenOutOfRange"
  using order_loop_pow2 [of 63 0]
  by (simp_all add: NewMPMCCompactIndirect_def roundToPow2_overflow make_slice_def sint_neg_iff)

lemma NewCompact_same:
  "NewMPSCCompactIndirect = NewMPMCCompactIndirect" "NewSPMCCompactIndirect = NewMPMCCompactIndirect"
  by (intro ext, simp add: NewMPSCCompactIndirect_def NewSPMCCompactIndirect_def NewMPMCCompactIndirect_def)+

end
