(* ===== verification/Fifo_Objects.thy ===== *)
theory Fifo_Objects
  imports SPSC Seq128_Queues Faa128_Queues Compact_Queues
begin

text \<open>
  What the twenty-two queue types have in common: each constructor yields a queue that a client
  cannot tell from the bounded FIFO of \<open>Fifo_Spec\<close>, for a number of calls that depends on how the
  type uses its 64-bit counters. One lemma per type, all by the same law of the contract.
\<close>

section \<open>Queues without read-modify-write primitives\<close>

lemma SPSC_object:
  assumes "2 \<le> sint c" and "sint c \<le> 2 ^ 62"
  shows "fifo_object (NewSPSC zero c) SPSC_Enqueue (SPSC_Dequeue zero) SPSC_Cap zero (\<lambda>_. True)
           (unat (roundToPow2 c)) (2 ^ 64 - 1)"
proof -
  from NewSPSC_ok [OF assms, of zero] obtain q where q: "NewSPSC zero c = ret q"
    "spsc_inv (2 ^ 64 - 1) q" "spsc_elems q = []" "SPSC_Cap q = sint (roundToPow2 c)"
    by auto
  show ?thesis
    by (rule spsc.new_fifo_object [OF q(1-3) refl]) (simp_all only: q(4) roundToPow2_Cap [OF assms])
qed

lemma SPSCIndirect_object:
  assumes "2 \<le> sint c" and "sint c \<le> 2 ^ 62"
  shows "fifo_object (NewSPSCIndirect c) SPSCIndirect_Enqueue SPSCIndirect_Dequeue SPSCIndirect_Cap 0 (\<lambda>_. True)
           (unat (roundToPow2 c)) (2 ^ 64 - 1)"
proof -
  from NewSPSC_ok [OF assms, of 0] obtain q where q: "NewSPSCIndirect c = ret q"
    "spsc_inv (2 ^ 64 - 1) q" "spsc_elems q = []" "SPSCIndirect_Cap q = sint (roundToPow2 c)"
    unfolding spsc_Indirect_generic(1,2) by auto
  show ?thesis
    by (rule spsc_ind.new_fifo_object [OF q(1-3) refl]) (simp_all only: q(4) roundToPow2_Cap [OF assms])
qed

lemma SPSCPtr_object:
  assumes "2 \<le> sint c" and "sint c \<le> 2 ^ 62"
  shows "fifo_object (NewSPSCPtr c) SPSCPtr_Enqueue SPSCPtr_Dequeue SPSCPtr_Cap 0 (\<lambda>_. True)
           (unat (roundToPow2 c)) (2 ^ 64 - 1)"
proof -
  from NewSPSC_ok [OF assms, of 0] obtain q where q: "NewSPSCPtr c = ret q"
    "spsc_inv (2 ^ 64 - 1) q" "spsc_elems q = []" "SPSCPtr_Cap q = sint (roundToPow2 c)"
    unfolding spsc_Ptr_Indirect spsc_Indirect_generic(1,2) by auto
  show ?thesis
    by (rule spsc_ptr.new_fifo_object [OF q(1-3) refl]) (simp_all only: q(4) roundToPow2_Cap [OF assms])
qed

context atomix_sem
begin

section \<open>Sequence-number queues\<close>

lemma MPMCSeq_object:
  assumes "2 \<le> sint c" and "sint c \<le> 2 ^ 62"
  shows "fifo_object (NewMPMCSeq zero c) (MPMCSeq_Enqueue A) (MPMCSeq_Dequeue A zero) MPMCSeq_Cap zero (\<lambda>_. True)
           (unat (roundToPow2 c)) (2 ^ 63)"
proof -
  from NewMPMCSeq_ok [OF assms, of zero] obtain q where q: "NewMPMCSeq zero c = ret q"
    "mpmcseq_inv (2 ^ 63) q" "seqq_elems q = []" "MPMCSeq.capacity q = roundToPow2 c"
    unfolding mpmcseq_inv_def seqq_inv_def by auto
  show ?thesis
    by (rule mpmcseq.new_fifo_object [OF q(1-3) refl]) (simp_all only: MPMCSeq_Cap_def q(4) roundToPow2_Cap [OF assms])
qed

lemma MPSCSeq_object:
  assumes "2 \<le> sint c" and "sint c \<le> 2 ^ 62"
  shows "fifo_object (NewMPSCSeq zero c) (MPSCSeq_Enqueue A) (MPSCSeq_Dequeue zero) MPSCSeq_Cap zero (\<lambda>_. True)
           (unat (roundToPow2 c)) (2 ^ 63)"
proof -
  from NewMPMCSeq_ok [OF assms, of zero] obtain q where q: "NewMPSCSeq zero c = ret q"
    "seqq_inv (2 ^ 63) q" "seqq_elems q = []" "MPMCSeq.capacity q = roundToPow2 c"
    unfolding NewSeq_same by auto
  show ?thesis
    by (rule mpscseq.new_fifo_object [OF q(1-3) refl]) (simp_all only: MPSCSeq_Cap_def q(4) roundToPow2_Cap [OF assms])
qed

lemma SPMCSeq_object:
  assumes "2 \<le> sint c" and "sint c \<le> 2 ^ 62"
  shows "fifo_object (NewSPMCSeq zero c) SPMCSeq_Enqueue (SPMCSeq_Dequeue A zero) SPMCSeq_Cap zero (\<lambda>_. True)
           (unat (roundToPow2 c)) (2 ^ 63)"
proof -
  from NewMPMCSeq_ok [OF assms, of zero] obtain q where q: "NewSPMCSeq zero c = ret q"
    "seqq_inv (2 ^ 63) q" "seqq_elems q = []" "MPMCSeq.capacity q = roundToPow2 c"
    unfolding NewSeq_same by auto
  show ?thesis
    by (rule spmcseq.new_fifo_object [OF q(1-3) refl]) (simp_all only: SPMCSeq_Cap_def q(4) roundToPow2_Cap [OF assms])
qed

lemma MPMCIndirectSeq_object:
  assumes "2 \<le> sint c" and "sint c \<le> 2 ^ 62"
  shows "fifo_object (NewMPMCIndirectSeq c) (MPMCIndirectSeq_Enqueue A) (MPMCIndirectSeq_Dequeue A) MPMCIndirectSeq_Cap 0 (\<lambda>_. True)
           (unat (roundToPow2 c)) (2 ^ 63)"
proof -
  from NewMPMCIndirectSeq_ok [OF assms] obtain q where q: "NewMPMCIndirectSeq c = ret q"
    "mpmcseq_inv (2 ^ 63) (seq128_abs q)" "seqq_elems (seq128_abs q) = []" "MPMCIndirectSeq.capacity q = roundToPow2 c"
    unfolding mpmcseq_inv_def seqq_inv_def by auto
  show ?thesis
    by (rule mpmcindirectseq.concrete.new_fifo_object [OF q(1-3)]) (simp_all only: MPMCSeq_Cap_def seq128_abs_simps MPMCIndirectSeq_Cap_def q(4) roundToPow2_Cap [OF assms])
qed

lemma MPMCPtrSeq_object:
  assumes "2 \<le> sint c" and "sint c \<le> 2 ^ 62"
  shows "fifo_object (NewMPMCPtrSeq c) (MPMCPtrSeq_Enqueue A) (MPMCPtrSeq_Dequeue A) MPMCPtrSeq_Cap 0 (\<lambda>_. True)
           (unat (roundToPow2 c)) (2 ^ 63)"
proof -
  from NewMPMCIndirectSeq_ok [OF assms] obtain q where q: "NewMPMCPtrSeq c = ret q"
    "mpmcseq_inv (2 ^ 63) (seq128_abs q)" "seqq_elems (seq128_abs q) = []" "MPMCIndirectSeq.capacity q = roundToPow2 c"
    unfolding New128Seq_same mpmcseq_inv_def seqq_inv_def by auto
  show ?thesis
    by (rule mpmcptrseq.concrete.new_fifo_object [OF q(1-3)]) (simp_all only: MPMCSeq_Cap_def seq128_abs_simps MPMCPtrSeq_Cap_def q(4) roundToPow2_Cap [OF assms])
qed

lemma MPSCIndirectSeq_object:
  assumes "2 \<le> sint c" and "sint c \<le> 2 ^ 62"
  shows "fifo_object (NewMPSCIndirectSeq c) (MPSCIndirectSeq_Enqueue A) MPSCIndirectSeq_Dequeue MPSCIndirectSeq_Cap 0 (\<lambda>_. True)
           (unat (roundToPow2 c)) (2 ^ 63)"
proof -
  from NewMPMCIndirectSeq_ok [OF assms] obtain q where q: "NewMPSCIndirectSeq c = ret q"
    "seqq_inv (2 ^ 63) (seq128_abs q)" "seqq_elems (seq128_abs q) = []" "MPMCIndirectSeq.capacity q = roundToPow2 c"
    unfolding New128Seq_same by auto
  show ?thesis
    by (rule mpscindirectseq.concrete.new_fifo_object [OF q(1-3)]) (simp_all only: MPSCSeq_Cap_def seq128_abs_simps MPSCIndirectSeq_Cap_def q(4) roundToPow2_Cap [OF assms])
qed

lemma MPSCPtrSeq_object:
  assumes "2 \<le> sint c" and "sint c \<le> 2 ^ 62"
  shows "fifo_object (NewMPSCPtrSeq c) (MPSCPtrSeq_Enqueue A) MPSCPtrSeq_Dequeue MPSCPtrSeq_Cap 0 (\<lambda>_. True)
           (unat (roundToPow2 c)) (2 ^ 63)"
proof -
  from NewMPMCIndirectSeq_ok [OF assms] obtain q where q: "NewMPSCPtrSeq c = ret q"
    "seqq_inv (2 ^ 63) (seq128_abs q)" "seqq_elems (seq128_abs q) = []" "MPMCIndirectSeq.capacity q = roundToPow2 c"
    unfolding New128Seq_same by auto
  show ?thesis
    by (rule mpscptrseq.concrete.new_fifo_object [OF q(1-3)]) (simp_all only: MPSCSeq_Cap_def seq128_abs_simps MPSCPtrSeq_Cap_def q(4) roundToPow2_Cap [OF assms])
qed

lemma SPMCIndirectSeq_object:
  assumes "2 \<le> sint c" and "sint c \<le> 2 ^ 62"
  shows "fifo_object (NewSPMCIndirectSeq c) SPMCIndirectSeq_Enqueue (SPMCIndirectSeq_Dequeue A) SPMCIndirectSeq_Cap 0 (\<lambda>_. True)
           (unat (roundToPow2 c)) (2 ^ 63)"
proof -
  from NewMPMCIndirectSeq_ok [OF assms] obtain q where q: "NewSPMCIndirectSeq c = ret q"
    "seqq_inv (2 ^ 63) (seq128_abs q)" "seqq_elems (seq128_abs q) = []" "MPMCIndirectSeq.capacity q = roundToPow2 c"
    unfolding New128Seq_same by auto
  show ?thesis
    by (rule spmcindirectseq.concrete.new_fifo_object [OF q(1-3)]) (simp_all only: SPMCSeq_Cap_def seq128_abs_simps SPMCIndirectSeq_Cap_def q(4) roundToPow2_Cap [OF assms])
qed

lemma SPMCPtrSeq_object:
  assumes "2 \<le> sint c" and "sint c \<le> 2 ^ 62"
  shows "fifo_object (NewSPMCPtrSeq c) SPMCPtrSeq_Enqueue (SPMCPtrSeq_Dequeue A) SPMCPtrSeq_Cap 0 (\<lambda>_. True)
           (unat (roundToPow2 c)) (2 ^ 63)"
proof -
  from NewMPMCIndirectSeq_ok [OF assms] obtain q where q: "NewSPMCPtrSeq c = ret q"
    "seqq_inv (2 ^ 63) (seq128_abs q)" "seqq_elems (seq128_abs q) = []" "MPMCIndirectSeq.capacity q = roundToPow2 c"
    unfolding New128Seq_same by auto
  show ?thesis
    by (rule spmcptrseq.concrete.new_fifo_object [OF q(1-3)]) (simp_all only: SPMCSeq_Cap_def seq128_abs_simps SPMCPtrSeq_Cap_def q(4) roundToPow2_Cap [OF assms])
qed

section \<open>FAA queues\<close>

lemma MPMC_object:
  assumes "2 \<le> sint c" and "sint c \<le> 2 ^ 61"
  shows "fifo_object (NewMPMC zero c) (MPMC_Enqueue A) (MPMC_Dequeue A zero) MPMC_Cap zero (\<lambda>_. True)
           (unat (roundToPow2 c)) (2 ^ 62)"
proof -
  have le: "sint c \<le> 2 ^ 62" using assms(2) by simp
  from NewMPMC_ok [OF assms, of zero] obtain q where q: "NewMPMC zero c = ret q"
    "mpmc_inv (2 ^ 62) q" "mpmc_elems q = []" "MPMC.capacity q = roundToPow2 c"
    by auto
  show ?thesis
    by (rule mpmc.new_fifo_object [OF q(1-3) refl]) (simp_all only: MPMC_Cap_def q(4) roundToPow2_Cap [OF assms(1) le])
qed

lemma MPSC_object:
  assumes "2 \<le> sint c" and "sint c \<le> 2 ^ 61"
  shows "fifo_object (NewMPSC zero c) (MPSC_Enqueue A) (MPSC_Dequeue zero) MPSC_Cap zero (\<lambda>_. True)
           (unat (roundToPow2 c)) (2 ^ 62)"
proof -
  have le: "sint c \<le> 2 ^ 62" using assms(2) by simp
  from NewMPSC_ok [OF assms, of zero] obtain q where q: "NewMPSC zero c = ret q"
    "mpmc_inv (2 ^ 62) (mpsc_abs q)" "mpmc_elems (mpsc_abs q) = []" "MPSC.sc_capacity q = roundToPow2 c"
    by auto
  show ?thesis
    by (rule mpsc.new_fifo_object [OF q(1-3) refl]) (simp_all only: MPSC_Cap_def q(4) roundToPow2_Cap [OF assms(1) le])
qed

lemma SPMC_object:
  assumes "2 \<le> sint c" and "sint c \<le> 2 ^ 61"
  shows "fifo_object (NewSPMC zero c) SPMC_Enqueue (SPMC_Dequeue A zero) SPMC_Cap zero (\<lambda>_. True)
           (unat (roundToPow2 c)) (2 ^ 62)"
proof -
  have le: "sint c \<le> 2 ^ 62" using assms(2) by simp
  from NewMPMC_ok [OF assms, of zero] obtain q where q: "NewSPMC zero c = ret q"
    "mpmc_inv (2 ^ 62) q" "mpmc_elems q = []" "MPMC.capacity q = roundToPow2 c"
    unfolding NewSPMC_same by auto
  show ?thesis
    by (rule spmc.new_fifo_object [OF q(1-3) refl]) (simp_all only: SPMC_Cap_def q(4) roundToPow2_Cap [OF assms(1) le])
qed

lemma MPMCIndirect_object:
  assumes "2 \<le> sint c" and "sint c \<le> 2 ^ 61"
  shows "fifo_object (NewMPMCIndirect c) (MPMCIndirect_Enqueue A) (MPMCIndirect_Dequeue A) MPMCIndirect_Cap 0 (\<lambda>_. True)
           (unat (roundToPow2 c)) (2 ^ 62)"
proof -
  have le: "sint c \<le> 2 ^ 62" using assms(2) by simp
  from NewMPMCIndirect_ok [OF assms] obtain q where q: "NewMPMCIndirect c = ret q"
    "mpmc_inv (2 ^ 62) (faa128_abs q)" "mpmc_elems (faa128_abs q) = []" "MPMCIndirect.capacity q = roundToPow2 c"
    by auto
  show ?thesis
    by (rule mpmcindirect.new_fifo_object [OF q(1-3) refl]) (simp_all only: MPMCIndirect_Cap_def q(4) roundToPow2_Cap [OF assms(1) le])
qed

lemma MPMCPtr_object:
  assumes "2 \<le> sint c" and "sint c \<le> 2 ^ 61"
  shows "fifo_object (NewMPMCPtr c) (MPMCPtr_Enqueue A) (MPMCPtr_Dequeue A) MPMCPtr_Cap 0 (\<lambda>_. True)
           (unat (roundToPow2 c)) (2 ^ 62)"
proof -
  have le: "sint c \<le> 2 ^ 62" using assms(2) by simp
  from NewMPMCIndirect_ok [OF assms] obtain q where q: "NewMPMCPtr c = ret q"
    "mpmc_inv (2 ^ 62) (faa128_abs q)" "mpmc_elems (faa128_abs q) = []" "MPMCIndirect.capacity q = roundToPow2 c"
    unfolding New128_same by auto
  show ?thesis
    by (rule mpmcptr.new_fifo_object [OF q(1-3) refl]) (simp_all only: MPMCPtr_Cap_def q(4) roundToPow2_Cap [OF assms(1) le])
qed

lemma MPSCIndirect_object:
  assumes "2 \<le> sint c" and "sint c \<le> 2 ^ 61"
  shows "fifo_object (NewMPSCIndirect c) (MPSCIndirect_Enqueue A) MPSCIndirect_Dequeue MPSCIndirect_Cap 0 (\<lambda>_. True)
           (unat (roundToPow2 c)) (2 ^ 62)"
proof -
  have le: "sint c \<le> 2 ^ 62" using assms(2) by simp
  from NewMPSCIndirect_ok [OF assms] obtain q where q: "NewMPSCIndirect c = ret q"
    "mpmc_inv (2 ^ 62) (mpsc_abs (mpsc128_abs q))" "mpmc_elems (mpsc_abs (mpsc128_abs q)) = []" "MPSCIndirect.sc_capacity q = roundToPow2 c"
    by auto
  show ?thesis
    by (rule mpscindirect.concrete.new_fifo_object [OF q(1-3)]) (simp_all only: MPSC_Cap_def mpsc128_abs_simps MPSCIndirect_Cap_def q(4) roundToPow2_Cap [OF assms(1) le])
qed

lemma MPSCPtr_object:
  assumes "2 \<le> sint c" and "sint c \<le> 2 ^ 61"
  shows "fifo_object (NewMPSCPtr c) (MPSCPtr_Enqueue A) MPSCPtr_Dequeue MPSCPtr_Cap 0 (\<lambda>_. True)
           (unat (roundToPow2 c)) (2 ^ 62)"
proof -
  have le: "sint c \<le> 2 ^ 62" using assms(2) by simp
  from NewMPSCIndirect_ok [OF assms] obtain q where q: "NewMPSCPtr c = ret q"
    "mpmc_inv (2 ^ 62) (mpsc_abs (mpsc128_abs q))" "mpmc_elems (mpsc_abs (mpsc128_abs q)) = []" "MPSCIndirect.sc_capacity q = roundToPow2 c"
    unfolding New128_same by auto
  show ?thesis
    by (rule mpscptr.concrete.new_fifo_object [OF q(1-3)]) (simp_all only: MPSC_Cap_def mpsc128_abs_simps MPSCPtr_Cap_def q(4) roundToPow2_Cap [OF assms(1) le])
qed

lemma SPMCIndirect_object:
  assumes "2 \<le> sint c" and "sint c \<le> 2 ^ 61"
  shows "fifo_object (NewSPMCIndirect c) SPMCIndirect_Enqueue (SPMCIndirect_Dequeue A) SPMCIndirect_Cap 0 (\<lambda>_. True)
           (unat (roundToPow2 c)) (2 ^ 62)"
proof -
  have le: "sint c \<le> 2 ^ 62" using assms(2) by simp
  from NewMPMCIndirect_ok [OF assms] obtain q where q: "NewSPMCIndirect c = ret q"
    "mpmc_inv (2 ^ 62) (faa128_abs q)" "mpmc_elems (faa128_abs q) = []" "MPMCIndirect.capacity q = roundToPow2 c"
    unfolding New128_same by auto
  show ?thesis
    by (rule spmcindirect.new_fifo_object [OF q(1-3) refl]) (simp_all only: SPMCIndirect_Cap_def q(4) roundToPow2_Cap [OF assms(1) le])
qed

lemma SPMCPtr_object:
  assumes "2 \<le> sint c" and "sint c \<le> 2 ^ 61"
  shows "fifo_object (NewSPMCPtr c) SPMCPtr_Enqueue (SPMCPtr_Dequeue A) SPMCPtr_Cap 0 (\<lambda>_. True)
           (unat (roundToPow2 c)) (2 ^ 62)"
proof -
  have le: "sint c \<le> 2 ^ 62" using assms(2) by simp
  from NewMPMCIndirect_ok [OF assms] obtain q where q: "NewSPMCPtr c = ret q"
    "mpmc_inv (2 ^ 62) (faa128_abs q)" "mpmc_elems (faa128_abs q) = []" "MPMCIndirect.capacity q = roundToPow2 c"
    unfolding New128_same by auto
  show ?thesis
    by (rule spmcptr.new_fifo_object [OF q(1-3) refl]) (simp_all only: SPMCPtr_Cap_def q(4) roundToPow2_Cap [OF assms(1) le])
qed

section \<open>Compact queues\<close>

lemma MPMCCompactIndirect_object:
  assumes "2 \<le> sint c" and "sint c \<le> 2 ^ 62"
  shows "fifo_object (NewMPMCCompactIndirect c) (MPMCCompactIndirect_Enqueue A) (MPMCCompactIndirect_Dequeue A) MPMCCompactIndirect_Cap 0 valid63
           (unat (roundToPow2 c)) (2 ^ 63)"
proof -
  from NewMPMCCompactIndirect_ok [OF assms] obtain q where q: "NewMPMCCompactIndirect c = ret q"
    "compact_inv (2 ^ 63) q" "compact_elems q = []" "MPMCCompactIndirect.capacity q = roundToPow2 c"
    by auto
  show ?thesis
    by (rule mpmccompact.new_fifo_object [OF q(1-3) refl]) (simp_all only: MPMCCompactIndirect_Cap_def q(4) roundToPow2_Cap [OF assms])
qed

lemma MPSCCompactIndirect_object:
  assumes "2 \<le> sint c" and "sint c \<le> 2 ^ 62"
  shows "fifo_object (NewMPSCCompactIndirect c) (MPSCCompactIndirect_Enqueue A) MPSCCompactIndirect_Dequeue MPSCCompactIndirect_Cap 0 valid63
           (unat (roundToPow2 c)) (2 ^ 63)"
proof -
  from NewMPMCCompactIndirect_ok [OF assms] obtain q where q: "NewMPSCCompactIndirect c = ret q"
    "compact_inv (2 ^ 63) q" "compact_elems q = []" "MPMCCompactIndirect.capacity q = roundToPow2 c"
    unfolding NewCompact_same by auto
  show ?thesis
    by (rule mpsccompact.new_fifo_object [OF q(1-3) refl]) (simp_all only: MPSCCompactIndirect_Cap_def q(4) roundToPow2_Cap [OF assms])
qed

lemma SPMCCompactIndirect_object:
  assumes "2 \<le> sint c" and "sint c \<le> 2 ^ 62"
  shows "fifo_object (NewSPMCCompactIndirect c) (SPMCCompactIndirect_Enqueue A) (SPMCCompactIndirect_Dequeue A) SPMCCompactIndirect_Cap 0 valid63
           (unat (roundToPow2 c)) (2 ^ 63)"
proof -
  from NewMPMCCompactIndirect_ok [OF assms] obtain q where q: "NewSPMCCompactIndirect c = ret q"
    "compact_inv (2 ^ 63) q" "compact_elems q = []" "MPMCCompactIndirect.capacity q = roundToPow2 c"
    unfolding NewCompact_same by auto
  show ?thesis
    by (rule spmccompact.new_fifo_object [OF q(1-3) refl]) (simp_all only: SPMCCompactIndirect_Cap_def q(4) roundToPow2_Cap [OF assms])
qed

section \<open>Runs from any well-formed state\<close>

lemma mpmcseq_run:
  assumes "seqq_ok q"
  shows "\<exists>q'. run_calls (MPMCSeq_Enqueue A) (MPMCSeq_Dequeue A zero) cs q
        = ret (fst (fifo_run zero (nat (MPMCSeq_Cap q)) cs (seqq_elems q)), q')
      \<and> seqq_elems q' = snd (fifo_run zero (nat (MPMCSeq_Cap q)) cs (seqq_elems q)) \<and> seqq_ok q'"
  using mpmcseq.run_refines [of cs 0 q zero] assms by (auto simp: mpmcseq_inv_def)

lemma mpmc_run:
  assumes "mpmc_inv (length cs) q"
  shows "\<exists>q'. run_calls (MPMC_Enqueue A) (MPMC_Dequeue A zero) cs q
        = ret (fst (fifo_run zero (nat (MPMC_Cap q)) cs (mpmc_elems q)), q')"
    and "\<exists>q'. run_calls SPMC_Enqueue (SPMC_Dequeue A zero) cs q
        = ret (fst (fifo_run zero (nat (MPMC_Cap q)) cs (mpmc_elems q)), q')"
  using mpmc.run_refines [of cs 0 q zero] spmc.run_refines [of cs 0 q zero] assms
  by (auto simp: SPMC_Cap_eq)

end

end
