(* ===== verification/Builder.thy ===== *)
theory Builder
  imports Fifo_Objects
begin

text \<open>
  The builder of \<open>options.go\<close> and the interfaces of \<open>types.go\<close>. An interface value is a constructor
  per concrete type that the builder can return, and a method call on it dispatches. The builder's
  methods mutate the builder they are called on and return it; here they return the updated record.
\<close>

section \<open>Options and builder\<close>

record Options =
  singleProducer :: bool
  singleConsumer :: bool
  compact :: bool
  capacity :: u64

record Builder =
  opts :: Options

definition New :: "u64 \<Rightarrow> Builder go" where
  "New cap =
     (if sint cap < 2 then panics (PanicMsg ''lfq: capacity must be >= 2'')
      else ret \<lparr>opts = \<lparr>singleProducer = False, singleConsumer = False, compact = False, capacity = cap\<rparr>\<rparr>)"

definition SingleProducer :: "Builder \<Rightarrow> Builder" where
  "SingleProducer b = b\<lparr>opts := (opts b)\<lparr>singleProducer := True\<rparr>\<rparr>"

definition SingleConsumer :: "Builder \<Rightarrow> Builder" where
  "SingleConsumer b = b\<lparr>opts := (opts b)\<lparr>singleConsumer := True\<rparr>\<rparr>"

definition Compact :: "Builder \<Rightarrow> Builder" where
  "Compact b = b\<lparr>opts := (opts b)\<lparr>compact := True\<rparr>\<rparr>"

section \<open>The queue interfaces\<close>

datatype 'a Queue =
    Q_SPSC "'a SPSC"
  | Q_SPMCSeq "'a SPMCSeq"
  | Q_SPMC "'a SPMC"
  | Q_MPSCSeq "'a MPSCSeq"
  | Q_MPSC "'a MPSC"
  | Q_MPMCSeq "'a MPMCSeq"
  | Q_MPMC "'a MPMC"

definition Queue_Enqueue :: "atomix \<Rightarrow> 'a \<Rightarrow> 'a Queue \<Rightarrow> (err option \<times> 'a Queue) go" where
  "Queue_Enqueue A elem q = (case q of
       Q_SPSC s \<Rightarrow> go_map Q_SPSC (SPSC_Enqueue elem s)
     | Q_SPMCSeq s \<Rightarrow> go_map Q_SPMCSeq (SPMCSeq_Enqueue elem s)
     | Q_SPMC s \<Rightarrow> go_map Q_SPMC (SPMC_Enqueue elem s)
     | Q_MPSCSeq s \<Rightarrow> go_map Q_MPSCSeq (MPSCSeq_Enqueue A elem s)
     | Q_MPSC s \<Rightarrow> go_map Q_MPSC (MPSC_Enqueue A elem s)
     | Q_MPMCSeq s \<Rightarrow> go_map Q_MPMCSeq (MPMCSeq_Enqueue A elem s)
     | Q_MPMC s \<Rightarrow> go_map Q_MPMC (MPMC_Enqueue A elem s))"

definition Queue_Dequeue :: "atomix \<Rightarrow> 'a \<Rightarrow> 'a Queue \<Rightarrow> (('a \<times> err option) \<times> 'a Queue) go" where
  "Queue_Dequeue A zero q = (case q of
       Q_SPSC s \<Rightarrow> go_map Q_SPSC (SPSC_Dequeue zero s)
     | Q_SPMCSeq s \<Rightarrow> go_map Q_SPMCSeq (SPMCSeq_Dequeue A zero s)
     | Q_SPMC s \<Rightarrow> go_map Q_SPMC (SPMC_Dequeue A zero s)
     | Q_MPSCSeq s \<Rightarrow> go_map Q_MPSCSeq (MPSCSeq_Dequeue zero s)
     | Q_MPSC s \<Rightarrow> go_map Q_MPSC (MPSC_Dequeue zero s)
     | Q_MPMCSeq s \<Rightarrow> go_map Q_MPMCSeq (MPMCSeq_Dequeue A zero s)
     | Q_MPMC s \<Rightarrow> go_map Q_MPMC (MPMC_Dequeue A zero s))"

definition Queue_Cap :: "'a Queue \<Rightarrow> int" where
  "Queue_Cap q = (case q of
       Q_SPSC s \<Rightarrow> SPSC_Cap s
     | Q_SPMCSeq s \<Rightarrow> SPMCSeq_Cap s
     | Q_SPMC s \<Rightarrow> SPMC_Cap s
     | Q_MPSCSeq s \<Rightarrow> MPSCSeq_Cap s
     | Q_MPSC s \<Rightarrow> MPSC_Cap s
     | Q_MPMCSeq s \<Rightarrow> MPMCSeq_Cap s
     | Q_MPMC s \<Rightarrow> MPMC_Cap s)"

datatype QueueIndirect =
    QI_SPSCIndirect "SPSCIndirect"
  | QI_SPMCCompactIndirect "SPMCCompactIndirect"
  | QI_MPSCCompactIndirect "MPSCCompactIndirect"
  | QI_MPMCCompactIndirect "MPMCCompactIndirect"
  | QI_SPMCIndirect "SPMCIndirect"
  | QI_MPSCIndirect "MPSCIndirect"
  | QI_MPMCIndirect "MPMCIndirect"

definition QueueIndirect_Enqueue :: "atomix \<Rightarrow> u64 \<Rightarrow> QueueIndirect \<Rightarrow> (err option \<times> QueueIndirect) go" where
  "QueueIndirect_Enqueue A elem q = (case q of
       QI_SPSCIndirect s \<Rightarrow> go_map QI_SPSCIndirect (SPSCIndirect_Enqueue elem s)
     | QI_SPMCCompactIndirect s \<Rightarrow> go_map QI_SPMCCompactIndirect (SPMCCompactIndirect_Enqueue A elem s)
     | QI_MPSCCompactIndirect s \<Rightarrow> go_map QI_MPSCCompactIndirect (MPSCCompactIndirect_Enqueue A elem s)
     | QI_MPMCCompactIndirect s \<Rightarrow> go_map QI_MPMCCompactIndirect (MPMCCompactIndirect_Enqueue A elem s)
     | QI_SPMCIndirect s \<Rightarrow> go_map QI_SPMCIndirect (SPMCIndirect_Enqueue elem s)
     | QI_MPSCIndirect s \<Rightarrow> go_map QI_MPSCIndirect (MPSCIndirect_Enqueue A elem s)
     | QI_MPMCIndirect s \<Rightarrow> go_map QI_MPMCIndirect (MPMCIndirect_Enqueue A elem s))"

definition QueueIndirect_Dequeue :: "atomix \<Rightarrow> QueueIndirect \<Rightarrow> ((u64 \<times> err option) \<times> QueueIndirect) go" where
  "QueueIndirect_Dequeue A q = (case q of
       QI_SPSCIndirect s \<Rightarrow> go_map QI_SPSCIndirect (SPSCIndirect_Dequeue s)
     | QI_SPMCCompactIndirect s \<Rightarrow> go_map QI_SPMCCompactIndirect (SPMCCompactIndirect_Dequeue A s)
     | QI_MPSCCompactIndirect s \<Rightarrow> go_map QI_MPSCCompactIndirect (MPSCCompactIndirect_Dequeue s)
     | QI_MPMCCompactIndirect s \<Rightarrow> go_map QI_MPMCCompactIndirect (MPMCCompactIndirect_Dequeue A s)
     | QI_SPMCIndirect s \<Rightarrow> go_map QI_SPMCIndirect (SPMCIndirect_Dequeue A s)
     | QI_MPSCIndirect s \<Rightarrow> go_map QI_MPSCIndirect (MPSCIndirect_Dequeue s)
     | QI_MPMCIndirect s \<Rightarrow> go_map QI_MPMCIndirect (MPMCIndirect_Dequeue A s))"

definition QueueIndirect_Cap :: "QueueIndirect \<Rightarrow> int" where
  "QueueIndirect_Cap q = (case q of
       QI_SPSCIndirect s \<Rightarrow> SPSCIndirect_Cap s
     | QI_SPMCCompactIndirect s \<Rightarrow> SPMCCompactIndirect_Cap s
     | QI_MPSCCompactIndirect s \<Rightarrow> MPSCCompactIndirect_Cap s
     | QI_MPMCCompactIndirect s \<Rightarrow> MPMCCompactIndirect_Cap s
     | QI_SPMCIndirect s \<Rightarrow> SPMCIndirect_Cap s
     | QI_MPSCIndirect s \<Rightarrow> MPSCIndirect_Cap s
     | QI_MPMCIndirect s \<Rightarrow> MPMCIndirect_Cap s)"

datatype QueuePtr =
    QP_SPSCPtr "SPSCPtr"
  | QP_SPMCPtrSeq "SPMCPtrSeq"
  | QP_SPMCPtr "SPMCPtr"
  | QP_MPSCPtrSeq "MPSCPtrSeq"
  | QP_MPSCPtr "MPSCPtr"
  | QP_MPMCPtrSeq "MPMCPtrSeq"
  | QP_MPMCPtr "MPMCPtr"

definition QueuePtr_Enqueue :: "atomix \<Rightarrow> u64 \<Rightarrow> QueuePtr \<Rightarrow> (err option \<times> QueuePtr) go" where
  "QueuePtr_Enqueue A elem q = (case q of
       QP_SPSCPtr s \<Rightarrow> go_map QP_SPSCPtr (SPSCPtr_Enqueue elem s)
     | QP_SPMCPtrSeq s \<Rightarrow> go_map QP_SPMCPtrSeq (SPMCPtrSeq_Enqueue elem s)
     | QP_SPMCPtr s \<Rightarrow> go_map QP_SPMCPtr (SPMCPtr_Enqueue elem s)
     | QP_MPSCPtrSeq s \<Rightarrow> go_map QP_MPSCPtrSeq (MPSCPtrSeq_Enqueue A elem s)
     | QP_MPSCPtr s \<Rightarrow> go_map QP_MPSCPtr (MPSCPtr_Enqueue A elem s)
     | QP_MPMCPtrSeq s \<Rightarrow> go_map QP_MPMCPtrSeq (MPMCPtrSeq_Enqueue A elem s)
     | QP_MPMCPtr s \<Rightarrow> go_map QP_MPMCPtr (MPMCPtr_Enqueue A elem s))"

definition QueuePtr_Dequeue :: "atomix \<Rightarrow> QueuePtr \<Rightarrow> ((u64 \<times> err option) \<times> QueuePtr) go" where
  "QueuePtr_Dequeue A q = (case q of
       QP_SPSCPtr s \<Rightarrow> go_map QP_SPSCPtr (SPSCPtr_Dequeue s)
     | QP_SPMCPtrSeq s \<Rightarrow> go_map QP_SPMCPtrSeq (SPMCPtrSeq_Dequeue A s)
     | QP_SPMCPtr s \<Rightarrow> go_map QP_SPMCPtr (SPMCPtr_Dequeue A s)
     | QP_MPSCPtrSeq s \<Rightarrow> go_map QP_MPSCPtrSeq (MPSCPtrSeq_Dequeue s)
     | QP_MPSCPtr s \<Rightarrow> go_map QP_MPSCPtr (MPSCPtr_Dequeue s)
     | QP_MPMCPtrSeq s \<Rightarrow> go_map QP_MPMCPtrSeq (MPMCPtrSeq_Dequeue A s)
     | QP_MPMCPtr s \<Rightarrow> go_map QP_MPMCPtr (MPMCPtr_Dequeue A s))"

definition QueuePtr_Cap :: "QueuePtr \<Rightarrow> int" where
  "QueuePtr_Cap q = (case q of
       QP_SPSCPtr s \<Rightarrow> SPSCPtr_Cap s
     | QP_SPMCPtrSeq s \<Rightarrow> SPMCPtrSeq_Cap s
     | QP_SPMCPtr s \<Rightarrow> SPMCPtr_Cap s
     | QP_MPSCPtrSeq s \<Rightarrow> MPSCPtrSeq_Cap s
     | QP_MPSCPtr s \<Rightarrow> MPSCPtr_Cap s
     | QP_MPMCPtrSeq s \<Rightarrow> MPMCPtrSeq_Cap s
     | QP_MPMCPtr s \<Rightarrow> MPMCPtr_Cap s)"

section \<open>Building generic queues\<close>

definition Build :: "'a \<Rightarrow> Builder \<Rightarrow> 'a Queue go" where
  "Build zero b =
     (if singleProducer (opts b) \<and> singleConsumer (opts b)
        then go_bind (NewSPSC zero (capacity (opts b))) (\<lambda>q. ret (Q_SPSC q))
      else if singleProducer (opts b) \<and> compact (opts b)
        then go_bind (NewSPMCSeq zero (capacity (opts b))) (\<lambda>q. ret (Q_SPMCSeq q))
      else if singleProducer (opts b)
        then go_bind (NewSPMC zero (capacity (opts b))) (\<lambda>q. ret (Q_SPMC q))
      else if singleConsumer (opts b) \<and> compact (opts b)
        then go_bind (NewMPSCSeq zero (capacity (opts b))) (\<lambda>q. ret (Q_MPSCSeq q))
      else if singleConsumer (opts b)
        then go_bind (NewMPSC zero (capacity (opts b))) (\<lambda>q. ret (Q_MPSC q))
      else if compact (opts b)
        then go_bind (NewMPMCSeq zero (capacity (opts b))) (\<lambda>q. ret (Q_MPMCSeq q))
      else go_bind (NewMPMC zero (capacity (opts b))) (\<lambda>q. ret (Q_MPMC q)))"

definition BuildSPSC :: "'a \<Rightarrow> Builder \<Rightarrow> 'a SPSC go" where
  "BuildSPSC zero b =
     (if \<not> singleProducer (opts b) \<or> \<not> singleConsumer (opts b)
        then panics (PanicMsg ''lfq: BuildSPSC requires SingleProducer().SingleConsumer()'')
      else NewSPSC zero (capacity (opts b)))"

definition BuildMPSC :: "'a \<Rightarrow> Builder \<Rightarrow> 'a Queue go" where
  "BuildMPSC zero b =
     (if singleProducer (opts b) \<or> \<not> singleConsumer (opts b)
        then panics (PanicMsg ''lfq: BuildMPSC requires SingleConsumer() without SingleProducer()'')
      else if compact (opts b) then go_bind (NewMPSCSeq zero (capacity (opts b))) (\<lambda>q. ret (Q_MPSCSeq q))
      else go_bind (NewMPSC zero (capacity (opts b))) (\<lambda>q. ret (Q_MPSC q)))"

definition BuildSPMC :: "'a \<Rightarrow> Builder \<Rightarrow> 'a Queue go" where
  "BuildSPMC zero b =
     (if \<not> singleProducer (opts b) \<or> singleConsumer (opts b)
        then panics (PanicMsg ''lfq: BuildSPMC requires SingleProducer() without SingleConsumer()'')
      else if compact (opts b) then go_bind (NewSPMCSeq zero (capacity (opts b))) (\<lambda>q. ret (Q_SPMCSeq q))
      else go_bind (NewSPMC zero (capacity (opts b))) (\<lambda>q. ret (Q_SPMC q)))"

definition BuildMPMC :: "'a \<Rightarrow> Builder \<Rightarrow> 'a Queue go" where
  "BuildMPMC zero b =
     (if singleProducer (opts b) \<or> singleConsumer (opts b)
        then panics (PanicMsg ''lfq: BuildMPMC requires no constraints'')
      else if compact (opts b) then go_bind (NewMPMCSeq zero (capacity (opts b))) (\<lambda>q. ret (Q_MPMCSeq q))
      else go_bind (NewMPMC zero (capacity (opts b))) (\<lambda>q. ret (Q_MPMC q)))"

section \<open>Building queues for words\<close>

definition BuildIndirect :: "Builder \<Rightarrow> QueueIndirect go" where
  "BuildIndirect b =
     (if singleProducer (opts b) \<and> singleConsumer (opts b)
        then go_bind (NewSPSCIndirect (capacity (opts b))) (\<lambda>q. ret (QI_SPSCIndirect q))
      else if compact (opts b) \<and> singleProducer (opts b)
        then go_bind (NewSPMCCompactIndirect (capacity (opts b))) (\<lambda>q. ret (QI_SPMCCompactIndirect q))
      else if compact (opts b) \<and> singleConsumer (opts b)
        then go_bind (NewMPSCCompactIndirect (capacity (opts b))) (\<lambda>q. ret (QI_MPSCCompactIndirect q))
      else if compact (opts b)
        then go_bind (NewMPMCCompactIndirect (capacity (opts b))) (\<lambda>q. ret (QI_MPMCCompactIndirect q))
      else if singleProducer (opts b)
        then go_bind (NewSPMCIndirect (capacity (opts b))) (\<lambda>q. ret (QI_SPMCIndirect q))
      else if singleConsumer (opts b)
        then go_bind (NewMPSCIndirect (capacity (opts b))) (\<lambda>q. ret (QI_MPSCIndirect q))
      else go_bind (NewMPMCIndirect (capacity (opts b))) (\<lambda>q. ret (QI_MPMCIndirect q)))"

definition BuildIndirectSPSC :: "Builder \<Rightarrow> SPSCIndirect go" where
  "BuildIndirectSPSC b =
     (if \<not> singleProducer (opts b) \<or> \<not> singleConsumer (opts b)
        then panics (PanicMsg ''lfq: BuildIndirectSPSC requires SingleProducer().SingleConsumer()'')
      else NewSPSCIndirect (capacity (opts b)))"

definition BuildIndirectMPSC :: "Builder \<Rightarrow> QueueIndirect go" where
  "BuildIndirectMPSC b =
     (if singleProducer (opts b) \<or> \<not> singleConsumer (opts b)
        then panics (PanicMsg ''lfq: BuildIndirectMPSC requires SingleConsumer() without SingleProducer()'')
      else if compact (opts b) then go_bind (NewMPSCCompactIndirect (capacity (opts b))) (\<lambda>q. ret (QI_MPSCCompactIndirect q))
      else go_bind (NewMPSCIndirect (capacity (opts b))) (\<lambda>q. ret (QI_MPSCIndirect q)))"

definition BuildIndirectSPMC :: "Builder \<Rightarrow> QueueIndirect go" where
  "BuildIndirectSPMC b =
     (if \<not> singleProducer (opts b) \<or> singleConsumer (opts b)
        then panics (PanicMsg ''lfq: BuildIndirectSPMC requires SingleProducer() without SingleConsumer()'')
      else if compact (opts b) then go_bind (NewSPMCCompactIndirect (capacity (opts b))) (\<lambda>q. ret (QI_SPMCCompactIndirect q))
      else go_bind (NewSPMCIndirect (capacity (opts b))) (\<lambda>q. ret (QI_SPMCIndirect q)))"

definition BuildIndirectMPMC :: "Builder \<Rightarrow> QueueIndirect go" where
  "BuildIndirectMPMC b =
     (if singleProducer (opts b) \<or> singleConsumer (opts b)
        then panics (PanicMsg ''lfq: BuildIndirectMPMC requires no constraints'')
      else if compact (opts b) then go_bind (NewMPMCCompactIndirect (capacity (opts b))) (\<lambda>q. ret (QI_MPMCCompactIndirect q))
      else go_bind (NewMPMCIndirect (capacity (opts b))) (\<lambda>q. ret (QI_MPMCIndirect q)))"

section \<open>Building queues for pointers\<close>

definition BuildPtr :: "Builder \<Rightarrow> QueuePtr go" where
  "BuildPtr b =
     (if singleProducer (opts b) \<and> singleConsumer (opts b)
        then go_bind (NewSPSCPtr (capacity (opts b))) (\<lambda>q. ret (QP_SPSCPtr q))
      else if singleProducer (opts b) \<and> compact (opts b)
        then go_bind (NewSPMCPtrSeq (capacity (opts b))) (\<lambda>q. ret (QP_SPMCPtrSeq q))
      else if singleProducer (opts b)
        then go_bind (NewSPMCPtr (capacity (opts b))) (\<lambda>q. ret (QP_SPMCPtr q))
      else if singleConsumer (opts b) \<and> compact (opts b)
        then go_bind (NewMPSCPtrSeq (capacity (opts b))) (\<lambda>q. ret (QP_MPSCPtrSeq q))
      else if singleConsumer (opts b)
        then go_bind (NewMPSCPtr (capacity (opts b))) (\<lambda>q. ret (QP_MPSCPtr q))
      else if compact (opts b)
        then go_bind (NewMPMCPtrSeq (capacity (opts b))) (\<lambda>q. ret (QP_MPMCPtrSeq q))
      else go_bind (NewMPMCPtr (capacity (opts b))) (\<lambda>q. ret (QP_MPMCPtr q)))"

definition BuildPtrSPSC :: "Builder \<Rightarrow> SPSCPtr go" where
  "BuildPtrSPSC b =
     (if \<not> singleProducer (opts b) \<or> \<not> singleConsumer (opts b)
        then panics (PanicMsg ''lfq: BuildPtrSPSC requires SingleProducer().SingleConsumer()'')
      else NewSPSCPtr (capacity (opts b)))"

definition BuildPtrMPSC :: "Builder \<Rightarrow> QueuePtr go" where
  "BuildPtrMPSC b =
     (if singleProducer (opts b) \<or> \<not> singleConsumer (opts b)
        then panics (PanicMsg ''lfq: BuildPtrMPSC requires SingleConsumer() without SingleProducer()'')
      else if compact (opts b) then go_bind (NewMPSCPtrSeq (capacity (opts b))) (\<lambda>q. ret (QP_MPSCPtrSeq q))
      else go_bind (NewMPSCPtr (capacity (opts b))) (\<lambda>q. ret (QP_MPSCPtr q)))"

definition BuildPtrSPMC :: "Builder \<Rightarrow> QueuePtr go" where
  "BuildPtrSPMC b =
     (if \<not> singleProducer (opts b) \<or> singleConsumer (opts b)
        then panics (PanicMsg ''lfq: BuildPtrSPMC requires SingleProducer() without SingleConsumer()'')
      else if compact (opts b) then go_bind (NewSPMCPtrSeq (capacity (opts b))) (\<lambda>q. ret (QP_SPMCPtrSeq q))
      else go_bind (NewSPMCPtr (capacity (opts b))) (\<lambda>q. ret (QP_SPMCPtr q)))"

definition BuildPtrMPMC :: "Builder \<Rightarrow> QueuePtr go" where
  "BuildPtrMPMC b =
     (if singleProducer (opts b) \<or> singleConsumer (opts b)
        then panics (PanicMsg ''lfq: BuildPtrMPMC requires no constraints'')
      else if compact (opts b) then go_bind (NewMPMCPtrSeq (capacity (opts b))) (\<lambda>q. ret (QP_MPMCPtrSeq q))
      else go_bind (NewMPMCPtr (capacity (opts b))) (\<lambda>q. ret (QP_MPMCPtr q)))"

section \<open>Properties of the builder\<close>

text \<open>The setters commute and touch one option each.\<close>

definition configure :: "bool \<Rightarrow> bool \<Rightarrow> bool \<Rightarrow> Builder \<Rightarrow> Builder" where
  "configure p s k b = (let b = (if p then SingleProducer b else b); b = (if s then SingleConsumer b else b)
     in if k then Compact b else b)"

lemma setters_commute:
  "SingleProducer (SingleConsumer b) = SingleConsumer (SingleProducer b)"
  "SingleProducer (Compact b) = Compact (SingleProducer b)"
  "SingleConsumer (Compact b) = Compact (SingleConsumer b)"
  by (simp_all add: SingleProducer_def SingleConsumer_def Compact_def)

lemma opts_configure:
  "opts (configure p s k \<lparr>opts = \<lparr>singleProducer = False, singleConsumer = False, compact = False, capacity = c\<rparr>\<rparr>)
     = \<lparr>singleProducer = p, singleConsumer = s, compact = k, capacity = c\<rparr>"
  by (simp add: configure_def SingleProducer_def SingleConsumer_def Compact_def Let_def)

lemma New_configure:
  assumes "2 \<le> sint c"
  obtains b where "go_bind (New c) (\<lambda>b. build (configure p s k b)) = build b"
    and "opts b = \<lparr>singleProducer = p, singleConsumer = s, compact = k, capacity = c\<rparr>"
proof
  show "go_bind (New c) (\<lambda>b. build (configure p s k b)) = build (configure p s k
      \<lparr>opts = \<lparr>singleProducer = False, singleConsumer = False, compact = False, capacity = c\<rparr>\<rparr>)"
    using assms by (simp add: New_def)
qed (rule opts_configure)

text \<open>The typed builders: the automatic choice where the options fit, a panic where they do not.\<close>

lemma typed_builders:
  "BuildMPSC zero b = (if \<not> singleProducer (opts b) \<and> singleConsumer (opts b) then Build zero b
     else panics (PanicMsg ''lfq: BuildMPSC requires SingleConsumer() without SingleProducer()''))"
  "BuildSPMC zero b = (if singleProducer (opts b) \<and> \<not> singleConsumer (opts b) then Build zero b
     else panics (PanicMsg ''lfq: BuildSPMC requires SingleProducer() without SingleConsumer()''))"
  "BuildMPMC zero b = (if \<not> singleProducer (opts b) \<and> \<not> singleConsumer (opts b) then Build zero b
     else panics (PanicMsg ''lfq: BuildMPMC requires no constraints''))"
  by (auto simp: BuildMPSC_def BuildSPMC_def BuildMPMC_def Build_def)

context atomix_sem
begin

lemma Q_SPSC_object:
  assumes "2 \<le> sint c" and "sint c \<le> 2 ^ 62"
  shows "fifo_object (go_bind (NewSPSC zero c) (\<lambda>q. ret (Q_SPSC q))) (Queue_Enqueue A) (Queue_Dequeue A zero) Queue_Cap zero (\<lambda>_. True)
           (unat (roundToPow2 c)) (2 ^ 62)"
  by (rule fifo_object_lift [OF SPSC_object [OF assms]]) (simp_all add: Queue_Enqueue_def Queue_Dequeue_def Queue_Cap_def)

lemma Q_SPMCSeq_object:
  assumes "2 \<le> sint c" and "sint c \<le> 2 ^ 62"
  shows "fifo_object (go_bind (NewSPMCSeq zero c) (\<lambda>q. ret (Q_SPMCSeq q))) (Queue_Enqueue A) (Queue_Dequeue A zero) Queue_Cap zero (\<lambda>_. True)
           (unat (roundToPow2 c)) (2 ^ 62)"
  by (rule fifo_object_lift [OF SPMCSeq_object [OF assms]]) (simp_all add: Queue_Enqueue_def Queue_Dequeue_def Queue_Cap_def)

lemma Q_SPMC_object:
  assumes "2 \<le> sint c" and "sint c \<le> 2 ^ 61"
  shows "fifo_object (go_bind (NewSPMC zero c) (\<lambda>q. ret (Q_SPMC q))) (Queue_Enqueue A) (Queue_Dequeue A zero) Queue_Cap zero (\<lambda>_. True)
           (unat (roundToPow2 c)) (2 ^ 62)"
  by (rule fifo_object_lift [OF SPMC_object [OF assms]]) (simp_all add: Queue_Enqueue_def Queue_Dequeue_def Queue_Cap_def)

lemma Q_MPSCSeq_object:
  assumes "2 \<le> sint c" and "sint c \<le> 2 ^ 62"
  shows "fifo_object (go_bind (NewMPSCSeq zero c) (\<lambda>q. ret (Q_MPSCSeq q))) (Queue_Enqueue A) (Queue_Dequeue A zero) Queue_Cap zero (\<lambda>_. True)
           (unat (roundToPow2 c)) (2 ^ 62)"
  by (rule fifo_object_lift [OF MPSCSeq_object [OF assms]]) (simp_all add: Queue_Enqueue_def Queue_Dequeue_def Queue_Cap_def)

lemma Q_MPSC_object:
  assumes "2 \<le> sint c" and "sint c \<le> 2 ^ 61"
  shows "fifo_object (go_bind (NewMPSC zero c) (\<lambda>q. ret (Q_MPSC q))) (Queue_Enqueue A) (Queue_Dequeue A zero) Queue_Cap zero (\<lambda>_. True)
           (unat (roundToPow2 c)) (2 ^ 62)"
  by (rule fifo_object_lift [OF MPSC_object [OF assms]]) (simp_all add: Queue_Enqueue_def Queue_Dequeue_def Queue_Cap_def)

lemma Q_MPMCSeq_object:
  assumes "2 \<le> sint c" and "sint c \<le> 2 ^ 62"
  shows "fifo_object (go_bind (NewMPMCSeq zero c) (\<lambda>q. ret (Q_MPMCSeq q))) (Queue_Enqueue A) (Queue_Dequeue A zero) Queue_Cap zero (\<lambda>_. True)
           (unat (roundToPow2 c)) (2 ^ 62)"
  by (rule fifo_object_lift [OF MPMCSeq_object [OF assms]]) (simp_all add: Queue_Enqueue_def Queue_Dequeue_def Queue_Cap_def)

lemma Q_MPMC_object:
  assumes "2 \<le> sint c" and "sint c \<le> 2 ^ 61"
  shows "fifo_object (go_bind (NewMPMC zero c) (\<lambda>q. ret (Q_MPMC q))) (Queue_Enqueue A) (Queue_Dequeue A zero) Queue_Cap zero (\<lambda>_. True)
           (unat (roundToPow2 c)) (2 ^ 62)"
  by (rule fifo_object_lift [OF MPMC_object [OF assms]]) (simp_all add: Queue_Enqueue_def Queue_Dequeue_def Queue_Cap_def)

lemma Build_object:
  assumes "2 \<le> sint (capacity (opts b))" and "sint (capacity (opts b)) \<le> 2 ^ 61"
  shows "fifo_object (Build zero b) (Queue_Enqueue A) (Queue_Dequeue A zero) Queue_Cap zero
           (\<lambda>_. True) (unat (roundToPow2 (capacity (opts b)))) (2 ^ 62)"
proof -
  have le: "sint (capacity (opts b)) \<le> 2 ^ 62" using assms(2) by simp
  show ?thesis
    using Q_SPSC_object [OF assms(1) le, where zero = zero]
      Q_SPMCSeq_object [OF assms(1) le, where zero = zero]
      Q_SPMC_object [OF assms(1) assms(2), where zero = zero]
      Q_MPSCSeq_object [OF assms(1) le, where zero = zero]
      Q_MPSC_object [OF assms(1) assms(2), where zero = zero]
      Q_MPMCSeq_object [OF assms(1) le, where zero = zero]
      Q_MPMC_object [OF assms(1) assms(2), where zero = zero]
    by (simp add: Build_def)
qed

lemma QI_SPSCIndirect_object:
  assumes "2 \<le> sint c" and "sint c \<le> 2 ^ 62"
  shows "fifo_object (go_bind (NewSPSCIndirect c) (\<lambda>q. ret (QI_SPSCIndirect q))) (QueueIndirect_Enqueue A) (QueueIndirect_Dequeue A) QueueIndirect_Cap 0 (\<lambda>_. True)
           (unat (roundToPow2 c)) (2 ^ 62)"
  by (rule fifo_object_lift [OF SPSCIndirect_object [OF assms]]) (simp_all add: QueueIndirect_Enqueue_def QueueIndirect_Dequeue_def QueueIndirect_Cap_def)

lemma QI_SPMCCompactIndirect_object:
  assumes "2 \<le> sint c" and "sint c \<le> 2 ^ 62"
  shows "fifo_object (go_bind (NewSPMCCompactIndirect c) (\<lambda>q. ret (QI_SPMCCompactIndirect q))) (QueueIndirect_Enqueue A) (QueueIndirect_Dequeue A) QueueIndirect_Cap 0 valid63
           (unat (roundToPow2 c)) (2 ^ 62)"
  by (rule fifo_object_lift [OF SPMCCompactIndirect_object [OF assms]]) (simp_all add: QueueIndirect_Enqueue_def QueueIndirect_Dequeue_def QueueIndirect_Cap_def)

lemma QI_MPSCCompactIndirect_object:
  assumes "2 \<le> sint c" and "sint c \<le> 2 ^ 62"
  shows "fifo_object (go_bind (NewMPSCCompactIndirect c) (\<lambda>q. ret (QI_MPSCCompactIndirect q))) (QueueIndirect_Enqueue A) (QueueIndirect_Dequeue A) QueueIndirect_Cap 0 valid63
           (unat (roundToPow2 c)) (2 ^ 62)"
  by (rule fifo_object_lift [OF MPSCCompactIndirect_object [OF assms]]) (simp_all add: QueueIndirect_Enqueue_def QueueIndirect_Dequeue_def QueueIndirect_Cap_def)

lemma QI_MPMCCompactIndirect_object:
  assumes "2 \<le> sint c" and "sint c \<le> 2 ^ 62"
  shows "fifo_object (go_bind (NewMPMCCompactIndirect c) (\<lambda>q. ret (QI_MPMCCompactIndirect q))) (QueueIndirect_Enqueue A) (QueueIndirect_Dequeue A) QueueIndirect_Cap 0 valid63
           (unat (roundToPow2 c)) (2 ^ 62)"
  by (rule fifo_object_lift [OF MPMCCompactIndirect_object [OF assms]]) (simp_all add: QueueIndirect_Enqueue_def QueueIndirect_Dequeue_def QueueIndirect_Cap_def)

lemma QI_SPMCIndirect_object:
  assumes "2 \<le> sint c" and "sint c \<le> 2 ^ 61"
  shows "fifo_object (go_bind (NewSPMCIndirect c) (\<lambda>q. ret (QI_SPMCIndirect q))) (QueueIndirect_Enqueue A) (QueueIndirect_Dequeue A) QueueIndirect_Cap 0 (\<lambda>_. True)
           (unat (roundToPow2 c)) (2 ^ 62)"
  by (rule fifo_object_lift [OF SPMCIndirect_object [OF assms]]) (simp_all add: QueueIndirect_Enqueue_def QueueIndirect_Dequeue_def QueueIndirect_Cap_def)

lemma QI_MPSCIndirect_object:
  assumes "2 \<le> sint c" and "sint c \<le> 2 ^ 61"
  shows "fifo_object (go_bind (NewMPSCIndirect c) (\<lambda>q. ret (QI_MPSCIndirect q))) (QueueIndirect_Enqueue A) (QueueIndirect_Dequeue A) QueueIndirect_Cap 0 (\<lambda>_. True)
           (unat (roundToPow2 c)) (2 ^ 62)"
  by (rule fifo_object_lift [OF MPSCIndirect_object [OF assms]]) (simp_all add: QueueIndirect_Enqueue_def QueueIndirect_Dequeue_def QueueIndirect_Cap_def)

lemma QI_MPMCIndirect_object:
  assumes "2 \<le> sint c" and "sint c \<le> 2 ^ 61"
  shows "fifo_object (go_bind (NewMPMCIndirect c) (\<lambda>q. ret (QI_MPMCIndirect q))) (QueueIndirect_Enqueue A) (QueueIndirect_Dequeue A) QueueIndirect_Cap 0 (\<lambda>_. True)
           (unat (roundToPow2 c)) (2 ^ 62)"
  by (rule fifo_object_lift [OF MPMCIndirect_object [OF assms]]) (simp_all add: QueueIndirect_Enqueue_def QueueIndirect_Dequeue_def QueueIndirect_Cap_def)

lemma BuildIndirect_object:
  assumes "2 \<le> sint (capacity (opts b))" and "sint (capacity (opts b)) \<le> 2 ^ 61"
  shows "fifo_object (BuildIndirect b) (QueueIndirect_Enqueue A) (QueueIndirect_Dequeue A) QueueIndirect_Cap 0
           (\<lambda>x. compact (opts b) \<and> \<not> (singleProducer (opts b) \<and> singleConsumer (opts b)) \<longrightarrow> valid63 x) (unat (roundToPow2 (capacity (opts b)))) (2 ^ 62)"
proof -
  have le: "sint (capacity (opts b)) \<le> 2 ^ 62" using assms(2) by simp
  show ?thesis
    using QI_SPSCIndirect_object [OF assms(1) le]
      QI_SPMCCompactIndirect_object [OF assms(1) le]
      QI_MPSCCompactIndirect_object [OF assms(1) le]
      QI_MPMCCompactIndirect_object [OF assms(1) le]
      QI_SPMCIndirect_object [OF assms(1) assms(2)]
      QI_MPSCIndirect_object [OF assms(1) assms(2)]
      QI_MPMCIndirect_object [OF assms(1) assms(2)]
    by (simp add: BuildIndirect_def)
qed

lemma QP_SPSCPtr_object:
  assumes "2 \<le> sint c" and "sint c \<le> 2 ^ 62"
  shows "fifo_object (go_bind (NewSPSCPtr c) (\<lambda>q. ret (QP_SPSCPtr q))) (QueuePtr_Enqueue A) (QueuePtr_Dequeue A) QueuePtr_Cap 0 (\<lambda>_. True)
           (unat (roundToPow2 c)) (2 ^ 62)"
  by (rule fifo_object_lift [OF SPSCPtr_object [OF assms]]) (simp_all add: QueuePtr_Enqueue_def QueuePtr_Dequeue_def QueuePtr_Cap_def)

lemma QP_SPMCPtrSeq_object:
  assumes "2 \<le> sint c" and "sint c \<le> 2 ^ 62"
  shows "fifo_object (go_bind (NewSPMCPtrSeq c) (\<lambda>q. ret (QP_SPMCPtrSeq q))) (QueuePtr_Enqueue A) (QueuePtr_Dequeue A) QueuePtr_Cap 0 (\<lambda>_. True)
           (unat (roundToPow2 c)) (2 ^ 62)"
  by (rule fifo_object_lift [OF SPMCPtrSeq_object [OF assms]]) (simp_all add: QueuePtr_Enqueue_def QueuePtr_Dequeue_def QueuePtr_Cap_def)

lemma QP_SPMCPtr_object:
  assumes "2 \<le> sint c" and "sint c \<le> 2 ^ 61"
  shows "fifo_object (go_bind (NewSPMCPtr c) (\<lambda>q. ret (QP_SPMCPtr q))) (QueuePtr_Enqueue A) (QueuePtr_Dequeue A) QueuePtr_Cap 0 (\<lambda>_. True)
           (unat (roundToPow2 c)) (2 ^ 62)"
  by (rule fifo_object_lift [OF SPMCPtr_object [OF assms]]) (simp_all add: QueuePtr_Enqueue_def QueuePtr_Dequeue_def QueuePtr_Cap_def)

lemma QP_MPSCPtrSeq_object:
  assumes "2 \<le> sint c" and "sint c \<le> 2 ^ 62"
  shows "fifo_object (go_bind (NewMPSCPtrSeq c) (\<lambda>q. ret (QP_MPSCPtrSeq q))) (QueuePtr_Enqueue A) (QueuePtr_Dequeue A) QueuePtr_Cap 0 (\<lambda>_. True)
           (unat (roundToPow2 c)) (2 ^ 62)"
  by (rule fifo_object_lift [OF MPSCPtrSeq_object [OF assms]]) (simp_all add: QueuePtr_Enqueue_def QueuePtr_Dequeue_def QueuePtr_Cap_def)

lemma QP_MPSCPtr_object:
  assumes "2 \<le> sint c" and "sint c \<le> 2 ^ 61"
  shows "fifo_object (go_bind (NewMPSCPtr c) (\<lambda>q. ret (QP_MPSCPtr q))) (QueuePtr_Enqueue A) (QueuePtr_Dequeue A) QueuePtr_Cap 0 (\<lambda>_. True)
           (unat (roundToPow2 c)) (2 ^ 62)"
  by (rule fifo_object_lift [OF MPSCPtr_object [OF assms]]) (simp_all add: QueuePtr_Enqueue_def QueuePtr_Dequeue_def QueuePtr_Cap_def)

lemma QP_MPMCPtrSeq_object:
  assumes "2 \<le> sint c" and "sint c \<le> 2 ^ 62"
  shows "fifo_object (go_bind (NewMPMCPtrSeq c) (\<lambda>q. ret (QP_MPMCPtrSeq q))) (QueuePtr_Enqueue A) (QueuePtr_Dequeue A) QueuePtr_Cap 0 (\<lambda>_. True)
           (unat (roundToPow2 c)) (2 ^ 62)"
  by (rule fifo_object_lift [OF MPMCPtrSeq_object [OF assms]]) (simp_all add: QueuePtr_Enqueue_def QueuePtr_Dequeue_def QueuePtr_Cap_def)

lemma QP_MPMCPtr_object:
  assumes "2 \<le> sint c" and "sint c \<le> 2 ^ 61"
  shows "fifo_object (go_bind (NewMPMCPtr c) (\<lambda>q. ret (QP_MPMCPtr q))) (QueuePtr_Enqueue A) (QueuePtr_Dequeue A) QueuePtr_Cap 0 (\<lambda>_. True)
           (unat (roundToPow2 c)) (2 ^ 62)"
  by (rule fifo_object_lift [OF MPMCPtr_object [OF assms]]) (simp_all add: QueuePtr_Enqueue_def QueuePtr_Dequeue_def QueuePtr_Cap_def)

lemma BuildPtr_object:
  assumes "2 \<le> sint (capacity (opts b))" and "sint (capacity (opts b)) \<le> 2 ^ 61"
  shows "fifo_object (BuildPtr b) (QueuePtr_Enqueue A) (QueuePtr_Dequeue A) QueuePtr_Cap 0
           (\<lambda>_. True) (unat (roundToPow2 (capacity (opts b)))) (2 ^ 62)"
proof -
  have le: "sint (capacity (opts b)) \<le> 2 ^ 62" using assms(2) by simp
  show ?thesis
    using QP_SPSCPtr_object [OF assms(1) le]
      QP_SPMCPtrSeq_object [OF assms(1) le]
      QP_SPMCPtr_object [OF assms(1) assms(2)]
      QP_MPSCPtrSeq_object [OF assms(1) le]
      QP_MPSCPtr_object [OF assms(1) assms(2)]
      QP_MPMCPtrSeq_object [OF assms(1) le]
      QP_MPMCPtr_object [OF assms(1) assms(2)]
    by (simp add: BuildPtr_def)
qed

lemma New_Build_obj:
  assumes "2 \<le> sint c" and "sint c \<le> 2 ^ 61"
  shows "fifo_object (go_bind (New c) (\<lambda>b. Build zero (configure p s k b))) (Queue_Enqueue A) (Queue_Dequeue A zero)
           Queue_Cap zero (\<lambda>_. True) (unat (roundToPow2 c)) (2 ^ 62)"
proof -
  from New_configure [OF assms(1), of "Build zero" p s k] obtain b where
    b: "go_bind (New c) (\<lambda>b. Build zero (configure p s k b)) = Build zero b"
      "opts b = \<lparr>singleProducer = p, singleConsumer = s, compact = k, capacity = c\<rparr>" .
  from assms b(2) Build_object [of b zero] show ?thesis unfolding b(1) by simp
qed

end

lemma New_Build_object:
  assumes "atomix_ok A" and "2 \<le> sint c" and "sint c \<le> 2 ^ 61"
  shows "fifo_object (go_bind (New c) (\<lambda>b. Build zero (configure p s k b))) (Queue_Enqueue A) (Queue_Dequeue A zero)
           Queue_Cap zero (\<lambda>_. True) (unat (roundToPow2 c)) (2 ^ 62)"
  by (rule atomix_sem.New_Build_obj [OF atomix_sem.intro [OF assms(1)] assms(2,3)])

end
