(* ===== verification/Selection.thy ===== *)
theory Selection
  imports Builder
begin

text \<open>
  Which concrete type the builder of \<open>options.go\<close> puts behind an interface, against the table in the
  comments of the \<open>Build*\<close> functions, and that no operation of the interface changes it.
\<close>

section \<open>The concrete type behind an interface\<close>

text \<open>The name of the type of an interface value, as Go's \<open>%T\<close> prints it without its package.\<close>

fun Queue_type :: "'a Queue \<Rightarrow> string" where
  "Queue_type (Q_SPSC _) = ''SPSC''"
| "Queue_type (Q_SPMCSeq _) = ''SPMCSeq''"
| "Queue_type (Q_SPMC _) = ''SPMC''"
| "Queue_type (Q_MPSCSeq _) = ''MPSCSeq''"
| "Queue_type (Q_MPSC _) = ''MPSC''"
| "Queue_type (Q_MPMCSeq _) = ''MPMCSeq''"
| "Queue_type (Q_MPMC _) = ''MPMC''"

fun QueueIndirect_type :: "QueueIndirect \<Rightarrow> string" where
  "QueueIndirect_type (QI_SPSCIndirect _) = ''SPSCIndirect''"
| "QueueIndirect_type (QI_SPMCCompactIndirect _) = ''SPMCCompactIndirect''"
| "QueueIndirect_type (QI_MPSCCompactIndirect _) = ''MPSCCompactIndirect''"
| "QueueIndirect_type (QI_MPMCCompactIndirect _) = ''MPMCCompactIndirect''"
| "QueueIndirect_type (QI_SPMCIndirect _) = ''SPMCIndirect''"
| "QueueIndirect_type (QI_MPSCIndirect _) = ''MPSCIndirect''"
| "QueueIndirect_type (QI_MPMCIndirect _) = ''MPMCIndirect''"

fun QueuePtr_type :: "QueuePtr \<Rightarrow> string" where
  "QueuePtr_type (QP_SPSCPtr _) = ''SPSCPtr''"
| "QueuePtr_type (QP_SPMCPtrSeq _) = ''SPMCPtrSeq''"
| "QueuePtr_type (QP_SPMCPtr _) = ''SPMCPtr''"
| "QueuePtr_type (QP_MPSCPtrSeq _) = ''MPSCPtrSeq''"
| "QueuePtr_type (QP_MPSCPtr _) = ''MPSCPtr''"
| "QueuePtr_type (QP_MPMCPtrSeq _) = ''MPMCPtrSeq''"
| "QueuePtr_type (QP_MPMCPtr _) = ''MPMCPtr''"

text \<open>
  The documented selection: the promises of the client give the first part of the name, the
  interface the second, and \<open>Compact\<close> the ending, which \<open>SPSC\<close> ignores.
\<close>

definition pattern :: "bool \<Rightarrow> bool \<Rightarrow> string" where
  "pattern p s = (if p then ''S'' else ''M'') @ ''P'' @ (if s then ''S'' else ''M'') @ ''C''"

definition compacted :: "bool \<Rightarrow> bool \<Rightarrow> bool \<Rightarrow> string \<Rightarrow> string" where
  "compacted p s k ending = (if k \<and> \<not> (p \<and> s) then ending else [])"

lemma Build_type: "Build zero b = ret q \<Longrightarrow>
    Queue_type q = pattern (singleProducer (opts b)) (singleConsumer (opts b))
      @ compacted (singleProducer (opts b)) (singleConsumer (opts b)) (compact (opts b)) ''Seq''"
  by (auto simp: Build_def pattern_def compacted_def go_bind_ret_iff split: if_splits)

lemma BuildIndirect_type: "BuildIndirect b = ret q \<Longrightarrow>
    QueueIndirect_type q = pattern (singleProducer (opts b)) (singleConsumer (opts b))
      @ compacted (singleProducer (opts b)) (singleConsumer (opts b)) (compact (opts b)) ''Compact'' @ ''Indirect''"
  by (auto simp: BuildIndirect_def pattern_def compacted_def go_bind_ret_iff split: if_splits)

lemma BuildPtr_type: "BuildPtr b = ret q \<Longrightarrow>
    QueuePtr_type q = pattern (singleProducer (opts b)) (singleConsumer (opts b)) @ ''Ptr''
      @ compacted (singleProducer (opts b)) (singleConsumer (opts b)) (compact (opts b)) ''Seq''"
  by (auto simp: BuildPtr_def pattern_def compacted_def go_bind_ret_iff split: if_splits)

text \<open>No operation changes the concrete type.\<close>

lemma Queue_keeps_type:
  "Queue_Enqueue A x q = ret (e, q') \<Longrightarrow> Queue_type q' = Queue_type q"
  "Queue_Dequeue A zero q = ret (r, q') \<Longrightarrow> Queue_type q' = Queue_type q"
  by (auto simp: Queue_Enqueue_def Queue_Dequeue_def go_map_ret_iff split: Queue.splits)

lemma QueueIndirect_keeps_type:
  "QueueIndirect_Enqueue A w i = ret (e, i') \<Longrightarrow> QueueIndirect_type i' = QueueIndirect_type i"
  "QueueIndirect_Dequeue A i = ret (rw, i') \<Longrightarrow> QueueIndirect_type i' = QueueIndirect_type i"
  by (auto simp: QueueIndirect_Enqueue_def QueueIndirect_Dequeue_def go_map_ret_iff split: QueueIndirect.splits)

lemma QueuePtr_keeps_type:
  "QueuePtr_Enqueue A w u = ret (e, u') \<Longrightarrow> QueuePtr_type u' = QueuePtr_type u"
  "QueuePtr_Dequeue A u = ret (rw, u') \<Longrightarrow> QueuePtr_type u' = QueuePtr_type u"
  by (auto simp: QueuePtr_Enqueue_def QueuePtr_Dequeue_def go_map_ret_iff split: QueuePtr.splits)

lemma run_calls_keeps:
  assumes "\<And>x q e q'. enq x q = ret (e, q') \<Longrightarrow> f q' = f q" and "\<And>q r q'. deq q = ret (r, q') \<Longrightarrow> f q' = f q"
  shows "run_calls enq deq cs q = ret (as, q') \<Longrightarrow> f q' = f q"
proof (induction cs arbitrary: q as)
  case (Cons c cs)
  then show ?case by (cases c) (fastforce simp: go_bind_ret_iff dest: assms)+
qed simp

end
