(* ===== verification/Errors.thy ===== *)
theory Errors
  imports Builder
begin

text \<open>
  The error values of \<open>errors.go\<close>. \<open>ErrWouldBlock\<close> is an alias of the third-party package
  \<open>code.hybscloud.com/iox\<close>, and the three predicates delegate to it. The package is the record
  parameter \<open>X\<close>, over the type \<open>'e\<close> of all error values; \<open>iox_ok\<close> is what its documentation promises.
\<close>

section \<open>The package iox\<close>

record 'e iox =
  iox_ErrWouldBlock :: 'e
  iox_ErrMore :: 'e
  iox_IsWouldBlock :: "'e option \<Rightarrow> bool"
  iox_IsSemantic :: "'e option \<Rightarrow> bool"
  iox_IsNonFailure :: "'e option \<Rightarrow> bool"

text \<open>
  \<open>nil\<close> is no signal and no failure; \<open>ErrWouldBlock\<close> and \<open>ErrMore\<close> are signals and no failures, and
  only the first means that the operation would block.
\<close>

definition iox_ok :: "'e iox \<Rightarrow> bool" where
  "iox_ok X \<longleftrightarrow>
     iox_IsWouldBlock X (Some (iox_ErrWouldBlock X)) \<and> \<not> iox_IsWouldBlock X (Some (iox_ErrMore X)) \<and> \<not> iox_IsWouldBlock X None
     \<and> iox_IsSemantic X (Some (iox_ErrWouldBlock X)) \<and> iox_IsSemantic X (Some (iox_ErrMore X)) \<and> \<not> iox_IsSemantic X None
     \<and> (\<forall>e \<in> {None, Some (iox_ErrWouldBlock X), Some (iox_ErrMore X)}. iox_IsNonFailure X e)"

text \<open>An instance with wrapped errors, which shows that the documented behaviour can be met.\<close>

datatype wrapped = WouldBlock | More | Other string | Wrap string wrapped

fun unwrap :: "wrapped \<Rightarrow> wrapped" where
  "unwrap (Wrap _ e) = unwrap e"
| "unwrap e = e"

definition iox_impl :: "wrapped iox" where
  "iox_impl = \<lparr>iox_ErrWouldBlock = WouldBlock, iox_ErrMore = More,
     iox_IsWouldBlock = (\<lambda>e. map_option unwrap e = Some WouldBlock),
     iox_IsSemantic = (\<lambda>e. map_option unwrap e \<in> {Some WouldBlock, Some More}),
     iox_IsNonFailure = (\<lambda>e. map_option unwrap e \<in> {None, Some WouldBlock, Some More})\<rparr>"

lemma iox_ok_impl: "iox_ok iox_impl"
  by (simp add: iox_ok_def iox_impl_def)

section \<open>errors.go\<close>

fun ErrWouldBlock_value :: "'e iox \<Rightarrow> err \<Rightarrow> 'e" where
  "ErrWouldBlock_value X ErrWouldBlock = iox_ErrWouldBlock X"

definition IsWouldBlock :: "'e iox \<Rightarrow> 'e option \<Rightarrow> bool" where
  "IsWouldBlock X e = iox_IsWouldBlock X e"

definition IsSemantic :: "'e iox \<Rightarrow> 'e option \<Rightarrow> bool" where
  "IsSemantic X e = iox_IsSemantic X e"

definition IsNonFailure :: "'e iox \<Rightarrow> 'e option \<Rightarrow> bool" where
  "IsNonFailure X e = iox_IsNonFailure X e"

text \<open>The error a caller holds after a call.\<close>

definition caller_error :: "'e iox \<Rightarrow> 'a answer \<Rightarrow> 'e option" where
  "caller_error X a = map_option (ErrWouldBlock_value X) (answer_err a)"

text \<open>
  Every error a queue returns is a would-block signal and no failure; a partial result, \<open>ErrMore\<close>, is
  told apart from it.
\<close>

lemma more_is_not_would_block:
  "iox_ok X \<Longrightarrow> IsSemantic X (Some (iox_ErrMore X)) \<and> \<not> IsWouldBlock X (Some (iox_ErrMore X))"
  by (simp add: iox_ok_def IsSemantic_def IsWouldBlock_def)

lemma classified:
  assumes "iox_ok X"
  shows "IsWouldBlock X (caller_error X a) \<longleftrightarrow> answer_err a \<noteq> None"
    and "IsSemantic X (caller_error X a) \<longleftrightarrow> answer_err a \<noteq> None"
    and "IsNonFailure X (caller_error X a)"
  using assms err.exhaust
  by (cases "answer_err a"; cases "the (answer_err a)";
      simp add: iox_ok_def caller_error_def IsWouldBlock_def IsSemantic_def IsNonFailure_def)+

end
