(* ===== verification/SPSC_Asm.thy ===== *)
theory SPSC_Asm
  imports SPSC
begin

text \<open>
  The assembly versions of \<open>SPSCIndirect.Enqueue\<close> and \<open>SPSCIndirect.Dequeue\<close> for amd64, arm64, riscv64 and
  loong64 (\<open>internal/asm/asm_*.s\<close>, called from \<open>spsc_indirect_asm.go\<close>), on a small machine: 64-bit
  registers, a memory of aligned 64-bit words, the words of the argument frame and the operands of
  the last comparison. The instructions carry the Go assembler's mnemonics and its operand order,
  in which the destination comes last; the moves of the four architectures are one \<open>MOV\<close>.

  The four enqueues have one meaning, and it is that of the portable Go version. So have the
  dequeues, except that the one for riscv64 compares signed where it should compare unsigned.
\<close>

section \<open>The machine\<close>

datatype operand = Imm u64 | Reg string | ZeroReg | Mem u64 string | Arg nat

datatype instr =
    MOV operand operand | LDAR string string | STLR string string
  | SUBQ string string | ANDQ string string | ADDQ string string | SHLQ nat string | INCQ string | CMPQ string string
  | JA string | JBE string | JAE string | JB string
  | SUB3 operand string string | AND3 operand string string | ADD3 operand string string | LSL nat string
  | CMP string string | BHI string | BLS string | BHS string | BLO string
  | BGTU string string string | BLEU string string string | BGEU string string string | BLT string string string
  | SGTU string string string | BNE string operand string | BEQ string operand string
  | FENCE | DBAR | LABEL string | RET

record machine =
  regs :: "string \<Rightarrow> u64"
  mem :: "u64 \<Rightarrow> u64"
  args :: "nat \<Rightarrow> u64"
  flags :: "u64 \<times> u64"

fun read_op :: "operand \<Rightarrow> machine \<Rightarrow> u64" where
  "read_op (Imm v) s = v"
| "read_op (Reg r) s = regs s r"
| "read_op ZeroReg s = 0"
| "read_op (Mem off r) s = mem s (regs s r + off)"
| "read_op (Arg i) s = args s i"

definition set_reg :: "string \<Rightarrow> u64 \<Rightarrow> machine \<Rightarrow> machine" where
  "set_reg r v s = s\<lparr>regs := (regs s)(r := v)\<rparr>"

fun write_op :: "operand \<Rightarrow> u64 \<Rightarrow> machine \<Rightarrow> machine" where
  "write_op (Reg r) v s = set_reg r v s"
| "write_op (Mem off r) v s = s\<lparr>mem := (mem s)(regs s r + off := v)\<rparr>"
| "write_op (Arg i) v s = s\<lparr>args := (args s)(i := v)\<rparr>"
| "write_op _ v s = s"

text \<open>
  \<open>CMPQ a, b\<close> of amd64 compares \<open>a\<close> with \<open>b\<close>; \<open>CMP b, a\<close> of arm64 compares its second operand with
  its first, as \<open>SUB\<close> subtracts the first from the second.
\<close>

fun exec_instr :: "instr \<Rightarrow> machine \<Rightarrow> machine" where
  "exec_instr (MOV src dst) s = write_op dst (read_op src s) s"
| "exec_instr (LDAR a r) s = set_reg r (mem s (regs s a)) s"
| "exec_instr (STLR r a) s = s\<lparr>mem := (mem s)(regs s a := regs s r)\<rparr>"
| "exec_instr (SUBQ a r) s = set_reg r (regs s r - regs s a) s"
| "exec_instr (ANDQ a r) s = set_reg r (regs s r AND regs s a) s"
| "exec_instr (ADDQ a r) s = set_reg r (regs s r + regs s a) s"
| "exec_instr (SHLQ n r) s = set_reg r (push_bit n (regs s r)) s"
| "exec_instr (INCQ r) s = set_reg r (regs s r + 1) s"
| "exec_instr (CMPQ a b) s = s\<lparr>flags := (regs s a, regs s b)\<rparr>"
| "exec_instr (CMP b a) s = s\<lparr>flags := (regs s a, regs s b)\<rparr>"
| "exec_instr (SUB3 a b r) s = set_reg r (regs s b - read_op a s) s"
| "exec_instr (AND3 a b r) s = set_reg r (regs s b AND read_op a s) s"
| "exec_instr (ADD3 a b r) s = set_reg r (regs s b + read_op a s) s"
| "exec_instr (LSL n r) s = set_reg r (push_bit n (regs s r)) s"
| "exec_instr (SGTU a b r) s = set_reg r (if regs s a > regs s b then 1 else 0) s"
| "exec_instr _ s = s"

fun branch :: "instr \<Rightarrow> machine \<Rightarrow> string option" where
  "branch (JA l) s = (if fst (flags s) > snd (flags s) then Some l else None)"
| "branch (JBE l) s = (if fst (flags s) \<le> snd (flags s) then Some l else None)"
| "branch (JAE l) s = (if fst (flags s) \<ge> snd (flags s) then Some l else None)"
| "branch (JB l) s = (if fst (flags s) < snd (flags s) then Some l else None)"
| "branch (BHI l) s = (if fst (flags s) > snd (flags s) then Some l else None)"
| "branch (BLS l) s = (if fst (flags s) \<le> snd (flags s) then Some l else None)"
| "branch (BHS l) s = (if fst (flags s) \<ge> snd (flags s) then Some l else None)"
| "branch (BLO l) s = (if fst (flags s) < snd (flags s) then Some l else None)"
| "branch (BGTU a b l) s = (if regs s a > regs s b then Some l else None)"
| "branch (BLEU a b l) s = (if regs s a \<le> regs s b then Some l else None)"
| "branch (BGEU a b l) s = (if regs s a \<ge> regs s b then Some l else None)"
| "branch (BLT a b l) s = (if sint (regs s a) < sint (regs s b) then Some l else None)"
| "branch (BNE a b l) s = (if regs s a \<noteq> read_op b s then Some l else None)"
| "branch (BEQ a b l) s = (if regs s a = read_op b s then Some l else None)"
| "branch _ s = None"

fun after_label :: "string \<Rightarrow> instr list \<Rightarrow> instr list" where
  "after_label l [] = []"
| "after_label l (i # code) = (if i = LABEL l then code else after_label l code)"

text \<open>Running from a point of the program to its \<open>RET\<close>; \<open>None\<close> if it never gets there.\<close>

partial_function (option) asm_run :: "instr list \<Rightarrow> instr list \<Rightarrow> machine \<Rightarrow> machine option" where
  "asm_run prog code s = (case code of
       [] \<Rightarrow> None
     | i # rest \<Rightarrow> if i = RET then Some s
         else (case branch i s of
             Some l \<Rightarrow> asm_run prog (after_label l prog) s
           | None \<Rightarrow> asm_run prog rest (exec_instr i s)))"

lemma asm_run_Cons [simp]:
  "asm_run prog (i # rest) s = (if i = RET then Some s
     else (case branch i s of Some l \<Rightarrow> asm_run prog (after_label l prog) s | None \<Rightarrow> asm_run prog rest (exec_instr i s)))"
  by (subst asm_run.simps) simp

section \<open>The programs\<close>

abbreviation "HEAD_OFF \<equiv> 64 :: u64"
abbreviation "CACHED_TAIL \<equiv> 136 :: u64"
abbreviation "TAIL_OFF \<equiv> 208 :: u64"
abbreviation "CACHED_HEAD \<equiv> 280 :: u64"
abbreviation "BUFFER_PTR \<equiv> 352 :: u64"
abbreviation "MASK_OFF \<equiv> 376 :: u64"

definition amd64_SPSCEnqueue :: "instr list" where
  "amd64_SPSCEnqueue = [
     MOV (Arg 0) (Reg ''DI''),
     MOV (Arg 8) (Reg ''SI''),
     MOV (Mem TAIL_OFF ''DI'') (Reg ''AX''),
     MOV (Mem CACHED_HEAD ''DI'') (Reg ''BX''),
     MOV (Mem MASK_OFF ''DI'') (Reg ''CX''),
     MOV (Reg ''AX'') (Reg ''DX''),
     SUBQ ''BX'' ''DX'',
     CMPQ ''DX'' ''CX'',
     JA ''spsc_enq_slow'',
     LABEL ''spsc_enq_store'',
     MOV (Reg ''AX'') (Reg ''DX''),
     ANDQ ''CX'' ''DX'',
     MOV (Mem BUFFER_PTR ''DI'') (Reg ''R8''),
     SHLQ 3 ''DX'',
     ADDQ ''DX'' ''R8'',
     MOV (Reg ''SI'') (Mem 0 ''R8''),
     INCQ ''AX'',
     MOV (Reg ''AX'') (Mem TAIL_OFF ''DI''),
     MOV (Imm 0) (Arg 16),
     RET,
     LABEL ''spsc_enq_slow'',
     MOV (Mem HEAD_OFF ''DI'') (Reg ''BX''),
     MOV (Reg ''BX'') (Mem CACHED_HEAD ''DI''),
     MOV (Reg ''AX'') (Reg ''DX''),
     SUBQ ''BX'' ''DX'',
     CMPQ ''DX'' ''CX'',
     JBE ''spsc_enq_store'',
     MOV (Imm 1) (Arg 16),
     RET]"

definition amd64_SPSCDequeue :: "instr list" where
  "amd64_SPSCDequeue = [
     MOV (Arg 0) (Reg ''DI''),
     MOV (Mem HEAD_OFF ''DI'') (Reg ''AX''),
     MOV (Mem CACHED_TAIL ''DI'') (Reg ''BX''),
     MOV (Mem MASK_OFF ''DI'') (Reg ''CX''),
     CMPQ ''AX'' ''BX'',
     JAE ''spsc_deq_slow'',
     LABEL ''spsc_deq_load'',
     MOV (Reg ''AX'') (Reg ''DX''),
     ANDQ ''CX'' ''DX'',
     MOV (Mem BUFFER_PTR ''DI'') (Reg ''R8''),
     SHLQ 3 ''DX'',
     ADDQ ''DX'' ''R8'',
     MOV (Mem 0 ''R8'') (Reg ''SI''),
     INCQ ''AX'',
     MOV (Reg ''AX'') (Mem HEAD_OFF ''DI''),
     MOV (Reg ''SI'') (Arg 8),
     MOV (Imm 0) (Arg 16),
     RET,
     LABEL ''spsc_deq_slow'',
     MOV (Mem TAIL_OFF ''DI'') (Reg ''BX''),
     MOV (Reg ''BX'') (Mem CACHED_TAIL ''DI''),
     CMPQ ''AX'' ''BX'',
     JB ''spsc_deq_load'',
     MOV (Imm 0) (Arg 8),
     MOV (Imm 1) (Arg 16),
     RET]"

definition arm64_SPSCEnqueue :: "instr list" where
  "arm64_SPSCEnqueue = [
     MOV (Arg 0) (Reg ''R0''),
     MOV (Arg 8) (Reg ''R1''),
     MOV (Mem TAIL_OFF ''R0'') (Reg ''R2''),
     MOV (Mem CACHED_HEAD ''R0'') (Reg ''R3''),
     MOV (Mem MASK_OFF ''R0'') (Reg ''R4''),
     SUB3 (Reg ''R3'') ''R2'' ''R5'',
     CMP ''R4'' ''R5'',
     BHI ''spsc_enq_slow_arm64'',
     LABEL ''spsc_enq_store_arm64'',
     AND3 (Reg ''R4'') ''R2'' ''R5'',
     MOV (Mem BUFFER_PTR ''R0'') (Reg ''R6''),
     LSL 3 ''R5'',
     ADD3 (Reg ''R5'') ''R6'' ''R6'',
     MOV (Reg ''R1'') (Mem 0 ''R6''),
     ADD3 (Imm 1) ''R2'' ''R2'',
     ADD3 (Imm TAIL_OFF) ''R0'' ''R7'',
     STLR ''R2'' ''R7'',
     MOV ZeroReg (Arg 16),
     RET,
     LABEL ''spsc_enq_slow_arm64'',
     ADD3 (Imm HEAD_OFF) ''R0'' ''R7'',
     LDAR ''R7'' ''R3'',
     MOV (Reg ''R3'') (Mem CACHED_HEAD ''R0''),
     SUB3 (Reg ''R3'') ''R2'' ''R5'',
     CMP ''R4'' ''R5'',
     BLS ''spsc_enq_store_arm64'',
     MOV (Imm 1) (Reg ''R8''),
     MOV (Reg ''R8'') (Arg 16),
     RET]"

definition arm64_SPSCDequeue :: "instr list" where
  "arm64_SPSCDequeue = [
     MOV (Arg 0) (Reg ''R0''),
     MOV (Mem HEAD_OFF ''R0'') (Reg ''R2''),
     MOV (Mem CACHED_TAIL ''R0'') (Reg ''R3''),
     MOV (Mem MASK_OFF ''R0'') (Reg ''R4''),
     CMP ''R3'' ''R2'',
     BHS ''spsc_deq_slow_arm64'',
     LABEL ''spsc_deq_load_arm64'',
     AND3 (Reg ''R4'') ''R2'' ''R5'',
     MOV (Mem BUFFER_PTR ''R0'') (Reg ''R6''),
     LSL 3 ''R5'',
     ADD3 (Reg ''R5'') ''R6'' ''R6'',
     MOV (Mem 0 ''R6'') (Reg ''R1''),
     ADD3 (Imm 1) ''R2'' ''R2'',
     ADD3 (Imm HEAD_OFF) ''R0'' ''R7'',
     STLR ''R2'' ''R7'',
     MOV (Reg ''R1'') (Arg 8),
     MOV ZeroReg (Arg 16),
     RET,
     LABEL ''spsc_deq_slow_arm64'',
     ADD3 (Imm TAIL_OFF) ''R0'' ''R7'',
     LDAR ''R7'' ''R3'',
     MOV (Reg ''R3'') (Mem CACHED_TAIL ''R0''),
     CMP ''R3'' ''R2'',
     BLO ''spsc_deq_load_arm64'',
     MOV ZeroReg (Arg 8),
     MOV (Imm 1) (Reg ''R8''),
     MOV (Reg ''R8'') (Arg 16),
     RET]"

definition riscv64_SPSCEnqueue :: "instr list" where
  "riscv64_SPSCEnqueue = [
     MOV (Arg 0) (Reg ''X5''),
     MOV (Arg 8) (Reg ''X6''),
     MOV (Mem TAIL_OFF ''X5'') (Reg ''X7''),
     MOV (Mem CACHED_HEAD ''X5'') (Reg ''X10''),
     MOV (Mem MASK_OFF ''X5'') (Reg ''X11''),
     SUB3 (Reg ''X10'') ''X7'' ''X12'',
     BGTU ''X12'' ''X11'' ''spsc_enq_slow_riscv64'',
     LABEL ''spsc_enq_store_riscv64'',
     AND3 (Reg ''X11'') ''X7'' ''X12'',
     MOV (Mem BUFFER_PTR ''X5'') (Reg ''X13''),
     LSL 3 ''X12'',
     ADD3 (Reg ''X13'') ''X12'' ''X13'',
     MOV (Reg ''X6'') (Mem 0 ''X13''),
     FENCE,
     ADD3 (Imm 1) ''X7'' ''X7'',
     MOV (Reg ''X7'') (Mem TAIL_OFF ''X5''),
     MOV ZeroReg (Reg ''X14''),
     MOV (Reg ''X14'') (Arg 16),
     RET,
     LABEL ''spsc_enq_slow_riscv64'',
     MOV (Mem HEAD_OFF ''X5'') (Reg ''X10''),
     FENCE,
     MOV (Reg ''X10'') (Mem CACHED_HEAD ''X5''),
     SUB3 (Reg ''X10'') ''X7'' ''X12'',
     BLEU ''X12'' ''X11'' ''spsc_enq_store_riscv64'',
     MOV (Imm 1) (Reg ''X14''),
     MOV (Reg ''X14'') (Arg 16),
     RET]"

definition riscv64_SPSCDequeue :: "instr list" where
  "riscv64_SPSCDequeue = [
     MOV (Arg 0) (Reg ''X5''),
     MOV (Mem HEAD_OFF ''X5'') (Reg ''X7''),
     MOV (Mem CACHED_TAIL ''X5'') (Reg ''X10''),
     MOV (Mem MASK_OFF ''X5'') (Reg ''X11''),
     BGEU ''X7'' ''X10'' ''spsc_deq_slow_riscv64'',
     LABEL ''spsc_deq_load_riscv64'',
     AND3 (Reg ''X11'') ''X7'' ''X12'',
     MOV (Mem BUFFER_PTR ''X5'') (Reg ''X13''),
     LSL 3 ''X12'',
     ADD3 (Reg ''X13'') ''X12'' ''X13'',
     MOV (Mem 0 ''X13'') (Reg ''X6''),
     FENCE,
     ADD3 (Imm 1) ''X7'' ''X7'',
     MOV (Reg ''X7'') (Mem HEAD_OFF ''X5''),
     MOV (Reg ''X6'') (Arg 8),
     MOV ZeroReg (Reg ''X14''),
     MOV (Reg ''X14'') (Arg 16),
     RET,
     LABEL ''spsc_deq_slow_riscv64'',
     MOV (Mem TAIL_OFF ''X5'') (Reg ''X10''),
     FENCE,
     MOV (Reg ''X10'') (Mem CACHED_TAIL ''X5''),
     BLT ''X7'' ''X10'' ''spsc_deq_load_riscv64'',
     MOV ZeroReg (Reg ''X14''),
     MOV (Reg ''X14'') (Arg 8),
     MOV (Imm 1) (Reg ''X14''),
     MOV (Reg ''X14'') (Arg 16),
     RET]"

definition loong64_SPSCEnqueue :: "instr list" where
  "loong64_SPSCEnqueue = [
     MOV (Arg 0) (Reg ''R4''),
     MOV (Arg 8) (Reg ''R5''),
     MOV (Mem TAIL_OFF ''R4'') (Reg ''R6''),
     MOV (Mem CACHED_HEAD ''R4'') (Reg ''R7''),
     MOV (Mem MASK_OFF ''R4'') (Reg ''R8''),
     SUB3 (Reg ''R7'') ''R6'' ''R9'',
     SGTU ''R9'' ''R8'' ''R10'',
     BNE ''R10'' ZeroReg ''spsc_enq_slow_loong64'',
     LABEL ''spsc_enq_store_loong64'',
     AND3 (Reg ''R8'') ''R6'' ''R9'',
     MOV (Mem BUFFER_PTR ''R4'') (Reg ''R10''),
     LSL 3 ''R9'',
     ADD3 (Reg ''R10'') ''R9'' ''R10'',
     MOV (Reg ''R5'') (Mem 0 ''R10''),
     DBAR,
     ADD3 (Imm 1) ''R6'' ''R6'',
     MOV (Reg ''R6'') (Mem TAIL_OFF ''R4''),
     MOV ZeroReg (Arg 16),
     RET,
     LABEL ''spsc_enq_slow_loong64'',
     MOV (Mem HEAD_OFF ''R4'') (Reg ''R7''),
     DBAR,
     MOV (Reg ''R7'') (Mem CACHED_HEAD ''R4''),
     SUB3 (Reg ''R7'') ''R6'' ''R9'',
     SGTU ''R9'' ''R8'' ''R10'',
     BEQ ''R10'' ZeroReg ''spsc_enq_store_loong64'',
     MOV (Imm 1) (Reg ''R11''),
     MOV (Reg ''R11'') (Arg 16),
     RET]"

definition loong64_SPSCDequeue :: "instr list" where
  "loong64_SPSCDequeue = [
     MOV (Arg 0) (Reg ''R4''),
     MOV (Mem HEAD_OFF ''R4'') (Reg ''R6''),
     MOV (Mem CACHED_TAIL ''R4'') (Reg ''R7''),
     MOV (Mem MASK_OFF ''R4'') (Reg ''R8''),
     SGTU ''R7'' ''R6'' ''R10'',
     BEQ ''R10'' ZeroReg ''spsc_deq_slow_loong64'',
     LABEL ''spsc_deq_load_loong64'',
     AND3 (Reg ''R8'') ''R6'' ''R9'',
     MOV (Mem BUFFER_PTR ''R4'') (Reg ''R10''),
     LSL 3 ''R9'',
     ADD3 (Reg ''R10'') ''R9'' ''R10'',
     MOV (Mem 0 ''R10'') (Reg ''R5''),
     DBAR,
     ADD3 (Imm 1) ''R6'' ''R6'',
     MOV (Reg ''R6'') (Mem HEAD_OFF ''R4''),
     MOV (Reg ''R5'') (Arg 8),
     MOV ZeroReg (Arg 16),
     RET,
     LABEL ''spsc_deq_slow_loong64'',
     MOV (Mem TAIL_OFF ''R4'') (Reg ''R7''),
     DBAR,
     MOV (Reg ''R7'') (Mem CACHED_TAIL ''R4''),
     SGTU ''R7'' ''R6'' ''R10'',
     BNE ''R10'' ZeroReg ''spsc_deq_load_loong64'',
     MOV ZeroReg (Arg 8),
     MOV (Imm 1) (Reg ''R11''),
     MOV (Reg ''R11'') (Arg 16),
     RET]"

section \<open>What the programs compute\<close>

text \<open>The effect on memory and the status word, as one function of the struct's address.\<close>

definition enq_store :: "u64 \<Rightarrow> u64 \<Rightarrow> u64 \<Rightarrow> (u64 \<Rightarrow> u64) \<Rightarrow> u64 \<Rightarrow> u64" where
  "enq_store b v t M = M(M (b + BUFFER_PTR) + push_bit 3 (t AND M (b + MASK_OFF)) := v, b + TAIL_OFF := t + 1)"

definition enq_effect :: "u64 \<Rightarrow> u64 \<Rightarrow> (u64 \<Rightarrow> u64) \<Rightarrow> u64 \<times> (u64 \<Rightarrow> u64)" where
  "enq_effect b v M =
     (let t = M (b + TAIL_OFF)
      in if t - M (b + CACHED_HEAD) > M (b + MASK_OFF)
         then let M' = M(b + CACHED_HEAD := M (b + HEAD_OFF))
              in if t - M (b + HEAD_OFF) > M (b + MASK_OFF) then (1, M') else (0, enq_store b v t M')
         else (0, enq_store b v t M))"

definition deq_load :: "u64 \<Rightarrow> u64 \<Rightarrow> (u64 \<Rightarrow> u64) \<Rightarrow> u64 \<times> u64 \<times> (u64 \<Rightarrow> u64)" where
  "deq_load b h M = (M (M (b + BUFFER_PTR) + push_bit 3 (h AND M (b + MASK_OFF))), 0, M(b + HEAD_OFF := h + 1))"

definition deq_effect :: "(u64 \<Rightarrow> u64 \<Rightarrow> bool) \<Rightarrow> u64 \<Rightarrow> (u64 \<Rightarrow> u64) \<Rightarrow> u64 \<times> u64 \<times> (u64 \<Rightarrow> u64)" where
  "deq_effect below b M =
     (let h = M (b + HEAD_OFF)
      in if h \<ge> M (b + CACHED_TAIL)
         then let M' = M(b + CACHED_TAIL := M (b + TAIL_OFF))
              in if below h (M (b + TAIL_OFF)) then deq_load b h M' else (0, 1, M')
         else deq_load b h M)"

definition enq_runs :: "instr list \<Rightarrow> bool" where
  "enq_runs prog \<longleftrightarrow> (\<forall>s. map_option (\<lambda>s'. (args s' 16, mem s')) (asm_run prog prog s)
     = Some (enq_effect (args s 0) (args s 8) (mem s)))"

definition deq_runs :: "(u64 \<Rightarrow> u64 \<Rightarrow> bool) \<Rightarrow> instr list \<Rightarrow> bool" where
  "deq_runs below prog \<longleftrightarrow> (\<forall>s. map_option (\<lambda>s'. (args s' 8, args s' 16, mem s')) (asm_run prog prog s)
     = Some (deq_effect below (args s 0) (mem s)))"

lemmas enq_effects = enq_effect_def enq_store_def Let_def
lemmas deq_effects = deq_effect_def deq_load_def Let_def

lemma enq_runsI:
  assumes "\<And>s. \<not> mem s (args s 0 + TAIL_OFF) - mem s (args s 0 + CACHED_HEAD) > mem s (args s 0 + MASK_OFF) \<Longrightarrow>
      map_option (\<lambda>s'. (args s' 16, mem s')) (asm_run prog prog s) = Some (0, enq_store (args s 0) (args s 8) (mem s (args s 0 + TAIL_OFF)) (mem s))"
    and "\<And>s. mem s (args s 0 + TAIL_OFF) - mem s (args s 0 + CACHED_HEAD) > mem s (args s 0 + MASK_OFF) \<Longrightarrow>
      mem s (args s 0 + TAIL_OFF) - mem s (args s 0 + HEAD_OFF) > mem s (args s 0 + MASK_OFF) \<Longrightarrow>
      map_option (\<lambda>s'. (args s' 16, mem s')) (asm_run prog prog s)
        = Some (1, (mem s)(args s 0 + CACHED_HEAD := mem s (args s 0 + HEAD_OFF)))"
    and "\<And>s. mem s (args s 0 + TAIL_OFF) - mem s (args s 0 + CACHED_HEAD) > mem s (args s 0 + MASK_OFF) \<Longrightarrow>
      \<not> mem s (args s 0 + TAIL_OFF) - mem s (args s 0 + HEAD_OFF) > mem s (args s 0 + MASK_OFF) \<Longrightarrow>
      map_option (\<lambda>s'. (args s' 16, mem s')) (asm_run prog prog s)
        = Some (0, enq_store (args s 0) (args s 8) (mem s (args s 0 + TAIL_OFF)) ((mem s)(args s 0 + CACHED_HEAD := mem s (args s 0 + HEAD_OFF))))"
  shows "enq_runs prog"
  unfolding enq_runs_def enq_effect_def Let_def using assms by simp

lemma deq_runsI:
  assumes "\<And>s. \<not> mem s (args s 0 + HEAD_OFF) \<ge> mem s (args s 0 + CACHED_TAIL) \<Longrightarrow>
      map_option (\<lambda>s'. (args s' 8, args s' 16, mem s')) (asm_run prog prog s)
        = Some (deq_load (args s 0) (mem s (args s 0 + HEAD_OFF)) (mem s))"
    and "\<And>s. mem s (args s 0 + HEAD_OFF) \<ge> mem s (args s 0 + CACHED_TAIL) \<Longrightarrow>
      \<not> below (mem s (args s 0 + HEAD_OFF)) (mem s (args s 0 + TAIL_OFF)) \<Longrightarrow>
      map_option (\<lambda>s'. (args s' 8, args s' 16, mem s')) (asm_run prog prog s)
        = Some (0, 1, (mem s)(args s 0 + CACHED_TAIL := mem s (args s 0 + TAIL_OFF)))"
    and "\<And>s. mem s (args s 0 + HEAD_OFF) \<ge> mem s (args s 0 + CACHED_TAIL) \<Longrightarrow>
      below (mem s (args s 0 + HEAD_OFF)) (mem s (args s 0 + TAIL_OFF)) \<Longrightarrow>
      map_option (\<lambda>s'. (args s' 8, args s' 16, mem s')) (asm_run prog prog s)
        = Some (deq_load (args s 0) (mem s (args s 0 + HEAD_OFF)) ((mem s)(args s 0 + CACHED_TAIL := mem s (args s 0 + TAIL_OFF))))"
  shows "deq_runs below prog"
  unfolding deq_runs_def deq_effect_def Let_def using assms by simp

lemma index_first: "(push_bit 3 i AND push_bit 3 j) + b = b + (push_bit 3 i AND push_bit 3 (j :: u64))"
  by (rule add.commute)

lemmas asm_simps = set_reg_def enq_store_def deq_load_def linorder_not_less [symmetric]

lemma amd64_enq_runs: "enq_runs amd64_SPSCEnqueue"
  by (rule enq_runsI) (simp_all add: amd64_SPSCEnqueue_def asm_simps)

lemma arm64_enq_runs: "enq_runs arm64_SPSCEnqueue"
  by (rule enq_runsI) (simp_all add: arm64_SPSCEnqueue_def asm_simps)

lemma riscv64_enq_runs: "enq_runs riscv64_SPSCEnqueue"
  by (rule enq_runsI) (simp_all add: riscv64_SPSCEnqueue_def asm_simps index_first)

lemma loong64_enq_runs: "enq_runs loong64_SPSCEnqueue"
  by (rule enq_runsI) (simp_all add: loong64_SPSCEnqueue_def asm_simps index_first)

lemma amd64_deq_runs: "deq_runs (\<lambda>h t. h < t) amd64_SPSCDequeue"
  by (rule deq_runsI) (simp_all add: amd64_SPSCDequeue_def asm_simps)

lemma arm64_deq_runs: "deq_runs (\<lambda>h t. h < t) arm64_SPSCDequeue"
  by (rule deq_runsI) (simp_all add: arm64_SPSCDequeue_def asm_simps)

lemma riscv64_deq_runs: "deq_runs (\<lambda>h t. sint h < sint t) riscv64_SPSCDequeue"
  by (rule deq_runsI) (simp_all add: riscv64_SPSCDequeue_def asm_simps index_first)

lemma loong64_deq_runs: "deq_runs (\<lambda>h t. h < t) loong64_SPSCDequeue"
  by (rule deq_runsI) (simp_all add: loong64_SPSCDequeue_def asm_simps index_first)

section \<open>The Go wrappers\<close>

definition SPSCIndirect_Enqueue_asm :: "instr list \<Rightarrow> u64 \<Rightarrow> u64 \<Rightarrow> machine \<Rightarrow> (err option \<times> machine) go" where
  "SPSCIndirect_Enqueue_asm prog q elem s =
     (case asm_run prog prog (s\<lparr>args := (args s)(0 := q, 8 := elem)\<rparr>) of
        None \<Rightarrow> None
      | Some s' \<Rightarrow> if args s' 16 \<noteq> 0 then ret (Some ErrWouldBlock, s') else ret (None, s'))"

definition SPSCIndirect_Dequeue_asm :: "instr list \<Rightarrow> u64 \<Rightarrow> machine \<Rightarrow> ((u64 \<times> err option) \<times> machine) go" where
  "SPSCIndirect_Dequeue_asm prog q s =
     (case asm_run prog prog (s\<lparr>args := (args s)(0 := q)\<rparr>) of
        None \<Rightarrow> None
      | Some s' \<Rightarrow> if args s' 16 \<noteq> 0 then ret ((0, Some ErrWouldBlock), s') else ret ((args s' 8, None), s'))"

text \<open>The stubs for other architectures (\<open>stubs_generic.go\<close>), which no code calls.\<close>

definition stub_SPSCEnqueue :: "u64 \<Rightarrow> u64 \<Rightarrow> u64" where
  "stub_SPSCEnqueue q elem = 1"

definition stub_SPSCDequeue :: "u64 \<Rightarrow> u64 \<times> u64" where
  "stub_SPSCDequeue q = (0, 1)"

section \<open>The struct in memory\<close>

definition buf_addr :: "u64 \<Rightarrow> (u64 \<Rightarrow> u64) \<Rightarrow> nat \<Rightarrow> u64" where
  "buf_addr b M i = M (b + BUFFER_PTR) + push_bit 3 (of_nat i)"

definition asm_queue :: "u64 \<Rightarrow> nat \<Rightarrow> (u64 \<Rightarrow> u64) \<Rightarrow> SPSCIndirect" where
  "asm_queue b n M = \<lparr>head = M (b + HEAD_OFF), cachedTail = M (b + CACHED_TAIL), tail = M (b + TAIL_OFF),
     cachedHead = M (b + CACHED_HEAD), buffer = map (\<lambda>i. M (buf_addr b M i)) [0..<n], mask_q = M (b + MASK_OFF)\<rparr>"

text \<open>The buffer has \<open>n\<close> words, a power of two, and does not overlap the struct's fields.\<close>

definition asm_layout :: "u64 \<Rightarrow> nat \<Rightarrow> (u64 \<Rightarrow> u64) \<Rightarrow> bool" where
  "asm_layout b n M \<longleftrightarrow> (\<exists>k. 1 \<le> k \<and> k \<le> 60 \<and> n = 2 ^ k \<and> M (b + MASK_OFF) = 2 ^ k - 1)
     \<and> (\<forall>i<n. \<forall>off \<in> {HEAD_OFF, CACHED_TAIL, TAIL_OFF, CACHED_HEAD, BUFFER_PTR, MASK_OFF}. buf_addr b M i \<noteq> b + off)"

lemma asm_ring: "asm_layout b n M \<Longrightarrow> \<exists>k. spsc_ring k (asm_queue b n M)"
  by (auto simp: asm_layout_def spsc_ring_def asm_queue_def)

lemma asm_index:
  assumes "asm_layout b n M"
  shows "unat (t AND M (b + MASK_OFF)) < n"
    and "M (b + BUFFER_PTR) + push_bit 3 (t AND M (b + MASK_OFF)) = buf_addr b M (unat (t AND M (b + MASK_OFF)))"
proof -
  from assms obtain k where k: "k \<le> 60" "n = 2 ^ k" "M (b + MASK_OFF) = 2 ^ k - 1" by (auto simp: asm_layout_def)
  have "unat (t AND (2 ^ k - 1)) = unat t mod 2 ^ k" using k(1) by (intro unat_and_mask) simp
  then show "unat (t AND M (b + MASK_OFF)) < n" by (simp add: k)
  show "M (b + BUFFER_PTR) + push_bit 3 (t AND M (b + MASK_OFF)) = buf_addr b M (unat (t AND M (b + MASK_OFF)))"
    by (simp add: buf_addr_def)
qed

lemma buf_addr_inj:
  assumes "asm_layout b n M" and "i < n" and "j < n"
  shows "buf_addr b M i = buf_addr b M j \<longleftrightarrow> i = j"
proof
  assume "buf_addr b M i = buf_addr b M j"
  then have e: "push_bit 3 (of_nat i :: u64) = push_bit 3 (of_nat j)" by (simp add: buf_addr_def)
  from assms(1) obtain k where "k \<le> 60" "n = 2 ^ k" by (auto simp: asm_layout_def)
  then have "n \<le> 2 ^ 60" using power_increasing [of k 60 "2 :: nat"] by simp
  then have s: "i < 2 ^ 60" "j < 2 ^ 60" using assms(2,3) by simp_all
  have "unat (push_bit 3 (of_nat m :: u64)) = 8 * m" if "m < 2 ^ 60" for m
    using that by (simp add: push_bit_eq_mult unat_word_ariths unat_of_nat_u64 mult.commute)
  with e s show "i = j" by (metis mult_cancel1 zero_neq_numeral)
qed simp

lemma asm_layoutD:
  assumes "asm_layout b n M" and "i < n"
  shows "buf_addr b M i \<noteq> b + HEAD_OFF" "buf_addr b M i \<noteq> b + CACHED_TAIL" "buf_addr b M i \<noteq> b + TAIL_OFF"
    "buf_addr b M i \<noteq> b + CACHED_HEAD" "buf_addr b M i \<noteq> b + BUFFER_PTR" "buf_addr b M i \<noteq> b + MASK_OFF"
  using assms unfolding asm_layout_def by blast+

text \<open>Writing a field, writing a word of the buffer.\<close>

lemma buf_addr_upd: "a \<noteq> b + BUFFER_PTR \<Longrightarrow> buf_addr b (M(a := v)) = buf_addr b M"
  by (simp add: buf_addr_def fun_eq_iff)

lemma asm_write_field:
  assumes "asm_layout b n M"
  shows "asm_queue b n (M(b + HEAD_OFF := v)) = (asm_queue b n M)\<lparr>head := v\<rparr>"
    and "asm_queue b n (M(b + CACHED_TAIL := v)) = (asm_queue b n M)\<lparr>cachedTail := v\<rparr>"
    and "asm_queue b n (M(b + TAIL_OFF := v)) = (asm_queue b n M)\<lparr>tail := v\<rparr>"
    and "asm_queue b n (M(b + CACHED_HEAD := v)) = (asm_queue b n M)\<lparr>cachedHead := v\<rparr>"
  using asm_layoutD [OF assms] by (simp_all add: asm_queue_def buf_addr_upd)

lemma asm_layout_field:
  assumes "asm_layout b n M" and "off \<in> {HEAD_OFF, CACHED_TAIL, TAIL_OFF, CACHED_HEAD}"
  shows "asm_layout b n (M(b + off := v))"
proof -
  have "b + off \<noteq> b + BUFFER_PTR" "b + off \<noteq> b + MASK_OFF" using assms(2) by auto
  then show ?thesis using assms(1) by (auto simp: asm_layout_def buf_addr_upd)
qed

lemma asm_write_buf:
  assumes "asm_layout b n M" and "i < n"
  shows "asm_queue b n (M(buf_addr b M i := v)) = (asm_queue b n M)\<lparr>buffer := (buffer (asm_queue b n M))[i := v]\<rparr>"
    and "asm_layout b n (M(buf_addr b M i := v))"
proof -
  note D = asm_layoutD [OF assms]
  have "map (\<lambda>j. (M(buf_addr b M i := v)) (buf_addr b M j)) [0..<n] = (map (\<lambda>j. M (buf_addr b M j)) [0..<n])[i := v]"
    using buf_addr_inj [OF assms(1)] assms(2) by (auto simp: list_eq_iff_nth_eq nth_list_update)
  then show "asm_queue b n (M(buf_addr b M i := v)) = (asm_queue b n M)\<lparr>buffer := (buffer (asm_queue b n M))[i := v]\<rparr>"
    using D by (simp add: asm_queue_def buf_addr_upd)
  show "asm_layout b n (M(buf_addr b M i := v))"
    using assms(1) D by (simp add: asm_layout_def buf_addr_upd)
qed

section \<open>Assembly and portable version agree\<close>

lemma enq_store_queue:
  assumes "asm_layout b n M"
  shows "asm_queue b n (enq_store b v t M) = (asm_queue b n M)\<lparr>buffer :=
      (buffer (asm_queue b n M))[unat (t AND M (b + MASK_OFF)) := v], tail := t + 1\<rparr>"
    and "asm_layout b n (enq_store b v t M)"
proof -
  note i = asm_index [OF assms, of t] and W = asm_write_buf [OF assms asm_index(1) [OF assms, of t], of v]
  show "asm_queue b n (enq_store b v t M) = (asm_queue b n M)\<lparr>buffer :=
      (buffer (asm_queue b n M))[unat (t AND M (b + MASK_OFF)) := v], tail := t + 1\<rparr>"
    unfolding enq_store_def i(2) asm_write_field(3) [OF W(2)] W(1) by simp
  show "asm_layout b n (enq_store b v t M)"
    unfolding enq_store_def i(2) by (rule asm_layout_field [OF W(2)]) simp
qed

lemma asm_queue_simps [simp]:
  "head (asm_queue b n M) = M (b + HEAD_OFF)" "cachedTail (asm_queue b n M) = M (b + CACHED_TAIL)"
  "tail (asm_queue b n M) = M (b + TAIL_OFF)" "cachedHead (asm_queue b n M) = M (b + CACHED_HEAD)"
  "mask_q (asm_queue b n M) = M (b + MASK_OFF)" "length (buffer (asm_queue b n M)) = n"
  "i < n \<Longrightarrow> buffer (asm_queue b n M) ! i = M (buf_addr b M i)"
  by (simp_all add: asm_queue_def)

lemma enq_effect_queue:
  assumes "asm_layout b n M"
  shows "case enq_effect b v M of (r, M') \<Rightarrow>
      SPSCIndirect_Enqueue v (asm_queue b n M) = ret (if r \<noteq> 0 then Some ErrWouldBlock else None, asm_queue b n M')
      \<and> asm_layout b n M'"
proof -
  note L = asm_layout_field [OF assms, of CACHED_HEAD "M (b + HEAD_OFF)"]
  show ?thesis
    using enq_store_queue [OF assms, of v "M (b + TAIL_OFF)"] enq_store_queue [OF L, of v "M (b + TAIL_OFF)"]
      asm_write_field(4) [OF assms, of "M (b + HEAD_OFF)"] asm_index(1) [OF assms] L
    by (simp add: enq_effect_def SPSCIndirect_Enqueue_def Let_def)
qed

lemma deq_load_queue:
  assumes "asm_layout b n M"
  shows "case deq_load b h M of (v, r, M') \<Rightarrow> r = 0 \<and> v = buffer (asm_queue b n M) ! unat (h AND M (b + MASK_OFF))
      \<and> asm_queue b n M' = (asm_queue b n M)\<lparr>head := h + 1\<rparr> \<and> asm_layout b n M'"
  using asm_index [OF assms, of h] asm_write_field(1) [OF assms] asm_layout_field [OF assms, of HEAD_OFF]
  by (simp add: deq_load_def)

lemma deq_effect_queue:
  assumes "asm_layout b n M" and "below (M (b + HEAD_OFF)) (M (b + TAIL_OFF)) = (M (b + HEAD_OFF) < M (b + TAIL_OFF))"
  shows "case deq_effect below b M of (v, r, M') \<Rightarrow>
      SPSCIndirect_Dequeue (asm_queue b n M)
        = ret (if r \<noteq> 0 then (0, Some ErrWouldBlock) else (v, None), asm_queue b n M')
      \<and> asm_layout b n M'"
proof -
  note L = asm_layout_field [OF assms(1), of CACHED_TAIL "M (b + TAIL_OFF)"]
  show ?thesis
    using deq_load_queue [OF assms(1), of "M (b + HEAD_OFF)"] deq_load_queue [OF L, of "M (b + HEAD_OFF)"]
      asm_write_field(2) [OF assms(1), of "M (b + TAIL_OFF)"] asm_index(1) [OF assms(1)] L assms(2)
    by (auto simp: deq_effect_def SPSCIndirect_Dequeue_def Let_def linorder_not_less [symmetric] split: prod.splits)
qed

lemma enq_asm_refines:
  assumes "enq_runs prog" and "asm_layout b n (mem s)"
  shows "\<exists>e s'. SPSCIndirect_Enqueue_asm prog b v s = ret (e, s')
      \<and> SPSCIndirect_Enqueue v (asm_queue b n (mem s)) = ret (e, asm_queue b n (mem s')) \<and> asm_layout b n (mem s')"
proof -
  from assms(1) obtain s' where "asm_run prog prog (s\<lparr>args := (args s)(0 := b, 8 := v)\<rparr>) = Some s'"
      "(args s' 16, mem s') = enq_effect b v (mem s)"
    unfolding enq_runs_def by (force dest: spec [of _ "s\<lparr>args := (args s)(0 := b, 8 := v)\<rparr>"])
  with enq_effect_queue [OF assms(2), of v] show ?thesis
    by (cases "enq_effect b v (mem s)") (auto simp: SPSCIndirect_Enqueue_asm_def)
qed

lemma deq_asm_refines:
  assumes "deq_runs below prog" and "asm_layout b n (mem s)"
    and "below (mem s (b + HEAD_OFF)) (mem s (b + TAIL_OFF)) = (mem s (b + HEAD_OFF) < mem s (b + TAIL_OFF))"
  shows "\<exists>r s'. SPSCIndirect_Dequeue_asm prog b s = ret (r, s')
      \<and> SPSCIndirect_Dequeue (asm_queue b n (mem s)) = ret (r, asm_queue b n (mem s')) \<and> asm_layout b n (mem s')"
proof -
  from assms(1) obtain s' where "asm_run prog prog (s\<lparr>args := (args s)(0 := b)\<rparr>) = Some s'"
      "(args s' 8, args s' 16, mem s') = deq_effect below b (mem s)"
    unfolding deq_runs_def by (force dest: spec [of _ "s\<lparr>args := (args s)(0 := b)\<rparr>"])
  with deq_effect_queue [of b n "mem s" below, OF assms(2,3)] show ?thesis
    by (cases "deq_effect below b (mem s)") (auto simp: SPSCIndirect_Dequeue_asm_def)
qed

lemma signed_below:
  "unat h < 2 ^ 63 \<Longrightarrow> unat t < 2 ^ 63 \<Longrightarrow> (sint (h :: u64) < sint (t :: u64)) = (h < t)"
  by (simp add: sint_u64 word_less_nat_alt del: of_nat_unat)

lemma signed_above: "unat h < 2 ^ 63 \<Longrightarrow> 2 ^ 63 \<le> unat t \<Longrightarrow> \<not> sint (h :: u64) < sint (t :: u64)"
  using sint_neg_iff [of h] sint_neg_iff [of t] by linarith

text \<open>The riscv64 dequeue when the counters cross \<open>2 ^ 63\<close>: empty at first, then the element.\<close>

lemma riscv64_crossing:
  assumes "asm_layout b n (mem s)" and "unat (mem s (b + HEAD_OFF)) < 2 ^ 63" and "2 ^ 63 \<le> unat (mem s (b + TAIL_OFF))"
    and "mem s (b + CACHED_TAIL) \<le> mem s (b + HEAD_OFF)"
  shows "\<exists>s'. SPSCIndirect_Dequeue_asm riscv64_SPSCDequeue b s = ret ((0, Some ErrWouldBlock), s')
    \<and> asm_queue b n (mem s') = (asm_queue b n (mem s))\<lparr>cachedTail := mem s (b + TAIL_OFF)\<rparr> \<and> asm_layout b n (mem s')"
proof -
  from riscv64_deq_runs obtain s' where s': "asm_run riscv64_SPSCDequeue riscv64_SPSCDequeue (s\<lparr>args := (args s)(0 := b)\<rparr>) = Some s'"
      "(args s' 8, args s' 16, mem s') = deq_effect (\<lambda>h t. sint h < sint t) b (mem s)"
    unfolding deq_runs_def by (force dest: spec [of _ "s\<lparr>args := (args s)(0 := b)\<rparr>"])
  have "deq_effect (\<lambda>h t. sint h < sint t) b (mem s) = (0, 1, (mem s)(b + CACHED_TAIL := mem s (b + TAIL_OFF)))"
    using assms(4) signed_above [OF assms(2,3)] by (simp add: deq_effect_def)
  with s' asm_write_field(2) [OF assms(1)] asm_layout_field [OF assms(1), of CACHED_TAIL] show ?thesis
    by (simp add: SPSCIndirect_Dequeue_asm_def)
qed

end
