(* ===== verification/Interleaving.thy ===== *)
theory Interleaving
  imports Fifo_Spec
begin

text \<open>
  Executions of several goroutines on one queue. A goroutine's call is cut into its accesses to
  shared memory, each of them one atomic step; an execution is any interleaving of such steps.
  Memory is sequentially consistent: the acquire and release annotations of the source, which
  ask for less, are taken to give at least the order the steps are written in.

  A step that is the moment at which an operation takes effect carries that operation and its
  answer as a label. The locale states what it takes for the labels of every execution to be a
  run of the abstract FIFO, that is, for the queue to be linearizable.
\<close>

inductive exec :: "('c \<Rightarrow> 'l option \<Rightarrow> 'c \<Rightarrow> bool) \<Rightarrow> 'c \<Rightarrow> nat \<Rightarrow> 'l list \<Rightarrow> 'c \<Rightarrow> bool"
  for step :: "'c \<Rightarrow> 'l option \<Rightarrow> 'c \<Rightarrow> bool" and c0 :: 'c where
  exec_init: "exec step c0 0 [] c0"
| exec_tau: "exec step c0 m ls c \<Longrightarrow> step c None c' \<Longrightarrow> exec step c0 (Suc m) ls c'"
| exec_label: "exec step c0 m ls c \<Longrightarrow> step c (Some l) c' \<Longrightarrow> exec step c0 (Suc m) (ls @ [l]) c'"

inductive_cases exec_0E: "exec step c0 0 ls c"
inductive_cases exec_SucE: "exec step c0 (Suc m) ls c"

lemma exec_invariant:
  assumes "exec step c0 m ls c" and "P 0 c0" and "m \<le> bound"
    and "\<And>m c l c'. P m c \<Longrightarrow> m < bound \<Longrightarrow> step c l c' \<Longrightarrow> P (Suc m) c'"
  shows "P m c"
  using assms(1,3) by induction (use assms(2,4) in \<open>auto simp: Suc_le_eq\<close>)

definition append_label :: "'l list \<Rightarrow> 'l option \<Rightarrow> 'l list" where
  "append_label ls l = (case l of None \<Rightarrow> ls | Some a \<Rightarrow> ls @ [a])"

lemma append_label_simps [simp]: "append_label ls None = ls" "append_label ls (Some a) = ls @ [a]"
  by (simp_all add: append_label_def)

lemma exec_trace_invariant:
  assumes "exec step c0 m ls c" and "P 0 [] c0" and "m \<le> bound"
    and "\<And>m ls c l c'. P m ls c \<Longrightarrow> m < bound \<Longrightarrow> step c l c' \<Longrightarrow> P (Suc m) (append_label ls l) c'"
  shows "P m ls c"
  using assms(1,3)
proof induction
  case (exec_tau m ls c c')
  then show ?case using assms(4) [of m ls c None c'] by simp
next
  case (exec_label m ls c l c')
  then show ?case using assms(4) [of m ls c "Some l" c'] by simp
qed (rule assms(2))

text \<open>Executing a schedule: a list of moves, each of which determines a step.\<close>

fun sched :: "('mv \<Rightarrow> 'c \<Rightarrow> ('l option \<times> 'c) option) \<Rightarrow> 'mv list \<Rightarrow> 'c \<Rightarrow> ('l list \<times> 'c) option" where
  "sched f [] c = Some ([], c)"
| "sched f (mv # mvs) c = (case f mv c of None \<Rightarrow> None
     | Some (l, c') \<Rightarrow> (case sched f mvs c' of None \<Rightarrow> None
        | Some (ls, c'') \<Rightarrow> Some ((case l of None \<Rightarrow> ls | Some a \<Rightarrow> a # ls), c'')))"

lemma sched_exec:
  assumes "sched f mvs c = Some (ls, c')" and "\<And>mv c l c'. f mv c = Some (l, c') \<Longrightarrow> step c l c'"
    and "exec step c0 m ls0 c"
  shows "exec step c0 (m + length mvs) (ls0 @ ls) c'"
  using assms(1,3)
proof (induction mvs arbitrary: c m ls0 ls)
  case (Cons mv mvs)
  from Cons.prems(1) obtain l c1 ls1 where d: "f mv c = Some (l, c1)"
      "sched f mvs c1 = Some (ls1, c')" "ls = (case l of None \<Rightarrow> ls1 | Some a \<Rightarrow> a # ls1)"
    by (auto split: option.splits)
  note s = assms(2) [OF d(1)]
  show ?case
  proof (cases l)
    case None
    then have "exec step c0 (Suc m) ls0 c1" using s Cons.prems(2) by (auto intro: exec_tau)
    from Cons.IH [OF d(2) this] None d(3) show ?thesis by simp
  next
    case (Some a)
    then have "exec step c0 (Suc m) (ls0 @ [a]) c1" using s Cons.prems(2) by (auto intro: exec_label)
    from Cons.IH [OF d(2) this] Some d(3) show ?thesis by simp
  qed
qed simp

lemma sched_init_exec:
  assumes "sched f mvs c0 = Some (ls, c)" and "\<And>mv c l c'. f mv c = Some (l, c') \<Longrightarrow> step c l c'"
  shows "exec step c0 (length mvs) ls c"
  using sched_exec [OF assms exec_init] by simp

text \<open>
  One goroutine running a call to its end while the others rest, for a step function: the last
  label of the run and the state after it.
\<close>

partial_function (option) run_alone
  :: "('pc \<Rightarrow> 's \<Rightarrow> ('l option \<times> 'pc \<times> 's) go) \<Rightarrow> 'pc \<Rightarrow> 'l option \<Rightarrow> 'pc \<Rightarrow> 's \<Rightarrow> ('l option \<times> 's) go" where
  "run_alone step idle l pc s = (if pc = idle then ret (l, s) else case step pc s of
       None \<Rightarrow> None
     | Some (Inl p) \<Rightarrow> panics p
     | Some (Inr (l', pc', s')) \<Rightarrow> run_alone step idle (if l' = None then l else l') pc' s')"

lemma run_alone_idle: "run_alone step idle l idle s = ret (l, s)"
  by (subst run_alone.simps) simp

lemma run_alone_step:
  "pc \<noteq> idle \<Longrightarrow> step pc s = ret (l', pc', s') \<Longrightarrow>
   run_alone step idle l pc s = run_alone step idle (if l' = None then l else l') pc' s'"
  by (subst run_alone.simps) simp

lemma run_alone_panic:
  "pc \<noteq> idle \<Longrightarrow> step pc s = panics p \<Longrightarrow> run_alone step idle l pc s = panics p"
  by (subst run_alone.simps) simp

lemmas run_alone_simps = run_alone_idle run_alone_step run_alone_panic

text \<open>What a step must do to the abstract contents.\<close>

fun fifo_effect :: "'a \<Rightarrow> nat \<Rightarrow> ('a call \<times> 'a answer) option \<Rightarrow> 'a list \<Rightarrow> 'a list \<Rightarrow> bool" where
  "fifo_effect zero cap None xs ys \<longleftrightarrow> ys = xs"
| "fifo_effect zero cap (Some (c, a)) xs ys \<longleftrightarrow> fifo_call zero cap c xs = (a, ys)"

locale fifo_linearization =
  fixes step :: "'c \<Rightarrow> ('a call \<times> 'a answer) option \<Rightarrow> 'c \<Rightarrow> bool"
    and inv :: "nat \<Rightarrow> 'c \<Rightarrow> bool"
    and elems :: "'c \<Rightarrow> 'a list"
    and cap :: "'c \<Rightarrow> nat"
    and zero :: 'a
    and bound :: nat
  assumes step_inv: "inv m c \<Longrightarrow> m < bound \<Longrightarrow> step c l c' \<Longrightarrow> inv (Suc m) c'"
    and step_cap: "inv m c \<Longrightarrow> m < bound \<Longrightarrow> step c l c' \<Longrightarrow> cap c' = cap c"
    and step_effect: "inv m c \<Longrightarrow> m < bound \<Longrightarrow> step c l c' \<Longrightarrow>
      fifo_effect zero (cap c) l (elems c) (elems c')"
begin

lemma exec_inv:
  assumes "exec step c0 m ls c" and "inv 0 c0" and "m \<le> bound"
  shows "inv m c" and "cap c = cap c0"
proof -
  have "inv m c \<and> cap c = cap c0"
  proof (rule exec_invariant [OF assms(1) _ assms(3)])
    show "inv 0 c0 \<and> cap c0 = cap c0" using assms(2) by simp
    show "inv (Suc m) c' \<and> cap c' = cap c0" if "inv m c \<and> cap c = cap c0" "m < bound" "step c l c'" for m c l c'
      using that step_inv [of m c l c'] step_cap [of m c l c'] by simp
  qed
  then show "inv m c" and "cap c = cap c0" by simp_all
qed

text \<open>The labels of an execution are a run of the abstract FIFO.\<close>

lemma exec_linearizes:
  assumes "exec step c0 m ls c" and "inv 0 c0" and "m \<le> bound"
  shows "fifo_run zero (cap c0) (map fst ls) (elems c0) = (map snd ls, elems c)"
  using assms(1,3)
proof (induction)
  case exec_init
  then show ?case by simp
next
  case (exec_tau m ls c c')
  then have "inv m c" "cap c = cap c0" using exec_inv [OF exec_tau.hyps(1) assms(2)] by simp_all
  with exec_tau step_effect [of m c None c'] show ?case by simp
next
  case (exec_label m ls c l c')
  then have i: "inv m c" "cap c = cap c0" using exec_inv [OF exec_label.hyps(1) assms(2)] by simp_all
  obtain f a where l: "l = (f, a)" by fastforce
  have "fifo_call zero (cap c0) f (elems c) = (a, elems c')"
    using step_effect [of m c "Some l" c'] i exec_label by (simp add: l)
  with exec_label show ?case by (simp add: fifo_run_append l)
qed

end

end
