(* ===== verification/SPSC_Concurrent.thy ===== *)
theory SPSC_Concurrent
  imports SPSC Interleaving
begin

text \<open>
  The producer and the consumer of an \<open>SPSC[T]\<close> queue (\<open>spsc.go\<close>) interleaved. The program counter
  of each side says which shared access of \<open>Enqueue\<close> or \<open>Dequeue\<close> comes next and carries the local
  variables; \<open>cachedHead\<close> and \<open>cachedTail\<close> are private to one side and are read and written
  together with the access they go with. A call in isolation is the function of theory \<open>SPSC\<close>.
\<close>

section \<open>Atomic steps\<close>

datatype 'a producer_pc = PIdle | PCall 'a | PLoadHead 'a u64 | PStore 'a u64 | PPublish 'a u64

datatype 'a consumer_pc = CIdle | CCall | CLoadTail u64 | CRead u64 | CClear u64 'a | CPublish u64 'a

fun SPSC_Enqueue_step :: "'a producer_pc \<Rightarrow> 'a SPSC
    \<Rightarrow> (('a call \<times> 'a answer) option \<times> 'a producer_pc \<times> 'a SPSC) go" where
  "SPSC_Enqueue_step PIdle q = ret (None, PIdle, q)"
| "SPSC_Enqueue_step (PCall elem) q =
     (let t = tail q
      in if t - cachedHead q > mask_q q then ret (None, PLoadHead elem t, q)
         else ret (None, PStore elem t, q))"
| "SPSC_Enqueue_step (PLoadHead elem t) q =
     (let q = q\<lparr>cachedHead := head q\<rparr>
      in if t - cachedHead q > mask_q q
         then ret (Some (Enqueue elem, EnqueueRet (Some ErrWouldBlock)), PIdle, q)
         else ret (None, PStore elem t, q))"
| "SPSC_Enqueue_step (PStore elem t) q =
     (if unat (t AND mask_q q) < length (buffer q)
      then ret (None, PPublish elem t, q\<lparr>buffer := (buffer q)[unat (t AND mask_q q) := elem]\<rparr>)
      else panics IndexOutOfRange)"
| "SPSC_Enqueue_step (PPublish elem t) q =
     ret (Some (Enqueue elem, EnqueueRet None), PIdle, q\<lparr>tail := t + 1\<rparr>)"

fun SPSC_Dequeue_step :: "'a \<Rightarrow> 'a consumer_pc \<Rightarrow> 'a SPSC
    \<Rightarrow> (('a call \<times> 'a answer) option \<times> 'a consumer_pc \<times> 'a SPSC) go" where
  "SPSC_Dequeue_step zero CIdle q = ret (None, CIdle, q)"
| "SPSC_Dequeue_step zero CCall q =
     (let h = head q
      in if h \<ge> cachedTail q then ret (None, CLoadTail h, q) else ret (None, CRead h, q))"
| "SPSC_Dequeue_step zero (CLoadTail h) q =
     (let q = q\<lparr>cachedTail := tail q\<rparr>
      in if h \<ge> cachedTail q
         then ret (Some (Dequeue, DequeueRet zero (Some ErrWouldBlock)), CIdle, q)
         else ret (None, CRead h, q))"
| "SPSC_Dequeue_step zero (CRead h) q =
     (if unat (h AND mask_q q) < length (buffer q)
      then ret (None, CClear h (buffer q ! unat (h AND mask_q q)), q)
      else panics IndexOutOfRange)"
| "SPSC_Dequeue_step zero (CClear h elem) q =
     (if unat (h AND mask_q q) < length (buffer q)
      then ret (None, CPublish h elem, q\<lparr>buffer := (buffer q)[unat (h AND mask_q q) := zero]\<rparr>)
      else panics IndexOutOfRange)"
| "SPSC_Dequeue_step zero (CPublish h elem) q =
     ret (Some (Dequeue, DequeueRet elem None), CIdle, q\<lparr>head := h + 1\<rparr>)"

text \<open>A call run to its end without the other side.\<close>

partial_function (option) SPSC_Enqueue_alone :: "'a producer_pc \<Rightarrow> 'a SPSC \<Rightarrow> (err option \<times> 'a SPSC) go" where
  "SPSC_Enqueue_alone pc q = (case SPSC_Enqueue_step pc q of
       None \<Rightarrow> None
     | Some (Inl p) \<Rightarrow> panics p
     | Some (Inr (Some (_, EnqueueRet e), _, q')) \<Rightarrow> ret (e, q')
     | Some (Inr (_, pc', q')) \<Rightarrow> SPSC_Enqueue_alone pc' q')"

partial_function (option) SPSC_Dequeue_alone
  :: "'a \<Rightarrow> 'a consumer_pc \<Rightarrow> 'a SPSC \<Rightarrow> (('a \<times> err option) \<times> 'a SPSC) go" where
  "SPSC_Dequeue_alone zero pc q = (case SPSC_Dequeue_step zero pc q of
       None \<Rightarrow> None
     | Some (Inl p) \<Rightarrow> panics p
     | Some (Inr (Some (_, DequeueRet v e), _, q')) \<Rightarrow> ret ((v, e), q')
     | Some (Inr (_, pc', q')) \<Rightarrow> SPSC_Dequeue_alone zero pc' q')"

lemma enqueue_alone_publish:
  "SPSC_Enqueue_alone (PPublish x t) q = ret (None, q\<lparr>tail := t + 1\<rparr>)"
  by (subst SPSC_Enqueue_alone.simps) simp

lemma enqueue_alone_store:
  "SPSC_Enqueue_alone (PStore x t) q =
     (if unat (t AND mask_q q) < length (buffer q)
      then ret (None, q\<lparr>buffer := (buffer q)[unat (t AND mask_q q) := x], tail := t + 1\<rparr>)
      else panics IndexOutOfRange)"
  by (subst SPSC_Enqueue_alone.simps) (simp add: enqueue_alone_publish)

lemma enqueue_alone_load:
  "SPSC_Enqueue_alone (PLoadHead x t) q =
     (let q = q\<lparr>cachedHead := head q\<rparr>
      in if t - cachedHead q > mask_q q then ret (Some ErrWouldBlock, q)
         else SPSC_Enqueue_alone (PStore x t) q)"
  by (subst SPSC_Enqueue_alone.simps) (simp add: Let_def)

lemma enqueue_alone: "SPSC_Enqueue_alone (PCall x) q = SPSC_Enqueue x q"
  by (subst SPSC_Enqueue_alone.simps)
    (simp add: SPSC_Enqueue_def Let_def enqueue_alone_store enqueue_alone_load)

lemma dequeue_alone_simps:
  "SPSC_Dequeue_alone zero (CPublish h v) q = ret ((v, None), q\<lparr>head := h + 1\<rparr>)"
  "SPSC_Dequeue_alone zero (CClear h v) q =
     (if unat (h AND mask_q q) < length (buffer q)
      then ret ((v, None), q\<lparr>buffer := (buffer q)[unat (h AND mask_q q) := zero], head := h + 1\<rparr>)
      else panics IndexOutOfRange)"
  "SPSC_Dequeue_alone zero (CRead h) q =
     (if unat (h AND mask_q q) < length (buffer q)
      then ret ((buffer q ! unat (h AND mask_q q), None),
                q\<lparr>buffer := (buffer q)[unat (h AND mask_q q) := zero], head := h + 1\<rparr>)
      else panics IndexOutOfRange)"
proof -
  show p: "SPSC_Dequeue_alone zero (CPublish h v) q = ret ((v, None), q\<lparr>head := h + 1\<rparr>)" for v q
    by (subst SPSC_Dequeue_alone.simps) simp
  show c: "SPSC_Dequeue_alone zero (CClear h v) q =
     (if unat (h AND mask_q q) < length (buffer q)
      then ret ((v, None), q\<lparr>buffer := (buffer q)[unat (h AND mask_q q) := zero], head := h + 1\<rparr>)
      else panics IndexOutOfRange)" for v
    by (subst SPSC_Dequeue_alone.simps) (simp add: p)
  show "SPSC_Dequeue_alone zero (CRead h) q =
     (if unat (h AND mask_q q) < length (buffer q)
      then ret ((buffer q ! unat (h AND mask_q q), None),
                q\<lparr>buffer := (buffer q)[unat (h AND mask_q q) := zero], head := h + 1\<rparr>)
      else panics IndexOutOfRange)"
    by (subst SPSC_Dequeue_alone.simps) (simp add: c)
qed

lemma dequeue_alone_load:
  "SPSC_Dequeue_alone zero (CLoadTail h) q =
     (let q = q\<lparr>cachedTail := tail q\<rparr>
      in if h \<ge> cachedTail q then ret ((zero, Some ErrWouldBlock), q)
         else SPSC_Dequeue_alone zero (CRead h) q)"
  by (subst SPSC_Dequeue_alone.simps) (simp add: Let_def)

lemma dequeue_alone: "SPSC_Dequeue_alone zero CCall q = SPSC_Dequeue zero q"
  by (subst SPSC_Dequeue_alone.simps)
    (simp add: SPSC_Dequeue_def Let_def dequeue_alone_simps dequeue_alone_load)

section \<open>Interleavings\<close>

record 'a spsc_conf =
  shared :: "'a SPSC"
  ppc :: "'a producer_pc"
  cpc :: "'a consumer_pc"

inductive spsc_step :: "'a \<Rightarrow> 'a spsc_conf \<Rightarrow> ('a call \<times> 'a answer) option \<Rightarrow> 'a spsc_conf \<Rightarrow> bool"
  for zero :: 'a where
  call_Enqueue: "ppc c = PIdle \<Longrightarrow> spsc_step zero c None (c\<lparr>ppc := PCall x\<rparr>)"
| call_Dequeue: "cpc c = CIdle \<Longrightarrow> spsc_step zero c None (c\<lparr>cpc := CCall\<rparr>)"
| step_Enqueue: "ppc c \<noteq> PIdle \<Longrightarrow> SPSC_Enqueue_step (ppc c) (shared c) = ret (l, pc, q) \<Longrightarrow>
    spsc_step zero c l (c\<lparr>shared := q, ppc := pc\<rparr>)"
| step_Dequeue: "cpc c \<noteq> CIdle \<Longrightarrow> SPSC_Dequeue_step zero (cpc c) (shared c) = ret (l, pc, q) \<Longrightarrow>
    spsc_step zero c l (c\<lparr>shared := q, cpc := pc\<rparr>)"

inductive_cases spsc_stepE: "spsc_step zero c l c'"

section \<open>Invariant and contents\<close>

text \<open>
  What a side knows at each of its program points. The other side's steps keep it: the consumer
  only makes room, the producer only adds elements, and the slots they touch are different.
\<close>

fun producer_ok :: "'a producer_pc \<Rightarrow> 'a SPSC \<Rightarrow> bool" where
  "producer_ok (PLoadHead x t) q \<longleftrightarrow> t = tail q"
| "producer_ok (PStore x t) q \<longleftrightarrow> t = tail q \<and> unat t < unat (head q) + length (buffer q)"
| "producer_ok (PPublish x t) q \<longleftrightarrow> t = tail q \<and> unat t < unat (head q) + length (buffer q)
     \<and> buffer q ! (unat t mod length (buffer q)) = x"
| "producer_ok _ q \<longleftrightarrow> True"

fun consumer_ok :: "'a consumer_pc \<Rightarrow> 'a SPSC \<Rightarrow> bool" where
  "consumer_ok (CLoadTail h) q \<longleftrightarrow> h = head q"
| "consumer_ok (CRead h) q \<longleftrightarrow> h = head q \<and> unat h < unat (tail q)"
| "consumer_ok (CClear h x) q \<longleftrightarrow> h = head q \<and> unat h < unat (tail q)
     \<and> buffer q ! (unat h mod length (buffer q)) = x"
| "consumer_ok (CPublish h x) q \<longleftrightarrow> h = head q \<and> unat h < unat (tail q)"
| "consumer_ok _ q \<longleftrightarrow> True"

definition spsc_shape :: "nat \<Rightarrow> 'a SPSC \<Rightarrow> bool" where
  "spsc_shape m q \<longleftrightarrow> (\<exists>k\<le>62. spsc_ring k q)
     \<and> unat (head q) \<le> unat (tail q) \<and> unat (tail q) \<le> unat (head q) + length (buffer q)
     \<and> unat (cachedHead q) \<le> unat (head q) \<and> unat (cachedTail q) \<le> unat (tail q)
     \<and> unat (tail q) \<le> m"

definition spsc_cinv :: "nat \<Rightarrow> 'a spsc_conf \<Rightarrow> bool" where
  "spsc_cinv m c \<longleftrightarrow> spsc_shape m (shared c) \<and> producer_ok (ppc c) (shared c) \<and> consumer_ok (cpc c) (shared c)"

text \<open>The value a consumer has taken out of its slot but not yet published still counts.\<close>

fun taken :: "'a consumer_pc \<Rightarrow> 'a list \<Rightarrow> 'a list" where
  "taken (CPublish h x) xs = x # tl xs"
| "taken _ xs = xs"

definition spsc_celems :: "'a spsc_conf \<Rightarrow> 'a list" where
  "spsc_celems c = taken (cpc c) (spsc_elems (shared c))"

definition spsc_bound :: nat where
  "spsc_bound = 2 ^ 64 - 1"

lemma spsc_shape_pos: "spsc_shape m q \<Longrightarrow> 0 < length (buffer q)"
  using spsc_pos by (auto simp: spsc_shape_def)

lemma spsc_shape_index:
  "spsc_shape m q \<Longrightarrow> unat (p AND mask_q q) = unat p mod length (buffer q)"
  "spsc_shape m q \<Longrightarrow> unat (p AND mask_q q) < length (buffer q)"
  using spsc_idx spsc_pos by (force simp: spsc_shape_def)+

lemma spsc_slots_differ:
  assumes "spsc_shape m q" and "unat (head q) < unat (tail q)"
    and "unat (tail q) < unat (head q) + length (buffer q)"
  shows "unat (tail q) mod length (buffer q) \<noteq> unat (head q) mod length (buffer q)"
proof
  assume e: "unat (tail q) mod length (buffer q) = unat (head q) mod length (buffer q)"
  have "unat (tail q) - unat (head q) = 0"
    by (rule mod_pow2_inj [of _ "length (buffer q)" _ "unat (head q)"]) (use assms e in auto)
  with assms(2) show False by simp
qed

text \<open>The producer's steps.\<close>

lemma spsc_full_check:
  assumes "spsc_shape m q" and "unat c \<le> unat (tail q)"
  shows "tail q - c > mask_q q \<longleftrightarrow> unat c + length (buffer q) \<le> unat (tail q)"
  using assms spsc_full_test by (auto simp: spsc_shape_def)

lemma producer_step_inv:
  assumes "spsc_shape m q" and "producer_ok pc q" and "m < spsc_bound"
    and "SPSC_Enqueue_step pc q = ret (l, pc', q')"
  shows "spsc_shape (Suc m) q' \<and> producer_ok pc' q' \<and> length (buffer q') = length (buffer q)
     \<and> head q' = head q \<and> unat (tail q) \<le> unat (tail q')
     \<and> (buffer q' = buffer q \<or> unat (tail q) < unat (head q) + length (buffer q)
          \<and> (\<exists>x. buffer q' = (buffer q)[unat (tail q) mod length (buffer q) := x]))"
proof (cases pc)
  case PIdle
  with assms show ?thesis by (auto simp: spsc_shape_def)
next
  case (PCall x)
  have "unat (cachedHead q) \<le> unat (head q)" "unat (cachedHead q) \<le> unat (tail q)"
    using assms(1) by (auto simp: spsc_shape_def)
  with PCall assms spsc_full_check [OF assms(1), of "cachedHead q"] show ?thesis
    by (auto simp: spsc_shape_def Let_def split: if_splits)
next
  case (PLoadHead x t)
  have "unat (head q) \<le> unat (tail q)" using assms(1) by (auto simp: spsc_shape_def)
  with PLoadHead assms spsc_full_check [OF assms(1), of "head q"] show ?thesis
    by (auto simp: spsc_shape_def Let_def spsc_ring_def split: if_splits)
next
  case (PStore x t)
  with assms spsc_shape_index [OF assms(1)] show ?thesis
    by (auto simp: spsc_shape_def spsc_ring_def split: if_splits)
next
  case (PPublish x t)
  have "unat (tail q + 1) = Suc (unat (tail q))"
    using assms(1,3) by (subst unat_Suc_no_wrap) (auto simp: spsc_shape_def spsc_bound_def)
  with PPublish assms show ?thesis by (auto simp: spsc_shape_def spsc_ring_def)
qed

lemma consumer_step_inv:
  assumes "spsc_shape m q" and "consumer_ok pc q" and "m < spsc_bound"
    and "SPSC_Dequeue_step zero pc q = ret (l, pc', q')"
  shows "spsc_shape (Suc m) q' \<and> consumer_ok pc' q' \<and> length (buffer q') = length (buffer q)
     \<and> tail q' = tail q \<and> unat (head q) \<le> unat (head q')
     \<and> (buffer q' = buffer q \<or> unat (head q) < unat (tail q)
          \<and> (\<exists>x. buffer q' = (buffer q)[unat (head q) mod length (buffer q) := x]))"
proof (cases pc)
  case CIdle
  with assms show ?thesis by (auto simp: spsc_shape_def)
next
  case CCall
  with assms show ?thesis
    by (auto simp: spsc_shape_def Let_def word_le_nat_alt not_le split: if_splits)
next
  case (CLoadTail h)
  with assms show ?thesis
    by (auto simp: spsc_shape_def Let_def spsc_ring_def word_le_nat_alt not_le split: if_splits)
next
  case (CRead h)
  with assms spsc_shape_index [OF assms(1)] show ?thesis
    by (auto simp: spsc_shape_def spsc_ring_def split: if_splits)
next
  case (CClear h x)
  with assms spsc_shape_index [OF assms(1)] show ?thesis
    by (auto simp: spsc_shape_def spsc_ring_def split: if_splits)
next
  case (CPublish h x)
  then have "unat (head q + 1) = Suc (unat (head q))"
    using assms by (subst unat_Suc_no_wrap) (auto simp: spsc_shape_def spsc_bound_def)
  with CPublish assms show ?thesis by (auto simp: spsc_shape_def spsc_ring_def)
qed

text \<open>Neither side disturbs what the other knows.\<close>

lemma consumer_ok_stable:
  assumes "spsc_shape m q" and "consumer_ok pc q" and "length (buffer q') = length (buffer q)"
    and "head q' = head q" and "unat (tail q) \<le> unat (tail q')"
    and "buffer q' = buffer q \<or> unat (tail q) < unat (head q) + length (buffer q)
       \<and> (\<exists>x. buffer q' = (buffer q)[unat (tail q) mod length (buffer q) := x])"
  shows "consumer_ok pc q'"
proof (cases pc)
  case (CClear h x)
  with assms(2) have "unat (head q) < unat (tail q)" by auto
  with assms spsc_slots_differ [OF assms(1)] CClear show ?thesis by auto
qed (use assms in auto)

lemma producer_ok_stable:
  assumes "spsc_shape m q" and "producer_ok pc q" and "length (buffer q') = length (buffer q)"
    and "tail q' = tail q" and "unat (head q) \<le> unat (head q')"
    and "buffer q' = buffer q \<or> unat (head q) < unat (tail q)
       \<and> (\<exists>x. buffer q' = (buffer q)[unat (head q) mod length (buffer q) := x])"
  shows "producer_ok pc q'"
proof (cases pc)
  case (PPublish x t)
  with assms(2) have "unat (tail q) < unat (head q) + length (buffer q)" by auto
  with assms spsc_slots_differ [OF assms(1)] PPublish show ?thesis by force
qed (use assms in auto)

section \<open>Effects\<close>

lemma spsc_elems_store:
  assumes "unat (head q) \<le> unat (tail q)" and "unat (tail q) < unat (head q) + length (buffer q)"
  shows "spsc_elems (q\<lparr>buffer := (buffer q)[unat (tail q) mod length (buffer q) := x]\<rparr>) = spsc_elems q"
proof -
  let ?n = "length (buffer q)" and ?h = "unat (head q)" and ?t = "unat (tail q)"
  have "(buffer q)[?t mod ?n := x] ! ((?h + i) mod ?n) = buffer q ! ((?h + i) mod ?n)" if "i < ?t - ?h" for i
  proof -
    have "i < ?n" "?t - ?h < ?n" "i \<noteq> ?t - ?h" using that assms by linarith+
    then have "(?h + i) mod ?n \<noteq> (?h + (?t - ?h)) mod ?n" by (metis mod_pow2_inj)
    then show ?thesis using assms(1) by simp
  qed
  then show ?thesis by (auto simp: spsc_elems_def intro!: ring_list_cong)
qed

lemma spsc_elems_Cons:
  assumes "unat (head q) < unat (tail q)"
  shows "spsc_elems q = buffer q ! (unat (head q) mod length (buffer q))
     # ring_list (\<lambda>i. buffer q ! i) (length (buffer q)) (Suc (unat (head q))) (unat (tail q) - Suc (unat (head q)))"
proof -
  have "unat (tail q) - unat (head q) = Suc (unat (tail q) - Suc (unat (head q)))" using assms by simp
  then show ?thesis by (simp add: spsc_elems_def ring_list_Cons)
qed

lemma spsc_elems_clear:
  assumes "spsc_shape m q" and "unat (head q) < unat (tail q)"
  shows "tl (spsc_elems (q\<lparr>buffer := (buffer q)[unat (head q) mod length (buffer q) := x]\<rparr>)) = tl (spsc_elems q)"
proof -
  let ?n = "length (buffer q)" and ?h = "unat (head q)" and ?t = "unat (tail q)"
  have "(buffer q)[?h mod ?n := x] ! ((Suc ?h + i) mod ?n) = buffer q ! ((Suc ?h + i) mod ?n)"
    if "i < ?t - Suc ?h" for i
  proof -
    have "Suc i < ?n" using that assms by (auto simp: spsc_shape_def)
    then have "(?h + Suc i) mod ?n \<noteq> (?h + 0) mod ?n"
      using mod_pow2_inj [of "Suc i" ?n 0 ?h] by (metis Suc_neq_Zero gr_zeroI not_less0)
    then show ?thesis by simp
  qed
  then have "ring_list (\<lambda>i. (buffer q)[?h mod ?n := x] ! i) ?n (Suc ?h) (?t - Suc ?h)
      = ring_list (\<lambda>i. buffer q ! i) ?n (Suc ?h) (?t - Suc ?h)"
    by (rule ring_list_cong)
  then show ?thesis using assms(2) by (simp add: spsc_elems_Cons)
qed

lemma producer_effect:
  assumes "spsc_shape m q" and "producer_ok pc q" and "m < spsc_bound"
    and "SPSC_Enqueue_step pc q = ret (l, pc', q')"
  shows "case l of None \<Rightarrow> spsc_elems q' = spsc_elems q
    | Some ca \<Rightarrow> \<exists>x. ca = (Enqueue x, EnqueueRet (fst (fifo_enq (length (buffer q)) x (spsc_elems q))))
         \<and> spsc_elems q' = snd (fifo_enq (length (buffer q)) x (spsc_elems q))"
proof (cases pc)
  case PIdle
  with assms show ?thesis by auto
next
  case (PCall x)
  with assms show ?thesis by (auto simp: Let_def split: if_splits)
next
  case (PLoadHead x t)
  have "unat (head q) \<le> unat (tail q)" using assms(1) by (simp add: spsc_shape_def)
  with PLoadHead assms spsc_full_check [OF assms(1), of "head q"] show ?thesis
    by (auto simp: Let_def spsc_elems_def fifo_enq_def split: if_splits)
next
  case (PStore x t)
  with assms have "spsc_elems (q\<lparr>buffer := (buffer q)[unat (tail q) mod length (buffer q) := x]\<rparr>) = spsc_elems q"
    by (intro spsc_elems_store) (auto simp: spsc_shape_def)
  with PStore assms spsc_shape_index [OF assms(1)] show ?thesis by (auto split: if_splits)
next
  case (PPublish x t)
  from assms(1) obtain k where k: "spsc_ring k q" by (auto simp: spsc_shape_def)
  from PPublish assms(2) have x: "(buffer q)[unat (tail q) mod length (buffer q) := x] = buffer q"
    by (auto simp: list_update_same_conv spsc_pos [OF k])
  have "spsc_elems (q\<lparr>buffer := (buffer q)[unat (tail q) mod length (buffer q) := x], tail := tail q + 1\<rparr>)
      = spsc_elems q @ [x]"
    by (rule spsc_push [OF k]) (use PPublish assms in \<open>auto simp: spsc_shape_def spsc_bound_def\<close>)
  moreover have "length (spsc_elems q) < length (buffer q)"
    using PPublish assms by (auto simp: spsc_elems_def spsc_shape_def)
  ultimately show ?thesis using PPublish assms by (auto simp: x)
qed

lemma consumer_effect:
  assumes "spsc_shape m q" and "consumer_ok pc q" and "m < spsc_bound"
    and "SPSC_Dequeue_step zero pc q = ret (l, pc', q')"
  shows "fifo_effect zero n l (taken pc (spsc_elems q)) (taken pc' (spsc_elems q'))"
proof (cases pc)
  case CIdle
  with assms show ?thesis by auto
next
  case CCall
  with assms show ?thesis by (auto simp: Let_def split: if_splits)
next
  case (CLoadTail h)
  with assms show ?thesis
    by (auto simp: Let_def spsc_elems_def word_le_nat_alt split: if_splits)
next
  case (CRead h)
  with assms show ?thesis by (auto split: if_splits)
next
  case (CClear h x)
  then have ne: "unat (head q) < unat (tail q)" using assms(2) by auto
  with CClear assms spsc_shape_index [OF assms(1)] spsc_elems_clear [OF assms(1) ne] spsc_elems_Cons [OF ne]
  show ?thesis by (auto split: if_splits)
next
  case (CPublish h x)
  then have ne: "unat (head q) < unat (tail q)" using assms(2) by auto
  then have "unat (head q + 1) = Suc (unat (head q))"
    using assms by (subst unat_Suc_no_wrap) (auto simp: spsc_shape_def spsc_bound_def)
  then have "spsc_elems (q\<lparr>head := head q + 1\<rparr>) = tl (spsc_elems q)"
    by (simp add: spsc_elems_Cons [OF ne]) (simp add: spsc_elems_def)
  with CPublish assms show ?thesis by auto
qed

text \<open>An enqueue takes effect the same way whether or not the consumer holds a value in hand.\<close>

lemma taken_fifo_enq:
  assumes "consumer_ok pc q"
  shows "fifo_enq n x (taken pc (spsc_elems q))
    = (fst (fifo_enq n x (spsc_elems q)), taken pc (snd (fifo_enq n x (spsc_elems q))))"
proof (cases pc)
  case (CPublish h y)
  with assms have "unat (head q) < unat (tail q)" by auto
  from spsc_elems_Cons [OF this] CPublish show ?thesis by (simp add: fifo_enq_def)
qed (auto simp: fifo_enq_def)

section \<open>Linearizability\<close>

lemma spsc_step_sim:
  assumes inv: "spsc_cinv m c" and m: "m < spsc_bound" and step: "spsc_step zero c l c'"
  shows "spsc_cinv (Suc m) c' \<and> length (buffer (shared c')) = length (buffer (shared c))
    \<and> fifo_effect zero (length (buffer (shared c))) l (spsc_celems c) (spsc_celems c')"
  using step
proof (cases rule: spsc_step.cases)
  case (call_Enqueue x)
  with inv show ?thesis by (auto simp: spsc_cinv_def spsc_celems_def spsc_shape_def)
next
  case call_Dequeue
  with inv show ?thesis by (auto simp: spsc_cinv_def spsc_celems_def spsc_shape_def)
next
  case (step_Enqueue pc q)
  note I = inv [unfolded spsc_cinv_def]
  from producer_step_inv [OF _ _ m step_Enqueue(3)] I have P: "spsc_shape (Suc m) q" "producer_ok pc q"
    "length (buffer q) = length (buffer (shared c))" "consumer_ok (cpc c) q"
    using consumer_ok_stable [of m "shared c" "cpc c" q] by blast+
  have "fifo_effect zero (length (buffer (shared c))) l (spsc_celems c) (taken (cpc c) (spsc_elems q))"
    using producer_effect [OF _ _ m step_Enqueue(3)] I taken_fifo_enq [of "cpc c" "shared c"]
    by (cases l) (auto simp: spsc_celems_def)
  with P step_Enqueue(1) show ?thesis by (simp add: spsc_cinv_def spsc_celems_def)
next
  case (step_Dequeue pc q)
  note I = inv [unfolded spsc_cinv_def]
  from consumer_step_inv [OF _ _ m step_Dequeue(3)] I have P: "spsc_shape (Suc m) q" "consumer_ok pc q"
    "length (buffer q) = length (buffer (shared c))" "producer_ok (ppc c) q"
    using producer_ok_stable [of m "shared c" "ppc c" q] by blast+
  have "fifo_effect zero (length (buffer (shared c))) l (spsc_celems c) (taken pc (spsc_elems q))"
    using consumer_effect [OF _ _ m step_Dequeue(3)] I by (simp add: spsc_celems_def)
  with P step_Dequeue(1) show ?thesis by (simp add: spsc_cinv_def spsc_celems_def)
qed

interpretation spsc_lin: fifo_linearization "spsc_step zero" spsc_cinv spsc_celems
    "\<lambda>c. length (buffer (shared c))" zero spsc_bound for zero
  by unfold_locales (blast dest: spsc_step_sim)+

definition spsc_init :: "'a SPSC \<Rightarrow> 'a spsc_conf" where
  "spsc_init q = \<lparr>shared = q, ppc = PIdle, cpc = CIdle\<rparr>"

lemma spsc_init_cinv:
  assumes "2 \<le> sint c" and "sint c \<le> 2 ^ 62"
  obtains q where "NewSPSC zero c = ret q" and "spsc_cinv 0 (spsc_init q)" and "spsc_celems (spsc_init q) = []"
    and "length (buffer q) = unat (roundToPow2 c)"
proof -
  from assms obtain k where k: "1 \<le> k" "k \<le> 62" "roundToPow2 c = 2 ^ k"
    by (rule roundToPow2_in_range) blast
  let ?q = "\<lparr>head = 0, cachedTail = 0, tail = 0, cachedHead = 0, buffer = replicate (2 ^ k) zero, mask_q = 2 ^ k - 1\<rparr>"
  have "NewSPSC zero c = ret ?q"
    using assms k by (simp add: NewSPSC_def Let_def make_slice_def unat_pow2 sint_pow2)
  moreover have "spsc_cinv 0 (spsc_init ?q)"
    using k by (auto simp: spsc_cinv_def spsc_init_def spsc_shape_def spsc_ring_def)
  ultimately show thesis
    using k by (intro that [of ?q]) (simp_all add: spsc_celems_def spsc_init_def spsc_elems_def unat_pow2)
qed

text \<open>No step of either side goes wrong, and a call is over after at most four or five own steps.\<close>

fun producer_rank :: "'a producer_pc \<Rightarrow> nat" where
  "producer_rank PIdle = 0" | "producer_rank (PCall x) = 4" | "producer_rank (PLoadHead x t) = 3"
| "producer_rank (PStore x t) = 2" | "producer_rank (PPublish x t) = 1"

fun consumer_rank :: "'a consumer_pc \<Rightarrow> nat" where
  "consumer_rank CIdle = 0" | "consumer_rank CCall = 5" | "consumer_rank (CLoadTail h) = 4"
| "consumer_rank (CRead h) = 3" | "consumer_rank (CClear h x) = 2" | "consumer_rank (CPublish h x) = 1"

lemma producer_progress:
  assumes "spsc_shape m q" and "pc \<noteq> PIdle"
  shows "\<exists>l pc' q'. SPSC_Enqueue_step pc q = ret (l, pc', q') \<and> producer_rank pc' < producer_rank pc
     \<and> (l \<noteq> None \<longleftrightarrow> pc' = PIdle)"
  using assms(2) spsc_shape_index(2) [OF assms(1)] by (cases pc) (auto simp: Let_def)

lemma consumer_progress:
  assumes "spsc_shape m q" and "pc \<noteq> CIdle"
  shows "\<exists>l pc' q'. SPSC_Dequeue_step zero pc q = ret (l, pc', q') \<and> consumer_rank pc' < consumer_rank pc
     \<and> (l \<noteq> None \<longleftrightarrow> pc' = CIdle)"
  using assms(2) spsc_shape_index(2) [OF assms(1)] by (cases pc) (auto simp: Let_def)

text \<open>The two sides never touch the same slot at the same time.\<close>

fun producer_slot :: "'a producer_pc \<Rightarrow> 'a SPSC \<Rightarrow> nat option" where
  "producer_slot (PStore x t) q = Some (unat (t AND mask_q q))"
| "producer_slot _ q = None"

fun consumer_slot :: "'a consumer_pc \<Rightarrow> 'a SPSC \<Rightarrow> nat option" where
  "consumer_slot (CRead h) q = Some (unat (h AND mask_q q))"
| "consumer_slot (CClear h x) q = Some (unat (h AND mask_q q))"
| "consumer_slot _ q = None"

lemma spsc_no_race:
  assumes "spsc_cinv m c"
  shows "producer_slot (ppc c) (shared c) = None \<or> consumer_slot (cpc c) (shared c) = None
     \<or> producer_slot (ppc c) (shared c) \<noteq> consumer_slot (cpc c) (shared c)"
proof -
  from assms have I: "spsc_shape m (shared c)" "producer_ok (ppc c) (shared c)" "consumer_ok (cpc c) (shared c)"
    by (auto simp: spsc_cinv_def)
  show ?thesis
    using I(2,3) spsc_slots_differ [OF I(1)] spsc_shape_index(1) [OF I(1)]
    by (cases "ppc c"; cases "cpc c") auto
qed

section \<open>Executing an interleaving\<close>

text \<open>A move names the side that takes the next step.\<close>

datatype 'a spsc_move = CallEnqueue 'a | CallDequeue | Producer | Consumer

fun spsc_do :: "'a \<Rightarrow> 'a spsc_move \<Rightarrow> 'a spsc_conf \<Rightarrow> (('a call \<times> 'a answer) option \<times> 'a spsc_conf) option" where
  "spsc_do zero (CallEnqueue x) c = (if ppc c = PIdle then Some (None, c\<lparr>ppc := PCall x\<rparr>) else None)"
| "spsc_do zero CallDequeue c = (if cpc c = CIdle then Some (None, c\<lparr>cpc := CCall\<rparr>) else None)"
| "spsc_do zero Producer c = (if ppc c = PIdle then None else
     (case SPSC_Enqueue_step (ppc c) (shared c) of
        Some (Inr (l, pc, q)) \<Rightarrow> Some (l, c\<lparr>shared := q, ppc := pc\<rparr>) | _ \<Rightarrow> None))"
| "spsc_do zero Consumer c = (if cpc c = CIdle then None else
     (case SPSC_Dequeue_step zero (cpc c) (shared c) of
        Some (Inr (l, pc, q)) \<Rightarrow> Some (l, c\<lparr>shared := q, cpc := pc\<rparr>) | _ \<Rightarrow> None))"

lemma spsc_do_step: "spsc_do zero mv c = Some (l, c') \<Longrightarrow> spsc_step zero c l c'"
  by (cases mv) (auto intro: spsc_step.intros split: if_splits option.splits sum.splits prod.splits)

lemma spsc_sched_exec:
  "sched (spsc_do zero) mvs c0 = Some (ls, c) \<Longrightarrow> length mvs = n \<Longrightarrow> exec (spsc_step zero) c0 n ls c"
  using sched_init_exec [of "spsc_do zero" mvs c0 ls c "spsc_step zero", OF _ spsc_do_step] by simp

text \<open>The smallest queue, on which the schedules below run.\<close>

lemma NewSPSC_2:
  "NewSPSC zero 2 = ret \<lparr>head = 0, cachedTail = 0, tail = 0, cachedHead = 0, buffer = [zero, zero], mask_q = 1\<rparr>"
proof -
  have "replicate 2 zero = [zero, zero]" by (simp add: numeral_2_eq_2)
  then show ?thesis by (simp add: roundToPow2_2 NewSPSC_def make_slice_def)
qed

end
