(* ===== verification/Seq_Concurrent.thy ===== *)
theory Seq_Concurrent
  imports Seq_Queues Interleaving
begin

text \<open>
  Any number of producers and consumers of an \<open>MPMCSeq[T]\<close> queue (\<open>mpmc_seq.go\<close>) interleaved. The
  program counter of a goroutine says which shared access of \<open>Enqueue\<close> or \<open>Dequeue\<close> comes next; a
  failed compare-and-swap or a stale sequence number sends it back to the head of its loop. A
  call in isolation is the function of theory \<open>Seq_Queues\<close>.

  The order of the queue is the order in which the compare-and-swaps on \<open>tail\<close> succeed: position
  \<open>p\<close> belongs to the \<open>p\<close>-th accepted value. The labels record acceptance (with the value),
  delivery (with the position the consumer had claimed and the value it returns) and refusals.
\<close>

section \<open>Atomic steps\<close>

datatype 'a seq_pc = Idle
  | ETail 'a | ESlot 'a u64 | ECas 'a u64 | EData 'a u64 | ESeq 'a u64
  | DHead | DSlot u64 | DCas u64 | DData u64 | DClear u64 'a | DSeq u64 'a

datatype 'a seq_label = Accepted 'a | Delivered nat 'a | EnqueueRefused | DequeueRefused

fun MPMCSeq_step :: "atomix \<Rightarrow> 'a \<Rightarrow> 'a seq_pc \<Rightarrow> 'a MPMCSeq
    \<Rightarrow> ('a seq_label option \<times> 'a seq_pc \<times> 'a MPMCSeq) go" where
  "MPMCSeq_step A zero Idle q = ret (None, Idle, q)"
| "MPMCSeq_step A zero (ETail elem) q = ret (None, ESlot elem (tail q), q)"
| "MPMCSeq_step A zero (ESlot elem t) q =
     (let i = unat (t AND mask_q q)
      in if \<not> i < length (buffer q) then panics IndexOutOfRange
         else let s = seq (buffer q ! i); diff = s - t
           in if diff = 0 then ret (None, ECas elem t, q)
              else if sint diff < 0 then ret (Some EnqueueRefused, Idle, q)
              else ret (None, ETail elem, q))"
| "MPMCSeq_step A zero (ECas elem t) q =
     (case CompareAndSwap64 A (tail q) t (t + 1) of (swapped, cell) \<Rightarrow>
        let q = q\<lparr>tail := cell\<rparr>
        in if swapped then ret (Some (Accepted elem), EData elem t, q) else ret (None, ETail elem, q))"
| "MPMCSeq_step A zero (EData elem t) q =
     (let i = unat (t AND mask_q q)
      in if \<not> i < length (buffer q) then panics IndexOutOfRange
         else ret (None, ESeq elem t, q\<lparr>buffer := (buffer q)[i := (buffer q ! i)\<lparr>data := elem\<rparr>]\<rparr>))"
| "MPMCSeq_step A zero (ESeq elem t) q =
     (let i = unat (t AND mask_q q)
      in if \<not> i < length (buffer q) then panics IndexOutOfRange
         else ret (None, Idle, q\<lparr>buffer := (buffer q)[i := (buffer q ! i)\<lparr>seq := t + 1\<rparr>]\<rparr>))"
| "MPMCSeq_step A zero DHead q = ret (None, DSlot (head q), q)"
| "MPMCSeq_step A zero (DSlot h) q =
     (let i = unat (h AND mask_q q)
      in if \<not> i < length (buffer q) then panics IndexOutOfRange
         else let s = seq (buffer q ! i); diff = s - (h + 1)
           in if diff = 0 then ret (None, DCas h, q)
              else if sint diff < 0 then ret (Some DequeueRefused, Idle, q)
              else ret (None, DHead, q))"
| "MPMCSeq_step A zero (DCas h) q =
     (case CompareAndSwap64 A (head q) h (h + 1) of (swapped, cell) \<Rightarrow>
        let q = q\<lparr>head := cell\<rparr>
        in if swapped then ret (None, DData h, q) else ret (None, DHead, q))"
| "MPMCSeq_step A zero (DData h) q =
     (let i = unat (h AND mask_q q)
      in if \<not> i < length (buffer q) then panics IndexOutOfRange
         else ret (None, DClear h (data (buffer q ! i)), q))"
| "MPMCSeq_step A zero (DClear h elem) q =
     (let i = unat (h AND mask_q q)
      in if \<not> i < length (buffer q) then panics IndexOutOfRange
         else ret (None, DSeq h elem, q\<lparr>buffer := (buffer q)[i := (buffer q ! i)\<lparr>data := zero\<rparr>]\<rparr>))"
| "MPMCSeq_step A zero (DSeq h elem) q =
     (let i = unat (h AND mask_q q)
      in if \<not> i < length (buffer q) then panics IndexOutOfRange
         else ret (Some (Delivered (unat h) elem), Idle,
                   q\<lparr>buffer := (buffer q)[i := (buffer q ! i)\<lparr>seq := h + capacity q\<rparr>]\<rparr>))"

record 'a seq_conf =
  shared :: "'a MPMCSeq"
  pcs :: "nat \<Rightarrow> 'a seq_pc"

inductive seq_step :: "atomix \<Rightarrow> 'a \<Rightarrow> 'a seq_conf \<Rightarrow> 'a seq_label option \<Rightarrow> 'a seq_conf \<Rightarrow> bool"
  for A :: atomix and zero :: 'a where
  seq_call_Enqueue: "pcs c i = Idle \<Longrightarrow> seq_step A zero c None (c\<lparr>pcs := (pcs c)(i := ETail x)\<rparr>)"
| seq_call_Dequeue: "pcs c i = Idle \<Longrightarrow> seq_step A zero c None (c\<lparr>pcs := (pcs c)(i := DHead)\<rparr>)"
| seq_run: "pcs c i \<noteq> Idle \<Longrightarrow> MPMCSeq_step A zero (pcs c i) (shared c) = ret (l, pc, q) \<Longrightarrow>
    seq_step A zero c l (c\<lparr>shared := q, pcs := (pcs c)(i := pc)\<rparr>)"

section \<open>Invariant\<close>

fun accs :: "'a seq_label list \<Rightarrow> 'a list" where
  "accs [] = []"
| "accs (Accepted x # ls) = x # accs ls"
| "accs (_ # ls) = accs ls"

fun delivs :: "'a seq_label list \<Rightarrow> (nat \<times> 'a) list" where
  "delivs [] = []"
| "delivs (Delivered p x # ls) = (p, x) # delivs ls"
| "delivs (_ # ls) = delivs ls"

lemma accs_append [simp]: "accs (ls @ ls') = accs ls @ accs ls'"
  by (induction ls rule: accs.induct) simp_all

lemma delivs_append [simp]: "delivs (ls @ ls') = delivs ls @ delivs ls'"
  by (induction ls rule: delivs.induct) simp_all

text \<open>The position a producer has claimed and not yet published; the one a consumer has claimed.\<close>

fun enq_pos :: "'a seq_pc \<Rightarrow> nat option" where
  "enq_pos (EData x t) = Some (unat t)"
| "enq_pos (ESeq x t) = Some (unat t)"
| "enq_pos _ = None"

fun deq_pos :: "'a seq_pc \<Rightarrow> nat option" where
  "deq_pos (DData h) = Some (unat h)"
| "deq_pos (DClear h x) = Some (unat h)"
| "deq_pos (DSeq h x) = Some (unat h)"
| "deq_pos _ = None"

definition seq_at :: "'a MPMCSeq \<Rightarrow> nat \<Rightarrow> nat" where
  "seq_at q p = unat (seq (buffer q ! (p mod length (buffer q))))"

definition data_at :: "'a MPMCSeq \<Rightarrow> nat \<Rightarrow> 'a" where
  "data_at q p = data (buffer q ! (p mod length (buffer q)))"

fun pc_ok :: "'a list \<Rightarrow> 'a MPMCSeq \<Rightarrow> 'a seq_pc \<Rightarrow> bool" where
  "pc_ok xs q (ESlot x t) \<longleftrightarrow> unat t \<le> unat (tail q)"
| "pc_ok xs q (ECas x t) \<longleftrightarrow> unat t \<le> unat (tail q) \<and> (t = tail q \<longrightarrow> seq_at q (unat t) = unat t)"
| "pc_ok xs q (EData x t) \<longleftrightarrow> unat (head q) \<le> unat t \<and> unat t < unat (tail q) \<and> seq_at q (unat t) = unat t
     \<and> xs ! unat t = x"
| "pc_ok xs q (ESeq x t) \<longleftrightarrow> unat (head q) \<le> unat t \<and> unat t < unat (tail q) \<and> seq_at q (unat t) = unat t
     \<and> xs ! unat t = x \<and> data_at q (unat t) = x"
| "pc_ok xs q (DSlot h) \<longleftrightarrow> unat h \<le> unat (head q)"
| "pc_ok xs q (DCas h) \<longleftrightarrow> unat h \<le> unat (head q) \<and> (h = head q \<longrightarrow> seq_at q (unat h) = Suc (unat h))"
| "pc_ok xs q (DData h) \<longleftrightarrow> unat h < unat (head q) \<and> unat (tail q) \<le> unat h + length (buffer q)
     \<and> seq_at q (unat h) = Suc (unat h) \<and> data_at q (unat h) = xs ! unat h"
| "pc_ok xs q (DClear h x) \<longleftrightarrow> unat h < unat (head q) \<and> unat (tail q) \<le> unat h + length (buffer q)
     \<and> seq_at q (unat h) = Suc (unat h) \<and> x = xs ! unat h"
| "pc_ok xs q (DSeq h x) \<longleftrightarrow> unat h < unat (head q) \<and> unat (tail q) \<le> unat h + length (buffer q)
     \<and> seq_at q (unat h) = Suc (unat h) \<and> x = xs ! unat h"
| "pc_ok xs q _ \<longleftrightarrow> True"

definition seq_cshape :: "nat \<Rightarrow> 'a list \<Rightarrow> 'a MPMCSeq \<Rightarrow> bool" where
  "seq_cshape m xs q \<longleftrightarrow> (\<exists>k. seqq_shape k q) \<and> unat (tail q) \<le> m \<and> unat (head q) \<le> unat (tail q)
     \<and> unat (tail q) \<le> unat (head q) + length (buffer q) \<and> length xs = unat (tail q)"

text \<open>Positions between head and tail are filled or being filled; those after the tail are free or being freed.\<close>

definition seq_cslots :: "'a list \<Rightarrow> 'a seq_conf \<Rightarrow> bool" where
  "seq_cslots xs c \<longleftrightarrow>
     (\<forall>p. unat (head (shared c)) \<le> p \<longrightarrow> p < unat (tail (shared c)) \<longrightarrow>
        (seq_at (shared c) p = p \<and> (\<exists>i. enq_pos (pcs c i) = Some p))
        \<or> (seq_at (shared c) p = Suc p \<and> data_at (shared c) p = xs ! p))
   \<and> (\<forall>p. unat (tail (shared c)) \<le> p \<longrightarrow> p < unat (head (shared c)) + length (buffer (shared c)) \<longrightarrow>
        seq_at (shared c) p = p
        \<or> (length (buffer (shared c)) \<le> p \<and> seq_at (shared c) p = Suc (p - length (buffer (shared c)))
           \<and> (\<exists>i. deq_pos (pcs c i) = Some (p - length (buffer (shared c))))))"

definition seq_cowners :: "'a seq_conf \<Rightarrow> bool" where
  "seq_cowners c \<longleftrightarrow> (\<forall>i j p. enq_pos (pcs c i) = Some p \<longrightarrow> enq_pos (pcs c j) = Some p \<longrightarrow> i = j)
     \<and> (\<forall>i j p. deq_pos (pcs c i) = Some p \<longrightarrow> deq_pos (pcs c j) = Some p \<longrightarrow> i = j)"

definition seq_cdelivered :: "'a list \<Rightarrow> (nat \<times> 'a) list \<Rightarrow> 'a seq_conf \<Rightarrow> bool" where
  "seq_cdelivered xs ds c \<longleftrightarrow> distinct (map fst ds)
     \<and> (\<forall>(p, x) \<in> set ds. p < unat (head (shared c)) \<and> x = xs ! p \<and> (\<forall>i. deq_pos (pcs c i) \<noteq> Some p))
     \<and> (\<forall>p < unat (head (shared c)). p \<in> fst ` set ds \<or> (\<exists>i. deq_pos (pcs c i) = Some p))"

definition seq_cinv :: "nat \<Rightarrow> 'a seq_label list \<Rightarrow> 'a seq_conf \<Rightarrow> bool" where
  "seq_cinv m ls c \<longleftrightarrow> seq_cshape m (accs ls) (shared c) \<and> (\<forall>i. pc_ok (accs ls) (shared c) (pcs c i))
     \<and> seq_cslots (accs ls) c \<and> seq_cowners c \<and> seq_cdelivered (accs ls) (delivs ls) c"

definition seq_bound :: nat where
  "seq_bound = 2 ^ 62"

section \<open>Preservation\<close>

lemma same_slot:
  assumes "2 \<le> (n :: nat)" and "p mod n = r mod n" and "p = r \<or> p = Suc r \<or> Suc p = r"
  shows "p = r"
proof -
  have "Suc r mod n \<noteq> r mod n" for r
    using assms(1) mod_pow2_inj [of 1 n 0 r] by auto
  with assms(2,3) show ?thesis by metis
qed

lemma seq_cshapeD:
  assumes "seq_cshape m xs q" and "m < seq_bound"
  shows "2 \<le> length (buffer q)" and "length (buffer q) \<le> 2 ^ 62" and "unat (capacity q) = length (buffer q)"
    and "unat (p AND mask_q q) = unat p mod length (buffer q)"
    and "unat p mod length (buffer q) < length (buffer q)"
    and "unat (tail q + 1) = Suc (unat (tail q))" and "unat (head q + 1) = Suc (unat (head q))"
    and "unat (head q) \<le> unat (tail q)" and "unat (tail q) \<le> unat (head q) + length (buffer q)"
    and "unat (tail q) < 2 ^ 62" and "length xs = unat (tail q)"
proof -
  from assms(1) obtain k where k: "seqq_shape k q" by (auto simp: seq_cshape_def)
  then have k': "1 \<le> k" "k \<le> 62" "length (buffer q) = 2 ^ k" "unat (capacity q) = 2 ^ k"
    by (auto simp: seqq_shape_def unat_pow2)
  show "2 \<le> length (buffer q)" using k' power_increasing [of 1 k "2 :: nat"] by simp
  show "length (buffer q) \<le> 2 ^ 62" using k' pow2_le_62 by simp
  show "unat (capacity q) = length (buffer q)" using k' by simp
  show "unat (p AND mask_q q) = unat p mod length (buffer q)" by (rule seqq_index [OF k])
  show "unat p mod length (buffer q) < length (buffer q)" using k' by simp
  show "unat (head q) \<le> unat (tail q)" "unat (tail q) \<le> unat (head q) + length (buffer q)"
    "length xs = unat (tail q)" "unat (tail q) < 2 ^ 62"
    using assms by (auto simp: seq_cshape_def seq_bound_def)
  then show "unat (tail q + 1) = Suc (unat (tail q))" "unat (head q + 1) = Suc (unat (head q))"
    by (simp_all add: unat_Suc_no_wrap)
qed

text \<open>Steps that change nothing but one goroutine's program counter.\<close>

lemma seq_cinv_local:
  assumes inv: "seq_cinv m ls c" and ok: "pc_ok (accs ls) (shared c) pc"
    and pos: "enq_pos pc = enq_pos (pcs c i)" "deq_pos pc = deq_pos (pcs c i)"
    and l: "accs ls' = accs ls" "delivs ls' = delivs ls"
  shows "seq_cinv (Suc m) ls' (c\<lparr>pcs := (pcs c)(i := pc)\<rparr>)"
proof -
  let ?c = "c\<lparr>pcs := (pcs c)(i := pc)\<rparr>"
  have e: "enq_pos (pcs ?c j) = enq_pos (pcs c j)" for j using pos by simp
  have d: "deq_pos (pcs ?c j) = deq_pos (pcs c j)" for j using pos by simp
  have s: "shared ?c = shared c" by simp
  have "seq_cshape (Suc m) (accs ls) (shared c)" using inv by (auto simp: seq_cinv_def seq_cshape_def)
  moreover have "\<forall>j. pc_ok (accs ls) (shared c) (pcs ?c j)" using inv ok by (simp add: seq_cinv_def)
  moreover have "seq_cslots (accs ls) ?c"
    using inv unfolding seq_cinv_def seq_cslots_def s e d by blast
  moreover have "seq_cowners ?c" using inv unfolding seq_cinv_def seq_cowners_def e d by blast
  moreover have "seq_cdelivered (accs ls) (delivs ls) ?c"
    using inv unfolding seq_cinv_def seq_cdelivered_def s d by blast
  ultimately show ?thesis unfolding seq_cinv_def l s by blast
qed

text \<open>The position a program counter makes a statement about.\<close>

fun claim :: "'a MPMCSeq \<Rightarrow> 'a seq_pc \<Rightarrow> nat option" where
  "claim q (ECas x t) = (if t = tail q then Some (unat t) else None)"
| "claim q (EData x t) = Some (unat t)"
| "claim q (ESeq x t) = Some (unat t)"
| "claim q (DCas h) = (if h = head q then Some (unat h) else None)"
| "claim q (DData h) = Some (unat h)"
| "claim q (DClear h x) = Some (unat h)"
| "claim q (DSeq h x) = Some (unat h)"
| "claim q _ = None"

lemma pc_ok_frame:
  assumes "pc_ok xs q pc" and "head q' = head q" and "tail q' = tail q" and "length (buffer q') = length (buffer q)"
    and "\<And>r. claim q pc = Some r \<Longrightarrow> seq_at q' r = seq_at q r \<and> data_at q' r = data_at q r"
  shows "pc_ok xs q' pc"
  using assms by (cases pc) auto

lemma claim_seq: "pc_ok xs q pc \<Longrightarrow> claim q pc = Some r \<Longrightarrow> seq_at q r = r \<or> seq_at q r = Suc r"
  by (cases pc) (auto split: if_splits)

lemma seq_at_slot: "p mod length (buffer q) = r mod length (buffer q) \<Longrightarrow> seq_at q p = seq_at q r"
  by (simp add: seq_at_def)

lemma owner_facts:
  "pc_ok xs q pc \<Longrightarrow> enq_pos pc = Some p \<Longrightarrow>
     claim q pc = Some p \<and> seq_at q p = p \<and> unat (head q) \<le> p \<and> p < unat (tail q)"
  "pc_ok xs q pc \<Longrightarrow> deq_pos pc = Some p \<Longrightarrow>
     claim q pc = Some p \<and> seq_at q p = Suc p \<and> p < unat (head q) \<and> unat (tail q) \<le> p + length (buffer q)"
  by (cases pc; auto)+

lemma claim_owner:
  assumes "pc_ok xs q pc" and "claim q pc = Some p"
  shows "enq_pos pc = Some p \<or> deq_pos pc = Some p \<or> p = unat (tail q) \<and> seq_at q p = p
     \<or> p = unat (head q) \<and> seq_at q p = Suc p"
  using assms by (cases pc) (auto split: if_splits)

text \<open>No goroutine makes a statement about a slot another one owns.\<close>

lemma claims_apart:
  assumes inv: "seq_cinv m ls c" and m: "m < seq_bound" and ij: "i \<noteq> j"
    and own: "enq_pos (pcs c i) = Some p \<or> deq_pos (pcs c i) = Some p"
    and cl: "claim (shared c) (pcs c j) = Some r"
  shows "r mod length (buffer (shared c)) \<noteq> p mod length (buffer (shared c))"
proof
  let ?q = "shared c"
  assume eq: "r mod length (buffer ?q) = p mod length (buffer ?q)"
  from inv have ok: "pc_ok (accs ls) ?q (pcs c i)" "pc_ok (accs ls) ?q (pcs c j)"
    and sh: "seq_cshape m (accs ls) ?q" and ow: "seq_cowners c"
    by (auto simp: seq_cinv_def)
  from own owner_facts [OF ok(1)] have sp: "seq_at ?q p = p \<or> seq_at ?q p = Suc p" by blast
  from claim_seq [OF ok(2) cl] seq_at_slot [OF eq] sp have "r = p \<or> r = Suc p \<or> Suc r = p" by auto
  from same_slot [OF seq_cshapeD(1) [OF sh m] eq this] have rp: "r = p" .
  show False
    using claim_owner [OF ok(2) cl] own owner_facts [OF ok(1), of p] owner_facts [OF ok(2), of p] ow ij
      seq_cshapeD(8) [OF sh m]
    unfolding rp seq_cowners_def by auto
qed

lemma seq_at_upd:
  assumes "p mod length (buffer q) < length (buffer q)"
  shows "seq_at (q\<lparr>buffer := (buffer q)[p mod length (buffer q) := s]\<rparr>) r
      = (if r mod length (buffer q) = p mod length (buffer q) then unat (seq s) else seq_at q r)"
    and "data_at (q\<lparr>buffer := (buffer q)[p mod length (buffer q) := s]\<rparr>) r
      = (if r mod length (buffer q) = p mod length (buffer q) then data s else data_at q r)"
  using assms by (simp_all add: seq_at_def data_at_def nth_list_update)

lemma window_apart:
  assumes "h \<le> p" "p < h + n" "h \<le> r" "r < h + n" "p \<noteq> r"
  shows "p mod n \<noteq> r mod (n :: nat)"
proof
  assume "p mod n = r mod n"
  then have "(h + (p - h)) mod n = (h + (r - h)) mod n" using assms by simp
  then have "p - h = r - h" using assms by (intro mod_pow2_inj [of "p - h" n "r - h" h]) auto
  with assms show False by simp
qed

lemma seq_cinvD:
  assumes "seq_cinv m ls c"
  shows "seq_cshape m (accs ls) (shared c)" and "\<And>i. pc_ok (accs ls) (shared c) (pcs c i)"
    and "seq_cslots (accs ls) c" and "seq_cowners c" and "seq_cdelivered (accs ls) (delivs ls) c"
    and "\<And>p. unat (head (shared c)) \<le> p \<Longrightarrow> p < unat (tail (shared c)) \<Longrightarrow>
        (seq_at (shared c) p = p \<and> (\<exists>i. enq_pos (pcs c i) = Some p))
        \<or> (seq_at (shared c) p = Suc p \<and> data_at (shared c) p = accs ls ! p)"
    and "\<And>p. unat (tail (shared c)) \<le> p \<Longrightarrow> p < unat (head (shared c)) + length (buffer (shared c)) \<Longrightarrow>
        seq_at (shared c) p = p
        \<or> (length (buffer (shared c)) \<le> p \<and> seq_at (shared c) p = Suc (p - length (buffer (shared c)))
           \<and> (\<exists>i. deq_pos (pcs c i) = Some (p - length (buffer (shared c)))))"
  using assms unfolding seq_cinv_def seq_cslots_def by blast+

text \<open>Steps that write to a slot their goroutine owns.\<close>

lemma slot_write:
  assumes inv: "seq_cinv m ls c" and m: "m < seq_bound"
    and own: "enq_pos (pcs c i) = Some p \<or> deq_pos (pcs c i) = Some p"
    and q': "q' = (shared c)\<lparr>buffer := (buffer (shared c))[p mod length (buffer (shared c)) := s]\<rparr>"
    and ok: "pc_ok (accs ls) q' pc"
  shows "seq_cshape (Suc m) (accs ls) q'" and "\<forall>j. pc_ok (accs ls) q' (((pcs c)(i := pc)) j)"
    and "seq_at q' r = (if r mod length (buffer (shared c)) = p mod length (buffer (shared c)) then unat (seq s) else seq_at (shared c) r)"
    and "data_at q' r = (if r mod length (buffer (shared c)) = p mod length (buffer (shared c)) then data s else data_at (shared c) r)"
proof -
  let ?q = "shared c" and ?n = "length (buffer (shared c))"
  note I = seq_cinvD [OF inv] and S = seq_cshapeD [OF seq_cinvD(1) [OF inv] m]
  have lt: "p mod ?n < ?n" using S(1) by (intro mod_less_divisor) linarith
  show "seq_cshape (Suc m) (accs ls) q'" using I(1) by (auto simp: q' seq_cshape_def seqq_shape_def)
  show at: "seq_at q' r = (if r mod ?n = p mod ?n then unat (seq s) else seq_at ?q r)"
    "data_at q' r = (if r mod ?n = p mod ?n then data s else data_at ?q r)" for r
    unfolding q' by (rule seq_at_upd [OF lt])+
  have "pc_ok (accs ls) q' (pcs c j)" if "j \<noteq> i" for j
  proof (rule pc_ok_frame [OF I(2) [of j]])
    show "seq_at q' r = seq_at ?q r \<and> data_at q' r = data_at ?q r" if "claim ?q (pcs c j) = Some r" for r
      using claims_apart [OF inv m _ own that] \<open>j \<noteq> i\<close> by (simp add: at)
  qed (simp_all add: q')
  with ok show "\<forall>j. pc_ok (accs ls) q' (((pcs c)(i := pc)) j)" by simp
qed

lemma conf_sel:
  "shared (c\<lparr>shared := q, pcs := pcs'\<rparr>) = q" "pcs (c\<lparr>shared := q, pcs := pcs'\<rparr>) = pcs'"
  by simp_all

lemma seq_cslotsI:
  assumes "\<And>p. unat (head q) \<le> p \<Longrightarrow> p < unat (tail q) \<Longrightarrow>
        (seq_at q p = p \<and> (\<exists>i. enq_pos (pcs' i) = Some p)) \<or> (seq_at q p = Suc p \<and> data_at q p = xs ! p)"
    and "\<And>p. unat (tail q) \<le> p \<Longrightarrow> p < unat (head q) + length (buffer q) \<Longrightarrow>
        seq_at q p = p \<or> (length (buffer q) \<le> p \<and> seq_at q p = Suc (p - length (buffer q))
           \<and> (\<exists>i. deq_pos (pcs' i) = Some (p - length (buffer q))))"
  shows "seq_cslots xs (c\<lparr>shared := q, pcs := pcs'\<rparr>)"
  using assms unfolding seq_cslots_def by simp

lemma seq_inv_EData:
  assumes inv: "seq_cinv m ls c" and m: "m < seq_bound" and pc: "pcs c i = EData x t"
    and q': "q' = (shared c)\<lparr>buffer := (buffer (shared c))[unat t mod length (buffer (shared c))
      := (buffer (shared c) ! (unat t mod length (buffer (shared c))))\<lparr>data := x\<rparr>]\<rparr>"
    and pcs': "pcs' = (pcs c)(i := ESeq x t)"
  shows "seq_cinv (Suc m) ls (c\<lparr>shared := q', pcs := pcs'\<rparr>)"
proof -
  let ?q = "shared c" and ?n = "length (buffer (shared c))"
  note I = seq_cinvD [OF inv] and S = seq_cshapeD [OF seq_cinvD(1) [OF inv] m]
  have P: "seq_at ?q (unat t) = unat t" "unat (head ?q) \<le> unat t" "unat t < unat (tail ?q)" "accs ls ! unat t = x"
    using I(2) [of i] pc by simp_all
  have at: "seq_at q' r = seq_at ?q r"
    "data_at q' r = (if r mod ?n = unat t mod ?n then x else data_at ?q r)" for r
    using seq_at_upd [of "unat t" ?q] S(5) [of t] unfolding q' by (simp_all add: seq_at_def)
  have sh: "head q' = head ?q" "tail q' = tail ?q" "length (buffer q') = ?n" unfolding q' by simp_all
  have own: "enq_pos (pcs c i) = Some (unat t) \<or> deq_pos (pcs c i) = Some (unat t)" using pc by simp
  have ok: "pc_ok (accs ls) q' (ESeq x t)" using P by (simp add: at sh)
  note W = slot_write(1,2) [OF inv m own q' ok, folded pcs']
  have e: "enq_pos (pcs' j) = enq_pos (pcs c j)" "deq_pos (pcs' j) = deq_pos (pcs c j)" for j
    using pc by (simp_all add: pcs')
  have full: "data_at q' p = data_at ?q p" if "seq_at ?q p = Suc p" for p
  proof -
    have "p mod ?n \<noteq> unat t mod ?n"
    proof
      assume eq: "p mod ?n = unat t mod ?n"
      from seq_at_slot [OF this] that P(1) have "Suc p = unat t" by simp
      with same_slot [OF S(1) eq] show False by simp
    qed
    then show ?thesis by (simp add: at)
  qed
  have "seq_cslots (accs ls) (c\<lparr>shared := q', pcs := pcs'\<rparr>)"
    by (rule seq_cslotsI; unfold sh at(1) e) (metis I(6) full, rule I(7))
  moreover have "seq_cowners (c\<lparr>shared := q', pcs := pcs'\<rparr>)"
    using I(4) unfolding seq_cowners_def by (simp only: conf_sel e)
  moreover have "seq_cdelivered (accs ls) (delivs ls) (c\<lparr>shared := q', pcs := pcs'\<rparr>)"
    using I(5) unfolding seq_cdelivered_def conf_sel e sh by blast
  ultimately show ?thesis using W unfolding seq_cinv_def by simp
qed

lemma seq_inv_ESeq:
  assumes inv: "seq_cinv m ls c" and m: "m < seq_bound" and pc: "pcs c i = ESeq x t"
    and q': "q' = (shared c)\<lparr>buffer := (buffer (shared c))[unat t mod length (buffer (shared c))
      := (buffer (shared c) ! (unat t mod length (buffer (shared c))))\<lparr>seq := t + 1\<rparr>]\<rparr>"
    and pcs': "pcs' = (pcs c)(i := Idle)"
  shows "seq_cinv (Suc m) ls (c\<lparr>shared := q', pcs := pcs'\<rparr>)"
proof -
  let ?q = "shared c" and ?n = "length (buffer (shared c))"
  note I = seq_cinvD [OF inv] and S = seq_cshapeD [OF seq_cinvD(1) [OF inv] m]
  have P: "seq_at ?q (unat t) = unat t" "unat (head ?q) \<le> unat t" "unat t < unat (tail ?q)"
    "accs ls ! unat t = x" "data_at ?q (unat t) = x"
    using I(2) [of i] pc by simp_all
  have t1: "unat (t + 1) = Suc (unat t)" using P(3) S(10) by (subst unat_Suc_no_wrap) auto
  have at: "seq_at q' r = (if r mod ?n = unat t mod ?n then Suc (unat t) else seq_at ?q r)"
    "data_at q' r = data_at ?q r" for r
    using seq_at_upd [of "unat t" ?q] S(5) [of t] t1 unfolding q' by (simp_all add: data_at_def)
  have sh: "head q' = head ?q" "tail q' = tail ?q" "length (buffer q') = ?n" unfolding q' by simp_all
  have own: "enq_pos (pcs c i) = Some (unat t) \<or> deq_pos (pcs c i) = Some (unat t)" using pc by simp
  note W = slot_write(1,2) [OF inv m own q', of Idle, folded pcs', simplified]
  have e: "deq_pos (pcs' j) = deq_pos (pcs c j)" "enq_pos (pcs' j) = (if j = i then None else enq_pos (pcs c j))" for j
    using pc by (simp_all add: pcs')
  have apart: "p mod ?n \<noteq> unat t mod ?n"
    if "unat (head ?q) \<le> p" "p < unat (head ?q) + ?n" "p \<noteq> unat t" for p
    using window_apart [OF that(1,2), of "unat t"] that P S(9) by simp
  have eo: "enq_pos (pcs' j) = Some p" if "enq_pos (pcs c j) = Some p" "p \<noteq> unat t" for p j
    using that pc by (auto simp: e)
  have "seq_at q' p = p \<and> (\<exists>j. enq_pos (pcs' j) = Some p) \<or> seq_at q' p = Suc p \<and> data_at q' p = accs ls ! p"
    if "unat (head ?q) \<le> p" "p < unat (tail ?q)" for p
  proof (cases "p = unat t")
    case True
    then show ?thesis using P by (simp add: at)
  next
    case False
    then have "seq_at q' p = seq_at ?q p" using apart [of p] that S(9) by (simp add: at)
    with I(6) [OF that] eo [OF _ False] show ?thesis unfolding at(2) by metis
  qed
  moreover have "seq_at q' p = seq_at ?q p" if "unat (tail ?q) \<le> p" "p < unat (head ?q) + ?n" for p
    using apart [of p] that P S(8) by (simp add: at)
  ultimately have "seq_cslots (accs ls) (c\<lparr>shared := q', pcs := pcs'\<rparr>)"
    by (intro seq_cslotsI; unfold sh e(1)) (use I(7) in auto)
  moreover have "seq_cowners (c\<lparr>shared := q', pcs := pcs'\<rparr>)"
    using I(4) unfolding seq_cowners_def by (simp add: e)
  moreover have "seq_cdelivered (accs ls) (delivs ls) (c\<lparr>shared := q', pcs := pcs'\<rparr>)"
    using I(5) unfolding seq_cdelivered_def conf_sel e sh by blast
  ultimately show ?thesis using W unfolding seq_cinv_def by simp
qed

lemma seq_inv_DClear:
  assumes inv: "seq_cinv m ls c" and m: "m < seq_bound" and pc: "pcs c i = DClear h x"
    and q': "q' = (shared c)\<lparr>buffer := (buffer (shared c))[unat h mod length (buffer (shared c))
      := (buffer (shared c) ! (unat h mod length (buffer (shared c))))\<lparr>data := zero\<rparr>]\<rparr>"
    and pcs': "pcs' = (pcs c)(i := DSeq h x)"
  shows "seq_cinv (Suc m) ls (c\<lparr>shared := q', pcs := pcs'\<rparr>)"
proof -
  let ?q = "shared c" and ?n = "length (buffer (shared c))"
  note I = seq_cinvD [OF inv] and S = seq_cshapeD [OF seq_cinvD(1) [OF inv] m]
  have P: "seq_at ?q (unat h) = Suc (unat h)" "unat h < unat (head ?q)" "unat (tail ?q) \<le> unat h + ?n"
    "x = accs ls ! unat h"
    using I(2) [of i] pc by simp_all
  have at: "seq_at q' r = seq_at ?q r"
    "data_at q' r = (if r mod ?n = unat h mod ?n then zero else data_at ?q r)" for r
    using seq_at_upd [of "unat h" ?q] S(5) [of h] unfolding q' by (simp_all add: seq_at_def)
  have sh: "head q' = head ?q" "tail q' = tail ?q" "length (buffer q') = ?n" unfolding q' by simp_all
  have own: "enq_pos (pcs c i) = Some (unat h) \<or> deq_pos (pcs c i) = Some (unat h)" using pc by simp
  have ok: "pc_ok (accs ls) q' (DSeq h x)" using P by (simp add: at sh)
  note W = slot_write(1,2) [OF inv m own q' ok, folded pcs']
  have e: "enq_pos (pcs' j) = enq_pos (pcs c j)" "deq_pos (pcs' j) = deq_pos (pcs c j)" for j
    using pc by (simp_all add: pcs')
  have full: "data_at q' p = data_at ?q p" if "seq_at ?q p = Suc p" "unat (head ?q) \<le> p" for p
  proof -
    have "p mod ?n \<noteq> unat h mod ?n"
    proof
      assume "p mod ?n = unat h mod ?n"
      from seq_at_slot [OF this] that P(1,2) show False by simp
    qed
    then show ?thesis by (simp add: at)
  qed
  have "seq_cslots (accs ls) (c\<lparr>shared := q', pcs := pcs'\<rparr>)"
    by (rule seq_cslotsI; unfold sh at(1) e) (metis I(6) full, rule I(7))
  moreover have "seq_cowners (c\<lparr>shared := q', pcs := pcs'\<rparr>)"
    using I(4) unfolding seq_cowners_def by (simp only: conf_sel e)
  moreover have "seq_cdelivered (accs ls) (delivs ls) (c\<lparr>shared := q', pcs := pcs'\<rparr>)"
    using I(5) unfolding seq_cdelivered_def conf_sel e sh by blast
  ultimately show ?thesis using W unfolding seq_cinv_def by simp
qed

lemma seq_cdelivered_snoc:
  assumes "seq_cdelivered xs ds c" and "seq_cowners c" and h: "deq_pos (pcs c i) = Some h"
    and "h < unat (head (shared c))" and "deq_pos pc = None" and "head q' = head (shared c)"
  shows "seq_cdelivered xs (ds @ [(h, xs ! h)]) (c\<lparr>shared := q', pcs := (pcs c)(i := pc)\<rparr>)"
proof -
  let ?pcs = "(pcs c)(i := pc)"
  have e: "deq_pos (?pcs j) = (if j = i then None else deq_pos (pcs c j))" for j by (simp add: assms(5))
  have d: "distinct (map fst ds)"
    "\<And>p y. (p, y) \<in> set ds \<Longrightarrow> p < unat (head (shared c)) \<and> y = xs ! p \<and> (\<forall>j. deq_pos (pcs c j) \<noteq> Some p)"
    "\<And>p. p < unat (head (shared c)) \<Longrightarrow> p \<in> fst ` set ds \<or> (\<exists>j. deq_pos (pcs c j) = Some p)"
    using assms(1) unfolding seq_cdelivered_def by blast+
  have "h \<notin> fst ` set ds" using d(2) h by (metis imageE prod.collapse)
  moreover have "deq_pos (?pcs j) \<noteq> Some h" for j using assms(2) h unfolding seq_cowners_def e by auto
  moreover have "deq_pos (?pcs j) \<noteq> Some p" if "deq_pos (pcs c j) \<noteq> Some p" for p j using that unfolding e by simp
  moreover have "p \<in> fst ` set (ds @ [(h, xs ! h)]) \<or> (\<exists>j. deq_pos (?pcs j) = Some p)" if "p < unat (head (shared c))" for p
    using d(3) [OF that] h unfolding e by (cases "p = h") (auto, metis option.inject)
  ultimately show ?thesis unfolding seq_cdelivered_def conf_sel assms(6) using assms(4,5) d(1,2) by auto
qed

lemma seq_inv_DSeq:
  assumes inv: "seq_cinv m ls c" and m: "m < seq_bound" and pc: "pcs c i = DSeq h x"
    and q': "q' = (shared c)\<lparr>buffer := (buffer (shared c))[unat h mod length (buffer (shared c))
      := (buffer (shared c) ! (unat h mod length (buffer (shared c))))\<lparr>seq := h + capacity (shared c)\<rparr>]\<rparr>"
    and pcs': "pcs' = (pcs c)(i := Idle)"
  shows "seq_cinv (Suc m) (ls @ [Delivered (unat h) x]) (c\<lparr>shared := q', pcs := pcs'\<rparr>)"
proof -
  let ?q = "shared c" and ?n = "length (buffer (shared c))"
  note I = seq_cinvD [OF inv] and S = seq_cshapeD [OF seq_cinvD(1) [OF inv] m]
  have P: "seq_at ?q (unat h) = Suc (unat h)" "unat h < unat (head ?q)" "unat (tail ?q) \<le> unat h + ?n"
    "x = accs ls ! unat h"
    using I(2) [of i] pc by simp_all
  have hn: "unat (h + capacity ?q) = unat h + ?n"
    using P(2) S(2,3,8,10) by (subst unat_add_no_wrap) auto
  have at: "seq_at q' r = (if r mod ?n = unat h mod ?n then unat h + ?n else seq_at ?q r)"
    "data_at q' r = data_at ?q r" for r
    using seq_at_upd [of "unat h" ?q] S(5) [of h] hn unfolding q' by (simp_all add: data_at_def)
  have sh: "head q' = head ?q" "tail q' = tail ?q" "length (buffer q') = ?n" unfolding q' by simp_all
  have own: "enq_pos (pcs c i) = Some (unat h) \<or> deq_pos (pcs c i) = Some (unat h)" using pc by simp
  note W = slot_write(1,2) [OF inv m own q', of Idle, folded pcs', simplified]
  have e: "enq_pos (pcs' j) = enq_pos (pcs c j)" "deq_pos (pcs' j) = (if j = i then None else deq_pos (pcs c j))" for j
    using pc by (simp_all add: pcs')
  have eo: "deq_pos (pcs' j) = Some p" if "deq_pos (pcs c j) = Some p" "p \<noteq> unat h" for p j
    using that pc by (auto simp: e)
  have "seq_at q' p = seq_at ?q p" if "unat (head ?q) \<le> p" "p < unat (tail ?q)" for p
  proof -
    have "p mod ?n \<noteq> unat h mod ?n"
    proof
      assume eq: "p mod ?n = unat h mod ?n"
      from seq_at_slot [OF this] P(1) I(6) [OF that] have "p = Suc (unat h) \<or> p = unat h" by auto
      with same_slot [OF S(1) eq] P(2) that(1) show False by auto
    qed
    then show ?thesis by (simp add: at)
  qed
  moreover have "seq_at q' p = p \<or> (?n \<le> p \<and> seq_at q' p = Suc (p - ?n) \<and> (\<exists>j. deq_pos (pcs' j) = Some (p - ?n)))"
    if p: "unat (tail ?q) \<le> p" "p < unat (head ?q) + ?n" for p
  proof (cases "p mod ?n = unat h mod ?n")
    case True
    from seq_at_slot [OF True] P(1) I(7) [OF p] have "p = Suc (unat h) \<or> ?n \<le> p \<and> p - ?n = unat h" by auto
    moreover have "p \<noteq> Suc (unat h)" using same_slot [OF S(1) True] by auto
    ultimately have "p = unat h + ?n" by auto
    then show ?thesis by (simp add: at)
  next
    case False
    then have "p - ?n \<noteq> unat h" if "?n \<le> p" using that by (metis le_add_diff_inverse2 mod_add_self2)
    with I(7) [OF p] False eo [of _ "p - ?n"] show ?thesis unfolding at(1) by metis
  qed
  ultimately have "seq_cslots (accs ls) (c\<lparr>shared := q', pcs := pcs'\<rparr>)"
    by (intro seq_cslotsI; unfold sh e(1) at(2)) (use I(6) in auto)
  moreover have "seq_cowners (c\<lparr>shared := q', pcs := pcs'\<rparr>)"
    using I(4) unfolding seq_cowners_def by (simp add: e)
  moreover have "seq_cdelivered (accs ls) (delivs ls @ [(unat h, x)]) (c\<lparr>shared := q', pcs := pcs'\<rparr>)"
    using seq_cdelivered_snoc [OF I(5,4), of i "unat h" Idle q'] P(2,4) pc sh(1) pcs' by simp
  ultimately show ?thesis using W unfolding seq_cinv_def by simp
qed

text \<open>A slot that is open for the tail, or full for the head, tells how the counters stand.\<close>

lemma seq_tail_open:
  assumes inv: "seq_cinv m ls c" and m: "m < seq_bound"
    and st: "seq_at (shared c) (unat (tail (shared c))) = unat (tail (shared c))"
  shows "unat (tail (shared c)) < unat (head (shared c)) + length (buffer (shared c))"
proof (rule ccontr)
  let ?q = "shared c" and ?n = "length (buffer (shared c))"
  note I = seq_cinvD [OF inv] and S = seq_cshapeD [OF seq_cinvD(1) [OF inv] m]
  assume "\<not> ?thesis"
  then have f: "unat (tail ?q) = unat (head ?q) + ?n" using S(9) by simp
  then have "unat (tail ?q) mod ?n = unat (head ?q) mod ?n" by simp
  from seq_at_slot [OF this] have "seq_at ?q (unat (head ?q)) = unat (head ?q) + ?n" using st f by simp
  moreover have "unat (head ?q) < unat (tail ?q)" using f S(1) by linarith
  ultimately show False using I(6) [of "unat (head ?q)"] S(1) by auto
qed

lemma seq_head_full:
  assumes inv: "seq_cinv m ls c" and m: "m < seq_bound"
    and st: "seq_at (shared c) (unat (head (shared c))) = Suc (unat (head (shared c)))"
  shows "unat (head (shared c)) < unat (tail (shared c))"
    and "data_at (shared c) (unat (head (shared c))) = accs ls ! unat (head (shared c))"
proof -
  let ?q = "shared c" and ?n = "length (buffer (shared c))"
  note I = seq_cinvD [OF inv] and S = seq_cshapeD [OF seq_cinvD(1) [OF inv] m]
  show ne: "unat (head ?q) < unat (tail ?q)"
  proof (rule ccontr)
    assume "\<not> ?thesis"
    then have "unat (tail ?q) = unat (head ?q)" using S(8) by simp
    moreover have "unat (head ?q) < unat (head ?q) + ?n" using S(1) by linarith
    ultimately show False using I(7) [of "unat (head ?q)"] st S(1) by auto
  qed
  show "data_at ?q (unat (head ?q)) = accs ls ! unat (head ?q)" using I(6) [of "unat (head ?q)"] st ne by auto
qed

lemma pc_ok_claim_tail:
  assumes "pc_ok xs q pc" and "t = tail q" and "unat (t + 1) = Suc (unat t)" and "2 \<le> length (buffer q)"
    and "unat (head q) \<le> unat (tail q)" and "length xs = unat t" and st: "seq_at q (unat t) = unat t"
  shows "pc_ok (xs @ [x]) (q\<lparr>tail := t + 1\<rparr>) pc"
proof -
  have at: "seq_at (q\<lparr>tail := t + 1\<rparr>) = seq_at q" "data_at (q\<lparr>tail := t + 1\<rparr>) = data_at q"
    by (simp_all add: seq_at_def data_at_def fun_eq_iff)
  have free: "unat t < unat h + length (buffer q)"
    if "unat t \<le> unat h + length (buffer q)" "seq_at q (unat h) = Suc (unat h)" for h :: u64
  proof (rule ccontr)
    assume "\<not> ?thesis"
    with that have "unat t = unat h + length (buffer q)" by simp
    with seq_at_slot [of "unat t" q "unat h"] that(2) st assms(4) show False by simp
  qed
  have xs: "(xs @ [x]) ! p = xs ! p" if "p < unat t" for p using that assms(6) by (simp add: nth_append)
  from assms(1-3,5) free xs show ?thesis
    by (cases pc) (auto simp: at word_unat_eq_iff Suc_le_eq)
qed

lemma pc_ok_claim_head:
  assumes "pc_ok xs q pc" and "h = head q" and "unat (h + 1) = Suc (unat h)" and st: "seq_at q (unat h) = Suc (unat h)"
  shows "pc_ok xs (q\<lparr>head := h + 1\<rparr>) pc"
proof -
  have at: "seq_at (q\<lparr>head := h + 1\<rparr>) = seq_at q" "data_at (q\<lparr>head := h + 1\<rparr>) = data_at q"
    by (simp_all add: seq_at_def data_at_def fun_eq_iff)
  have above: "Suc (unat h) \<le> unat t" if "unat h \<le> unat t" "seq_at q (unat t) = unat t" for t :: u64
    using that st by (cases "unat t = unat h") auto
  from assms(1-3) above show ?thesis by (cases pc) (auto simp: at word_unat_eq_iff)
qed

text \<open>Steps that claim a position.\<close>

lemma seq_inv_ECas:
  assumes inv: "seq_cinv m ls c" and m: "m < seq_bound" and pc: "pcs c i = ECas x t" and t: "tail (shared c) = t"
    and q': "q' = (shared c)\<lparr>tail := t + 1\<rparr>" and pcs': "pcs' = (pcs c)(i := EData x t)"
  shows "seq_cinv (Suc m) (ls @ [Accepted x]) (c\<lparr>shared := q', pcs := pcs'\<rparr>)"
proof -
  let ?q = "shared c" and ?n = "length (buffer (shared c))" and ?xs = "accs ls @ [x]"
  note I = seq_cinvD [OF inv] and S = seq_cshapeD [OF seq_cinvD(1) [OF inv] m]
  have st: "seq_at ?q (unat t) = unat t" using I(2) [of i] pc t by simp
  have t1: "unat (t + 1) = Suc (unat t)" using S(6) t by simp
  have sh: "head q' = head ?q" "tail q' = t + 1" "length (buffer q') = ?n" "seq_at q' = seq_at ?q" "data_at q' = data_at ?q"
    unfolding q' by (simp_all add: seq_at_def data_at_def fun_eq_iff)
  have e: "deq_pos (pcs' j) = deq_pos (pcs c j)" "enq_pos (pcs' j) = (if j = i then Some (unat t) else enq_pos (pcs c j))" for j
    using pc by (simp_all add: pcs')
  have xs: "?xs ! p = accs ls ! p" if "p < unat t" for p using that S(11) t by (simp add: nth_append)
  have room: "unat t < unat (head ?q) + ?n" using seq_tail_open [OF inv m] st t by simp
  have slots: "seq_cslots ?xs (c\<lparr>shared := q', pcs := pcs'\<rparr>)"
  proof (rule seq_cslotsI; unfold sh e(1) t1)
    show "seq_at ?q p = p \<and> (\<exists>j. enq_pos (pcs' j) = Some p) \<or> seq_at ?q p = Suc p \<and> data_at ?q p = ?xs ! p"
      if "unat (head ?q) \<le> p" "p < Suc (unat t)" for p
    proof (cases "p = unat t")
      case True
      then show ?thesis using st e(2) [of i] by auto
    next
      case False
      with that have p: "unat (head ?q) \<le> p" "p < unat (tail ?q)" using t by simp_all
      have "enq_pos (pcs' j) = Some p" if "enq_pos (pcs c j) = Some p" for j using that pc by (auto simp: e)
      with I(6) [OF p] xs [of p] p(2) t show ?thesis by metis
    qed
    show "seq_at ?q p = p \<or> ?n \<le> p \<and> seq_at ?q p = Suc (p - ?n) \<and> (\<exists>j. deq_pos (pcs c j) = Some (p - ?n))"
      if "Suc (unat t) \<le> p" "p < unat (head ?q) + ?n" for p
      using I(7) [of p] that t by simp
  qed
  have "pc_ok ?xs q' (EData x t)" using st room t S(8,11) t1 by (simp add: sh nth_append)
  then have pcok: "pc_ok ?xs q' (pcs' j)" for j
    using pc_ok_claim_tail [OF I(2), of t x j] S(1,6,8,11) st t unfolding pcs' q' by simp
  have "seq_cowners (c\<lparr>shared := q', pcs := pcs'\<rparr>)"
  proof -
    have "enq_pos (pcs c j) \<noteq> Some (unat t)" for j using owner_facts(1) [OF I(2) [of j], of "unat t"] t by auto
    with I(4) show ?thesis unfolding seq_cowners_def conf_sel e by (auto split: if_splits)
  qed
  moreover have "seq_cdelivered ?xs (delivs ls) (c\<lparr>shared := q', pcs := pcs'\<rparr>)"
  proof -
    have "?xs ! p = accs ls ! p" if "p < unat (head ?q)" for p using that S(8) t by (intro xs) simp
    with I(5) show ?thesis unfolding seq_cdelivered_def conf_sel e sh by auto
  qed
  moreover have "seq_cshape (Suc m) ?xs q'"
    using I(1) room t t1 by (auto simp: q' seq_cshape_def seqq_shape_def)
  ultimately show ?thesis using slots pcok unfolding seq_cinv_def by simp
qed

lemma seq_inv_DCas:
  assumes inv: "seq_cinv m ls c" and m: "m < seq_bound" and pc: "pcs c i = DCas h" and h: "head (shared c) = h"
    and q': "q' = (shared c)\<lparr>head := h + 1\<rparr>" and pcs': "pcs' = (pcs c)(i := DData h)"
  shows "seq_cinv (Suc m) ls (c\<lparr>shared := q', pcs := pcs'\<rparr>)"
proof -
  let ?q = "shared c" and ?n = "length (buffer (shared c))"
  note I = seq_cinvD [OF inv] and S = seq_cshapeD [OF seq_cinvD(1) [OF inv] m]
  have st: "seq_at ?q (unat h) = Suc (unat h)" using I(2) [of i] pc h by simp
  have h1: "unat (h + 1) = Suc (unat h)" using S(7) h by simp
  have sh: "head q' = h + 1" "tail q' = tail ?q" "length (buffer q') = ?n" "seq_at q' = seq_at ?q" "data_at q' = data_at ?q"
    unfolding q' by (simp_all add: seq_at_def data_at_def fun_eq_iff)
  have e: "enq_pos (pcs' j) = enq_pos (pcs c j)" "deq_pos (pcs' j) = (if j = i then Some (unat h) else deq_pos (pcs c j))" for j
    using pc by (simp_all add: pcs')
  have ne: "unat h < unat (tail ?q)" and data: "data_at ?q (unat h) = accs ls ! unat h"
    using seq_head_full [OF inv m] st h by simp_all
  have slots: "seq_cslots (accs ls) (c\<lparr>shared := q', pcs := pcs'\<rparr>)"
  proof (rule seq_cslotsI; unfold sh e(1) h1)
    show "seq_at ?q p = p \<and> (\<exists>j. enq_pos (pcs c j) = Some p) \<or> seq_at ?q p = Suc p \<and> data_at ?q p = accs ls ! p"
      if "Suc (unat h) \<le> p" "p < unat (tail ?q)" for p
      using I(6) [of p] that h by simp
    show "seq_at ?q p = p \<or> ?n \<le> p \<and> seq_at ?q p = Suc (p - ?n) \<and> (\<exists>j. deq_pos (pcs' j) = Some (p - ?n))"
      if "unat (tail ?q) \<le> p" "p < Suc (unat h) + ?n" for p
    proof (cases "p = unat h + ?n")
      case True
      then show ?thesis using st seq_at_slot [of p ?q "unat h"] e(2) [of i] by auto
    next
      case False
      have "deq_pos (pcs' j) = Some r" if "deq_pos (pcs c j) = Some r" for j r using that pc by (auto simp: e)
      with I(7) [of p] that False h show ?thesis by (metis add_Suc less_SucE)
    qed
  qed
  have "pc_ok (accs ls) q' (DData h)" using st data S(9) h h1 by (simp add: sh)
  then have pcok: "pc_ok (accs ls) q' (pcs' j)" for j
    using pc_ok_claim_head [OF I(2), of h j] S(7) st h unfolding pcs' q' by simp
  have "seq_cowners (c\<lparr>shared := q', pcs := pcs'\<rparr>)"
  proof -
    have "deq_pos (pcs c j) \<noteq> Some (unat h)" for j using owner_facts(2) [OF I(2) [of j], of "unat h"] h by auto
    with I(4) show ?thesis unfolding seq_cowners_def conf_sel e by (auto split: if_splits)
  qed
  moreover have "seq_cdelivered (accs ls) (delivs ls) (c\<lparr>shared := q', pcs := pcs'\<rparr>)"
  proof -
    have "\<exists>j. deq_pos (pcs' j) = Some (unat h)" using e(2) [of i] by auto
    moreover have "deq_pos (pcs' j) = Some r" if "deq_pos (pcs c j) = Some r" for j r using that pc by (auto simp: e)
    moreover have "deq_pos (pcs' j) \<noteq> Some p" if "p < unat h" "deq_pos (pcs c j) \<noteq> Some p" for j p using that by (simp add: e)
    ultimately show ?thesis using I(5) h unfolding seq_cdelivered_def conf_sel sh h1 less_Suc_eq by blast
  qed
  moreover have "seq_cshape (Suc m) (accs ls) q'"
    using I(1) ne h h1 by (auto simp: q' seq_cshape_def seqq_shape_def)
  ultimately show ?thesis using slots pcok unfolding seq_cinv_def by simp
qed

section \<open>Every execution\<close>

fun enqueuing :: "'a seq_pc \<Rightarrow> bool" where
  "enqueuing (ETail x) = True"
| "enqueuing (ESlot x t) = True"
| "enqueuing (ECas x t) = True"
| "enqueuing (EData x t) = True"
| "enqueuing (ESeq x t) = True"
| "enqueuing _ = False"

context atomix_sem
begin

lemma seq_enqueue_inv:
  assumes inv: "seq_cinv m ls c" and m: "m < seq_bound" and pc: "enqueuing (pcs c i)"
    and step: "MPMCSeq_step A zero (pcs c i) (shared c) = ret (l, pc', q')"
  shows "seq_cinv (Suc m) (append_label ls l) (c\<lparr>shared := q', pcs := (pcs c)(i := pc')\<rparr>)"
proof -
  note S = seq_cshapeD [OF seq_cinvD(1) [OF inv] m] and ok = seq_cinvD(2) [OF inv, of i]
  have loc: "seq_cinv (Suc m) ls' (c\<lparr>shared := shared c, pcs := (pcs c)(i := pc')\<rparr>)"
    if "pc_ok (accs ls) (shared c) pc'" "enq_pos pc' = enq_pos (pcs c i)" "deq_pos pc' = deq_pos (pcs c i)"
      "accs ls' = accs ls" "delivs ls' = delivs ls" for ls'
    using seq_cinv_local [OF inv that] by simp
  show ?thesis
  proof (cases "pcs c i")
    case (ETail x)
    with step loc [of ls] show ?thesis by auto
  next
    case (ESlot x t)
    have "seq (buffer (shared c) ! (unat t mod length (buffer (shared c)))) = t \<Longrightarrow> seq_at (shared c) (unat t) = unat t"
      by (simp add: seq_at_def)
    with ESlot step ok S(4,5) show ?thesis
      by (auto simp: Let_def intro!: seq_cinv_local [OF inv] split: if_splits)
  next
    case (ECas x t)
    with step loc [of ls] seq_inv_ECas [OF inv m ECas] show ?thesis
      by (auto simp: cas64 Let_def split: if_splits)
  next
    case (EData x t)
    with step S(4,5) [of t] seq_inv_EData [OF inv m EData] show ?thesis by (auto simp: Let_def)
  next
    case (ESeq x t)
    with step S(4,5) [of t] seq_inv_ESeq [OF inv m ESeq] show ?thesis by (auto simp: Let_def)
  qed (use pc in simp_all)
qed

lemma seq_dequeue_inv:
  assumes inv: "seq_cinv m ls c" and m: "m < seq_bound" and pc: "\<not> enqueuing (pcs c i) \<and> pcs c i \<noteq> Idle"
    and step: "MPMCSeq_step A zero (pcs c i) (shared c) = ret (l, pc', q')"
  shows "seq_cinv (Suc m) (append_label ls l) (c\<lparr>shared := q', pcs := (pcs c)(i := pc')\<rparr>)"
proof -
  note S = seq_cshapeD [OF seq_cinvD(1) [OF inv] m] and ok = seq_cinvD(2) [OF inv, of i]
  have loc: "seq_cinv (Suc m) ls' (c\<lparr>shared := shared c, pcs := (pcs c)(i := pc')\<rparr>)"
    if "pc_ok (accs ls) (shared c) pc'" "enq_pos pc' = enq_pos (pcs c i)" "deq_pos pc' = deq_pos (pcs c i)"
      "accs ls' = accs ls" "delivs ls' = delivs ls" for ls'
    using seq_cinv_local [OF inv that] by simp
  show ?thesis
  proof (cases "pcs c i")
    case DHead
    with step loc [of ls] show ?thesis by auto
  next
    case (DSlot h)
    have "seq_at (shared c) (unat h) = Suc (unat h)"
      if "seq (buffer (shared c) ! (unat h mod length (buffer (shared c)))) = h + 1" "h = head (shared c)"
      using S(7) that by (simp add: seq_at_def)
    with DSlot step ok S(4,5) show ?thesis
      by (auto simp: Let_def intro!: seq_cinv_local [OF inv] split: if_splits)
  next
    case (DCas h)
    with step loc [of ls] seq_inv_DCas [OF inv m DCas] show ?thesis
      by (auto simp: cas64 Let_def split: if_splits)
  next
    case (DData h)
    have "data (buffer (shared c) ! (unat h mod length (buffer (shared c)))) = data_at (shared c) (unat h)"
      by (simp add: data_at_def)
    with DData step ok S(4,5) [of h] loc [of ls] show ?thesis by (auto simp: Let_def)
  next
    case (DClear h x)
    with step S(4,5) [of h] seq_inv_DClear [OF inv m DClear] show ?thesis by (auto simp: Let_def)
  next
    case (DSeq h x)
    with step S(4,5) [of h] seq_inv_DSeq [OF inv m DSeq] show ?thesis by (auto simp: Let_def)
  qed (use pc in simp_all)
qed

lemma seq_step_inv:
  assumes inv: "seq_cinv m ls c" and m: "m < seq_bound" and step: "seq_step A zero c l c'"
  shows "seq_cinv (Suc m) (append_label ls l) c'"
  using step
proof (cases rule: seq_step.cases)
  case (seq_call_Enqueue i x)
  then show ?thesis by (auto intro: seq_cinv_local [OF inv])
next
  case (seq_call_Dequeue i)
  then show ?thesis by (auto intro: seq_cinv_local [OF inv])
next
  case (seq_run i pc q)
  then show ?thesis using seq_enqueue_inv [OF inv m _ seq_run(3)] seq_dequeue_inv [OF inv m _ seq_run(3)] by blast
qed

lemma seq_exec_inv:
  assumes "exec (seq_step A zero) c0 m ls c" and "seq_cinv 0 [] c0" and "m \<le> seq_bound"
  shows "seq_cinv m ls c"
  by (rule exec_trace_invariant [of _ _ _ _ _ seq_cinv, OF assms seq_step_inv])

lemma seq_exec_length:
  assumes "exec (seq_step A zero) c0 m ls c"
  shows "length (buffer (shared c)) = length (buffer (shared c0))"
proof -
  have "length (buffer q') = length (buffer q)" if "MPMCSeq_step A zero pc q = ret (l, pc', q')" for pc q l pc' and q' :: "'a MPMCSeq"
    using that by (cases pc) (auto simp: Let_def cas64 split: if_splits)
  then have "length (buffer (shared c')) = length (buffer (shared c))" if "seq_step A zero c l c'" for c l c'
    using that by (auto elim!: seq_step.cases)
  with assms show ?thesis by induction auto
qed

end

definition seq_init :: "'a MPMCSeq \<Rightarrow> 'a seq_conf" where
  "seq_init q = \<lparr>shared = q, pcs = \<lambda>_. Idle\<rparr>"

lemma seq_init_cinv:
  assumes "NewMPMCSeq zero c = ret q" and "2 \<le> sint c" and "sint c \<le> 2 ^ 62"
  shows "seq_cinv 0 [] (seq_init q)" and "length (buffer q) = unat (roundToPow2 c)"
proof -
  from NewMPMCSeq_ok [OF assms(2,3), of zero] assms(1) have q: "seqq_ok q" "seqq_elems q = []" "capacity q = roundToPow2 c"
    by (auto simp: seqq_inv_def)
  from assms(1,2) have ht: "head q = 0" "tail q = 0" by (auto simp: NewMPMCSeq_def Let_def go_simps)
  from q(1) obtain k where k: "seqq_shape k q" by (auto simp: seqq_ok_def)
  then have n: "0 < length (buffer q)" "length (buffer q) \<le> 2 ^ 62" using pow2_le_62 by (auto simp: seqq_shape_def)
  show "length (buffer q) = unat (roundToPow2 c)" using seqq_length(1,2) [OF k] q(3) by simp
  have "seq_at q p = p" if "p < length (buffer q)" for p
    using q(1) that n(2) ht unfolding seqq_ok_def seq_ring_def seq_at_def by (auto simp: unat_of_nat_u64)
  then show "seq_cinv 0 [] (seq_init q)"
    using k n by (auto simp: seq_cinv_def seq_init_def seq_cshape_def ht seq_cslots_def seq_cowners_def seq_cdelivered_def)
qed

text \<open>What the invariant says to a client: rank order, no duplicates, nothing lost at rest.\<close>

lemma seq_cinv_delivered:
  assumes "seq_cinv m ls c" and "m \<le> seq_bound"
  shows "distinct (map fst (delivs ls))"
    and "(p, x) \<in> set (delivs ls) \<Longrightarrow> p < length (accs ls) \<and> x = accs ls ! p"
    and "length (accs ls) \<le> unat (head (shared c)) + length (buffer (shared c))"
    and "(\<And>i. pcs c i = Idle) \<Longrightarrow> fst ` set (delivs ls) = {..<unat (head (shared c))}"
    and "(\<And>i. pcs c i = Idle) \<Longrightarrow> seqq_elems (shared c) = drop (unat (head (shared c))) (accs ls)"
proof -
  note I = seq_cinvD [OF assms(1)]
  let ?q = "shared c"
  have S: "unat (head ?q) \<le> unat (tail ?q)" "unat (tail ?q) \<le> unat (head ?q) + length (buffer ?q)"
    "length (accs ls) = unat (tail ?q)"
    using I(1) by (auto simp: seq_cshape_def)
  have D: "distinct (map fst (delivs ls))"
    "\<And>p x. (p, x) \<in> set (delivs ls) \<Longrightarrow> p < unat (head ?q) \<and> x = accs ls ! p"
    "\<And>p. p < unat (head ?q) \<Longrightarrow> p \<in> fst ` set (delivs ls) \<or> (\<exists>i. deq_pos (pcs c i) = Some p)"
    using I(5) unfolding seq_cdelivered_def by blast+
  show "distinct (map fst (delivs ls))" by (rule D(1))
  show "p < length (accs ls) \<and> x = accs ls ! p" if "(p, x) \<in> set (delivs ls)"
    using D(2) [OF that] S by simp
  show "length (accs ls) \<le> unat (head ?q) + length (buffer ?q)" using S by simp
  show "fst ` set (delivs ls) = {..<unat (head ?q)}" if "\<And>i. pcs c i = Idle"
    using D(2,3) that by fastforce
  show "seqq_elems ?q = drop (unat (head ?q)) (accs ls)" if idle: "\<And>i. pcs c i = Idle"
  proof (rule nth_equalityI)
    have u: "unat (tail ?q - head ?q) = unat (tail ?q) - unat (head ?q)" by (rule unat_diff_le [OF S(1)])
    then show "length (seqq_elems ?q) = length (drop (unat (head ?q)) (accs ls))" using S(3) by simp
    fix j
    assume j: "j < length (seqq_elems ?q)"
    then have "data_at ?q (unat (head ?q) + j) = accs ls ! (unat (head ?q) + j)"
      using I(6) [of "unat (head ?q) + j"] idle u by simp
    then show "seqq_elems ?q ! j = drop (unat (head ?q)) (accs ls) ! j"
      using j u S by (simp add: seqq_elems_def nth_ring_list data_at_def)
  qed
qed

section \<open>Refusals\<close>

lemma ceil_div_bounds:
  assumes "0 < (n :: nat)"
  shows "a \<le> ((a + (n - 1)) div n) * n" and "((a + (n - 1)) div n) * n < a + n"
proof -
  have "(a + (n - 1)) div n * n + (a + (n - 1)) mod n = a + (n - 1)" by (rule div_mult_mod_eq)
  moreover have "(a + (n - 1)) mod n < n" using assms by simp
  ultimately show "a \<le> ((a + (n - 1)) div n) * n" and "((a + (n - 1)) div n) * n < a + n"
    using assms by linarith+
qed

text \<open>Behind the head the sequence numbers have moved on.\<close>

lemma seq_at_behind:
  assumes "seq_cinv m ls c" and "m < seq_bound" and "t < unat (head (shared c))"
  shows "t < seq_at (shared c) t" and "seq_at (shared c) t < 2 ^ 63"
proof -
  let ?q = "shared c" and ?n = "length (buffer (shared c))" and ?H = "unat (head (shared c))"
  note I = seq_cinvD [OF assms(1)] and S = seq_cshapeD [OF seq_cinvD(1) [OF assms(1)] assms(2)]
  define p where "p = t + ((?H - t + (?n - 1)) div ?n) * ?n"
  have n: "0 < ?n" using S(1) by linarith
  have two63: "(2 :: nat) ^ 63 = 2 ^ 62 + 2 ^ 62" by simp
  have pm: "p mod ?n = t mod ?n" unfolding p_def by simp
  have "?H - t \<le> ((?H - t + (?n - 1)) div ?n) * ?n" "((?H - t + (?n - 1)) div ?n) * ?n < ?H - t + ?n"
    by (rule ceil_div_bounds [OF n])+
  then have w: "?H \<le> p" "p < ?H + ?n" using assms(3) unfolding p_def by linarith+
  have tp: "t + ?n \<le> p"
  proof -
    have "1 \<le> (?H - t + (?n - 1)) div ?n" using assms(3) n by (simp add: Suc_le_eq div_greater_zero_iff)
    then have "?n \<le> ((?H - t + (?n - 1)) div ?n) * ?n" by simp
    then show ?thesis unfolding p_def by simp
  qed
  have "seq_at ?q p = p \<or> seq_at ?q p = Suc p \<or> seq_at ?q p = Suc (p - ?n)"
    using I(6) [OF w(1)] I(7) [OF _ w(2)] by (cases "p < unat (tail ?q)") auto
  then have "Suc (p - ?n) \<le> seq_at ?q p \<and> seq_at ?q p \<le> Suc p" using n tp by (elim disjE) arith+
  then show "t < seq_at ?q t" "seq_at ?q t < 2 ^ 63"
    using seq_at_slot [OF pm] tp w(2) S(2,8,10) two63 by linarith+
qed

text \<open>
  \<open>Enqueue\<close> is refused only while the queue is full or the consumer of the slot it needs has not
  finished; \<open>Dequeue\<close> is refused only while the queue is empty or the producer of the value it
  needs has not finished.
\<close>

lemma refused_diff:
  assumes "unat (s :: u64) < 2 ^ 63" and "unat (t :: u64) < 2 ^ 63" and "sint (s - t) < 0"
  shows "unat s < unat t"
proof (rule ccontr)
  assume "\<not> ?thesis"
  then have "unat (s - t) = unat s - unat t" by (intro unat_diff_le) simp
  with assms(1) have "unat (s - t) < 2 ^ 63" by simp
  with assms(3) show False by (simp add: sint_neg_iff)
qed

lemma enqueue_refused:
  assumes inv: "seq_cinv m ls c" and m: "m < seq_bound" and pc: "pcs c i = ESlot x t"
    and step: "MPMCSeq_step A zero (ESlot x t) (shared c) = ret (Some EnqueueRefused, pc', q')"
  shows "unat (tail (shared c)) = unat (head (shared c)) + length (buffer (shared c))
     \<or> (\<exists>j. deq_pos (pcs c j) = Some (unat (tail (shared c)) - length (buffer (shared c))))"
proof -
  let ?q = "shared c" and ?n = "length (buffer (shared c))"
  note I = seq_cinvD [OF inv] and S = seq_cshapeD [OF seq_cinvD(1) [OF inv] m]
  let ?s = "seq (buffer ?q ! (unat t mod ?n))"
  have u: "unat ?s = seq_at ?q (unat t)" by (simp add: seq_at_def)
  have neg: "sint (?s - t) < 0" "?s \<noteq> t" using step S(4,5) [of t] by (auto simp: Let_def split: if_splits)
  have tT: "unat t \<le> unat (tail ?q)" using I(2) [of i] pc by simp
  consider "unat t < unat (head ?q)" | "unat (head ?q) \<le> unat t" "unat t < unat (tail ?q)" | "unat t = unat (tail ?q)"
    using tT by linarith
  then show ?thesis
  proof cases
    case 1
    with seq_at_behind [OF inv m 1] refused_diff [OF _ _ neg(1)] u S(8,10) show ?thesis by simp
  next
    case 2
    with I(6) [OF 2] refused_diff [OF _ _ neg(1)] u S(10) show ?thesis by auto
  next
    case 3
    have "seq_at ?q (unat t) \<noteq> unat t" using neg(2) u by (metis word_unat_eq_iff)
    with 3 I(7) [of "unat t"] S(9) show ?thesis by (cases "unat t < unat (head ?q) + ?n") auto
  qed
qed

lemma dequeue_refused:
  assumes inv: "seq_cinv m ls c" and m: "m < seq_bound" and pc: "pcs c i = DSlot h"
    and step: "MPMCSeq_step A zero (DSlot h) (shared c) = ret (Some DequeueRefused, pc', q')"
  shows "unat (head (shared c)) = unat (tail (shared c)) \<or> (\<exists>j. enq_pos (pcs c j) = Some (unat (head (shared c))))"
proof -
  let ?q = "shared c" and ?n = "length (buffer (shared c))"
  note I = seq_cinvD [OF inv] and S = seq_cshapeD [OF seq_cinvD(1) [OF inv] m]
  let ?s = "seq (buffer ?q ! (unat h mod ?n))"
  have u: "unat ?s = seq_at ?q (unat h)" by (simp add: seq_at_def)
  have neg: "sint (?s - (h + 1)) < 0" "?s \<noteq> h + 1" using step S(4,5) [of h] by (auto simp: Let_def split: if_splits)
  have hH: "unat h \<le> unat (head ?q)" using I(2) [of i] pc by simp
  then have h1: "unat (h + 1) = Suc (unat h)" using S(8,10) by (subst unat_Suc_no_wrap) auto
  show ?thesis
  proof (cases "unat h < unat (head ?q)")
    case True
    with seq_at_behind [OF inv m True] refused_diff [OF _ _ neg(1)] u h1 S(8,10) show ?thesis by simp
  next
    case False
    with hH have h: "unat h = unat (head ?q)" by simp
    have "seq_at ?q (unat h) \<noteq> Suc (unat h)" using neg(2) u h1 by (metis word_unat_eq_iff)
    with h I(6) [of "unat h"] S(8) show ?thesis by (cases "unat h < unat (tail ?q)") auto
  qed
qed

section \<open>A call alone\<close>

fun enqueue_result :: "'a seq_label option \<Rightarrow> 'a seq_pc \<Rightarrow> err option option" where
  "enqueue_result (Some EnqueueRefused) pc = Some (Some ErrWouldBlock)"
| "enqueue_result None Idle = Some None"
| "enqueue_result _ _ = None"

fun dequeue_result :: "'a \<Rightarrow> 'a seq_label option \<Rightarrow> ('a \<times> err option) option" where
  "dequeue_result zero (Some DequeueRefused) = Some (zero, Some ErrWouldBlock)"
| "dequeue_result zero (Some (Delivered p x)) = Some (x, None)"
| "dequeue_result zero _ = None"

partial_function (option) MPMCSeq_Enqueue_alone
  :: "atomix \<Rightarrow> 'a \<Rightarrow> 'a seq_pc \<Rightarrow> 'a MPMCSeq \<Rightarrow> (err option \<times> 'a MPMCSeq) go" where
  "MPMCSeq_Enqueue_alone A zero pc q = (case MPMCSeq_step A zero pc q of
       None \<Rightarrow> None
     | Some (Inl p) \<Rightarrow> panics p
     | Some (Inr (l, pc', q')) \<Rightarrow> (case enqueue_result l pc' of Some r \<Rightarrow> ret (r, q')
         | None \<Rightarrow> MPMCSeq_Enqueue_alone A zero pc' q'))"

partial_function (option) MPMCSeq_Dequeue_alone
  :: "atomix \<Rightarrow> 'a \<Rightarrow> 'a seq_pc \<Rightarrow> 'a MPMCSeq \<Rightarrow> (('a \<times> err option) \<times> 'a MPMCSeq) go" where
  "MPMCSeq_Dequeue_alone A zero pc q = (case MPMCSeq_step A zero pc q of
       None \<Rightarrow> None
     | Some (Inl p) \<Rightarrow> panics p
     | Some (Inr (l, pc', q')) \<Rightarrow> (case dequeue_result zero l of Some r \<Rightarrow> ret (r, q')
         | None \<Rightarrow> MPMCSeq_Dequeue_alone A zero pc' q'))"

context atomix_sem
begin

lemma seq_enqueue_alone_ESeq:
  "unat (t AND mask_q q) < length (buffer q) \<Longrightarrow> MPMCSeq_Enqueue_alone A zero (ESeq x t) q
     = ret (None, q\<lparr>buffer := (buffer q)[unat (t AND mask_q q) := (buffer q ! unat (t AND mask_q q))\<lparr>seq := t + 1\<rparr>]\<rparr>)"
  by (subst MPMCSeq_Enqueue_alone.simps) (simp add: Let_def)

lemma seq_enqueue_alone_EData:
  "unat (t AND mask_q q) < length (buffer q) \<Longrightarrow> MPMCSeq_Enqueue_alone A zero (EData x t) q
     = ret (None, q\<lparr>buffer := (buffer q)[unat (t AND mask_q q) := \<lparr>seq = t + 1, data = x\<rparr>]\<rparr>)"
  by (subst MPMCSeq_Enqueue_alone.simps) (simp add: Let_def seq_enqueue_alone_ESeq)

lemma seq_enqueue_alone_ECas:
  "unat (t AND mask_q q) < length (buffer q) \<Longrightarrow> tail q = t \<Longrightarrow> MPMCSeq_Enqueue_alone A zero (ECas x t) q
     = ret (None, q\<lparr>tail := t + 1, buffer := (buffer q)[unat (t AND mask_q q) := \<lparr>seq = t + 1, data = x\<rparr>]\<rparr>)"
  by (subst MPMCSeq_Enqueue_alone.simps) (simp add: Let_def cas64 seq_enqueue_alone_EData)

lemma seq_enqueue_alone_ESlot:
  assumes "unat (t AND mask_q q) < length (buffer q)" and "tail q = t"
  shows "seq (buffer q ! unat (t AND mask_q q)) = t \<Longrightarrow> MPMCSeq_Enqueue_alone A zero (ESlot x t) q
     = ret (None, q\<lparr>tail := t + 1, buffer := (buffer q)[unat (t AND mask_q q) := \<lparr>seq = t + 1, data = x\<rparr>]\<rparr>)"
    and "sint (seq (buffer q ! unat (t AND mask_q q)) - t) < 0 \<Longrightarrow>
      MPMCSeq_Enqueue_alone A zero (ESlot x t) q = ret (Some ErrWouldBlock, q)"
  by (subst MPMCSeq_Enqueue_alone.simps, use assms in \<open>simp add: Let_def seq_enqueue_alone_ECas\<close>)
    (subst MPMCSeq_Enqueue_alone.simps, use assms in \<open>auto simp: Let_def\<close>)

lemma seq_enqueue_alone:
  assumes "seqq_ok q"
  shows "MPMCSeq_Enqueue_alone A zero (ETail x) q = MPMCSeq_Enqueue A x q"
proof -
  from assms obtain k where k: "seqq_shape k q" by (auto simp: seqq_ok_def)
  have i: "unat (tail q AND mask_q q) = unat (tail q) mod length (buffer q)"
    "unat (tail q) mod length (buffer q) < length (buffer q)"
    using seqq_index [OF k] k by (simp_all add: seqq_shape_def)
  have k': "1 \<le> k" "k \<le> 62" using k by (auto simp: seqq_shape_def)
  note slot = seq_enqueue_alone_ESlot [of "tail q" q, unfolded i, OF i(2) refl]
  show ?thesis
    using slot [where x = x and zero = zero] seqq_tail_slot [OF assms k] full_diff [OF k', of "tail q"]
    by (subst MPMCSeq_Enqueue_eq [OF assms k], subst MPMCSeq_Enqueue_alone.simps) (simp add: seqq_push_def)
qed

lemma seq_dequeue_alone_steps:
  assumes "unat (h AND mask_q q) < length (buffer q)"
  shows "MPMCSeq_Dequeue_alone A zero (DSeq h x) q = ret ((x, None),
      q\<lparr>buffer := (buffer q)[unat (h AND mask_q q) := (buffer q ! unat (h AND mask_q q))\<lparr>seq := h + capacity q\<rparr>]\<rparr>)"
    and "MPMCSeq_Dequeue_alone A zero (DClear h x) q = ret ((x, None),
      q\<lparr>buffer := (buffer q)[unat (h AND mask_q q) := \<lparr>seq = h + capacity q, data = zero\<rparr>]\<rparr>)"
    and "MPMCSeq_Dequeue_alone A zero (DData h) q = ret ((data (buffer q ! unat (h AND mask_q q)), None),
      q\<lparr>buffer := (buffer q)[unat (h AND mask_q q) := \<lparr>seq = h + capacity q, data = zero\<rparr>]\<rparr>)"
proof -
  have s: "MPMCSeq_Dequeue_alone A zero (DSeq h x) q = ret ((x, None),
      q\<lparr>buffer := (buffer q)[unat (h AND mask_q q) := (buffer q ! unat (h AND mask_q q))\<lparr>seq := h + capacity q\<rparr>]\<rparr>)"
    if "unat (h AND mask_q q) < length (buffer q)" for x q
    using that by (subst MPMCSeq_Dequeue_alone.simps) (simp add: Let_def)
  show "MPMCSeq_Dequeue_alone A zero (DSeq h x) q = ret ((x, None),
      q\<lparr>buffer := (buffer q)[unat (h AND mask_q q) := (buffer q ! unat (h AND mask_q q))\<lparr>seq := h + capacity q\<rparr>]\<rparr>)"
    by (rule s [OF assms])
  show c: "MPMCSeq_Dequeue_alone A zero (DClear h x) q = ret ((x, None),
      q\<lparr>buffer := (buffer q)[unat (h AND mask_q q) := \<lparr>seq = h + capacity q, data = zero\<rparr>]\<rparr>)" for x
    using assms by (subst MPMCSeq_Dequeue_alone.simps) (simp add: Let_def s)
  show "MPMCSeq_Dequeue_alone A zero (DData h) q = ret ((data (buffer q ! unat (h AND mask_q q)), None),
      q\<lparr>buffer := (buffer q)[unat (h AND mask_q q) := \<lparr>seq = h + capacity q, data = zero\<rparr>]\<rparr>)"
    using assms by (subst MPMCSeq_Dequeue_alone.simps) (simp add: Let_def c)
qed

lemma seq_dequeue_alone_DSlot:
  assumes "unat (h AND mask_q q) < length (buffer q)" and "head q = h"
  shows "seq (buffer q ! unat (h AND mask_q q)) = h + 1 \<Longrightarrow> MPMCSeq_Dequeue_alone A zero (DSlot h) q
     = ret ((data (buffer q ! unat (h AND mask_q q)), None),
        q\<lparr>head := h + 1, buffer := (buffer q)[unat (h AND mask_q q) := \<lparr>seq = h + capacity q, data = zero\<rparr>]\<rparr>)"
    and "sint (seq (buffer q ! unat (h AND mask_q q)) - (h + 1)) < 0 \<Longrightarrow>
      MPMCSeq_Dequeue_alone A zero (DSlot h) q = ret ((zero, Some ErrWouldBlock), q)"
proof -
  have "MPMCSeq_Dequeue_alone A zero (DCas h) q = ret ((data (buffer q ! unat (h AND mask_q q)), None),
        q\<lparr>head := h + 1, buffer := (buffer q)[unat (h AND mask_q q) := \<lparr>seq = h + capacity q, data = zero\<rparr>]\<rparr>)"
    using assms seq_dequeue_alone_steps(3) [of h "q\<lparr>head := h + 1\<rparr>"]
    by (subst MPMCSeq_Dequeue_alone.simps) (simp add: Let_def cas64)
  then show "seq (buffer q ! unat (h AND mask_q q)) = h + 1 \<Longrightarrow> MPMCSeq_Dequeue_alone A zero (DSlot h) q
     = ret ((data (buffer q ! unat (h AND mask_q q)), None),
        q\<lparr>head := h + 1, buffer := (buffer q)[unat (h AND mask_q q) := \<lparr>seq = h + capacity q, data = zero\<rparr>]\<rparr>)"
    using assms by (subst MPMCSeq_Dequeue_alone.simps) (simp add: Let_def)
  show "sint (seq (buffer q ! unat (h AND mask_q q)) - (h + 1)) < 0 \<Longrightarrow>
      MPMCSeq_Dequeue_alone A zero (DSlot h) q = ret ((zero, Some ErrWouldBlock), q)"
    using assms by (subst MPMCSeq_Dequeue_alone.simps) (auto simp: Let_def)
qed

lemma seq_dequeue_alone:
  assumes "seqq_ok q"
  shows "MPMCSeq_Dequeue_alone A zero DHead q = MPMCSeq_Dequeue A zero q"
proof -
  from assms obtain k where k: "seqq_shape k q" by (auto simp: seqq_ok_def)
  have i: "unat (head q AND mask_q q) = unat (head q) mod length (buffer q)"
    "unat (head q) mod length (buffer q) < length (buffer q)"
    using seqq_index [OF k] k by (simp_all add: seqq_shape_def)
  note slot = seq_dequeue_alone_DSlot [of "head q" q, unfolded i, OF i(2) refl]
  show ?thesis
    using slot [where zero = zero] seqq_head_slot [OF assms k] minus_1_neg [of "head q"]
    by (subst MPMCSeq_Dequeue_eq [OF assms k], subst MPMCSeq_Dequeue_alone.simps) (simp add: seqq_pop_def)
qed

end

section \<open>Executing an interleaving\<close>

datatype 'a seq_move = SeqEnqueue nat 'a | SeqDequeue nat | SeqRun nat

fun seq_do :: "atomix \<Rightarrow> 'a \<Rightarrow> 'a seq_move \<Rightarrow> 'a seq_conf \<Rightarrow> ('a seq_label option \<times> 'a seq_conf) option" where
  "seq_do A zero (SeqEnqueue i x) c = (case pcs c i of Idle \<Rightarrow> Some (None, c\<lparr>pcs := (pcs c)(i := ETail x)\<rparr>) | _ \<Rightarrow> None)"
| "seq_do A zero (SeqDequeue i) c = (case pcs c i of Idle \<Rightarrow> Some (None, c\<lparr>pcs := (pcs c)(i := DHead)\<rparr>) | _ \<Rightarrow> None)"
| "seq_do A zero (SeqRun i) c = (case pcs c i of Idle \<Rightarrow> None | pc \<Rightarrow>
     (case MPMCSeq_step A zero pc (shared c) of
        Some (Inr (l, pc', q)) \<Rightarrow> Some (l, c\<lparr>shared := q, pcs := (pcs c)(i := pc')\<rparr>) | _ \<Rightarrow> None))"

lemma seq_do_step:
  assumes "seq_do A zero mv c = Some (l, c')"
  shows "seq_step A zero c l c'"
proof (cases mv)
  case (SeqRun i)
  then have "pcs c i \<noteq> Idle" using assms by (cases "pcs c i") auto
  moreover from this have "(case MPMCSeq_step A zero (pcs c i) (shared c) of
        Some (Inr (l, pc', q)) \<Rightarrow> Some (l, c\<lparr>shared := q, pcs := (pcs c)(i := pc')\<rparr>) | _ \<Rightarrow> None) = Some (l, c')"
    using assms SeqRun by (cases "pcs c i") simp_all
  ultimately show ?thesis by (auto intro: seq_step.intros split: option.splits sum.splits)
qed (use assms in \<open>auto intro: seq_step.intros split: seq_pc.splits\<close>)

lemma seq_sched_exec:
  "sched (seq_do A zero) mvs c0 = Some (ls, c) \<Longrightarrow> length mvs = n \<Longrightarrow> exec (seq_step A zero) c0 n ls c"
  using sched_init_exec [of "seq_do A zero" mvs c0 ls c "seq_step A zero", OF _ seq_do_step] by simp

text \<open>The smallest queue, on which the schedules below run.\<close>

lemma NewMPMCSeq_2:
  "NewMPMCSeq zero 2 = ret \<lparr>tail = 0, head = 0, buffer = [\<lparr>seq = 0, data = zero\<rparr>, \<lparr>seq = 1, data = zero\<rparr>],
     mask_q = 1, capacity = 2\<rparr>"
proof -
  have "[0..<2] = [0, 1]" "replicate 2 z = [z, z]" for z :: "'a mpmcSeqSlot" by (simp_all add: upt_rec numeral_2_eq_2)
  then show ?thesis by (simp add: roundToPow2_2 NewMPMCSeq_def make_slice_def)
qed

end
