(* ===== verification/Goroutines.thy ===== *)
theory Goroutines
  imports Interleaving
begin

text \<open>
  Any number of goroutines calling one queue, for a queue whose calls are given by a step
  function on program counters: \<open>idle\<close> between two calls, \<open>enq x\<close> and \<open>deq\<close> at the first access of
  a call. The predicates \<open>P\<close> and \<open>C\<close> say which goroutines may produce and which may consume.
\<close>

record ('s, 'pc) goroutines =
  memory :: 's
  at_pc :: "nat \<Rightarrow> 'pc"

definition go_init :: "'s \<Rightarrow> 'pc \<Rightarrow> ('s, 'pc) goroutines" where
  "go_init s idle = \<lparr>memory = s, at_pc = \<lambda>_. idle\<rparr>"

inductive go_step
  :: "('pc \<Rightarrow> 's \<Rightarrow> ('l option \<times> 'pc \<times> 's) go) \<Rightarrow> 'pc \<Rightarrow> ('a \<Rightarrow> 'pc) \<Rightarrow> 'pc \<Rightarrow> (nat \<Rightarrow> bool) \<Rightarrow> (nat \<Rightarrow> bool)
    \<Rightarrow> ('s, 'pc) goroutines \<Rightarrow> 'l option \<Rightarrow> ('s, 'pc) goroutines \<Rightarrow> bool"
  for stepf :: "'pc \<Rightarrow> 's \<Rightarrow> ('l option \<times> 'pc \<times> 's) go" and idle :: 'pc and enq :: "'a \<Rightarrow> 'pc" and deq :: 'pc
    and P :: "nat \<Rightarrow> bool" and C :: "nat \<Rightarrow> bool" where
  go_call_Enqueue: "at_pc c i = idle \<Longrightarrow> P i \<Longrightarrow>
    go_step stepf idle enq deq P C c None (c\<lparr>at_pc := (at_pc c)(i := enq x)\<rparr>)"
| go_call_Dequeue: "at_pc c i = idle \<Longrightarrow> C i \<Longrightarrow>
    go_step stepf idle enq deq P C c None (c\<lparr>at_pc := (at_pc c)(i := deq)\<rparr>)"
| go_run: "at_pc c i \<noteq> idle \<Longrightarrow> stepf (at_pc c i) (memory c) = ret (l, pc, q) \<Longrightarrow>
    go_step stepf idle enq deq P C c l (c\<lparr>memory := q, at_pc := (at_pc c)(i := pc)\<rparr>)"

inductive_cases go_stepE: "go_step stepf idle enq deq P C c l c'"

section \<open>Executing a schedule\<close>

datatype 'a go_move = StartEnqueue nat 'a | StartDequeue nat | Resume nat

fun go_do
  :: "('pc \<Rightarrow> 's \<Rightarrow> ('l option \<times> 'pc \<times> 's) go) \<Rightarrow> 'pc \<Rightarrow> ('a \<Rightarrow> 'pc) \<Rightarrow> 'pc \<Rightarrow> (nat \<Rightarrow> bool) \<Rightarrow> (nat \<Rightarrow> bool)
    \<Rightarrow> 'a go_move \<Rightarrow> ('s, 'pc) goroutines \<Rightarrow> ('l option \<times> ('s, 'pc) goroutines) option" where
  "go_do stepf idle enq deq P C (StartEnqueue i x) c =
     (if at_pc c i = idle \<and> P i then Some (None, c\<lparr>at_pc := (at_pc c)(i := enq x)\<rparr>) else None)"
| "go_do stepf idle enq deq P C (StartDequeue i) c =
     (if at_pc c i = idle \<and> C i then Some (None, c\<lparr>at_pc := (at_pc c)(i := deq)\<rparr>) else None)"
| "go_do stepf idle enq deq P C (Resume i) c = (if at_pc c i = idle then None else
     case stepf (at_pc c i) (memory c) of
       Some (Inr (l, pc, q)) \<Rightarrow> Some (l, c\<lparr>memory := q, at_pc := (at_pc c)(i := pc)\<rparr>) | _ \<Rightarrow> None)"

lemma go_do_step: "go_do stepf idle enq deq P C mv c = Some (l, c') \<Longrightarrow> go_step stepf idle enq deq P C c l c'"
  by (cases mv) (auto intro: go_step.intros split: if_splits option.splits sum.splits)

lemma go_sched_exec:
  assumes "sched (go_do stepf idle enq deq P C) mvs c0 = Some (ls, c)" and "length mvs = n"
  shows "exec (go_step stepf idle enq deq P C) c0 n ls c"
  using sched_init_exec [OF assms(1) go_do_step] assms(2) by simp

text \<open>Steps of the others while goroutine \<open>i\<close> rests inside its call, and schedules of such steps.\<close>

definition others :: "nat \<Rightarrow> (('s, 'pc) goroutines \<Rightarrow> 'l option \<Rightarrow> ('s, 'pc) goroutines \<Rightarrow> bool)
    \<Rightarrow> ('s, 'pc) goroutines \<Rightarrow> 'l option \<Rightarrow> ('s, 'pc) goroutines \<Rightarrow> bool" where
  "others i step c l c' \<longleftrightarrow> step c l c' \<and> at_pc c' i = at_pc c i"

definition others_do :: "nat \<Rightarrow> ('mv \<Rightarrow> ('s, 'pc) goroutines \<Rightarrow> ('l option \<times> ('s, 'pc) goroutines) option)
    \<Rightarrow> 'mv \<Rightarrow> ('s, 'pc) goroutines \<Rightarrow> ('l option \<times> ('s, 'pc) goroutines) option" where
  "others_do i f mv c = (case f mv c of None \<Rightarrow> None
     | Some (l, c') \<Rightarrow> if at_pc c' i = at_pc c i then Some (l, c') else None)"

lemma others_sched_exec:
  assumes "sched (others_do i (go_do stepf idle enq deq P C)) mvs c0 = Some (ls, c)" and "length mvs = n"
  shows "exec (others i (go_step stepf idle enq deq P C)) c0 n ls c"
  using sched_init_exec [OF assms(1), of "others i (go_step stepf idle enq deq P C)"] assms(2) go_do_step
  by (fastforce simp: others_do_def others_def split: option.splits if_splits)

section \<open>Linearization\<close>

text \<open>
  What a queue has to show: an invariant and the abstract contents, both of the memory and all
  program counters, such that starting a call changes neither and every step of a goroutine inside
  a call keeps the invariant and does to the contents what its label says. Then every execution
  is a run of the abstract FIFO.
\<close>

locale go_linearization =
  fixes stepf :: "'pc \<Rightarrow> 's \<Rightarrow> (('a call \<times> 'a answer) option \<times> 'pc \<times> 's) go"
    and idle :: 'pc and enq :: "'a \<Rightarrow> 'pc" and deq :: 'pc
    and P :: "nat \<Rightarrow> bool" and C :: "nat \<Rightarrow> bool"
    and I :: "nat \<Rightarrow> 's \<Rightarrow> (nat \<Rightarrow> 'pc) \<Rightarrow> bool"
    and E :: "'s \<Rightarrow> (nat \<Rightarrow> 'pc) \<Rightarrow> 'a list"
    and cap :: "'s \<Rightarrow> nat" and zero :: 'a and bound :: nat
  assumes enq_I: "I m s p \<Longrightarrow> p i = idle \<Longrightarrow> P i \<Longrightarrow> I (Suc m) s (p(i := enq x))"
    and enq_E: "I m s p \<Longrightarrow> p i = idle \<Longrightarrow> P i \<Longrightarrow> E s (p(i := enq x)) = E s p"
    and deq_I: "I m s p \<Longrightarrow> p i = idle \<Longrightarrow> C i \<Longrightarrow> I (Suc m) s (p(i := deq))"
    and deq_E: "I m s p \<Longrightarrow> p i = idle \<Longrightarrow> C i \<Longrightarrow> E s (p(i := deq)) = E s p"
    and run: "I m s p \<Longrightarrow> m < bound \<Longrightarrow> p i \<noteq> idle \<Longrightarrow> stepf (p i) s = ret (l, pc, s') \<Longrightarrow>
      I (Suc m) s' (p(i := pc)) \<and> cap s' = cap s \<and> fifo_effect zero (cap s) l (E s p) (E s' (p(i := pc)))"

sublocale go_linearization < lin: fifo_linearization "go_step stepf idle enq deq P C"
    "\<lambda>m c. I m (memory c) (at_pc c)" "\<lambda>c. E (memory c) (at_pc c)" "\<lambda>c. cap (memory c)" zero bound
proof
  fix m c l c'
  assume i: "I m (memory c) (at_pc c)" and m: "m < bound" and step: "go_step stepf idle enq deq P C c l c'"
  from step have "I (Suc m) (memory c') (at_pc c') \<and> cap (memory c') = cap (memory c)
    \<and> fifo_effect zero (cap (memory c)) l (E (memory c) (at_pc c)) (E (memory c') (at_pc c'))"
  proof cases
    case (go_run j pc q)
    then show ?thesis using run [OF i m go_run(2,3)] by simp
  qed (use i enq_I enq_E deq_I deq_E in simp_all)
  then show "I (Suc m) (memory c') (at_pc c')" and "cap (memory c') = cap (memory c)"
    and "fifo_effect zero (cap (memory c)) l (E (memory c) (at_pc c)) (E (memory c') (at_pc c'))"
    by blast+
qed

end
