(* ===== verification/Seq_Mpsc.thy ===== *)
theory Seq_Mpsc
  imports Seq_Concurrent Goroutines
begin

text \<open>
  Goroutines interleaved on \<open>MPSCSeq[T]\<close> (\<open>mpsc_seq.go\<close>): any number of producers and the single
  consumer, goroutine 0. The consumer publishes the head after it has emptied its slot. Read with
  the head moved on as soon as the consumer has found its slot full, each step is a step of \<open>MPMCSeq\<close>
  or changes nothing there, which carries the invariant over.
\<close>

section \<open>Atomic steps\<close>

datatype 'a mpscs_pc = BIdle
  | BETail 'a | BEHead 'a u64 | BESlot 'a u64 | BECas 'a u64 | BEData 'a u64 | BESeq 'a u64
  | BDHead | BDSlot u64 | BDData u64 | BDClear u64 'a | BDSeq u64 'a | BDPublish u64 'a

fun MPSCSeq_step :: "atomix \<Rightarrow> 'a \<Rightarrow> 'a mpscs_pc \<Rightarrow> 'a MPSCSeq
    \<Rightarrow> ('a seq_label option \<times> 'a mpscs_pc \<times> 'a MPSCSeq) go" where
  "MPSCSeq_step A zero BIdle q = ret (None, BIdle, q)"
| "MPSCSeq_step A zero (BETail elem) q = ret (None, BEHead elem (tail q), q)"
| "MPSCSeq_step A zero (BEHead elem t) q =
     (if t \<ge> head q + capacity q then ret (Some EnqueueRefused, BIdle, q) else ret (None, BESlot elem t, q))"
| "MPSCSeq_step A zero (BESlot elem t) q =
     (let i = unat (t AND mask_q q)
      in if \<not> i < length (buffer q) then panics IndexOutOfRange
         else let s = seq (buffer q ! i)
           in if s = t then ret (None, BECas elem t, q)
              else if s < t then ret (Some EnqueueRefused, BIdle, q)
              else ret (None, BETail elem, q))"
| "MPSCSeq_step A zero (BECas elem t) q =
     (case CompareAndSwap64 A (tail q) t (t + 1) of (swapped, cell) \<Rightarrow>
        let q = q\<lparr>tail := cell\<rparr>
        in if swapped then ret (Some (Accepted elem), BEData elem t, q) else ret (None, BETail elem, q))"
| "MPSCSeq_step A zero (BEData elem t) q =
     (let i = unat (t AND mask_q q)
      in if \<not> i < length (buffer q) then panics IndexOutOfRange
         else ret (None, BESeq elem t, q\<lparr>buffer := (buffer q)[i := (buffer q ! i)\<lparr>data := elem\<rparr>]\<rparr>))"
| "MPSCSeq_step A zero (BESeq elem t) q =
     (let i = unat (t AND mask_q q)
      in if \<not> i < length (buffer q) then panics IndexOutOfRange
         else ret (None, BIdle, q\<lparr>buffer := (buffer q)[i := (buffer q ! i)\<lparr>seq := t + 1\<rparr>]\<rparr>))"
| "MPSCSeq_step A zero BDHead q = ret (None, BDSlot (head q), q)"
| "MPSCSeq_step A zero (BDSlot h) q =
     (let i = unat (h AND mask_q q)
      in if \<not> i < length (buffer q) then panics IndexOutOfRange
         else let s = seq (buffer q ! i)
           in if s \<noteq> h + 1 then ret (Some DequeueRefused, BIdle, q) else ret (None, BDData h, q))"
| "MPSCSeq_step A zero (BDData h) q =
     (let i = unat (h AND mask_q q)
      in if \<not> i < length (buffer q) then panics IndexOutOfRange
         else ret (None, BDClear h (data (buffer q ! i)), q))"
| "MPSCSeq_step A zero (BDClear h elem) q =
     (let i = unat (h AND mask_q q)
      in if \<not> i < length (buffer q) then panics IndexOutOfRange
         else ret (None, BDSeq h elem, q\<lparr>buffer := (buffer q)[i := (buffer q ! i)\<lparr>data := zero\<rparr>]\<rparr>))"
| "MPSCSeq_step A zero (BDSeq h elem) q =
     (let i = unat (h AND mask_q q)
      in if \<not> i < length (buffer q) then panics IndexOutOfRange
         else ret (Some (Delivered (unat h) elem), BDPublish h elem,
                   q\<lparr>buffer := (buffer q)[i := (buffer q ! i)\<lparr>seq := h + capacity q\<rparr>]\<rparr>))"
| "MPSCSeq_step A zero (BDPublish h elem) q = ret (None, BIdle, q\<lparr>head := h + 1\<rparr>)"

abbreviation mpscs_step where
  "mpscs_step A zero \<equiv> go_step (MPSCSeq_step A zero) BIdle BETail BDHead (\<lambda>_. True) (\<lambda>i. i = 0)"

section \<open>As configurations of \<open>MPMCSeq\<close>\<close>

fun mpscs_pc_abs :: "'a mpscs_pc \<Rightarrow> 'a seq_pc" where
  "mpscs_pc_abs BIdle = Idle"
| "mpscs_pc_abs (BETail x) = ETail x"
| "mpscs_pc_abs (BEHead x t) = ESlot x t"
| "mpscs_pc_abs (BESlot x t) = ESlot x t"
| "mpscs_pc_abs (BECas x t) = ECas x t"
| "mpscs_pc_abs (BEData x t) = EData x t"
| "mpscs_pc_abs (BESeq x t) = ESeq x t"
| "mpscs_pc_abs BDHead = DHead"
| "mpscs_pc_abs (BDSlot h) = DSlot h"
| "mpscs_pc_abs (BDData h) = DData h"
| "mpscs_pc_abs (BDClear h x) = DClear h x"
| "mpscs_pc_abs (BDSeq h x) = DSeq h x"
| "mpscs_pc_abs (BDPublish h x) = Idle"

fun mpscs_late :: "'a mpscs_pc \<Rightarrow> bool" where
  "mpscs_late (BDData h) \<longleftrightarrow> True"
| "mpscs_late (BDClear h x) \<longleftrightarrow> True"
| "mpscs_late (BDSeq h x) \<longleftrightarrow> True"
| "mpscs_late (BDPublish h x) \<longleftrightarrow> True"
| "mpscs_late _ \<longleftrightarrow> False"

fun mpscs_consuming :: "'a mpscs_pc \<Rightarrow> bool" where
  "mpscs_consuming BDHead \<longleftrightarrow> True"
| "mpscs_consuming (BDSlot h) \<longleftrightarrow> True"
| "mpscs_consuming pc \<longleftrightarrow> mpscs_late pc"

definition mpscs_head :: "'a MPSCSeq \<Rightarrow> 'a mpscs_pc \<Rightarrow> u64" where
  "mpscs_head q pc = (if mpscs_late pc then head q + 1 else head q)"

definition mpscs_abs :: "('a MPSCSeq, 'a mpscs_pc) goroutines \<Rightarrow> 'a seq_conf" where
  "mpscs_abs c = \<lparr>shared = (memory c)\<lparr>head := mpscs_head (memory c) (at_pc c 0)\<rparr>, pcs = \<lambda>i. mpscs_pc_abs (at_pc c i)\<rparr>"

lemma mpscs_abs_simps [simp]:
  "shared (mpscs_abs c) = (memory c)\<lparr>head := mpscs_head (memory c) (at_pc c 0)\<rparr>"
  "pcs (mpscs_abs c) i = mpscs_pc_abs (at_pc c i)"
  by (simp_all add: mpscs_abs_def)

lemma mpscs_abs_upd:
  "mpscs_abs (c\<lparr>memory := q, at_pc := (at_pc c)(i := pc)\<rparr>)
    = (mpscs_abs c)\<lparr>shared := q\<lparr>head := mpscs_head q (if i = 0 then pc else at_pc c 0)\<rparr>,
        pcs := (pcs (mpscs_abs c))(i := mpscs_pc_abs pc)\<rparr>"
  by (auto simp: mpscs_abs_def)

lemma mpscs_abs_local:
  "mpscs_head (memory c) (if i = 0 then pc else at_pc c 0) = mpscs_head (memory c) (at_pc c 0) \<Longrightarrow>
   mpscs_abs (c\<lparr>at_pc := (at_pc c)(i := pc)\<rparr>) = (mpscs_abs c)\<lparr>pcs := (pcs (mpscs_abs c))(i := mpscs_pc_abs pc)\<rparr>"
  by (auto simp: mpscs_abs_def)

lemma mpscs_late_consuming: "mpscs_late pc \<Longrightarrow> mpscs_consuming pc"
  by (cases pc) simp_all

section \<open>Invariant\<close>

fun mpscs_cons :: "'a MPSCSeq \<Rightarrow> 'a mpscs_pc \<Rightarrow> bool" where
  "mpscs_cons q (BDSlot h) \<longleftrightarrow> h = head q"
| "mpscs_cons q (BDData h) \<longleftrightarrow> h = head q"
| "mpscs_cons q (BDClear h x) \<longleftrightarrow> h = head q"
| "mpscs_cons q (BDSeq h x) \<longleftrightarrow> h = head q"
| "mpscs_cons q (BDPublish h x) \<longleftrightarrow> h = head q"
| "mpscs_cons q _ \<longleftrightarrow> True"

text \<open>A producer past the test of the head has room.\<close>

fun mpscs_room :: "'a MPSCSeq \<Rightarrow> 'a mpscs_pc \<Rightarrow> bool" where
  "mpscs_room q (BESlot x t) \<longleftrightarrow> unat t < unat (head q) + length (buffer q)"
| "mpscs_room q (BECas x t) \<longleftrightarrow> unat t < unat (head q) + length (buffer q)"
| "mpscs_room q _ \<longleftrightarrow> True"

fun mpscs_taken :: "'a mpscs_pc \<Rightarrow> nat" where
  "mpscs_taken (BDPublish h x) = 1"
| "mpscs_taken _ = 0"

definition mpscs_inv :: "nat \<Rightarrow> 'a seq_label list \<Rightarrow> ('a MPSCSeq, 'a mpscs_pc) goroutines \<Rightarrow> bool" where
  "mpscs_inv m ls c \<longleftrightarrow> seq_cinv m ls (mpscs_abs c)
     \<and> (\<forall>i. mpscs_consuming (at_pc c i) \<longrightarrow> i = 0) \<and> (\<forall>i. mpscs_room (memory c) (at_pc c i))
     \<and> mpscs_cons (memory c) (at_pc c 0)
     \<and> unat (mpscs_head (memory c) (at_pc c 0)) = unat (head (memory c)) + (if mpscs_late (at_pc c 0) then 1 else 0)
     \<and> unat (tail (memory c)) \<le> unat (head (memory c)) + length (buffer (memory c))
     \<and> map fst (delivs ls) = [0..<unat (head (memory c)) + mpscs_taken (at_pc c 0)]"

lemma mpscs_invD:
  assumes "mpscs_inv m ls c"
  shows "seq_cinv m ls (mpscs_abs c)" and "mpscs_consuming (at_pc c i) \<Longrightarrow> i = 0" and "mpscs_room (memory c) (at_pc c i)"
    and "mpscs_cons (memory c) (at_pc c 0)"
    and "unat (mpscs_head (memory c) (at_pc c 0)) = unat (head (memory c)) + (if mpscs_late (at_pc c 0) then 1 else 0)"
    and "unat (tail (memory c)) \<le> unat (head (memory c)) + length (buffer (memory c))"
    and "map fst (delivs ls) = [0..<unat (head (memory c)) + mpscs_taken (at_pc c 0)]"
  using assms by (auto simp: mpscs_inv_def)

text \<open>What \<open>MPMCSeq\<close>'s invariant says of the counters.\<close>

lemma mpscs_shape:
  assumes "mpscs_inv m ls c" and "m < seq_bound"
  shows "unat (p AND mask_q (memory c)) = unat p mod length (buffer (memory c))"
    and "unat p mod length (buffer (memory c)) < length (buffer (memory c))"
    and "unat (tail (memory c)) \<le> m" and "unat (head (memory c) + 1) = Suc (unat (head (memory c)))"
    and "unat (head (memory c) + capacity (memory c)) = unat (head (memory c)) + length (buffer (memory c))"
    and "unat (tail (memory c) + 1) = Suc (unat (tail (memory c)))" and "length (accs ls) = unat (tail (memory c))"
proof -
  note I = mpscs_invD [OF assms(1)] and S = seq_cshapeD [OF seq_cinvD(1) [OF mpscs_invD(1) [OF assms(1)]] assms(2), simplified]
  show "unat (p AND mask_q (memory c)) = unat p mod length (buffer (memory c))"
    "unat p mod length (buffer (memory c)) < length (buffer (memory c))"
    "unat (tail (memory c) + 1) = Suc (unat (tail (memory c)))" "length (accs ls) = unat (tail (memory c))"
    by (rule S)+
  show "unat (tail (memory c)) \<le> m" using seq_cinvD(1) [OF I(1)] by (simp add: seq_cshape_def)
  have h: "unat (head (memory c)) < 2 ^ 62" using I(5) S(8,10) by (auto split: if_splits)
  then show "unat (head (memory c) + 1) = Suc (unat (head (memory c)))" by (simp add: unat_Suc_no_wrap)
  show "unat (head (memory c) + capacity (memory c)) = unat (head (memory c)) + length (buffer (memory c))"
    using h S(2,3) by (subst unat_add_no_wrap) auto
qed

lemma seq_cinv_shrink: "seq_cinv m ls c \<Longrightarrow> unat (tail (shared c)) \<le> m' \<Longrightarrow> seq_cinv m' ls c"
  by (auto simp: seq_cinv_def seq_cshape_def)

lemma mpscs_producer:
  "\<not> mpscs_consuming pc \<Longrightarrow> mpscs_cons q pc \<and> \<not> mpscs_late pc \<and> mpscs_taken pc = 0"
  by (cases pc) simp_all

section \<open>Preservation\<close>

context atomix_sem
begin

lemma mpscs_enq_inv:
  assumes I: "mpscs_inv m ls c" and m: "m < seq_bound" and pc: "\<not> mpscs_consuming (at_pc c i)" "at_pc c i \<noteq> BIdle"
    and st: "MPSCSeq_step A zero (at_pc c i) (memory c) = ret (l, pc', q')"
  shows "seq_cinv (Suc m) (append_label ls l) (mpscs_abs (c\<lparr>memory := q', at_pc := (at_pc c)(i := pc')\<rparr>))" (is ?goal)
    and "head q' = head (memory c)" and "\<not> mpscs_consuming pc'"
proof -
  let ?q = "memory c" and ?H = "mpscs_head (memory c) (at_pc c 0)"
  note J = mpscs_invD [OF I] and S = mpscs_shape [OF I m] and K = seq_cinvD(2) [OF mpscs_invD(1) [OF I], of i, simplified]
  show hd: "head q' = head ?q" and con: "\<not> mpscs_consuming pc'"
    using st pc by (cases "at_pc c i"; auto simp: Let_def split: if_splits prod.splits)+
  have H: "mpscs_head q' (if i = 0 then pc' else at_pc c 0) = ?H"
    using hd con pc mpscs_late_consuming by (auto simp: mpscs_head_def)
  have loc: ?goal if "q' = ?q" "pc_ok (accs ls) (?q\<lparr>head := ?H\<rparr>) (mpscs_pc_abs pc')"
      "enq_pos (mpscs_pc_abs pc') = enq_pos (mpscs_pc_abs (at_pc c i))" "deq_pos (mpscs_pc_abs pc') = deq_pos (mpscs_pc_abs (at_pc c i))"
      "accs (append_label ls l) = accs ls" "delivs (append_label ls l) = delivs ls"
    using seq_cinv_local [OF J(1), of "mpscs_pc_abs pc'" i "append_label ls l"] that H by (simp add: mpscs_abs_local)
  have sim: ?goal if "MPMCSeq_step A zero (mpscs_pc_abs (at_pc c i)) (?q\<lparr>head := ?H\<rparr>) = ret (l, mpscs_pc_abs pc', q'\<lparr>head := ?H\<rparr>)"
      "enqueuing (mpscs_pc_abs (at_pc c i))"
    using seq_enqueue_inv [OF J(1) m, of i zero l] that H by (simp add: mpscs_abs_upd)
  show ?goal
  proof (cases "at_pc c i")
    case (BETail x)
    with st show ?thesis by (intro loc) auto
  next
    case (BEHead x t)
    with st K show ?thesis by (intro loc) (auto split: if_splits)
  next
    case (BESlot x t)
    have "seq (buffer ?q ! (unat t mod length (buffer ?q))) = t \<Longrightarrow> seq_at (?q\<lparr>head := ?H\<rparr>) (unat t) = unat t"
      by (simp add: seq_at_def)
    with BESlot st K S(1,2) show ?thesis by (intro loc) (auto simp: Let_def split: if_splits)
  next
    case (BECas x t)
    with st show ?thesis by (intro sim) (auto simp: Let_def split: prod.splits if_splits)
  next
    case (BEData x t)
    with st show ?thesis by (intro sim) (auto simp: Let_def split: if_splits)
  next
    case (BESeq x t)
    with st show ?thesis by (intro sim) (auto simp: Let_def split: if_splits)
  qed (use pc in simp_all)
qed

lemma mpscs_deq_inv:
  assumes I: "mpscs_inv m ls c" and m: "m < seq_bound" and pc: "mpscs_consuming (at_pc c 0)"
    and st: "MPSCSeq_step A zero (at_pc c 0) (memory c) = ret (l, pc', q')"
  shows "seq_cinv (Suc m) (append_label ls l) (mpscs_abs (c\<lparr>memory := q', at_pc := (at_pc c)(0 := pc')\<rparr>))" (is ?goal)
proof -
  let ?q = "memory c" and ?H = "mpscs_head (memory c) (at_pc c 0)"
  note J = mpscs_invD [OF I] and S = mpscs_shape [OF I m] and K = seq_cinvD(2) [OF mpscs_invD(1) [OF I], of 0, simplified]
  have loc: ?goal if "q' = ?q" "mpscs_head ?q pc' = ?H" "pc_ok (accs ls) (?q\<lparr>head := ?H\<rparr>) (mpscs_pc_abs pc')"
      "enq_pos (mpscs_pc_abs pc') = enq_pos (mpscs_pc_abs (at_pc c 0))" "deq_pos (mpscs_pc_abs pc') = deq_pos (mpscs_pc_abs (at_pc c 0))"
      "accs (append_label ls l) = accs ls" "delivs (append_label ls l) = delivs ls"
    using seq_cinv_local [OF J(1), of "mpscs_pc_abs pc'" 0 "append_label ls l"] that by (simp add: mpscs_abs_local)
  have sim: ?goal if "MPMCSeq_step A zero (mpscs_pc_abs (at_pc c 0)) (?q\<lparr>head := ?H\<rparr>) = ret (l, mpscs_pc_abs pc', q'\<lparr>head := ?H\<rparr>)"
      "mpscs_head q' pc' = ?H" "\<not> enqueuing (mpscs_pc_abs (at_pc c 0))" "mpscs_pc_abs (at_pc c 0) \<noteq> Idle"
    using seq_dequeue_inv [OF J(1) m, of 0 zero l] that by (simp add: mpscs_abs_upd)
  show ?goal
  proof (cases "at_pc c 0")
    case BDHead
    with st show ?thesis by (intro loc) (auto simp: mpscs_head_def)
  next
    case (BDSlot h)
    with J(4) have h: "h = head ?q" "?H = head ?q" by (simp_all add: mpscs_head_def)
    show ?thesis
    proof (cases "seq (buffer ?q ! (unat h mod length (buffer ?q))) = h + 1")
      case True
      then have at: "seq_at ?q (unat h) = Suc (unat h)" using h S(4) by (simp add: seq_at_def)
      let ?c = "(mpscs_abs c)\<lparr>pcs := (pcs (mpscs_abs c))(0 := DCas h)\<rparr>"
      have "seq_cinv (Suc m) ls ?c" using BDSlot at h by (intro seq_cinv_local [OF J(1)]) auto
      from seq_cinv_shrink [OF this, of m] S(3) have c: "seq_cinv m ls ?c" by simp
      from True BDSlot st S(1,2) have r: "l = None" "pc' = BDData h" "q' = ?q" by (auto simp: Let_def)
      have "seq_cinv (Suc m) ls (?c\<lparr>shared := (shared ?c)\<lparr>head := h + 1\<rparr>, pcs := (pcs ?c)(0 := DData h)\<rparr>)"
        by (rule seq_inv_DCas [OF c m, of 0]) (use h in simp_all)
      then show ?thesis using h by (simp add: r mpscs_abs_def mpscs_head_def) (simp add: fun_upd_def if_distrib cong: if_cong)
    next
      case False
      with BDSlot st S(1,2) show ?thesis by (intro loc) (auto simp: mpscs_head_def Let_def)
    qed
  next
    case (BDData h)
    with st show ?thesis by (intro sim) (auto simp: mpscs_head_def Let_def split: if_splits)
  next
    case (BDClear h x)
    with st show ?thesis by (intro sim) (auto simp: mpscs_head_def Let_def split: if_splits)
  next
    case (BDSeq h x)
    with st show ?thesis by (intro sim) (auto simp: mpscs_head_def Let_def split: if_splits)
  next
    case (BDPublish h x)
    with J(4) st have r: "h = head ?q" "l = None" "pc' = BIdle" "q' = ?q\<lparr>head := h + 1\<rparr>" by simp_all
    have "mpscs_abs (c\<lparr>memory := q', at_pc := (at_pc c)(0 := pc')\<rparr>) = mpscs_abs c"
      using BDPublish r by (auto simp: mpscs_abs_def mpscs_head_def)
    with seq_cinv_shrink [OF J(1), of "Suc m"] S(3) r(2) show ?thesis by simp
  qed (use pc in simp_all)
qed

text \<open>The indices and the order of the deliveries.\<close>

lemma mpscs_run_inv:
  assumes I: "mpscs_inv m ls c" and m: "m < seq_bound" and pc: "at_pc c i \<noteq> BIdle"
    and st: "MPSCSeq_step A zero (at_pc c i) (memory c) = ret (l, pc', q')"
  shows "mpscs_inv (Suc m) (append_label ls l) (c\<lparr>memory := q', at_pc := (at_pc c)(i := pc')\<rparr>)"
proof (cases "mpscs_consuming (at_pc c i)")
  case True
  note J = mpscs_invD [OF I] and S = mpscs_shape [OF I m]
  from J(2) [OF True] have i: "i = 0" .
  have C: "mpscs_consuming (at_pc c 0)" "MPSCSeq_step A zero (at_pc c 0) (memory c) = ret (l, pc', q')" using True st i by simp_all
  have len: "length (buffer q') = length (buffer (memory c))" "unat (head (memory c)) \<le> unat (head q')" "tail q' = tail (memory c)"
    using C J(4) S(4) by (cases "at_pc c 0"; auto simp: Let_def split: if_splits)+
  have "mpscs_room q' (at_pc c j)" for j using J(3) [of j] len by (cases "at_pc c j") auto
  moreover have "mpscs_room q' pc'" "mpscs_cons q' pc'"
    "unat (mpscs_head q' pc') = unat (head q') + (if mpscs_late pc' then 1 else 0)"
    "map fst (delivs (append_label ls l)) = [0..<unat (head q') + mpscs_taken pc']"
    using C J(4,5,7) S(4) by (cases "at_pc c 0"; auto simp: mpscs_head_def Let_def split: if_splits)+
  ultimately show ?thesis
    using mpscs_deq_inv [OF I m C] J(2) J(6) len i by (auto simp: mpscs_inv_def)
next
  case False
  note J = mpscs_invD [OF I] and S = mpscs_shape [OF I m] and E = mpscs_enq_inv [OF I m False pc st]
  have len: "length (buffer q') = length (buffer (memory c))"
    using st by (cases "at_pc c i") (auto simp: Let_def split: if_splits prod.splits)
  have "mpscs_room q' (at_pc c j)" for j using J(3) [of j] len E(2) by (cases "at_pc c j") auto
  moreover have "mpscs_room q' pc'"
    using st False S(5) J(3) [of i] by (cases "at_pc c i") (auto simp: word_le_nat_alt Let_def split: if_splits prod.splits)
  moreover have "mpscs_cons q' pc'" "\<not> mpscs_late pc'" "mpscs_taken pc' = 0" "\<not> mpscs_late (at_pc c i)" "mpscs_taken (at_pc c i) = 0"
    using mpscs_producer [OF E(3)] mpscs_producer [OF False] by simp_all
  moreover have "mpscs_cons q' (at_pc c 0)" using J(4) E(2) by (cases "at_pc c 0") auto
  moreover have "unat (tail q') \<le> unat (head q') + length (buffer q')"
  proof -
    have "tail q' = tail (memory c) \<or> (\<exists>x. at_pc c i = BECas x (tail (memory c)) \<and> tail q' = tail (memory c) + 1)"
      using st False by (cases "at_pc c i") (auto simp: cas64 Let_def split: if_splits)
    then show ?thesis using J(3) [of i] J(6) S(6) unfolding len E(2) by (elim disjE exE conjE) simp_all
  qed
  moreover have "delivs (append_label ls l) = delivs ls"
    using st False by (cases "at_pc c i") (auto simp: Let_def split: if_splits prod.splits)
  ultimately show ?thesis using E J(2,5,7) by (auto simp: mpscs_inv_def mpscs_head_def)
qed

lemma mpscs_step_inv:
  assumes I: "mpscs_inv m ls c" and m: "m < seq_bound" and step: "mpscs_step A zero c l c'"
  shows "mpscs_inv (Suc m) (append_label ls l) c'"
  using step
proof cases
  case (go_run i pc q)
  with mpscs_run_inv [OF I m go_run(2,3)] show ?thesis by simp
next
  case (go_call_Enqueue i x)
  note J = mpscs_invD [OF I]
  have "seq_cinv (Suc m) ls ((mpscs_abs c)\<lparr>pcs := (pcs (mpscs_abs c))(i := ETail x)\<rparr>)"
    by (rule seq_cinv_local [OF J(1)]) (use go_call_Enqueue in simp_all)
  moreover have "mpscs_abs c' = (mpscs_abs c)\<lparr>pcs := (pcs (mpscs_abs c))(i := ETail x)\<rparr>"
    using go_call_Enqueue mpscs_abs_local [of c i "BETail x"] by (cases "i = 0") (simp_all add: mpscs_head_def)
  ultimately show ?thesis using go_call_Enqueue J by (auto simp: mpscs_inv_def mpscs_head_def)
next
  case (go_call_Dequeue i)
  note J = mpscs_invD [OF I]
  have "seq_cinv (Suc m) ls ((mpscs_abs c)\<lparr>pcs := (pcs (mpscs_abs c))(i := DHead)\<rparr>)"
    by (rule seq_cinv_local [OF J(1)]) (use go_call_Dequeue in simp_all)
  moreover have "mpscs_abs c' = (mpscs_abs c)\<lparr>pcs := (pcs (mpscs_abs c))(i := DHead)\<rparr>"
    using go_call_Dequeue mpscs_abs_local [of c i BDHead] by (simp add: mpscs_head_def)
  ultimately show ?thesis using go_call_Dequeue J by (auto simp: mpscs_inv_def mpscs_head_def)
qed

lemma mpscs_exec_inv:
  assumes "exec (mpscs_step A zero) c0 m ls c" and "mpscs_inv 0 [] c0" and "m \<le> seq_bound"
  shows "mpscs_inv m ls c"
  by (rule exec_trace_invariant [where P = mpscs_inv, OF assms]) (rule mpscs_step_inv)

lemma mpscs_exec_length:
  assumes "exec (mpscs_step A zero) c0 m ls c"
  shows "length (buffer (memory c)) = length (buffer (memory c0))"
proof (rule exec_invariant [OF assms _ order_refl, where P = "\<lambda>_ c. length (buffer (memory c)) = length (buffer (memory c0))"])
  show "length (buffer (memory d')) = length (buffer (memory c0))"
    if "length (buffer (memory d)) = length (buffer (memory c0))" "mpscs_step A zero d l d'" for d l d'
    using that(2)
  proof cases
    case (go_run i pc q)
    with that(1) show ?thesis by (cases "at_pc d i") (auto simp: Let_def split: if_splits prod.splits)
  qed (use that(1) in simp_all)
qed simp_all

end

section \<open>Results\<close>

lemma mpscs_results:
  assumes "mpscs_inv m ls c" and "m \<le> seq_bound"
  shows "map snd (delivs ls) = take (length (delivs ls)) (accs ls)"
    and "length (delivs ls) = unat (head (memory c)) + mpscs_taken (at_pc c 0)"
    and "length (accs ls) = unat (tail (memory c))"
    and "(\<And>i. at_pc c i = BIdle) \<Longrightarrow> seqq_elems (memory c) = drop (length (delivs ls)) (accs ls)"
proof -
  note J = mpscs_invD [OF assms(1)] and D = seq_cinv_delivered [OF mpscs_invD(1) [OF assms(1)] assms(2)]
  have "length (map fst (delivs ls)) = unat (head (memory c)) + mpscs_taken (at_pc c 0)" unfolding J(7) by simp
  then show len: "length (delivs ls) = unat (head (memory c)) + mpscs_taken (at_pc c 0)" by simp
  show "length (accs ls) = unat (tail (memory c))" using seq_cinvD(1) [OF J(1)] by (simp add: seq_cshape_def)
  have nth: "fst (delivs ls ! j) = j \<and> j < length (accs ls) \<and> snd (delivs ls ! j) = accs ls ! j" if j: "j < length (delivs ls)" for j
  proof -
    have "map fst (delivs ls) ! j = j" unfolding J(7) using j len by simp
    moreover have "(fst (delivs ls ! j), snd (delivs ls ! j)) \<in> set (delivs ls)" using j by simp
    ultimately show ?thesis using D(2) [of j] j by auto
  qed
  have "length (delivs ls) \<le> length (accs ls)"
    using nth [of "length (delivs ls) - 1"] by (cases "length (delivs ls)") auto
  then show "map snd (delivs ls) = take (length (delivs ls)) (accs ls)" by (intro nth_equalityI) (use nth in auto)
  show "seqq_elems (memory c) = drop (length (delivs ls)) (accs ls)" if idle: "\<And>i. at_pc c i = BIdle"
    using D(5) len by (simp add: idle mpscs_head_def)
qed

lemma mpscs_init:
  assumes "NewMPMCSeq zero c = ret q" and "2 \<le> sint c" and "sint c \<le> 2 ^ 62"
  shows "mpscs_inv 0 [] (go_init q BIdle)"
proof -
  have "mpscs_abs (go_init q BIdle) = seq_init q" by (simp add: mpscs_abs_def go_init_def mpscs_head_def seq_init_def)
  moreover from assms(1,2) have "head q = 0" "tail q = 0" by (auto simp: NewMPMCSeq_def Let_def go_simps)
  ultimately show ?thesis
    using seq_init_cinv(1) [OF assms] by (simp add: mpscs_inv_def) (simp add: go_init_def mpscs_head_def)
qed

text \<open>
  \<open>Enqueue\<close> is refused only while the indices are a lap apart: the sequence number of a slot that
  the head has released is never behind. \<open>Dequeue\<close> is refused only while the queue is empty or the
  producer of the next value is still at work.
\<close>

lemma mpscs_enqueue_refused:
  assumes I: "mpscs_inv m ls c" and m: "m < seq_bound"
    and st: "MPSCSeq_step A zero (at_pc c i) (memory c) = ret (Some EnqueueRefused, pc', q')"
  shows "unat (tail (memory c)) = unat (head (memory c)) + length (buffer (memory c))"
proof -
  let ?q = "memory c" and ?n = "length (buffer (memory c))"
  note J = mpscs_invD [OF I] and S = mpscs_shape [OF I m] and K = seq_cinvD [OF mpscs_invD(1) [OF I], simplified]
  have sl: "seq_at (?q\<lparr>head := h\<rparr>) p = seq_at ?q p" for h p by (simp add: seq_at_def)
  have "\<exists>x t. at_pc c i = BEHead x t \<and> head ?q + capacity ?q \<le> t
      \<or> at_pc c i = BESlot x t \<and> seq (buffer ?q ! (unat t mod ?n)) < t"
    using st S(1,2) by (cases "at_pc c i") (auto simp: Let_def split: if_splits prod.splits)
  then consider (full) x t where "at_pc c i = BEHead x t" "head ?q + capacity ?q \<le> t"
    | (behind) x t where "at_pc c i = BESlot x t" "seq (buffer ?q ! (unat t mod ?n)) < t" by blast
  then show ?thesis
  proof cases
    case full
    with K(2) [of i] S(5) J(6) show ?thesis by (simp add: word_le_nat_alt)
  next
    case behind
    then have t: "unat t \<le> unat (tail ?q)" "unat t < unat (head ?q) + ?n" "seq_at ?q (unat t) < unat t"
      using K(2) [of i] J(3) [of i] by (simp_all add: seq_at_def word_less_nat_alt)
    let ?H = "mpscs_head ?q (at_pc c 0)"
    have no: "deq_pos (mpscs_pc_abs (at_pc c j)) \<noteq> Some (unat t - ?n)" if "?n \<le> unat t" for j
      using that t(2) J(2) [of j] J(4) by (cases "j = 0"; cases "at_pc c j") auto
    consider "unat t < unat ?H" | "unat ?H \<le> unat t" "unat t < unat (tail ?q)" | "unat t = unat (tail ?q)" using t(1) by linarith
    then show ?thesis
    proof cases
      case 1
      with seq_at_behind(1) [OF J(1) m, of "unat t"] t(3) show ?thesis by (simp add: sl)
    next
      case 2
      with K(6) [OF 2] t(3) show ?thesis by (auto simp: sl)
    next
      case 3
      then have "unat (tail ?q) \<le> unat t" "unat t < unat ?H + ?n" using t(2) J(5) by auto
      with K(7) [of "unat t"] no t(3) show ?thesis by (auto simp: sl)
    qed
  qed
qed

lemma mpscs_dequeue_refused:
  assumes I: "mpscs_inv m ls c" and m: "m < seq_bound"
    and st: "MPSCSeq_step A zero (at_pc c i) (memory c) = ret (Some DequeueRefused, pc', q')"
  shows "head (memory c) = tail (memory c)
    \<or> (\<exists>j x. at_pc c j = BEData x (head (memory c)) \<or> at_pc c j = BESeq x (head (memory c)))"
proof -
  let ?q = "memory c"
  note J = mpscs_invD [OF I] and S = mpscs_shape [OF I m] and K = seq_cinvD [OF mpscs_invD(1) [OF I], simplified]
  have sl: "seq_at (?q\<lparr>head := h\<rparr>) p = seq_at ?q p" for h p by (simp add: seq_at_def)
  from st obtain h where h: "at_pc c i = BDSlot h" "seq (buffer ?q ! (unat h mod length (buffer ?q))) \<noteq> h + 1"
    using S(1,2) by (cases "at_pc c i") (auto simp: Let_def split: if_splits prod.splits)
  with J(2) [of i] J(4) have H: "h = head ?q" "mpscs_head ?q (at_pc c 0) = head ?q" by (auto simp: mpscs_head_def)
  have "seq_at ?q (unat (head ?q)) \<noteq> Suc (unat (head ?q))"
    using h(2) S(4) unfolding H(1) seq_at_def by (metis word_unat_eq_iff)
  then have "unat (head ?q) < unat (tail ?q) \<Longrightarrow> \<exists>j. enq_pos (mpscs_pc_abs (at_pc c j)) = Some (unat (head ?q))"
    using K(6) [of "unat (head ?q)"] by (auto simp: H(2) sl)
  moreover have "\<exists>x. pc = BEData x t \<or> pc = BESeq x t" if "enq_pos (mpscs_pc_abs pc) = Some (unat t)" for pc and t :: u64
    using that by (cases pc) (auto simp: word_unat_eq_iff)
  moreover have "unat (head ?q) \<le> unat (tail ?q)" using K(1) by (simp add: seq_cshape_def H(2))
  ultimately show ?thesis by (metis le_neq_implies_less word_unat_eq_iff)
qed

section \<open>A call alone\<close>

context atomix_sem
begin

lemma MPSCSeq_steps:
  assumes i: "seqq_inv b q"
  shows "run_alone (MPSCSeq_step A zero) BIdle None (BETail x) q
      = go_bind (MPSCSeq_Enqueue A x q) (\<lambda>(e, q'). ret (Some (if e = None then Accepted x else EnqueueRefused), q'))"
    and "run_alone (MPSCSeq_step A zero) BIdle None BDHead q
      = go_bind (MPSCSeq_Dequeue zero q) (\<lambda>((v, e), q'). ret (Some (if e = None then Delivered (unat (head q)) v else DequeueRefused), q'))"
proof -
  from i obtain k where ok: "seqq_ok q" and s: "seqq_shape k q" by (auto simp: seqq_inv_def seqq_ok_def)
  have ix: "unat (p AND mask_q q) = unat p mod length (buffer q)" "unat p mod length (buffer q) < length (buffer q)" for p
    using seqq_index [OF s] s by (simp_all add: seqq_shape_def)
  show "run_alone (MPSCSeq_step A zero) BIdle None (BETail x) q
      = go_bind (MPSCSeq_Enqueue A x q) (\<lambda>(e, q'). ret (Some (if e = None then Accepted x else EnqueueRefused), q'))"
    using seqq_full_test [OF i s] seqq_tail_slot [OF ok s]
    by (subst MPSCSeq_Enqueue_eq [OF i s]) (simp add: run_alone_simps Let_def ix cas64 seqq_push_def)
  show "run_alone (MPSCSeq_step A zero) BIdle None BDHead q
      = go_bind (MPSCSeq_Dequeue zero q) (\<lambda>((v, e), q'). ret (Some (if e = None then Delivered (unat (head q)) v else DequeueRefused), q'))"
    using seqq_head_slot [OF ok s]
    by (subst MPSCSeq_Dequeue_eq [OF ok s]) (simp add: run_alone_simps Let_def ix seqq_pop_def)
qed

end

end
