(* ===== verification/Seq_Spmc.thy ===== *)
theory Seq_Spmc
  imports Seq_Mpsc
begin

text \<open>
  Goroutines interleaved on \<open>SPMCSeq[T]\<close> (\<open>spmc_seq.go\<close>): the single producer, goroutine 0, and any
  number of consumers. The producer publishes the tail after it has filled its slot. Read with the
  tail moved on as soon as the producer has found its slot free, each step is a step of \<open>MPMCSeq\<close>
  or changes nothing there.
\<close>

section \<open>Atomic steps\<close>

datatype 'a spmcs_pc = GIdle
  | GETail 'a | GESlot 'a u64 | GEData 'a u64 | GESeq 'a u64 | GEPublish 'a u64
  | GDHead | GDTail u64 | GDSlot u64 | GDCas u64 | GDData u64 | GDClear u64 'a | GDSeq u64 'a

fun SPMCSeq_step :: "atomix \<Rightarrow> 'a \<Rightarrow> 'a spmcs_pc \<Rightarrow> 'a SPMCSeq
    \<Rightarrow> ('a seq_label option \<times> 'a spmcs_pc \<times> 'a SPMCSeq) go" where
  "SPMCSeq_step A zero GIdle q = ret (None, GIdle, q)"
| "SPMCSeq_step A zero (GETail elem) q = ret (None, GESlot elem (tail q), q)"
| "SPMCSeq_step A zero (GESlot elem t) q =
     (let i = unat (t AND mask_q q)
      in if \<not> i < length (buffer q) then panics IndexOutOfRange
         else let s = seq (buffer q ! i)
           in if s \<noteq> t then ret (Some EnqueueRefused, GIdle, q) else ret (Some (Accepted elem), GEData elem t, q))"
| "SPMCSeq_step A zero (GEData elem t) q =
     (let i = unat (t AND mask_q q)
      in if \<not> i < length (buffer q) then panics IndexOutOfRange
         else ret (None, GESeq elem t, q\<lparr>buffer := (buffer q)[i := (buffer q ! i)\<lparr>data := elem\<rparr>]\<rparr>))"
| "SPMCSeq_step A zero (GESeq elem t) q =
     (let i = unat (t AND mask_q q)
      in if \<not> i < length (buffer q) then panics IndexOutOfRange
         else ret (None, GEPublish elem t, q\<lparr>buffer := (buffer q)[i := (buffer q ! i)\<lparr>seq := t + 1\<rparr>]\<rparr>))"
| "SPMCSeq_step A zero (GEPublish elem t) q = ret (None, GIdle, q\<lparr>tail := t + 1\<rparr>)"
| "SPMCSeq_step A zero GDHead q = ret (None, GDTail (head q), q)"
| "SPMCSeq_step A zero (GDTail h) q =
     (if h \<ge> tail q then ret (Some DequeueRefused, GIdle, q) else ret (None, GDSlot h, q))"
| "SPMCSeq_step A zero (GDSlot h) q =
     (let i = unat (h AND mask_q q)
      in if \<not> i < length (buffer q) then panics IndexOutOfRange
         else let s = seq (buffer q ! i)
           in if s = h + 1 then ret (None, GDCas h, q)
              else if s < h + 1 then ret (Some DequeueRefused, GIdle, q)
              else ret (None, GDHead, q))"
| "SPMCSeq_step A zero (GDCas h) q =
     (case CompareAndSwap64 A (head q) h (h + 1) of (swapped, cell) \<Rightarrow>
        let q = q\<lparr>head := cell\<rparr>
        in if swapped then ret (None, GDData h, q) else ret (None, GDHead, q))"
| "SPMCSeq_step A zero (GDData h) q =
     (let i = unat (h AND mask_q q)
      in if \<not> i < length (buffer q) then panics IndexOutOfRange
         else ret (None, GDClear h (data (buffer q ! i)), q))"
| "SPMCSeq_step A zero (GDClear h elem) q =
     (let i = unat (h AND mask_q q)
      in if \<not> i < length (buffer q) then panics IndexOutOfRange
         else ret (None, GDSeq h elem, q\<lparr>buffer := (buffer q)[i := (buffer q ! i)\<lparr>data := zero\<rparr>]\<rparr>))"
| "SPMCSeq_step A zero (GDSeq h elem) q =
     (let i = unat (h AND mask_q q)
      in if \<not> i < length (buffer q) then panics IndexOutOfRange
         else ret (Some (Delivered (unat h) elem), GIdle,
                   q\<lparr>buffer := (buffer q)[i := (buffer q ! i)\<lparr>seq := h + capacity q\<rparr>]\<rparr>))"

abbreviation spmcs_step where
  "spmcs_step A zero \<equiv> go_step (SPMCSeq_step A zero) GIdle GETail GDHead (\<lambda>i. i = 0) (\<lambda>_. True)"

section \<open>As configurations of \<open>MPMCSeq\<close>\<close>

fun spmcs_pc_abs :: "'a spmcs_pc \<Rightarrow> 'a seq_pc" where
  "spmcs_pc_abs GIdle = Idle"
| "spmcs_pc_abs (GETail x) = ETail x"
| "spmcs_pc_abs (GESlot x t) = ESlot x t"
| "spmcs_pc_abs (GEData x t) = EData x t"
| "spmcs_pc_abs (GESeq x t) = ESeq x t"
| "spmcs_pc_abs (GEPublish x t) = Idle"
| "spmcs_pc_abs GDHead = DHead"
| "spmcs_pc_abs (GDTail h) = DSlot h"
| "spmcs_pc_abs (GDSlot h) = DSlot h"
| "spmcs_pc_abs (GDCas h) = DCas h"
| "spmcs_pc_abs (GDData h) = DData h"
| "spmcs_pc_abs (GDClear h x) = DClear h x"
| "spmcs_pc_abs (GDSeq h x) = DSeq h x"

fun spmcs_late :: "'a spmcs_pc \<Rightarrow> bool" where
  "spmcs_late (GEData x t) \<longleftrightarrow> True"
| "spmcs_late (GESeq x t) \<longleftrightarrow> True"
| "spmcs_late (GEPublish x t) \<longleftrightarrow> True"
| "spmcs_late _ \<longleftrightarrow> False"

fun spmcs_producing :: "'a spmcs_pc \<Rightarrow> bool" where
  "spmcs_producing (GETail x) \<longleftrightarrow> True"
| "spmcs_producing (GESlot x t) \<longleftrightarrow> True"
| "spmcs_producing pc \<longleftrightarrow> spmcs_late pc"

definition spmcs_tail :: "'a SPMCSeq \<Rightarrow> 'a spmcs_pc \<Rightarrow> u64" where
  "spmcs_tail q pc = (if spmcs_late pc then tail q + 1 else tail q)"

definition spmcs_abs :: "('a SPMCSeq, 'a spmcs_pc) goroutines \<Rightarrow> 'a seq_conf" where
  "spmcs_abs c = \<lparr>shared = (memory c)\<lparr>tail := spmcs_tail (memory c) (at_pc c 0)\<rparr>, pcs = \<lambda>i. spmcs_pc_abs (at_pc c i)\<rparr>"

lemma spmcs_abs_simps [simp]:
  "shared (spmcs_abs c) = (memory c)\<lparr>tail := spmcs_tail (memory c) (at_pc c 0)\<rparr>"
  "pcs (spmcs_abs c) i = spmcs_pc_abs (at_pc c i)"
  by (simp_all add: spmcs_abs_def)

lemma spmcs_abs_upd:
  "spmcs_abs (c\<lparr>memory := q, at_pc := (at_pc c)(i := pc)\<rparr>)
    = (spmcs_abs c)\<lparr>shared := q\<lparr>tail := spmcs_tail q (if i = 0 then pc else at_pc c 0)\<rparr>,
        pcs := (pcs (spmcs_abs c))(i := spmcs_pc_abs pc)\<rparr>"
  by (auto simp: spmcs_abs_def)

lemma spmcs_abs_local:
  "spmcs_tail (memory c) (if i = 0 then pc else at_pc c 0) = spmcs_tail (memory c) (at_pc c 0) \<Longrightarrow>
   spmcs_abs (c\<lparr>at_pc := (at_pc c)(i := pc)\<rparr>) = (spmcs_abs c)\<lparr>pcs := (pcs (spmcs_abs c))(i := spmcs_pc_abs pc)\<rparr>"
  by (auto simp: spmcs_abs_def)

lemma spmcs_late_producing: "spmcs_late pc \<Longrightarrow> spmcs_producing pc"
  by (cases pc) simp_all

section \<open>Invariant\<close>

fun spmcs_prod :: "'a SPMCSeq \<Rightarrow> 'a spmcs_pc \<Rightarrow> bool" where
  "spmcs_prod q (GESlot x t) \<longleftrightarrow> t = tail q"
| "spmcs_prod q (GEData x t) \<longleftrightarrow> t = tail q"
| "spmcs_prod q (GESeq x t) \<longleftrightarrow> t = tail q"
| "spmcs_prod q (GEPublish x t) \<longleftrightarrow> t = tail q"
| "spmcs_prod q _ \<longleftrightarrow> True"

text \<open>A consumer past the test of the tail has a published value ahead.\<close>

fun spmcs_ahead :: "'a SPMCSeq \<Rightarrow> 'a spmcs_pc \<Rightarrow> bool" where
  "spmcs_ahead q (GDSlot h) \<longleftrightarrow> unat h < unat (tail q)"
| "spmcs_ahead q (GDCas h) \<longleftrightarrow> unat h < unat (tail q)"
| "spmcs_ahead q _ \<longleftrightarrow> True"

definition spmcs_inv :: "nat \<Rightarrow> 'a seq_label list \<Rightarrow> ('a SPMCSeq, 'a spmcs_pc) goroutines \<Rightarrow> bool" where
  "spmcs_inv m ls c \<longleftrightarrow> seq_cinv m ls (spmcs_abs c)
     \<and> (\<forall>i. spmcs_producing (at_pc c i) \<longrightarrow> i = 0) \<and> (\<forall>i. spmcs_ahead (memory c) (at_pc c i))
     \<and> spmcs_prod (memory c) (at_pc c 0)
     \<and> unat (spmcs_tail (memory c) (at_pc c 0)) = unat (tail (memory c)) + (if spmcs_late (at_pc c 0) then 1 else 0)
     \<and> unat (head (memory c)) \<le> unat (tail (memory c))"

lemma spmcs_invD:
  assumes "spmcs_inv m ls c"
  shows "seq_cinv m ls (spmcs_abs c)" and "spmcs_producing (at_pc c i) \<Longrightarrow> i = 0" and "spmcs_ahead (memory c) (at_pc c i)"
    and "spmcs_prod (memory c) (at_pc c 0)"
    and "unat (spmcs_tail (memory c) (at_pc c 0)) = unat (tail (memory c)) + (if spmcs_late (at_pc c 0) then 1 else 0)"
    and "unat (head (memory c)) \<le> unat (tail (memory c))"
  using assms by (auto simp: spmcs_inv_def)

lemma spmcs_shape:
  assumes "spmcs_inv m ls c" and "m < seq_bound"
  shows "unat (p AND mask_q (memory c)) = unat p mod length (buffer (memory c))"
    and "unat p mod length (buffer (memory c)) < length (buffer (memory c))"
    and "unat (spmcs_tail (memory c) (at_pc c 0)) \<le> m" and "unat (tail (memory c) + 1) = Suc (unat (tail (memory c)))"
    and "unat (head (memory c) + 1) = Suc (unat (head (memory c)))"
proof -
  note I = spmcs_invD [OF assms(1)] and S = seq_cshapeD [OF seq_cinvD(1) [OF spmcs_invD(1) [OF assms(1)]] assms(2), simplified]
  show "unat (p AND mask_q (memory c)) = unat p mod length (buffer (memory c))"
    "unat p mod length (buffer (memory c)) < length (buffer (memory c))"
    "unat (head (memory c) + 1) = Suc (unat (head (memory c)))"
    by (rule S)+
  show "unat (spmcs_tail (memory c) (at_pc c 0)) \<le> m" using seq_cinvD(1) [OF I(1)] by (simp add: seq_cshape_def)
  have "unat (tail (memory c)) < 2 ^ 62" using I(5) S(10) by (auto split: if_splits)
  then show "unat (tail (memory c) + 1) = Suc (unat (tail (memory c)))" by (simp add: unat_Suc_no_wrap)
qed

lemma spmcs_consumer: "\<not> spmcs_producing pc \<Longrightarrow> spmcs_prod q pc \<and> \<not> spmcs_late pc"
  by (cases pc) simp_all

section \<open>Preservation\<close>

context atomix_sem
begin

lemma spmcs_deq_inv:
  assumes I: "spmcs_inv m ls c" and m: "m < seq_bound" and pc: "\<not> spmcs_producing (at_pc c i)" "at_pc c i \<noteq> GIdle"
    and st: "SPMCSeq_step A zero (at_pc c i) (memory c) = ret (l, pc', q')"
  shows "seq_cinv (Suc m) (append_label ls l) (spmcs_abs (c\<lparr>memory := q', at_pc := (at_pc c)(i := pc')\<rparr>))" (is ?goal)
    and "tail q' = tail (memory c)" and "\<not> spmcs_producing pc'"
proof -
  let ?q = "memory c" and ?T = "spmcs_tail (memory c) (at_pc c 0)"
  note J = spmcs_invD [OF I] and S = spmcs_shape [OF I m] and K = seq_cinvD(2) [OF spmcs_invD(1) [OF I], of i, simplified]
  show tl: "tail q' = tail ?q" and con: "\<not> spmcs_producing pc'"
    using st pc by (cases "at_pc c i"; auto simp: Let_def split: if_splits prod.splits)+
  have T: "spmcs_tail q' (if i = 0 then pc' else at_pc c 0) = ?T"
    using tl con pc spmcs_late_producing by (auto simp: spmcs_tail_def)
  have loc: ?goal if "q' = ?q" "pc_ok (accs ls) (?q\<lparr>tail := ?T\<rparr>) (spmcs_pc_abs pc')"
      "enq_pos (spmcs_pc_abs pc') = enq_pos (spmcs_pc_abs (at_pc c i))" "deq_pos (spmcs_pc_abs pc') = deq_pos (spmcs_pc_abs (at_pc c i))"
      "accs (append_label ls l) = accs ls" "delivs (append_label ls l) = delivs ls"
    using seq_cinv_local [OF J(1), of "spmcs_pc_abs pc'" i "append_label ls l"] that T by (simp add: spmcs_abs_local)
  have sim: ?goal if "MPMCSeq_step A zero (spmcs_pc_abs (at_pc c i)) (?q\<lparr>tail := ?T\<rparr>) = ret (l, spmcs_pc_abs pc', q'\<lparr>tail := ?T\<rparr>)"
      "\<not> enqueuing (spmcs_pc_abs (at_pc c i))" "spmcs_pc_abs (at_pc c i) \<noteq> Idle"
    using seq_dequeue_inv [OF J(1) m, of i zero l] that T by (simp add: spmcs_abs_upd)
  show ?goal
  proof (cases "at_pc c i")
    case GDHead
    with st show ?thesis by (intro loc) auto
  next
    case (GDTail h)
    with st K show ?thesis by (intro loc) (auto split: if_splits)
  next
    case (GDSlot h)
    have "seq_at (?q\<lparr>tail := ?T\<rparr>) (unat h) = Suc (unat h)"
      if "seq (buffer ?q ! (unat h mod length (buffer ?q))) = h + 1" "h = head ?q"
      using that S(5) by (simp add: seq_at_def)
    with GDSlot st K S(1,2) show ?thesis by (intro loc) (auto simp: Let_def split: if_splits)
  next
    case (GDCas h)
    with st show ?thesis by (intro sim) (auto simp: Let_def split: prod.splits if_splits)
  next
    case (GDData h)
    with st show ?thesis by (intro sim) (auto simp: Let_def split: if_splits)
  next
    case (GDClear h x)
    with st show ?thesis by (intro sim) (auto simp: Let_def split: if_splits)
  next
    case (GDSeq h x)
    with st show ?thesis by (intro sim) (auto simp: Let_def split: if_splits)
  qed (use pc in simp_all)
qed

lemma spmcs_enq_inv:
  assumes I: "spmcs_inv m ls c" and m: "m < seq_bound" and pc: "spmcs_producing (at_pc c 0)"
    and st: "SPMCSeq_step A zero (at_pc c 0) (memory c) = ret (l, pc', q')"
  shows "seq_cinv (Suc m) (append_label ls l) (spmcs_abs (c\<lparr>memory := q', at_pc := (at_pc c)(0 := pc')\<rparr>))" (is ?goal)
proof -
  let ?q = "memory c" and ?T = "spmcs_tail (memory c) (at_pc c 0)"
  note J = spmcs_invD [OF I] and S = spmcs_shape [OF I m] and K = seq_cinvD(2) [OF spmcs_invD(1) [OF I], of 0, simplified]
  have loc: ?goal if "q' = ?q" "spmcs_tail ?q pc' = ?T" "pc_ok (accs ls) (?q\<lparr>tail := ?T\<rparr>) (spmcs_pc_abs pc')"
      "enq_pos (spmcs_pc_abs pc') = enq_pos (spmcs_pc_abs (at_pc c 0))" "deq_pos (spmcs_pc_abs pc') = deq_pos (spmcs_pc_abs (at_pc c 0))"
      "accs (append_label ls l) = accs ls" "delivs (append_label ls l) = delivs ls"
    using seq_cinv_local [OF J(1), of "spmcs_pc_abs pc'" 0 "append_label ls l"] that by (simp add: spmcs_abs_local)
  have sim: ?goal if "MPMCSeq_step A zero (spmcs_pc_abs (at_pc c 0)) (?q\<lparr>tail := ?T\<rparr>) = ret (l, spmcs_pc_abs pc', q'\<lparr>tail := ?T\<rparr>)"
      "spmcs_tail q' pc' = ?T" "enqueuing (spmcs_pc_abs (at_pc c 0))"
    using seq_enqueue_inv [OF J(1) m, of 0 zero l] that by (simp add: spmcs_abs_upd)
  show ?goal
  proof (cases "at_pc c 0")
    case (GETail x)
    with st show ?thesis by (intro loc) (auto simp: spmcs_tail_def)
  next
    case (GESlot x t)
    with J(4) have t: "t = tail ?q" "?T = tail ?q" by (simp_all add: spmcs_tail_def)
    show ?thesis
    proof (cases "seq (buffer ?q ! (unat t mod length (buffer ?q))) = t")
      case True
      then have at: "seq_at ?q (unat t) = unat t" by (simp add: seq_at_def)
      let ?c = "(spmcs_abs c)\<lparr>pcs := (pcs (spmcs_abs c))(0 := ECas x t)\<rparr>"
      have "seq_cinv (Suc m) ls ?c" using GESlot at t by (intro seq_cinv_local [OF J(1)]) auto
      from seq_cinv_shrink [OF this, of m] S(3) have c: "seq_cinv m ls ?c" by simp
      from True GESlot st S(1,2) have r: "l = Some (Accepted x)" "pc' = GEData x t" "q' = ?q" by (auto simp: Let_def)
      have "seq_cinv (Suc m) (ls @ [Accepted x]) (?c\<lparr>shared := (shared ?c)\<lparr>tail := t + 1\<rparr>, pcs := (pcs ?c)(0 := EData x t)\<rparr>)"
        by (rule seq_inv_ECas [OF c m, of 0]) (use t in simp_all)
      then show ?thesis using t by (simp add: r spmcs_abs_def spmcs_tail_def) (simp add: fun_upd_def if_distrib cong: if_cong)
    next
      case False
      with GESlot st S(1,2) show ?thesis by (intro loc) (auto simp: spmcs_tail_def Let_def)
    qed
  next
    case (GEData x t)
    with st show ?thesis by (intro sim) (auto simp: spmcs_tail_def Let_def split: if_splits)
  next
    case (GESeq x t)
    with st show ?thesis by (intro sim) (auto simp: spmcs_tail_def Let_def split: if_splits)
  next
    case (GEPublish x t)
    with J(4) st have r: "t = tail ?q" "l = None" "pc' = GIdle" "q' = ?q\<lparr>tail := t + 1\<rparr>" by simp_all
    have "spmcs_abs (c\<lparr>memory := q', at_pc := (at_pc c)(0 := pc')\<rparr>) = spmcs_abs c"
      using GEPublish r by (auto simp: spmcs_abs_def spmcs_tail_def)
    with seq_cinv_shrink [OF J(1), of "Suc m"] S(3) r(2) show ?thesis by simp
  qed (use pc in simp_all)
qed

lemma spmcs_run_inv:
  assumes I: "spmcs_inv m ls c" and m: "m < seq_bound" and pc: "at_pc c i \<noteq> GIdle"
    and st: "SPMCSeq_step A zero (at_pc c i) (memory c) = ret (l, pc', q')"
  shows "spmcs_inv (Suc m) (append_label ls l) (c\<lparr>memory := q', at_pc := (at_pc c)(i := pc')\<rparr>)"
proof (cases "spmcs_producing (at_pc c i)")
  case True
  note J = spmcs_invD [OF I] and S = spmcs_shape [OF I m]
  from J(2) [OF True] have i: "i = 0" .
  have C: "spmcs_producing (at_pc c 0)" "SPMCSeq_step A zero (at_pc c 0) (memory c) = ret (l, pc', q')" using True st i by simp_all
  have mon: "unat (tail (memory c)) \<le> unat (tail q')" "head q' = head (memory c)"
    using C J(4) S(4) by (cases "at_pc c 0"; auto simp: Let_def split: if_splits)+
  have "spmcs_ahead q' (at_pc c j)" for j using J(3) [of j] mon by (cases "at_pc c j") auto
  moreover have "spmcs_ahead q' pc'" "spmcs_prod q' pc'"
    "unat (spmcs_tail q' pc') = unat (tail q') + (if spmcs_late pc' then 1 else 0)"
    using C J(4,5) S(4) by (cases "at_pc c 0"; auto simp: spmcs_tail_def Let_def split: if_splits)+
  ultimately show ?thesis
    using spmcs_enq_inv [OF I m C] J(2) J(6) mon i by (auto simp: spmcs_inv_def)
next
  case False
  note J = spmcs_invD [OF I] and S = spmcs_shape [OF I m] and E = spmcs_deq_inv [OF I m False pc st]
  have "spmcs_ahead q' (at_pc c j)" for j using J(3) [of j] E(2) by (cases "at_pc c j") auto
  moreover have "spmcs_ahead q' pc'"
    using st False J(3) [of i] by (cases "at_pc c i") (auto simp: word_le_nat_alt Let_def split: if_splits prod.splits)
  moreover have "spmcs_prod q' pc'" "\<not> spmcs_late pc'" "\<not> spmcs_late (at_pc c i)"
    using spmcs_consumer [OF E(3)] spmcs_consumer [OF False] by simp_all
  moreover have "spmcs_prod q' (at_pc c 0)" using J(4) E(2) by (cases "at_pc c 0") auto
  moreover have "unat (head q') \<le> unat (tail q')"
  proof -
    have "head q' = head (memory c) \<or> at_pc c i = GDCas (head (memory c)) \<and> head q' = head (memory c) + 1"
      using st False by (cases "at_pc c i") (auto simp: cas64 Let_def split: if_splits)
    then show ?thesis using J(3) [of i] J(6) S(5) unfolding E(2) by (elim disjE conjE) simp_all
  qed
  ultimately show ?thesis using E J(2,5) by (auto simp: spmcs_inv_def spmcs_tail_def)
qed

lemma spmcs_step_inv:
  assumes I: "spmcs_inv m ls c" and m: "m < seq_bound" and step: "spmcs_step A zero c l c'"
  shows "spmcs_inv (Suc m) (append_label ls l) c'"
  using step
proof cases
  case (go_run i pc q)
  with spmcs_run_inv [OF I m go_run(2,3)] show ?thesis by simp
next
  case (go_call_Enqueue i x)
  note J = spmcs_invD [OF I]
  have "seq_cinv (Suc m) ls ((spmcs_abs c)\<lparr>pcs := (pcs (spmcs_abs c))(i := ETail x)\<rparr>)"
    by (rule seq_cinv_local [OF J(1)]) (use go_call_Enqueue in simp_all)
  moreover have "spmcs_abs c' = (spmcs_abs c)\<lparr>pcs := (pcs (spmcs_abs c))(i := ETail x)\<rparr>"
    using go_call_Enqueue spmcs_abs_local [of c i "GETail x"] by (simp add: spmcs_tail_def)
  ultimately show ?thesis using go_call_Enqueue J by (auto simp: spmcs_inv_def spmcs_tail_def)
next
  case (go_call_Dequeue i)
  note J = spmcs_invD [OF I]
  have "seq_cinv (Suc m) ls ((spmcs_abs c)\<lparr>pcs := (pcs (spmcs_abs c))(i := DHead)\<rparr>)"
    by (rule seq_cinv_local [OF J(1)]) (use go_call_Dequeue in simp_all)
  moreover have "spmcs_abs c' = (spmcs_abs c)\<lparr>pcs := (pcs (spmcs_abs c))(i := DHead)\<rparr>"
    using go_call_Dequeue spmcs_abs_local [of c i GDHead] by (cases "i = 0") (simp_all add: spmcs_tail_def)
  ultimately show ?thesis using go_call_Dequeue J by (auto simp: spmcs_inv_def spmcs_tail_def)
qed

lemma spmcs_exec_inv:
  assumes "exec (spmcs_step A zero) c0 m ls c" and "spmcs_inv 0 [] c0" and "m \<le> seq_bound"
  shows "spmcs_inv m ls c"
  by (rule exec_trace_invariant [where P = spmcs_inv, OF assms]) (rule spmcs_step_inv)

lemma spmcs_exec_length:
  assumes "exec (spmcs_step A zero) c0 m ls c"
  shows "length (buffer (memory c)) = length (buffer (memory c0))"
proof (rule exec_invariant [OF assms _ order_refl, where P = "\<lambda>_ c. length (buffer (memory c)) = length (buffer (memory c0))"])
  show "length (buffer (memory d')) = length (buffer (memory c0))"
    if "length (buffer (memory d)) = length (buffer (memory c0))" "spmcs_step A zero d l d'" for d l d'
    using that(2)
  proof cases
    case (go_run i pc q)
    with that(1) show ?thesis by (cases "at_pc d i") (auto simp: Let_def split: if_splits prod.splits)
  qed (use that(1) in simp_all)
qed simp_all

end

section \<open>Results\<close>

lemma spmcs_results:
  assumes "spmcs_inv m ls c" and "m \<le> seq_bound"
  shows "distinct (map fst (delivs ls))"
    and "(p, x) \<in> set (delivs ls) \<Longrightarrow> p < length (accs ls) \<and> x = accs ls ! p"
    and "length (accs ls) \<le> unat (head (memory c)) + length (buffer (memory c))"
    and "(\<And>i. at_pc c i = GIdle) \<Longrightarrow> fst ` set (delivs ls) = {..<unat (head (memory c))}"
    and "(\<And>i. at_pc c i = GIdle) \<Longrightarrow> seqq_elems (memory c) = drop (unat (head (memory c))) (accs ls)"
proof -
  note D = seq_cinv_delivered [OF spmcs_invD(1) [OF assms(1)] assms(2), simplified]
  show "distinct (map fst (delivs ls))" by (rule D)
  show "(p, x) \<in> set (delivs ls) \<Longrightarrow> p < length (accs ls) \<and> x = accs ls ! p" by (rule D)
  show "length (accs ls) \<le> unat (head (memory c)) + length (buffer (memory c))" by (rule D)
  show "fst ` set (delivs ls) = {..<unat (head (memory c))}" "seqq_elems (memory c) = drop (unat (head (memory c))) (accs ls)"
    if "\<And>i. at_pc c i = GIdle"
    using D(4,5) by (simp_all add: that spmcs_tail_def)
qed

lemma spmcs_init:
  assumes "NewMPMCSeq zero c = ret q" and "2 \<le> sint c" and "sint c \<le> 2 ^ 62"
  shows "spmcs_inv 0 [] (go_init q GIdle)"
proof -
  have "spmcs_abs (go_init q GIdle) = seq_init q" by (simp add: spmcs_abs_def go_init_def spmcs_tail_def seq_init_def)
  moreover from assms(1,2) have "head q = 0" "tail q = 0" by (auto simp: NewMPMCSeq_def Let_def go_simps)
  ultimately show ?thesis
    using seq_init_cinv(1) [OF assms] by (simp add: spmcs_inv_def) (simp add: go_init_def spmcs_tail_def)
qed

text \<open>
  \<open>Dequeue\<close> is refused only while head and tail are equal: a published value has its sequence
  number. \<open>Enqueue\<close> is refused only while the queue is full or the consumer of the slot it needs has
  not finished.
\<close>

lemma spmcs_dequeue_refused:
  assumes I: "spmcs_inv m ls c" and m: "m < seq_bound"
    and st: "SPMCSeq_step A zero (at_pc c i) (memory c) = ret (Some DequeueRefused, pc', q')"
  shows "head (memory c) = tail (memory c)"
proof -
  let ?q = "memory c" and ?n = "length (buffer (memory c))"
  note J = spmcs_invD [OF I] and S = spmcs_shape [OF I m] and K = seq_cinvD [OF spmcs_invD(1) [OF I], simplified]
  have sl: "seq_at (?q\<lparr>tail := t\<rparr>) p = seq_at ?q p" for t p by (simp add: seq_at_def)
  have "\<exists>h. at_pc c i = GDTail h \<and> tail ?q \<le> h \<or> at_pc c i = GDSlot h \<and> seq (buffer ?q ! (unat h mod ?n)) < h + 1"
    using st S(1,2) by (cases "at_pc c i") (auto simp: Let_def split: if_splits prod.splits)
  then consider (empty) h where "at_pc c i = GDTail h" "tail ?q \<le> h"
    | (behind) h where "at_pc c i = GDSlot h" "seq (buffer ?q ! (unat h mod ?n)) < h + 1" by blast
  then show ?thesis
  proof cases
    case empty
    with K(2) [of i] J(6) show ?thesis by (simp add: word_le_nat_alt word_unat_eq_iff)
  next
    case behind
    then have h: "unat h \<le> unat (head ?q)" "unat h < unat (tail ?q)" using K(2) [of i] J(3) [of i] by simp_all
    then have "unat (h + 1) = Suc (unat h)" using J(5) S(3) m by (subst unat_Suc_no_wrap) (auto simp: seq_bound_def)
    with behind have s: "seq_at ?q (unat h) \<le> unat h" by (simp add: seq_at_def word_less_nat_alt)
    show ?thesis
    proof (cases "unat h < unat (head ?q)")
      case True
      with seq_at_behind(1) [OF J(1) m, of "unat h"] s show ?thesis by (simp add: sl)
    next
      case False
      have "enq_pos (spmcs_pc_abs (at_pc c j)) \<noteq> Some (unat h)" for j
        using h(2) J(2) [of j] J(4) by (cases "j = 0"; cases "at_pc c j") auto
      moreover have "unat h < unat (spmcs_tail ?q (at_pc c 0))" using h(2) J(5) by simp
      ultimately show ?thesis using K(6) [of "unat h"] False h(1) s by (auto simp: sl)
    qed
  qed
qed

lemma spmcs_enqueue_refused:
  assumes I: "spmcs_inv m ls c" and m: "m < seq_bound"
    and st: "SPMCSeq_step A zero (at_pc c i) (memory c) = ret (Some EnqueueRefused, pc', q')"
  shows "unat (tail (memory c)) = unat (head (memory c)) + length (buffer (memory c))
    \<or> (\<exists>j h. unat h + length (buffer (memory c)) = unat (tail (memory c))
        \<and> (at_pc c j = GDData h \<or> (\<exists>x. at_pc c j = GDClear h x \<or> at_pc c j = GDSeq h x)))"
proof -
  let ?q = "memory c" and ?n = "length (buffer (memory c))"
  note J = spmcs_invD [OF I] and S = spmcs_shape [OF I m] and K = seq_cinvD [OF spmcs_invD(1) [OF I], simplified]
  have sl: "seq_at (?q\<lparr>tail := t\<rparr>) p = seq_at ?q p" for t p by (simp add: seq_at_def)
  from st obtain x t where t: "at_pc c i = GESlot x t" "seq (buffer ?q ! (unat t mod ?n)) \<noteq> t"
    using S(1,2) by (cases "at_pc c i") (auto simp: Let_def split: if_splits prod.splits)
  with J(2) [of i] J(4) have T: "t = tail ?q" "spmcs_tail ?q (at_pc c 0) = tail ?q" by (auto simp: spmcs_tail_def)
  have ne: "seq_at ?q (unat (tail ?q)) \<noteq> unat (tail ?q)" using t(2) unfolding T(1) seq_at_def by (metis word_unat_eq_iff)
  have le: "unat (tail ?q) \<le> unat (head ?q) + ?n" using K(1) by (simp add: seq_cshape_def T(2))
  show ?thesis
  proof (cases "unat (tail ?q) < unat (head ?q) + ?n")
    case True
    with K(7) [of "unat (tail ?q)"] ne obtain j where j: "?n \<le> unat (tail ?q)"
      "deq_pos (spmcs_pc_abs (at_pc c j)) = Some (unat (tail ?q) - ?n)" by (auto simp: sl T(2))
    from j(2) have "\<exists>h. unat h = unat (tail ?q) - ?n
        \<and> (at_pc c j = GDData h \<or> (\<exists>x. at_pc c j = GDClear h x \<or> at_pc c j = GDSeq h x))" by (cases "at_pc c j") auto
    with j(1) show ?thesis by (metis le_add_diff_inverse2)
  qed (use le in simp)
qed

section \<open>A call alone\<close>

context atomix_sem
begin

lemma SPMCSeq_steps:
  assumes i: "seqq_inv b q"
  shows "run_alone (SPMCSeq_step A zero) GIdle None (GETail x) q
      = go_bind (SPMCSeq_Enqueue x q) (\<lambda>(e, q'). ret (Some (if e = None then Accepted x else EnqueueRefused), q'))"
    and "run_alone (SPMCSeq_step A zero) GIdle None GDHead q
      = go_bind (SPMCSeq_Dequeue A zero q) (\<lambda>((v, e), q'). ret (Some (if e = None then Delivered (unat (head q)) v else DequeueRefused), q'))"
proof -
  from i obtain k where ok: "seqq_ok q" and s: "seqq_shape k q" by (auto simp: seqq_inv_def seqq_ok_def)
  have ix: "unat (p AND mask_q q) = unat p mod length (buffer q)" "unat p mod length (buffer q) < length (buffer q)" for p
    using seqq_index [OF s] s by (simp_all add: seqq_shape_def)
  have k: "1 \<le> k" "k \<le> 62" using s by (auto simp: seqq_shape_def)
  have "tail q - 2 ^ k + 1 \<noteq> tail q" using full_diff [OF k, of "tail q"] by auto
  then show "run_alone (SPMCSeq_step A zero) GIdle None (GETail x) q
      = go_bind (SPMCSeq_Enqueue x q) (\<lambda>(e, q'). ret (Some (if e = None then Accepted x else EnqueueRefused), q'))"
    using seqq_tail_slot [OF ok s]
    by (subst SPMCSeq_Enqueue_eq [OF ok s]) (simp add: run_alone_simps Let_def ix seqq_push_def)
  show "run_alone (SPMCSeq_step A zero) GIdle None GDHead q
      = go_bind (SPMCSeq_Dequeue A zero q) (\<lambda>((v, e), q'). ret (Some (if e = None then Delivered (unat (head q)) v else DequeueRefused), q'))"
    using seqq_head_slot [OF ok s] seqq_empty_test [OF i]
    by (subst SPMCSeq_Dequeue_eq [OF i s]) (simp add: run_alone_simps Let_def ix cas64 seqq_pop_def)
qed

end

end
