(* ===== verification/Progress.thy ===== *)
theory Progress
  imports Goroutines
begin

text \<open>
  Lock-freedom by credits. What a goroutine may still spend depends on its program counter and on
  the shared memory. A step costs one credit, and more when it makes the others retry; a step at
  which an operation takes effect brings a price. Then the number of steps is bounded by a multiple of
  the number of operations that have taken effect, plus what the goroutines had at the start.
\<close>

text \<open>Steps of the first \<open>G\<close> goroutines.\<close>

definition among :: "('c \<Rightarrow> nat \<Rightarrow> 'pc) \<Rightarrow> nat \<Rightarrow> ('c \<Rightarrow> 'l option \<Rightarrow> 'c \<Rightarrow> bool) \<Rightarrow> 'c \<Rightarrow> 'l option \<Rightarrow> 'c \<Rightarrow> bool" where
  "among pc_of G step c l c' \<longleftrightarrow> step c l c' \<and> (\<forall>i \<ge> G. pc_of c' i = pc_of c i)"

text \<open>A schedule of their moves, and its execution.\<close>

definition among_do :: "('mv \<Rightarrow> nat) \<Rightarrow> nat \<Rightarrow> ('mv \<Rightarrow> 'c \<Rightarrow> ('l option \<times> 'c) option) \<Rightarrow> 'mv \<Rightarrow> 'c \<Rightarrow> ('l option \<times> 'c) option" where
  "among_do mover G f mv c = (if mover mv < G then f mv c else None)"

lemma among_sched:
  assumes "sched (among_do mover G f) mvs c0 = Some (ls, c)" and "length mvs = n"
    and "\<And>mv c l c'. f mv c = Some (l, c') \<Longrightarrow> step c l c'"
    and "\<And>mv c l c' i. f mv c = Some (l, c') \<Longrightarrow> i \<noteq> mover mv \<Longrightarrow> pc_of c' i = pc_of c i"
  shows "exec (among pc_of G step) c0 n ls c"
proof -
  have "among pc_of G step c l c'" if "among_do mover G f mv c = Some (l, c')" for mv c l c'
    using that assms(3,4) by (fastforce simp: among_do_def among_def split: if_splits)
  from sched_init_exec [OF assms(1) this] assms(2) show ?thesis by simp
qed

fun go_mover :: "'a go_move \<Rightarrow> nat" where
  "go_mover (StartEnqueue i x) = i"
| "go_mover (StartDequeue i) = i"
| "go_mover (Resume i) = i"

lemma go_among_sched:
  assumes "sched (among_do go_mover G (go_do stepf idle enq deq P C)) mvs c0 = Some (ls, c)" and "length mvs = n"
  shows "exec (among at_pc G (go_step stepf idle enq deq P C)) c0 n ls c"
proof (rule among_sched [OF assms])
  fix mv c l c' i assume d: "go_do stepf idle enq deq P C mv c = Some (l, c')"
  then show "go_step stepf idle enq deq P C c l c'" by (rule go_do_step)
  show "at_pc c' i = at_pc c i" if "i \<noteq> go_mover mv"
    using d that by (cases mv) (auto split: if_splits option.splits sum.splits)
qed

section \<open>Credits\<close>

locale credit_system =
  fixes step :: "'c \<Rightarrow> 'l option \<Rightarrow> 'c \<Rightarrow> bool"
    and mem_of :: "'c \<Rightarrow> 's" and pc_of :: "'c \<Rightarrow> nat \<Rightarrow> 'pc" and idle :: 'pc
    and credit :: "nat \<Rightarrow> 's \<Rightarrow> 'pc \<Rightarrow> nat" and price :: "nat \<Rightarrow> nat" and top :: "nat \<Rightarrow> nat"
    and I :: "nat \<Rightarrow> 'l list \<Rightarrow> 'c \<Rightarrow> bool" and bound :: nat
  assumes keeps: "I m ls c \<Longrightarrow> m < bound \<Longrightarrow> step c l c' \<Longrightarrow> I (Suc m) (append_label ls l) c'"
    and idle_credit: "credit G s idle = top G"
    and pays: "I m ls c \<Longrightarrow> m < bound \<Longrightarrow> 0 < G \<Longrightarrow> step c l c' \<Longrightarrow>
      \<exists>i d. (\<forall>j. j \<noteq> i \<longrightarrow> pc_of c' j = pc_of c j) \<and> (pc_of c i \<noteq> idle \<or> pc_of c' i \<noteq> idle)
        \<and> (\<forall>pc. credit G (mem_of c') pc \<le> credit G (mem_of c) pc + d)
        \<and> Suc (credit G (mem_of c') (pc_of c' i)) + (G - 1) * d
            \<le> credit G (mem_of c) (pc_of c i) + (if l = None then 0 else price G)"
begin

definition credits :: "nat \<Rightarrow> 'c \<Rightarrow> nat" where
  "credits G c = (\<Sum>i<G. credit G (mem_of c) (pc_of c i))"

lemma credits_step:
  assumes I: "I m ls c" and m: "m < bound" and step: "among pc_of G step c l c'" and out: "\<And>i. G \<le> i \<Longrightarrow> pc_of c i = idle"
  shows "Suc (credits G c') \<le> credits G c + (if l = None then 0 else price G)"
proof -
  from step have st: "step c l c'" and keep: "\<And>i. G \<le> i \<Longrightarrow> pc_of c' i = pc_of c i" by (auto simp: among_def)
  have G: "0 < G"
  proof (rule ccontr)
    assume "\<not> 0 < G"
    then have "pc_of c i = idle" "pc_of c' i = idle" for i using out [of i] keep [of i] by auto
    with pays [OF I m _ st, of 1] show False by auto
  qed
  from pays [OF I m G st] obtain i d where p: "\<And>j. j \<noteq> i \<Longrightarrow> pc_of c' j = pc_of c j" "pc_of c i \<noteq> idle \<or> pc_of c' i \<noteq> idle"
      "\<And>pc. credit G (mem_of c') pc \<le> credit G (mem_of c) pc + d"
      "Suc (credit G (mem_of c') (pc_of c' i)) + (G - 1) * d \<le> credit G (mem_of c) (pc_of c i) + (if l = None then 0 else price G)"
    by blast
  have i: "i < G" using p(2) out [of i] keep [of i] by (cases "i < G") auto
  let ?R = "{..<G} - {i}"
  have "credits G x = credit G (mem_of x) (pc_of x i) + (\<Sum>j\<in>?R. credit G (mem_of x) (pc_of x j))" for x
    using i by (simp add: credits_def sum.remove [of "{..<G}" i])
  note s = this [of c] this [of c']
  have "(\<Sum>j\<in>?R. credit G (mem_of c') (pc_of c' j)) \<le> (\<Sum>j\<in>?R. credit G (mem_of c) (pc_of c j) + d)"
    using p(1,3) by (intro sum_mono) auto
  also have "\<dots> = (\<Sum>j\<in>?R. credit G (mem_of c) (pc_of c j)) + (G - 1) * d" using i by (simp add: sum.distrib)
  finally show ?thesis using p(4) s by linarith
qed

lemma progress:
  assumes "exec (among pc_of G step) c0 m ls c" and "I 0 [] c0" and "\<And>i. pc_of c0 i = idle" and "m \<le> bound"
  shows "m \<le> price G * length ls + G * top G" and "I m ls c"
proof -
  let ?P = "\<lambda>m ls c. I m ls c \<and> (\<forall>i \<ge> G. pc_of c i = idle) \<and> m + credits G c \<le> price G * length ls + G * top G"
  have "?P m ls c"
  proof (rule exec_trace_invariant [of _ _ _ _ _ ?P, OF assms(1) _ assms(4)])
    show "?P 0 [] c0" using assms(2,3) by (simp add: credits_def idle_credit)
    fix m ls c l c' assume P: "?P m ls c" and m: "m < bound" and step: "among pc_of G step c l c'"
    have "Suc (credits G c') \<le> credits G c + (if l = None then 0 else price G)"
      by (rule credits_step [OF _ m step]) (use P in auto)
    moreover have "I (Suc m) (append_label ls l) c'" using keeps [OF _ m] P step by (auto simp: among_def)
    ultimately show "?P (Suc m) (append_label ls l) c'" using P step by (cases l) (auto simp: among_def algebra_simps)
  qed
  then show "m \<le> price G * length ls + G * top G" "I m ls c" by auto
qed

end

text \<open>
  For goroutines of a step function: a call starts with one credit less than an idle goroutine has,
  or fewer, and a step pays for itself and for the credits the others gain by its change of the memory.
\<close>

locale go_credits =
  fixes stepf :: "'pc \<Rightarrow> 's \<Rightarrow> ('l option \<times> 'pc \<times> 's) go" and idle :: 'pc and enq :: "'a \<Rightarrow> 'pc" and deq :: 'pc
    and P :: "nat \<Rightarrow> bool" and C :: "nat \<Rightarrow> bool"
    and credit :: "nat \<Rightarrow> 's \<Rightarrow> 'pc \<Rightarrow> nat" and price :: "nat \<Rightarrow> nat" and top :: "nat \<Rightarrow> nat" and gain :: "'s \<Rightarrow> 's \<Rightarrow> nat"
    and I :: "nat \<Rightarrow> 'l list \<Rightarrow> ('s, 'pc) goroutines \<Rightarrow> bool" and bound :: nat
  assumes step_I: "I m ls c \<Longrightarrow> m < bound \<Longrightarrow> go_step stepf idle enq deq P C c l c' \<Longrightarrow> I (Suc m) (append_label ls l) c'"
    and top: "credit G s idle = top G"
    and calls: "enq x \<noteq> idle" "deq \<noteq> idle" "credit G s (enq x) < top G" "0 < G \<Longrightarrow> credit G s deq < top G"
    and run_credit: "I m ls c \<Longrightarrow> m < bound \<Longrightarrow> 0 < G \<Longrightarrow> at_pc c i \<noteq> idle \<Longrightarrow> stepf (at_pc c i) (memory c) = ret (l, pc, s) \<Longrightarrow>
      (\<forall>p. credit G s p \<le> credit G (memory c) p + gain (memory c) s)
      \<and> Suc (credit G s pc) + (G - 1) * gain (memory c) s \<le> credit G (memory c) (at_pc c i) + (if l = None then 0 else price G)"

sublocale go_credits < sys: credit_system "go_step stepf idle enq deq P C" memory at_pc idle credit price top I bound
proof
  fix m ls c l c' G assume I: "I m ls c" and m: "m < bound" and G: "0 < (G :: nat)" and step: "go_step stepf idle enq deq P C c l c'"
  let ?Q = "\<lambda>i d. (\<forall>j. j \<noteq> i \<longrightarrow> at_pc c' j = at_pc c j) \<and> (at_pc c i \<noteq> idle \<or> at_pc c' i \<noteq> idle)
        \<and> (\<forall>pc. credit G (memory c') pc \<le> credit G (memory c) pc + d)
        \<and> Suc (credit G (memory c') (at_pc c' i)) + (G - 1) * d
            \<le> credit G (memory c) (at_pc c i) + (if l = None then 0 else price G)"
  show "\<exists>i d. ?Q i d" using step
  proof cases
    case (go_call_Enqueue i x)
    then have "?Q i 0" using calls(1) calls(3) [of G "memory c" x] top [of G "memory c"] by simp
    then show ?thesis by blast
  next
    case (go_call_Dequeue i)
    then have "?Q i 0" using calls(2) calls(4) [OF G, of "memory c"] top [of G "memory c"] by simp
    then show ?thesis by blast
  next
    case (go_run i pc s)
    with run_credit [OF I m G go_run(2,3)] have "?Q i (gain (memory c) s)" by simp
    then show ?thesis by blast
  qed
qed (use step_I top in simp_all)

end
