(* ===== verification/Seq_Progress.thy ===== *)
theory Seq_Progress
  imports Seq_Spmc Progress
begin

text \<open>
  The sequence-number queues are lock-free. A claim that has become stale costs its goroutine a few
  more accesses than a fresh one; the compare-and-swap that makes it stale has paid for them. A claim
  that is fresh never retries at its slot: the slot is free, or the call is refused.
\<close>

text \<open>A slot at the tail is not ahead of it, nor is one at the head.\<close>

lemma seq_at_ends:
  assumes "seq_cinv m ls c" and "m < seq_bound"
  shows "seq_at (shared c) (unat (tail (shared c))) \<le> unat (tail (shared c))"
    and "seq_at (shared c) (unat (head (shared c))) \<le> Suc (unat (head (shared c)))"
proof -
  let ?q = "shared c" and ?n = "length (buffer (shared c))"
  note I = seq_cinvD [OF assms(1)] and S = seq_cshapeD [OF seq_cinvD(1) [OF assms(1)] assms(2)]
  have n: "buffer ?q \<noteq> []" using S(1) by auto
  show "seq_at ?q (unat (head ?q)) \<le> Suc (unat (head ?q))"
    using I(6) [of "unat (head ?q)"] I(7) [of "unat (head ?q)"] S(8) n by (cases "unat (head ?q) < unat (tail ?q)") auto
  show "seq_at ?q (unat (tail ?q)) \<le> unat (tail ?q)"
  proof (cases "unat (tail ?q) < unat (head ?q) + ?n")
    case True
    with I(7) [of "unat (tail ?q)"] S(1) show ?thesis by auto
  next
    case False
    then have t: "unat (tail ?q) = unat (head ?q) + ?n" using S(9) by simp
    then have "seq_at ?q (unat (tail ?q)) = seq_at ?q (unat (head ?q))" by (intro seq_at_slot) simp
    with I(6) [of "unat (head ?q)"] t S(1) n show ?thesis by auto
  qed
qed

lemma behind_diff:
  assumes "unat (s :: u64) \<le> unat (t :: u64)" and "unat t < 2 ^ 63" and "s \<noteq> t"
  shows "sint (s - t) < 0"
proof -
  have "unat s < unat t" using assms(1,3) by (simp add: order_less_le word_unat_eq_iff)
  moreover have "unat t \<le> 2 ^ 64" using assms(2) by simp
  ultimately have "unat (s - t) = unat s + 2 ^ 64 - unat t" using unat_sub_if_size [of s t] by (simp add: word_size)
  then show ?thesis using assms(2) by (simp add: sint_neg_iff)
qed

section \<open>\<open>MPMCSeq\<close>\<close>

fun mpmcs_credit :: "nat \<Rightarrow> 'a MPMCSeq \<Rightarrow> 'a seq_pc \<Rightarrow> nat" where
  "mpmcs_credit G q Idle = 3 * G + 3"
| "mpmcs_credit G q (ETail x) = 3 * G + 2"
| "mpmcs_credit G q (ESlot x t) = (if t = tail q then 3 * G + 1 else 3 * G + 4)"
| "mpmcs_credit G q (ECas x t) = (if t = tail q then 3 * G else 3 * G + 3)"
| "mpmcs_credit G q (EData x t) = 3 * G + 5"
| "mpmcs_credit G q (ESeq x t) = 3 * G + 4"
| "mpmcs_credit G q DHead = 3 * G + 2"
| "mpmcs_credit G q (DSlot h) = (if h = head q then 3 * G + 1 else 3 * G + 4)"
| "mpmcs_credit G q (DCas h) = (if h = head q then 3 * G else 3 * G + 3)"
| "mpmcs_credit G q (DData h) = 2"
| "mpmcs_credit G q (DClear h x) = 1"
| "mpmcs_credit G q (DSeq h x) = 0"

definition moved :: "nat \<Rightarrow> 'a MPMCSeq \<Rightarrow> 'a MPMCSeq \<Rightarrow> nat" where
  "moved n q q' = (if tail q' = tail q \<and> head q' = head q then 0 else n)"

lemma mpmcs_credit_moved: "tail q' = tail q \<or> head q' = head q \<Longrightarrow> mpmcs_credit G q' pc \<le> mpmcs_credit G q pc + moved 3 q q'"
  by (cases pc) (auto simp: moved_def)

context atomix_sem
begin

lemma seq_fresh_enqueue:
  assumes "seq_cinv m ls c" and "m < seq_bound" and "pcs c i = ESlot x (tail (shared c))"
    and "MPMCSeq_step A zero (pcs c i) (shared c) = ret (l, pc', q')"
  shows "q' = shared c" and "l = Some EnqueueRefused \<and> pc' = Idle \<or> l = None \<and> pc' = ECas x (tail (shared c))"
proof -
  let ?q = "shared c" let ?s = "seq (buffer ?q ! (unat (tail ?q) mod length (buffer ?q)))"
  note S = seq_cshapeD [OF seq_cinvD(1) [OF assms(1)] assms(2)]
  have "unat ?s \<le> unat (tail ?q)" using seq_at_ends(1) [OF assms(1,2)] by (simp add: seq_at_def)
  moreover have "unat (tail ?q) < 2 ^ 63" using S(10) by simp
  ultimately have "?s - tail ?q = 0 \<or> sint (?s - tail ?q) < 0" using behind_diff by fastforce
  with assms(3,4) S(4,5) show "q' = ?q" "l = Some EnqueueRefused \<and> pc' = Idle \<or> l = None \<and> pc' = ECas x (tail ?q)"
    by (auto simp: Let_def split: if_splits)
qed

lemma seq_fresh_dequeue:
  assumes "seq_cinv m ls c" and "m < seq_bound" and "pcs c i = DSlot (head (shared c))"
    and "MPMCSeq_step A zero (pcs c i) (shared c) = ret (l, pc', q')"
  shows "q' = shared c" and "l = Some DequeueRefused \<and> pc' = Idle \<or> l = None \<and> pc' = DCas (head (shared c))"
proof -
  let ?q = "shared c" let ?s = "seq (buffer ?q ! (unat (head ?q) mod length (buffer ?q)))"
  note S = seq_cshapeD [OF seq_cinvD(1) [OF assms(1)] assms(2)]
  have "unat ?s \<le> unat (head ?q + 1)" using seq_at_ends(2) [OF assms(1,2)] S(7) by (simp add: seq_at_def)
  moreover have "unat (head ?q + 1) < 2 ^ 63" using S(7,8,10) by simp
  ultimately have "?s - (head ?q + 1) = 0 \<or> sint (?s - (head ?q + 1)) < 0" using behind_diff by fastforce
  with assms(3,4) S(4,5) show "q' = ?q" "l = Some DequeueRefused \<and> pc' = Idle \<or> l = None \<and> pc' = DCas (head ?q)"
    by (auto simp: Let_def split: if_splits)
qed

text \<open>A step costs one access and three for everybody else when it moves an index; an operation that takes effect pays.\<close>

lemma seq_step_credit:
  assumes inv: "seq_cinv m ls c" and m: "m < seq_bound" and pc: "pcs c i \<noteq> Idle" and G: "0 < G"
    and step: "MPMCSeq_step A zero (pcs c i) (shared c) = ret (l, pc', q')"
  shows "Suc (mpmcs_credit G q' pc') + (G - 1) * moved 3 (shared c) q'
      \<le> mpmcs_credit G (shared c) (pcs c i) + (if l = None then 0 else 3 * G + 4)"
    and "tail q' = tail (shared c) \<or> head q' = head (shared c)"
proof -
  let ?q = "shared c"
  show "tail q' = tail ?q \<or> head q' = head ?q" using step by (cases "pcs c i") (auto simp: Let_def split: if_splits prod.splits)
  show "Suc (mpmcs_credit G q' pc') + (G - 1) * moved 3 ?q q' \<le> mpmcs_credit G ?q (pcs c i) + (if l = None then 0 else 3 * G + 4)"
  proof (cases "pcs c i")
    case (ESlot x t)
    show ?thesis
    proof (cases "t = tail ?q")
      case True
      with seq_fresh_enqueue [OF inv m _ step] ESlot show ?thesis by (auto simp: moved_def)
    next
      case False
      with ESlot step show ?thesis by (auto simp: Let_def moved_def split: if_splits)
    qed
  next
    case (DSlot h)
    show ?thesis
    proof (cases "h = head ?q")
      case True
      with seq_fresh_dequeue [OF inv m _ step] DSlot show ?thesis by (auto simp: moved_def)
    next
      case False
      with DSlot step show ?thesis by (auto simp: Let_def moved_def split: if_splits)
    qed
  next
    case (ECas x t)
    with step G show ?thesis by (auto simp: cas64 Let_def moved_def split: if_splits)
  next
    case (DCas h)
    with step G show ?thesis by (auto simp: cas64 Let_def moved_def split: if_splits)
  qed (use step pc in \<open>auto simp: Let_def moved_def split: if_splits\<close>)
qed

end

sublocale atomix_sem < mpmcs_credits: credit_system "seq_step A zero" shared pcs Idle mpmcs_credit
    "\<lambda>G. 3 * G + 4" "\<lambda>G. 3 * G + 3" seq_cinv seq_bound for zero
proof
  fix m ls c l c' G assume I: "seq_cinv m ls c" and m: "m < seq_bound" and G: "0 < (G :: nat)" and step: "seq_step A zero c l c'"
  let ?Q = "\<lambda>i d. (\<forall>j. j \<noteq> i \<longrightarrow> pcs c' j = pcs c j) \<and> (pcs c i \<noteq> Idle \<or> pcs c' i \<noteq> Idle)
        \<and> (\<forall>pc. mpmcs_credit G (shared c') pc \<le> mpmcs_credit G (shared c) pc + d)
        \<and> Suc (mpmcs_credit G (shared c') (pcs c' i)) + (G - 1) * d
            \<le> mpmcs_credit G (shared c) (pcs c i) + (if l = None then 0 else 3 * G + 4)"
  show "\<exists>i d. ?Q i d" using step
  proof cases
    case (seq_call_Enqueue i x)
    then have "?Q i 0" by simp
    then show ?thesis by blast
  next
    case (seq_call_Dequeue i)
    then have "?Q i 0" by simp
    then show ?thesis by blast
  next
    case (seq_run i pc q)
    note C = seq_step_credit [OF I m seq_run(2) G seq_run(3)]
    have "?Q i (moved 3 (shared c) q)" using seq_run C(1) mpmcs_credit_moved [OF C(2)] by simp
    then show ?thesis by blast
  qed
qed (auto intro: seq_step_inv)

lemma MPMCSeq_step_ret:
  assumes "seq_cinv m ls c" and "m < seq_bound"
  shows "\<exists>r. MPMCSeq_step A zero (pcs c i) (shared c) = ret r"
  using seq_cshapeD(4,5) [OF seq_cinvD(1) [OF assms(1)] assms(2)]
  by (cases "pcs c i") (auto simp: Let_def split: prod.splits)

fun seq_mover :: "'a seq_move \<Rightarrow> nat" where
  "seq_mover (SeqEnqueue i x) = i"
| "seq_mover (SeqDequeue i) = i"
| "seq_mover (SeqRun i) = i"

lemma seq_among_sched:
  assumes "sched (among_do seq_mover G (seq_do A zero)) mvs c0 = Some (ls, c)" and "length mvs = n"
  shows "exec (among pcs G (seq_step A zero)) c0 n ls c"
proof (rule among_sched [OF assms])
  fix mv c l c' i assume d: "seq_do A zero mv c = Some (l, c')"
  then show "seq_step A zero c l c'" by (rule seq_do_step)
  show "pcs c' i = pcs c i" if "i \<noteq> seq_mover mv"
    using d that by (cases mv) (auto split: seq_pc.splits option.splits sum.splits)
qed

section \<open>\<open>MPSCSeq\<close>\<close>

fun mpscs_credit :: "nat \<Rightarrow> 'a MPSCSeq \<Rightarrow> 'a mpscs_pc \<Rightarrow> nat" where
  "mpscs_credit G q BIdle = 4 * G + 4"
| "mpscs_credit G q (BETail x) = 4 * G + 3"
| "mpscs_credit G q (BEHead x t) = (if t = tail q then 4 * G + 2 else 4 * G + 6)"
| "mpscs_credit G q (BESlot x t) = (if t = tail q then 4 * G + 1 else 4 * G + 5)"
| "mpscs_credit G q (BECas x t) = (if t = tail q then 4 * G else 4 * G + 4)"
| "mpscs_credit G q (BEData x t) = 4 * G + 6"
| "mpscs_credit G q (BESeq x t) = 4 * G + 5"
| "mpscs_credit G q BDHead = 4"
| "mpscs_credit G q (BDSlot h) = 3"
| "mpscs_credit G q (BDData h) = 2"
| "mpscs_credit G q (BDClear h x) = 1"
| "mpscs_credit G q (BDSeq h x) = 0"
| "mpscs_credit G q (BDPublish h x) = 4 * G + 5"

definition tail_moved :: "nat \<Rightarrow> 'a MPSCSeq \<Rightarrow> 'a MPSCSeq \<Rightarrow> nat" where
  "tail_moved n q q' = (if tail q' = tail q then 0 else n)"

lemma mpscs_credit_moved: "mpscs_credit G q' pc \<le> mpscs_credit G q pc + tail_moved 4 q q'"
  by (cases pc) (auto simp: tail_moved_def)

context atomix_sem
begin

lemma mpscs_fresh:
  assumes I: "mpscs_inv m ls c" and m: "m < seq_bound" and pc: "at_pc c i = BESlot x (tail (memory c))"
    and st: "MPSCSeq_step A zero (at_pc c i) (memory c) = ret (l, pc', q')"
  shows "q' = memory c" and "l = Some EnqueueRefused \<and> pc' = BIdle \<or> l = None \<and> pc' = BECas x (tail (memory c))"
proof -
  let ?q = "memory c" let ?s = "seq (buffer ?q ! (unat (tail ?q) mod length (buffer ?q)))"
  have "?s \<le> tail ?q" using seq_at_ends(1) [OF mpscs_invD(1) [OF I] m] by (simp add: seq_at_def word_le_nat_alt)
  then have "?s = tail ?q \<or> ?s < tail ?q" by auto
  with pc st mpscs_shape(1,2) [OF I m] show "q' = ?q" "l = Some EnqueueRefused \<and> pc' = BIdle \<or> l = None \<and> pc' = BECas x (tail ?q)"
    by (auto simp: Let_def split: if_splits)
qed

lemma mpscs_step_credit:
  assumes I: "mpscs_inv m ls c" and m: "m < seq_bound" and G: "0 < G" and pc: "at_pc c i \<noteq> BIdle"
    and st: "MPSCSeq_step A zero (at_pc c i) (memory c) = ret (l, pc', q')"
  shows "Suc (mpscs_credit G q' pc') + (G - 1) * tail_moved 4 (memory c) q'
      \<le> mpscs_credit G (memory c) (at_pc c i) + (if l = None then 0 else 4 * G + 6)"
proof (cases "at_pc c i")
  case (BESlot x t)
  show ?thesis
  proof (cases "t = tail (memory c)")
    case True
    with mpscs_fresh [OF I m _ st] BESlot show ?thesis by (auto simp: tail_moved_def)
  next
    case False
    with BESlot st show ?thesis by (auto simp: Let_def tail_moved_def split: if_splits)
  qed
next
  case (BECas x t)
  with st G show ?thesis by (auto simp: cas64 Let_def tail_moved_def split: if_splits)
qed (use st pc in \<open>auto simp: Let_def tail_moved_def split: if_splits\<close>)

end

sublocale atomix_sem < mpscs_credits: go_credits "MPSCSeq_step A zero" BIdle BETail BDHead "\<lambda>_. True" "\<lambda>i. i = 0"
    mpscs_credit "\<lambda>G. 4 * G + 6" "\<lambda>G. 4 * G + 4" "tail_moved 4" mpscs_inv seq_bound for zero
  by unfold_locales
    (erule (2) mpscs_step_inv, (simp; fail)+, blast intro: mpscs_credit_moved mpscs_step_credit)

lemma MPSCSeq_step_ret:
  assumes "mpscs_inv m ls c" and "m < seq_bound"
  shows "\<exists>r. MPSCSeq_step A zero (at_pc c i) (memory c) = ret r"
  using mpscs_shape(1,2) [OF assms] by (cases "at_pc c i") (auto simp: Let_def split: prod.splits)

section \<open>\<open>SPMCSeq\<close>\<close>

fun spmcs_credit :: "nat \<Rightarrow> 'a SPMCSeq \<Rightarrow> 'a spmcs_pc \<Rightarrow> nat" where
  "spmcs_credit G q GIdle = 4 * G + 4"
| "spmcs_credit G q (GETail x) = 1"
| "spmcs_credit G q (GESlot x t) = 0"
| "spmcs_credit G q (GEData x t) = 4 * G + 7"
| "spmcs_credit G q (GESeq x t) = 4 * G + 6"
| "spmcs_credit G q (GEPublish x t) = 4 * G + 5"
| "spmcs_credit G q GDHead = 4 * G + 3"
| "spmcs_credit G q (GDTail h) = (if h = head q then 4 * G + 2 else 4 * G + 6)"
| "spmcs_credit G q (GDSlot h) = (if h = head q then 4 * G + 1 else 4 * G + 5)"
| "spmcs_credit G q (GDCas h) = (if h = head q then 4 * G else 4 * G + 4)"
| "spmcs_credit G q (GDData h) = 2"
| "spmcs_credit G q (GDClear h x) = 1"
| "spmcs_credit G q (GDSeq h x) = 0"

definition head_moved :: "nat \<Rightarrow> 'a SPMCSeq \<Rightarrow> 'a SPMCSeq \<Rightarrow> nat" where
  "head_moved n q q' = (if head q' = head q then 0 else n)"

lemma spmcs_credit_moved: "spmcs_credit G q' pc \<le> spmcs_credit G q pc + head_moved 4 q q'"
  by (cases pc) (auto simp: head_moved_def)

context atomix_sem
begin

lemma spmcs_fresh:
  assumes I: "spmcs_inv m ls c" and m: "m < seq_bound" and pc: "at_pc c i = GDSlot (head (memory c))"
    and st: "SPMCSeq_step A zero (at_pc c i) (memory c) = ret (l, pc', q')"
  shows "q' = memory c" and "l = Some DequeueRefused \<and> pc' = GIdle \<or> l = None \<and> pc' = GDCas (head (memory c))"
proof -
  let ?q = "memory c" let ?s = "seq (buffer ?q ! (unat (head ?q) mod length (buffer ?q)))"
  have "?s \<le> head ?q + 1"
    using seq_at_ends(2) [OF spmcs_invD(1) [OF I] m] spmcs_shape(5) [OF I m] by (simp add: seq_at_def word_le_nat_alt)
  then have "?s = head ?q + 1 \<or> ?s < head ?q + 1" by auto
  with pc st spmcs_shape(1,2) [OF I m] show "q' = ?q" "l = Some DequeueRefused \<and> pc' = GIdle \<or> l = None \<and> pc' = GDCas (head ?q)"
    by (auto simp: Let_def split: if_splits)
qed

lemma spmcs_step_credit:
  assumes I: "spmcs_inv m ls c" and m: "m < seq_bound" and G: "0 < G" and pc: "at_pc c i \<noteq> GIdle"
    and st: "SPMCSeq_step A zero (at_pc c i) (memory c) = ret (l, pc', q')"
  shows "Suc (spmcs_credit G q' pc') + (G - 1) * head_moved 4 (memory c) q'
      \<le> spmcs_credit G (memory c) (at_pc c i) + (if l = None then 0 else 4 * G + 8)"
proof (cases "at_pc c i")
  case (GDSlot h)
  show ?thesis
  proof (cases "h = head (memory c)")
    case True
    with spmcs_fresh [OF I m _ st] GDSlot show ?thesis by (auto simp: head_moved_def)
  next
    case False
    with GDSlot st show ?thesis by (auto simp: Let_def head_moved_def split: if_splits)
  qed
next
  case (GDCas h)
  with st G show ?thesis by (auto simp: cas64 Let_def head_moved_def split: if_splits)
qed (use st pc in \<open>auto simp: Let_def head_moved_def split: if_splits\<close>)

end

sublocale atomix_sem < spmcs_credits: go_credits "SPMCSeq_step A zero" GIdle GETail GDHead "\<lambda>i. i = 0" "\<lambda>_. True"
    spmcs_credit "\<lambda>G. 4 * G + 8" "\<lambda>G. 4 * G + 4" "head_moved 4" spmcs_inv seq_bound for zero
  by unfold_locales
    (erule (2) spmcs_step_inv, (simp; fail)+, blast intro: spmcs_credit_moved spmcs_step_credit)

lemma SPMCSeq_step_ret:
  assumes "spmcs_inv m ls c" and "m < seq_bound"
  shows "\<exists>r. SPMCSeq_step A zero (at_pc c i) (memory c) = ret r"
  using spmcs_shape(1,2) [OF assms] by (cases "at_pc c i") (auto simp: Let_def split: prod.splits)

context atomix_sem
begin

lemmas mpmcs_progress = mpmcs_credits.progress
lemmas mpscs_progress = mpscs_credits.sys.progress
lemmas spmcs_progress = spmcs_credits.sys.progress

end

end
