(* ===== verification/Slot_Window.thy ===== *)
theory Slot_Window
  imports Go_Prelude
begin

text \<open>
  A ring whose slots say themselves which position they serve: at any moment the slots of the
  positions from \<open>D\<close> to \<open>D + n\<close> hold the elements below \<open>T\<close> and are free for the rest. Only
  two things matter of the code in a slot: it tells for which position a slot is free, and a full
  slot is not free for any position. The locale carries these laws; the queues with 128-bit
  entries and the compact queues interpret it.
\<close>

definition window :: "(nat \<Rightarrow> 's \<Rightarrow> bool) \<Rightarrow> (nat \<Rightarrow> nat \<Rightarrow> 's \<Rightarrow> bool) \<Rightarrow> nat \<Rightarrow> nat \<Rightarrow> nat \<Rightarrow> (nat \<Rightarrow> 's) \<Rightarrow> bool" where
  "window full free n D T f \<longleftrightarrow> D \<le> T \<and> T \<le> D + n
     \<and> (\<forall>p. D \<le> p \<longrightarrow> p < T \<longrightarrow> full p (f (p mod n)))
     \<and> (\<forall>p. T \<le> p \<longrightarrow> p < D + n \<longrightarrow> free n p (f (p mod n)))"

definition contents :: "('s \<Rightarrow> 'v) \<Rightarrow> nat \<Rightarrow> nat \<Rightarrow> nat \<Rightarrow> (nat \<Rightarrow> 's) \<Rightarrow> 'v list" where
  "contents val n D T f = map (\<lambda>p. val (f (p mod n))) [D..<T]"

lemma length_contents [simp]: "length (contents val n D T f) = T - D"
  by (simp add: contents_def)

lemma contents_Nil [simp]: "T \<le> D \<Longrightarrow> contents val n D T f = []"
  by (simp add: contents_def)

lemma contents_Cons: "D < T \<Longrightarrow> contents val n D T f = val (f (D mod n)) # contents val n (Suc D) T f"
  by (simp add: contents_def upt_conv_Cons)

lemma contents_snoc: "D \<le> T \<Longrightarrow> contents val n D (Suc T) f = contents val n D T f @ [val (f (T mod n))]"
  by (simp add: contents_def)

lemma contents_cong:
  "(\<And>p. D \<le> p \<Longrightarrow> p < T \<Longrightarrow> f (p mod n) = g (p mod n)) \<Longrightarrow> contents val n D T f = contents val n D T g"
  by (simp add: contents_def)

text \<open>Positions of one window have different slots, and every position shares its slot with one of them.\<close>

lemma window_inj:
  assumes "D \<le> p" and "p < D + n" and "D \<le> r" and "r < D + n" and "p mod n = r mod (n :: nat)"
  shows "p = r"
proof -
  have "(D + (p - D)) mod n = (D + (r - D)) mod n" using assms by simp
  then have "p - D = r - D" using assms by (intro mod_pow2_inj [of "p - D" n "r - D" D]) auto
  with assms show ?thesis by simp
qed

lemma window_slot:
  assumes "0 < (n :: nat)"
  obtains p where "D \<le> p" and "p < D + n" and "p mod n = t mod n"
proof
  let ?p = "D + (t + (n - 1) * D) mod n"
  have "?p mod n = (D + (t + (n - 1) * D)) mod n" by (simp add: mod_simps)
  also have "D + (t + (n - 1) * D) = t + n * D" using assms by (cases n) simp_all
  finally show "?p mod n = t mod n" by simp
  show "D \<le> ?p" "?p < D + n" using assms by simp_all
qed

lemma windowD:
  assumes "window full free n D T f"
  shows "D \<le> T" and "T \<le> D + n" and "\<And>p. D \<le> p \<Longrightarrow> p < T \<Longrightarrow> full p (f (p mod n))"
    and "\<And>p. T \<le> p \<Longrightarrow> p < D + n \<Longrightarrow> free n p (f (p mod n))"
  using assms by (auto simp: window_def)

text \<open>Filling the first free slot and freeing the first full one.\<close>

lemma window_push:
  assumes w: "window full free n D T f" and room: "T < D + n" and s: "full T s"
  shows "window full free n D (Suc T) (f(T mod n := s))"
    and "contents val n D (Suc T) (f(T mod n := s)) = contents val n D T f @ [val s]"
proof -
  note W = windowD [OF w]
  have other: "p mod n \<noteq> T mod n" if "D \<le> p" "p < D + n" "p \<noteq> T" for p
    using window_inj [OF that(1,2) W(1) room] that(3) by blast
  show "window full free n D (Suc T) (f(T mod n := s))"
    unfolding window_def
  proof (intro conjI allI impI)
    show "full p ((f(T mod n := s)) (p mod n))" if "D \<le> p" "p < Suc T" for p
      using that W(3) [of p] other [of p] room s by (cases "p = T") simp_all
    show "free n p ((f(T mod n := s)) (p mod n))" if "Suc T \<le> p" "p < D + n" for p
      using that W(1) W(4) [of p] other [of p] by simp
  qed (use W room in simp_all)
  have "contents val n D T (f(T mod n := s)) = contents val n D T f"
    by (rule contents_cong) (use other room in simp)
  then show "contents val n D (Suc T) (f(T mod n := s)) = contents val n D T f @ [val s]"
    using W(1) by (simp add: contents_snoc)
qed

lemma window_pop:
  assumes w: "window full free n D T f" and ne: "D < T" and s: "free n (D + n) s"
  shows "window full free n (Suc D) T (f(D mod n := s))"
    and "contents val n D T f = val (f (D mod n)) # contents val n (Suc D) T (f(D mod n := s))"
    and "\<And>p. Suc D \<le> p \<Longrightarrow> p < D + n \<Longrightarrow> (f(D mod n := s)) (p mod n) = f (p mod n)"
proof -
  note W = windowD [OF w]
  have other: "p mod n \<noteq> D mod n" if "D < p" "p < D + n" for p
    using window_inj [of D p n D] that by auto
  show "window full free n (Suc D) T (f(D mod n := s))"
    unfolding window_def
  proof (intro conjI allI impI)
    show "full p ((f(D mod n := s)) (p mod n))" if "Suc D \<le> p" "p < T" for p
      using that W(2) W(3) [of p] other [of p] by simp
    show "free n p ((f(D mod n := s)) (p mod n))" if "T \<le> p" "p < Suc D + n" for p
      using that ne W(4) [of p] other [of p] s by (cases "p = D + n") simp_all
  qed (use W ne in simp_all)
  show o: "(f(D mod n := s)) (p mod n) = f (p mod n)" if "Suc D \<le> p" "p < D + n" for p
    using other [of p] that by simp
  have "contents val n (Suc D) T (f(D mod n := s)) = contents val n (Suc D) T f"
    by (rule contents_cong) (use o W(2) in simp)
  then show "contents val n D T f = val (f (D mod n)) # contents val n (Suc D) T (f(D mod n := s))"
    using ne by (simp add: contents_Cons)
qed

locale slot_codes =
  fixes least :: nat
    and full :: "nat \<Rightarrow> 's \<Rightarrow> bool"
    and free :: "nat \<Rightarrow> nat \<Rightarrow> 's \<Rightarrow> bool"
  assumes least: "0 < least"
    and free_inj: "least \<le> n \<Longrightarrow> free n p s \<Longrightarrow> free n t s \<Longrightarrow> p mod n = t mod n \<Longrightarrow> p = t"
    and full_not_free: "least \<le> n \<Longrightarrow> full p s \<Longrightarrow> free n t s \<Longrightarrow> p mod n \<noteq> t mod n"
begin

text \<open>A slot that is free for a position not beyond \<open>T\<close> is the one at \<open>T\<close>, and there is room.\<close>

lemma free_at_tail:
  assumes w: "window full free n D T f" and n: "least \<le> n" and t: "t \<le> T" and s: "free n t (f (t mod n))"
  shows "t = T" and "T < D + n"
proof -
  note W = windowD [OF w]
  from least n have "0 < n" by simp
  then obtain p where p: "D \<le> p" "p < D + n" "p mod n = t mod n" by (rule window_slot)
  have "T \<le> p"
  proof (rule ccontr)
    assume "\<not> ?thesis"
    then have "full p (f (t mod n))" using W(3) [of p] p by simp
    from full_not_free [OF n this s] p(3) show False by simp
  qed
  with W(4) [of p] p have "free n p (f (t mod n))" by simp
  from free_inj [OF n this s p(3)] have "p = t" .
  with t p \<open>T \<le> p\<close> show "t = T" "T < D + n" by simp_all
qed

lemma tail_not_free:
  assumes "window full free n D T f" and "\<not> free n T (f (T mod n))"
  shows "T = D + n"
  using windowD [OF assms(1)] assms(2) by (cases "T < D + n") auto

lemma head_empty:
  assumes w: "window full free n D T f" and n: "least \<le> n" and s: "free n D (f (D mod n))"
  shows "T = D"
proof (rule ccontr)
  assume "T \<noteq> D"
  then have "full D (f (D mod n))" using windowD(1,3) [OF w] by simp
  from full_not_free [OF n this s] show False by simp
qed

end

end
