(* ===== verification/Seq128_Concurrent.thy ===== *)
theory Seq128_Concurrent
  imports Seq128_Queues Slot_Window Goroutines
begin

text \<open>
  Any number of goroutines interleaved on an \<open>MPMCIndirectSeq\<close> queue (\<open>mpmc_128_seq.go\<close>); the
  pointer variant runs the same code. One step is one access to shared memory.

  The entry carries the sequence number and the value together, so the compare-and-swap on it
  decides the operation and the shared index follows in a step of its own. Between the two steps
  the index is one behind. The queue is linearizable: an operation takes effect at the
  compare-and-swap of the entry, a refusal at the load that decides it. It is not lock-free: while
  an index is behind, no other operation of that side can finish.
\<close>

section \<open>Atomic steps\<close>

datatype mpmc128_pc = VIdle
  | VETail u64 | VESlot u64 u64 | VECas u64 u64 "u64 \<times> u64" | VEAdvance u64
  | VDHead | VDSlot u64 | VDCas u64 "u64 \<times> u64" | VDAdvance u64

fun MPMCIndirectSeq_step :: "atomix \<Rightarrow> mpmc128_pc \<Rightarrow> MPMCIndirectSeq
    \<Rightarrow> ((u64 call \<times> u64 answer) option \<times> mpmc128_pc \<times> MPMCIndirectSeq) go" where
  "MPMCIndirectSeq_step A VIdle q = ret (None, VIdle, q)"
| "MPMCIndirectSeq_step A (VETail elem) q = ret (None, VESlot elem (tail q), q)"
| "MPMCIndirectSeq_step A (VESlot elem t) q =
     (let i = unat (t AND mask_q q)
      in if \<not> i < length (buffer q) then panics IndexOutOfRange
         else let e = entry (buffer q ! i); diff = fst e - t
           in if diff = 0 then ret (None, VECas elem t e, q)
              else if sint diff < 0 then ret (Some (Enqueue elem, EnqueueRet (Some ErrWouldBlock)), VIdle, q)
              else ret (None, VETail elem, q))"
| "MPMCIndirectSeq_step A (VECas elem t e) q =
     (let i = unat (t AND mask_q q)
      in if \<not> i < length (buffer q) then panics IndexOutOfRange
         else case CompareAndSwap128 A (entry (buffer q ! i)) e (t + 1, elem) of (swapped, cell) \<Rightarrow>
           let q = q\<lparr>buffer := (buffer q)[i := \<lparr>entry = cell\<rparr>]\<rparr>
           in if swapped then ret (Some (Enqueue elem, EnqueueRet None), VEAdvance t, q)
              else ret (None, VETail elem, q))"
| "MPMCIndirectSeq_step A (VEAdvance t) q =
     ret (None, VIdle, q\<lparr>tail := snd (CompareAndSwap64 A (tail q) t (t + 1))\<rparr>)"
| "MPMCIndirectSeq_step A VDHead q = ret (None, VDSlot (head q), q)"
| "MPMCIndirectSeq_step A (VDSlot h) q =
     (let i = unat (h AND mask_q q)
      in if \<not> i < length (buffer q) then panics IndexOutOfRange
         else let e = entry (buffer q ! i); diff = fst e - (h + 1)
           in if diff = 0 then ret (None, VDCas h e, q)
              else if sint diff < 0 then ret (Some (Dequeue, DequeueRet 0 (Some ErrWouldBlock)), VIdle, q)
              else ret (None, VDHead, q))"
| "MPMCIndirectSeq_step A (VDCas h e) q =
     (let i = unat (h AND mask_q q)
      in if \<not> i < length (buffer q) then panics IndexOutOfRange
         else case CompareAndSwap128 A (entry (buffer q ! i)) e (h + capacity q, 0) of (swapped, cell) \<Rightarrow>
           let q = q\<lparr>buffer := (buffer q)[i := \<lparr>entry = cell\<rparr>]\<rparr>
           in if swapped then ret (Some (Dequeue, DequeueRet (snd e) None), VDAdvance h, q)
              else ret (None, VDHead, q))"
| "MPMCIndirectSeq_step A (VDAdvance h) q =
     ret (None, VIdle, q\<lparr>head := snd (CompareAndSwap64 A (head q) h (h + 1))\<rparr>)"

section \<open>The entries as a window\<close>

definition slot_view :: "MPMCIndirectSeq \<Rightarrow> nat \<Rightarrow> nat \<times> u64" where
  "slot_view q j = (unat (fst (entry (buffer q ! j))), snd (entry (buffer q ! j)))"

definition full128 :: "nat \<Rightarrow> nat \<times> u64 \<Rightarrow> bool" where
  "full128 p s \<longleftrightarrow> fst s = Suc p"

definition free128 :: "nat \<Rightarrow> nat \<Rightarrow> nat \<times> u64 \<Rightarrow> bool" where
  "free128 n p s \<longleftrightarrow> fst s = p"

interpretation entry128: slot_codes 2 full128 free128
proof
  show "p mod n \<noteq> t mod n" if "2 \<le> n" "full128 p s" "free128 n t s" for n p t s
    using that mod_pow2_inj [of 1 n 0 p] by (auto simp: full128_def free128_def)
qed (auto simp: free128_def)

text \<open>
  The elements are at the positions from \<open>D\<close> up to \<open>T\<close>; the indices are there or one behind.
\<close>

definition phys128 :: "nat \<Rightarrow> MPMCIndirectSeq \<Rightarrow> nat \<Rightarrow> nat \<Rightarrow> bool" where
  "phys128 m q D T \<longleftrightarrow> (\<exists>k. seqq_shape k (seq128_abs q))
     \<and> window full128 free128 (length (buffer q)) D T (slot_view q) \<and> T \<le> m
     \<and> (D = unat (head q) \<or> D = Suc (unat (head q))) \<and> (T = unat (tail q) \<or> T = Suc (unat (tail q)))"

definition phead :: "MPMCIndirectSeq \<Rightarrow> nat" where
  "phead q = (let h = unat (head q) in if Suc h < fst (slot_view q (h mod length (buffer q))) then Suc h else h)"

definition ptail :: "MPMCIndirectSeq \<Rightarrow> nat" where
  "ptail q = (let t = unat (tail q) in if t < fst (slot_view q (t mod length (buffer q))) then Suc t else t)"

lemma phys128D:
  assumes "phys128 m q D T"
  shows "2 \<le> length (buffer q)" and "length (buffer q) \<le> 2 ^ 62" and "unat (capacity q) = length (buffer q)"
    and "unat (p AND mask_q q) = unat p mod length (buffer q)" and "unat p mod length (buffer q) < length (buffer q)"
    and "window full128 free128 (length (buffer q)) D T (slot_view q)" and "D \<le> T" and "T \<le> D + length (buffer q)"
    and "T \<le> m" and "D = unat (head q) \<or> D = Suc (unat (head q))" and "T = unat (tail q) \<or> T = Suc (unat (tail q))"
proof -
  from assms obtain k where k: "seqq_shape k (seq128_abs q)" by (auto simp: phys128_def)
  then have k': "1 \<le> k" "k \<le> 62" "length (buffer q) = 2 ^ k" "unat (capacity q) = 2 ^ k"
    using seqq_length [OF k] by (auto simp: seqq_shape_def)
  show "2 \<le> length (buffer q)" using k' power_increasing [of 1 k "2 :: nat"] by simp
  show "length (buffer q) \<le> 2 ^ 62" using k' pow2_le_62 by simp
  show "unat (capacity q) = length (buffer q)" using k' by simp
  show "unat (p AND mask_q q) = unat p mod length (buffer q)" "unat p mod length (buffer q) < length (buffer q)"
    by (rule seq128_index [OF k])+
  show w: "window full128 free128 (length (buffer q)) D T (slot_view q)" using assms by (simp add: phys128_def)
  show "D \<le> T" "T \<le> D + length (buffer q)" by (rule windowD [OF w])+
  show "T \<le> m" "D = unat (head q) \<or> D = Suc (unat (head q))" "T = unat (tail q) \<or> T = Suc (unat (tail q))"
    using assms by (auto simp: phys128_def)
qed

text \<open>What a goroutine sees in the slot of a position: the slot serves one position of the window.\<close>

lemma slot_view_cases:
  assumes "phys128 m q D T"
  obtains p where "D \<le> p" and "p < D + length (buffer q)" and "p mod length (buffer q) = t mod length (buffer q)"
    and "p < T \<and> fst (slot_view q (t mod length (buffer q))) = Suc p
       \<or> T \<le> p \<and> fst (slot_view q (t mod length (buffer q))) = p"
proof -
  note P = phys128D [OF assms]
  from P(1) have "0 < length (buffer q)" by linarith
  then obtain p where p: "D \<le> p" "p < D + length (buffer q)" "p mod length (buffer q) = t mod length (buffer q)"
    by (rule window_slot)
  then have "p < T \<and> fst (slot_view q (t mod length (buffer q))) = Suc p
       \<or> T \<le> p \<and> fst (slot_view q (t mod length (buffer q))) = p"
    using windowD(3,4) [OF P(6), of p] by (cases "p < T") (simp_all add: full128_def free128_def)
  with p that show thesis by blast
qed

lemma mod_eq_less: "p < t \<Longrightarrow> p mod n = t mod (n :: nat) \<Longrightarrow> p + n \<le> t"
  by (metis less_imp_le_nat mod_eq_dvd_iff_nat dvd_imp_le le_add_diff_inverse nat_add_left_cancel_le zero_less_diff)

lemma enq_slot:
  assumes "phys128 m q D T" and "t \<le> T"
  shows "fst (slot_view q (t mod length (buffer q))) = t \<Longrightarrow> t = T \<and> T < D + length (buffer q)"
    and "fst (slot_view q (t mod length (buffer q))) < t \<Longrightarrow> t = T \<and> T = D + length (buffer q)"
    and "fst (slot_view q (t mod length (buffer q))) \<le> D + length (buffer q)"
proof -
  note P = phys128D [OF assms(1)]
  show "t = T \<and> T < D + length (buffer q)" if "fst (slot_view q (t mod length (buffer q))) = t"
    using entry128.free_at_tail [OF P(6,1) assms(2)] that by (simp add: free128_def)
  from slot_view_cases [OF assms(1), of t] obtain p where
    p: "D \<le> p" "p < D + length (buffer q)" "p mod length (buffer q) = t mod length (buffer q)"
      "p < T \<and> fst (slot_view q (t mod length (buffer q))) = Suc p
       \<or> T \<le> p \<and> fst (slot_view q (t mod length (buffer q))) = p" by blast
  from p show "fst (slot_view q (t mod length (buffer q))) \<le> D + length (buffer q)" by auto
  show "t = T \<and> T = D + length (buffer q)" if "fst (slot_view q (t mod length (buffer q))) < t"
    using mod_eq_less [OF _ p(3)] p that assms(2) P(8) by fastforce
qed

lemma deq_slot:
  assumes "phys128 m q D T" and "h \<le> D"
  shows "fst (slot_view q (h mod length (buffer q))) = Suc h \<Longrightarrow> h = D \<and> D < T"
    and "fst (slot_view q (h mod length (buffer q))) < Suc h \<Longrightarrow> h = D \<and> T = D"
proof -
  note P = phys128D [OF assms(1)]
  from slot_view_cases [OF assms(1), of h] obtain p where
    p: "D \<le> p" "p < D + length (buffer q)" "p mod length (buffer q) = h mod length (buffer q)"
      "p < T \<and> fst (slot_view q (h mod length (buffer q))) = Suc p
       \<or> T \<le> p \<and> fst (slot_view q (h mod length (buffer q))) = p" by blast
  show "h = D \<and> D < T" if "fst (slot_view q (h mod length (buffer q))) = Suc h"
    using mod_eq_less [OF _ p(3) [symmetric]] p that assms(2) P(1) by (elim disjE) auto
  show "h = D \<and> T = D" if "fst (slot_view q (h mod length (buffer q))) < Suc h"
    using p that assms(2) P(7) by auto
qed

lemma phys128_phead:
  assumes "phys128 m q D T"
  shows "phead q = D"
proof -
  note P = phys128D [OF assms]
  have n: "0 < length (buffer q)" using P(1) by linarith
  let ?v = "fst (slot_view q (unat (head q) mod length (buffer q)))"
  from P(10) show ?thesis
  proof
    assume D: "D = unat (head q)"
    then have "?v = Suc D \<or> ?v = D"
      using windowD(3,4) [OF P(6), of D] P(7) n by (cases "D < T") (auto simp: full128_def free128_def)
    with D show ?thesis by (auto simp: phead_def Let_def)
  next
    assume D: "D = Suc (unat (head q))"
    then have "\<not> ?v \<le> Suc (unat (head q))"
      using deq_slot [OF assms, of "unat (head q)"] by (metis le_SucI le_eq_less_or_eq n_not_Suc_n order_refl)
    with D show ?thesis by (simp add: phead_def Let_def)
  qed
qed

lemma phys128_ptail:
  assumes "phys128 m q D T"
  shows "ptail q = T"
proof -
  note P = phys128D [OF assms]
  let ?v = "fst (slot_view q (unat (tail q) mod length (buffer q)))"
  from P(11) show ?thesis
  proof
    assume T: "T = unat (tail q)"
    have "\<not> T < ?v"
    proof
      assume less: "T < ?v"
      from slot_view_cases [OF assms, of T] obtain p where
        p: "D \<le> p" "p < D + length (buffer q)" "p mod length (buffer q) = T mod length (buffer q)"
          "p < T \<and> ?v = Suc p \<or> T \<le> p \<and> ?v = p" unfolding T by blast
      from p(4) less have "T < p" by auto
      from mod_eq_less [OF this p(3) [symmetric]] p(2) P(7) show False by simp
    qed
    with T show ?thesis by (simp add: ptail_def Let_def)
  next
    assume T: "T = Suc (unat (tail q))"
    have "unat (tail q) < ?v"
      using enq_slot(1,2) [OF assms, of "unat (tail q)"] T by (metis le_SucI le_eq_less_or_eq linorder_less_linear n_not_Suc_n order_refl)
    with T show ?thesis by (simp add: ptail_def Let_def)
  qed
qed

section \<open>What the accesses do to the window\<close>

definition elems128 :: "MPMCIndirectSeq \<Rightarrow> nat \<Rightarrow> nat \<Rightarrow> u64 list" where
  "elems128 q D T = contents snd (length (buffer q)) D T (slot_view q)"

lemma length_elems128 [simp]: "length (elems128 q D T) = T - D"
  by (simp add: elems128_def)

lemma slot_view_upd:
  "j < length (buffer q) \<Longrightarrow> slot_view (q\<lparr>buffer := (buffer q)[j := \<lparr>entry = (s, v)\<rparr>]\<rparr>) = (slot_view q)(j := (unat s, v))"
  by (auto simp: slot_view_def nth_list_update)

lemma slot_view_index [simp]:
  "slot_view (q\<lparr>head := h\<rparr>) = slot_view q" "slot_view (q\<lparr>tail := t\<rparr>) = slot_view q"
  by (simp_all add: slot_view_def fun_eq_iff)

lemma elems128_index [simp]:
  "elems128 (q\<lparr>head := h\<rparr>) D T = elems128 q D T" "elems128 (q\<lparr>tail := t\<rparr>) D T = elems128 q D T"
  by (simp_all add: elems128_def)

lemma shape128_upd [simp]:
  "seqq_shape k (seq128_abs (q\<lparr>buffer := (buffer q)[j := s]\<rparr>)) = seqq_shape k (seq128_abs q)"
  "seqq_shape k (seq128_abs (q\<lparr>head := h\<rparr>)) = seqq_shape k (seq128_abs q)"
  "seqq_shape k (seq128_abs (q\<lparr>tail := t\<rparr>)) = seqq_shape k (seq128_abs q)"
  by (simp_all add: seqq_shape_def seq128_abs_def)

lemma phys128_mono: "phys128 m q D T \<Longrightarrow> m \<le> m' \<Longrightarrow> phys128 m' q D T"
  by (auto simp: phys128_def)

lemma phys128_tail:
  "phys128 m q D T \<Longrightarrow> T = unat t \<or> T = Suc (unat t) \<Longrightarrow> phys128 m (q\<lparr>tail := t\<rparr>) D T"
  by (auto simp: phys128_def)

lemma phys128_head:
  "phys128 m q D T \<Longrightarrow> D = unat h \<or> D = Suc (unat h) \<Longrightarrow> phys128 m (q\<lparr>head := h\<rparr>) D T"
  by (auto simp: phys128_def)

lemma phys128_push:
  assumes p: "phys128 m q D T" and m: "m < 2 ^ 62" and t: "T = unat t" "tail q = t" and room: "T < D + length (buffer q)"
    and q': "q' = q\<lparr>buffer := (buffer q)[unat t mod length (buffer q) := \<lparr>entry = (t + 1, x)\<rparr>]\<rparr>"
  shows "phys128 (Suc m) q' D (Suc T)" and "elems128 q' D (Suc T) = elems128 q D T @ [x]"
    and "\<And>p. D \<le> p \<Longrightarrow> p < T \<Longrightarrow> slot_view q' (p mod length (buffer q)) = slot_view q (p mod length (buffer q))"
proof -
  note P = phys128D [OF p]
  have "unat (t + 1) = Suc T" using P(9) m t by (simp add: unat_Suc_no_wrap)
  then have v: "slot_view q' = (slot_view q)(T mod length (buffer q) := (Suc T, x))"
    using slot_view_upd [OF P(5)] t by (simp add: q')
  have n: "length (buffer q') = length (buffer q)" by (simp add: q')
  have "full128 T (Suc T, x)" by (simp add: full128_def)
  note W = window_push [OF P(6) room this]
  show "phys128 (Suc m) q' D (Suc T)"
    using p W(1) t by (auto simp: phys128_def n v) (auto simp: q')
  show "elems128 q' D (Suc T) = elems128 q D T @ [x]"
    using W(2) [of snd] by (simp add: elems128_def n v)
  show "slot_view q' (p mod length (buffer q)) = slot_view q (p mod length (buffer q))" if "D \<le> p" "p < T" for p
    using window_inj [of D p "length (buffer q)" T] that room P(7) by (auto simp: v)
qed

lemma phys128_pop:
  assumes p: "phys128 m q D T" and m: "m < 2 ^ 62" and h: "D = unat h" "head q = h" and ne: "D < T"
    and q': "q' = q\<lparr>buffer := (buffer q)[unat h mod length (buffer q) := \<lparr>entry = (h + capacity q, 0)\<rparr>]\<rparr>"
  shows "phys128 (Suc m) q' (Suc D) T"
    and "elems128 q D T = snd (slot_view q (D mod length (buffer q))) # elems128 q' (Suc D) T"
    and "\<And>p. Suc D \<le> p \<Longrightarrow> p < D + length (buffer q) \<Longrightarrow>
      slot_view q' (p mod length (buffer q)) = slot_view q (p mod length (buffer q))"
proof -
  note P = phys128D [OF p]
  have two: "(2 :: nat) ^ 62 + 2 ^ 62 < 2 ^ 64" by simp
  have "unat h + unat (capacity q) < 2 ^ 64" using P(2,3,7,9) m h(1) two by linarith
  then have "unat (h + capacity q) = D + length (buffer q)" using P(3) h(1) by (simp add: unat_add_no_wrap)
  then have v: "slot_view q' = (slot_view q)(D mod length (buffer q) := (D + length (buffer q), 0))"
    using slot_view_upd [OF P(5)] h by (simp add: q')
  have n: "length (buffer q') = length (buffer q)" by (simp add: q')
  have "free128 (length (buffer q)) (D + length (buffer q)) (D + length (buffer q), 0)" by (simp add: free128_def)
  note W = window_pop [OF P(6) ne this]
  show "phys128 (Suc m) q' (Suc D) T"
    using p W(1) h by (auto simp: phys128_def n v) (auto simp: q')
  show "elems128 q D T = snd (slot_view q (D mod length (buffer q))) # elems128 q' (Suc D) T"
    using W(2) [of snd] by (simp add: elems128_def n v)
  show "slot_view q' (p mod length (buffer q)) = slot_view q (p mod length (buffer q))"
    if "Suc D \<le> p" "p < D + length (buffer q)" for p
    using W(3) [OF that] by (simp add: v)
qed

text \<open>The code's signed test of a difference is a comparison, away from the wrap-around.\<close>

lemma sint_diff_less:
  assumes "unat (s :: u64) < 2 ^ 63" and "unat (t :: u64) < 2 ^ 63"
  shows "sint (s - t) < 0 \<longleftrightarrow> unat s < unat t"
proof (cases "unat s < unat t")
  case True
  then have "unat (s - t) = unat s + 2 ^ 64 - unat t"
    using unat_sub_if_size [of s t] by (simp add: word_size)
  then show ?thesis using True assms by (simp add: sint_neg_iff)
next
  case False
  then have "unat (s - t) = unat s - unat t" by (intro unat_diff_le) simp
  with assms False show ?thesis by (simp add: sint_neg_iff)
qed

text \<open>The two entry words as the goroutines compare them.\<close>

lemma entry_seq:
  assumes "phys128 m q D T" and "m < 2 ^ 62" and "unat t \<le> T"
  defines "s \<equiv> fst (entry (buffer q ! (unat t mod length (buffer q))))"
  shows "s = t \<Longrightarrow> unat t = T \<and> T < D + length (buffer q)"
    and "unat s < unat t \<Longrightarrow> unat t = T \<and> T = D + length (buffer q)"
    and "sint (s - t) < 0 \<longleftrightarrow> unat s < unat t"
proof -
  note P = phys128D [OF assms(1)]
  have v: "fst (slot_view q (unat t mod length (buffer q))) = unat s" by (simp add: s_def slot_view_def)
  note E = enq_slot [OF assms(1,3), unfolded v]
  show "s = t \<Longrightarrow> unat t = T \<and> T < D + length (buffer q)" using E(1) by simp
  show "unat s < unat t \<Longrightarrow> unat t = T \<and> T = D + length (buffer q)" by (rule E(2))
  have two: "(2 :: nat) ^ 63 = 2 ^ 62 + 2 ^ 62" by simp
  show "sint (s - t) < 0 \<longleftrightarrow> unat s < unat t"
    by (rule sint_diff_less) (use E(3) P(2,7,9) assms(2,3) two in linarith)+
qed

lemma entry_deq:
  assumes "phys128 m q D T" and "m < 2 ^ 62" and "unat h \<le> D"
  defines "s \<equiv> fst (entry (buffer q ! (unat h mod length (buffer q))))"
  shows "s = h + 1 \<Longrightarrow> unat h = D \<and> D < T"
    and "unat s < Suc (unat h) \<Longrightarrow> unat h = D \<and> T = D"
    and "sint (s - (h + 1)) < 0 \<longleftrightarrow> unat s < Suc (unat h)"
    and "unat (h + 1) = Suc (unat h)"
proof -
  note P = phys128D [OF assms(1)]
  show h1: "unat (h + 1) = Suc (unat h)" using P(7,9) assms(2,3) by (simp add: unat_Suc_no_wrap)
  have v: "fst (slot_view q (unat h mod length (buffer q))) = unat s" by (simp add: s_def slot_view_def)
  note E = deq_slot [OF assms(1,3), unfolded v]
  show "s = h + 1 \<Longrightarrow> unat h = D \<and> D < T" using E(1) h1 by simp
  show "unat s < Suc (unat h) \<Longrightarrow> unat h = D \<and> T = D" by (rule E(2))
  have "unat h \<le> T" using P(7) assms(3) by simp
  note B = enq_slot(3) [OF assms(1) this, unfolded v]
  have two: "(2 :: nat) ^ 63 = 2 ^ 62 + 2 ^ 62" by simp
  have "sint (s - (h + 1)) < 0 \<longleftrightarrow> unat s < unat (h + 1)"
    by (rule sint_diff_less) (use B h1 P(2,7,9) assms(2,3) two in linarith)+
  then show "sint (s - (h + 1)) < 0 \<longleftrightarrow> unat s < Suc (unat h)" by (simp add: h1)
qed

lemma entry_same [simp]: "\<lparr>entry = entry s\<rparr> = s"
  by simp

lemma snd_entry: "snd (slot_view q j) = snd (entry (buffer q ! j))"
  by (simp add: slot_view_def)

section \<open>\<open>MPMCIndirectSeq\<close>\<close>

fun mpmc128_ok :: "MPMCIndirectSeq \<Rightarrow> nat \<Rightarrow> nat \<Rightarrow> mpmc128_pc \<Rightarrow> bool" where
  "mpmc128_ok q D T (VESlot x t) \<longleftrightarrow> unat t \<le> unat (tail q)"
| "mpmc128_ok q D T (VECas x t e) \<longleftrightarrow> unat t \<le> unat (tail q) \<and> fst e = t"
| "mpmc128_ok q D T (VEAdvance t) \<longleftrightarrow> unat t < T"
| "mpmc128_ok q D T (VDSlot h) \<longleftrightarrow> unat h \<le> unat (head q)"
| "mpmc128_ok q D T (VDCas h e) \<longleftrightarrow> unat h \<le> unat (head q) \<and> fst e = h + 1"
| "mpmc128_ok q D T (VDAdvance h) \<longleftrightarrow> unat h < D"
| "mpmc128_ok q D T _ \<longleftrightarrow> True"

definition mpmc128_later :: "MPMCIndirectSeq \<Rightarrow> nat \<Rightarrow> nat \<Rightarrow> MPMCIndirectSeq \<Rightarrow> nat \<Rightarrow> nat \<Rightarrow> bool" where
  "mpmc128_later q D T q' D' T' \<longleftrightarrow> unat (head q) \<le> unat (head q') \<and> unat (tail q) \<le> unat (tail q') \<and> D \<le> D' \<and> T \<le> T'
     \<and> length (buffer q') = length (buffer q)"

lemma mpmc128_ok_later: "mpmc128_ok q D T pc \<Longrightarrow> mpmc128_later q D T q' D' T' \<Longrightarrow> mpmc128_ok q' D' T' pc"
  by (cases pc) (auto simp: mpmc128_later_def)

definition mpmc128_inv :: "nat \<Rightarrow> MPMCIndirectSeq \<Rightarrow> (nat \<Rightarrow> mpmc128_pc) \<Rightarrow> bool" where
  "mpmc128_inv m q p \<longleftrightarrow> (\<exists>D T. phys128 m q D T \<and> (\<forall>i. mpmc128_ok q D T (p i)))"

definition mpmc128_elems :: "MPMCIndirectSeq \<Rightarrow> (nat \<Rightarrow> mpmc128_pc) \<Rightarrow> u64 list" where
  "mpmc128_elems q p = elems128 q (phead q) (ptail q)"

lemma mpmc128_elems_eq: "phys128 m q D T \<Longrightarrow> mpmc128_elems q p = elems128 q D T"
  by (simp add: mpmc128_elems_def phys128_phead phys128_ptail)

definition mpmc128_post
  :: "nat \<Rightarrow> MPMCIndirectSeq \<Rightarrow> nat \<Rightarrow> nat \<Rightarrow> (u64 call \<times> u64 answer) option \<Rightarrow> mpmc128_pc \<Rightarrow> MPMCIndirectSeq \<Rightarrow> bool" where
  "mpmc128_post m q D T l pc' q' \<longleftrightarrow> (\<exists>D' T'. phys128 (Suc m) q' D' T' \<and> mpmc128_ok q' D' T' pc'
     \<and> mpmc128_later q D T q' D' T' \<and> fifo_effect 0 (length (buffer q)) l (elems128 q D T) (elems128 q' D' T'))"

lemma mpmc128_postI:
  "phys128 (Suc m) q' D' T' \<Longrightarrow> mpmc128_ok q' D' T' pc' \<Longrightarrow> mpmc128_later q D T q' D' T' \<Longrightarrow>
   fifo_effect 0 (length (buffer q)) l (elems128 q D T) (elems128 q' D' T') \<Longrightarrow> mpmc128_post m q D T l pc' q'"
  unfolding mpmc128_post_def by blast

lemma mpmc128_same:
  "phys128 m q D T \<Longrightarrow> mpmc128_ok q D T pc' \<Longrightarrow>
   fifo_effect 0 (length (buffer q)) l (elems128 q D T) (elems128 q D T) \<Longrightarrow> mpmc128_post m q D T l pc' q"
  by (rule mpmc128_postI [of _ _ D T]) (auto intro: phys128_mono simp: mpmc128_later_def)

context atomix_sem
begin

lemma mpmc128_enq:
  assumes p: "phys128 m q D T" and m: "m < 2 ^ 62"
  shows "mpmc128_ok q D T (VESlot x t) \<Longrightarrow> MPMCIndirectSeq_step A (VESlot x t) q = ret (l, pc', q') \<Longrightarrow>
      mpmc128_post m q D T l pc' q'"
    and "mpmc128_ok q D T (VECas x t e) \<Longrightarrow> MPMCIndirectSeq_step A (VECas x t e) q = ret (l, pc', q') \<Longrightarrow>
      mpmc128_post m q D T l pc' q'"
    and "mpmc128_ok q D T (VEAdvance t) \<Longrightarrow> MPMCIndirectSeq_step A (VEAdvance t) q = ret (l, pc', q') \<Longrightarrow>
      mpmc128_post m q D T l pc' q'"
proof -
  note P = phys128D [OF p]
  have tT: "unat (tail q) \<le> T" using P(11) by auto
  show "mpmc128_post m q D T l pc' q'"
    if ok: "mpmc128_ok q D T (VESlot x t)" and st: "MPMCIndirectSeq_step A (VESlot x t) q = ret (l, pc', q')"
  proof -
    have t: "unat t \<le> T" using ok tT by simp
    note S = entry_seq [OF p m t]
    from st P(4,5) show ?thesis using p ok S(2,3)
      by (auto simp: Let_def split: if_splits intro!: mpmc128_same)
  qed
  show "mpmc128_post m q D T l pc' q'"
    if ok: "mpmc128_ok q D T (VECas x t e)" and st: "MPMCIndirectSeq_step A (VECas x t e) q = ret (l, pc', q')"
  proof (cases "entry (buffer q ! (unat t mod length (buffer q))) = e")
    case True
    have t: "unat t \<le> T" using ok tT by simp
    have T: "unat t = T" "T < D + length (buffer q)" using entry_seq(1) [OF p m t] True ok by auto
    then have tl: "tail q = t" using ok tT by (auto simp: word_unat_eq_iff)
    note U = phys128_push [where x = x, OF p m T(1) [symmetric] tl T(2) refl]
    from st P(4,5) True have r: "l = Some (Enqueue x, EnqueueRet None)" "pc' = VEAdvance t"
      "q' = q\<lparr>buffer := (buffer q)[unat t mod length (buffer q) := \<lparr>entry = (t + 1, x)\<rparr>]\<rparr>"
      by (simp_all add: Let_def cas128)
    show ?thesis
      by (rule mpmc128_postI [of _ _ D "Suc T"]) (use U T P(7) in \<open>simp_all add: r mpmc128_later_def\<close>)
  next
    case False
    with st p P(4,5) ok show ?thesis
      by (auto simp: Let_def cas128 intro!: mpmc128_same)
  qed
  show "mpmc128_post m q D T l pc' q'"
    if ok: "mpmc128_ok q D T (VEAdvance t)" and st: "MPMCIndirectSeq_step A (VEAdvance t) q = ret (l, pc', q')"
  proof (cases "tail q = t")
    case True
    then have "unat (t + 1) = Suc (unat t)" using tT P(9) m by (simp add: unat_Suc_no_wrap)
    moreover from this True ok P(11) have "T = unat (t + 1)" by auto
    moreover from st True have "l = None" "pc' = VIdle" "q' = q\<lparr>tail := t + 1\<rparr>" by (simp_all add: cas64)
    ultimately show ?thesis using True phys128_mono [OF phys128_tail [OF p], of "t + 1" "Suc m"]
      by (intro mpmc128_postI [of _ _ D T]) (simp_all add: mpmc128_later_def)
  next
    case False
    with st p show ?thesis by (auto simp: cas64 intro!: mpmc128_same)
  qed
qed

lemma mpmc128_deq:
  assumes p: "phys128 m q D T" and m: "m < 2 ^ 62"
  shows "mpmc128_ok q D T (VDSlot h) \<Longrightarrow> MPMCIndirectSeq_step A (VDSlot h) q = ret (l, pc', q') \<Longrightarrow>
      mpmc128_post m q D T l pc' q'"
    and "mpmc128_ok q D T (VDCas h e) \<Longrightarrow> MPMCIndirectSeq_step A (VDCas h e) q = ret (l, pc', q') \<Longrightarrow>
      mpmc128_post m q D T l pc' q'"
    and "mpmc128_ok q D T (VDAdvance h) \<Longrightarrow> MPMCIndirectSeq_step A (VDAdvance h) q = ret (l, pc', q') \<Longrightarrow>
      mpmc128_post m q D T l pc' q'"
proof -
  note P = phys128D [OF p]
  have hD: "unat (head q) \<le> D" using P(10) by auto
  show "mpmc128_post m q D T l pc' q'"
    if ok: "mpmc128_ok q D T (VDSlot h)" and st: "MPMCIndirectSeq_step A (VDSlot h) q = ret (l, pc', q')"
  proof -
    have h: "unat h \<le> D" using ok hD by simp
    note S = entry_deq [OF p m h]
    have e: "elems128 q D T = [] \<longleftrightarrow> T \<le> D" by (metis diff_is_0_eq length_0_conv length_elems128)
    from st P(4,5) show ?thesis using p ok S(2,3) e
      by (auto simp: Let_def split: if_splits intro!: mpmc128_same)
  qed
  show "mpmc128_post m q D T l pc' q'"
    if ok: "mpmc128_ok q D T (VDCas h e)" and st: "MPMCIndirectSeq_step A (VDCas h e) q = ret (l, pc', q')"
  proof (cases "entry (buffer q ! (unat h mod length (buffer q))) = e")
    case True
    have h: "unat h \<le> D" using ok hD by simp
    have D: "unat h = D" "D < T" using entry_deq(1) [OF p m h] True ok by auto
    then have hd: "head q = h" using ok hD by (auto simp: word_unat_eq_iff)
    note U = phys128_pop [OF p m D(1) [symmetric] hd D(2) refl]
    have v: "snd (slot_view q (D mod length (buffer q))) = snd e" using True D by (simp add: snd_entry)
    from st P(4,5) True have r: "l = Some (Dequeue, DequeueRet (snd e) None)" "pc' = VDAdvance h"
      "q' = q\<lparr>buffer := (buffer q)[unat h mod length (buffer q) := \<lparr>entry = (h + capacity q, 0)\<rparr>]\<rparr>"
      by (simp_all add: Let_def cas128)
    show ?thesis
      by (rule mpmc128_postI [of _ _ "Suc D" T]) (use U D v in \<open>simp_all add: r mpmc128_later_def\<close>)
  next
    case False
    with st p P(4,5) ok show ?thesis
      by (auto simp: Let_def cas128 intro!: mpmc128_same)
  qed
  show "mpmc128_post m q D T l pc' q'"
    if ok: "mpmc128_ok q D T (VDAdvance h)" and st: "MPMCIndirectSeq_step A (VDAdvance h) q = ret (l, pc', q')"
  proof (cases "head q = h")
    case True
    then have "unat (h + 1) = Suc (unat h)" using hD P(7,9) m by (simp add: unat_Suc_no_wrap)
    moreover from this True ok P(10) have "D = unat (h + 1)" by auto
    moreover from st True have "l = None" "pc' = VIdle" "q' = q\<lparr>head := h + 1\<rparr>" by (simp_all add: cas64)
    ultimately show ?thesis using True phys128_mono [OF phys128_head [OF p], of "h + 1" "Suc m"]
      by (intro mpmc128_postI [of _ _ D T]) (simp_all add: mpmc128_later_def)
  next
    case False
    with st p show ?thesis by (auto simp: cas64 intro!: mpmc128_same)
  qed
qed

lemma mpmc128_run:
  assumes p: "phys128 m q D T" and m: "m < 2 ^ 62" and ok: "mpmc128_ok q D T pc"
    and st: "MPMCIndirectSeq_step A pc q = ret (l, pc', q')"
  shows "mpmc128_post m q D T l pc' q'"
proof (cases pc)
  case VIdle
  with st p show ?thesis by (auto intro!: mpmc128_same)
next
  case VETail
  with st p show ?thesis by (auto intro!: mpmc128_same)
next
  case VDHead
  with st p show ?thesis by (auto intro!: mpmc128_same)
qed (use ok st mpmc128_enq [OF p m] mpmc128_deq [OF p m] in metis)+

end

sublocale atomix_sem < mpmc128: go_linearization "MPMCIndirectSeq_step A" VIdle VETail VDHead "\<lambda>_. True" "\<lambda>_. True"
    mpmc128_inv mpmc128_elems "\<lambda>q. length (buffer q)" 0 "2 ^ 62"
proof
  show "mpmc128_inv (Suc m) q (p(i := VETail x))" "mpmc128_inv (Suc m) q (p(i := VDHead))" if "mpmc128_inv m q p" for m q p i x
    using that phys128_mono [of m q _ _ "Suc m"] by (fastforce simp: mpmc128_inv_def)+
  fix m q p i l pc' q'
  assume I: "mpmc128_inv m q p" and m: "m < 2 ^ 62" and st: "MPMCIndirectSeq_step A (p i) q = ret (l, pc', q')"
  from I obtain D T where P: "phys128 m q D T" "\<And>i. mpmc128_ok q D T (p i)" by (auto simp: mpmc128_inv_def)
  from mpmc128_run [OF P(1) m P(2) st] obtain D' T' where Q: "phys128 (Suc m) q' D' T'" "mpmc128_ok q' D' T' pc'"
      "mpmc128_later q D T q' D' T'" "fifo_effect 0 (length (buffer q)) l (elems128 q D T) (elems128 q' D' T')"
    by (auto simp: mpmc128_post_def)
  have "mpmc128_ok q' D' T' ((p(i := pc')) j)" for j
    using Q(2) mpmc128_ok_later [OF P(2) Q(3)] by simp
  with Q(1) have "mpmc128_inv (Suc m) q' (p(i := pc'))" unfolding mpmc128_inv_def by blast
  with Q show "mpmc128_inv (Suc m) q' (p(i := pc')) \<and> length (buffer q') = length (buffer q)
    \<and> fifo_effect 0 (length (buffer q)) l (mpmc128_elems q p) (mpmc128_elems q' (p(i := pc')))"
    by (simp add: mpmc128_elems_eq [OF P(1)] mpmc128_elems_eq [OF Q(1)] mpmc128_later_def)
qed (simp_all add: mpmc128_elems_def)

context atomix_sem
begin

lemmas mpmc128_exec_linearizes = mpmc128.lin.exec_linearizes
lemmas mpmc128_exec_inv = mpmc128.lin.exec_inv(1)

end

section \<open>A new queue\<close>

lemma NewMPMCIndirectSeq_phys:
  assumes q: "NewMPMCIndirectSeq c = ret q" and c: "2 \<le> sint c" "sint c \<le> 2 ^ 62"
  shows "phys128 0 q 0 0" and "length (buffer q) = unat (roundToPow2 c)" and "elems128 q 0 0 = []"
proof -
  from NewMPMCIndirectSeq_ok [OF c] q have ok: "seqq_inv (2 ^ 63) (seq128_abs q)" "capacity q = roundToPow2 c" by auto
  then obtain k where k: "seqq_shape k (seq128_abs q)" by (auto simp: seqq_inv_def seqq_ok_def)
  show n: "length (buffer q) = unat (roundToPow2 c)" using seqq_length [OF k] ok(2) by simp
  let ?n = "unat (roundToPow2 c)"
  have b: "head q = 0" "tail q = 0" "buffer q = map (\<lambda>i. \<lparr>entry = (of_nat i, 0)\<rparr>) [0..<?n]"
    using q c fold_init_replicate [of "\<lambda>i _. \<lparr>entry = (of_nat i, 0)\<rparr>" ?n "\<lparr>entry = (0, 0)\<rparr>"]
    by (auto simp: NewMPMCIndirectSeq_def make_slice_def Let_def split: if_splits)
  have "fst (slot_view q j) = j" if "j < ?n" for j
    using that order_less_trans [OF that unat_u64_lt] by (simp add: slot_view_def b unat_of_nat_u64)
  then have "window full128 free128 (length (buffer q)) 0 0 (slot_view q)"
    by (simp add: window_def free128_def n)
  with k show "phys128 0 q 0 0" by (auto simp: phys128_def b)
  show "elems128 q 0 0 = []" by (simp add: elems128_def)
qed

text \<open>No access is out of range.\<close>

lemma MPMCIndirectSeq_step_ret:
  "phys128 m q D T \<Longrightarrow> \<exists>r. MPMCIndirectSeq_step A pc q = ret r"
  using phys128D(4,5) [of m q D T] by (cases pc) (auto simp: Let_def case_prod_beta split: if_splits prod.splits)

section \<open>A stalled goroutine\<close>

text \<open>
  While a producer that has filled its entry has not advanced the tail, every other producer finds
  the entry taken and tries again; likewise for consumers and the head.
\<close>

fun stuck_enq :: "u64 \<Rightarrow> mpmc128_pc \<Rightarrow> bool" where
  "stuck_enq t (VESlot x t') \<longleftrightarrow> t' = t"
| "stuck_enq t (VECas x t' e) \<longleftrightarrow> False"
| "stuck_enq t (VEAdvance t') \<longleftrightarrow> False"
| "stuck_enq t _ \<longleftrightarrow> True"

fun stuck_deq :: "u64 \<Rightarrow> mpmc128_pc \<Rightarrow> bool" where
  "stuck_deq h (VDSlot h') \<longleftrightarrow> h' = h"
| "stuck_deq h (VDCas h' e) \<longleftrightarrow> False"
| "stuck_deq h (VDAdvance h') \<longleftrightarrow> False"
| "stuck_deq h _ \<longleftrightarrow> True"

lemma stuck_enq_step:
  assumes p: "phys128 m q D T" and m: "m < 2 ^ 62" and T: "T = Suc (unat (tail q))"
    and s: "stuck_enq (tail q) pc" and st: "MPMCIndirectSeq_step A pc q = ret (l, pc', q')"
  shows "tail q' = tail q \<and> stuck_enq (tail q) pc' \<and> (\<forall>x a. l \<noteq> Some (Enqueue x, a))"
proof (cases pc)
  case (VESlot x t)
  note P = phys128D [OF p]
  have t: "t = tail q" "unat t \<le> T" using s T VESlot by simp_all
  note S = entry_seq [OF p m t(2)]
  let ?s = "fst (entry (buffer q ! (unat t mod length (buffer q))))"
  have "?s \<noteq> t" "\<not> sint (?s - t) < 0" using S T t(1) by auto
  with st VESlot P(4,5) show ?thesis by (auto simp: Let_def)
qed (use s st in \<open>auto simp: Let_def split: if_splits prod.splits\<close>)

lemma stuck_deq_step:
  assumes p: "phys128 m q D T" and m: "m < 2 ^ 62" and D: "D = Suc (unat (head q))"
    and s: "stuck_deq (head q) pc" and st: "MPMCIndirectSeq_step A pc q = ret (l, pc', q')"
  shows "head q' = head q \<and> stuck_deq (head q) pc' \<and> (\<forall>a. l \<noteq> Some (Dequeue, a))"
proof (cases pc)
  case (VDSlot h)
  note P = phys128D [OF p]
  have h: "h = head q" "unat h \<le> D" using s D VDSlot by simp_all
  note S = entry_deq [OF p m h(2)]
  let ?s = "fst (entry (buffer q ! (unat h mod length (buffer q))))"
  have "?s \<noteq> h + 1" "\<not> sint (?s - (h + 1)) < 0" using S D h(1) by auto
  with st VDSlot P(4,5) show ?thesis by (auto simp: Let_def)
qed (use s st in \<open>auto simp: Let_def split: if_splits prod.splits\<close>)

abbreviation mpmc128_step where
  "mpmc128_step A \<equiv> go_step (MPMCIndirectSeq_step A) VIdle VETail VDHead (\<lambda>_. True) (\<lambda>_. True)"

context atomix_sem
begin

lemma stalled:
  assumes run: "exec (others i (mpmc128_step A)) c m' ls c'"
    and inv: "mpmc128_inv m (memory c) (at_pc c)" and m: "m + m' \<le> 2 ^ 62"
    and moves: "\<And>q l pc' q'. MPMCIndirectSeq_step A (at_pc c i) q = ret (l, pc', q') \<Longrightarrow> pc' \<noteq> at_pc c i" and K: "K (memory c)" and S: "\<And>j. j \<noteq> i \<Longrightarrow> S (at_pc c j)"
    and call: "\<And>x. S (VETail x)" "S VDHead"
    and keep: "\<And>n q D T pc l pc' q'. phys128 n q D T \<Longrightarrow> n < 2 ^ 62 \<Longrightarrow> mpmc128_ok q D T (at_pc c i) \<Longrightarrow> K q \<Longrightarrow>
      S pc \<Longrightarrow> MPMCIndirectSeq_step A pc q = ret (l, pc', q') \<Longrightarrow> K q' \<and> S pc' \<and> (\<forall>a. l = Some a \<longrightarrow> L a)"
  shows "(\<forall>a \<in> set ls. L a) \<and> K (memory c')"
proof -
  define J where "J k ls d \<longleftrightarrow> mpmc128_inv (m + k) (memory d) (at_pc d) \<and> K (memory d)
    \<and> at_pc d i = at_pc c i \<and> (\<forall>j. j \<noteq> i \<longrightarrow> S (at_pc d j)) \<and> (\<forall>a \<in> set ls. L a)"
    for k and ls :: "(u64 call \<times> u64 answer) list" and d :: "(MPMCIndirectSeq, mpmc128_pc) goroutines"
  have "J m' ls c'"
  proof (rule exec_trace_invariant [OF run, where P = J and bound = m'])
    show "J 0 [] c" using inv K S by (simp add: J_def)
    fix k ls d l d'
    assume J: "J k ls d" and k: "k < m'" and "others i (mpmc128_step A) d l d'"
    then have step: "mpmc128_step A d l d'" and same: "at_pc d' i = at_pc d i" by (simp_all add: others_def)
    from k m have mk: "m + k < 2 ^ 62" by simp
    from J have I: "mpmc128_inv (m + k) (memory d) (at_pc d)" and Kd: "K (memory d)" and i: "at_pc d i = at_pc c i"
        and o: "\<And>j. j \<noteq> i \<Longrightarrow> S (at_pc d j)" and ls: "\<forall>a \<in> set ls. L a"
      by (auto simp: J_def)
    note I' = mpmc128.lin.step_inv [OF I mk step]
    from I obtain D T where P: "phys128 (m + k) (memory d) D T" "\<And>j. mpmc128_ok (memory d) D T (at_pc d j)"
      by (auto simp: mpmc128_inv_def)
    from P(2) [of i] i have ok: "mpmc128_ok (memory d) D T (at_pc c i)" by simp
    from step have "K (memory d') \<and> (\<forall>j. j \<noteq> i \<longrightarrow> S (at_pc d' j)) \<and> (\<forall>a. l = Some a \<longrightarrow> L a)"
    proof cases
      case (go_run j pc' q')
      have "j \<noteq> i" using moves go_run same i by auto
      from keep [OF P(1) mk ok Kd o [OF this] go_run(3)] o go_run(1) show ?thesis by auto
    qed (use o Kd call in auto)
    then show "J (Suc k) (append_label ls l) d'" unfolding J_def
      using I' i same ls by (cases l) auto
  qed simp
  then show ?thesis by (simp add: J_def)
qed

lemma stalled_producer:
  assumes "exec (others i (mpmc128_step A)) c m' ls c'"
    and "mpmc128_inv m (memory c) (at_pc c)" and "m + m' \<le> 2 ^ 62"
    and "at_pc c i = VEAdvance (tail (memory c))" and "\<And>j. j \<noteq> i \<Longrightarrow> at_pc c j = VIdle"
  shows "(\<forall>a \<in> set ls. fst a = Dequeue) \<and> tail (memory c') = tail (memory c)"
proof (rule stalled [OF assms(1-3), where S = "stuck_enq (tail (memory c))" and K = "\<lambda>q. tail q = tail (memory c)"])
  fix n q D T pc l pc' q'
  assume p: "phys128 n q D T" "n < 2 ^ 62" and ok: "mpmc128_ok q D T (at_pc c i)" and t: "tail q = tail (memory c)"
    and st: "stuck_enq (tail (memory c)) pc" "MPMCIndirectSeq_step A pc q = ret (l, pc', q')"
  from ok t assms(4) phys128D(11) [OF p(1)] have "T = Suc (unat (tail q))" by auto
  from stuck_enq_step [OF p this _ st(2)] st(1) t
  show "tail q' = tail (memory c) \<and> stuck_enq (tail (memory c)) pc' \<and> (\<forall>a. l = Some a \<longrightarrow> fst a = Dequeue)"
    by (auto, metis call.exhaust)
qed (use assms(4,5) in simp_all)

lemma stalled_consumer:
  assumes "exec (others i (mpmc128_step A)) c m' ls c'"
    and "mpmc128_inv m (memory c) (at_pc c)" and "m + m' \<le> 2 ^ 62"
    and "at_pc c i = VDAdvance (head (memory c))" and "\<And>j. j \<noteq> i \<Longrightarrow> at_pc c j = VIdle"
  shows "(\<forall>a \<in> set ls. fst a \<noteq> Dequeue) \<and> head (memory c') = head (memory c)"
proof (rule stalled [OF assms(1-3), where S = "stuck_deq (head (memory c))" and K = "\<lambda>q. head q = head (memory c)"])
  fix n q D T pc l pc' q'
  assume p: "phys128 n q D T" "n < 2 ^ 62" and ok: "mpmc128_ok q D T (at_pc c i)" and h: "head q = head (memory c)"
    and st: "stuck_deq (head (memory c)) pc" "MPMCIndirectSeq_step A pc q = ret (l, pc', q')"
  from ok h assms(4) phys128D(10) [OF p(1)] have "D = Suc (unat (head q))" by auto
  from stuck_deq_step [OF p this _ st(2)] st(1) h
  show "head q' = head (memory c) \<and> stuck_deq (head (memory c)) pc' \<and> (\<forall>a. l = Some a \<longrightarrow> fst a \<noteq> Dequeue)"
    by auto
qed (use assms(4,5) in simp_all)

end

section \<open>A call alone\<close>

context atomix_sem
begin

lemma MPMCIndirectSeq_steps:
  assumes ok: "seqq_ok (seq128_abs q)"
  shows "run_alone (MPMCIndirectSeq_step A) VIdle None (VETail x) q
      = go_bind (MPMCIndirectSeq_Enqueue A x q) (\<lambda>(e, q'). ret (Some (Enqueue x, EnqueueRet e), q'))"
    and "run_alone (MPMCIndirectSeq_step A) VIdle None VDHead q
      = go_bind (MPMCIndirectSeq_Dequeue A q) (\<lambda>((v, e), q'). ret (Some (Dequeue, DequeueRet v e), q'))"
proof -
  from ok obtain k where s: "seqq_shape k (seq128_abs q)" by (auto simp: seqq_ok_def)
  show "run_alone (MPMCIndirectSeq_step A) VIdle None (VETail x) q
      = go_bind (MPMCIndirectSeq_Enqueue A x q) (\<lambda>(e, q'). ret (Some (Enqueue x, EnqueueRet e), q'))"
    by (cases rule: seq128_enq_cases [OF ok s])
      (subst MPMCIndirectSeq_Enqueue.simps, simp add: run_alone_simps Let_def rmw)+
  show "run_alone (MPMCIndirectSeq_step A) VIdle None VDHead q
      = go_bind (MPMCIndirectSeq_Dequeue A q) (\<lambda>((v, e), q'). ret (Some (Dequeue, DequeueRet v e), q'))"
    by (cases rule: seq128_deq_cases [OF ok s])
      (subst MPMCIndirectSeq_Dequeue.simps, simp add: run_alone_simps Let_def rmw minus_1_neg)+
qed

end

text \<open>The smallest queue.\<close>

lemma NewMPMCIndirectSeq_2:
  "NewMPMCIndirectSeq 2 = ret \<lparr>tail = 0, head = 0, buffer = [\<lparr>entry = (0, 0)\<rparr>, \<lparr>entry = (1, 0)\<rparr>], mask_q = 1, capacity = 2\<rparr>"
proof -
  have "[0..<2] = [0, 1]" "replicate 2 z = [z, z]" for z :: mpmc128SeqSlot by (simp_all add: upt_rec numeral_2_eq_2)
  then show ?thesis by (simp add: roundToPow2_2 NewMPMCIndirectSeq_def make_slice_def)
qed

end
