(* ===== verification/Seq128_OneSided.thy ===== *)
theory Seq128_OneSided
  imports Seq128_Concurrent
begin

text \<open>
  Goroutines interleaved on the one-sided CAS-based queues with 128-bit entries:
  \<open>MPSCIndirectSeq\<close> (\<open>mpsc_128_seq.go\<close>) and \<open>SPMCIndirectSeq\<close> (\<open>spmc_128_seq.go\<close>); the pointer variants
  run the same code. The side with one goroutine stores into the entry and publishes its index in
  a second step, at which its operation takes effect; the other side works as in
  \<open>MPMCIndirectSeq\<close>. The goroutine of the single side is number 0.
\<close>

section \<open>Atomic steps\<close>

text \<open>\<open>MPSCIndirectSeq\<close>: any number of producers, one consumer.\<close>

datatype mpsc128_pc = WIdle
  | WETail u64 | WEHead u64 u64 | WESlot u64 u64 | WECas u64 u64 "u64 \<times> u64" | WEAdvance u64
  | WDHead | WDSlot u64 | WDStore u64 u64 | WDPublish u64 u64

fun MPSCIndirectSeq_step :: "atomix \<Rightarrow> mpsc128_pc \<Rightarrow> MPSCIndirectSeq
    \<Rightarrow> ((u64 call \<times> u64 answer) option \<times> mpsc128_pc \<times> MPSCIndirectSeq) go" where
  "MPSCIndirectSeq_step A WIdle q = ret (None, WIdle, q)"
| "MPSCIndirectSeq_step A (WETail elem) q = ret (None, WEHead elem (tail q), q)"
| "MPSCIndirectSeq_step A (WEHead elem t) q =
     (if t \<ge> head q + capacity q then ret (Some (Enqueue elem, EnqueueRet (Some ErrWouldBlock)), WIdle, q)
      else ret (None, WESlot elem t, q))"
| "MPSCIndirectSeq_step A (WESlot elem t) q =
     (let i = unat (t AND mask_q q)
      in if \<not> i < length (buffer q) then panics IndexOutOfRange
         else let e = entry (buffer q ! i)
           in if fst e = t then ret (None, WECas elem t e, q)
              else if fst e < t then ret (Some (Enqueue elem, EnqueueRet (Some ErrWouldBlock)), WIdle, q)
              else ret (None, WETail elem, q))"
| "MPSCIndirectSeq_step A (WECas elem t e) q =
     (let i = unat (t AND mask_q q)
      in if \<not> i < length (buffer q) then panics IndexOutOfRange
         else case CompareAndSwap128 A (entry (buffer q ! i)) e (t + 1, elem) of (swapped, cell) \<Rightarrow>
           let q = q\<lparr>buffer := (buffer q)[i := \<lparr>entry = cell\<rparr>]\<rparr>
           in if swapped then ret (Some (Enqueue elem, EnqueueRet None), WEAdvance t, q)
              else ret (None, WETail elem, q))"
| "MPSCIndirectSeq_step A (WEAdvance t) q =
     ret (None, WIdle, q\<lparr>tail := snd (CompareAndSwap64 A (tail q) t (t + 1))\<rparr>)"
| "MPSCIndirectSeq_step A WDHead q = ret (None, WDSlot (head q), q)"
| "MPSCIndirectSeq_step A (WDSlot h) q =
     (let i = unat (h AND mask_q q)
      in if \<not> i < length (buffer q) then panics IndexOutOfRange
         else let (seqLo, valHi) = entry (buffer q ! i)
           in if seqLo \<noteq> h + 1 then ret (Some (Dequeue, DequeueRet 0 (Some ErrWouldBlock)), WIdle, q)
              else ret (None, WDStore h valHi, q))"
| "MPSCIndirectSeq_step A (WDStore h v) q =
     (let i = unat (h AND mask_q q)
      in if \<not> i < length (buffer q) then panics IndexOutOfRange
         else ret (None, WDPublish h v, q\<lparr>buffer := (buffer q)[i := \<lparr>entry = (h + capacity q, 0)\<rparr>]\<rparr>))"
| "MPSCIndirectSeq_step A (WDPublish h v) q =
     ret (Some (Dequeue, DequeueRet v None), WIdle, q\<lparr>head := h + 1\<rparr>)"

text \<open>\<open>SPMCIndirectSeq\<close>: one producer, any number of consumers.\<close>

datatype spmc128_pc = UIdle
  | UETail u64 | UESlot u64 u64 | UEStore u64 u64 | UEPublish u64 u64
  | UDHead | UDTail u64 | UDSlot u64 | UDCas u64 "u64 \<times> u64" | UDAdvance u64

fun SPMCIndirectSeq_step :: "atomix \<Rightarrow> spmc128_pc \<Rightarrow> SPMCIndirectSeq
    \<Rightarrow> ((u64 call \<times> u64 answer) option \<times> spmc128_pc \<times> SPMCIndirectSeq) go" where
  "SPMCIndirectSeq_step A UIdle q = ret (None, UIdle, q)"
| "SPMCIndirectSeq_step A (UETail elem) q = ret (None, UESlot elem (tail q), q)"
| "SPMCIndirectSeq_step A (UESlot elem t) q =
     (let i = unat (t AND mask_q q)
      in if \<not> i < length (buffer q) then panics IndexOutOfRange
         else let (seqLo, _) = entry (buffer q ! i)
           in if seqLo \<noteq> t then ret (Some (Enqueue elem, EnqueueRet (Some ErrWouldBlock)), UIdle, q)
              else ret (None, UEStore elem t, q))"
| "SPMCIndirectSeq_step A (UEStore elem t) q =
     (let i = unat (t AND mask_q q)
      in if \<not> i < length (buffer q) then panics IndexOutOfRange
         else ret (None, UEPublish elem t, q\<lparr>buffer := (buffer q)[i := \<lparr>entry = (t + 1, elem)\<rparr>]\<rparr>))"
| "SPMCIndirectSeq_step A (UEPublish elem t) q =
     ret (Some (Enqueue elem, EnqueueRet None), UIdle, q\<lparr>tail := t + 1\<rparr>)"
| "SPMCIndirectSeq_step A UDHead q = ret (None, UDTail (head q), q)"
| "SPMCIndirectSeq_step A (UDTail h) q =
     (if h \<ge> tail q then ret (Some (Dequeue, DequeueRet 0 (Some ErrWouldBlock)), UIdle, q)
      else ret (None, UDSlot h, q))"
| "SPMCIndirectSeq_step A (UDSlot h) q =
     (let i = unat (h AND mask_q q)
      in if \<not> i < length (buffer q) then panics IndexOutOfRange
         else let e = entry (buffer q ! i)
           in if fst e = h + 1 then ret (None, UDCas h e, q)
              else if fst e < h + 1 then ret (Some (Dequeue, DequeueRet 0 (Some ErrWouldBlock)), UIdle, q)
              else ret (None, UDHead, q))"
| "SPMCIndirectSeq_step A (UDCas h e) q =
     (let i = unat (h AND mask_q q)
      in if \<not> i < length (buffer q) then panics IndexOutOfRange
         else case CompareAndSwap128 A (entry (buffer q ! i)) e (h + capacity q, 0) of (swapped, cell) \<Rightarrow>
           let q = q\<lparr>buffer := (buffer q)[i := \<lparr>entry = cell\<rparr>]\<rparr>
           in if swapped then ret (Some (Dequeue, DequeueRet (snd e) None), UDAdvance h, q)
              else ret (None, UDHead, q))"
| "SPMCIndirectSeq_step A (UDAdvance h) q =
     ret (None, UIdle, q\<lparr>head := snd (CompareAndSwap64 A (head q) h (h + 1))\<rparr>)"

section \<open>\<open>MPSCIndirectSeq\<close>\<close>

text \<open>
  The consumer is goroutine 0. Having emptied the slot it still owes the new head; until then the
  value it carries counts as the first element of the queue.
\<close>

fun mpsc128_ok :: "MPSCIndirectSeq \<Rightarrow> nat \<Rightarrow> mpsc128_pc \<Rightarrow> bool" where
  "mpsc128_ok q T (WEHead x t) \<longleftrightarrow> unat t \<le> unat (tail q)"
| "mpsc128_ok q T (WESlot x t) \<longleftrightarrow> unat t \<le> unat (tail q) \<and> unat t < unat (head q) + length (buffer q)"
| "mpsc128_ok q T (WECas x t e) \<longleftrightarrow> unat t \<le> unat (tail q) \<and> unat t < unat (head q) + length (buffer q) \<and> fst e = t"
| "mpsc128_ok q T (WEAdvance t) \<longleftrightarrow> unat t < T"
| "mpsc128_ok q T _ \<longleftrightarrow> True"

fun mpsc128_consuming :: "mpsc128_pc \<Rightarrow> bool" where
  "mpsc128_consuming WDHead \<longleftrightarrow> True"
| "mpsc128_consuming (WDSlot h) \<longleftrightarrow> True"
| "mpsc128_consuming (WDStore h v) \<longleftrightarrow> True"
| "mpsc128_consuming (WDPublish h v) \<longleftrightarrow> True"
| "mpsc128_consuming _ \<longleftrightarrow> False"

fun mpsc128_pending :: "mpsc128_pc \<Rightarrow> u64 list" where
  "mpsc128_pending (WDPublish h v) = [v]"
| "mpsc128_pending _ = []"

fun mpsc128_cons :: "MPSCIndirectSeq \<Rightarrow> nat \<Rightarrow> nat \<Rightarrow> mpsc128_pc \<Rightarrow> bool" where
  "mpsc128_cons q D T (WDSlot h) \<longleftrightarrow> h = head q"
| "mpsc128_cons q D T (WDStore h v) \<longleftrightarrow> h = head q \<and> D < T \<and> snd (slot_view q (D mod length (buffer q))) = v"
| "mpsc128_cons q D T (WDPublish h v) \<longleftrightarrow> h = head q"
| "mpsc128_cons q D T _ \<longleftrightarrow> True"

definition mpsc128_base :: "nat \<Rightarrow> MPSCIndirectSeq \<Rightarrow> nat \<Rightarrow> nat \<Rightarrow> u64 list \<Rightarrow> bool" where
  "mpsc128_base m q D T xs \<longleftrightarrow> phys128 m q D T \<and> T \<le> unat (head q) + length (buffer q) \<and> D = unat (head q) + length xs"

definition mpsc128_inv :: "nat \<Rightarrow> MPSCIndirectSeq \<Rightarrow> (nat \<Rightarrow> mpsc128_pc) \<Rightarrow> bool" where
  "mpsc128_inv m q p \<longleftrightarrow> (\<exists>D T. mpsc128_base m q D T (mpsc128_pending (p 0)) \<and> mpsc128_cons q D T (p 0)
     \<and> (\<forall>i. mpsc128_ok q T (p i) \<and> (mpsc128_consuming (p i) \<longrightarrow> i = 0)))"

definition mpsc128_elems :: "MPSCIndirectSeq \<Rightarrow> (nat \<Rightarrow> mpsc128_pc) \<Rightarrow> u64 list" where
  "mpsc128_elems q p = mpsc128_pending (p 0) @ elems128 q (phead q) (ptail q)"

lemma mpsc128_elems_eq: "mpsc128_base m q D T xs \<Longrightarrow> mpsc128_elems q p = mpsc128_pending (p 0) @ elems128 q D T"
  unfolding mpsc128_elems_def mpsc128_base_def by (metis phys128_phead phys128_ptail)

lemma mpsc128_base_mono: "mpsc128_base m q D T xs \<Longrightarrow> mpsc128_base (Suc m) q D T xs"
  by (auto simp: mpsc128_base_def intro: phys128_mono)

lemma mpsc128_ok_later:
  assumes "mpsc128_ok q T pc" and "unat (head q) \<le> unat (head q')" and "unat (tail q) \<le> unat (tail q')" and "T \<le> T'"
    and "length (buffer q') = length (buffer q)"
  shows "mpsc128_ok q' T' pc"
  using assms by (cases pc) auto

definition mpsc128_epost
  :: "nat \<Rightarrow> MPSCIndirectSeq \<Rightarrow> nat \<Rightarrow> nat \<Rightarrow> u64 list \<Rightarrow> (u64 call \<times> u64 answer) option \<Rightarrow> mpsc128_pc \<Rightarrow> MPSCIndirectSeq \<Rightarrow> bool" where
  "mpsc128_epost m q D T xs l pc' q' \<longleftrightarrow> (\<exists>T'. mpsc128_base (Suc m) q' D T' xs \<and> mpsc128_ok q' T' pc'
     \<and> \<not> mpsc128_consuming pc' \<and> head q' = head q \<and> unat (tail q) \<le> unat (tail q') \<and> T \<le> T' \<and> length (buffer q') = length (buffer q)
     \<and> (\<forall>p. D \<le> p \<longrightarrow> p < T \<longrightarrow> slot_view q' (p mod length (buffer q)) = slot_view q (p mod length (buffer q)))
     \<and> fifo_effect 0 (length (buffer q)) l (xs @ elems128 q D T) (xs @ elems128 q' D T'))"

lemma mpsc128_esame:
  "mpsc128_base m q D T xs \<Longrightarrow> mpsc128_ok q T pc' \<Longrightarrow> \<not> mpsc128_consuming pc' \<Longrightarrow>
   fifo_effect 0 (length (buffer q)) l (xs @ elems128 q D T) (xs @ elems128 q D T) \<Longrightarrow> mpsc128_epost m q D T xs l pc' q"
  unfolding mpsc128_epost_def by (rule exI [of _ T]) (simp add: mpsc128_base_mono)

context atomix_sem
begin

lemma mpsc128_enq:
  assumes b: "mpsc128_base m q D T xs" and m: "m < 2 ^ 62"
  shows "mpsc128_ok q T (WEHead x t) \<Longrightarrow> MPSCIndirectSeq_step A (WEHead x t) q = ret (l, pc', q') \<Longrightarrow>
      mpsc128_epost m q D T xs l pc' q'"
    and "mpsc128_ok q T (WESlot x t) \<Longrightarrow> MPSCIndirectSeq_step A (WESlot x t) q = ret (l, pc', q') \<Longrightarrow>
      mpsc128_epost m q D T xs l pc' q'"
proof -
  from b have p: "phys128 m q D T" and TH: "T \<le> unat (head q) + length (buffer q)" and D: "D = unat (head q) + length xs"
    by (auto simp: mpsc128_base_def)
  note P = phys128D [OF p]
  have tT: "unat (tail q) \<le> T" using P(11) by auto
  have two: "(2 :: nat) ^ 62 + 2 ^ 62 < 2 ^ 64" by simp
  show "mpsc128_epost m q D T xs l pc' q'"
    if ok: "mpsc128_ok q T (WEHead x t)" and st: "MPSCIndirectSeq_step A (WEHead x t) q = ret (l, pc', q')"
  proof -
    have "unat (head q) + unat (capacity q) < 2 ^ 64" using P(2,3,7,9) m D two by linarith
    then have c: "head q + capacity q \<le> t \<longleftrightarrow> unat (head q) + length (buffer q) \<le> unat t"
      by (simp add: word_le_nat_alt unat_add_no_wrap P(3))
    show ?thesis
    proof (cases "head q + capacity q \<le> t")
      case True
      then have "T = unat (head q) + length (buffer q)" using c TH ok tT by simp
      then have "\<not> length (xs @ elems128 q D T) < length (buffer q)" using D P(7) by simp
      with st b True show ?thesis by (auto intro!: mpsc128_esame)
    next
      case False
      with c st b ok show ?thesis by (auto intro!: mpsc128_esame)
    qed
  qed
  show "mpsc128_epost m q D T xs l pc' q'"
    if ok: "mpsc128_ok q T (WESlot x t)" and st: "MPSCIndirectSeq_step A (WESlot x t) q = ret (l, pc', q')"
  proof -
    have t: "unat t \<le> T" using ok tT by simp
    have "\<not> fst (entry (buffer q ! (unat t mod length (buffer q)))) < t"
      using entry_seq(2) [OF p m t] ok D by (auto simp: word_less_nat_alt)
    with st b P(4,5) ok show ?thesis by (auto simp: Let_def split: if_splits intro!: mpsc128_esame)
  qed
qed

lemma mpsc128_enq_cas:
  assumes b: "mpsc128_base m q D T xs" and m: "m < 2 ^ 62"
  shows "mpsc128_ok q T (WECas x t e) \<Longrightarrow> MPSCIndirectSeq_step A (WECas x t e) q = ret (l, pc', q') \<Longrightarrow>
      mpsc128_epost m q D T xs l pc' q'"
    and "mpsc128_ok q T (WEAdvance t) \<Longrightarrow> MPSCIndirectSeq_step A (WEAdvance t) q = ret (l, pc', q') \<Longrightarrow>
      mpsc128_epost m q D T xs l pc' q'"
proof -
  from b have p: "phys128 m q D T" and TH: "T \<le> unat (head q) + length (buffer q)" and D: "D = unat (head q) + length xs"
    by (auto simp: mpsc128_base_def)
  note P = phys128D [OF p]
  have tT: "unat (tail q) \<le> T" using P(11) by auto
  show "mpsc128_epost m q D T xs l pc' q'"
    if ok: "mpsc128_ok q T (WECas x t e)" and st: "MPSCIndirectSeq_step A (WECas x t e) q = ret (l, pc', q')"
  proof (cases "entry (buffer q ! (unat t mod length (buffer q))) = e")
    case True
    have t: "unat t \<le> T" using ok tT by simp
    have T: "unat t = T" "T < D + length (buffer q)" using entry_seq(1) [OF p m t] True ok by auto
    then have tl: "tail q = t" using ok tT by (auto simp: word_unat_eq_iff)
    note U = phys128_push [where x = x, OF p m T(1) [symmetric] tl T(2) refl]
    from st P(4,5) True have r: "l = Some (Enqueue x, EnqueueRet None)" "pc' = WEAdvance t"
      "q' = q\<lparr>buffer := (buffer q)[unat t mod length (buffer q) := \<lparr>entry = (t + 1, x)\<rparr>]\<rparr>"
      by (simp_all add: Let_def cas128)
    have "length (xs @ elems128 q D T) < length (buffer q)" using ok T D P(7) by auto
    then show ?thesis unfolding mpsc128_epost_def
      by (intro exI [of _ "Suc T"]) (use U T D P(7) ok in \<open>simp add: r mpsc128_base_def\<close>)
  next
    case False
    with st b P(4,5) ok show ?thesis by (auto simp: Let_def cas128 intro!: mpsc128_esame)
  qed
  show "mpsc128_epost m q D T xs l pc' q'"
    if ok: "mpsc128_ok q T (WEAdvance t)" and st: "MPSCIndirectSeq_step A (WEAdvance t) q = ret (l, pc', q')"
  proof (cases "tail q = t")
    case True
    then have t1: "unat (t + 1) = Suc (unat t)" using tT P(9) m by (simp add: unat_Suc_no_wrap)
    moreover from this True ok P(11) have "T = unat (t + 1)" by auto
    moreover from st True have r: "l = None" "pc' = WIdle" "q' = q\<lparr>tail := t + 1\<rparr>" by (simp_all add: cas64)
    moreover have "unat (tail q) \<le> unat (t + 1)" using t1 True by simp
    ultimately show ?thesis using b phys128_mono [OF phys128_tail [OF p], of "t + 1" "Suc m"]
      unfolding mpsc128_epost_def by (intro exI [of _ T]) (simp add: mpsc128_base_def)
  next
    case False
    with st b show ?thesis by (auto simp: cas64 intro!: mpsc128_esame)
  qed
qed

lemma mpsc128_deq:
  assumes b: "mpsc128_base m q D T (mpsc128_pending pc)" and m: "m < 2 ^ 62"
    and c: "mpsc128_cons q D T pc" "mpsc128_consuming pc"
    and st: "MPSCIndirectSeq_step A pc q = ret (l, pc', q')"
  shows "\<exists>D'. mpsc128_base (Suc m) q' D' T (mpsc128_pending pc') \<and> mpsc128_cons q' D' T pc' \<and> mpsc128_ok q' T pc'
    \<and> unat (head q) \<le> unat (head q') \<and> tail q' = tail q \<and> length (buffer q') = length (buffer q)
    \<and> fifo_effect 0 (length (buffer q)) l (mpsc128_pending pc @ elems128 q D T) (mpsc128_pending pc' @ elems128 q' D' T)"
    (is "\<exists>D'. ?post D'")
proof -
  from b have p: "phys128 m q D T" and TH: "T \<le> unat (head q) + length (buffer q)"
    and D: "D = unat (head q) + length (mpsc128_pending pc)"
    by (auto simp: mpsc128_base_def)
  note P = phys128D [OF p] and b' = mpsc128_base_mono [OF b]
  show ?thesis
  proof (cases pc)
    case WDHead
    then have "?post D" using st b' by auto
    then show ?thesis by blast
  next
    case (WDSlot h)
    with c D have h: "h = head q" "unat h = D" by simp_all
    let ?e = "entry (buffer q ! (unat h mod length (buffer q)))"
    have v: "fst (slot_view q (D mod length (buffer q))) = unat (fst ?e)" by (simp add: slot_view_def flip: h(2))
    note S = entry_deq [OF p m eq_refl [OF h(2)]]
    show ?thesis
    proof (cases "fst ?e = h + 1")
      case True
      then have "?post D" using S(1) st b' WDSlot P(4,5) h by (auto simp: Let_def snd_entry case_prod_beta)
      then show ?thesis by blast
    next
      case False
      have "unat (fst ?e) = Suc D \<or> unat (fst ?e) = D"
        using windowD(3,4) [OF P(6), of D] P(7) order_less_le_trans [OF _ P(1), of 0] v
        by (cases "D < T") (auto simp: full128_def free128_def)
      then have "T = D" using False S(2,4) h by (auto simp: word_unat_eq_iff)
      moreover from this have "elems128 q D T = []" by (simp add: elems128_def)
      ultimately have "?post D" using False st b' WDSlot P(4,5) h by (auto simp: Let_def case_prod_beta)
      then show ?thesis by blast
    qed
  next
    case (WDStore h v)
    with c D have h: "head q = h" "D = unat h" "D < T" "snd (slot_view q (D mod length (buffer q))) = v" by simp_all
    note U = phys128_pop [OF p m h(2,1,3) refl]
    have "?post (Suc D)" using st WDStore P(4,5) U(1,2) h TH by (auto simp: Let_def mpsc128_base_def)
    then show ?thesis by blast
  next
    case (WDPublish h v)
    with c D have h: "head q = h" "D = Suc (unat h)" by simp_all
    have u: "unat (h + 1) = D" using h P(7,9) m by (simp add: unat_Suc_no_wrap)
    note p' = phys128_mono [OF phys128_head [OF p, of "h + 1"], of "Suc m"]
    have "?post D" using st WDPublish h u TH p' by (auto simp: mpsc128_base_def)
    then show ?thesis by blast
  qed (use c in simp_all)
qed

lemma mpsc128_produce:
  assumes b: "mpsc128_base m q D T xs" and m: "m < 2 ^ 62" and ok: "mpsc128_ok q T pc" "\<not> mpsc128_consuming pc"
    and st: "MPSCIndirectSeq_step A pc q = ret (l, pc', q')"
  shows "mpsc128_epost m q D T xs l pc' q'"
proof (cases pc)
  case WIdle
  with st b show ?thesis by (auto intro!: mpsc128_esame)
next
  case WETail
  with st b show ?thesis by (auto intro!: mpsc128_esame)
qed (use ok st mpsc128_enq [OF b m] mpsc128_enq_cas [OF b m] mpsc128_consuming.simps in metis)+

end

lemma mpsc128_pending_producer: "\<not> mpsc128_consuming pc \<Longrightarrow> mpsc128_pending pc = [] \<and> mpsc128_cons q D T pc"
  by (cases pc) auto

lemma mpsc128_cons_keep:
  assumes "mpsc128_cons q D T pc" and "head q' = head q" and "T \<le> T'" and "length (buffer q') = length (buffer q)"
    and "\<And>p. D \<le> p \<Longrightarrow> p < T \<Longrightarrow> slot_view q' (p mod length (buffer q)) = slot_view q (p mod length (buffer q))"
  shows "mpsc128_cons q' D T' pc"
  using assms by (cases pc) auto

context atomix_sem
begin

lemma mpsc128_run:
  assumes I: "mpsc128_inv m q p" and m: "m < 2 ^ 62" and st: "MPSCIndirectSeq_step A (p i) q = ret (l, pc', q')"
  shows "mpsc128_inv (Suc m) q' (p(i := pc')) \<and> length (buffer q') = length (buffer q)
    \<and> fifo_effect 0 (length (buffer q)) l (mpsc128_elems q p) (mpsc128_elems q' (p(i := pc')))"
proof -
  from I obtain D T where B: "mpsc128_base m q D T (mpsc128_pending (p 0))" "mpsc128_cons q D T (p 0)"
      and O: "\<And>i. mpsc128_ok q T (p i)" "\<And>i. mpsc128_consuming (p i) \<Longrightarrow> i = 0"
    unfolding mpsc128_inv_def by blast
  let ?p = "p(i := pc')"
  show ?thesis
  proof (cases "mpsc128_consuming (p i)")
    case True
    with O(2) have i: "i = 0" by blast
    from mpsc128_deq [OF B(1) m B(2)] True st i obtain D' where Q: "mpsc128_base (Suc m) q' D' T (mpsc128_pending pc')"
        "mpsc128_cons q' D' T pc'" "mpsc128_ok q' T pc'" "unat (head q) \<le> unat (head q')" "tail q' = tail q"
        "length (buffer q') = length (buffer q)"
        "fifo_effect 0 (length (buffer q)) l (mpsc128_pending (p 0) @ elems128 q D T) (mpsc128_pending pc' @ elems128 q' D' T)"
      by blast
    have ok: "mpsc128_ok q' T (?p j) \<and> (mpsc128_consuming (?p j) \<longrightarrow> j = 0)" for j
      using O Q(3,4,5,6) i mpsc128_ok_later [of q T "p j" q' T] by simp
    have p0: "?p 0 = pc'" using i by simp
    have "mpsc128_inv (Suc m) q' ?p" unfolding mpsc128_inv_def p0 using Q(1,2) ok by blast
    then show ?thesis using Q(6,7) i by (simp add: mpsc128_elems_eq [OF B(1)] mpsc128_elems_eq [OF Q(1)])
  next
    case False
    from mpsc128_produce [OF B(1) m O(1) False st] obtain T' where Q: "mpsc128_base (Suc m) q' D T' (mpsc128_pending (p 0))"
        "mpsc128_ok q' T' pc'" "\<not> mpsc128_consuming pc'" "head q' = head q" "unat (tail q) \<le> unat (tail q')" "T \<le> T'"
        "length (buffer q') = length (buffer q)"
        "\<And>p. D \<le> p \<Longrightarrow> p < T \<Longrightarrow> slot_view q' (p mod length (buffer q)) = slot_view q (p mod length (buffer q))"
        "fifo_effect 0 (length (buffer q)) l (mpsc128_pending (p 0) @ elems128 q D T) (mpsc128_pending (p 0) @ elems128 q' D T')"
      unfolding mpsc128_epost_def by blast
    have ok: "mpsc128_ok q' T' (?p j) \<and> (mpsc128_consuming (?p j) \<longrightarrow> j = 0)" for j
      using O Q(2,3,4,5,6,7) mpsc128_ok_later [of q T "p j" q' T'] by simp
    have pend: "mpsc128_pending (?p 0) = mpsc128_pending (p 0)"
      using mpsc128_pending_producer [OF False] mpsc128_pending_producer [OF Q(3)] by auto
    have "mpsc128_cons q' D T' (p 0)" by (rule mpsc128_cons_keep [OF B(2) Q(4,6,7,8)])
    then have "mpsc128_cons q' D T' (?p 0)" using mpsc128_pending_producer [OF Q(3)] by simp
    with Q(1) ok have "mpsc128_inv (Suc m) q' ?p" unfolding mpsc128_inv_def pend by blast
    then show ?thesis using Q(7,9) by (simp add: mpsc128_elems_eq [OF B(1)] mpsc128_elems_eq [OF Q(1)] pend del: fun_upd_apply)
  qed
qed

end

sublocale atomix_sem < mpsc128: go_linearization "MPSCIndirectSeq_step A" WIdle WETail WDHead "\<lambda>_. True" "\<lambda>i. i = 0"
    mpsc128_inv mpsc128_elems "\<lambda>q. length (buffer q)" 0 "2 ^ 62"
proof
  show "mpsc128_inv (Suc m) q (p(i := WETail x))" if "mpsc128_inv m q p" "p i = WIdle" for m q p i x
  proof -
    have "mpsc128_pending ((p(i := WETail x)) 0) = mpsc128_pending (p 0)" "mpsc128_cons q D T ((p(i := WETail x)) 0) = mpsc128_cons q D T (p 0)" for D T
      using that(2) by auto
    with that(1) show ?thesis unfolding mpsc128_inv_def by (metis fun_upd_apply mpsc128_base_mono mpsc128_ok.simps(6) mpsc128_consuming.simps(6))
  qed
  show "mpsc128_inv (Suc m) q (p(i := WDHead))" if "mpsc128_inv m q p" "p i = WIdle" "i = 0" for m q p i
    using that mpsc128_base_mono [of m q] by (fastforce simp: mpsc128_inv_def)
  fix m q p i l pc' q'
  assume I: "mpsc128_inv m q p" and m: "m < 2 ^ 62" and st: "MPSCIndirectSeq_step A (p i) q = ret (l, pc', q')"
  show "mpsc128_inv (Suc m) q' (p(i := pc')) \<and> length (buffer q') = length (buffer q)
    \<and> fifo_effect 0 (length (buffer q)) l (mpsc128_elems q p) (mpsc128_elems q' (p(i := pc')))"
    by (rule mpsc128_run [OF I m st])
qed (auto simp: mpsc128_elems_def)

section \<open>\<open>SPMCIndirectSeq\<close>\<close>

text \<open>
  The producer is goroutine 0. A value it has stored counts as enqueued once the tail is published;
  consumers, which look at the tail first, cannot take it before.
\<close>

fun spmc128_ok :: "SPMCIndirectSeq \<Rightarrow> nat \<Rightarrow> spmc128_pc \<Rightarrow> bool" where
  "spmc128_ok q D (UDTail h) \<longleftrightarrow> unat h \<le> unat (head q)"
| "spmc128_ok q D (UDSlot h) \<longleftrightarrow> unat h \<le> unat (head q) \<and> unat h < unat (tail q)"
| "spmc128_ok q D (UDCas h e) \<longleftrightarrow> unat h \<le> unat (head q) \<and> unat h < unat (tail q) \<and> fst e = h + 1"
| "spmc128_ok q D (UDAdvance h) \<longleftrightarrow> unat h < D"
| "spmc128_ok q D _ \<longleftrightarrow> True"

fun spmc128_producing :: "spmc128_pc \<Rightarrow> bool" where
  "spmc128_producing (UETail x) \<longleftrightarrow> True"
| "spmc128_producing (UESlot x t) \<longleftrightarrow> True"
| "spmc128_producing (UEStore x t) \<longleftrightarrow> True"
| "spmc128_producing (UEPublish x t) \<longleftrightarrow> True"
| "spmc128_producing _ \<longleftrightarrow> False"

fun spmc128_pending :: "spmc128_pc \<Rightarrow> u64 list" where
  "spmc128_pending (UEPublish x t) = [x]"
| "spmc128_pending _ = []"

fun spmc128_prod :: "SPMCIndirectSeq \<Rightarrow> nat \<Rightarrow> nat \<Rightarrow> spmc128_pc \<Rightarrow> bool" where
  "spmc128_prod q D T (UESlot x t) \<longleftrightarrow> t = tail q"
| "spmc128_prod q D T (UEStore x t) \<longleftrightarrow> t = tail q \<and> T < D + length (buffer q)"
| "spmc128_prod q D T (UEPublish x t) \<longleftrightarrow> t = tail q"
| "spmc128_prod q D T _ \<longleftrightarrow> True"

definition spmc128_base :: "nat \<Rightarrow> SPMCIndirectSeq \<Rightarrow> nat \<Rightarrow> nat \<Rightarrow> u64 list \<Rightarrow> bool" where
  "spmc128_base m q D T xs \<longleftrightarrow> phys128 m q D T \<and> D \<le> unat (tail q) \<and> T = unat (tail q) + length xs
     \<and> elems128 q D T = elems128 q D (unat (tail q)) @ xs"

definition spmc128_inv :: "nat \<Rightarrow> SPMCIndirectSeq \<Rightarrow> (nat \<Rightarrow> spmc128_pc) \<Rightarrow> bool" where
  "spmc128_inv m q p \<longleftrightarrow> (\<exists>D T. spmc128_base m q D T (spmc128_pending (p 0)) \<and> spmc128_prod q D T (p 0)
     \<and> (\<forall>i. spmc128_ok q D (p i) \<and> (spmc128_producing (p i) \<longrightarrow> i = 0)))"

definition spmc128_elems :: "SPMCIndirectSeq \<Rightarrow> (nat \<Rightarrow> spmc128_pc) \<Rightarrow> u64 list" where
  "spmc128_elems q p = elems128 q (phead q) (unat (tail q))"

lemma spmc128_elems_eq: "spmc128_base m q D T xs \<Longrightarrow> spmc128_elems q p = elems128 q D (unat (tail q))"
  unfolding spmc128_elems_def spmc128_base_def by (metis phys128_phead)

lemma spmc128_base_mono: "spmc128_base m q D T xs \<Longrightarrow> spmc128_base (Suc m) q D T xs"
  by (auto simp: spmc128_base_def intro: phys128_mono)

lemma spmc128_ok_later:
  assumes "spmc128_ok q D pc" and "unat (head q) \<le> unat (head q')" and "unat (tail q) \<le> unat (tail q')" and "D \<le> D'"
  shows "spmc128_ok q' D' pc"
  using assms by (cases pc) auto

definition spmc128_dpost
  :: "nat \<Rightarrow> SPMCIndirectSeq \<Rightarrow> nat \<Rightarrow> nat \<Rightarrow> u64 list \<Rightarrow> (u64 call \<times> u64 answer) option \<Rightarrow> spmc128_pc \<Rightarrow> SPMCIndirectSeq \<Rightarrow> bool" where
  "spmc128_dpost m q D T xs l pc' q' \<longleftrightarrow> (\<exists>D'. spmc128_base (Suc m) q' D' T xs \<and> spmc128_ok q' D' pc'
     \<and> \<not> spmc128_producing pc' \<and> tail q' = tail q \<and> unat (head q) \<le> unat (head q') \<and> D \<le> D' \<and> length (buffer q') = length (buffer q)
     \<and> fifo_effect 0 (length (buffer q)) l (elems128 q D (unat (tail q))) (elems128 q' D' (unat (tail q))))"

lemma spmc128_dsame:
  "spmc128_base m q D T xs \<Longrightarrow> spmc128_ok q D pc' \<Longrightarrow> \<not> spmc128_producing pc' \<Longrightarrow>
   fifo_effect 0 (length (buffer q)) l (elems128 q D (unat (tail q))) (elems128 q D (unat (tail q))) \<Longrightarrow>
   spmc128_dpost m q D T xs l pc' q"
  unfolding spmc128_dpost_def by (rule exI [of _ D]) (simp add: spmc128_base_mono)

text \<open>The part of the window up to a bound below \<open>T\<close> is taken off and left alone like the whole.\<close>

lemma elems128_pop_upto:
  assumes p: "phys128 m q D T" and m: "m < 2 ^ 62" and h: "D = unat h" "head q = h" and t: "D < t" "t \<le> T"
    and q': "q' = q\<lparr>buffer := (buffer q)[unat h mod length (buffer q) := \<lparr>entry = (h + capacity q, 0)\<rparr>]\<rparr>"
  shows "elems128 q D t = snd (slot_view q (D mod length (buffer q))) # elems128 q' (Suc D) t"
proof -
  from t have "D < T" by simp
  note U = phys128_pop(3) [OF p m h this q']
  have "contents snd (length (buffer q)) (Suc D) t (slot_view q) = contents snd (length (buffer q)) (Suc D) t (slot_view q')"
    by (rule contents_cong) (use U t phys128D(8) [OF p] in simp)
  then show ?thesis using t(1) by (simp add: elems128_def contents_Cons) (simp add: q')
qed

lemma elems128_push_below:
  assumes p: "phys128 m q D T" and m: "m < 2 ^ 62" and t: "T = unat t" "tail q = t" and room: "T < D + length (buffer q)"
    and q': "q' = q\<lparr>buffer := (buffer q)[unat t mod length (buffer q) := \<lparr>entry = (t + 1, x)\<rparr>]\<rparr>"
  shows "elems128 q' D T = elems128 q D T"
proof -
  have "contents snd (length (buffer q)) D T (slot_view q') = contents snd (length (buffer q)) D T (slot_view q)"
    by (rule contents_cong) (rule phys128_push(3) [OF p m t room q'])
  moreover have "length (buffer q') = length (buffer q)" by (simp add: q')
  ultimately show ?thesis by (simp add: elems128_def)
qed

lemma spmc128_pending_consumer: "\<not> spmc128_producing pc \<Longrightarrow> spmc128_pending pc = [] \<and> spmc128_prod q D T pc"
  by (cases pc) auto

lemma spmc128_prod_keep:
  assumes "spmc128_prod q D T pc" and "tail q' = tail q" and "D \<le> D'" and "length (buffer q') = length (buffer q)"
  shows "spmc128_prod q' D' T pc"
  using assms by (cases pc) auto

context atomix_sem
begin

lemma spmc128_deq:
  assumes b: "spmc128_base m q D T xs" and m: "m < 2 ^ 62"
  shows "spmc128_ok q D (UDTail h) \<Longrightarrow> SPMCIndirectSeq_step A (UDTail h) q = ret (l, pc', q') \<Longrightarrow>
      spmc128_dpost m q D T xs l pc' q'"
    and "spmc128_ok q D (UDSlot h) \<Longrightarrow> SPMCIndirectSeq_step A (UDSlot h) q = ret (l, pc', q') \<Longrightarrow>
      spmc128_dpost m q D T xs l pc' q'"
proof -
  from b have p: "phys128 m q D T" and Dt: "D \<le> unat (tail q)" and T: "T = unat (tail q) + length xs"
    by (auto simp: spmc128_base_def)
  note P = phys128D [OF p]
  have hD: "unat (head q) \<le> D" using P(10) by auto
  show "spmc128_dpost m q D T xs l pc' q'"
    if ok: "spmc128_ok q D (UDTail h)" and st: "SPMCIndirectSeq_step A (UDTail h) q = ret (l, pc', q')"
  proof (cases "tail q \<le> h")
    case True
    then have "D = unat (tail q)" using Dt ok hD by (simp add: word_le_nat_alt)
    then have "elems128 q D (unat (tail q)) = []" by (simp add: elems128_def)
    with st b True show ?thesis by (auto intro!: spmc128_dsame)
  next
    case False
    with st b ok show ?thesis by (auto simp: word_le_nat_alt intro!: spmc128_dsame)
  qed
  show "spmc128_dpost m q D T xs l pc' q'"
    if ok: "spmc128_ok q D (UDSlot h)" and st: "SPMCIndirectSeq_step A (UDSlot h) q = ret (l, pc', q')"
  proof -
    have h: "unat h \<le> D" using ok hD by simp
    note S = entry_deq [OF p m h]
    have "\<not> fst (entry (buffer q ! (unat h mod length (buffer q)))) < h + 1"
      using S(2,4) ok T by (auto simp: word_less_nat_alt)
    with st b P(4,5) ok show ?thesis by (auto simp: Let_def split: if_splits intro!: spmc128_dsame)
  qed
qed

lemma spmc128_deq_cas:
  assumes b: "spmc128_base m q D T xs" and m: "m < 2 ^ 62"
  shows "spmc128_ok q D (UDCas h e) \<Longrightarrow> SPMCIndirectSeq_step A (UDCas h e) q = ret (l, pc', q') \<Longrightarrow>
      spmc128_dpost m q D T xs l pc' q'"
    and "spmc128_ok q D (UDAdvance h) \<Longrightarrow> SPMCIndirectSeq_step A (UDAdvance h) q = ret (l, pc', q') \<Longrightarrow>
      spmc128_dpost m q D T xs l pc' q'"
proof -
  from b have p: "phys128 m q D T" and Dt: "D \<le> unat (tail q)" and T: "T = unat (tail q) + length xs"
    and E: "elems128 q D T = elems128 q D (unat (tail q)) @ xs"
    by (auto simp: spmc128_base_def)
  note P = phys128D [OF p]
  have hD: "unat (head q) \<le> D" using P(10) by auto
  show "spmc128_dpost m q D T xs l pc' q'"
    if ok: "spmc128_ok q D (UDCas h e)" and st: "SPMCIndirectSeq_step A (UDCas h e) q = ret (l, pc', q')"
  proof (cases "entry (buffer q ! (unat h mod length (buffer q))) = e")
    case True
    have h: "unat h \<le> D" using ok hD by simp
    have D: "unat h = D" "D < T" using entry_deq(1) [OF p m h] True ok by auto
    then have hd: "head q = h" using ok hD by (auto simp: word_unat_eq_iff)
    note U = phys128_pop [OF p m D(1) [symmetric] hd D(2) refl]
    have lt: "D < unat (tail q)" "unat (tail q) \<le> T" using ok D T by auto
    note V = elems128_pop_upto [OF p m D(1) [symmetric] hd lt refl]
    have v: "snd (slot_view q (D mod length (buffer q))) = snd e" using True D by (simp add: snd_entry)
    from st P(4,5) True have r: "l = Some (Dequeue, DequeueRet (snd e) None)" "pc' = UDAdvance h"
      "q' = q\<lparr>buffer := (buffer q)[unat h mod length (buffer q) := \<lparr>entry = (h + capacity q, 0)\<rparr>]\<rparr>"
      by (simp_all add: Let_def cas128)
    have "spmc128_base (Suc m) q' (Suc D) T xs"
      unfolding spmc128_base_def using U(1,2) V E lt T by (simp add: r)
    then show ?thesis unfolding spmc128_dpost_def
      by (intro exI [of _ "Suc D"]) (use V v D in \<open>simp add: r\<close>)
  next
    case False
    with st b P(4,5) ok show ?thesis by (auto simp: Let_def cas128 intro!: spmc128_dsame)
  qed
  show "spmc128_dpost m q D T xs l pc' q'"
    if ok: "spmc128_ok q D (UDAdvance h)" and st: "SPMCIndirectSeq_step A (UDAdvance h) q = ret (l, pc', q')"
  proof (cases "head q = h")
    case True
    then have h1: "unat (h + 1) = Suc (unat h)" using hD P(7,9) m by (simp add: unat_Suc_no_wrap)
    moreover from this True ok P(10) have "D = unat (h + 1)" by auto
    moreover from st True have r: "l = None" "pc' = UIdle" "q' = q\<lparr>head := h + 1\<rparr>" by (simp_all add: cas64)
    moreover have "unat (head q) \<le> unat (h + 1)" using h1 True by simp
    ultimately show ?thesis using b phys128_mono [OF phys128_head [OF p], of "h + 1" "Suc m"]
      unfolding spmc128_dpost_def by (intro exI [of _ D]) (auto simp: spmc128_base_def)
  next
    case False
    with st b show ?thesis by (auto simp: cas64 intro!: spmc128_dsame)
  qed
qed

lemma spmc128_enq:
  assumes b: "spmc128_base m q D T (spmc128_pending pc)" and m: "m < 2 ^ 62"
    and c: "spmc128_prod q D T pc" "spmc128_producing pc"
    and st: "SPMCIndirectSeq_step A pc q = ret (l, pc', q')"
  shows "\<exists>T'. spmc128_base (Suc m) q' D T' (spmc128_pending pc') \<and> spmc128_prod q' D T' pc' \<and> spmc128_ok q' D pc'
    \<and> head q' = head q \<and> unat (tail q) \<le> unat (tail q') \<and> length (buffer q') = length (buffer q)
    \<and> fifo_effect 0 (length (buffer q)) l (elems128 q D (unat (tail q))) (elems128 q' D (unat (tail q')))"
    (is "\<exists>T'. ?post T'")
proof -
  from b have p: "phys128 m q D T" and Dt: "D \<le> unat (tail q)" and T: "T = unat (tail q) + length (spmc128_pending pc)"
    and E: "elems128 q D T = elems128 q D (unat (tail q)) @ spmc128_pending pc"
    by (auto simp: spmc128_base_def)
  note P = phys128D [OF p] and b' = spmc128_base_mono [OF b]
  show ?thesis
  proof (cases pc)
    case (UETail x)
    then have "?post T" using st b' by auto
    then show ?thesis by blast
  next
    case (UESlot x t)
    with c T have t: "t = tail q" "unat t = T" by simp_all
    let ?e = "entry (buffer q ! (unat t mod length (buffer q)))"
    note S = entry_seq [OF p m eq_refl [OF t(2)]]
    show ?thesis
    proof (cases "fst ?e = t")
      case True
      then have "?post T" using S(1) st b' UESlot P(4,5) t by (auto simp: Let_def case_prod_beta)
      then show ?thesis by blast
    next
      case False
      have "\<not> free128 (length (buffer q)) T (slot_view q (T mod length (buffer q)))"
        using False by (simp add: free128_def slot_view_def word_unat_eq_iff t(2))
      from entry128.tail_not_free [OF P(6) this] have "\<not> length (elems128 q D (unat (tail q))) < length (buffer q)"
        using t by simp
      then have "?post T" using False st b' UESlot P(4,5) t by (auto simp: Let_def case_prod_beta)
      then show ?thesis by blast
    qed
  next
    case (UEStore x t)
    with c T have t: "tail q = t" "T = unat t" "T < D + length (buffer q)" by simp_all
    note U = phys128_push [OF p m t(2,1,3) refl, where x = x] and V = elems128_push_below [OF p m t(2,1,3) refl, where x = x]
    have "?post (Suc T)" using st UEStore P(4,5) U(1,2) V t Dt by (auto simp: Let_def spmc128_base_def)
    then show ?thesis by blast
  next
    case (UEPublish x t)
    with c T have t: "tail q = t" "T = Suc (unat t)" by simp_all
    have u: "unat (t + 1) = T" using t P(9) m by (simp add: unat_Suc_no_wrap)
    note p' = phys128_mono [OF phys128_tail [OF p, of "t + 1"], of "Suc m"]
    have "length (elems128 q D (unat t)) < length (buffer q)" using t Dt P(8) by auto
    then have "?post T" using st UEPublish t u Dt E p' by (auto simp: spmc128_base_def)
    then show ?thesis by blast
  qed (use c in simp_all)
qed

lemma spmc128_consume:
  assumes b: "spmc128_base m q D T xs" and m: "m < 2 ^ 62" and ok: "spmc128_ok q D pc" "\<not> spmc128_producing pc"
    and st: "SPMCIndirectSeq_step A pc q = ret (l, pc', q')"
  shows "spmc128_dpost m q D T xs l pc' q'"
proof (cases pc)
  case UIdle
  with st b show ?thesis by (auto intro!: spmc128_dsame)
next
  case UDHead
  with st b show ?thesis by (auto intro!: spmc128_dsame)
qed (use ok st spmc128_deq [OF b m] spmc128_deq_cas [OF b m] spmc128_producing.simps in metis)+

lemma spmc128_run:
  assumes I: "spmc128_inv m q p" and m: "m < 2 ^ 62" and st: "SPMCIndirectSeq_step A (p i) q = ret (l, pc', q')"
  shows "spmc128_inv (Suc m) q' (p(i := pc')) \<and> length (buffer q') = length (buffer q)
    \<and> fifo_effect 0 (length (buffer q)) l (spmc128_elems q p) (spmc128_elems q' (p(i := pc')))"
proof -
  from I obtain D T where B: "spmc128_base m q D T (spmc128_pending (p 0))" "spmc128_prod q D T (p 0)"
      and O: "\<And>i. spmc128_ok q D (p i)" "\<And>i. spmc128_producing (p i) \<Longrightarrow> i = 0"
    unfolding spmc128_inv_def by blast
  let ?p = "p(i := pc')"
  show ?thesis
  proof (cases "spmc128_producing (p i)")
    case True
    with O(2) have i: "i = 0" by blast
    then have p0: "?p 0 = pc'" by simp
    from spmc128_enq [OF B(1) m B(2)] True st i obtain T' where Q: "spmc128_base (Suc m) q' D T' (spmc128_pending pc')"
        "spmc128_prod q' D T' pc'" "spmc128_ok q' D pc'" "head q' = head q" "unat (tail q) \<le> unat (tail q')"
        "length (buffer q') = length (buffer q)"
        "fifo_effect 0 (length (buffer q)) l (elems128 q D (unat (tail q))) (elems128 q' D (unat (tail q')))"
      by blast
    have ok: "spmc128_ok q' D (?p j) \<and> (spmc128_producing (?p j) \<longrightarrow> j = 0)" for j
      using O Q(3,4,5) i spmc128_ok_later [of q D "p j" q' D] by simp
    have "spmc128_inv (Suc m) q' ?p" unfolding spmc128_inv_def p0 using Q(1,2) ok by blast
    then show ?thesis using Q(6,7) by (simp add: spmc128_elems_eq [OF B(1)] spmc128_elems_eq [OF Q(1)])
  next
    case False
    from spmc128_consume [OF B(1) m O(1) False st] obtain D' where Q: "spmc128_base (Suc m) q' D' T (spmc128_pending (p 0))"
        "spmc128_ok q' D' pc'" "\<not> spmc128_producing pc'" "tail q' = tail q" "unat (head q) \<le> unat (head q')" "D \<le> D'"
        "length (buffer q') = length (buffer q)"
        "fifo_effect 0 (length (buffer q)) l (elems128 q D (unat (tail q))) (elems128 q' D' (unat (tail q)))"
      unfolding spmc128_dpost_def by blast
    have ok: "spmc128_ok q' D' (?p j) \<and> (spmc128_producing (?p j) \<longrightarrow> j = 0)" for j
      using O Q(2,3,4,5,6) spmc128_ok_later [of q D "p j" q' D'] by simp
    have pend: "spmc128_pending (?p 0) = spmc128_pending (p 0)"
      using spmc128_pending_consumer [OF False] spmc128_pending_consumer [OF Q(3)] by auto
    have "spmc128_prod q' D' T (p 0)" by (rule spmc128_prod_keep [OF B(2) Q(4,6,7)])
    then have "spmc128_prod q' D' T (?p 0)" using spmc128_pending_consumer [OF Q(3)] by simp
    with Q(1) ok have "spmc128_inv (Suc m) q' ?p" unfolding spmc128_inv_def pend by blast
    then show ?thesis using Q(4,7,8) by (simp add: spmc128_elems_eq [OF B(1)] spmc128_elems_eq [OF Q(1)])
  qed
qed

end

sublocale atomix_sem < spmc128: go_linearization "SPMCIndirectSeq_step A" UIdle UETail UDHead "\<lambda>i. i = 0" "\<lambda>_. True"
    spmc128_inv spmc128_elems "\<lambda>q. length (buffer q)" 0 "2 ^ 62"
proof
  show "spmc128_inv (Suc m) q (p(i := UDHead))" if "spmc128_inv m q p" "p i = UIdle" for m q p i
  proof -
    have "spmc128_pending ((p(i := UDHead)) 0) = spmc128_pending (p 0)" "spmc128_prod q D T ((p(i := UDHead)) 0) = spmc128_prod q D T (p 0)" for D T
      using that(2) by auto
    with that(1) show ?thesis unfolding spmc128_inv_def by (metis fun_upd_apply spmc128_base_mono spmc128_ok.simps(10) spmc128_producing.simps(6))
  qed
  show "spmc128_inv (Suc m) q (p(i := UETail x))" if "spmc128_inv m q p" "p i = UIdle" "i = 0" for m q p i x
    using that spmc128_base_mono [of m q] by (fastforce simp: spmc128_inv_def)
qed (auto simp: spmc128_elems_def dest: spmc128_run)

context atomix_sem
begin

lemmas mpsc128_exec_linearizes = mpsc128.lin.exec_linearizes
lemmas mpsc128_exec_inv = mpsc128.lin.exec_inv(1)
lemmas spmc128_exec_linearizes = spmc128.lin.exec_linearizes
lemmas spmc128_exec_inv = spmc128.lin.exec_inv(1)

end

section \<open>A new queue\<close>

lemma mpsc128_init: "phys128 0 q 0 0 \<Longrightarrow> mpsc128_inv 0 q (\<lambda>_. WIdle) \<and> mpsc128_elems q (\<lambda>_. WIdle) = elems128 q 0 0"
  using phys128D(10) [of 0 q 0 0]
  by (auto simp: mpsc128_inv_def mpsc128_base_def mpsc128_elems_def phys128_phead phys128_ptail intro!: exI [of _ 0])

lemma spmc128_init: "phys128 0 q 0 0 \<Longrightarrow> spmc128_inv 0 q (\<lambda>_. UIdle) \<and> spmc128_elems q (\<lambda>_. UIdle) = elems128 q 0 0"
  using phys128D(11) [of 0 q 0 0]
  by (auto simp: spmc128_inv_def spmc128_base_def spmc128_elems_def phys128_phead elems128_def intro!: exI [of _ 0])

text \<open>No access is out of range.\<close>

lemma MPSCIndirectSeq_step_ret: "mpsc128_inv m q p \<Longrightarrow> \<exists>r. MPSCIndirectSeq_step A (p i) q = ret r"
  unfolding mpsc128_inv_def mpsc128_base_def using phys128D(4,5) [of m q]
  by (cases "p i") (fastforce simp: Let_def case_prod_beta split: if_splits prod.splits)+

lemma SPMCIndirectSeq_step_ret: "spmc128_inv m q p \<Longrightarrow> \<exists>r. SPMCIndirectSeq_step A (p i) q = ret r"
  unfolding spmc128_inv_def spmc128_base_def using phys128D(4,5) [of m q]
  by (cases "p i") (fastforce simp: Let_def case_prod_beta split: if_splits prod.splits)+

section \<open>A call alone\<close>

context atomix_sem
begin

lemma MPSCIndirectSeq_steps:
  assumes i: "seqq_inv b (seq128_abs q)"
  shows "run_alone (MPSCIndirectSeq_step A) WIdle None (WETail x) q
      = go_bind (MPSCIndirectSeq_Enqueue A x q) (\<lambda>(e, q'). ret (Some (Enqueue x, EnqueueRet e), q'))"
    and "run_alone (MPSCIndirectSeq_step A) WIdle None WDHead q
      = go_bind (MPSCIndirectSeq_Dequeue q) (\<lambda>((v, e), q'). ret (Some (Dequeue, DequeueRet v e), q'))"
proof -
  from i obtain k where ok: "seqq_ok (seq128_abs q)" and s: "seqq_shape k (seq128_abs q)" by (auto simp: seqq_inv_def seqq_ok_def)
  show "run_alone (MPSCIndirectSeq_step A) WIdle None (WETail x) q
      = go_bind (MPSCIndirectSeq_Enqueue A x q) (\<lambda>(e, q'). ret (Some (Enqueue x, EnqueueRet e), q'))"
    using seq128_room_tests [OF i s] by (cases rule: seq128_enq_cases [OF ok s])
      (subst MPSCIndirectSeq_Enqueue.simps, simp add: run_alone_simps Let_def rmw)+
  show "run_alone (MPSCIndirectSeq_step A) WIdle None WDHead q
      = go_bind (MPSCIndirectSeq_Dequeue q) (\<lambda>((v, e), q'). ret (Some (Dequeue, DequeueRet v e), q'))"
    by (cases rule: seq128_deq_cases [OF ok s])
      (simp add: MPSCIndirectSeq_Dequeue_def run_alone_simps Let_def)+
qed

lemma SPMCIndirectSeq_steps:
  assumes i: "seqq_inv b (seq128_abs q)"
  shows "run_alone (SPMCIndirectSeq_step A) UIdle None (UETail x) q
      = go_bind (SPMCIndirectSeq_Enqueue x q) (\<lambda>(e, q'). ret (Some (Enqueue x, EnqueueRet e), q'))"
    and "run_alone (SPMCIndirectSeq_step A) UIdle None UDHead q
      = go_bind (SPMCIndirectSeq_Dequeue A q) (\<lambda>((v, e), q'). ret (Some (Dequeue, DequeueRet v e), q'))"
proof -
  from i obtain k where ok: "seqq_ok (seq128_abs q)" and s: "seqq_shape k (seq128_abs q)" by (auto simp: seqq_inv_def seqq_ok_def)
  show "run_alone (SPMCIndirectSeq_step A) UIdle None (UETail x) q
      = go_bind (SPMCIndirectSeq_Enqueue x q) (\<lambda>(e, q'). ret (Some (Enqueue x, EnqueueRet e), q'))"
    by (cases rule: seq128_enq_cases [OF ok s])
      (simp add: SPMCIndirectSeq_Enqueue_def run_alone_simps Let_def)+
  show "run_alone (SPMCIndirectSeq_step A) UIdle None UDHead q
      = go_bind (SPMCIndirectSeq_Dequeue A q) (\<lambda>((v, e), q'). ret (Some (Dequeue, DequeueRet v e), q'))"
    using seq128_room_tests [OF i s] by (cases rule: seq128_deq_cases [OF ok s])
      (subst SPMCIndirectSeq_Dequeue.simps, simp add: run_alone_simps Let_def rmw)+
qed

end

end
