(* ===== verification/Compact_Concurrent.thy ===== *)
theory Compact_Concurrent
  imports Compact_Queues Slot_Window Goroutines
begin

text \<open>
  Goroutines interleaved on a compact queue: \<open>MPMCCompactIndirect\<close> (\<open>mpmc_compact.go\<close>) with any
  number of producers and consumers, and what the theories of the two one-sided queues share with
  it. One step is one access to shared memory.

  An operation takes effect when it fills or empties its slot and the shared index follows in a
  step of its own, which any goroutine that finds the slot done performs as well. The slot of a
  value says nothing about its round. A single consumer needs no more: what it reads is what
  it takes. Several consumers swap the slot against the value they read, and only when no value
  is enqueued twice is finding the value again the same as finding the slot untouched.
\<close>

section \<open>Atomic steps\<close>

text \<open>\<open>MPMCCompactIndirect\<close>: the flag of an advancing step says whether its call returns afterwards.\<close>

datatype mpmcc_pc = KIdle
  | KECall u64 | KETail u64 | KEHead u64 u64 | KEReload u64 u64 u64 | KECas u64 u64 | KEAdvance u64 u64 bool
  | KDHead | KDTail u64 | KDSlot u64 u64 | KDReload u64 u64 u64 | KDCas u64 u64 | KDAdvance u64 bool

definition compact_expected :: "MPMCCompactIndirect \<Rightarrow> u64 \<Rightarrow> u64" where
  "compact_expected q t = (let round = drop_bit (unat (order_q q)) t AND (emptyFlag - 1) in emptyFlag OR round)"

definition compact_nextEmpty :: "MPMCCompactIndirect \<Rightarrow> u64 \<Rightarrow> u64" where
  "compact_nextEmpty q h = (let nextRound = (drop_bit (unat (order_q q)) h + 1) AND (emptyFlag - 1)
     in emptyFlag OR nextRound)"

fun MPMCCompactIndirect_step :: "atomix \<Rightarrow> mpmcc_pc \<Rightarrow> MPMCCompactIndirect
    \<Rightarrow> ((u64 call \<times> u64 answer) option \<times> mpmcc_pc \<times> MPMCCompactIndirect) go" where
  "MPMCCompactIndirect_step A KIdle q = ret (None, KIdle, q)"
| "MPMCCompactIndirect_step A (KECall elem) q =
     (if elem AND emptyFlag \<noteq> 0 then panics (PanicMsg ''lfq: value exceeds 63 bits'')
      else ret (None, KETail elem, q))"
| "MPMCCompactIndirect_step A (KETail elem) q = ret (None, KEHead elem (tail q), q)"
| "MPMCCompactIndirect_step A (KEHead elem t) q = ret (None, KEReload elem t (head q), q)"
| "MPMCCompactIndirect_step A (KEReload elem t h) q =
     (if t \<noteq> tail q then ret (None, KETail elem, q)
      else if t \<ge> h + capacity q then ret (Some (Enqueue elem, EnqueueRet (Some ErrWouldBlock)), KIdle, q)
      else ret (None, KECas elem t, q))"
| "MPMCCompactIndirect_step A (KECas elem t) q =
     (let i = unat (t AND mask_q q)
      in if \<not> i < length (buffer q) then panics IndexOutOfRange
         else case CompareAndSwapUintptr A (buffer q ! i) (compact_expected q t) elem of (swapped, cell) \<Rightarrow>
           let q = q\<lparr>buffer := (buffer q)[i := cell]\<rparr>
           in if swapped then ret (Some (Enqueue elem, EnqueueRet None), KEAdvance elem t True, q)
              else ret (None, KEAdvance elem t False, q))"
| "MPMCCompactIndirect_step A (KEAdvance elem t done) q =
     ret (None, if done then KIdle else KETail elem, q\<lparr>tail := snd (CompareAndSwap64 A (tail q) t (t + 1))\<rparr>)"
| "MPMCCompactIndirect_step A KDHead q = ret (None, KDTail (head q), q)"
| "MPMCCompactIndirect_step A (KDTail h) q = ret (None, KDSlot h (tail q), q)"
| "MPMCCompactIndirect_step A (KDSlot h t) q =
     (let i = unat (h AND mask_q q)
      in if \<not> i < length (buffer q) then panics IndexOutOfRange
         else ret (None, KDReload h t (buffer q ! i), q))"
| "MPMCCompactIndirect_step A (KDReload h t elem) q =
     (if h \<noteq> head q then ret (None, KDHead, q)
      else if h \<ge> t then ret (Some (Dequeue, DequeueRet 0 (Some ErrWouldBlock)), KIdle, q)
      else if elem = compact_nextEmpty q h then ret (None, KDAdvance h False, q)
      else if elem AND emptyFlag \<noteq> 0 then ret (None, KDAdvance h False, q)
      else ret (None, KDCas h elem, q))"
| "MPMCCompactIndirect_step A (KDCas h elem) q =
     (let i = unat (h AND mask_q q)
      in if \<not> i < length (buffer q) then panics IndexOutOfRange
         else case CompareAndSwapUintptr A (buffer q ! i) elem (compact_nextEmpty q h) of (swapped, cell) \<Rightarrow>
           let q = q\<lparr>buffer := (buffer q)[i := cell]\<rparr>
           in if swapped then ret (Some (Dequeue, DequeueRet elem None), KDAdvance h True, q)
              else ret (None, KDAdvance h False, q))"
| "MPMCCompactIndirect_step A (KDAdvance h done) q =
     ret (None, if done then KIdle else KDHead, q\<lparr>head := snd (CompareAndSwap64 A (head q) h (h + 1))\<rparr>)"

section \<open>The slots as a window\<close>

definition cfull :: "nat \<Rightarrow> u64 \<Rightarrow> bool" where
  "cfull p s \<longleftrightarrow> valid63 s"

definition cfree :: "nat \<Rightarrow> nat \<Rightarrow> u64 \<Rightarrow> bool" where
  "cfree n p s \<longleftrightarrow> s = empty_mark (p div n) \<and> p < 2 ^ 63"

lemma empty_mark_inj:
  assumes "empty_mark r = empty_mark r'" and "r < 2 ^ 63" and "r' < 2 ^ 63"
  shows "r = r'"
proof -
  have u: "unat (of_nat r AND (2 ^ 63 - 1) :: u64) = r" if "r < 2 ^ 63" for r
    by (subst unat_and_mask) (use that in \<open>simp_all add: unat_of_nat_u64\<close>)
  have z: "(2 ^ 63 :: u64) AND (2 ^ 63 - 1) = 0" by code_simp
  have "empty_mark r AND (2 ^ 63 - 1) = of_nat r AND (2 ^ 63 - 1)" for r
    unfolding empty_mark_def emptyFlag_def by (simp only: and.commute [of _ "2 ^ 63 - 1"] bit.conj_disj_distrib) (simp add: and.commute z)
  with assms u show ?thesis by metis
qed

interpretation word: slot_codes 1 cfull cfree
proof
  show "p = t" if "1 \<le> n" "cfree n p s" "cfree n t s" "p mod n = t mod n" for n p s t
  proof -
    have "p div n < 2 ^ 63" "t div n < 2 ^ 63"
      using that by (auto simp: cfree_def intro: order_le_less_trans [OF div_le_dividend])
    with that have "p div n = t div n" by (intro empty_mark_inj) (auto simp: cfree_def)
    with that(4) show ?thesis by (metis div_mult_mod_eq)
  qed
  show "p mod n \<noteq> t mod n" if "1 \<le> n" "cfull p s" "cfree n t s" for n p s t
    using that empty_mark_not_valid by (auto simp: cfull_def cfree_def)
qed simp

text \<open>
  The history: the values accepted so far, of which those from position \<open>D\<close> on are in the slots.
  The indices are there or one behind.
\<close>

definition cshape :: "nat \<Rightarrow> MPMCCompactIndirect \<Rightarrow> bool" where
  "cshape k q \<longleftrightarrow> 1 \<le> k \<and> k \<le> 62 \<and> capacity q = 2 ^ k \<and> mask_q q = 2 ^ k - 1 \<and> order_q q = of_nat k
     \<and> length (buffer q) = 2 ^ k"

definition cphys :: "nat \<Rightarrow> u64 list \<Rightarrow> MPMCCompactIndirect \<Rightarrow> nat \<Rightarrow> nat \<Rightarrow> bool" where
  "cphys m xs q D T \<longleftrightarrow> (\<exists>k. cshape k q) \<and> window cfull cfree (length (buffer q)) D T (\<lambda>j. buffer q ! j)
     \<and> (\<forall>p. D \<le> p \<longrightarrow> p < T \<longrightarrow> buffer q ! (p mod length (buffer q)) = xs ! p)
     \<and> length xs = T \<and> T \<le> m \<and> T \<le> unat (head q) + length (buffer q)
     \<and> (D = unat (head q) \<or> D = Suc (unat (head q))) \<and> (T = unat (tail q) \<or> T = Suc (unat (tail q)))"

lemma cphysD:
  assumes "cphys m xs q D T"
  shows "0 < length (buffer q)" and "length (buffer q) \<le> 2 ^ 62" and "unat (capacity q) = length (buffer q)"
    and "unat (p AND mask_q q) = unat p mod length (buffer q)" and "unat p mod length (buffer q) < length (buffer q)"
    and "window cfull cfree (length (buffer q)) D T (\<lambda>j. buffer q ! j)" and "D \<le> T" and "T \<le> D + length (buffer q)"
    and "T \<le> m" and "T \<le> unat (head q) + length (buffer q)" and "D = unat (head q) \<or> D = Suc (unat (head q))"
    and "T = unat (tail q) \<or> T = Suc (unat (tail q))" and "length xs = T"
    and "\<And>p. D \<le> p \<Longrightarrow> p < T \<Longrightarrow> buffer q ! (p mod length (buffer q)) = xs ! p"
proof -
  from assms obtain k where k: "cshape k q" by (auto simp: cphys_def)
  then have k': "k \<le> 62" "length (buffer q) = 2 ^ k" "mask_q q = 2 ^ k - 1" "capacity q = 2 ^ k" by (auto simp: cshape_def)
  show "0 < length (buffer q)" using k' by simp
  show "length (buffer q) \<le> 2 ^ 62" using k' pow2_le_62 by simp
  show "unat (capacity q) = length (buffer q)" using k' by (simp add: unat_pow2)
  show "unat (p AND mask_q q) = unat p mod length (buffer q)" using k' by (simp add: unat_and_mask)
  show "unat p mod length (buffer q) < length (buffer q)" using k' by simp
  show w: "window cfull cfree (length (buffer q)) D T (\<lambda>j. buffer q ! j)" using assms by (simp add: cphys_def)
  show "D \<le> T" "T \<le> D + length (buffer q)" by (rule windowD [OF w])+
qed (use assms in \<open>auto simp: cphys_def\<close>)

lemma cphys_marks:
  assumes "cphys m xs q D T" and "m < 2 ^ 62" and "unat p \<le> T"
  shows "compact_expected q p = empty_mark (unat p div length (buffer q))"
    and "compact_nextEmpty q p = empty_mark ((unat p + length (buffer q)) div length (buffer q))"
    and "\<And>r. r \<le> T + length (buffer q) \<Longrightarrow> r < 2 ^ 63"
    and "unat (p + 1) = Suc (unat p)" and "unat (p + capacity q) = unat p + length (buffer q)"
proof -
  note P = cphysD [OF assms(1)]
  from assms(1) obtain k where k: "cshape k q" by (auto simp: cphys_def)
  then have k': "1 \<le> k" "k \<le> 62" "length (buffer q) = 2 ^ k" "unat (order_q q) = k"
    by (auto simp: cshape_def unat_of_nat_u64)
  have two: "(2 :: nat) ^ 63 = 2 ^ 62 + 2 ^ 62" "(2 :: nat) ^ 63 < 2 ^ 64" by simp_all
  have lt: "unat p + length (buffer q) < 2 ^ 64" using P(2,9) assms(2,3) two by linarith
  show "compact_expected q p = empty_mark (unat p div length (buffer q))"
    using compact_round [OF k'(1,2)] k' by (simp add: compact_expected_def Let_def)
  show "compact_nextEmpty q p = empty_mark ((unat p + length (buffer q)) div length (buffer q))"
    using compact_next_round(1) [OF k'(1,2)] lt k' by (simp add: compact_nextEmpty_def Let_def)
  show "r < 2 ^ 63" if "r \<le> T + length (buffer q)" for r using that P(2,9) assms(2) two by linarith
  from lt P(1) have "unat p + 1 < 2 ^ 64" by linarith
  then show "unat (p + 1) = Suc (unat p)" by (simp add: unat_Suc_no_wrap)
  show "unat (p + capacity q) = unat p + length (buffer q)" using lt P(3) by (simp add: unat_add_no_wrap)
qed

lemma cphys_mono: "cphys m xs q D T \<Longrightarrow> m \<le> m' \<Longrightarrow> cphys m' xs q D T"
  by (auto simp: cphys_def)

lemma cshape_upd [simp]:
  "cshape k (q\<lparr>buffer := (buffer q)[j := s]\<rparr>) = cshape k q"
  "cshape k (q\<lparr>head := h\<rparr>) = cshape k q" "cshape k (q\<lparr>tail := t\<rparr>) = cshape k q"
  by (simp_all add: cshape_def)

lemma cphys_tail: "cphys m xs q D T \<Longrightarrow> T = unat t \<Longrightarrow> cphys m xs (q\<lparr>tail := t\<rparr>) D T"
  by (auto simp: cphys_def)

lemma cphys_head: "cphys m xs q D T \<Longrightarrow> D = unat h \<Longrightarrow> cphys m xs (q\<lparr>head := h\<rparr>) D T"
  by (auto simp: cphys_def)

lemma cphys_push:
  assumes p: "cphys m xs q D T" and m: "m < 2 ^ 62" and t: "T = unat t" "tail q = t"
    and room: "T < unat (head q) + length (buffer q)" and x: "valid63 x"
    and q': "q' = q\<lparr>buffer := (buffer q)[unat t mod length (buffer q) := x]\<rparr>"
  shows "cphys (Suc m) (xs @ [x]) q' D (Suc T)"
proof -
  note P = cphysD [OF p]
  have n: "length (buffer q') = length (buffer q)" by (simp add: q')
  have f: "(\<lambda>j. buffer q' ! j) = (\<lambda>j. buffer q ! j)(T mod length (buffer q) := x)"
    using P(1) t by (auto simp: q' nth_list_update)
  have r: "T < D + length (buffer q)" using room P(11) by auto
  have x': "cfull T x" using x by (simp add: cfull_def)
  have "buffer q' ! (p mod length (buffer q')) = (xs @ [x]) ! p" if "D \<le> p" "p < Suc T" for p
    using that P(7,13) P(14) [of p] window_inj [of D p "length (buffer q)" T] r
    by (cases "p = T") (auto simp: n fun_cong [OF f] nth_append)
  moreover have "window cfull cfree (length (buffer q')) D (Suc T) (\<lambda>j. buffer q' ! j)"
    unfolding f n by (rule window_push(1) [OF P(6) r x'])
  moreover have "\<exists>k. cshape k q'" "head q' = head q" "tail q' = tail q" using p by (simp_all add: q' cphys_def)
  ultimately show ?thesis using P(9,11,13) t room n by (simp add: cphys_def)
qed

lemma cphys_pop:
  assumes p: "cphys m xs q D T" and m: "m < 2 ^ 62" and h: "D = unat h" "head q = h" and ne: "D < T"
    and q': "q' = q\<lparr>buffer := (buffer q)[unat h mod length (buffer q) := compact_nextEmpty q h]\<rparr>"
  shows "cphys (Suc m) xs q' (Suc D) T"
proof -
  note P = cphysD [OF p]
  have n: "length (buffer q') = length (buffer q)" by (simp add: q')
  have hT: "unat h \<le> T" using h ne by simp
  note M = cphys_marks [OF p m hT]
  have f: "(\<lambda>j. buffer q' ! j) = (\<lambda>j. buffer q ! j)(D mod length (buffer q) := compact_nextEmpty q h)"
    using P(1) h by (auto simp: q' nth_list_update)
  have s: "cfree (length (buffer q)) (D + length (buffer q)) (compact_nextEmpty q h)"
    using M(2) M(3) [of "D + length (buffer q)"] P(7) h by (simp add: cfree_def)
  note W = window_pop [OF P(6) ne s]
  have "buffer q' ! (p mod length (buffer q')) = xs ! p" if "Suc D \<le> p" "p < T" for p
    using that P(8) P(14) [of p] W(3) [of p] by (simp add: n fun_cong [OF f])
  moreover have "window cfull cfree (length (buffer q')) (Suc D) T (\<lambda>j. buffer q' ! j)"
    unfolding f n by (rule W(1))
  moreover have "\<exists>k. cshape k q'" "head q' = head q" "tail q' = tail q" using p by (simp_all add: q' cphys_def)
  ultimately show ?thesis using P(9,10,12,13) h n by (simp add: cphys_def)
qed

text \<open>What a producer and a consumer learn from their slot.\<close>

lemma cenq_slot:
  assumes p: "cphys m xs q D T" and m: "m < 2 ^ 62" and t: "unat t \<le> T" "unat t < unat (head q) + length (buffer q)"
  shows "buffer q ! (unat t mod length (buffer q)) = compact_expected q t \<longleftrightarrow> unat t = T"
proof -
  note P = cphysD [OF p] and M = cphys_marks [OF p m t(1)]
  have t63: "unat t < 2 ^ 63" using M(3) [of "unat t"] t(1) by simp
  show ?thesis
  proof
    assume "buffer q ! (unat t mod length (buffer q)) = compact_expected q t"
    then have s: "cfree (length (buffer q)) (unat t) (buffer q ! (unat t mod length (buffer q)))"
      using t63 M(1) by (simp add: cfree_def)
    from P(1) have "1 \<le> length (buffer q)" by linarith
    from word.free_at_tail(1) [OF P(6) this t(1) s] show "unat t = T" .
  next
    assume T: "unat t = T"
    have "T < D + length (buffer q)" using t(2) P(11) T by auto
    then have "cfree (length (buffer q)) T (buffer q ! (T mod length (buffer q)))" using windowD(4) [OF P(6), of T] by simp
    then show "buffer q ! (unat t mod length (buffer q)) = compact_expected q t" using M(1) T by (simp add: cfree_def)
  qed
qed

lemma cdeq_slot:
  assumes p: "cphys m xs q D T" and h: "unat h = unat (head q)" "unat h < unat (tail q)"
  shows "valid63 (buffer q ! (unat h mod length (buffer q))) \<Longrightarrow>
      unat h = D \<and> buffer q ! (unat h mod length (buffer q)) = xs ! unat h"
    and "\<not> valid63 (buffer q ! (unat h mod length (buffer q))) \<Longrightarrow> unat h < D"
    and "D < T \<Longrightarrow> valid63 (buffer q ! (D mod length (buffer q)))"
proof -
  note P = cphysD [OF p]
  show v: "valid63 (buffer q ! (D mod length (buffer q)))" if "D < T"
    using windowD(3) [OF P(6), of D] that by (simp add: cfull_def)
  have hT: "unat h < T" using h(2) P(12) by auto
  show "unat h < D" if "\<not> valid63 (buffer q ! (unat h mod length (buffer q)))"
    using v that P(11) h(1) hT by auto
  have "\<not> valid63 (buffer q ! (unat h mod length (buffer q)))" if D: "D = Suc (unat h)"
  proof -
    have "unat h + length (buffer q) < D + length (buffer q)" "T \<le> unat h + length (buffer q)" using D P(10) h(1) by simp_all
    then have "cfree (length (buffer q)) (unat h + length (buffer q)) (buffer q ! (unat h mod length (buffer q)))"
      using windowD(4) [OF P(6), of "unat h + length (buffer q)"] by simp
    then show ?thesis using empty_mark_not_valid by (auto simp: cfree_def)
  qed
  then show "unat h = D \<and> buffer q ! (unat h mod length (buffer q)) = xs ! unat h"
    if "valid63 (buffer q ! (unat h mod length (buffer q)))"
    using that P(11) h(1) hT P(14) [of "unat h"] by auto
qed

section \<open>\<open>MPMCCompactIndirect\<close>\<close>

text \<open>The values a trace accepts and delivers, and what one step adds to them.\<close>

definition acc_vals :: "(u64 call \<times> u64 answer) list \<Rightarrow> u64 list" where
  "acc_vals ls = accepted (map fst ls) (map snd ls)"

definition del_vals :: "(u64 call \<times> u64 answer) list \<Rightarrow> u64 list" where
  "del_vals ls = delivered (map snd ls)"

definition enq_vals :: "(u64 call \<times> u64 answer) option \<Rightarrow> u64 list" where
  "enq_vals l = acc_vals (append_label [] l)"

definition deq_vals :: "(u64 call \<times> u64 answer) option \<Rightarrow> u64 list" where
  "deq_vals l = del_vals (append_label [] l)"

lemma enq_deq_vals_simps [simp]:
  "enq_vals None = []" "enq_vals (Some (Enqueue x, EnqueueRet None)) = [x]"
  "enq_vals (Some (Enqueue x, EnqueueRet (Some e))) = []" "enq_vals (Some (Dequeue, a)) = []"
  "deq_vals None = []" "deq_vals (Some (c, DequeueRet v None)) = [v]"
  "deq_vals (Some (c, DequeueRet v (Some e))) = []" "deq_vals (Some (c, EnqueueRet r)) = []"
  by (simp_all add: enq_vals_def deq_vals_def acc_vals_def del_vals_def)

lemma accepted_append:
  "length cs = length as \<Longrightarrow> accepted (cs @ ds) (as @ bs) = accepted cs as @ accepted ds bs"
  by (induction cs as rule: accepted.induct) auto

lemma delivered_append: "delivered (as @ bs) = delivered as @ delivered bs"
  by (induction as rule: delivered.induct) auto

lemma acc_vals_append_label: "acc_vals (append_label ls l) = acc_vals ls @ enq_vals l"
  by (cases l) (simp_all add: enq_vals_def acc_vals_def accepted_append)

lemma del_vals_append_label: "del_vals (append_label ls l) = del_vals ls @ deq_vals l"
  by (cases l) (simp_all add: deq_vals_def del_vals_def delivered_append)

lemma acc_vals_Nil [simp]: "acc_vals [] = []" "del_vals [] = []"
  by (simp_all add: acc_vals_def del_vals_def)

fun mpmcc_ok :: "u64 list \<Rightarrow> MPMCCompactIndirect \<Rightarrow> nat \<Rightarrow> nat \<Rightarrow> mpmcc_pc \<Rightarrow> bool" where
  "mpmcc_ok xs q D T (KETail x) \<longleftrightarrow> valid63 x"
| "mpmcc_ok xs q D T (KEHead x t) \<longleftrightarrow> valid63 x \<and> unat t \<le> unat (tail q)"
| "mpmcc_ok xs q D T (KEReload x t h) \<longleftrightarrow> valid63 x \<and> unat t \<le> unat (tail q) \<and> unat h \<le> unat (head q)"
| "mpmcc_ok xs q D T (KECas x t) \<longleftrightarrow> valid63 x \<and> unat t \<le> unat (tail q) \<and> unat t < unat (head q) + length (buffer q)"
| "mpmcc_ok xs q D T (KEAdvance x t d) \<longleftrightarrow> valid63 x \<and> unat t < T"
| "mpmcc_ok xs q D T (KDTail h) \<longleftrightarrow> unat h \<le> unat (head q)"
| "mpmcc_ok xs q D T (KDSlot h t) \<longleftrightarrow> unat h \<le> unat (head q) \<and> unat t \<le> unat (tail q)"
| "mpmcc_ok xs q D T (KDReload h t e) \<longleftrightarrow> unat h \<le> unat (head q) \<and> unat t \<le> unat (tail q)
     \<and> (unat h = unat (head q) \<and> unat h < unat t \<longrightarrow> (if valid63 e then unat h < T \<and> e = xs ! unat h else unat h < D))"
| "mpmcc_ok xs q D T (KDCas h e) \<longleftrightarrow> unat h \<le> unat (head q) \<and> unat h < T \<and> valid63 e \<and> e = xs ! unat h"
| "mpmcc_ok xs q D T (KDAdvance h d) \<longleftrightarrow> unat h < D"
| "mpmcc_ok xs q D T _ \<longleftrightarrow> True"

definition compact_later :: "u64 list \<Rightarrow> MPMCCompactIndirect \<Rightarrow> nat \<Rightarrow> nat \<Rightarrow> u64 list \<Rightarrow> MPMCCompactIndirect \<Rightarrow> nat \<Rightarrow> nat \<Rightarrow> bool" where
  "compact_later xs q D T xs' q' D' T' \<longleftrightarrow> unat (head q) \<le> unat (head q') \<and> unat (tail q) \<le> unat (tail q') \<and> D \<le> D' \<and> T \<le> T'
     \<and> length (buffer q') = length (buffer q) \<and> (\<forall>p < T. xs' ! p = xs ! p)"

lemma mpmcc_ok_later:
  "mpmcc_ok xs q D T pc \<Longrightarrow> compact_later xs q D T xs' q' D' T' \<Longrightarrow> mpmcc_ok xs' q' D' T' pc"
  by (cases pc) (auto simp: compact_later_def split: if_splits)

text \<open>An index is behind only while a goroutine that has just used its slot is about to advance it.\<close>

fun owes_head :: "u64 \<Rightarrow> mpmcc_pc \<Rightarrow> bool" where
  "owes_head h (KDAdvance h' d) \<longleftrightarrow> h' = h"
| "owes_head h _ \<longleftrightarrow> False"

fun owes_tail :: "u64 \<Rightarrow> mpmcc_pc \<Rightarrow> bool" where
  "owes_tail t (KEAdvance x t' d) \<longleftrightarrow> t' = t"
| "owes_tail t _ \<longleftrightarrow> False"

definition mpmcc_base
  :: "nat \<Rightarrow> nat \<Rightarrow> nat \<Rightarrow> (u64 call \<times> u64 answer) list \<Rightarrow> (MPMCCompactIndirect, mpmcc_pc) goroutines \<Rightarrow> bool" where
  "mpmcc_base D T m ls c \<longleftrightarrow> cphys m (acc_vals ls) (memory c) D T \<and> del_vals ls = take D (acc_vals ls)
     \<and> (\<forall>i. mpmcc_ok (acc_vals ls) (memory c) D T (at_pc c i))
     \<and> (D = unat (head (memory c)) \<or> (\<exists>i. owes_head (head (memory c)) (at_pc c i)))
     \<and> (T = unat (tail (memory c)) \<or> (\<exists>i. owes_tail (tail (memory c)) (at_pc c i)))"

definition mpmcc_inv :: "nat \<Rightarrow> (u64 call \<times> u64 answer) list \<Rightarrow> (MPMCCompactIndirect, mpmcc_pc) goroutines \<Rightarrow> bool" where
  "mpmcc_inv m ls c \<longleftrightarrow> (\<exists>D T. mpmcc_base D T m ls c)"

lemma mpmcc_baseD:
  assumes "mpmcc_base D T m ls c"
  shows "cphys m (acc_vals ls) (memory c) D T" and "del_vals ls = take D (acc_vals ls)"
    and "mpmcc_ok (acc_vals ls) (memory c) D T (at_pc c i)"
    and "D = unat (head (memory c)) \<or> (\<exists>i. owes_head (head (memory c)) (at_pc c i))"
    and "T = unat (tail (memory c)) \<or> (\<exists>i. owes_tail (tail (memory c)) (at_pc c i))"
  using assms by (auto simp: mpmcc_base_def)

definition mpmcc_post
  :: "nat \<Rightarrow> u64 list \<Rightarrow> MPMCCompactIndirect \<Rightarrow> nat \<Rightarrow> nat \<Rightarrow> mpmcc_pc \<Rightarrow> (u64 call \<times> u64 answer) option \<Rightarrow> mpmcc_pc \<Rightarrow> MPMCCompactIndirect \<Rightarrow> bool" where
  "mpmcc_post m xs q D T pc l pc' q' \<longleftrightarrow> (\<exists>D' T'. cphys (Suc m) (xs @ enq_vals l) q' D' T' \<and> take D' (xs @ enq_vals l) = take D xs @ deq_vals l
     \<and> mpmcc_ok (xs @ enq_vals l) q' D' T' pc' \<and> compact_later xs q D T (xs @ enq_vals l) q' D' T'
     \<and> (D' = unat (head q') \<or> owes_head (head q') pc' \<or> D' = D \<and> head q' = head q \<and> \<not> owes_head (head q) pc)
     \<and> (T' = unat (tail q') \<or> owes_tail (tail q') pc' \<or> T' = T \<and> tail q' = tail q \<and> \<not> owes_tail (tail q) pc))"

lemma mpmcc_same:
  assumes "cphys m xs q D T" and "mpmcc_ok xs q D T pc'" and "enq_vals l = []" and "deq_vals l = []"
    and "D = unat (head q) \<or> \<not> owes_head (head q) pc" and "T = unat (tail q) \<or> \<not> owes_tail (tail q) pc"
  shows "mpmcc_post m xs q D T pc l pc' q"
  unfolding mpmcc_post_def
  by (intro exI [of _ D] exI [of _ T]) (use assms cphys_mono [OF assms(1), of "Suc m"] in \<open>auto simp: compact_later_def\<close>)

lemma mpmcc_inv_post:
  assumes B: "mpmcc_base D T m ls c" and post: "mpmcc_post m (acc_vals ls) (memory c) D T (at_pc c i) l pc q"
  shows "mpmcc_inv (Suc m) (append_label ls l) (c\<lparr>memory := q, at_pc := (at_pc c)(i := pc)\<rparr>)"
proof -
  let ?q = "memory c" and ?c = "c\<lparr>memory := q, at_pc := (at_pc c)(i := pc)\<rparr>" and ?xs = "acc_vals ls @ enq_vals l"
  note I = mpmcc_baseD [OF B]
  from post obtain D' T' where p: "cphys (Suc m) ?xs q D' T'" and t: "take D' ?xs = take D (acc_vals ls) @ deq_vals l"
    and ok: "mpmcc_ok ?xs q D' T' pc" and la: "compact_later (acc_vals ls) ?q D T ?xs q D' T'"
    and oh: "D' = unat (head q) \<or> owes_head (head q) pc \<or> D' = D \<and> head q = head ?q \<and> \<not> owes_head (head ?q) (at_pc c i)"
    and ot: "T' = unat (tail q) \<or> owes_tail (tail q) pc \<or> T' = T \<and> tail q = tail ?q \<and> \<not> owes_tail (tail ?q) (at_pc c i)"
    unfolding mpmcc_post_def by blast
  have "mpmcc_ok ?xs q D' T' (at_pc ?c j)" for j using ok mpmcc_ok_later [OF I(3) la, of j] by simp
  moreover have "D' = unat (head q) \<or> (\<exists>j. owes_head (head q) (at_pc ?c j))"
    using oh I(4) by simp metis
  moreover have "T' = unat (tail q) \<or> (\<exists>j. owes_tail (tail q) (at_pc ?c j))"
    using ot I(5) by simp metis
  ultimately have "mpmcc_base D' T' (Suc m) (append_label ls l) ?c"
    using p t I(2) by (simp add: mpmcc_base_def acc_vals_append_label del_vals_append_label)
  then show ?thesis unfolding mpmcc_inv_def by blast
qed

abbreviation mpmcc_step where
  "mpmcc_step A \<equiv> go_step (MPMCCompactIndirect_step A) KIdle KECall KDHead (\<lambda>_. True) (\<lambda>_. True)"

context atomix_sem
begin

lemma mpmcc_enq:
  assumes p: "cphys m xs q D T" and m: "m < 2 ^ 62"
  shows "mpmcc_ok xs q D T (KEReload x t h) \<Longrightarrow> MPMCCompactIndirect_step A (KEReload x t h) q = ret (l, pc', q') \<Longrightarrow>
      mpmcc_post m xs q D T (KEReload x t h) l pc' q'"
    and "mpmcc_ok xs q D T (KECas x t) \<Longrightarrow> MPMCCompactIndirect_step A (KECas x t) q = ret (l, pc', q') \<Longrightarrow>
      mpmcc_post m xs q D T (KECas x t) l pc' q'"
    and "mpmcc_ok xs q D T (KEAdvance x t d) \<Longrightarrow> MPMCCompactIndirect_step A (KEAdvance x t d) q = ret (l, pc', q') \<Longrightarrow>
      mpmcc_post m xs q D T (KEAdvance x t d) l pc' q'"
proof -
  note P = cphysD [OF p]
  have tT: "unat (tail q) \<le> T" using P(12) by auto
  have hT: "unat (head q) \<le> T" using P(7,11) by auto
  show "mpmcc_post m xs q D T (KEReload x t h) l pc' q'"
    if ok: "mpmcc_ok xs q D T (KEReload x t h)" and st: "MPMCCompactIndirect_step A (KEReload x t h) q = ret (l, pc', q')"
  proof -
    have "unat h \<le> T" using ok hT by simp
    note M = cphys_marks(5) [OF p m this]
    have "h + capacity q \<le> t \<longleftrightarrow> unat h + length (buffer q) \<le> unat t" by (simp add: word_le_nat_alt M)
    with st p ok show ?thesis by (auto split: if_splits intro!: mpmcc_same)
  qed
  show "mpmcc_post m xs q D T (KECas x t) l pc' q'"
    if ok: "mpmcc_ok xs q D T (KECas x t)" and st: "MPMCCompactIndirect_step A (KECas x t) q = ret (l, pc', q')"
  proof -
    have t: "unat t \<le> T" "unat t < unat (head q) + length (buffer q)" using ok tT by auto
    note S = cenq_slot [OF p m t]
    show ?thesis
    proof (cases "unat t = T")
      case True
      then have tl: "tail q = t" using ok tT by (auto simp: word_unat_eq_iff)
      from S True have "buffer q ! (unat t mod length (buffer q)) = compact_expected q t" by simp
      with st P(4,5) have r: "l = Some (Enqueue x, EnqueueRet None)" "pc' = KEAdvance x t True"
        "q' = q\<lparr>buffer := (buffer q)[unat t mod length (buffer q) := x]\<rparr>"
        by (simp_all add: Let_def casUintptr)
      have x: "valid63 x" using ok by simp
      note U = cphys_push [OF p m True [symmetric] tl _ x r(3)]
      show ?thesis unfolding mpmcc_post_def
        by (intro exI [of _ D] exI [of _ "Suc T"])
          (use U t True x P(7,13) tl in \<open>auto simp: r compact_later_def nth_append\<close>)
    next
      case False
      with st p P(4,5) S ok t show ?thesis by (auto simp: Let_def casUintptr intro!: mpmcc_same)
    qed
  qed
  show "mpmcc_post m xs q D T (KEAdvance x t d) l pc' q'"
    if ok: "mpmcc_ok xs q D T (KEAdvance x t d)" and st: "MPMCCompactIndirect_step A (KEAdvance x t d) q = ret (l, pc', q')"
  proof (cases "tail q = t")
    case True
    then have "unat t \<le> T" using tT by simp
    note t1 = cphys_marks(4) [OF p m this]
    then have T: "T = unat (t + 1)" using True ok P(12) by auto
    from st True have r: "l = None" "pc' = (if d then KIdle else KETail x)" "q' = q\<lparr>tail := t + 1\<rparr>" by (simp_all add: cas64)
    have "unat (tail q) \<le> unat (t + 1)" using t1 True by simp
    then show ?thesis unfolding mpmcc_post_def
      by (intro exI [of _ D] exI [of _ T])
        (use cphys_mono [OF cphys_tail [OF p T], of "Suc m"] ok T in \<open>auto simp: r compact_later_def\<close>)
  next
    case False
    with st p ok show ?thesis by (auto simp: cas64 intro!: mpmcc_same)
  qed
qed

text \<open>Where values do not repeat, a slot that still holds the value read from it has not been used since.\<close>

lemma cdeq_fresh:
  assumes p: "cphys m xs q D T" and d: "distinct xs" and h: "unat h \<le> unat (head q)" "unat h < T"
    and e: "valid63 (xs ! unat h)"
  shows "buffer q ! (unat h mod length (buffer q)) = xs ! unat h \<longleftrightarrow> unat h = D"
proof
  note P = cphysD [OF p]
  assume s: "buffer q ! (unat h mod length (buffer q)) = xs ! unat h"
  from window_slot [OF P(1), of D "unat h"] obtain r where
    r: "D \<le> r" "r < D + length (buffer q)" "r mod length (buffer q) = unat h mod length (buffer q)" by blast
  have "r < T"
  proof (rule ccontr)
    assume "\<not> r < T"
    then have "cfree (length (buffer q)) r (buffer q ! (unat h mod length (buffer q)))" using windowD(4) [OF P(6), of r] r by simp
    with s e empty_mark_not_valid show False by (auto simp: cfree_def)
  qed
  with P(14) [of r] r s have "xs ! r = xs ! unat h" by simp
  with \<open>r < T\<close> h(2) P(13) d have "r = unat h" by (simp add: nth_eq_iff_index_eq)
  with r(1) h(1) P(11) show "unat h = D" by auto
next
  assume "unat h = D"
  then show "buffer q ! (unat h mod length (buffer q)) = xs ! unat h" using cphysD(14) [OF p, of D] h(2) by simp
qed

lemma mpmcc_deq:
  assumes p: "cphys m xs q D T" and m: "m < 2 ^ 62"
  shows "mpmcc_ok xs q D T (KDSlot h t) \<Longrightarrow> MPMCCompactIndirect_step A (KDSlot h t) q = ret (l, pc', q') \<Longrightarrow>
      mpmcc_post m xs q D T (KDSlot h t) l pc' q'"
    and "mpmcc_ok xs q D T (KDReload h t e) \<Longrightarrow> MPMCCompactIndirect_step A (KDReload h t e) q = ret (l, pc', q') \<Longrightarrow>
      mpmcc_post m xs q D T (KDReload h t e) l pc' q'"
proof -
  note P = cphysD [OF p]
  have hT: "unat (head q) \<le> T" using P(7,11) by auto
  show "mpmcc_post m xs q D T (KDSlot h t) l pc' q'"
    if ok: "mpmcc_ok xs q D T (KDSlot h t)" and st: "MPMCCompactIndirect_step A (KDSlot h t) q = ret (l, pc', q')"
  proof -
    let ?e = "buffer q ! (unat h mod length (buffer q))"
    have r: "l = None" "pc' = KDReload h t ?e" "q' = q" using st P(4,5) by (auto simp: Let_def)
    have "if valid63 ?e then unat h < T \<and> ?e = xs ! unat h else unat h < D"
      if "unat h = unat (head q)" "unat h < unat t"
    proof -
      have lt: "unat h < unat (tail q)" using that ok by simp
      then have "unat h < T" using P(12) by auto
      with cdeq_slot [OF p that(1) lt] show ?thesis by auto
    qed
    then have "mpmcc_ok xs q D T pc'" using ok unfolding r mpmcc_ok.simps by blast
    from mpmcc_same [OF p this] show ?thesis by (simp add: r)
  qed
  show "mpmcc_post m xs q D T (KDReload h t e) l pc' q'"
    if ok: "mpmcc_ok xs q D T (KDReload h t e)" and st: "MPMCCompactIndirect_step A (KDReload h t e) q = ret (l, pc', q')"
  proof -
    have "unat h \<le> T" using ok hT by simp
    from cphys_marks(2) [OF p m this] have "\<not> valid63 (compact_nextEmpty q h)" using empty_mark_not_valid by simp
    moreover have "(e AND emptyFlag = 0) = valid63 e" by (simp add: valid63_def)
    moreover have "(t \<le> h) = (unat t \<le> unat h)" by (simp add: word_le_nat_alt)
    ultimately show ?thesis using st p ok by (auto split: if_splits intro!: mpmcc_same)
  qed
qed

lemma mpmcc_deq_cas:
  assumes p: "cphys m xs q D T" and m: "m < 2 ^ 62" and d: "distinct xs"
  shows "mpmcc_ok xs q D T (KDCas h e) \<Longrightarrow> MPMCCompactIndirect_step A (KDCas h e) q = ret (l, pc', q') \<Longrightarrow>
      mpmcc_post m xs q D T (KDCas h e) l pc' q'"
    and "mpmcc_ok xs q D T (KDAdvance h b) \<Longrightarrow> MPMCCompactIndirect_step A (KDAdvance h b) q = ret (l, pc', q') \<Longrightarrow>
      mpmcc_post m xs q D T (KDAdvance h b) l pc' q'"
proof -
  note P = cphysD [OF p]
  have hD: "unat (head q) \<le> D" using P(11) by auto
  show "mpmcc_post m xs q D T (KDCas h e) l pc' q'"
    if ok: "mpmcc_ok xs q D T (KDCas h e)" and st: "MPMCCompactIndirect_step A (KDCas h e) q = ret (l, pc', q')"
  proof -
    have S: "buffer q ! (unat h mod length (buffer q)) = e \<longleftrightarrow> unat h = D"
      using cdeq_fresh [OF p d, of h] ok by auto
    show ?thesis
    proof (cases "unat h = D")
      case True
      then have hd: "head q = h" using ok hD by (auto simp: word_unat_eq_iff)
      have ne: "D < T" using ok True by simp
      from S True have "buffer q ! (unat h mod length (buffer q)) = e" by simp
      with st P(4,5) have r: "l = Some (Dequeue, DequeueRet e None)" "pc' = KDAdvance h True"
        "q' = q\<lparr>buffer := (buffer q)[unat h mod length (buffer q) := compact_nextEmpty q h]\<rparr>"
        by (simp_all add: Let_def casUintptr)
      note U = cphys_pop [OF p m True [symmetric] hd ne r(3)]
      have "take (Suc D) xs = take D xs @ [e]" using ne P(13) ok True by (simp add: take_Suc_conv_app_nth)
      then show ?thesis unfolding mpmcc_post_def
        by (intro exI [of _ "Suc D"] exI [of _ T]) (use U True hd in \<open>auto simp: r compact_later_def\<close>)
    next
      case False
      moreover from this have "unat h < D" using ok hD by simp
      ultimately show ?thesis using st p P(4,5) S by (auto simp: Let_def casUintptr intro!: mpmcc_same)
    qed
  qed
  show "mpmcc_post m xs q D T (KDAdvance h b) l pc' q'"
    if ok: "mpmcc_ok xs q D T (KDAdvance h b)" and st: "MPMCCompactIndirect_step A (KDAdvance h b) q = ret (l, pc', q')"
  proof (cases "head q = h")
    case True
    then have "unat h \<le> T" using hD P(7) by simp
    note h1 = cphys_marks(4) [OF p m this]
    then have D: "D = unat (h + 1)" using True ok P(11) by auto
    from st True have r: "l = None" "pc' = (if b then KIdle else KDHead)" "q' = q\<lparr>head := h + 1\<rparr>" by (simp_all add: cas64)
    have "unat (head q) \<le> unat (h + 1)" using h1 True by simp
    then show ?thesis unfolding mpmcc_post_def
      by (intro exI [of _ D] exI [of _ T])
        (use cphys_mono [OF cphys_head [OF p D], of "Suc m"] ok D in \<open>auto simp: r compact_later_def\<close>)
  next
    case False
    with st p ok show ?thesis by (auto simp: cas64 intro!: mpmcc_same)
  qed
qed

lemma mpmcc_run:
  assumes p: "cphys m xs q D T" and m: "m < 2 ^ 62" and d: "distinct xs" and ok: "mpmcc_ok xs q D T pc"
    and st: "MPMCCompactIndirect_step A pc q = ret (l, pc', q')"
  shows "mpmcc_post m xs q D T pc l pc' q'"
proof (cases pc)
  case (KECall x)
  then show ?thesis using st p by (auto simp: valid63_def split: if_splits intro!: mpmcc_same)
next
  case (KETail x)
  then show ?thesis using st p ok by (auto intro!: mpmcc_same)
next
  case (KEHead x t)
  then show ?thesis using st p ok by (auto intro!: mpmcc_same)
next
  case (KDTail h)
  then show ?thesis using st p ok by (auto intro!: mpmcc_same)
next
  case KIdle
  then show ?thesis using st p by (auto intro!: mpmcc_same)
next
  case KDHead
  then show ?thesis using st p by (auto intro!: mpmcc_same)
qed (use ok st mpmcc_enq [OF p m] mpmcc_deq [OF p m] mpmcc_deq_cas [OF p m d] in metis)+

lemma mpmcc_step_inv:
  assumes I: "mpmcc_inv m ls c" and m: "m < 2 ^ 62" and d: "distinct (acc_vals ls)" and step: "mpmcc_step A c l c'"
  shows "mpmcc_inv (Suc m) (append_label ls l) c'"
proof -
  from I obtain D T where B: "mpmcc_base D T m ls c" unfolding mpmcc_inv_def by blast
  note p = mpmcc_baseD(1) [OF B] and ok = mpmcc_baseD(3) [OF B]
  note post = mpmcc_inv_post [OF B]
  from step show ?thesis
  proof cases
    case (go_call_Enqueue i x)
    have "mpmcc_post m (acc_vals ls) (memory c) D T (at_pc c i) None (KECall x) (memory c)"
      using p go_call_Enqueue by (auto intro!: mpmcc_same)
    from post [OF this] go_call_Enqueue show ?thesis by simp
  next
    case (go_call_Dequeue i)
    have "mpmcc_post m (acc_vals ls) (memory c) D T (at_pc c i) None KDHead (memory c)"
      using p go_call_Dequeue by (auto intro!: mpmcc_same)
    from post [OF this] go_call_Dequeue show ?thesis by simp
  next
    case (go_run i pc q')
    from post [OF mpmcc_run [OF p m d ok go_run(3)]] go_run(1) show ?thesis by simp
  qed
qed

lemma mpmcc_exec_length:
  assumes "exec (mpmcc_step A) c0 m ls c"
  shows "length (buffer (memory c)) = length (buffer (memory c0))"
proof (rule exec_invariant [OF assms _ order_refl, where P = "\<lambda>_ c. length (buffer (memory c)) = length (buffer (memory c0))"])
  show "length (buffer (memory d')) = length (buffer (memory c0))"
    if "length (buffer (memory d)) = length (buffer (memory c0))" "mpmcc_step A d l d'" for d l d'
    using that(2)
  proof cases
    case (go_run i pc q)
    with that(1) show ?thesis by (cases "at_pc d i") (auto simp: Let_def split: if_splits prod.splits)
  qed (use that(1) in simp_all)
qed simp_all

lemma mpmcc_exec_inv:
  assumes "exec (mpmcc_step A) c0 m ls c" and "mpmcc_inv 0 [] c0" and "m \<le> 2 ^ 62" and "distinct (acc_vals ls)"
  shows "mpmcc_inv m ls c"
proof -
  have "distinct (acc_vals ls) \<longrightarrow> mpmcc_inv m ls c"
  proof (rule exec_trace_invariant [OF assms(1) _ assms(3)])
    show "distinct (acc_vals []) \<longrightarrow> mpmcc_inv 0 [] c0" using assms(2) by simp
    show "distinct (acc_vals (append_label ls l)) \<longrightarrow> mpmcc_inv (Suc m) (append_label ls l) c'"
      if "distinct (acc_vals ls) \<longrightarrow> mpmcc_inv m ls c" "m < 2 ^ 62" "mpmcc_step A c l c'" for m ls c l c'
      using that mpmcc_step_inv [of m ls c l c'] by (auto simp: acc_vals_append_label)
  qed
  with assms(4) show ?thesis by simp
qed

end

text \<open>What was accepted is what was delivered, in order, and then what is in the slots.\<close>

lemma cphys_rest:
  assumes p: "cphys m xs q D T"
  shows "length (drop D xs) \<le> length (buffer q)"
    and "D = unat (head q) \<Longrightarrow> T = unat (tail q) \<Longrightarrow> compact_elems q = drop D xs"
proof -
  note P = cphysD [OF p]
  show "length (drop D xs) \<le> length (buffer q)" using P(7,8,13) by simp
  show "compact_elems q = drop D xs" if "D = unat (head q)" "T = unat (tail q)"
  proof (rule nth_equalityI)
    show "length (compact_elems q) = length (drop D xs)" using that P(13) by (simp add: compact_elems_def)
    fix j
    assume "j < length (compact_elems q)"
    with that P(13) show "compact_elems q ! j = drop D xs ! j"
      using P(14) [of "D + j"] by (simp add: compact_elems_def nth_ring_list)
  qed
qed

lemma mpmcc_results:
  assumes "mpmcc_inv m ls c"
  shows "\<exists>rest. acc_vals ls = del_vals ls @ rest \<and> length rest \<le> length (buffer (memory c))
    \<and> ((\<forall>i. at_pc c i = KIdle) \<longrightarrow> rest = compact_elems (memory c))"
proof -
  from assms obtain D T where B: "mpmcc_base D T m ls c" unfolding mpmcc_inv_def by blast
  note I = mpmcc_baseD [OF B] and R = cphys_rest [OF mpmcc_baseD(1) [OF B]]
  have "compact_elems (memory c) = drop D (acc_vals ls)" if "\<And>i. at_pc c i = KIdle"
    using I(4,5) R(2) that by simp
  then show ?thesis using I(2) R(1) by (intro exI [of _ "drop D (acc_vals ls)"]) auto
qed

text \<open>A new queue.\<close>

lemma NewMPMCCompactIndirect_phys:
  assumes q: "NewMPMCCompactIndirect c = ret q" and c: "2 \<le> sint c" "sint c \<le> 2 ^ 62"
  shows "cphys 0 [] q 0 0" and "length (buffer q) = unat (roundToPow2 c)" and "head q = 0" and "tail q = 0"
proof -
  from c obtain k where k: "1 \<le> k" "k \<le> 62" "roundToPow2 c = 2 ^ k" by (rule roundToPow2_in_range) blast
  have o: "order_loop (2 ^ k) 0 = ret (of_nat k)" using order_loop_pow2 [of k 0] k(2) by simp
  have f: "fold (\<lambda>i buf. buf[i := emptyFlag OR 0]) [0..<2 ^ k] (replicate (2 ^ k) 0)
      = map (\<lambda>i. emptyFlag) [0..<2 ^ k]"
    using fold_init_replicate [of "\<lambda>_ _. emptyFlag" "2 ^ k" 0] by simp
  have e: "q = \<lparr>tail = 0, head = 0, buffer = map (\<lambda>i. emptyFlag) [0..<2 ^ k], mask_q = 2 ^ k - 1, capacity = 2 ^ k, order_q = of_nat k\<rparr>"
    using q c k o f pow2_le_62 [OF k(2)]
    by (auto simp: NewMPMCCompactIndirect_def Let_def make_slice_def unat_pow2 sint_pow2)
  show "length (buffer q) = unat (roundToPow2 c)" "head q = 0" "tail q = 0" using k by (simp_all add: e unat_pow2)
  have "(2 :: nat) ^ k < 2 ^ 63" using pow2_le_62 [OF k(2)] by simp
  then have "window cfull cfree (2 ^ k) 0 0 (\<lambda>j. map (\<lambda>i. emptyFlag) [0..<2 ^ k] ! j)"
    by (auto simp: window_def cfree_def empty_mark_def intro: less_trans)
  with k show "cphys 0 [] q 0 0" by (auto simp: cphys_def cshape_def e)
qed

lemma mpmcc_init:
  assumes "NewMPMCCompactIndirect c = ret q" and "2 \<le> sint c" and "sint c \<le> 2 ^ 62"
  shows "mpmcc_inv 0 [] (go_init q KIdle)"
  using NewMPMCCompactIndirect_phys [OF assms]
  by (auto simp: mpmcc_inv_def mpmcc_base_def go_init_def intro!: exI [of _ 0])

lemma NewMPMCCompactIndirect_2:
  "NewMPMCCompactIndirect 2 = ret \<lparr>tail = 0, head = 0, buffer = [emptyFlag, emptyFlag], mask_q = 1, capacity = 2, order_q = 1\<rparr>"
proof -
  have o: "order_loop 2 0 = ret 1" using order_loop_pow2 [of 1 0] by simp
  have "[0..<2] = [0, 1]" "replicate 2 z = [z, z]" for z :: u64 by (simp_all add: upt_rec numeral_2_eq_2)
  then show ?thesis by (simp add: roundToPow2_2 o NewMPMCCompactIndirect_def make_slice_def)
qed

section \<open>A call alone\<close>

context atomix_sem
begin

lemma MPMCCompactIndirect_steps:
  assumes "compact_good k (Suc b) q"
  shows "valid63 x \<Longrightarrow> run_alone (MPMCCompactIndirect_step A) KIdle None (KECall x) q
      = go_bind (MPMCCompactIndirect_Enqueue A x q) (\<lambda>(e, q'). ret (Some (Enqueue x, EnqueueRet e), q'))"
    and "run_alone (MPMCCompactIndirect_step A) KIdle None KDHead q
      = go_bind (MPMCCompactIndirect_Dequeue A q) (\<lambda>((v, e), q'). ret (Some (Dequeue, DequeueRet v e), q'))"
proof -
  note S = compact_shapeD [OF compact_goodD(1) [OF assms]] and E = compact_enq_facts [OF assms] and D = compact_deq_facts [OF assms]
  note u = run_alone_simps Let_def S rmw compact_push_def compact_pop_def compact_expected_def compact_nextEmpty_def
  show "run_alone (MPMCCompactIndirect_step A) KIdle None (KECall x) q
      = go_bind (MPMCCompactIndirect_Enqueue A x q) (\<lambda>(e, q'). ret (Some (Enqueue x, EnqueueRet e), q'))" if "valid63 x"
    using E that compact_Enqueue_eq(1) [OF assms that] unfolding valid63_def by (simp add: u)
  show "run_alone (MPMCCompactIndirect_step A) KIdle None KDHead q
      = go_bind (MPMCCompactIndirect_Dequeue A q) (\<lambda>((v, e), q'). ret (Some (Dequeue, DequeueRet v e), q'))"
    using D(1-4) compact_Dequeue_eq(1) [OF assms] unfolding valid63_def by (simp add: u)
qed

end

end
