(* ===== verification/Compact_OneSided.thy ===== *)
theory Compact_OneSided
  imports Compact_Concurrent
begin

text \<open>
  Goroutines interleaved on the compact queue with one consumer, \<open>MPSCCompactIndirect\<close>
  (\<open>mpsc_compact.go\<close>). The consumer, goroutine 0, empties the slot it has read with a plain store:
  no other goroutine takes values, so repeated values do no harm here.
\<close>

section \<open>Atomic steps\<close>

datatype mpscc_pc = LIdle
  | LECall u64 | LETail u64 | LEHead u64 u64 | LECas u64 u64 | LEAdvance u64 u64 bool
  | LDHead | LDTail u64 | LDSlot u64 | LDStore u64 u64 | LDPublish u64 u64

fun MPSCCompactIndirect_step :: "atomix \<Rightarrow> mpscc_pc \<Rightarrow> MPSCCompactIndirect
    \<Rightarrow> ((u64 call \<times> u64 answer) option \<times> mpscc_pc \<times> MPSCCompactIndirect) go" where
  "MPSCCompactIndirect_step A LIdle q = ret (None, LIdle, q)"
| "MPSCCompactIndirect_step A (LECall elem) q =
     (if elem AND emptyFlag \<noteq> 0 then panics (PanicMsg ''lfq: value exceeds 63 bits'')
      else ret (None, LETail elem, q))"
| "MPSCCompactIndirect_step A (LETail elem) q = ret (None, LEHead elem (tail q), q)"
| "MPSCCompactIndirect_step A (LEHead elem t) q =
     (if t \<ge> head q + capacity q then ret (Some (Enqueue elem, EnqueueRet (Some ErrWouldBlock)), LIdle, q)
      else ret (None, LECas elem t, q))"
| "MPSCCompactIndirect_step A (LECas elem t) q =
     (let i = unat (t AND mask_q q)
      in if \<not> i < length (buffer q) then panics IndexOutOfRange
         else case CompareAndSwapUintptr A (buffer q ! i) (compact_expected q t) elem of (swapped, cell) \<Rightarrow>
           let q = q\<lparr>buffer := (buffer q)[i := cell]\<rparr>
           in if swapped then ret (Some (Enqueue elem, EnqueueRet None), LEAdvance elem t True, q)
              else ret (None, LEAdvance elem t False, q))"
| "MPSCCompactIndirect_step A (LEAdvance elem t done) q =
     ret (None, if done then LIdle else LETail elem, q\<lparr>tail := snd (CompareAndSwap64 A (tail q) t (t + 1))\<rparr>)"
| "MPSCCompactIndirect_step A LDHead q = ret (None, LDTail (head q), q)"
| "MPSCCompactIndirect_step A (LDTail h) q =
     (if h \<ge> tail q then ret (Some (Dequeue, DequeueRet 0 (Some ErrWouldBlock)), LIdle, q)
      else ret (None, LDSlot h, q))"
| "MPSCCompactIndirect_step A (LDSlot h) q =
     (let i = unat (h AND mask_q q)
      in if \<not> i < length (buffer q) then panics IndexOutOfRange
         else let elem = buffer q ! i
           in if elem AND emptyFlag \<noteq> 0 then ret (Some (Dequeue, DequeueRet 0 (Some ErrWouldBlock)), LIdle, q)
              else ret (None, LDStore h elem, q))"
| "MPSCCompactIndirect_step A (LDStore h elem) q =
     (let i = unat (h AND mask_q q)
      in if \<not> i < length (buffer q) then panics IndexOutOfRange
         else ret (Some (Dequeue, DequeueRet elem None), LDPublish h elem,
                   q\<lparr>buffer := (buffer q)[i := compact_nextEmpty q h]\<rparr>))"
| "MPSCCompactIndirect_step A (LDPublish h elem) q = ret (None, LIdle, q\<lparr>head := h + 1\<rparr>)"

section \<open>Invariant\<close>

fun mpscc_ok :: "MPSCCompactIndirect \<Rightarrow> nat \<Rightarrow> mpscc_pc \<Rightarrow> bool" where
  "mpscc_ok q T (LETail x) \<longleftrightarrow> valid63 x"
| "mpscc_ok q T (LEHead x t) \<longleftrightarrow> valid63 x \<and> unat t \<le> unat (tail q)"
| "mpscc_ok q T (LECas x t) \<longleftrightarrow> valid63 x \<and> unat t \<le> unat (tail q) \<and> unat t < unat (head q) + length (buffer q)"
| "mpscc_ok q T (LEAdvance x t d) \<longleftrightarrow> valid63 x \<and> unat t < T"
| "mpscc_ok q T _ \<longleftrightarrow> True"

fun mpscc_consuming :: "mpscc_pc \<Rightarrow> bool" where
  "mpscc_consuming LDHead \<longleftrightarrow> True"
| "mpscc_consuming (LDTail h) \<longleftrightarrow> True"
| "mpscc_consuming (LDSlot h) \<longleftrightarrow> True"
| "mpscc_consuming (LDStore h v) \<longleftrightarrow> True"
| "mpscc_consuming (LDPublish h v) \<longleftrightarrow> True"
| "mpscc_consuming _ \<longleftrightarrow> False"

fun mpscc_cons :: "u64 list \<Rightarrow> MPSCCompactIndirect \<Rightarrow> nat \<Rightarrow> nat \<Rightarrow> mpscc_pc \<Rightarrow> bool" where
  "mpscc_cons xs q D T (LDTail h) \<longleftrightarrow> h = head q \<and> D = unat (head q)"
| "mpscc_cons xs q D T (LDSlot h) \<longleftrightarrow> h = head q \<and> D = unat (head q) \<and> unat h < unat (tail q)"
| "mpscc_cons xs q D T (LDStore h v) \<longleftrightarrow> h = head q \<and> D = unat (head q) \<and> D < T \<and> v = xs ! D"
| "mpscc_cons xs q D T (LDPublish h v) \<longleftrightarrow> h = head q \<and> D = Suc (unat (head q))"
| "mpscc_cons xs q D T _ \<longleftrightarrow> D = unat (head q)"

fun mpscc_owes_tail :: "u64 \<Rightarrow> mpscc_pc \<Rightarrow> bool" where
  "mpscc_owes_tail t (LEAdvance x t' d) \<longleftrightarrow> t' = t"
| "mpscc_owes_tail t _ \<longleftrightarrow> False"

definition mpscc_base
  :: "nat \<Rightarrow> nat \<Rightarrow> nat \<Rightarrow> (u64 call \<times> u64 answer) list \<Rightarrow> (MPSCCompactIndirect, mpscc_pc) goroutines \<Rightarrow> bool" where
  "mpscc_base D T m ls c \<longleftrightarrow> cphys m (acc_vals ls) (memory c) D T \<and> del_vals ls = take D (acc_vals ls)
     \<and> mpscc_cons (acc_vals ls) (memory c) D T (at_pc c 0)
     \<and> (\<forall>i. mpscc_ok (memory c) T (at_pc c i)) \<and> (\<forall>i. mpscc_consuming (at_pc c i) \<longrightarrow> i = 0)
     \<and> (T = unat (tail (memory c)) \<or> (\<exists>i. mpscc_owes_tail (tail (memory c)) (at_pc c i)))"

lemma mpscc_baseD:
  assumes "mpscc_base D T m ls c"
  shows "cphys m (acc_vals ls) (memory c) D T" and "del_vals ls = take D (acc_vals ls)"
    and "mpscc_cons (acc_vals ls) (memory c) D T (at_pc c 0)" and "mpscc_ok (memory c) T (at_pc c i)"
    and "mpscc_consuming (at_pc c i) \<Longrightarrow> i = 0"
    and "T = unat (tail (memory c)) \<or> (\<exists>i. mpscc_owes_tail (tail (memory c)) (at_pc c i))"
  using assms by (auto simp: mpscc_base_def)

definition mpscc_inv :: "nat \<Rightarrow> (u64 call \<times> u64 answer) list \<Rightarrow> (MPSCCompactIndirect, mpscc_pc) goroutines \<Rightarrow> bool" where
  "mpscc_inv m ls c \<longleftrightarrow> (\<exists>D T. mpscc_base D T m ls c)"

lemma mpscc_ok_later: "mpscc_ok q T pc \<Longrightarrow> compact_later xs q D T xs' q' D' T' \<Longrightarrow> mpscc_ok q' T' pc"
  by (cases pc) (auto simp: compact_later_def)

lemma mpscc_cons_later:
  assumes "mpscc_cons xs q D T pc" and "compact_later xs q D T xs' q' D T'" and "head q' = head q"
  shows "mpscc_cons xs' q' D T' pc"
  using assms by (cases pc) (auto simp: compact_later_def)

lemma mpscc_cons_producer: "\<not> mpscc_consuming pc \<Longrightarrow> mpscc_cons xs q D T pc \<longleftrightarrow> D = unat (head q)"
  by (cases pc) auto

definition mpscc_post
  :: "nat \<Rightarrow> u64 list \<Rightarrow> MPSCCompactIndirect \<Rightarrow> nat \<Rightarrow> nat \<Rightarrow> mpscc_pc \<Rightarrow> (u64 call \<times> u64 answer) option \<Rightarrow> mpscc_pc \<Rightarrow> MPSCCompactIndirect \<Rightarrow> bool" where
  "mpscc_post m xs q D T pc l pc' q' \<longleftrightarrow> (\<exists>D' T'. cphys (Suc m) (xs @ enq_vals l) q' D' T' \<and> take D' (xs @ enq_vals l) = take D xs @ deq_vals l
     \<and> mpscc_ok q' T' pc' \<and> compact_later xs q D T (xs @ enq_vals l) q' D' T'
     \<and> (if mpscc_consuming pc then mpscc_cons (xs @ enq_vals l) q' D' T' pc'
        else head q' = head q \<and> D' = D \<and> \<not> mpscc_consuming pc')
     \<and> (T' = unat (tail q') \<or> mpscc_owes_tail (tail q') pc' \<or> T' = T \<and> tail q' = tail q \<and> \<not> mpscc_owes_tail (tail q) pc))"

lemma mpscc_same:
  assumes "cphys m xs q D T" and "mpscc_ok q T pc'" and "enq_vals l = []" and "deq_vals l = []"
    and "if mpscc_consuming pc then mpscc_cons xs q D T pc' else \<not> mpscc_consuming pc'"
    and "T = unat (tail q) \<or> \<not> mpscc_owes_tail (tail q) pc"
  shows "mpscc_post m xs q D T pc l pc' q"
  unfolding mpscc_post_def
  by (intro exI [of _ D] exI [of _ T]) (use assms cphys_mono [OF assms(1), of "Suc m"] in \<open>auto simp: compact_later_def\<close>)

lemma mpscc_inv_post:
  assumes B: "mpscc_base D T m ls c" and post: "mpscc_post m (acc_vals ls) (memory c) D T (at_pc c i) l pc q"
    and call: "mpscc_consuming pc \<Longrightarrow> i = 0"
  shows "mpscc_inv (Suc m) (append_label ls l) (c\<lparr>memory := q, at_pc := (at_pc c)(i := pc)\<rparr>)"
proof -
  let ?q = "memory c" and ?c = "c\<lparr>memory := q, at_pc := (at_pc c)(i := pc)\<rparr>" and ?xs = "acc_vals ls @ enq_vals l"
  note I = mpscc_baseD [OF B]
  from post obtain D' T' where p: "cphys (Suc m) ?xs q D' T'" and t: "take D' ?xs = take D (acc_vals ls) @ deq_vals l"
    and ok: "mpscc_ok q T' pc" and la: "compact_later (acc_vals ls) ?q D T ?xs q D' T'"
    and co: "if mpscc_consuming (at_pc c i) then mpscc_cons ?xs q D' T' pc else head q = head ?q \<and> D' = D \<and> \<not> mpscc_consuming pc"
    and ot: "T' = unat (tail q) \<or> mpscc_owes_tail (tail q) pc \<or> T' = T \<and> tail q = tail ?q \<and> \<not> mpscc_owes_tail (tail ?q) (at_pc c i)"
    unfolding mpscc_post_def by blast
  have "mpscc_ok q T' (at_pc ?c j)" for j using ok mpscc_ok_later [OF I(4) la, of j] by simp
  moreover have "T' = unat (tail q) \<or> (\<exists>j. mpscc_owes_tail (tail q) (at_pc ?c j))" using ot I(6) by simp metis
  moreover have "mpscc_consuming (at_pc ?c j) \<Longrightarrow> j = 0" for j using call I(5) [of j] by (cases "j = i") auto
  moreover have "mpscc_cons ?xs q D' T' (at_pc ?c 0)"
  proof (cases "mpscc_consuming (at_pc c i)")
    case True
    with I(5) [of i] co show ?thesis by simp
  next
    case False
    with co have k: "head q = head ?q" "D' = D" "\<not> mpscc_consuming pc" by simp_all
    show ?thesis
    proof (cases "i = 0")
      case True
      with I(3) False mpscc_cons_producer k show ?thesis by simp
    next
      case False
      with mpscc_cons_later [OF I(3), of ?xs q T'] la k show ?thesis by simp
    qed
  qed
  ultimately have "mpscc_base D' T' (Suc m) (append_label ls l) ?c"
    using p t I(2) by (simp add: mpscc_base_def acc_vals_append_label del_vals_append_label)
  then show ?thesis unfolding mpscc_inv_def by blast
qed

abbreviation mpscc_step where
  "mpscc_step A \<equiv> go_step (MPSCCompactIndirect_step A) LIdle LECall LDHead (\<lambda>_. True) (\<lambda>i. i = 0)"

section \<open>Preservation\<close>

context atomix_sem
begin

lemma mpscc_enq:
  assumes p: "cphys m xs q D T" and m: "m < 2 ^ 62"
  shows "mpscc_ok q T (LEHead x t) \<Longrightarrow> MPSCCompactIndirect_step A (LEHead x t) q = ret (l, pc', q') \<Longrightarrow>
      mpscc_post m xs q D T (LEHead x t) l pc' q'"
    and "mpscc_ok q T (LECas x t) \<Longrightarrow> MPSCCompactIndirect_step A (LECas x t) q = ret (l, pc', q') \<Longrightarrow>
      mpscc_post m xs q D T (LECas x t) l pc' q'"
    and "mpscc_ok q T (LEAdvance x t d) \<Longrightarrow> MPSCCompactIndirect_step A (LEAdvance x t d) q = ret (l, pc', q') \<Longrightarrow>
      mpscc_post m xs q D T (LEAdvance x t d) l pc' q'"
proof -
  note P = cphysD [OF p]
  have tT: "unat (tail q) \<le> T" using P(12) by auto
  have hT: "unat (head q) \<le> T" using P(7,11) by auto
  show "mpscc_post m xs q D T (LEHead x t) l pc' q'"
    if ok: "mpscc_ok q T (LEHead x t)" and st: "MPSCCompactIndirect_step A (LEHead x t) q = ret (l, pc', q')"
  proof -
    note M = cphys_marks(5) [OF p m hT]
    have "head q + capacity q \<le> t \<longleftrightarrow> unat (head q) + length (buffer q) \<le> unat t" by (simp add: word_le_nat_alt M)
    with st p ok show ?thesis by (auto split: if_splits intro!: mpscc_same)
  qed
  show "mpscc_post m xs q D T (LECas x t) l pc' q'"
    if ok: "mpscc_ok q T (LECas x t)" and st: "MPSCCompactIndirect_step A (LECas x t) q = ret (l, pc', q')"
  proof -
    have t: "unat t \<le> T" "unat t < unat (head q) + length (buffer q)" using ok tT by auto
    note S = cenq_slot [OF p m t]
    show ?thesis
    proof (cases "unat t = T")
      case True
      then have tl: "tail q = t" using ok tT by (auto simp: word_unat_eq_iff)
      from S True have "buffer q ! (unat t mod length (buffer q)) = compact_expected q t" by simp
      with st P(4,5) have r: "l = Some (Enqueue x, EnqueueRet None)" "pc' = LEAdvance x t True"
        "q' = q\<lparr>buffer := (buffer q)[unat t mod length (buffer q) := x]\<rparr>"
        by (simp_all add: Let_def casUintptr)
      have x: "valid63 x" using ok by simp
      note U = cphys_push [OF p m True [symmetric] tl _ x r(3)]
      show ?thesis unfolding mpscc_post_def
        by (intro exI [of _ D] exI [of _ "Suc T"])
          (use U t True x P(7,13) tl in \<open>auto simp: r compact_later_def nth_append\<close>)
    next
      case False
      with st p P(4,5) S ok t show ?thesis by (auto simp: Let_def casUintptr intro!: mpscc_same)
    qed
  qed
  show "mpscc_post m xs q D T (LEAdvance x t d) l pc' q'"
    if ok: "mpscc_ok q T (LEAdvance x t d)" and st: "MPSCCompactIndirect_step A (LEAdvance x t d) q = ret (l, pc', q')"
  proof (cases "tail q = t")
    case True
    then have "unat t \<le> T" using tT by simp
    note t1 = cphys_marks(4) [OF p m this]
    then have T: "T = unat (t + 1)" using True ok P(12) by auto
    from st True have r: "l = None" "pc' = (if d then LIdle else LETail x)" "q' = q\<lparr>tail := t + 1\<rparr>" by (simp_all add: cas64)
    have "unat (tail q) \<le> unat (t + 1)" using t1 True by simp
    then show ?thesis unfolding mpscc_post_def
      by (intro exI [of _ D] exI [of _ T])
        (use cphys_mono [OF cphys_tail [OF p T], of "Suc m"] ok T in \<open>auto simp: r compact_later_def\<close>)
  next
    case False
    with st p ok show ?thesis by (auto simp: cas64 intro!: mpscc_same)
  qed
qed

lemma mpscc_deq:
  assumes p: "cphys m xs q D T" and m: "m < 2 ^ 62" and c: "mpscc_consuming pc" "mpscc_cons xs q D T pc"
    and st: "MPSCCompactIndirect_step A pc q = ret (l, pc', q')"
  shows "mpscc_post m xs q D T pc l pc' q'"
proof -
  note P = cphysD [OF p]
  have hT: "unat (head q) \<le> T" using P(7,11) by auto
  show ?thesis
  proof (cases pc)
    case LDHead
    with st p c show ?thesis by (auto intro!: mpscc_same)
  next
    case (LDTail h)
    moreover have "(tail q \<le> h) = (unat (tail q) \<le> unat h)" by (simp add: word_le_nat_alt)
    ultimately show ?thesis using st p c by (auto split: if_splits intro!: mpscc_same)
  next
    case (LDSlot h)
    with c have h: "h = head q" "D = unat h" "unat h < unat (tail q)" by auto
    then have lt: "D < T" using P(12) by auto
    then have "valid63 (buffer q ! (unat h mod length (buffer q)))" "buffer q ! (unat h mod length (buffer q)) = xs ! D"
      using windowD(3) [OF P(6), of D] P(14) [of D] h(2) by (auto simp: cfull_def)
    with LDSlot st p c h lt P(4,5) show ?thesis by (auto simp: valid63_def Let_def intro!: mpscc_same)
  next
    case (LDStore h v)
    with c have h: "head q = h" "D = unat h" "D < T" "v = xs ! D" by auto
    from LDStore st P(4,5) have r: "l = Some (Dequeue, DequeueRet v None)" "pc' = LDPublish h v"
      "q' = q\<lparr>buffer := (buffer q)[unat h mod length (buffer q) := compact_nextEmpty q h]\<rparr>"
      by (simp_all add: Let_def)
    note U = cphys_pop [OF p m h(2,1,3) r(3)]
    have "take (Suc D) xs = take D xs @ [v]" using h P(13) by (simp add: take_Suc_conv_app_nth)
    then show ?thesis unfolding mpscc_post_def
      by (intro exI [of _ "Suc D"] exI [of _ T]) (use U h LDStore in \<open>auto simp: r compact_later_def\<close>)
  next
    case (LDPublish h v)
    with c have h: "head q = h" "D = Suc (unat h)" by auto
    have D: "D = unat (h + 1)" using cphys_marks(4) [OF p m hT] h by simp
    from LDPublish st have r: "l = None" "pc' = LIdle" "q' = q\<lparr>head := h + 1\<rparr>" by simp_all
    have "unat (head q) \<le> unat (h + 1)" using D h by simp
    then show ?thesis unfolding mpscc_post_def
      by (intro exI [of _ D] exI [of _ T])
        (use cphys_mono [OF cphys_head [OF p D], of "Suc m"] D LDPublish in \<open>auto simp: r compact_later_def\<close>)
  qed (use c in simp_all)
qed

lemma mpscc_run:
  assumes p: "cphys m xs q D T" and m: "m < 2 ^ 62" and ok: "mpscc_ok q T pc"
    and c: "mpscc_consuming pc \<Longrightarrow> mpscc_cons xs q D T pc"
    and st: "MPSCCompactIndirect_step A pc q = ret (l, pc', q')"
  shows "mpscc_post m xs q D T pc l pc' q'"
proof (cases "mpscc_consuming pc")
  case True
  from mpscc_deq [OF p m True c [OF True] st] show ?thesis .
next
  case False
  then show ?thesis
  proof (cases pc)
    case (LECall x)
    then show ?thesis using st p by (auto simp: valid63_def split: if_splits intro!: mpscc_same)
  next
    case (LETail x)
    then show ?thesis using st p ok by (auto intro!: mpscc_same)
  next
    case LIdle
    then show ?thesis using st p by (auto intro!: mpscc_same)
  qed (use False ok st mpscc_enq [OF p m] mpscc_consuming.simps in metis)+
qed

lemma mpscc_post_call:
  assumes "mpscc_base D T m ls c" and "at_pc c i = LIdle"
  shows "mpscc_post m (acc_vals ls) (memory c) D T (at_pc c i) None (LECall x) (memory c)"
  using mpscc_baseD(1) [OF assms(1)] assms(2) by (auto intro!: mpscc_same)

lemma mpscc_step_inv:
  assumes I: "mpscc_inv m ls c" and m: "m < 2 ^ 62" and step: "mpscc_step A c l c'"
  shows "mpscc_inv (Suc m) (append_label ls l) c'"
proof -
  from I obtain D T where B: "mpscc_base D T m ls c" unfolding mpscc_inv_def by blast
  note J = mpscc_baseD [OF B]
  from step show ?thesis
  proof cases
    case (go_call_Enqueue i x)
    from mpscc_inv_post [OF B mpscc_post_call [OF B go_call_Enqueue(3)], of x] go_call_Enqueue show ?thesis by simp
  next
    case (go_call_Dequeue i)
    have "mpscc_owes_tail t (at_pc c' j)" if "mpscc_owes_tail t (at_pc c j)" for t j
      using that go_call_Dequeue by (cases "j = 0") auto
    then have "T = unat (tail (memory c)) \<or> (\<exists>j. mpscc_owes_tail (tail (memory c)) (at_pc c' j))" using J(6) by blast
    with go_call_Dequeue have "mpscc_base D T (Suc m) ls c'"
      using J cphys_mono [OF J(1), of "Suc m"] by (simp add: mpscc_base_def)
    with go_call_Dequeue show ?thesis by (auto simp: mpscc_inv_def)
  next
    case (go_run i pc q')
    have c: "mpscc_cons (acc_vals ls) (memory c) D T (at_pc c i)" if "mpscc_consuming (at_pc c i)" using J(3) J(5) [OF that] by simp
    have post: "mpscc_post m (acc_vals ls) (memory c) D T (at_pc c i) l pc q'" by (rule mpscc_run [OF J(1) m J(4) c go_run(3)])
    then have "mpscc_consuming pc \<Longrightarrow> i = 0" using J(5) [of i] by (auto simp: mpscc_post_def split: if_splits)
    from mpscc_inv_post [OF B post this] go_run(1) show ?thesis by simp
  qed
qed

lemma mpscc_exec_length:
  assumes "exec (mpscc_step A) c0 m ls c"
  shows "length (buffer (memory c)) = length (buffer (memory c0))"
proof (rule exec_invariant [OF assms _ order_refl, where P = "\<lambda>_ c. length (buffer (memory c)) = length (buffer (memory c0))"])
  show "length (buffer (memory d')) = length (buffer (memory c0))"
    if "length (buffer (memory d)) = length (buffer (memory c0))" "mpscc_step A d l d'" for d l d'
    using that(2)
  proof cases
    case (go_run i pc q)
    with that(1) show ?thesis by (cases "at_pc d i") (auto simp: Let_def split: if_splits prod.splits)
  qed (use that(1) in simp_all)
qed simp_all

lemma mpscc_exec_inv:
  assumes "exec (mpscc_step A) c0 m ls c" and "mpscc_inv 0 [] c0" and "m \<le> 2 ^ 62"
  shows "mpscc_inv m ls c"
  by (rule exec_trace_invariant [where P = mpscc_inv, OF assms]) (rule mpscc_step_inv)

end

section \<open>Results\<close>

lemma mpscc_results:
  assumes "mpscc_inv m ls c"
  shows "\<exists>rest. acc_vals ls = del_vals ls @ rest \<and> length rest \<le> length (buffer (memory c))
    \<and> ((\<forall>i. at_pc c i = LIdle) \<longrightarrow> rest = compact_elems (memory c))"
proof -
  from assms obtain D T where B: "mpscc_base D T m ls c" unfolding mpscc_inv_def by blast
  note I = mpscc_baseD [OF B] and R = cphys_rest [OF mpscc_baseD(1) [OF B]]
  have "compact_elems (memory c) = drop D (acc_vals ls)" if "\<And>i. at_pc c i = LIdle"
    using I(3,6) R(2) that by simp
  then show ?thesis using I(2) R(1) by (intro exI [of _ "drop D (acc_vals ls)"]) auto
qed

lemma mpscc_init:
  assumes "NewMPMCCompactIndirect c = ret q" and "2 \<le> sint c" and "sint c \<le> 2 ^ 62"
  shows "mpscc_inv 0 [] (go_init q LIdle)"
  using NewMPMCCompactIndirect_phys [OF assms]
  by (auto simp: mpscc_inv_def mpscc_base_def go_init_def intro!: exI [of _ 0])

text \<open>
  Refusals. \<open>Enqueue\<close> is refused when the queue is full, or one short of it while the consumer is
  between emptying a slot and publishing the head. \<open>Dequeue\<close> is refused when the queue is empty, or
  holds just a value whose producer is between filling the slot and advancing the tail.
\<close>

lemma mpscc_enqueue_refused:
  assumes I: "mpscc_inv m ls c" and m: "m < 2 ^ 62"
    and st: "MPSCCompactIndirect_step A (at_pc c i) (memory c) = ret (Some (Enqueue x, EnqueueRet (Some e)), pc', q')"
  shows "length (acc_vals ls) + (if \<exists>h v. at_pc c 0 = LDPublish h v then 1 else 0) = length (del_vals ls) + length (buffer (memory c))"
proof -
  let ?q = "memory c"
  from I obtain D T where B: "mpscc_base D T m ls c" unfolding mpscc_inv_def by blast
  note J = mpscc_baseD [OF B] and P = cphysD [OF mpscc_baseD(1) [OF B]]
  have hT: "unat (head ?q) \<le> T" using P(7,11) by auto
  note M = cphys_marks(5) [OF J(1) m hT]
  from st obtain t where t: "at_pc c i = LEHead x t" "head ?q + capacity ?q \<le> t"
    by (cases "at_pc c i") (auto simp: Let_def split: if_splits prod.splits)
  then have "unat (head ?q) + length (buffer ?q) \<le> unat t" "unat t \<le> T"
    using J(4) [of i] P(12) M by (auto simp: word_le_nat_alt)
  with P(10) have T: "T = unat (head ?q) + length (buffer ?q)" by simp
  have "D = unat (head ?q) + (if \<exists>h v. at_pc c 0 = LDPublish h v then 1 else 0)"
    using J(3) by (cases "at_pc c 0") auto
  with T P(7,13) J(2) show ?thesis by simp
qed

lemma mpscc_dequeue_refused:
  assumes I: "mpscc_inv m ls c" and m: "m < 2 ^ 62"
    and st: "MPSCCompactIndirect_step A (at_pc c i) (memory c) = ret (Some (Dequeue, DequeueRet v (Some e)), pc', q')"
  shows "acc_vals ls = del_vals ls \<or> length (acc_vals ls) = Suc (length (del_vals ls)) \<and> (\<exists>j. mpscc_owes_tail (tail (memory c)) (at_pc c j))"
proof -
  let ?q = "memory c"
  from I obtain D T where B: "mpscc_base D T m ls c" unfolding mpscc_inv_def by blast
  note J = mpscc_baseD [OF B] and P = cphysD [OF mpscc_baseD(1) [OF B]]
  have con: "mpscc_consuming (at_pc c i)" using st by (cases "at_pc c i") (auto simp: Let_def split: if_splits prod.splits)
  from J(5) [OF this] J(3) have c: "mpscc_cons (acc_vals ls) ?q D T (at_pc c i)" by simp
  from st con have "(\<exists>h. at_pc c i = LDTail h \<and> tail ?q \<le> h) \<or> (\<exists>h. at_pc c i = LDSlot h \<and> \<not> valid63 (buffer ?q ! (unat h mod length (buffer ?q))))"
    using P(4,5) by (cases "at_pc c i") (auto simp: Let_def valid63_def split: if_splits)
  then have "unat (tail ?q) \<le> D"
  proof (elim disjE exE conjE)
    show ?thesis if "at_pc c i = LDTail h" "tail ?q \<le> h" for h using that c by (simp add: word_le_nat_alt)
    show ?thesis if h: "at_pc c i = LDSlot h" and v: "\<not> valid63 (buffer ?q ! (unat h mod length (buffer ?q)))" for h
    proof -
      from h c have "D = unat h" "D < T" using P(12) by auto
      with windowD(3) [OF P(6), of D] v show ?thesis by (simp add: cfull_def)
    qed
  qed
  with J(2,6) P(7,12,13) show ?thesis by (cases "D = T") auto
qed

section \<open>A call alone\<close>

context atomix_sem
begin

lemma MPSCCompactIndirect_steps:
  assumes "compact_good k (Suc b) q"
  shows "valid63 x \<Longrightarrow> run_alone (MPSCCompactIndirect_step A) LIdle None (LECall x) q
      = go_bind (MPSCCompactIndirect_Enqueue A x q) (\<lambda>(e, q'). ret (Some (Enqueue x, EnqueueRet e), q'))"
    and "run_alone (MPSCCompactIndirect_step A) LIdle None LDHead q
      = go_bind (MPSCCompactIndirect_Dequeue q) (\<lambda>((v, e), q'). ret (Some (Dequeue, DequeueRet v e), q'))"
proof -
  note S = compact_shapeD [OF compact_goodD(1) [OF assms]] and E = compact_enq_facts [OF assms] and D = compact_deq_facts [OF assms]
  note u = run_alone_simps Let_def S rmw compact_push_def compact_pop_def compact_expected_def compact_nextEmpty_def
  show "run_alone (MPSCCompactIndirect_step A) LIdle None (LECall x) q
      = go_bind (MPSCCompactIndirect_Enqueue A x q) (\<lambda>(e, q'). ret (Some (Enqueue x, EnqueueRet e), q'))" if "valid63 x"
    using E that compact_Enqueue_eq(2) [OF assms that] unfolding valid63_def by (simp add: u)
  show "run_alone (MPSCCompactIndirect_step A) LIdle None LDHead q
      = go_bind (MPSCCompactIndirect_Dequeue q) (\<lambda>((v, e), q'). ret (Some (Dequeue, DequeueRet v e), q'))"
    using D(1-4) compact_Dequeue_eq(2) [OF assms] unfolding valid63_def by (simp add: u)
qed

end

end
