(* ===== verification/Compact_Spmc.thy ===== *)
theory Compact_Spmc
  imports Compact_Concurrent
begin

text \<open>
  Goroutines interleaved on the compact queue with one producer, \<open>SPMCCompactIndirect\<close>
  (\<open>spmc_compact.go\<close>). Goroutine 0 is the producer, every goroutine may consume. Except for the
  places where an operation compares the indices, each step is a step of \<open>MPMCCompactIndirect\<close>
  under a map of program counters, which carries the invariant over.
\<close>

section \<open>Atomic steps\<close>

datatype spmcc_pc = JIdle
  | JECall u64 | JETail u64 | JEHead u64 u64 | JECas u64 u64 | JEStore u64 u64
  | JDHead | JDTail u64 | JDSlot u64 | JDReload u64 u64 | JDCas u64 u64 | JDAdvance u64 bool

definition spmcc_nextEmpty :: "SPMCCompactIndirect \<Rightarrow> u64 \<Rightarrow> u64" where
  "spmcc_nextEmpty q h = (let currentRound = drop_bit (unat (order_q q)) h AND (emptyFlag - 1);
     nextRound = (currentRound + 1) AND (emptyFlag - 1) in emptyFlag OR nextRound)"

fun SPMCCompactIndirect_step :: "atomix \<Rightarrow> spmcc_pc \<Rightarrow> SPMCCompactIndirect
    \<Rightarrow> ((u64 call \<times> u64 answer) option \<times> spmcc_pc \<times> SPMCCompactIndirect) go" where
  "SPMCCompactIndirect_step A JIdle q = ret (None, JIdle, q)"
| "SPMCCompactIndirect_step A (JECall elem) q =
     (if elem AND emptyFlag \<noteq> 0 then panics (PanicMsg ''lfq: value exceeds 63 bits'')
      else ret (None, JETail elem, q))"
| "SPMCCompactIndirect_step A (JETail elem) q = ret (None, JEHead elem (tail q), q)"
| "SPMCCompactIndirect_step A (JEHead elem t) q =
     (if t \<ge> head q + capacity q then ret (Some (Enqueue elem, EnqueueRet (Some ErrWouldBlock)), JIdle, q)
      else ret (None, JECas elem t, q))"
| "SPMCCompactIndirect_step A (JECas elem t) q =
     (let i = unat (t AND mask_q q)
      in if \<not> i < length (buffer q) then panics IndexOutOfRange
         else case CompareAndSwapUintptr A (buffer q ! i) (compact_expected q t) elem of (swapped, cell) \<Rightarrow>
           let q = q\<lparr>buffer := (buffer q)[i := cell]\<rparr>
           in if \<not> swapped then ret (Some (Enqueue elem, EnqueueRet (Some ErrWouldBlock)), JIdle, q)
              else ret (Some (Enqueue elem, EnqueueRet None), JEStore elem t, q))"
| "SPMCCompactIndirect_step A (JEStore elem t) q = ret (None, JIdle, q\<lparr>tail := t + 1\<rparr>)"
| "SPMCCompactIndirect_step A JDHead q = ret (None, JDTail (head q), q)"
| "SPMCCompactIndirect_step A (JDTail h) q =
     (if h \<ge> tail q then ret (Some (Dequeue, DequeueRet 0 (Some ErrWouldBlock)), JIdle, q)
      else ret (None, JDSlot h, q))"
| "SPMCCompactIndirect_step A (JDSlot h) q =
     (let i = unat (h AND mask_q q)
      in if \<not> i < length (buffer q) then panics IndexOutOfRange
         else ret (None, JDReload h (buffer q ! i), q))"
| "SPMCCompactIndirect_step A (JDReload h elem) q =
     (if h \<noteq> head q then ret (None, JDHead, q)
      else if elem = spmcc_nextEmpty q h then ret (None, JDAdvance h False, q)
      else if elem AND emptyFlag \<noteq> 0 then ret (None, JDAdvance h False, q)
      else ret (None, JDCas h elem, q))"
| "SPMCCompactIndirect_step A (JDCas h elem) q =
     (let i = unat (h AND mask_q q)
      in if \<not> i < length (buffer q) then panics IndexOutOfRange
         else case CompareAndSwapUintptr A (buffer q ! i) elem (spmcc_nextEmpty q h) of (swapped, cell) \<Rightarrow>
           let q = q\<lparr>buffer := (buffer q)[i := cell]\<rparr>
           in if swapped then ret (Some (Dequeue, DequeueRet elem None), JDAdvance h True, q)
              else ret (None, JDAdvance h False, q))"
| "SPMCCompactIndirect_step A (JDAdvance h done) q =
     ret (None, if done then JIdle else JDHead, q\<lparr>head := snd (CompareAndSwap64 A (head q) h (h + 1))\<rparr>)"

abbreviation spmcc_step where
  "spmcc_step A \<equiv> go_step (SPMCCompactIndirect_step A) JIdle JECall JDHead (\<lambda>i. i = 0) (\<lambda>_. True)"

section \<open>The program counters as those of \<open>MPMCCompactIndirect\<close>\<close>

fun spmcc_pc_abs :: "spmcc_pc \<Rightarrow> mpmcc_pc" where
  "spmcc_pc_abs JIdle = KIdle"
| "spmcc_pc_abs (JECall x) = KECall x"
| "spmcc_pc_abs (JETail x) = KETail x"
| "spmcc_pc_abs (JEHead x t) = KEHead x t"
| "spmcc_pc_abs (JECas x t) = KECas x t"
| "spmcc_pc_abs (JEStore x t) = KEAdvance x t True"
| "spmcc_pc_abs JDHead = KDHead"
| "spmcc_pc_abs (JDTail h) = KDTail h"
| "spmcc_pc_abs (JDSlot h) = KDSlot h (h + 1)"
| "spmcc_pc_abs (JDReload h v) = KDReload h (h + 1) v"
| "spmcc_pc_abs (JDCas h v) = KDCas h v"
| "spmcc_pc_abs (JDAdvance h d) = KDAdvance h d"

definition spmcc_abs :: "(SPMCCompactIndirect, spmcc_pc) goroutines \<Rightarrow> (MPMCCompactIndirect, mpmcc_pc) goroutines" where
  "spmcc_abs c = \<lparr>memory = memory c, at_pc = \<lambda>i. spmcc_pc_abs (at_pc c i)\<rparr>"

lemma spmcc_abs_simps [simp]:
  "memory (spmcc_abs c) = memory c" "at_pc (spmcc_abs c) i = spmcc_pc_abs (at_pc c i)"
  "spmcc_abs (c\<lparr>memory := q, at_pc := (at_pc c)(i := pc)\<rparr>)
    = (spmcc_abs c)\<lparr>memory := q, at_pc := (at_pc (spmcc_abs c))(i := spmcc_pc_abs pc)\<rparr>"
  "spmcc_abs (c\<lparr>at_pc := (at_pc c)(i := pc)\<rparr>) = (spmcc_abs c)\<lparr>at_pc := (at_pc (spmcc_abs c))(i := spmcc_pc_abs pc)\<rparr>"
  by (auto simp: spmcc_abs_def)

lemma spmcc_pc_abs_idle [simp]: "spmcc_pc_abs pc = KIdle \<longleftrightarrow> pc = JIdle"
  by (cases pc) auto

lemma spmcc_nextEmpty_eq: "spmcc_nextEmpty q h = compact_nextEmpty q h"
proof -
  have "((x AND (2 ^ 63 - 1)) + 1) AND (2 ^ 63 - 1) = (x + 1) AND (2 ^ 63 - 1)" for x :: u64
  proof -
    have u: "unat (y AND (2 ^ 63 - 1)) = unat y mod 2 ^ 63" for y :: u64 by (rule unat_and_mask) simp
    have v: "unat (y + 1) mod 2 ^ 63 = (unat y + 1) mod 2 ^ 63" for y :: u64
    proof -
      have "unat (y + 1) = (unat y + 1) mod 2 ^ 64" by (simp add: unat_word_ariths)
      moreover have "(a mod 2 ^ 64) mod 2 ^ 63 = a mod 2 ^ 63" for a :: nat by (rule mod_mod_cancel) simp
      ultimately show ?thesis by (simp only:)
    qed
    show ?thesis unfolding word_unat_eq_iff u v by (rule mod_add_left_eq)
  qed
  then show ?thesis by (simp add: spmcc_nextEmpty_def compact_nextEmpty_def emptyFlag_def Let_def)
qed

section \<open>Invariant\<close>

text \<open>Only goroutine 0 produces, and the tail it has read does not move under it.\<close>

fun spmcc_producing :: "spmcc_pc \<Rightarrow> bool" where
  "spmcc_producing (JECall x) \<longleftrightarrow> True"
| "spmcc_producing (JETail x) \<longleftrightarrow> True"
| "spmcc_producing (JEHead x t) \<longleftrightarrow> True"
| "spmcc_producing (JECas x t) \<longleftrightarrow> True"
| "spmcc_producing (JEStore x t) \<longleftrightarrow> True"
| "spmcc_producing _ \<longleftrightarrow> False"

fun spmcc_prod :: "SPMCCompactIndirect \<Rightarrow> spmcc_pc \<Rightarrow> bool" where
  "spmcc_prod q (JEHead x t) \<longleftrightarrow> t = tail q"
| "spmcc_prod q (JECas x t) \<longleftrightarrow> t = tail q"
| "spmcc_prod q (JEStore x t) \<longleftrightarrow> t = tail q"
| "spmcc_prod q _ \<longleftrightarrow> True"

definition spmcc_inv :: "nat \<Rightarrow> (u64 call \<times> u64 answer) list \<Rightarrow> (SPMCCompactIndirect, spmcc_pc) goroutines \<Rightarrow> bool" where
  "spmcc_inv m ls c \<longleftrightarrow> mpmcc_inv m ls (spmcc_abs c) \<and> (\<forall>i. spmcc_producing (at_pc c i) \<longrightarrow> i = 0)
     \<and> spmcc_prod (memory c) (at_pc c 0)"

lemma spmcc_invD:
  assumes "spmcc_inv m ls c"
  shows "mpmcc_inv m ls (spmcc_abs c)" and "spmcc_producing (at_pc c i) \<Longrightarrow> i = 0" and "spmcc_prod (memory c) (at_pc c i)"
proof -
  show "mpmcc_inv m ls (spmcc_abs c)" and p: "spmcc_producing (at_pc c i) \<Longrightarrow> i = 0" for i using assms by (auto simp: spmcc_inv_def)
  show "spmcc_prod (memory c) (at_pc c i)"
  proof (cases "i = 0")
    case False
    with p [of i] show ?thesis by (cases "at_pc c i") auto
  qed (use assms in \<open>simp add: spmcc_inv_def\<close>)
qed

lemma spmcc_prod_consumer: "\<not> spmcc_producing pc \<Longrightarrow> spmcc_prod q pc"
  by (cases pc) auto

text \<open>The tail is behind only while the producer is about to publish it.\<close>

lemma spmcc_tail:
  assumes B: "mpmcc_base D T m ls (spmcc_abs c)" and p: "\<And>i. spmcc_producing (at_pc c i) \<Longrightarrow> i = 0"
  shows "T = unat (tail (memory c)) \<or> (\<exists>x. at_pc c 0 = JEStore x (tail (memory c)))"
proof -
  have "\<exists>x. at_pc c 0 = JEStore x t" if "owes_tail t (spmcc_pc_abs (at_pc c i))" for t i
    using that p [of i] by (cases "at_pc c i") auto
  with mpmcc_baseD(5) [OF B] show ?thesis by auto
qed

section \<open>Preservation\<close>

lemma spmcc_step_prod:
  assumes "SPMCCompactIndirect_step A pc q = ret (l, pc', q')" and "spmcc_prod q pc"
  shows "spmcc_producing pc' \<Longrightarrow> spmcc_producing pc" and "spmcc_prod q' pc'"
    and "\<not> spmcc_producing pc \<Longrightarrow> tail q' = tail q"
  using assms by (cases pc; auto simp: Let_def split: if_splits prod.splits)+

context atomix_sem
begin

text \<open>A step is a step of \<open>MPMCCompactIndirect\<close>, or it compares the indices and touches nothing.\<close>

lemma spmcc_sim:
  assumes p: "cphys m xs q D T" and m: "m < 2 ^ 62" and ok: "mpmcc_ok xs q D T (spmcc_pc_abs pc)" and pr: "spmcc_prod q pc"
    and T: "\<And>x t. pc = JECas x t \<Longrightarrow> unat t = T"
    and st: "SPMCCompactIndirect_step A pc q = ret (l, pc', q')"
  shows "MPMCCompactIndirect_step A (spmcc_pc_abs pc) q = ret (l, spmcc_pc_abs pc', q')
    \<or> mpmcc_post m xs q D T (spmcc_pc_abs pc) l (spmcc_pc_abs pc') q'"
proof -
  note P = cphysD [OF p]
  have hT: "unat (head q) \<le> T" using P(7,11) by auto
  show ?thesis
  proof (cases pc)
    case (JEHead x t)
    have "head q + capacity q \<le> t \<longleftrightarrow> unat (head q) + length (buffer q) \<le> unat t"
      by (simp add: word_le_nat_alt cphys_marks(5) [OF p m hT])
    with JEHead st p ok show ?thesis by (intro disjI2) (auto split: if_splits intro!: mpmcc_same)
  next
    case (JECas x t)
    with ok T P(12) have "unat t \<le> T" "unat t < unat (head q) + length (buffer q)" "unat t = T" by auto
    with cenq_slot [OF p m] have "buffer q ! (unat t mod length (buffer q)) = compact_expected q t" by blast
    with JECas st P(4,5) show ?thesis by (auto simp: Let_def casUintptr)
  next
    case (JEStore x t)
    with st pr show ?thesis by (simp add: cas64)
  next
    case (JDTail h)
    then have "unat h \<le> T" using ok hT by simp
    with cphys_marks(4) [OF p m] have "unat (h + 1) = Suc (unat h)" by blast
    moreover have "tail q \<le> h \<longleftrightarrow> unat (tail q) \<le> unat h" by (simp add: word_le_nat_alt)
    ultimately show ?thesis using JDTail st p ok by (intro disjI2) (auto split: if_splits intro!: mpmcc_same)
  next
    case (JDReload h v)
    then have "unat h \<le> T" using ok hT by simp
    with cphys_marks(4) [OF p m] have "\<not> h + 1 \<le> h" by (simp add: word_le_nat_alt)
    with JDReload st show ?thesis by (auto simp: spmcc_nextEmpty_eq split: if_splits)
  qed (use st in \<open>auto simp: spmcc_nextEmpty_eq Let_def split: if_splits prod.splits\<close>)
qed

lemma spmcc_step_inv:
  assumes I: "spmcc_inv m ls c" and m: "m < 2 ^ 62" and d: "distinct (acc_vals ls)" and step: "spmcc_step A c l c'"
  shows "spmcc_inv (Suc m) (append_label ls l) c'"
proof -
  note J = spmcc_invD [OF I] and call = mpmcc_step_inv [OF spmcc_invD(1) [OF I] m d]
  have S: "mpmcc_step A (spmcc_abs c) l (spmcc_abs c') \<Longrightarrow> mpmcc_inv (Suc m) (append_label ls l) (spmcc_abs c')" by (rule call)
  from step show ?thesis
  proof cases
    case (go_call_Enqueue i x)
    then have "mpmcc_step A (spmcc_abs c) l (spmcc_abs c')" by (auto intro!: go_step.go_call_Enqueue)
    with S go_call_Enqueue J(2,3) show ?thesis by (auto simp: spmcc_inv_def)
  next
    case (go_call_Dequeue i)
    then have "mpmcc_step A (spmcc_abs c) l (spmcc_abs c')" by (auto intro!: go_step.go_call_Dequeue)
    with S go_call_Dequeue J(2,3) show ?thesis by (auto simp: spmcc_inv_def)
  next
    case (go_run i pc q')
    from J(1) obtain D T where B: "mpmcc_base D T m ls (spmcc_abs c)" unfolding mpmcc_inv_def by blast
    have T: "unat t = T" if "at_pc c i = JECas x t" for x t
      using spmcc_tail [OF B J(2)] J(2) [of i] J(3) [of i] that by auto
    note R = spmcc_step_prod [OF go_run(3) J(3)]
    have "mpmcc_inv (Suc m) (append_label ls l) (spmcc_abs c')"
      using spmcc_sim [OF mpmcc_baseD(1) [OF B, simplified] m mpmcc_baseD(3) [OF B, of i, simplified] J(3) T go_run(3)]
    proof
      assume "MPMCCompactIndirect_step A (spmcc_pc_abs (at_pc c i)) (memory c) = ret (l, spmcc_pc_abs pc, q')"
      with go_run have "mpmcc_step A (spmcc_abs c) l (spmcc_abs c')" by (auto intro!: go_step.go_run)
      then show ?thesis by (rule S)
    next
      assume "mpmcc_post m (acc_vals ls) (memory c) D T (spmcc_pc_abs (at_pc c i)) l (spmcc_pc_abs pc) q'"
      with mpmcc_inv_post [OF B, of i] go_run(1) show ?thesis by simp
    qed
    moreover have "spmcc_producing (at_pc c' j) \<Longrightarrow> j = 0" for j
      using R(1) J(2) [of i] J(2) [of j] go_run(1) by (auto split: if_splits)
    moreover have "spmcc_prod (memory c') (at_pc c' 0)"
    proof (cases "i = 0")
      case True
      with R(2) go_run(1) show ?thesis by simp
    next
      case False
      with J(2) [of i] R(3) have "tail q' = tail (memory c)" by blast
      with False J(3) [of 0] go_run(1) show ?thesis by (cases "at_pc c 0") auto
    qed
    ultimately show ?thesis by (simp add: spmcc_inv_def)
  qed
qed

lemma spmcc_exec_length:
  assumes "exec (spmcc_step A) c0 m ls c"
  shows "length (buffer (memory c)) = length (buffer (memory c0))"
proof (rule exec_invariant [OF assms _ order_refl, where P = "\<lambda>_ c. length (buffer (memory c)) = length (buffer (memory c0))"])
  show "length (buffer (memory d')) = length (buffer (memory c0))"
    if "length (buffer (memory d)) = length (buffer (memory c0))" "spmcc_step A d l d'" for d l d'
    using that(2)
  proof cases
    case (go_run i pc q)
    with that(1) show ?thesis by (cases "at_pc d i") (auto simp: Let_def split: if_splits prod.splits)
  qed (use that(1) in simp_all)
qed simp_all

lemma spmcc_exec_inv:
  assumes "exec (spmcc_step A) c0 m ls c" and "spmcc_inv 0 [] c0" and "m \<le> 2 ^ 62" and "distinct (acc_vals ls)"
  shows "spmcc_inv m ls c"
proof -
  have "distinct (acc_vals ls) \<longrightarrow> spmcc_inv m ls c"
  proof (rule exec_trace_invariant [OF assms(1) _ assms(3)])
    show "distinct (acc_vals []) \<longrightarrow> spmcc_inv 0 [] c0" using assms(2) by simp
    show "distinct (acc_vals (append_label ls l)) \<longrightarrow> spmcc_inv (Suc m) (append_label ls l) c'"
      if "distinct (acc_vals ls) \<longrightarrow> spmcc_inv m ls c" "m < 2 ^ 62" "spmcc_step A c l c'" for m ls c l c'
      using that spmcc_step_inv [of m ls c l c'] by (auto simp: acc_vals_append_label)
  qed
  with assms(4) show ?thesis by simp
qed

end

section \<open>Results\<close>

lemma spmcc_results:
  assumes "spmcc_inv m ls c"
  shows "\<exists>rest. acc_vals ls = del_vals ls @ rest \<and> length rest \<le> length (buffer (memory c))
    \<and> ((\<forall>i. at_pc c i = JIdle) \<longrightarrow> rest = compact_elems (memory c))"
  using mpmcc_results [OF spmcc_invD(1) [OF assms]] by simp

lemma spmcc_init:
  assumes "NewMPMCCompactIndirect c = ret q" and "2 \<le> sint c" and "sint c \<le> 2 ^ 62"
  shows "spmcc_inv 0 [] (go_init q JIdle)"
proof -
  have "spmcc_abs (go_init q JIdle) = go_init q KIdle" by (simp add: spmcc_abs_def go_init_def)
  with mpmcc_init [OF assms] show ?thesis by (simp add: spmcc_inv_def) (simp add: go_init_def)
qed

text \<open>
  Refusals. \<open>Enqueue\<close> is refused when the queue is full, or one short of it while a consumer is
  between emptying the slot at the head and advancing the head. \<open>Dequeue\<close> is refused when the queue
  is empty, or holds just the value whose tail the producer has still to publish.
\<close>

context atomix_sem
begin

lemma spmcc_enqueue_refused:
  assumes I: "spmcc_inv m ls c" and m: "m < 2 ^ 62"
    and st: "SPMCCompactIndirect_step A (at_pc c i) (memory c) = ret (Some (Enqueue x, EnqueueRet (Some e)), pc', q')"
  shows "length (acc_vals ls) = length (del_vals ls) + length (buffer (memory c))
    \<or> Suc (length (acc_vals ls)) = length (del_vals ls) + length (buffer (memory c))
      \<and> (\<exists>j d. at_pc c j = JDAdvance (head (memory c)) d)"
proof -
  let ?q = "memory c"
  note J = spmcc_invD [OF I]
  from J(1) obtain D T where B: "mpmcc_base D T m ls (spmcc_abs c)" unfolding mpmcc_inv_def by blast
  note K = mpmcc_baseD [OF B, simplified] and P = cphysD [OF mpmcc_baseD(1) [OF B, simplified]]
  have hT: "unat (head ?q) \<le> T" using P(7,11) by auto
  have "\<exists>t. at_pc c i = JEHead x t \<and> head ?q + capacity ?q \<le> t \<or> at_pc c i = JECas x t \<and> buffer ?q ! (unat t mod length (buffer ?q)) \<noteq> compact_expected ?q t"
    using st P(4,5) by (cases "at_pc c i") (auto simp: Let_def casUintptr split: if_splits prod.splits)
  then obtain t where t: "at_pc c i = JEHead x t \<and> head ?q + capacity ?q \<le> t
      \<or> at_pc c i = JECas x t \<and> buffer ?q ! (unat t mod length (buffer ?q)) \<noteq> compact_expected ?q t" by blast
  with spmcc_tail [OF B J(2)] J(2) [of i] J(3) [of i] have T: "unat t = T" by auto
  from t have "unat (head ?q) + length (buffer ?q) \<le> T"
  proof (elim disjE conjE)
    assume "at_pc c i = JECas x t" "buffer ?q ! (unat t mod length (buffer ?q)) \<noteq> compact_expected ?q t"
    with cenq_slot [OF K(1) m, of t] T K(3) [of i] show ?thesis by auto
  qed (use T cphys_marks(5) [OF K(1) m hT] in \<open>auto simp: word_le_nat_alt\<close>)
  with P(10) have T: "T = unat (head ?q) + length (buffer ?q)" by simp
  have "\<exists>d. pc = JDAdvance h d" if "owes_head h (spmcc_pc_abs pc)" for h pc using that by (cases pc) auto
  then have "D = unat (head ?q) \<or> D = Suc (unat (head ?q)) \<and> (\<exists>j d. at_pc c j = JDAdvance (head ?q) d)" using K(4) P(11) by metis
  with T P(7,13) K(2) show ?thesis by auto
qed

end

lemma spmcc_dequeue_refused:
  assumes I: "spmcc_inv m ls c"
    and st: "SPMCCompactIndirect_step A (at_pc c i) (memory c) = ret (Some (Dequeue, DequeueRet v (Some e)), pc', q')"
  shows "acc_vals ls = del_vals ls
    \<or> length (acc_vals ls) = Suc (length (del_vals ls)) \<and> (\<exists>x. at_pc c 0 = JEStore x (tail (memory c)))"
proof -
  let ?q = "memory c"
  note J = spmcc_invD [OF I]
  from J(1) obtain D T where B: "mpmcc_base D T m ls (spmcc_abs c)" unfolding mpmcc_inv_def by blast
  note K = mpmcc_baseD [OF B, simplified] and P = cphysD [OF mpmcc_baseD(1) [OF B, simplified]]
  from st obtain h where h: "at_pc c i = JDTail h" "tail ?q \<le> h"
    by (cases "at_pc c i") (auto simp: Let_def split: if_splits prod.splits)
  with K(3) [of i] P(11) have "unat (tail ?q) \<le> D" by (auto simp: word_le_nat_alt)
  with K(2) spmcc_tail [OF B J(2)] P(7,12,13) show ?thesis by (cases "D = T") auto
qed

section \<open>A call alone\<close>

context atomix_sem
begin

lemma SPMCCompactIndirect_steps:
  assumes "compact_good k (Suc b) q"
  shows "valid63 x \<Longrightarrow> run_alone (SPMCCompactIndirect_step A) JIdle None (JECall x) q
      = go_bind (SPMCCompactIndirect_Enqueue A x q) (\<lambda>(e, q'). ret (Some (Enqueue x, EnqueueRet e), q'))"
    and "run_alone (SPMCCompactIndirect_step A) JIdle None JDHead q
      = go_bind (SPMCCompactIndirect_Dequeue A q) (\<lambda>((v, e), q'). ret (Some (Dequeue, DequeueRet v e), q'))"
proof -
  note S = compact_shapeD [OF compact_goodD(1) [OF assms]] and E = compact_enq_facts [OF assms] and D = compact_deq_facts [OF assms]
  note u = run_alone_simps Let_def S rmw compact_push_def compact_pop_def compact_expected_def spmcc_nextEmpty_def
  show "run_alone (SPMCCompactIndirect_step A) JIdle None (JECall x) q
      = go_bind (SPMCCompactIndirect_Enqueue A x q) (\<lambda>(e, q'). ret (Some (Enqueue x, EnqueueRet e), q'))" if "valid63 x"
    using E that compact_Enqueue_eq(3) [OF assms that] unfolding valid63_def by (simp add: u)
  show "run_alone (SPMCCompactIndirect_step A) JIdle None JDHead q
      = go_bind (SPMCCompactIndirect_Dequeue A q) (\<lambda>((v, e), q'). ret (Some (Dequeue, DequeueRet v e), q'))"
    using D(1-3,5) compact_Dequeue_eq(3) [OF assms] unfolding valid63_def by (simp add: u)
qed

end

end
