(* ===== verification/Compact_Reuse.thy ===== *)
theory Compact_Reuse
  imports Compact_Spmc
begin

text \<open>
  A value that comes back to a compact queue with several consumers. A consumer that rests between reading
  its slot and the compare-and-swap takes the same value one lap later, out of turn, and leaves the
  empty mark of a round that is over. A slot with such a mark is lost: no schedule fills it again.
\<close>

section \<open>Lost slots of \<open>MPMCCompactIndirect\<close>\<close>

text \<open>
  Slot \<open>j\<close> bears the mark of round \<open>r\<close>, and the tail and every position a producer still works on are
  past the only position that this mark admits.
\<close>

fun past_pc :: "nat \<Rightarrow> mpmcc_pc \<Rightarrow> bool" where
  "past_pc p (KETail x) \<longleftrightarrow> valid63 x"
| "past_pc p (KEHead x t) \<longleftrightarrow> valid63 x \<and> p < unat t"
| "past_pc p (KEReload x t h) \<longleftrightarrow> valid63 x \<and> p < unat t"
| "past_pc p (KECas x t) \<longleftrightarrow> valid63 x \<and> p < unat t"
| "past_pc p (KEAdvance x t d) \<longleftrightarrow> valid63 x \<and> p < unat t"
| "past_pc p (KDCas h v) \<longleftrightarrow> valid63 v"
| "past_pc p _ \<longleftrightarrow> True"

definition lost_slot :: "nat \<Rightarrow> nat \<Rightarrow> (MPMCCompactIndirect, mpmcc_pc) goroutines \<Rightarrow> bool" where
  "lost_slot j r c \<longleftrightarrow> (\<exists>k. cshape k (memory c)) \<and> j < length (buffer (memory c)) \<and> buffer (memory c) ! j = empty_mark r
     \<and> r * length (buffer (memory c)) + j < unat (tail (memory c))
     \<and> (\<forall>i. past_pc (r * length (buffer (memory c)) + j) (at_pc c i))"

definition filled :: "MPMCCompactIndirect \<Rightarrow> nat" where
  "filled q = length (filter valid63 (buffer q))"

lemma filter_update:
  "i < length xs \<Longrightarrow> length (filter P (xs[i := y])) + (if P (xs ! i) then 1 else 0) = length (filter P xs) + (if P y then 1 else 0)"
proof (induction xs arbitrary: i)
  case (Cons x xs)
  then show ?case by (cases i) auto
qed simp

lemma lost_slot_filled: "lost_slot j r c \<Longrightarrow> filled (memory c) < length (buffer (memory c))"
  using empty_mark_not_valid [of r] unfolding lost_slot_def filled_def by (metis length_filter_less nth_mem)

lemma flagged_not_valid: "\<not> valid63 (emptyFlag OR w)"
proof -
  have "bit (emptyFlag OR w) 63" by (simp add: emptyFlag_def bit_simps)
  then show ?thesis unfolding valid63_def emptyFlag_def by (metis and_exp_eq_0_iff_not_bit)
qed

lemma compact_marks_not_valid: "\<not> valid63 (compact_expected q t)" "\<not> valid63 (compact_nextEmpty q h)"
  by (simp_all add: compact_expected_def compact_nextEmpty_def Let_def flagged_not_valid)

text \<open>The mark of an earlier round is never the one that a producer expects.\<close>

lemma expected_past:
  assumes "cshape k q" and "r * length (buffer q) + unat (t AND mask_q q) < unat t"
  shows "compact_expected q t \<noteq> empty_mark r"
proof
  from assms(1) have k: "1 \<le> k" "k \<le> 62" "length (buffer q) = 2 ^ k" "mask_q q = 2 ^ k - 1" "unat (order_q q) = k"
    by (auto simp: cshape_def unat_of_nat_u64)
  have i: "unat (t AND mask_q q) = unat t mod 2 ^ k" using k by (simp add: unat_and_mask)
  assume "compact_expected q t = empty_mark r"
  then have e: "empty_mark (unat t div 2 ^ k) = empty_mark r" using compact_round [OF k(1,2), of t] k by (simp add: compact_expected_def Let_def)
  have lt: "unat t div 2 ^ k < 2 ^ 63" using compact_div_lt [OF k(1) unat_u64_lt] .
  have "r * 2 ^ k \<le> unat t" using assms(2) k by simp
  then have "r \<le> unat t div 2 ^ k" by (simp add: less_eq_div_iff_mult_less_eq)
  then have "unat t div 2 ^ k = r" using lt by (intro empty_mark_inj [OF e]) simp_all
  then have "unat t = r * 2 ^ k + unat t mod 2 ^ k" using div_mult_mod_eq [of "unat t" "2 ^ k"] by simp
  with assms(2) k i show False by simp
qed

context atomix_sem
begin

lemma lost_run:
  assumes L: "lost_slot j r c" and t: "unat (tail (memory c)) < 2 ^ 63"
    and st: "MPMCCompactIndirect_step A (at_pc c i) (memory c) = ret (l, pc, q)"
  shows "lost_slot j r (c\<lparr>memory := q, at_pc := (at_pc c)(i := pc)\<rparr>) \<and> unat (tail q) \<le> Suc (unat (tail (memory c)))
    \<and> length (enq_vals l) + filled (memory c) = length (deq_vals l) + filled q"
proof -
  let ?q = "memory c" and ?n = "length (buffer (memory c))"
  from L obtain k where k: "cshape k ?q" by (auto simp: lost_slot_def)
  from L have j: "j < ?n" "buffer ?q ! j = empty_mark r" "r * ?n + j < unat (tail ?q)" "\<And>i. past_pc (r * ?n + j) (at_pc c i)"
    by (auto simp: lost_slot_def)
  have ix: "unat (p AND mask_q ?q) < ?n" for p using k by (auto simp: cshape_def unat_and_mask)
  have keep: ?thesis if "buffer q = buffer ?q" "cshape k q" "unat (tail ?q) \<le> unat (tail q)" "unat (tail q) \<le> Suc (unat (tail ?q))"
      "past_pc (r * ?n + j) pc" "enq_vals l = []" "deq_vals l = []"
    using that j by (auto simp: lost_slot_def filled_def)
  have swap: ?thesis if "q = ?q\<lparr>buffer := (buffer ?q)[a := v]\<rparr>" "a < ?n" "a \<noteq> j" "past_pc (r * ?n + j) pc"
      "length (enq_vals l) + (if valid63 (buffer ?q ! a) then 1 else 0) = length (deq_vals l) + (if valid63 v then 1 else 0)" for a v
  proof -
    have "cshape k q" using k that(1) by (simp add: cshape_def)
    with that j filter_update [OF that(2), of valid63 v] show ?thesis by (auto simp: lost_slot_def filled_def)
  qed
  show ?thesis
  proof (cases "at_pc c i")
    case (KECas x s)
    let ?a = "unat (s AND mask_q ?q)"
    have x: "valid63 x" "r * ?n + j < unat s" using j(4) [of i] KECas by simp_all
    show ?thesis
    proof (cases "buffer ?q ! ?a = compact_expected ?q s")
      case True
      then have "?a \<noteq> j" using expected_past [OF k, of r s] x(2) j(2) by auto
      then show ?thesis using True KECas st ix x compact_marks_not_valid(1) [of ?q s] by (intro swap [of ?a x]) (auto simp: rmw Let_def)
    next
      case False
      then show ?thesis using KECas st ix x k by (intro keep) (auto simp: rmw Let_def)
    qed
  next
    case (KDCas h v)
    let ?a = "unat (h AND mask_q ?q)"
    have v: "valid63 v" using j(4) [of i] KDCas by simp
    show ?thesis
    proof (cases "buffer ?q ! ?a = v")
      case True
      then have "?a \<noteq> j" using v j(2) empty_mark_not_valid by auto
      then show ?thesis using True KDCas st ix v compact_marks_not_valid(2) [of ?q h]
        by (intro swap [of ?a "compact_nextEmpty ?q h"]) (auto simp: rmw Let_def)
    next
      case False
      then show ?thesis using KDCas st ix v k by (intro keep) (auto simp: rmw Let_def)
    qed
  next
    case (KEAdvance x s d)
    have "unat (tail ?q + 1) = Suc (unat (tail ?q))" using t by (simp add: unat_Suc_no_wrap)
    then show ?thesis using KEAdvance st j(4) [of i] k by (intro keep) (auto simp: rmw cshape_def split: if_splits)
  qed (use st j(3) j(4) [of i] k in \<open>intro keep; auto simp: rmw Let_def valid63_def cshape_def split: if_splits\<close>)+
qed

lemma lost_slot_exec:
  assumes "exec (mpmcc_step A) c0 m ls c" and "lost_slot j r c0" and "unat (tail (memory c0)) < 2 ^ 62" and "m < 2 ^ 62"
  shows "lost_slot j r c" and "length (acc_vals ls) + filled (memory c0) = length (del_vals ls) + filled (memory c)"
proof -
  let ?P = "\<lambda>m ls c. lost_slot j r c \<and> unat (tail (memory c)) \<le> unat (tail (memory c0)) + m
    \<and> length (acc_vals ls) + filled (memory c0) = length (del_vals ls) + filled (memory c)"
  have "?P m ls c"
  proof (rule exec_trace_invariant [of _ _ _ _ _ ?P, OF assms(1)])
    show "m \<le> 2 ^ 62" using assms(4) by simp
    show "?P 0 [] c0" using assms(2) by simp
    fix m ls c l c' assume P: "?P m ls c" and m: "m < 2 ^ 62" and step: "mpmcc_step A c l c'"
    from step show "?P (Suc m) (append_label ls l) c'"
    proof cases
      case (go_run i pc q)
      have "unat (tail (memory c)) < 2 ^ 63" using P m assms(3) by simp
      with lost_run [of j r c i l pc q, OF _ _ go_run(3)] P go_run(1) show ?thesis by (auto simp: acc_vals_append_label del_vals_append_label)
    qed (use P in \<open>auto simp: lost_slot_def\<close>)
  qed
  then show "lost_slot j r c" "length (acc_vals ls) + filled (memory c0) = length (del_vals ls) + filled (memory c)" by simp_all
qed

end

section \<open>The schedules\<close>

text \<open>
  Of two consumers at the first position one rests; the other takes \<open>x\<close>, then \<open>y\<close> and \<open>x\<close> are accepted, and
  the first consumer swaps the second \<open>x\<close>. \<open>e\<close> is the number of accesses of an accepted \<open>Enqueue\<close>.
\<close>

definition reuse_schedule :: "nat \<Rightarrow> u64 \<Rightarrow> u64 \<Rightarrow> u64 go_move list" where
  "reuse_schedule e x y = StartEnqueue 0 x # replicate e (Resume 0) @ StartDequeue 1 # replicate 4 (Resume 1)
     @ StartDequeue 2 # replicate 6 (Resume 2) @ StartEnqueue 0 y # replicate e (Resume 0) @ StartEnqueue 0 x # replicate e (Resume 0)
     @ replicate 2 (Resume 1) @ StartDequeue 2 # replicate 6 (Resume 2)"

definition reuse_trace :: "u64 \<Rightarrow> u64 \<Rightarrow> (u64 call \<times> u64 answer) list" where
  "reuse_trace x y = [(Enqueue x, EnqueueRet None), (Dequeue, DequeueRet x None), (Enqueue y, EnqueueRet None),
     (Enqueue x, EnqueueRet None), (Dequeue, DequeueRet x None), (Dequeue, DequeueRet y None)]"

lemma reuse_replicates:
  "replicate 2 z = [z, z]" "replicate 4 z = [z, z, z, z]" "replicate 5 z = [z, z, z, z, z]"
  "replicate 6 z = [z, z, z, z, z, z]" "replicate 11 z = [z, z, z, z, z, z, z, z, z, z, z]"
  by (simp_all add: numeral_eq_Suc)

lemma marks_2:
  assumes "order_q q = 1"
  shows "compact_expected q t = empty_mark (unat t div 2)"
    and "unat h + 2 < 2 ^ 64 \<Longrightarrow> compact_nextEmpty q h = empty_mark ((unat h + 2) div 2)"
    and "unat h + 2 < 2 ^ 64 \<Longrightarrow> spmcc_nextEmpty q h = empty_mark ((unat h + 2) div 2)"
  using compact_round [of 1 t] compact_next_round [of 1 h] assms
  by (simp_all add: compact_expected_def compact_nextEmpty_def spmcc_nextEmpty_def Let_def)

lemma mark_facts:
  assumes "valid63 x"
  shows "x AND emptyFlag = 0" and "x \<noteq> empty_mark r" and "empty_mark r \<noteq> x" and "empty_mark r AND emptyFlag \<noteq> 0"
  using assms empty_mark_not_valid [of r] by (auto simp: valid63_def)

lemma small_marks: "r < 4 \<Longrightarrow> s < 4 \<Longrightarrow> empty_mark r = empty_mark s \<longleftrightarrow> r = s"
  using empty_mark_inj [of r s] by auto

context atomix_sem
begin

lemma mpmcc_reuse:
  assumes "NewMPMCCompactIndirect 2 = ret q" and "valid63 x" and "valid63 y"
  shows "\<exists>cf. sched (go_do (MPMCCompactIndirect_step A) KIdle KECall KDHead (\<lambda>_. True) (\<lambda>_. True)) (reuse_schedule 6 x y) (go_init q KIdle)
      = Some (reuse_trace x y, cf) \<and> (\<forall>i. at_pc cf i = KIdle)
    \<and> memory cf = \<lparr>tail = 3, head = 2, buffer = [empty_mark 1, empty_mark 1], mask_q = 1, capacity = 2, order_q = 1\<rparr>"
proof -
  from assms(1) have q: "q = \<lparr>tail = 0, head = 0, buffer = [empty_mark 0, empty_mark 0], mask_q = 1, capacity = 2, order_q = 1\<rparr>"
    by (simp add: NewMPMCCompactIndirect_2 empty_mark_def)
  have le: "\<not> (3 :: u64) \<le> 1" "\<not> (2 :: u64) \<le> 1" "\<not> (3 :: u64) \<le> 2" by code_simp+
  show ?thesis unfolding reuse_schedule_def reuse_trace_def reuse_replicates
    by (simp add: go_init_def q marks_2 rmw Let_def mark_facts [OF assms(2)] mark_facts [OF assms(3)] small_marks le)
qed

lemma spmcc_reuse:
  assumes "NewSPMCCompactIndirect 2 = ret q" and "valid63 x" and "valid63 y" and "valid63 z"
  shows "\<exists>cf. sched (go_do (SPMCCompactIndirect_step A) JIdle JECall JDHead (\<lambda>i. i = 0) (\<lambda>_. True))
      (reuse_schedule 5 x y @ StartEnqueue 0 z # replicate 5 (Resume 0) @ StartDequeue 2 # replicate 11 (Resume 2)) (go_init q JIdle)
      = Some (reuse_trace x y @ [(Enqueue z, EnqueueRet None), (Dequeue, DequeueRet z None)], cf) \<and> (\<forall>i. at_pc cf i = JIdle)
    \<and> memory cf = \<lparr>tail = 4, head = 4, buffer = [empty_mark 1, empty_mark 2], mask_q = 1, capacity = 2, order_q = 1\<rparr>"
proof -
  from assms(1) have q: "q = \<lparr>tail = 0, head = 0, buffer = [empty_mark 0, empty_mark 0], mask_q = 1, capacity = 2, order_q = 1\<rparr>"
    by (simp add: NewCompact_same NewMPMCCompactIndirect_2 empty_mark_def)
  have le: "\<not> (3 :: u64) \<le> 1" "\<not> (2 :: u64) \<le> 1" "\<not> (3 :: u64) \<le> 2" "\<not> (4 :: u64) \<le> 3" "\<not> (4 :: u64) \<le> 2" by code_simp+
  show ?thesis unfolding reuse_schedule_def reuse_trace_def reuse_replicates
    by (simp add: go_init_def q marks_2 rmw Let_def mark_facts [OF assms(2)] mark_facts [OF assms(3)] mark_facts [OF assms(4)] small_marks le)
qed

end

section \<open>\<open>SPMCCompactIndirect\<close> at a lost slot\<close>

text \<open>
  Its producer does not step over the lost slot. On an empty queue whose tail is at such a slot,
  no step of any goroutine changes the memory.
\<close>

definition stopped :: "SPMCCompactIndirect \<Rightarrow> bool" where
  "stopped q \<longleftrightarrow> (\<exists>k. cshape k q) \<and> head q = tail q
     \<and> buffer q ! unat (tail q AND mask_q q) \<noteq> compact_expected q (tail q)"

fun stopped_pc :: "SPMCCompactIndirect \<Rightarrow> spmcc_pc \<Rightarrow> bool" where
  "stopped_pc q JIdle \<longleftrightarrow> True"
| "stopped_pc q (JECall x) \<longleftrightarrow> True"
| "stopped_pc q (JETail x) \<longleftrightarrow> True"
| "stopped_pc q (JEHead x t) \<longleftrightarrow> t = tail q"
| "stopped_pc q (JECas x t) \<longleftrightarrow> t = tail q"
| "stopped_pc q JDHead \<longleftrightarrow> True"
| "stopped_pc q (JDTail h) \<longleftrightarrow> h = head q"
| "stopped_pc q _ \<longleftrightarrow> False"

lemma stopped_index: "stopped q \<Longrightarrow> unat (p AND mask_q q) < length (buffer q)"
  by (auto simp: stopped_def cshape_def unat_and_mask)

context atomix_sem
begin

lemma stopped_run:
  assumes "stopped q" and "stopped_pc q pc" and "SPMCCompactIndirect_step A pc q = ret (l, pc', q')"
  shows "q' = q \<and> stopped_pc q pc' \<and> enq_vals l = [] \<and> deq_vals l = []"
  using assms stopped_index [OF assms(1)] by (cases pc) (auto simp: stopped_def rmw Let_def split: if_splits)

lemma stopped_exec:
  assumes "exec (spmcc_step A) c0 m ls c" and "stopped (memory c0)" and "\<And>i. at_pc c0 i = JIdle"
  shows "memory c = memory c0 \<and> acc_vals ls = [] \<and> del_vals ls = []"
proof -
  let ?P = "\<lambda>m ls c. memory c = memory c0 \<and> (\<forall>i. stopped_pc (memory c0) (at_pc c i)) \<and> acc_vals ls = [] \<and> del_vals ls = []"
  have "?P m ls c"
  proof (rule exec_trace_invariant [of _ _ _ _ _ ?P, OF assms(1) _ order_refl])
    show "?P 0 [] c0" using assms(3) by simp
    fix k ls d l d' assume P: "?P k ls d" and step: "spmcc_step A d l d'"
    from step show "?P (Suc k) (append_label ls l) d'"
    proof cases
      case (go_run i pc q)
      have "stopped_pc (memory c0) (at_pc d i)" "SPMCCompactIndirect_step A (at_pc d i) (memory c0) = ret (l, pc, q)"
        using P go_run(3) by simp_all
      from stopped_run [OF assms(2) this] P go_run(1) show ?thesis by (auto simp: acc_vals_append_label del_vals_append_label)
    qed (use P in auto)
  qed
  then show ?thesis by blast
qed

lemma stopped_calls:
  assumes "stopped q"
  shows "SPMCCompactIndirect_Enqueue A x q
      = (if valid63 x then ret (Some ErrWouldBlock, q) else panics (PanicMsg ''lfq: value exceeds 63 bits''))"
    and "SPMCCompactIndirect_Dequeue A q = ret ((0, Some ErrWouldBlock), q)"
proof -
  from assms obtain k where k: "cshape k q" and e: "head q = tail q" "buffer q ! unat (tail q AND mask_q q) \<noteq> compact_expected q (tail q)"
    by (auto simp: stopped_def)
  show "SPMCCompactIndirect_Dequeue A q = ret ((0, Some ErrWouldBlock), q)"
    using e by (subst SPMCCompactIndirect_Dequeue.simps) simp
  show "SPMCCompactIndirect_Enqueue A x q
      = (if valid63 x then ret (Some ErrWouldBlock, q) else panics (PanicMsg ''lfq: value exceeds 63 bits''))"
    using e stopped_index [OF assms] by (simp add: SPMCCompactIndirect_Enqueue_def valid63_def compact_expected_def rmw Let_def)
qed

end

end
