(* ===== verification/Faa_Concurrent.thy ===== *)
theory Faa_Concurrent
  imports Faa_Queues Interleaving
begin

text \<open>
  Any number of goroutines on an \<open>MPMC[T]\<close> queue (\<open>mpmc.go\<close>), interleaved. The program counter of a
  goroutine says which shared access of \<open>Enqueue\<close>, \<open>Dequeue\<close> or \<open>catchup\<close> comes next and carries the
  local variables. A step that ends a call is labelled with the call and its result.

  A call in isolation is the function of theory \<open>Faa_Queues\<close>. Interleaved calls are not
  linearizable: the slot of a position is filled by two plain stores after its cycle number has
  been read, and the slot repair of a consumer can come between, so that an accepted value is
  never delivered.
\<close>

section \<open>Atomic steps\<close>

datatype 'a mpmc_pc = FIdle
  | FETail 'a | FEHead 'a u64 | FEAdd 'a | FECycle 'a u64 | FEData 'a u64 | FEPublish 'a u64 | FEThreshold 'a
  | FDDraining | FDThreshold | FDAdd | FDCycle u64 | FDData u64 | FDClear u64 'a | FDRelease u64 'a
  | FDRepair u64 u64 | FDTail u64 | FDCount | FDDrained | FDLower
  | FCCas u64 u64 | FCTail | FCHead u64

definition catchup_pc :: "u64 \<Rightarrow> u64 \<Rightarrow> 'a mpmc_pc" where
  "catchup_pc t h = (if t < h then FCCas t h else FDLower)"

definition refused :: "'a \<Rightarrow> ('a call \<times> 'a answer) option" where
  "refused zero = Some (Dequeue, DequeueRet zero (Some ErrWouldBlock))"

fun MPMC_step :: "atomix \<Rightarrow> 'a \<Rightarrow> 'a mpmc_pc \<Rightarrow> 'a MPMC
    \<Rightarrow> (('a call \<times> 'a answer) option \<times> 'a mpmc_pc \<times> 'a MPMC) go" where
  "MPMC_step A zero FIdle q = ret (None, FIdle, q)"
| "MPMC_step A zero (FETail elem) q = ret (None, FEHead elem (tail q), q)"
| "MPMC_step A zero (FEHead elem t) q =
     (if t \<ge> head q + capacity q
      then ret (Some (Enqueue elem, EnqueueRet (Some ErrWouldBlock)), FIdle, q)
      else ret (None, FEAdd elem, q))"
| "MPMC_step A zero (FEAdd elem) q =
     (case Add64 A (tail q) 1 of (added, cell) \<Rightarrow> ret (None, FECycle elem (added - 1), q\<lparr>tail := cell\<rparr>))"
| "MPMC_step A zero (FECycle elem myTail) q =
     (let i = unat (myTail AND mask_q q)
      in if \<not> i < length (buffer q) then panics IndexOutOfRange
         else if capacity q = 0 then panics DivideByZero
         else let expectedCycle = myTail div capacity q; slotCycle = cycle (buffer q ! i)
           in if slotCycle = expectedCycle then ret (None, FEData elem myTail, q)
              else if sint slotCycle < sint expectedCycle
              then ret (Some (Enqueue elem, EnqueueRet (Some ErrWouldBlock)), FIdle, q)
              else ret (None, FETail elem, q))"
| "MPMC_step A zero (FEData elem myTail) q =
     (let i = unat (myTail AND mask_q q)
      in if \<not> i < length (buffer q) then panics IndexOutOfRange
         else ret (None, FEPublish elem myTail, q\<lparr>buffer := (buffer q)[i := (buffer q ! i)\<lparr>data := elem\<rparr>]\<rparr>))"
| "MPMC_step A zero (FEPublish elem myTail) q =
     (let i = unat (myTail AND mask_q q)
      in if \<not> i < length (buffer q) then panics IndexOutOfRange
         else if capacity q = 0 then panics DivideByZero
         else ret (None, FEThreshold elem,
                q\<lparr>buffer := (buffer q)[i := (buffer q ! i)\<lparr>cycle := myTail div capacity q + 1\<rparr>]\<rparr>))"
| "MPMC_step A zero (FEThreshold elem) q =
     ret (Some (Enqueue elem, EnqueueRet None), FIdle, q\<lparr>threshold := 3 * capacity q - 1\<rparr>)"
| "MPMC_step A zero FDDraining q = ret (None, if draining q then FDAdd else FDThreshold, q)"
| "MPMC_step A zero FDThreshold q =
     (if sint (threshold q) < 0 then ret (refused zero, FIdle, q) else ret (None, FDAdd, q))"
| "MPMC_step A zero FDAdd q =
     (case Add64 A (head q) 1 of (added, cell) \<Rightarrow> ret (None, FDCycle (added - 1), q\<lparr>head := cell\<rparr>))"
| "MPMC_step A zero (FDCycle myHead) q =
     (let i = unat (myHead AND mask_q q)
      in if \<not> i < length (buffer q) then panics IndexOutOfRange
         else if capacity q = 0 then panics DivideByZero
         else let expectedCycle = myHead div capacity q + 1; slotCycle = cycle (buffer q ! i)
           in if slotCycle = expectedCycle then ret (None, FDData myHead, q)
              else if sint slotCycle < sint expectedCycle then ret (None, FDRepair myHead slotCycle, q)
              else ret (None, FDAdd, q))"
| "MPMC_step A zero (FDData myHead) q =
     (let i = unat (myHead AND mask_q q)
      in if \<not> i < length (buffer q) then panics IndexOutOfRange
         else ret (None, FDClear myHead (data (buffer q ! i)), q))"
| "MPMC_step A zero (FDClear myHead elem) q =
     (let i = unat (myHead AND mask_q q)
      in if \<not> i < length (buffer q) then panics IndexOutOfRange
         else ret (None, FDRelease myHead elem, q\<lparr>buffer := (buffer q)[i := (buffer q ! i)\<lparr>data := zero\<rparr>]\<rparr>))"
| "MPMC_step A zero (FDRelease myHead elem) q =
     (let i = unat (myHead AND mask_q q)
      in if \<not> i < length (buffer q) then panics IndexOutOfRange
         else if capacity q = 0 then panics DivideByZero
         else ret (Some (Dequeue, DequeueRet elem None), FIdle,
                q\<lparr>buffer := (buffer q)[i := (buffer q ! i)\<lparr>cycle := (myHead + size_q q) div capacity q\<rparr>]\<rparr>))"
| "MPMC_step A zero (FDRepair myHead slotCycle) q =
     (let i = unat (myHead AND mask_q q)
      in if \<not> i < length (buffer q) then panics IndexOutOfRange
         else if capacity q = 0 then panics DivideByZero
         else let nextEnqCycle = (myHead + size_q q) div capacity q;
                  repaired = snd (CompareAndSwap64 A (cycle (buffer q ! i)) slotCycle nextEnqCycle)
           in ret (None, FDTail myHead, q\<lparr>buffer := (buffer q)[i := (buffer q ! i)\<lparr>cycle := repaired\<rparr>]\<rparr>))"
| "MPMC_step A zero (FDTail myHead) q =
     (let t = tail q
      in if t \<le> myHead + 1 then ret (None, catchup_pc t (myHead + 1), q) else ret (None, FDCount, q))"
| "MPMC_step A zero FDCount q =
     (case AddInt64 A (threshold q) (- 1) of (left, cell) \<Rightarrow>
        ret (None, if sint left \<le> 0 then FDDrained else FDAdd, q\<lparr>threshold := cell\<rparr>))"
| "MPMC_step A zero FDDrained q =
     (if draining q then ret (None, FDAdd, q) else ret (refused zero, FIdle, q))"
| "MPMC_step A zero FDLower q =
     ret (refused zero, FIdle, q\<lparr>threshold := snd (AddInt64 A (threshold q) (- 1))\<rparr>)"
| "MPMC_step A zero (FCCas t h) q =
     (case CompareAndSwap64 A (tail q) t h of (swapped, cell) \<Rightarrow>
        ret (None, if swapped then FDLower else FCTail, q\<lparr>tail := cell\<rparr>))"
| "MPMC_step A zero FCTail q = ret (None, FCHead (tail q), q)"
| "MPMC_step A zero (FCHead t) q = ret (None, catchup_pc t (head q), q)"

record 'a mpmc_conf =
  shared :: "'a MPMC"
  pcs :: "nat \<Rightarrow> 'a mpmc_pc"

inductive mpmc_step :: "atomix \<Rightarrow> 'a \<Rightarrow> 'a mpmc_conf \<Rightarrow> ('a call \<times> 'a answer) option \<Rightarrow> 'a mpmc_conf \<Rightarrow> bool"
  for A :: atomix and zero :: 'a where
  mpmc_call_Enqueue: "pcs c i = FIdle \<Longrightarrow> mpmc_step A zero c None (c\<lparr>pcs := (pcs c)(i := FETail x)\<rparr>)"
| mpmc_call_Dequeue: "pcs c i = FIdle \<Longrightarrow> mpmc_step A zero c None (c\<lparr>pcs := (pcs c)(i := FDDraining)\<rparr>)"
| mpmc_call_Drain: "pcs c i = FIdle \<Longrightarrow> mpmc_step A zero c None (c\<lparr>shared := MPMC_Drain (shared c)\<rparr>)"
| mpmc_run_step: "pcs c i \<noteq> FIdle \<Longrightarrow> MPMC_step A zero (pcs c i) (shared c) = ret (l, pc, q) \<Longrightarrow>
    mpmc_step A zero c l (c\<lparr>shared := q, pcs := (pcs c)(i := pc)\<rparr>)"

definition mpmc_init :: "'a MPMC \<Rightarrow> 'a mpmc_conf" where
  "mpmc_init q = \<lparr>shared = q, pcs = (\<lambda>_. FIdle)\<rparr>"

section \<open>A call alone\<close>

context atomix_sem
begin

lemma MPMC_Enqueue_steps:
  assumes "mpmc_shape k q" and "unat (tail q) + 1 + 4 * 2 ^ k < 2 ^ 64"
  shows "run_alone (MPMC_step A zero) FIdle None (FETail x) q
    = go_bind (MPMC_Enqueue A x q) (\<lambda>(e, q'). ret (Some (Enqueue x, EnqueueRet e), q'))"
proof -
  note S = mpmc_shapeD [OF assms(1)]
  show ?thesis
    unfolding MPMC_Enqueue_eq [OF assms]
    using faa_full_test [OF S(1)] faa_push(1) [OF S(1) _ assms(2)]
    by (simp add: run_alone_simps Let_def S rmw mpmc_push_def)
qed

lemma MPMC_Dequeue_steps:
  assumes "mpmc_shape k q"
  shows "run_alone (MPMC_step A zero) FIdle None FDDraining q
    = go_bind (MPMC_Dequeue A zero q) (\<lambda>((v, e), q'). ret (Some (Dequeue, DequeueRet v e), q'))"
proof -
  note S = mpmc_shapeD [OF assms] and D = faa_okD [OF mpmc_shapeD(1) [OF assms]]
  note c = faa_cycles [OF D(1,2,7)]
  have lt: "h < h + 1" "h \<le> h + 1" if "h = head q" for h
    using faa_succ [OF D(7)] that by (simp_all add: word_less_nat_alt word_le_nat_alt)
  show ?thesis
  proof (cases "unat (head q) < unat (tail q)")
    case True
    with faa_pop(1) [OF S(1) True] show ?thesis unfolding MPMC_Dequeue_eq [OF assms]
      by (simp add: run_alone_simps Let_def S rmw mpmc_pop_def refused_def)
  next
    case False
    then have e: "tail q = head q" using faa_empty_iff(2) [OF S(1)] by simp
    then have cy: "cycle (buffer q ! faa_idx k (head q)) = head q div 2 ^ k"
      using S(1) by (intro faa_empty_cycle) simp
    with False e c(4,5) lt [OF refl] show ?thesis unfolding MPMC_Dequeue_eq [OF assms]
      by (simp add: run_alone_simps Let_def S rmw catchup_pc_def refused_def mpmc_skip_def faa_slot_cycle_upd)
  qed
qed

end

section \<open>Executing an interleaving\<close>

datatype 'a mpmc_move = MEnqueue nat 'a | MDequeue nat | MDrain nat | MRun nat

fun mpmc_do :: "atomix \<Rightarrow> 'a \<Rightarrow> 'a mpmc_move \<Rightarrow> 'a mpmc_conf \<Rightarrow> (('a call \<times> 'a answer) option \<times> 'a mpmc_conf) option" where
  "mpmc_do A zero (MEnqueue i x) c = (case pcs c i of FIdle \<Rightarrow> Some (None, c\<lparr>pcs := (pcs c)(i := FETail x)\<rparr>) | _ \<Rightarrow> None)"
| "mpmc_do A zero (MDequeue i) c = (case pcs c i of FIdle \<Rightarrow> Some (None, c\<lparr>pcs := (pcs c)(i := FDDraining)\<rparr>) | _ \<Rightarrow> None)"
| "mpmc_do A zero (MDrain i) c = (case pcs c i of FIdle \<Rightarrow> Some (None, c\<lparr>shared := MPMC_Drain (shared c)\<rparr>) | _ \<Rightarrow> None)"
| "mpmc_do A zero (MRun i) c = (case pcs c i of FIdle \<Rightarrow> None | pc \<Rightarrow>
     (case MPMC_step A zero pc (shared c) of
        Some (Inr (l, pc', q)) \<Rightarrow> Some (l, c\<lparr>shared := q, pcs := (pcs c)(i := pc')\<rparr>) | _ \<Rightarrow> None))"

lemma mpmc_do_step:
  assumes "mpmc_do A zero mv c = Some (l, c')"
  shows "mpmc_step A zero c l c'"
proof (cases mv)
  case (MRun i)
  then have "pcs c i \<noteq> FIdle" using assms by (cases "pcs c i") auto
  moreover from this have "(case MPMC_step A zero (pcs c i) (shared c) of
        Some (Inr (l, pc', q)) \<Rightarrow> Some (l, c\<lparr>shared := q, pcs := (pcs c)(i := pc')\<rparr>) | _ \<Rightarrow> None) = Some (l, c')"
    using assms MRun by (cases "pcs c i") simp_all
  ultimately show ?thesis by (auto intro: mpmc_step.intros split: option.splits sum.splits)
qed (use assms in \<open>auto intro: mpmc_step.intros split: mpmc_pc.splits\<close>)

lemma mpmc_sched_exec:
  "sched (mpmc_do A zero) mvs c0 = Some (ls, c) \<Longrightarrow> length mvs = n \<Longrightarrow> exec (mpmc_step A zero) c0 n ls c"
  using sched_init_exec [of "mpmc_do A zero" mvs c0 ls c "mpmc_step A zero", OF _ mpmc_do_step] by simp

text \<open>The smallest queue.\<close>

lemma NewMPMC_2:
  "NewMPMC zero 2 = ret \<lparr>tail = 0, head = 0, threshold = 5, draining = False,
     buffer = [\<lparr>cycle = 0, data = zero\<rparr>, \<lparr>cycle = 0, data = zero\<rparr>, \<lparr>cycle = 1, data = zero\<rparr>, \<lparr>cycle = 1, data = zero\<rparr>],
     capacity = 2, size_q = 4, mask_q = 3\<rparr>"
proof -
  have "[0..<4] = [0, 1, 2, 3]" by (simp add: upt_rec)
  moreover have "replicate 4 z = [z, z, z, z]" for z :: "'a mpmcSlot" by (simp add: numeral_eq_Suc)
  moreover have "(of_nat 2 :: u64) div 2 = 1" "(of_nat 3 :: u64) div 2 = 1" "(of_nat 1 :: u64) div 2 = 0" by code_simp+
  ultimately show ?thesis by (simp add: roundToPow2_2 NewMPMC_def make_slice_def)
qed

text \<open>Polling: a dequeue that fails, again and again.\<close>

definition polls_fail :: "('q \<Rightarrow> (('a \<times> err option) \<times> 'q) go) \<Rightarrow> 'a \<Rightarrow> 'q \<Rightarrow> bool" where
  "polls_fail deq zero q \<longleftrightarrow> (\<forall>m enq. \<exists>q'. run_calls enq deq (replicate m Dequeue) q
     = ret (replicate m (DequeueRet zero (Some ErrWouldBlock)), q'))"

lemma polls_fail_stuck:
  assumes "deq q = ret ((zero, Some ErrWouldBlock), q)"
  shows "polls_fail deq zero q"
proof -
  have "run_calls enq deq (replicate m Dequeue) q = ret (replicate m (DequeueRet zero (Some ErrWouldBlock)), q)" for m enq
    using assms by (induction m) simp_all
  then show ?thesis by (auto simp: polls_fail_def)
qed

lemma polls_fail_step:
  assumes "deq q = ret ((zero, Some ErrWouldBlock), q')" and "polls_fail deq zero q'"
  shows "polls_fail deq zero q"
  unfolding polls_fail_def
proof (intro allI)
  fix m and enq :: "'a \<Rightarrow> 'b \<Rightarrow> (err option \<times> 'b) go"
  show "\<exists>q''. run_calls enq deq (replicate m Dequeue) q = ret (replicate m (DequeueRet zero (Some ErrWouldBlock)), q'')"
  proof (cases m)
    case (Suc n)
    moreover from assms(2) obtain q'' where
      "run_calls enq deq (replicate n Dequeue) q' = ret (replicate n (DequeueRet zero (Some ErrWouldBlock)), q'')"
      unfolding polls_fail_def by blast
    ultimately show ?thesis using assms(1) by simp
  qed simp
qed

lemma small_cycles [simp]:
  "(1 :: u64) div 2 = 0" "(2 :: u64) div 2 = 1" "(3 :: u64) div 2 = 1" "(4 :: u64) div 2 = 2"
  "(5 :: u64) div 2 = 2" "(6 :: u64) div 2 = 3" "(7 :: u64) div 2 = 3" "(8 :: u64) div 2 = 4" "(9 :: u64) div 2 = 4"
  by code_simp+

context atomix_sem
begin

lemma mpmc_lost:
  assumes "NewMPMC zero 2 = ret q"
  shows "sched (mpmc_do A zero) [MEnqueue 0 x, MRun 0, MRun 0, MRun 0, MRun 0,
       MDequeue 1, MRun 1, MRun 1, MRun 1, MRun 1, MRun 1, MRun 1, MRun 1, MRun 0, MRun 0, MRun 0] (mpmc_init q)
     = Some ([(Dequeue, DequeueRet zero (Some ErrWouldBlock)), (Enqueue x, EnqueueRet None)],
        \<lparr>shared = \<lparr>tail = 1, head = 1, threshold = 5, draining = False,
           buffer = [\<lparr>cycle = 1, data = x\<rparr>, \<lparr>cycle = 0, data = zero\<rparr>, \<lparr>cycle = 1, data = zero\<rparr>, \<lparr>cycle = 1, data = zero\<rparr>],
           capacity = 2, size_q = 4, mask_q = 3\<rparr>, pcs = (\<lambda>_. FIdle)\<rparr>)"
proof -
  from assms have "q = \<lparr>tail = 0, head = 0, threshold = 5, draining = False,
     buffer = [\<lparr>cycle = 0, data = zero\<rparr>, \<lparr>cycle = 0, data = zero\<rparr>, \<lparr>cycle = 1, data = zero\<rparr>, \<lparr>cycle = 1, data = zero\<rparr>],
     capacity = 2, size_q = 4, mask_q = 3\<rparr>" by (simp add: NewMPMC_2)
  then show ?thesis by (simp add: mpmc_init_def refused_def catchup_pc_def Let_def rmw fun_eq_iff)
qed

lemma mpmc_lost_polls:
  "polls_fail (MPMC_Dequeue A zero) zero \<lparr>tail = 1, head = 1, threshold = 5, draining = False,
     buffer = [\<lparr>cycle = 1, data = x\<rparr>, \<lparr>cycle = 0, data = zero\<rparr>, \<lparr>cycle = 1, data = zero\<rparr>, \<lparr>cycle = 1, data = zero\<rparr>],
     capacity = 2, size_q = 4, mask_q = 3\<rparr>"
  by (rule polls_fail_step [OF _ polls_fail_step [OF _ polls_fail_step [OF _ polls_fail_step [OF _ polls_fail_step [OF _ polls_fail_step [OF _ polls_fail_stuck]]]]]])
    (simp add: MPMC_Dequeue_def MPMC_Dequeue_loop.simps MPMC_catchup.simps Let_def rmw)+

end

end
