(* ===== verification/Mpsc_Concurrent.thy ===== *)
theory Mpsc_Concurrent
  imports Faa_Concurrent
begin

text \<open>
  Any number of producers and the single consumer of an \<open>MPSC[T]\<close> queue (\<open>mpsc.go\<close>), interleaved.
  Producers claim positions by fetch-and-add; the consumer takes the positions in order. Here a
  slot is only ever reused after the consumer has released it, so the two stores of a producer
  cannot be disturbed. A producer that finds its slot still in use gives up a position it has
  already claimed (the label \<open>MBurned\<close>), and the consumer never gets past such a position.
\<close>

section \<open>Atomic steps\<close>

datatype 'a mpsc_epc = SIdle | SETail 'a | SEHead 'a u64 | SEAdd 'a u64 | SECycle 'a u64 | SEData 'a u64 | SEPublish 'a u64

datatype 'a mpsc_dpc = SDIdle | SDHead | SDCycle u64 | SDData u64 | SDClear u64 'a | SDRelease u64 'a | SDAdvance u64 'a

datatype 'a mpsc_label = MStored nat 'a | MFull | MBurned nat | MDelivered nat 'a | MEmpty

fun MPSC_Enqueue_step :: "atomix \<Rightarrow> 'a mpsc_epc \<Rightarrow> 'a MPSC
    \<Rightarrow> ('a mpsc_label option \<times> 'a mpsc_epc \<times> 'a MPSC) go" where
  "MPSC_Enqueue_step A SIdle q = ret (None, SIdle, q)"
| "MPSC_Enqueue_step A (SETail elem) q = ret (None, SEHead elem (sc_tail q), q)"
| "MPSC_Enqueue_step A (SEHead elem t) q =
     (if t \<ge> sc_head q + sc_capacity q then ret (Some MFull, SIdle, q) else ret (None, SEAdd elem t, q))"
| "MPSC_Enqueue_step A (SEAdd elem t) q =
     (case Add64 A (sc_tail q) 1 of (added, cell) \<Rightarrow> ret (None, SECycle elem (added - 1), q\<lparr>sc_tail := cell\<rparr>))"
| "MPSC_Enqueue_step A (SECycle elem myTail) q =
     (let i = unat (myTail AND sc_mask q)
      in if \<not> i < length (sc_buffer q) then panics IndexOutOfRange
         else if sc_capacity q = 0 then panics DivideByZero
         else let expectedCycle = myTail div sc_capacity q; slotCycle = cycle (sc_buffer q ! i)
           in if slotCycle = expectedCycle then ret (None, SEData elem myTail, q)
              else if sint slotCycle < sint expectedCycle then ret (Some (MBurned (unat myTail)), SIdle, q)
              else ret (None, SETail elem, q))"
| "MPSC_Enqueue_step A (SEData elem myTail) q =
     (let i = unat (myTail AND sc_mask q)
      in if \<not> i < length (sc_buffer q) then panics IndexOutOfRange
         else ret (None, SEPublish elem myTail,
                q\<lparr>sc_buffer := (sc_buffer q)[i := (sc_buffer q ! i)\<lparr>data := elem\<rparr>]\<rparr>))"
| "MPSC_Enqueue_step A (SEPublish elem myTail) q =
     (let i = unat (myTail AND sc_mask q)
      in if \<not> i < length (sc_buffer q) then panics IndexOutOfRange
         else if sc_capacity q = 0 then panics DivideByZero
         else ret (Some (MStored (unat myTail) elem), SIdle,
                q\<lparr>sc_buffer := (sc_buffer q)[i := (sc_buffer q ! i)\<lparr>cycle := myTail div sc_capacity q + 1\<rparr>]\<rparr>))"

fun MPSC_Dequeue_step :: "'a \<Rightarrow> 'a mpsc_dpc \<Rightarrow> 'a MPSC
    \<Rightarrow> ('a mpsc_label option \<times> 'a mpsc_dpc \<times> 'a MPSC) go" where
  "MPSC_Dequeue_step zero SDIdle q = ret (None, SDIdle, q)"
| "MPSC_Dequeue_step zero SDHead q = ret (None, SDCycle (sc_head q), q)"
| "MPSC_Dequeue_step zero (SDCycle h) q =
     (let i = unat (h AND sc_mask q)
      in if sc_capacity q = 0 then panics DivideByZero
         else if \<not> i < length (sc_buffer q) then panics IndexOutOfRange
         else if cycle (sc_buffer q ! i) \<noteq> h div sc_capacity q + 1 then ret (Some MEmpty, SDIdle, q)
         else ret (None, SDData h, q))"
| "MPSC_Dequeue_step zero (SDData h) q =
     (let i = unat (h AND sc_mask q)
      in if \<not> i < length (sc_buffer q) then panics IndexOutOfRange
         else ret (None, SDClear h (data (sc_buffer q ! i)), q))"
| "MPSC_Dequeue_step zero (SDClear h elem) q =
     (let i = unat (h AND sc_mask q)
      in if \<not> i < length (sc_buffer q) then panics IndexOutOfRange
         else ret (None, SDRelease h elem,
                q\<lparr>sc_buffer := (sc_buffer q)[i := (sc_buffer q ! i)\<lparr>data := zero\<rparr>]\<rparr>))"
| "MPSC_Dequeue_step zero (SDRelease h elem) q =
     (let i = unat (h AND sc_mask q)
      in if \<not> i < length (sc_buffer q) then panics IndexOutOfRange
         else if sc_capacity q = 0 then panics DivideByZero
         else ret (None, SDAdvance h elem,
                q\<lparr>sc_buffer := (sc_buffer q)[i := (sc_buffer q ! i)\<lparr>cycle := (h + sc_size q) div sc_capacity q\<rparr>]\<rparr>))"
| "MPSC_Dequeue_step zero (SDAdvance h elem) q =
     ret (Some (MDelivered (unat h) elem), SDIdle, q\<lparr>sc_head := h + 1\<rparr>)"

record 'a mpsc_conf =
  shared :: "'a MPSC"
  epcs :: "nat \<Rightarrow> 'a mpsc_epc"
  dpc :: "'a mpsc_dpc"

text \<open>Producers are numbered below \<open>P\<close>.\<close>

inductive mpsc_step :: "atomix \<Rightarrow> 'a \<Rightarrow> nat \<Rightarrow> 'a mpsc_conf \<Rightarrow> 'a mpsc_label option \<Rightarrow> 'a mpsc_conf \<Rightarrow> bool"
  for A :: atomix and zero :: 'a and P :: nat where
  mpsc_call_Enqueue: "i < P \<Longrightarrow> epcs c i = SIdle \<Longrightarrow> mpsc_step A zero P c None (c\<lparr>epcs := (epcs c)(i := SETail x)\<rparr>)"
| mpsc_call_Dequeue: "dpc c = SDIdle \<Longrightarrow> mpsc_step A zero P c None (c\<lparr>dpc := SDHead\<rparr>)"
| mpsc_call_Drain: "mpsc_step A zero P c None (c\<lparr>shared := MPSC_Drain (shared c)\<rparr>)"
| mpsc_step_Enqueue: "i < P \<Longrightarrow> epcs c i \<noteq> SIdle \<Longrightarrow> MPSC_Enqueue_step A (epcs c i) (shared c) = ret (l, pc, q) \<Longrightarrow>
    mpsc_step A zero P c l (c\<lparr>shared := q, epcs := (epcs c)(i := pc)\<rparr>)"
| mpsc_step_Dequeue: "dpc c \<noteq> SDIdle \<Longrightarrow> MPSC_Dequeue_step zero (dpc c) (shared c) = ret (l, pc, q) \<Longrightarrow>
    mpsc_step A zero P c l (c\<lparr>shared := q, dpc := pc\<rparr>)"

inductive_cases mpsc_stepE: "mpsc_step A zero P c l c'"

definition mpsc_init :: "'a MPSC \<Rightarrow> 'a mpsc_conf" where
  "mpsc_init q = \<lparr>shared = q, epcs = (\<lambda>_. SIdle), dpc = SDIdle\<rparr>"

section \<open>Invariant\<close>

fun stores :: "'a mpsc_label list \<Rightarrow> (nat \<times> 'a) list" where
  "stores [] = []"
| "stores (MStored p x # ls) = (p, x) # stores ls"
| "stores (_ # ls) = stores ls"

fun burns :: "'a mpsc_label list \<Rightarrow> nat list" where
  "burns [] = []"
| "burns (MBurned p # ls) = p # burns ls"
| "burns (_ # ls) = burns ls"

fun mdelivs :: "'a mpsc_label list \<Rightarrow> (nat \<times> 'a) list" where
  "mdelivs [] = []"
| "mdelivs (MDelivered p x # ls) = (p, x) # mdelivs ls"
| "mdelivs (_ # ls) = mdelivs ls"

lemma label_lists_append [simp]:
  "stores (ls @ ls') = stores ls @ stores ls'"
  "burns (ls @ ls') = burns ls @ burns ls'"
  "mdelivs (ls @ ls') = mdelivs ls @ mdelivs ls'"
  by (induction ls rule: stores.induct; simp)+

text \<open>The value stored at a position; the position a producer has claimed and not yet filled.\<close>

definition stored_at :: "'a mpsc_label list \<Rightarrow> nat \<Rightarrow> 'a option" where
  "stored_at ls = map_of (stores ls)"

fun held :: "'a mpsc_epc \<Rightarrow> nat option" where
  "held (SECycle x p) = Some (unat p)"
| "held (SEData x p) = Some (unat p)"
| "held (SEPublish x p) = Some (unat p)"
| "held _ = None"

text \<open>The first position whose slot the consumer has not released.\<close>

fun is_released :: "'a mpsc_dpc \<Rightarrow> bool" where
  "is_released (SDAdvance h x) = True"
| "is_released _ = False"

definition eff_head :: "'a mpsc_conf \<Rightarrow> nat" where
  "eff_head c = unat (sc_head (shared c)) + (if is_released (dpc c) then 1 else 0)"

definition cyc_at :: "'a MPSC \<Rightarrow> nat \<Rightarrow> u64" where
  "cyc_at q p = cycle (sc_buffer q ! (p mod length (sc_buffer q)))"

definition dat_at :: "'a MPSC \<Rightarrow> nat \<Rightarrow> 'a" where
  "dat_at q p = data (sc_buffer q ! (p mod length (sc_buffer q)))"

definition mpsc_static :: "nat \<Rightarrow> 'a MPSC \<Rightarrow> bool" where
  "mpsc_static k q \<longleftrightarrow> 1 \<le> k \<and> k \<le> 61 \<and> sc_capacity q = 2 ^ k \<and> sc_size q = 2 ^ k * 2
     \<and> sc_mask q = 2 ^ k * 2 - 1 \<and> length (sc_buffer q) = 2 * 2 ^ k"

definition mpsc_slots :: "nat \<Rightarrow> nat \<Rightarrow> bool \<Rightarrow> (nat \<Rightarrow> 'a option) \<Rightarrow> 'a MPSC \<Rightarrow> bool" where
  "mpsc_slots n e cleared S q \<longleftrightarrow> (\<forall>p. e \<le> p \<longrightarrow> p < e + 2 * n \<longrightarrow>
     (case S p of None \<Rightarrow> cyc_at q p = of_nat (p div n)
      | Some x \<Rightarrow> cyc_at q p = of_nat (p div n + 1) \<and> (cleared \<and> p = e \<or> dat_at q p = x)))"

definition mpsc_positions :: "nat \<Rightarrow> nat \<Rightarrow> nat \<Rightarrow> (nat \<Rightarrow> 'a option) \<Rightarrow> nat set \<Rightarrow> (nat \<Rightarrow> 'a mpsc_epc) \<Rightarrow> bool" where
  "mpsc_positions n e t S B E \<longleftrightarrow>
     (\<forall>i j p. held (E i) = Some p \<longrightarrow> held (E j) = Some p \<longrightarrow> i = j)
     \<and> (\<forall>i p. held (E i) = Some p \<longrightarrow> p < t \<and> S p = None \<and> p \<notin> B)
     \<and> (\<forall>p < t. S p \<noteq> None \<or> p \<in> B \<or> (\<exists>i. held (E i) = Some p))
     \<and> (\<forall>p x. S p = Some x \<longrightarrow> p < t \<and> p < e + 2 * n \<and> p \<notin> B)
     \<and> (\<forall>p < e. S p \<noteq> None) \<and> (\<forall>p \<in> B. p < t)"

fun prod_ok :: "nat \<Rightarrow> nat \<Rightarrow> 'a MPSC \<Rightarrow> 'a mpsc_epc \<Rightarrow> bool" where
  "prod_ok n e q (SEHead x t) \<longleftrightarrow> unat t \<le> unat (sc_tail q)"
| "prod_ok n e q (SEAdd x t) \<longleftrightarrow> unat t \<le> unat (sc_tail q) \<and> unat t < unat (sc_head q) + n"
| "prod_ok n e q (SEData x p) \<longleftrightarrow> unat p < e + 2 * n"
| "prod_ok n e q (SEPublish x p) \<longleftrightarrow> unat p < e + 2 * n \<and> dat_at q (unat p) = x"
| "prod_ok n e q _ \<longleftrightarrow> True"

fun cons_ok :: "(nat \<Rightarrow> 'a option) \<Rightarrow> u64 \<Rightarrow> 'a mpsc_dpc \<Rightarrow> bool" where
  "cons_ok S w (SDCycle h) \<longleftrightarrow> h = w"
| "cons_ok S w (SDData h) \<longleftrightarrow> h = w \<and> S (unat w) \<noteq> None"
| "cons_ok S w (SDClear h x) \<longleftrightarrow> h = w \<and> S (unat w) = Some x"
| "cons_ok S w (SDRelease h x) \<longleftrightarrow> h = w \<and> S (unat w) = Some x"
| "cons_ok S w (SDAdvance h x) \<longleftrightarrow> h = w \<and> S (unat w) = Some x"
| "cons_ok S w _ \<longleftrightarrow> True"

fun is_cleared :: "'a mpsc_dpc \<Rightarrow> bool" where
  "is_cleared (SDRelease h x) = True"
| "is_cleared _ = False"

definition mpsc_cinv :: "nat \<Rightarrow> nat \<Rightarrow> 'a mpsc_label list \<Rightarrow> 'a mpsc_conf \<Rightarrow> bool" where
  "mpsc_cinv k m ls c \<longleftrightarrow> mpsc_static k (shared c) \<and> unat (sc_tail (shared c)) \<le> m
     \<and> mpsc_slots (2 ^ k) (eff_head c) (is_cleared (dpc c)) (stored_at ls) (shared c)
     \<and> mpsc_positions (2 ^ k) (eff_head c) (unat (sc_tail (shared c))) (stored_at ls) (set (burns ls)) (epcs c)
     \<and> (\<forall>i. prod_ok (2 ^ k) (eff_head c) (shared c) (epcs c i))
     \<and> cons_ok (stored_at ls) (sc_head (shared c)) (dpc c)
     \<and> mdelivs ls = map (\<lambda>p. (p, the (stored_at ls p))) [0..<unat (sc_head (shared c))]"

definition mpsc_bound :: nat where
  "mpsc_bound = 2 ^ 62"

section \<open>Preservation\<close>

lemma mpsc_staticD:
  assumes "mpsc_static k q"
  shows "unat (p AND sc_mask q) = unat p mod length (sc_buffer q)"
    and "unat p mod length (sc_buffer q) < length (sc_buffer q)"
    and "length (sc_buffer q) = 2 * 2 ^ k" and "sc_capacity q = 2 ^ k" and "sc_size q = 2 ^ k * 2"
    and "sc_capacity q \<noteq> 0"
proof -
  have k: "1 \<le> k" "k \<le> 61" "length (sc_buffer q) = 2 * 2 ^ k" "sc_mask q = 2 ^ k * 2 - 1"
    "sc_capacity q = 2 ^ k" "sc_size q = 2 ^ k * 2"
    using assms by (auto simp: mpsc_static_def)
  show "unat (p AND sc_mask q) = unat p mod length (sc_buffer q)"
    using faa_mask [OF k(1,2)] by (simp add: k faa_idx_def)
  show "unat p mod length (sc_buffer q) < length (sc_buffer q)" by (simp add: k)
  show "length (sc_buffer q) = 2 * 2 ^ k" "sc_capacity q = 2 ^ k" "sc_size q = 2 ^ k * 2" by fact+
  have "unat (2 ^ k :: u64) = 2 ^ k" by (rule faa_consts(1) [OF k(1,2)])
  then show "sc_capacity q \<noteq> 0" using k by auto
qed

lemma mpsc_cycles:
  assumes "mpsc_static k q" and "unat p \<le> mpsc_bound"
  shows "p div sc_capacity q = of_nat (unat p div 2 ^ k)"
    and "p div sc_capacity q + 1 = of_nat (unat p div 2 ^ k + 1)"
    and "(p + sc_size q) div sc_capacity q = of_nat ((unat p + 2 * 2 ^ k) div 2 ^ k)"
proof -
  have k: "1 \<le> k" "k \<le> 61" using assms(1) by (auto simp: mpsc_static_def)
  have "unat p + 4 * 2 ^ k < 2 ^ 64" using assms(2) faa_consts(4) [OF k] by (simp add: mpsc_bound_def)
  note c = faa_cycles [OF k this]
  show "p div sc_capacity q = of_nat (unat p div 2 ^ k)"
    and "p div sc_capacity q + 1 = of_nat (unat p div 2 ^ k + 1)"
    and "(p + sc_size q) div sc_capacity q = of_nat ((unat p + 2 * 2 ^ k) div 2 ^ k)"
    using c by (simp_all add: mpsc_staticD(4,5) [OF assms(1)])
qed

lemma of_nat_cycle_inj:
  "a < 2 ^ 63 \<Longrightarrow> b < 2 ^ 63 \<Longrightarrow> (of_nat a = (of_nat b :: u64)) = (a = b)"
  "a < 2 ^ 63 \<Longrightarrow> b < 2 ^ 63 \<Longrightarrow> (sint (of_nat a :: u64) < sint (of_nat b :: u64)) = (a < b)"
proof -
  assume ab: "a < 2 ^ 63" "b < 2 ^ 63"
  then have u: "unat (of_nat a :: u64) = a" "unat (of_nat b :: u64) = b" by (simp_all add: unat_of_nat_u64)
  then show "(of_nat a = (of_nat b :: u64)) = (a = b)" by metis
  show "(sint (of_nat a :: u64) < sint (of_nat b :: u64)) = (a < b)"
    using u ab by (simp add: sint_u64 del: of_nat_unat)
qed

lemma slot_upd:
  assumes "sc_buffer q \<noteq> []"
  shows "cyc_at (q\<lparr>sc_buffer := (sc_buffer q)[p mod length (sc_buffer q) := s]\<rparr>) r
      = (if r mod length (sc_buffer q) = p mod length (sc_buffer q) then cycle s else cyc_at q r)"
    and "dat_at (q\<lparr>sc_buffer := (sc_buffer q)[p mod length (sc_buffer q) := s]\<rparr>) r
      = (if r mod length (sc_buffer q) = p mod length (sc_buffer q) then data s else dat_at q r)"
  using assms by (simp_all add: cyc_at_def dat_at_def nth_list_update)

lemma slot_view_simps [simp]:
  "cyc_at (q\<lparr>sc_tail := t\<rparr>) = cyc_at q" "dat_at (q\<lparr>sc_tail := t\<rparr>) = dat_at q"
  "cyc_at (q\<lparr>sc_head := h\<rparr>) = cyc_at q" "dat_at (q\<lparr>sc_head := h\<rparr>) = dat_at q"
  "cyc_at (q\<lparr>sc_draining := b\<rparr>) = cyc_at q" "dat_at (q\<lparr>sc_draining := b\<rparr>) = dat_at q"
  by (simp_all add: fun_eq_iff cyc_at_def dat_at_def)

lemma mpsc_slots_cong:
  "cyc_at q' = cyc_at q \<Longrightarrow> dat_at q' = dat_at q \<Longrightarrow> mpsc_slots n e cl S q' = mpsc_slots n e cl S q"
  by (simp add: mpsc_slots_def cong: option.case_cong)

lemma positions_apart:
  assumes "e \<le> p" "p < e + 2 * n" "e \<le> r" "r < e + 2 * n"
  shows "p mod (2 * n) = r mod (2 * n) \<longleftrightarrow> p = (r :: nat)"
proof
  assume "p mod (2 * n) = r mod (2 * n)"
  then have "(e + (p - e)) mod (2 * n) = (e + (r - e)) mod (2 * n)" using assms by simp
  then have "p - e = r - e" using assms by (intro mod_pow2_inj [of "p - e" "2 * n" "r - e" e]) auto
  with assms show "p = r" by simp
qed simp

lemma mpsc_positionsD:
  assumes "mpsc_positions n e t S B E"
  shows "\<And>i j p. held (E i) = Some p \<Longrightarrow> held (E j) = Some p \<Longrightarrow> i = j"
    and "\<And>i p. held (E i) = Some p \<Longrightarrow> p < t" and "\<And>i p. held (E i) = Some p \<Longrightarrow> S p = None"
    and "\<And>i p. held (E i) = Some p \<Longrightarrow> p \<notin> B" and "\<And>i p. held (E i) = Some p \<Longrightarrow> e \<le> p"
    and "\<And>p x. S p = Some x \<Longrightarrow> p < t" and "\<And>p x. S p = Some x \<Longrightarrow> p < e + 2 * n" and "\<And>p. p < e \<Longrightarrow> S p \<noteq> None"
    and "e \<le> t" and "\<And>p x. S p = Some x \<Longrightarrow> p \<notin> B" and "\<And>p. p \<in> B \<Longrightarrow> p < t"
    and "\<And>p. p < t \<Longrightarrow> S p = None \<Longrightarrow> p \<notin> B \<Longrightarrow> \<exists>i. held (E i) = Some p"
proof -
  show h: "\<And>i j p. held (E i) = Some p \<Longrightarrow> held (E j) = Some p \<Longrightarrow> i = j"
    and "\<And>i p. held (E i) = Some p \<Longrightarrow> p < t" and n: "\<And>i p. held (E i) = Some p \<Longrightarrow> S p = None"
    and "\<And>i p. held (E i) = Some p \<Longrightarrow> p \<notin> B"
    and l: "\<And>p x. S p = Some x \<Longrightarrow> p < t" and "\<And>p x. S p = Some x \<Longrightarrow> p < e + 2 * n"
    and e: "\<And>p. p < e \<Longrightarrow> S p \<noteq> None"
    and "\<And>p x. S p = Some x \<Longrightarrow> p \<notin> B" and "\<And>p. p \<in> B \<Longrightarrow> p < t"
    and "\<And>p. p < t \<Longrightarrow> S p = None \<Longrightarrow> p \<notin> B \<Longrightarrow> \<exists>i. held (E i) = Some p"
    using assms unfolding mpsc_positions_def by blast+
  show "e \<le> p" if "held (E i) = Some p" for i p
    using n [OF that] e [of p] by (cases "p < e") auto
  show "e \<le> t"
  proof (rule ccontr)
    assume "\<not> e \<le> t"
    then have "S t \<noteq> None" using e by simp
    with l show False by blast
  qed
qed

lemma mpsc_positionsI:
  assumes "\<And>i j p. held (E i) = Some p \<Longrightarrow> held (E j) = Some p \<Longrightarrow> i = j"
    and "\<And>i p. held (E i) = Some p \<Longrightarrow> p < t \<and> S p = None \<and> p \<notin> B"
    and "\<And>p. p < t \<Longrightarrow> S p = None \<Longrightarrow> p \<notin> B \<Longrightarrow> \<exists>i. held (E i) = Some p"
    and "\<And>p x. S p = Some x \<Longrightarrow> p < t \<and> p < e + 2 * n \<and> p \<notin> B"
    and "\<And>p. p < e \<Longrightarrow> S p \<noteq> None" and "\<And>p. p \<in> B \<Longrightarrow> p < t"
  shows "mpsc_positions n e t S B E"
  unfolding mpsc_positions_def using assms by blast

lemma mpsc_slotsD:
  assumes "mpsc_slots n e cl S q" and "e \<le> p" and "p < e + 2 * n"
  shows "S p = None \<Longrightarrow> cyc_at q p = of_nat (p div n)"
    and "S p = Some x \<Longrightarrow> cyc_at q p = of_nat (p div n + 1)"
    and "S p = Some x \<Longrightarrow> \<not> (cl \<and> p = e) \<Longrightarrow> dat_at q p = x"
    and "S p = Some x \<Longrightarrow> cl \<and> p = e \<or> dat_at q p = x"
  using assms by (fastforce simp: mpsc_slots_def)+

lemma mpsc_slotsI:
  assumes "\<And>p. e \<le> p \<Longrightarrow> p < e + 2 * n \<Longrightarrow> S p = None \<Longrightarrow> cyc_at q p = of_nat (p div n)"
    and "\<And>p x. e \<le> p \<Longrightarrow> p < e + 2 * n \<Longrightarrow> S p = Some x \<Longrightarrow>
      cyc_at q p = of_nat (p div n + 1) \<and> (cl \<and> p = e \<or> dat_at q p = x)"
  shows "mpsc_slots n e cl S q"
  unfolding mpsc_slots_def using assms by (simp split: option.split)

text \<open>What the auxiliary positions become when one is claimed, given up or filled.\<close>

lemma mpsc_positions_claim:
  assumes pos: "mpsc_positions n e t S B E" and h: "held (E i) = None" and pc: "held pc = Some t"
  shows "mpsc_positions n e (Suc t) S B (E(i := pc))"
proof -
  note P = mpsc_positionsD [OF pos]
  have hs: "held ((E(i := pc)) j) = (if j = i then Some t else held (E j))" for j by (simp add: pc)
  have nt: "S t = None" "t \<notin> B" using P(6) [of t] P(11) [of t] by (cases "S t"; auto)+
  show ?thesis
  proof (rule mpsc_positionsI)
    show "j = j'" if "held ((E(i := pc)) j) = Some p" "held ((E(i := pc)) j') = Some p" for j j' p
      using that P(1) [of j p j'] P(2) [of j p] P(2) [of j' p] unfolding hs by (auto split: if_splits)
    show "p < Suc t \<and> S p = None \<and> p \<notin> B" if "held ((E(i := pc)) j) = Some p" for j p
      using that nt P(2-4) [of j p] unfolding hs by (auto split: if_splits)
    show "\<exists>j. held ((E(i := pc)) j) = Some p" if "p < Suc t" "S p = None" "p \<notin> B" for p
      using that P(12) [of p] h unfolding hs by (cases "p = t") (force simp: less_Suc_eq)+
  qed (use P(6-8,10,11) less_SucI in blast)+
qed

lemma mpsc_positions_end:
  assumes pos: "mpsc_positions n e t S B E" and h: "held (E i) = Some p" and pc: "held pc = None"
  shows "mpsc_positions n e t S (insert p B) (E(i := pc))"
    and "p < e + 2 * n \<Longrightarrow> mpsc_positions n e t (S(p \<mapsto> x)) B (E(i := pc))"
proof -
  note P = mpsc_positionsD [OF pos]
  have hs: "held ((E(i := pc)) j) = (if j = i then None else held (E j))" for j by (simp add: pc)
  have own: "j = i" if "held (E j) = Some p" for j using P(1) [OF that h] .
  have uniq: "j = j'" if "held ((E(i := pc)) j) = Some r" "held ((E(i := pc)) j') = Some r" for j j' r
    using that P(1) [of j r j'] unfolding hs by (auto split: if_splits)
  have ex: "\<exists>j. held ((E(i := pc)) j) = Some r" if "r < t" "S r = None" "r \<notin> B" "r \<noteq> p" for r
    using that P(12) [of r] h unfolding hs by (metis option.inject)
  have old: "r < t \<and> S r = None \<and> r \<notin> B \<and> r \<noteq> p" if "held ((E(i := pc)) j) = Some r" for j r
    using that P(2-4) [of j r] own [of j] unfolding hs by (auto split: if_splits)
  show "mpsc_positions n e t S (insert p B) (E(i := pc))"
  proof (rule mpsc_positionsI)
    show "r < t \<and> S r = None \<and> r \<notin> insert p B" if "held ((E(i := pc)) j) = Some r" for j r using old [OF that] by simp
    show "\<exists>j. held ((E(i := pc)) j) = Some r" if "r < t" "S r = None" "r \<notin> insert p B" for r
      by (rule ex) (use that in simp_all)
    show "r < t \<and> r < e + 2 * n \<and> r \<notin> insert p B" if "S r = Some y" for r y
      using P(6,7,10) [OF that] P(3) [OF h] that by auto
    show "r < t" if "r \<in> insert p B" for r using that P(11) [of r] P(2) [OF h] by auto
  qed (fact uniq, fact P(8))
  assume w: "p < e + 2 * n"
  show "mpsc_positions n e t (S(p \<mapsto> x)) B (E(i := pc))"
  proof (rule mpsc_positionsI)
    show "r < t \<and> (S(p \<mapsto> x)) r = None \<and> r \<notin> B" if "held ((E(i := pc)) j) = Some r" for j r using old [OF that] by simp
    show "r < t \<and> r < e + 2 * n \<and> r \<notin> B" if "(S(p \<mapsto> x)) r = Some y" for r y
      using that P(6,7,10) [of r y] P(2,4) [OF h] w by (auto split: if_splits)
    show "\<exists>j. held ((E(i := pc)) j) = Some r" if "r < t" "(S(p \<mapsto> x)) r = None" "r \<notin> B" for r
      using that by (intro ex) (auto split: if_splits)
    show "(S(p \<mapsto> x)) r \<noteq> None" if "r < e" for r using P(8) [OF that] by simp
  qed (fact uniq, fact P(11))
qed

text \<open>Where the slot of a claimed position stands: open for it, or still used by an earlier one.\<close>

lemma claimed_slot:
  assumes st: "mpsc_static k q" and sl: "mpsc_slots (2 ^ k) e cl S q"
    and pos: "mpsc_positions (2 ^ k) e t S B E" and h: "held (E i) = Some p" and t: "t \<le> mpsc_bound"
  shows "p < e + 2 * 2 ^ k \<Longrightarrow> cyc_at q p = of_nat (p div 2 ^ k)"
    and "\<not> p < e + 2 * 2 ^ k \<Longrightarrow> cyc_at q p \<noteq> of_nat (p div 2 ^ k) \<and> sint (cyc_at q p) < sint (of_nat (p div 2 ^ k) :: u64)"
proof -
  let ?n = "2 ^ k :: nat"
  note P = mpsc_positionsD [OF pos]
  have ep: "e \<le> p" and pt: "p < t" and sp: "S p = None" using P(2,3,5) [OF h] by auto
  show "p < e + 2 * ?n \<Longrightarrow> cyc_at q p = of_nat (p div ?n)" using mpsc_slotsD(1) [OF sl ep _ sp] .
  assume far: "\<not> p < e + 2 * ?n"
  define r where "r = e + (p - e) mod (2 * ?n)"
  define d where "d = (p - e) div (2 * ?n)"
  have n0: "0 < ?n" by simp
  have pe: "p = r + 2 * ?n * d"
    unfolding r_def d_def using ep by (metis add.assoc add.commute le_add_diff_inverse mult.commute mod_mult_div_eq)
  have "2 * ?n \<le> p - e" using far ep by linarith
  then have "1 \<le> d" unfolding d_def using n0 by (simp add: Suc_le_eq div_greater_zero_iff)
  have r: "e \<le> r" "r < e + 2 * ?n" by (simp_all add: r_def)
  have "p mod length (sc_buffer q) = r mod length (sc_buffer q)"
    unfolding mpsc_staticD(3) [OF st] pe by simp
  then have cr: "cyc_at q p = cyc_at q r" by (simp add: cyc_at_def)
  have "p div ?n = r div ?n + 2 * d" using div_mult_self2 [of ?n r "2 * d"] unfolding pe by (simp add: mult.assoc mult.left_commute)
  then have lt: "r div ?n + 1 < p div ?n" using \<open>1 \<le> d\<close> by simp
  have "p < 2 ^ 63" using pt t by (simp add: mpsc_bound_def)
  then have small: "p div ?n < 2 ^ 63" by (rule le_less_trans [OF div_le_dividend])
  obtain a where a: "cyc_at q r = of_nat a" "a \<le> r div ?n + 1"
    using mpsc_slotsD(1,2) [OF sl r] by (cases "S r") (blast intro: le_add1 order_refl)+
  have "a < p div ?n" using a(2) lt by simp
  then show "cyc_at q p \<noteq> of_nat (p div ?n) \<and> sint (cyc_at q p) < sint (of_nat (p div ?n) :: u64)"
    unfolding cr a(1) using small of_nat_cycle_inj [of a "p div ?n"] by simp
qed

lemma mpsc_cinvD:
  assumes "mpsc_cinv k m ls c"
  shows "mpsc_static k (shared c)" and "unat (sc_tail (shared c)) \<le> m"
    and "mpsc_slots (2 ^ k) (eff_head c) (is_cleared (dpc c)) (stored_at ls) (shared c)"
    and "mpsc_positions (2 ^ k) (eff_head c) (unat (sc_tail (shared c))) (stored_at ls) (set (burns ls)) (epcs c)"
    and "\<And>i. prod_ok (2 ^ k) (eff_head c) (shared c) (epcs c i)"
    and "cons_ok (stored_at ls) (sc_head (shared c)) (dpc c)"
    and "mdelivs ls = map (\<lambda>p. (p, the (stored_at ls p))) [0..<unat (sc_head (shared c))]"
    and "unat (sc_head (shared c)) \<le> eff_head c" and "sc_buffer (shared c) \<noteq> []"
proof -
  from assms show "mpsc_static k (shared c)" and "unat (sc_tail (shared c)) \<le> m"
    and "mpsc_slots (2 ^ k) (eff_head c) (is_cleared (dpc c)) (stored_at ls) (shared c)"
    and "mpsc_positions (2 ^ k) (eff_head c) (unat (sc_tail (shared c))) (stored_at ls) (set (burns ls)) (epcs c)"
    and "\<And>i. prod_ok (2 ^ k) (eff_head c) (shared c) (epcs c i)"
    and "cons_ok (stored_at ls) (sc_head (shared c)) (dpc c)"
    and "mdelivs ls = map (\<lambda>p. (p, the (stored_at ls p))) [0..<unat (sc_head (shared c))]"
    unfolding mpsc_cinv_def by blast+
  show "unat (sc_head (shared c)) \<le> eff_head c" by (simp add: eff_head_def)
  from assms show "sc_buffer (shared c) \<noteq> []" by (auto simp: mpsc_cinv_def mpsc_static_def)
qed

text \<open>Within the window each position has its own slot; writing one field of a slot.\<close>

lemma mpsc_window:
  assumes "mpsc_cinv k m ls c" and "eff_head c \<le> r" "r < eff_head c + 2 * 2 ^ k" "eff_head c \<le> p" "p < eff_head c + 2 * 2 ^ k"
  shows "r mod length (sc_buffer (shared c)) = p mod length (sc_buffer (shared c)) \<longleftrightarrow> r = p"
  using positions_apart [OF assms(2-5)] by (simp add: mpsc_staticD(3) [OF mpsc_cinvD(1) [OF assms(1)]])

lemma slot_set_data:
  assumes "sc_buffer q \<noteq> []"
    and "q' = q\<lparr>sc_buffer := (sc_buffer q)[p mod length (sc_buffer q) := (sc_buffer q ! (p mod length (sc_buffer q)))\<lparr>data := x\<rparr>]\<rparr>"
  shows "cyc_at q' r = cyc_at q r"
    and "dat_at q' r = (if r mod length (sc_buffer q) = p mod length (sc_buffer q) then x else dat_at q r)"
  unfolding assms(2) using assms(1) by (auto simp: slot_upd cyc_at_def nth_list_update)

lemma slot_set_cycle:
  assumes "sc_buffer q \<noteq> []"
    and "q' = q\<lparr>sc_buffer := (sc_buffer q)[p mod length (sc_buffer q) := (sc_buffer q ! (p mod length (sc_buffer q)))\<lparr>cycle := y\<rparr>]\<rparr>"
  shows "dat_at q' r = dat_at q r"
    and "cyc_at q' r = (if r mod length (sc_buffer q) = p mod length (sc_buffer q) then y else cyc_at q r)"
  unfolding assms(2) using assms(1) by (auto simp: slot_upd dat_at_def nth_list_update)

lemma stored_at_same: "stores ls' = stores ls \<Longrightarrow> stored_at ls' = stored_at ls"
  by (simp add: stored_at_def)

text \<open>Producer steps that change nothing but the program counter.\<close>

lemma mpsc_producer_local:
  assumes inv: "mpsc_cinv k m ls c" and ok: "prod_ok (2 ^ k) (eff_head c) (shared c) pc"
    and h: "held pc = held (epcs c i)"
    and l: "stores ls' = stores ls" "burns ls' = burns ls" "mdelivs ls' = mdelivs ls"
  shows "mpsc_cinv k (Suc m) ls' (c\<lparr>epcs := (epcs c)(i := pc)\<rparr>)"
proof -
  have e: "eff_head (c\<lparr>epcs := E\<rparr>) = eff_head c" for E by (simp add: eff_head_def)
  have hh: "held (((epcs c)(i := pc)) j) = held (epcs c j)" for j using h by simp
  have pos: "mpsc_positions n e t S B ((epcs c)(i := pc)) = mpsc_positions n e t S B (epcs c)" for n e t S B
    unfolding mpsc_positions_def hh ..
  show ?thesis
    using inv ok unfolding mpsc_cinv_def e stored_at_same [OF l(1)] l(2,3)
    by (auto simp: pos)
qed

lemma prod_ok_tail:
  "prod_ok n e q pc \<Longrightarrow> unat (sc_tail q) \<le> unat t \<Longrightarrow> prod_ok n e (q\<lparr>sc_tail := t\<rparr>) pc"
  by (cases pc) (auto simp: dat_at_def)

lemma mpsc_claim:
  assumes inv: "mpsc_cinv k m ls c" and m: "m < mpsc_bound" and h: "held (epcs c i) = None"
  shows "mpsc_cinv k (Suc m) ls (c\<lparr>shared := (shared c)\<lparr>sc_tail := sc_tail (shared c) + 1\<rparr>,
    epcs := (epcs c)(i := SECycle x (sc_tail (shared c)))\<rparr>)" (is "mpsc_cinv k _ ls ?c")
proof -
  note I = mpsc_cinvD [OF inv] let ?q = "shared c" let ?t = "unat (sc_tail (shared c))"
  have t1: "unat (sc_tail ?q + 1) = Suc ?t"
    using I(2) m by (subst unat_Suc_no_wrap) (auto simp: mpsc_bound_def)
  have e: "eff_head ?c = eff_head c" by (simp add: eff_head_def)
  have "mpsc_slots (2 ^ k) (eff_head c) (is_cleared (dpc c)) (stored_at ls) (shared ?c)"
    using I(3) mpsc_slots_cong [of "shared ?c" "shared c"] by simp
  moreover have "mpsc_positions (2 ^ k) (eff_head c) (Suc ?t) (stored_at ls) (set (burns ls)) (epcs ?c)"
    using mpsc_positions_claim [OF I(4) h] by simp
  moreover have "prod_ok (2 ^ k) (eff_head c) (shared ?c) (epcs ?c j)" for j
    using I(5) [of j] t1 by (auto intro!: prod_ok_tail)
  ultimately show ?thesis
    using I t1 unfolding mpsc_cinv_def e by (auto simp: mpsc_static_def)
qed

lemma mpsc_burn:
  assumes inv: "mpsc_cinv k m ls c" and h: "held (epcs c i) = Some p"
  shows "mpsc_cinv k (Suc m) (ls @ [MBurned p]) (c\<lparr>epcs := (epcs c)(i := SIdle)\<rparr>)" (is "mpsc_cinv k _ _ ?c")
proof -
  note I = mpsc_cinvD [OF inv]
  have e: "eff_head ?c = eff_head c" by (simp add: eff_head_def)
  have s: "stored_at (ls @ [MBurned p]) = stored_at ls" by (simp add: stored_at_def)
  have "mpsc_positions (2 ^ k) (eff_head c) (unat (sc_tail (shared c))) (stored_at ls) (set (burns (ls @ [MBurned p]))) (epcs ?c)"
    using mpsc_positions_end(1) [OF I(4) h, of SIdle] by simp
  then show ?thesis
    using I unfolding mpsc_cinv_def e s by (auto)
qed

lemma prod_ok_frame:
  assumes "prod_ok n e q pc" and "sc_head q' = sc_head q" and "sc_tail q' = sc_tail q"
    and "\<And>r. held pc = Some r \<Longrightarrow> r < e + 2 * n \<Longrightarrow> dat_at q' r = dat_at q r"
  shows "prod_ok n e q' pc"
  using assms by (cases pc) auto

lemma mpsc_fill:
  assumes inv: "mpsc_cinv k m ls c" and pc: "epcs c i = SEData x p"
  shows "mpsc_cinv k (Suc m) ls (c\<lparr>shared := (shared c)\<lparr>sc_buffer := (sc_buffer (shared c))
      [unat p mod length (sc_buffer (shared c)) :=
        (sc_buffer (shared c) ! (unat p mod length (sc_buffer (shared c))))\<lparr>data := x\<rparr>]\<rparr>,
    epcs := (epcs c)(i := SEPublish x p)\<rparr>)" (is "mpsc_cinv k _ ls ?c")
proof -
  note I = mpsc_cinvD [OF inv] and P = mpsc_positionsD [OF mpsc_cinvD(4) [OF inv]]
  let ?q = "shared c" and ?e = "eff_head c"
  have e: "eff_head ?c = ?e" by (simp add: eff_head_def)
  have hp: "held (epcs c i) = Some (unat p)" by (simp add: pc)
  have w: "?e \<le> unat p" "unat p < ?e + 2 * 2 ^ k" using P(5) [OF hp] I(5) [of i] by (simp_all add: pc)
  have sh: "shared ?c = ?q\<lparr>sc_buffer := (sc_buffer ?q)[unat p mod length (sc_buffer ?q) :=
      (sc_buffer ?q ! (unat p mod length (sc_buffer ?q)))\<lparr>data := x\<rparr>]\<rparr>" by simp
  note at = slot_set_data [OF I(9) sh]
  have datr: "dat_at (shared ?c) r = dat_at ?q r" if "?e \<le> r" "r < ?e + 2 * 2 ^ k" "r \<noteq> unat p" for r
    using mpsc_window [OF inv that(1,2) w] that(3) unfolding at by simp
  have "mpsc_slots (2 ^ k) ?e (is_cleared (dpc c)) (stored_at ls) (shared ?c)"
  proof (rule mpsc_slotsI, unfold at(1))
    fix r y assume r: "?e \<le> r" "r < ?e + 2 * 2 ^ k" "stored_at ls r = Some y"
    then have "r \<noteq> unat p" using P(3) [OF hp] by auto
    then show "cyc_at ?q r = of_nat (r div 2 ^ k + 1) \<and> (is_cleared (dpc c) \<and> r = ?e \<or> dat_at (shared ?c) r = y)"
      using mpsc_slotsD(2,3) [OF I(3) r] datr [OF r(1,2)] by auto
  qed (rule mpsc_slotsD(1) [OF I(3)])
  moreover have "mpsc_positions n e' t S B (epcs ?c) = mpsc_positions n e' t S B (epcs c)" for n e' t S B
  proof -
    have "held (epcs ?c j) = held (epcs c j)" for j using pc by simp
    then show ?thesis unfolding mpsc_positions_def by simp
  qed
  moreover have "prod_ok (2 ^ k) ?e (shared ?c) (epcs ?c j)" for j
  proof (cases "j = i")
    case True
    then show ?thesis using w(2) at(2) by simp
  next
    case False
    show ?thesis
    proof (rule prod_ok_frame [of _ _ ?q])
      fix r assume r: "held (epcs ?c j) = Some r" "r < ?e + 2 * 2 ^ k"
      with False have "held (epcs c j) = Some r" by simp
      with r(2) P(1) [OF _ hp] P(5) False show "dat_at (shared ?c) r = dat_at ?q r" by (intro datr) auto
    qed (use False I(5) in simp_all)
  qed
  ultimately show ?thesis
    using I unfolding mpsc_cinv_def e by (auto simp: mpsc_static_def)
qed

lemma stored_at_snoc:
  "stored_at ls p = None \<Longrightarrow> stored_at (ls @ [MStored p x]) = (stored_at ls)(p \<mapsto> x)"
  by (auto simp: stored_at_def fun_eq_iff map_add_def split: option.split)

lemma mpsc_publish:
  assumes inv: "mpsc_cinv k m ls c" and pc: "epcs c i = SEPublish x p" and m: "m < mpsc_bound"
  shows "mpsc_cinv k (Suc m) (ls @ [MStored (unat p) x]) (c\<lparr>shared := (shared c)\<lparr>sc_buffer := (sc_buffer (shared c))
      [unat p mod length (sc_buffer (shared c)) :=
        (sc_buffer (shared c) ! (unat p mod length (sc_buffer (shared c))))\<lparr>cycle := p div sc_capacity (shared c) + 1\<rparr>]\<rparr>,
    epcs := (epcs c)(i := SIdle)\<rparr>)" (is "mpsc_cinv k _ ?ls ?c")
proof -
  note I = mpsc_cinvD [OF inv] and P = mpsc_positionsD [OF mpsc_cinvD(4) [OF inv]]
  let ?q = "shared c" and ?e = "eff_head c" and ?t = "unat (sc_tail (shared c))" and ?S = "stored_at ls"
  have e: "eff_head ?c = ?e" by (simp add: eff_head_def)
  have hp: "held (epcs c i) = Some (unat p)" by (simp add: pc)
  have w: "?e \<le> unat p" "unat p < ?e + 2 * 2 ^ k" and x: "dat_at ?q (unat p) = x"
    using P(5) [OF hp] I(5) [of i] by (simp_all add: pc)
  have S: "stored_at ?ls = ?S(unat p \<mapsto> x)" by (rule stored_at_snoc [OF P(3) [OF hp]])
  have "unat p \<le> mpsc_bound" using P(2) [OF hp] I(2) m by simp
  note cy = mpsc_cycles(2) [OF I(1) this]
  have sh: "shared ?c = ?q\<lparr>sc_buffer := (sc_buffer ?q)[unat p mod length (sc_buffer ?q) :=
      (sc_buffer ?q ! (unat p mod length (sc_buffer ?q)))\<lparr>cycle := of_nat (unat p div 2 ^ k + 1)\<rparr>]\<rparr>"
    by (simp add: cy)
  note at = slot_set_cycle [OF I(9) sh]
  have cyc: "cyc_at (shared ?c) r = (if r = unat p then of_nat (unat p div 2 ^ k + 1) else cyc_at ?q r)"
    if "?e \<le> r" "r < ?e + 2 * 2 ^ k" for r
    unfolding at(2) mpsc_window [OF inv that w] ..
  have "mpsc_slots (2 ^ k) ?e (is_cleared (dpc c)) (stored_at ?ls) (shared ?c)"
  proof (rule mpsc_slotsI; unfold at(1) S)
    fix r y assume r: "?e \<le> r" "r < ?e + 2 * 2 ^ k" "(?S(unat p \<mapsto> x)) r = Some y"
    then show "cyc_at (shared ?c) r = of_nat (r div 2 ^ k + 1) \<and> (is_cleared (dpc c) \<and> r = ?e \<or> dat_at ?q r = y)"
      unfolding cyc [OF r(1,2)] using mpsc_slotsD(2,4) [OF I(3) r(1,2)] x by (auto split: if_splits)
  next
    fix r assume r: "?e \<le> r" "r < ?e + 2 * 2 ^ k" "(?S(unat p \<mapsto> x)) r = None"
    then show "cyc_at (shared ?c) r = of_nat (r div 2 ^ k)"
      unfolding cyc [OF r(1,2)] using mpsc_slotsD(1) [OF I(3) r(1,2)] by (auto split: if_splits)
  qed
  moreover have "mpsc_positions (2 ^ k) ?e ?t (stored_at ?ls) (set (burns ?ls)) (epcs ?c)"
    using mpsc_positions_end(2) [OF I(4) hp, of SIdle x] w(2) unfolding S by simp
  moreover have "prod_ok (2 ^ k) ?e (shared ?c) (epcs ?c j)" for j
  proof -
    have "prod_ok (2 ^ k) ?e (shared ?c) (epcs c j)" by (rule prod_ok_frame [OF I(5) _ _ at(1)]) simp_all
    then show ?thesis by simp
  qed
  moreover have "cons_ok (stored_at ?ls) (sc_head ?q) (dpc c)"
    using I(6) P(3) [OF hp] unfolding S by (cases "dpc c") auto
  moreover have "mdelivs ?ls = map (\<lambda>p. (p, the (stored_at ?ls p))) [0..<unat (sc_head ?q)]"
    using I(7,8) w(1) unfolding S by (auto intro!: map_cong)
  ultimately show ?thesis
    using I(1,2) unfolding mpsc_cinv_def e by (auto simp: mpsc_static_def)
qed

text \<open>The consumer's steps.\<close>

lemma mpsc_consumer_local:
  assumes inv: "mpsc_cinv k m ls c" and ok: "cons_ok (stored_at ls) (sc_head (shared c)) pc"
    and pc: "is_released pc = is_released (dpc c)" "is_cleared pc = is_cleared (dpc c)"
    and l: "stores ls' = stores ls" "burns ls' = burns ls" "mdelivs ls' = mdelivs ls"
  shows "mpsc_cinv k (Suc m) ls' (c\<lparr>dpc := pc\<rparr>)"
proof -
  have e: "eff_head (c\<lparr>dpc := pc\<rparr>) = eff_head c" by (simp add: eff_head_def pc)
  show ?thesis using inv ok unfolding mpsc_cinv_def e stored_at_same [OF l(1)] l(2,3) by (auto simp: pc)
qed

lemma mpsc_clear:
  assumes inv: "mpsc_cinv k m ls c" and pc: "dpc c = SDClear h x"
  shows "mpsc_cinv k (Suc m) ls (c\<lparr>shared := (shared c)\<lparr>sc_buffer := (sc_buffer (shared c))
      [unat h mod length (sc_buffer (shared c)) :=
        (sc_buffer (shared c) ! (unat h mod length (sc_buffer (shared c))))\<lparr>data := z\<rparr>]\<rparr>,
    dpc := SDRelease h x\<rparr>)" (is "mpsc_cinv k _ ls ?c")
proof -
  note I = mpsc_cinvD [OF inv] and P = mpsc_positionsD [OF mpsc_cinvD(4) [OF inv]]
  let ?q = "shared c" and ?e = "eff_head c"
  have e: "eff_head ?c = ?e" and eh: "?e = unat h" and hd: "sc_head ?q = h" and S: "stored_at ls (unat h) = Some x"
    using I(6) by (simp_all add: eff_head_def pc)
  have w: "?e \<le> unat h" "unat h < ?e + 2 * 2 ^ k" by (simp_all add: eh)
  have sh: "shared ?c = ?q\<lparr>sc_buffer := (sc_buffer ?q)[unat h mod length (sc_buffer ?q) :=
      (sc_buffer ?q ! (unat h mod length (sc_buffer ?q)))\<lparr>data := z\<rparr>]\<rparr>" by simp
  note at = slot_set_data [OF I(9) sh]
  have datr: "dat_at (shared ?c) r = dat_at ?q r" if "?e \<le> r" "r < ?e + 2 * 2 ^ k" "r \<noteq> unat h" for r
    using mpsc_window [OF inv that(1,2) w] that(3) unfolding at by simp
  have "mpsc_slots (2 ^ k) ?e True (stored_at ls) (shared ?c)"
  proof (rule mpsc_slotsI; unfold at(1))
    fix r y assume r: "?e \<le> r" "r < ?e + 2 * 2 ^ k" "stored_at ls r = Some y"
    then show "cyc_at ?q r = of_nat (r div 2 ^ k + 1) \<and> (True \<and> r = ?e \<or> dat_at (shared ?c) r = y)"
      using mpsc_slotsD(2,4) [OF I(3) r] datr [OF r(1,2)] eh pc by auto
  qed (rule mpsc_slotsD(1) [OF I(3)])
  moreover have "prod_ok (2 ^ k) ?e (shared ?c) (epcs c j)" for j
  proof (rule prod_ok_frame [OF I(5)])
    fix r assume r: "held (epcs c j) = Some r" "r < ?e + 2 * 2 ^ k"
    with P(3) [OF r(1)] P(5) [OF r(1)] S show "dat_at (shared ?c) r = dat_at ?q r" by (intro datr) auto
  qed simp_all
  ultimately show ?thesis
    using I S unfolding mpsc_cinv_def e by (auto simp: mpsc_static_def hd)
qed

lemma prod_ok_mono: "prod_ok n e q pc \<Longrightarrow> e \<le> e' \<Longrightarrow> prod_ok n e' q pc"
  by (cases pc) auto

lemma mpsc_release:
  assumes inv: "mpsc_cinv k m ls c" and pc: "dpc c = SDRelease h x" and m: "m < mpsc_bound"
  shows "mpsc_cinv k (Suc m) ls (c\<lparr>shared := (shared c)\<lparr>sc_buffer := (sc_buffer (shared c))
      [unat h mod length (sc_buffer (shared c)) :=
        (sc_buffer (shared c) ! (unat h mod length (sc_buffer (shared c))))
          \<lparr>cycle := (h + sc_size (shared c)) div sc_capacity (shared c)\<rparr>]\<rparr>,
    dpc := SDAdvance h x\<rparr>)" (is "mpsc_cinv k _ ls ?c")
proof -
  note I = mpsc_cinvD [OF inv] and P = mpsc_positionsD [OF mpsc_cinvD(4) [OF inv]]
  let ?q = "shared c" and ?e = "unat h" and ?S = "stored_at ls"
  have eh: "eff_head c = ?e" "eff_head ?c = Suc ?e" and hd: "sc_head ?q = h" and S: "?S ?e = Some x"
    using I(6) by (simp_all add: eff_head_def pc)
  have "?e \<le> mpsc_bound" using P(6) [OF S] I(2) m by simp
  note cy = mpsc_cycles(3) [OF I(1) this]
  have sh: "shared ?c = ?q\<lparr>sc_buffer := (sc_buffer ?q)[?e mod length (sc_buffer ?q) :=
      (sc_buffer ?q ! (?e mod length (sc_buffer ?q)))\<lparr>cycle := of_nat ((?e + 2 * 2 ^ k) div 2 ^ k)\<rparr>]\<rparr>"
    by (simp add: cy)
  note at = slot_set_cycle [OF I(9) sh]
  have cyc: "cyc_at (shared ?c) r = (if r = ?e + 2 * 2 ^ k then of_nat (r div 2 ^ k) else cyc_at ?q r)"
    if "Suc ?e \<le> r" "r < Suc ?e + 2 * 2 ^ k" for r
    using mpsc_window [OF inv, of r ?e] that unfolding at(2) eh
    by (cases "r = ?e + 2 * 2 ^ k") (auto simp: mpsc_staticD(3) [OF I(1)])
  have "mpsc_slots (2 ^ k) (Suc ?e) False ?S (shared ?c)"
  proof (rule mpsc_slotsI)
    fix r y assume r: "Suc ?e \<le> r" "r < Suc ?e + 2 * 2 ^ k" "?S r = Some y"
    then have "r < ?e + 2 * 2 ^ k" using P(7) [OF r(3)] by (simp add: eh)
    with r show "cyc_at (shared ?c) r = of_nat (r div 2 ^ k + 1) \<and> (False \<and> r = Suc ?e \<or> dat_at (shared ?c) r = y)"
      unfolding at(1) cyc [OF r(1,2)] using mpsc_slotsD(2,4) [OF I(3), of r y] by (auto simp: eh)
  next
    fix r assume r: "Suc ?e \<le> r" "r < Suc ?e + 2 * 2 ^ k" "?S r = None"
    then show "cyc_at (shared ?c) r = of_nat (r div 2 ^ k)"
      unfolding cyc [OF r(1,2)] using mpsc_slotsD(1) [OF I(3), of r] by (auto simp: eh)
  qed
  moreover have "mpsc_positions (2 ^ k) (Suc ?e) (unat (sc_tail ?q)) ?S (set (burns ls)) (epcs c)"
    using I(4) S unfolding mpsc_positions_def eh by (auto simp: less_Suc_eq)
  moreover have "prod_ok (2 ^ k) (Suc ?e) (shared ?c) (epcs c j)" for j
    by (rule prod_ok_frame [OF prod_ok_mono [OF I(5)] _ _ at(1)]) (simp_all add: eh)
  ultimately show ?thesis
    using I S unfolding mpsc_cinv_def eh by (auto simp: mpsc_static_def hd)
qed

lemma mpsc_advance:
  assumes inv: "mpsc_cinv k m ls c" and pc: "dpc c = SDAdvance h x" and m: "m < mpsc_bound"
  shows "mpsc_cinv k (Suc m) (ls @ [MDelivered (unat h) x])
    (c\<lparr>shared := (shared c)\<lparr>sc_head := h + 1\<rparr>, dpc := SDIdle\<rparr>)" (is "mpsc_cinv k _ ?ls ?c")
proof -
  note I = mpsc_cinvD [OF inv] and P = mpsc_positionsD [OF mpsc_cinvD(4) [OF inv]]
  let ?q = "shared c" and ?S = "stored_at ls"
  have hd: "sc_head ?q = h" and S: "?S (unat h) = Some x" using I(6) by (simp_all add: pc)
  have h1: "unat (h + 1) = Suc (unat h)"
    using P(6) [OF S] I(2) m by (subst unat_Suc_no_wrap) (auto simp: mpsc_bound_def)
  have e: "eff_head ?c = eff_head c" by (simp add: eff_head_def pc hd h1)
  have s: "stored_at ?ls = ?S" by (simp add: stored_at_def)
  have "mpsc_slots (2 ^ k) (eff_head c) False ?S (shared ?c)"
    using I(3) mpsc_slots_cong [of "shared ?c" ?q] by (simp add: pc)
  moreover have "prod_ok (2 ^ k) (eff_head c) (shared ?c) (epcs c j)" for j
    using I(5) [of j] h1 by (cases "epcs c j") (auto simp: hd)
  moreover have "mdelivs ?ls = map (\<lambda>p. (p, the (?S p))) [0..<unat (h + 1)]"
    using I(7) S by (simp add: h1 hd)
  ultimately show ?thesis
    using I unfolding mpsc_cinv_def e s by (auto simp: mpsc_static_def)
qed

text \<open>What a producer learns from its two tests, and the consumer from its one.\<close>

lemma mpsc_full_test:
  assumes "mpsc_cinv k m ls c" and "m < mpsc_bound" and "\<not> t \<ge> sc_head (shared c) + sc_capacity (shared c)"
  shows "unat t < unat (sc_head (shared c)) + 2 ^ k"
proof -
  note I = mpsc_cinvD [OF assms(1)]
  have "unat (sc_head (shared c)) \<le> m" using I(8) mpsc_positionsD(9) [OF I(4)] I(2) by simp
  then have "unat (sc_head (shared c) + sc_capacity (shared c)) = unat (sc_head (shared c)) + 2 ^ k"
    using I(1) assms(2) faa_consts(1,4) [of k]
    by (subst unat_add_no_wrap) (auto simp: mpsc_static_def mpsc_bound_def)
  with assms(3) show ?thesis by (simp add: word_le_nat_alt)
qed

lemma mpsc_cycle_test:
  assumes inv: "mpsc_cinv k m ls c" and m: "m < mpsc_bound" and pc: "epcs c i = SECycle x p"
  shows "MPSC_Enqueue_step A (SECycle x p) (shared c) = ret
    (if unat p < eff_head c + 2 * 2 ^ k then (None, SEData x p, shared c) else (Some (MBurned (unat p)), SIdle, shared c))"
proof -
  note I = mpsc_cinvD [OF inv] and idx = mpsc_staticD [OF mpsc_cinvD(1) [OF inv]]
  have h: "held (epcs c i) = Some (unat p)" using pc by simp
  have t: "unat (sc_tail (shared c)) \<le> mpsc_bound" "unat p \<le> mpsc_bound"
    using I(2) m mpsc_positionsD(2) [OF I(4) h] by simp_all
  show ?thesis using claimed_slot [OF I(1,3,4) h t(1)]
    by (auto simp: Let_def idx(1,2,6) mpsc_cycles(1) [OF I(1) t(2)] cyc_at_def)
qed

lemma mpsc_head_test:
  assumes inv: "mpsc_cinv k m ls c" and m: "m < mpsc_bound" and pc: "dpc c = SDCycle h"
  shows "MPSC_Dequeue_step zero (SDCycle h) (shared c) = ret
    (if stored_at ls (unat h) = None then (Some MEmpty, SDIdle, shared c) else (None, SDData h, shared c))"
proof -
  note I = mpsc_cinvD [OF inv] and idx = mpsc_staticD [OF mpsc_cinvD(1) [OF inv]]
  have h: "eff_head c = unat h" using pc I(6) by (simp add: eff_head_def)
  have w: "eff_head c \<le> unat h" "unat h < eff_head c + 2 * 2 ^ k" by (simp_all add: h)
  have b: "unat h \<le> mpsc_bound" using mpsc_positionsD(9) [OF I(4)] I(2) m h by simp
  have "unat h div 2 ^ k < 2 ^ 62 + 1"
    using le_trans [OF div_le_dividend b, of "2 ^ k"] by (simp add: mpsc_bound_def)
  then have "stored_at ls (unat h) \<noteq> None \<longleftrightarrow> cyc_at (shared c) (unat h) = of_nat (unat h div 2 ^ k + 1)"
    using mpsc_slotsD(1,2) [OF I(3) w] of_nat_cycle_inj(1) [of "unat h div 2 ^ k" "unat h div 2 ^ k + 1"]
    by (cases "stored_at ls (unat h)") (auto simp del: of_nat_add of_nat_Suc)
  then show ?thesis by (auto simp: Let_def idx(1,2,6) mpsc_cycles(2) [OF I(1) b] cyc_at_def)
qed

context atomix_sem
begin

lemma mpsc_enqueue_inv:
  assumes inv: "mpsc_cinv k m ls c" and m: "m < mpsc_bound"
    and step: "MPSC_Enqueue_step A (epcs c i) (shared c) = ret (l, pc', q')"
  shows "mpsc_cinv k (Suc m) (append_label ls l) (c\<lparr>shared := q', epcs := (epcs c)(i := pc')\<rparr>)"
proof -
  note I = mpsc_cinvD [OF inv] and idx = mpsc_staticD [OF mpsc_cinvD(1) [OF inv]]
  have same: "c\<lparr>shared := shared c, epcs := E\<rparr> = c\<lparr>epcs := E\<rparr>" for E by simp
  note loc = mpsc_producer_local [OF inv, of _ i]
  show ?thesis
  proof (cases "epcs c i")
    case SIdle
    then show ?thesis using step loc [of SIdle ls] by (auto simp: same)
  next
    case (SETail x)
    then show ?thesis using step loc [of "SEHead x (sc_tail (shared c))" ls] by (auto simp: same)
  next
    case (SEHead x t)
    have "unat t < unat (sc_head (shared c)) + 2 ^ k" if "\<not> t \<ge> sc_head (shared c) + sc_capacity (shared c)"
      by (rule mpsc_full_test [OF inv m that])
    then show ?thesis using step SEHead I(5) [of i] loc [of "SEAdd x t" ls] loc [of SIdle "ls @ [MFull]"]
      by (auto simp: same split: if_splits)
  next
    case (SEAdd x t)
    then show ?thesis using step mpsc_claim [OF inv m, of i x] by (simp add: rmw)
  next
    case (SECycle x p)
    then have h: "held (epcs c i) = Some (unat p)" by simp
    from step SECycle loc [of "SEData x p" ls] mpsc_burn [OF inv h] show ?thesis
      by (auto simp: mpsc_cycle_test [OF inv m SECycle] same simp del: MPSC_Enqueue_step.simps split: if_splits)
  next
    case (SEData x p)
    then show ?thesis using step mpsc_fill [OF inv SEData] by (auto simp: Let_def idx(1,2))
  next
    case (SEPublish x p)
    then show ?thesis using step mpsc_publish [OF inv SEPublish m] by (auto simp: Let_def idx(1,2,6))
  qed
qed

end

lemma mpsc_dequeue_inv:
  assumes inv: "mpsc_cinv k m ls c" and m: "m < mpsc_bound"
    and step: "MPSC_Dequeue_step zero (dpc c) (shared c) = ret (l, pc', q')"
  shows "mpsc_cinv k (Suc m) (append_label ls l) (c\<lparr>shared := q', dpc := pc'\<rparr>)"
proof -
  note I = mpsc_cinvD [OF inv] and idx = mpsc_staticD [OF mpsc_cinvD(1) [OF inv]]
  let ?h = "sc_head (shared c)"
  have same: "c\<lparr>shared := shared c, dpc := d\<rparr> = c\<lparr>dpc := d\<rparr>" for d by simp
  note loc = mpsc_consumer_local [OF inv]
  show ?thesis
  proof (cases "dpc c")
    case SDIdle
    then show ?thesis using step loc [of SDIdle ls] by (auto simp: same)
  next
    case SDHead
    then show ?thesis using step loc [of "SDCycle ?h" ls] by (auto simp: same)
  next
    case (SDCycle h)
    then have pc: "dpc c = SDCycle ?h" using I(6) by simp
    from step loc [of "SDData ?h" ls] loc [of SDIdle "ls @ [MEmpty]"] show ?thesis
      unfolding pc mpsc_head_test [OF inv m pc] by (auto simp: pc same split: if_splits)
  next
    case (SDData h)
    then have h: "h = ?h" "eff_head c = unat ?h" using I(6) by (simp_all add: eff_head_def)
    from SDData I(6) obtain x where x: "stored_at ls (unat ?h) = Some x" by auto
    with mpsc_slotsD(3) [OF I(3), of "unat ?h" x] SDData have "dat_at (shared c) (unat ?h) = x" by (simp add: h(2))
    then show ?thesis
      using step SDData x loc [of "SDClear ?h x" ls] by (auto simp: Let_def idx(1,2) dat_at_def same h(1))
  next
    case (SDClear h x)
    then show ?thesis using step mpsc_clear [OF inv SDClear] by (auto simp: Let_def idx(1,2))
  next
    case (SDRelease h x)
    then show ?thesis using step mpsc_release [OF inv SDRelease m] by (auto simp: Let_def idx(1,2,6))
  next
    case (SDAdvance h x)
    then show ?thesis using step mpsc_advance [OF inv SDAdvance m] by auto
  qed
qed

lemma mpsc_drain_inv:
  assumes "mpsc_cinv k m ls c"
  shows "mpsc_cinv k (Suc m) ls (c\<lparr>shared := MPSC_Drain (shared c)\<rparr>)"
proof -
  have "prod_ok n e (q\<lparr>sc_draining := b\<rparr>) pc = prod_ok n e q pc" for n e b pc and q :: "'a MPSC" by (cases pc) simp_all
  then show ?thesis
    using assms mpsc_slots_cong [of "MPSC_Drain (shared c)" "shared c"]
    by (auto simp: mpsc_cinv_def MPSC_Drain_def mpsc_static_def eff_head_def)
qed

section \<open>How far producers overshoot\<close>

text \<open>
  A producer claims a position after it has seen a tail below \<open>head + capacity\<close>. Those that have
  read the tail before it reached a bound \<open>B\<close> can each claim one position beyond \<open>B\<close>, and then have
  to read the tail again; so beyond \<open>head + capacity\<close> there are fewer claims than producers.
\<close>

fun seen_tail :: "'a mpsc_epc \<Rightarrow> nat option" where
  "seen_tail (SEHead x t) = Some (unat t)"
| "seen_tail (SEAdd x t) = Some (unat t)"
| "seen_tail _ = None"

definition stale :: "nat \<Rightarrow> nat \<Rightarrow> (nat \<Rightarrow> 'a mpsc_epc) \<Rightarrow> nat set" where
  "stale P B E = {i. i < P \<and> (\<exists>r < B. seen_tail (E i) = Some r)}"

definition mpsc_claims :: "nat \<Rightarrow> nat \<Rightarrow> 'a mpsc_conf \<Rightarrow> bool" where
  "mpsc_claims n P c \<longleftrightarrow> (\<forall>B. unat (sc_head (shared c)) + n \<le> B \<longrightarrow> B \<le> unat (sc_tail (shared c)) \<longrightarrow>
     card (stale P B (epcs c)) + (unat (sc_tail (shared c)) - B) < P)"

lemma stale_finite [simp]: "finite (stale P B E)"
  by (simp add: stale_def)

lemma mpsc_claims_mono:
  assumes "mpsc_claims n P c" and "sc_tail (shared c') = sc_tail (shared c)"
    and "unat (sc_head (shared c)) \<le> unat (sc_head (shared c'))"
    and "\<And>i r. seen_tail (epcs c' i) = Some r \<Longrightarrow> seen_tail (epcs c i) = Some r \<or> unat (sc_tail (shared c)) \<le> r"
  shows "mpsc_claims n P c'"
  unfolding mpsc_claims_def assms(2)
proof (intro allI impI)
  fix B assume B: "unat (sc_head (shared c')) + n \<le> B" "B \<le> unat (sc_tail (shared c))"
  have "stale P B (epcs c') \<subseteq> stale P B (epcs c)"
    using assms(4) B(2) unfolding stale_def by fastforce
  then have "card (stale P B (epcs c')) \<le> card (stale P B (epcs c))" by (simp add: card_mono)
  moreover have "card (stale P B (epcs c)) + (unat (sc_tail (shared c)) - B) < P"
    using assms(1,3) B unfolding mpsc_claims_def by auto
  ultimately show "card (stale P B (epcs c')) + (unat (sc_tail (shared c)) - B) < P" by simp
qed

lemma mpsc_claims_add:
  assumes "mpsc_claims n P c" and "i < P" and "epcs c i = SEAdd x r" and "unat r < unat (sc_head (shared c)) + n"
    and "unat (sc_tail (shared c) + 1) = Suc (unat (sc_tail (shared c)))"
  shows "mpsc_claims n P (c\<lparr>shared := (shared c)\<lparr>sc_tail := sc_tail (shared c) + 1\<rparr>,
    epcs := (epcs c)(i := SECycle x p)\<rparr>)" (is "mpsc_claims n P ?c")
proof -
  let ?t = "unat (sc_tail (shared c))" and ?E = "epcs ?c"
  have t': "unat (sc_tail (shared ?c)) = Suc ?t" and h': "sc_head (shared ?c) = sc_head (shared c)"
    by (simp_all add: assms(5))
  show ?thesis unfolding mpsc_claims_def t' h'
  proof (intro allI impI)
    fix B assume B: "unat (sc_head (shared c)) + n \<le> B" "B \<le> Suc ?t"
    have s: "stale P B ?E = stale P B (epcs c) - {i}" by (auto simp: stale_def)
    have i: "i \<in> stale P B (epcs c)" using assms(2,3,4) B(1) by (auto simp: stale_def)
    show "card (stale P B ?E) + (Suc ?t - B) < P"
    proof (cases "B = Suc ?t")
      case True
      have "stale P B ?E \<subseteq> {..<P} - {i}" by (auto simp: stale_def split: if_splits)
      then have "card (stale P B ?E) \<le> card ({..<P} - {i})" by (intro card_mono) auto
      with True assms(2) show ?thesis by simp
    next
      case False
      then have "card (stale P B (epcs c)) + (?t - B) < P" using assms(1) B unfolding mpsc_claims_def by auto
      moreover have "card (stale P B (epcs c)) = Suc (card (stale P B ?E))"
        unfolding s by (rule card_Suc_Diff1 [OF stale_finite i, symmetric])
      ultimately show ?thesis using B False by simp
    qed
  qed
qed

definition mpsc_pinv :: "nat \<Rightarrow> nat \<Rightarrow> nat \<Rightarrow> 'a mpsc_label list \<Rightarrow> 'a mpsc_conf \<Rightarrow> bool" where
  "mpsc_pinv k P m ls c \<longleftrightarrow> mpsc_cinv k m ls c \<and> mpsc_claims (2 ^ k) P c
     \<and> distinct (map fst (stores ls)) \<and> (P \<le> 2 ^ k + 1 \<longrightarrow> burns ls = [])"

lemma mpsc_claims_bound:
  assumes "mpsc_claims n P c" and "0 < P"
  shows "unat (sc_tail (shared c)) < unat (sc_head (shared c)) + n + P"
proof (cases "unat (sc_head (shared c)) + n \<le> unat (sc_tail (shared c))")
  case True
  with assms(1) have "card (stale P (unat (sc_head (shared c)) + n) (epcs c))
      + (unat (sc_tail (shared c)) - (unat (sc_head (shared c)) + n)) < P"
    unfolding mpsc_claims_def by blast
  then show ?thesis by linarith
qed (use assms(2) in simp)

lemma mpsc_claims_other:
  assumes "mpsc_claims n P c" and "mpsc_static k (shared c)" and "\<And>x r. epcs c i \<noteq> SEAdd x r"
    and "MPSC_Enqueue_step A (epcs c i) (shared c) = ret (l, pc', q')"
  shows "mpsc_claims n P (c\<lparr>shared := q', epcs := (epcs c)(i := pc')\<rparr>)"
  by (rule mpsc_claims_mono [OF assms(1)])
    (use assms(3,4) in \<open>cases "epcs c i"; auto simp: Let_def split: if_splits\<close>)+

text \<open>What the labels of a producer's step say.\<close>

lemma mpsc_store_label:
  assumes "mpsc_cinv k m ls c" and "MPSC_Enqueue_step A (epcs c i) (shared c) = ret (l, pc', q')"
    and "distinct (map fst (stores ls))"
  shows "distinct (map fst (stores (append_label ls l)))"
proof (cases "\<exists>x p. epcs c i = SEPublish x p")
  case True
  then obtain x p where pc: "epcs c i = SEPublish x p" by blast
  then have "stored_at ls (unat p) = None" using mpsc_positionsD(3) [OF mpsc_cinvD(4) [OF assms(1)], of i "unat p"] by simp
  then have "unat p \<notin> fst ` set (stores ls)" by (simp add: stored_at_def map_of_eq_None_iff)
  with assms(2,3) pc show ?thesis by (auto simp: Let_def split: if_splits)
next
  case False
  with assms(2,3) show ?thesis by (cases "epcs c i") (auto simp: Let_def split: if_splits prod.splits)
qed

lemma mpsc_burn_label:
  assumes inv: "mpsc_cinv k m ls c" and m: "m < mpsc_bound" and cl: "mpsc_claims (2 ^ k) P c" "0 < P"
    and step: "MPSC_Enqueue_step A (epcs c i) (shared c) = ret (l, pc', q')"
    and P: "P \<le> 2 ^ k + 1"
  shows "burns (append_label ls l) = burns ls"
proof (cases "\<exists>x p. epcs c i = SECycle x p")
  case True
  then obtain x p where pc: "epcs c i = SECycle x p" by blast
  then have h: "held (epcs c i) = Some (unat p)" by simp
  note I = mpsc_cinvD [OF inv]
  have "unat p < eff_head c + 2 * 2 ^ k"
    using mpsc_claims_bound [OF cl] mpsc_positionsD(2) [OF I(4) h] P I(8) by simp
  with mpsc_cycle_test [OF inv m pc] step pc show ?thesis by auto
next
  case False
  with step show ?thesis by (cases "epcs c i") (auto simp: Let_def split: if_splits prod.splits)
qed

lemma mpsc_dequeue_label:
  "MPSC_Dequeue_step zero pc q = ret (l, pc', q') \<Longrightarrow> stores (append_label ls l) = stores ls \<and> burns (append_label ls l) = burns ls"
  by (cases pc) (auto simp: Let_def split: if_splits)

lemma mpsc_dequeue_claims:
  assumes inv: "mpsc_cinv k m ls c" and m: "m < mpsc_bound" and cl: "mpsc_claims (2 ^ k) P c"
    and step: "MPSC_Dequeue_step zero (dpc c) (shared c) = ret (l, pc', q')"
  shows "mpsc_claims (2 ^ k) P (c\<lparr>shared := q', dpc := pc'\<rparr>)"
proof (rule mpsc_claims_mono [OF cl])
  note I = mpsc_cinvD [OF inv]
  have "unat (sc_head (shared c)) < unat (sc_tail (shared c))" if "dpc c = SDAdvance h x" for h x
    using I(6) mpsc_positionsD(6) [OF I(4)] that by auto
  then have "unat (sc_head (shared c) + 1) = Suc (unat (sc_head (shared c)))" if "dpc c = SDAdvance h x" for h x
    using that I(2) m by (subst unat_Suc_no_wrap) (force simp: mpsc_bound_def)+
  then show "unat (sc_head (shared c)) \<le> unat (sc_head (shared (c\<lparr>shared := q', dpc := pc'\<rparr>)))"
    using step I(6) by (cases "dpc c") (auto simp: Let_def split: if_splits)
  show "sc_tail (shared (c\<lparr>shared := q', dpc := pc'\<rparr>)) = sc_tail (shared c)"
    using step by (cases "dpc c") (auto simp: Let_def split: if_splits)
qed auto

context atomix_sem
begin

lemma mpsc_enqueue_claims:
  assumes inv: "mpsc_cinv k m ls c" and m: "m < mpsc_bound" and cl: "mpsc_claims (2 ^ k) P c" and i: "i < P"
    and step: "MPSC_Enqueue_step A (epcs c i) (shared c) = ret (l, pc', q')"
  shows "mpsc_claims (2 ^ k) P (c\<lparr>shared := q', epcs := (epcs c)(i := pc')\<rparr>)"
proof (cases "\<exists>x r. epcs c i = SEAdd x r")
  case True
  note I = mpsc_cinvD [OF inv]
  have t1: "unat (sc_tail (shared c) + 1) = Suc (unat (sc_tail (shared c)))"
    using I(2) m by (subst unat_Suc_no_wrap) (auto simp: mpsc_bound_def)
  from True obtain x r where "epcs c i = SEAdd x r" by blast
  with mpsc_claims_add [OF cl i this _ t1] I(5) [of i] step show ?thesis by (auto simp: rmw)
next
  case False
  with mpsc_claims_other [OF cl mpsc_cinvD(1) [OF inv] _ step] show ?thesis by simp
qed

lemma mpsc_step_inv:
  assumes "mpsc_pinv k P m ls c" and "m < mpsc_bound" and "mpsc_step A zero P c l c'"
  shows "mpsc_pinv k P (Suc m) (append_label ls l) c'"
proof -
  have inv: "mpsc_cinv k m ls c" and cl: "mpsc_claims (2 ^ k) P c" and d: "distinct (map fst (stores ls))"
    and b: "P \<le> 2 ^ k + 1 \<longrightarrow> burns ls = []" using assms(1) by (simp_all add: mpsc_pinv_def)
  from assms(3) show ?thesis
  proof cases
    case (mpsc_call_Enqueue i x)
    then show ?thesis using mpsc_producer_local [OF inv, of "SETail x" i ls] d b
      by (auto simp: mpsc_pinv_def intro!: mpsc_claims_mono [OF cl] split: if_splits)
  next
    case mpsc_call_Dequeue
    then show ?thesis using mpsc_consumer_local [OF inv, of SDHead ls] d b
      by (auto simp: mpsc_pinv_def intro!: mpsc_claims_mono [OF cl])
  next
    case mpsc_call_Drain
    then show ?thesis using mpsc_drain_inv [OF inv] d b
      by (auto simp: mpsc_pinv_def MPSC_Drain_def intro!: mpsc_claims_mono [OF cl])
  next
    case (mpsc_step_Enqueue i pc q)
    from mpsc_enqueue_claims [OF inv assms(2) cl mpsc_step_Enqueue(2,4)]
      mpsc_enqueue_inv [OF inv assms(2) mpsc_step_Enqueue(4)] mpsc_step_Enqueue(1) b
      mpsc_store_label [OF inv mpsc_step_Enqueue(4) d]
      mpsc_burn_label [OF inv assms(2) cl _ mpsc_step_Enqueue(4)] mpsc_step_Enqueue(2)
    show ?thesis by (auto simp: mpsc_pinv_def)
  next
    case (mpsc_step_Dequeue pc q)
    from mpsc_dequeue_claims [OF inv assms(2) cl mpsc_step_Dequeue(3)]
      mpsc_dequeue_inv [OF inv assms(2) mpsc_step_Dequeue(3)] mpsc_step_Dequeue(1) b d
      mpsc_dequeue_label [OF mpsc_step_Dequeue(3), of ls]
    show ?thesis by (simp add: mpsc_pinv_def)
  qed
qed

lemma mpsc_exec_inv:
  assumes "exec (mpsc_step A zero P) c0 m ls c" and "mpsc_pinv k P 0 [] c0" and "m \<le> mpsc_bound"
  shows "mpsc_pinv k P m ls c"
  by (rule exec_trace_invariant [of _ _ _ _ _ "mpsc_pinv k P", OF assms mpsc_step_inv])

end

lemma mpsc_init_pinv:
  assumes "NewMPSC zero c = ret q" and "2 \<le> sint c" and "sint c \<le> 2 ^ 61"
  shows "\<exists>k. mpsc_pinv k P 0 [] (mpsc_init q) \<and> unat (roundToPow2 c) = 2 ^ k"
proof -
  from NewMPSC_ok [OF assms(2,3), of zero] assms(1) have q: "mpmc_inv (2 ^ 62) (mpsc_abs q)" "sc_capacity q = roundToPow2 c"
    by auto
  from q(1) obtain k where k: "mpmc_shape k (mpsc_abs q)" by (auto simp: mpmc_inv_def)
  have z: "sc_head q = 0" "sc_tail q = 0"
    using assms(1,2) by (auto simp: NewMPSC_def Let_def go_simps)
  note D = faa_okD [OF mpmc_shapeD(1) [OF k]]
  have st: "mpsc_static k q"
    using k D by (auto simp: mpmc_shape_def mpsc_abs_def mpsc_static_def)
  have r: "faa_ring (2 ^ k) 0 0 (\<lambda>i. cycle (sc_buffer q ! i))"
    using mpmc_shapeD(1) [OF k] z by (simp add: faa_ok_def mpsc_abs_def)
  have "mpsc_slots (2 ^ k) 0 False (\<lambda>_. None) q"
    using faa_ringD [OF r] mpsc_staticD(3) [OF st] by (auto simp: mpsc_slots_def cyc_at_def)
  then have "mpsc_cinv k 0 [] (mpsc_init q)"
    using st z by (simp add: mpsc_cinv_def mpsc_init_def eff_head_def stored_at_def mpsc_positions_def)
  moreover have "mpsc_claims (2 ^ k) P (mpsc_init q)" using z by (simp add: mpsc_claims_def mpsc_init_def)
  moreover have "unat (roundToPow2 c) = 2 ^ k"
    using q(2) mpsc_staticD(4) [OF st] faa_consts(1) [OF D(1,2)] by simp
  ultimately show ?thesis by (auto simp: mpsc_pinv_def)
qed

text \<open>What the invariant says to a client.\<close>

lemma mpsc_pinv_results:
  assumes "mpsc_pinv k P m ls c"
  shows "map fst (mdelivs ls) = [0..<unat (sc_head (shared c))]" and "set (mdelivs ls) \<subseteq> set (stores ls)"
    and "distinct (map fst (stores ls))" and "0 < P \<Longrightarrow> unat (sc_tail (shared c)) < unat (sc_head (shared c)) + 2 ^ k + P"
    and "P \<le> 2 ^ k + 1 \<Longrightarrow> burns ls = []"
    and "\<forall>i. epcs c i = SIdle \<Longrightarrow> fst ` set (stores ls) \<union> set (burns ls) = {..<unat (sc_tail (shared c))}"
proof -
  have inv: "mpsc_cinv k m ls c" using assms by (simp add: mpsc_pinv_def)
  note I = mpsc_cinvD [OF inv] and P = mpsc_positionsD [OF mpsc_cinvD(4) [OF inv]]
  show "map fst (mdelivs ls) = [0..<unat (sc_head (shared c))]" unfolding I(7) by (simp add: comp_def)
  have "(p, the (stored_at ls p)) \<in> set (stores ls)" if "p < unat (sc_head (shared c))" for p
    using P(8) [of p] that I(8) by (auto simp: stored_at_def intro: map_of_SomeD)
  then show "set (mdelivs ls) \<subseteq> set (stores ls)" unfolding I(7) by auto
  show "distinct (map fst (stores ls))" "P \<le> 2 ^ k + 1 \<Longrightarrow> burns ls = []"
    "0 < P \<Longrightarrow> unat (sc_tail (shared c)) < unat (sc_head (shared c)) + 2 ^ k + P"
    using assms mpsc_claims_bound [of "2 ^ k" P c] by (simp_all add: mpsc_pinv_def)
  have dom: "p \<in> fst ` set (stores ls) \<longleftrightarrow> stored_at ls p \<noteq> None" for p
    by (simp add: stored_at_def map_of_eq_None_iff)
  show "fst ` set (stores ls) \<union> set (burns ls) = {..<unat (sc_tail (shared c))}" if "\<forall>i. epcs c i = SIdle"
    using P(6,11,12) that by (auto simp: set_eq_iff dom) (metis option.exhaust)
qed

section \<open>A call alone\<close>

fun mpsc_enq_result :: "'a mpsc_label option \<Rightarrow> err option" where
  "mpsc_enq_result (Some (MStored p x)) = None"
| "mpsc_enq_result _ = Some ErrWouldBlock"

fun mpsc_deq_result :: "'a \<Rightarrow> 'a mpsc_label option \<Rightarrow> 'a \<times> err option" where
  "mpsc_deq_result zero (Some (MDelivered p x)) = (x, None)"
| "mpsc_deq_result zero _ = (zero, Some ErrWouldBlock)"

lemma MPSC_Dequeue_steps:
  "go_bind (run_alone (MPSC_Dequeue_step zero) SDIdle None SDHead q) (\<lambda>(l, q'). ret (mpsc_deq_result zero l, q'))
     = MPSC_Dequeue zero q"
  by (simp add: run_alone.simps Let_def MPSC_Dequeue_def)

context atomix_sem
begin

lemma MPSC_Enqueue_steps:
  assumes "mpmc_shape k (mpsc_abs q)" and "unat (sc_tail q) + 1 + 4 * 2 ^ k < 2 ^ 64"
  shows "go_bind (run_alone (MPSC_Enqueue_step A) SIdle None (SETail x) q) (\<lambda>(l, q'). ret (mpsc_enq_result l, q'))
     = MPSC_Enqueue A x q"
proof -
  note S = mpmc_shapeD [OF assms(1), unfolded mpsc_abs_simps]
  show ?thesis
    using faa_full_test [OF S(1)] faa_push(1) [OF S(1) _ assms(2)]
    by (subst MPSC_Enqueue.simps) (simp add: run_alone_simps Let_def S rmw)
qed

end

section \<open>Executing an interleaving\<close>

datatype 'a mpsc_move = SEnqueue nat 'a | SDequeue | SRun nat | SConsume

fun mpsc_do :: "atomix \<Rightarrow> 'a \<Rightarrow> nat \<Rightarrow> 'a mpsc_move \<Rightarrow> 'a mpsc_conf \<Rightarrow> ('a mpsc_label option \<times> 'a mpsc_conf) option" where
  "mpsc_do A zero P (SEnqueue i x) c =
     (if i < P \<and> epcs c i = SIdle then Some (None, c\<lparr>epcs := (epcs c)(i := SETail x)\<rparr>) else None)"
| "mpsc_do A zero P SDequeue c = (if dpc c = SDIdle then Some (None, c\<lparr>dpc := SDHead\<rparr>) else None)"
| "mpsc_do A zero P (SRun i) c =
     (if i < P \<and> epcs c i \<noteq> SIdle then
        (case MPSC_Enqueue_step A (epcs c i) (shared c) of
           Some (Inr (l, pc, q)) \<Rightarrow> Some (l, c\<lparr>shared := q, epcs := (epcs c)(i := pc)\<rparr>) | _ \<Rightarrow> None) else None)"
| "mpsc_do A zero P SConsume c =
     (if dpc c \<noteq> SDIdle then
        (case MPSC_Dequeue_step zero (dpc c) (shared c) of
           Some (Inr (l, pc, q)) \<Rightarrow> Some (l, c\<lparr>shared := q, dpc := pc\<rparr>) | _ \<Rightarrow> None) else None)"

lemma mpsc_do_step: "mpsc_do A zero P mv c = Some (l, c') \<Longrightarrow> mpsc_step A zero P c l c'"
  by (cases mv) (auto intro: mpsc_step.intros split: if_splits option.splits sum.splits)

lemma mpsc_sched_exec:
  "sched (mpsc_do A zero P) mvs c0 = Some (ls, c) \<Longrightarrow> length mvs = n \<Longrightarrow> exec (mpsc_step A zero P) c0 n ls c"
  using sched_init_exec [of "mpsc_do A zero P" mvs c0 ls c "mpsc_step A zero P", OF _ mpsc_do_step] by simp

lemma NewMPSC_2:
  "NewMPSC zero 2 = ret \<lparr>sc_head = 0, sc_tail = 0, sc_draining = False,
     sc_buffer = [\<lparr>cycle = 0, data = zero\<rparr>, \<lparr>cycle = 0, data = zero\<rparr>, \<lparr>cycle = 1, data = zero\<rparr>, \<lparr>cycle = 1, data = zero\<rparr>],
     sc_capacity = 2, sc_size = 4, sc_mask = 3\<rparr>"
proof -
  have "[0..<4] = [0, 1, 2, 3]" by (simp add: upt_rec)
  moreover have "replicate 4 z = [z, z, z, z]" for z :: "'a mpscSlot" by (simp add: numeral_eq_Suc)
  moreover have "(of_nat 2 :: u64) div 2 = 1" "(of_nat 3 :: u64) div 2 = 1" "(of_nat 1 :: u64) div 2 = 0" by code_simp+
  ultimately show ?thesis by (simp add: roundToPow2_2 NewMPSC_def make_slice_def)
qed

text \<open>
  Four producers on a queue of capacity 2: all of them see one free place, the last one claims
  position 4, whose slot is still in use, and gives it up.
\<close>

definition wedge_moves :: "'a \<Rightarrow> 'a mpsc_move list" where
  "wedge_moves x = SEnqueue 0 x # replicate 6 (SRun 0)
     @ [SEnqueue 0 x, SEnqueue 1 x, SEnqueue 2 x, SEnqueue 3 x, SRun 0, SRun 0, SRun 1, SRun 1, SRun 2, SRun 2, SRun 3, SRun 3,
        SRun 0, SRun 1, SRun 2, SRun 3, SRun 3, SRun 0, SRun 0, SRun 0, SRun 1, SRun 1, SRun 1, SRun 2, SRun 2, SRun 2]
     @ concat (replicate 4 (SDequeue # replicate 6 SConsume))
     @ SEnqueue 0 x # replicate 6 (SRun 0)"

context atomix_sem
begin

lemma mpsc_wedge:
  assumes "NewMPSC zero 2 = ret q"
  shows "sched (mpsc_do A zero 4) (wedge_moves x) (mpsc_init q)
     = Some ([MStored 0 x, MBurned 4, MStored 1 x, MStored 2 x, MStored 3 x,
           MDelivered 0 x, MDelivered 1 x, MDelivered 2 x, MDelivered 3 x, MStored 5 x],
        \<lparr>shared = \<lparr>sc_head = 4, sc_tail = 6, sc_draining = False,
           sc_buffer = [\<lparr>cycle = 2, data = zero\<rparr>, \<lparr>cycle = 3, data = x\<rparr>, \<lparr>cycle = 3, data = zero\<rparr>, \<lparr>cycle = 3, data = zero\<rparr>],
           sc_capacity = 2, sc_size = 4, sc_mask = 3\<rparr>, epcs = (\<lambda>_. SIdle), dpc = SDIdle\<rparr>)"
proof -
  from assms have "q = \<lparr>sc_head = 0, sc_tail = 0, sc_draining = False,
     sc_buffer = [\<lparr>cycle = 0, data = zero\<rparr>, \<lparr>cycle = 0, data = zero\<rparr>, \<lparr>cycle = 1, data = zero\<rparr>, \<lparr>cycle = 1, data = zero\<rparr>],
     sc_capacity = 2, sc_size = 4, sc_mask = 3\<rparr>" by (simp add: NewMPSC_2)
  moreover have "replicate 6 mv = [mv, mv, mv, mv, mv, mv]" "replicate 4 mvs = [mvs, mvs, mvs, mvs]"
    for mv :: "'a mpsc_move" and mvs :: "'a mpsc_move list"
    by (simp_all add: numeral_eq_Suc)
  moreover have "\<not> (2 :: u64) \<le> 1" by code_simp
  ultimately show ?thesis by (simp add: mpsc_init_def wedge_moves_def Let_def rmw fun_eq_iff)
qed

lemma mpsc_wedge_polls:
  "polls_fail (MPSC_Dequeue zero) zero \<lparr>sc_head = 4, sc_tail = 6, sc_draining = False,
     sc_buffer = [\<lparr>cycle = 2, data = zero\<rparr>, \<lparr>cycle = 3, data = x\<rparr>, \<lparr>cycle = 3, data = zero\<rparr>, \<lparr>cycle = 3, data = zero\<rparr>],
     sc_capacity = 2, sc_size = 4, sc_mask = 3\<rparr>"
  by (rule polls_fail_stuck) (simp add: MPSC_Dequeue_def Let_def)

end

end
