(* ===== verification/Mpsc128_Concurrent.thy ===== *)
theory Mpsc128_Concurrent
  imports Mpsc_Concurrent Faa128_Queues
begin

text \<open>
  Any number of producers and the single consumer of an \<open>MPSCIndirect\<close> queue (\<open>mpsc_128.go\<close>),
  interleaved. Cycle and value of a slot change in one 128-bit access; read as two accesses of
  \<open>MPSC[T]\<close> each step is one or two steps of theory \<open>Mpsc_Concurrent\<close>, whose invariant carries over.
  A producer that found its slot free is the only one to write it, so its compare-and-swap does
  not fail.
\<close>

section \<open>Atomic steps\<close>

datatype mpsci_epc = TIdle | TETail u64 | TEHead u64 u64 | TEAdd u64 u64 | TELoad u64 u64 | TECas u64 u64 u64

datatype mpsci_dpc = TDIdle | TDHead | TDLoad u64 | TDStore u64 u64 | TDAdvance u64 u64

fun MPSCIndirect_Enqueue_step :: "atomix \<Rightarrow> mpsci_epc \<Rightarrow> MPSCIndirect
    \<Rightarrow> (u64 mpsc_label option \<times> mpsci_epc \<times> MPSCIndirect) go" where
  "MPSCIndirect_Enqueue_step A TIdle q = ret (None, TIdle, q)"
| "MPSCIndirect_Enqueue_step A (TETail elem) q = ret (None, TEHead elem (MPSCIndirect.sc_tail q), q)"
| "MPSCIndirect_Enqueue_step A (TEHead elem t) q =
     (if t \<ge> MPSCIndirect.sc_head q + MPSCIndirect.sc_capacity q then ret (Some MFull, TIdle, q)
      else ret (None, TEAdd elem t, q))"
| "MPSCIndirect_Enqueue_step A (TEAdd elem t) q =
     (case Add64 A (MPSCIndirect.sc_tail q) 1 of (added, cell) \<Rightarrow>
        ret (None, TELoad elem (added - 1), q\<lparr>MPSCIndirect.sc_tail := cell\<rparr>))"
| "MPSCIndirect_Enqueue_step A (TELoad elem myTail) q =
     (let i = unat (myTail AND MPSCIndirect.sc_mask q)
      in if \<not> i < length (MPSCIndirect.sc_buffer q) then panics IndexOutOfRange
         else if MPSCIndirect.sc_capacity q = 0 then panics DivideByZero
         else let expectedCycle = myTail div MPSCIndirect.sc_capacity q;
                  slotCycle = fst (entry (MPSCIndirect.sc_buffer q ! i)); valHi = snd (entry (MPSCIndirect.sc_buffer q ! i))
           in if slotCycle = expectedCycle then ret (None, TECas elem myTail valHi, q)
              else if sint slotCycle < sint expectedCycle then ret (Some (MBurned (unat myTail)), TIdle, q)
              else ret (None, TETail elem, q))"
| "MPSCIndirect_Enqueue_step A (TECas elem myTail valHi) q =
     (let i = unat (myTail AND MPSCIndirect.sc_mask q)
      in if \<not> i < length (MPSCIndirect.sc_buffer q) then panics IndexOutOfRange
         else if MPSCIndirect.sc_capacity q = 0 then panics DivideByZero
         else let expectedCycle = myTail div MPSCIndirect.sc_capacity q
           in (case CompareAndSwap128 A (entry (MPSCIndirect.sc_buffer q ! i)) (expectedCycle, valHi) (expectedCycle + 1, elem) of
                 (swapped, cell) \<Rightarrow>
                let q = q\<lparr>MPSCIndirect.sc_buffer := (MPSCIndirect.sc_buffer q)[i := \<lparr>entry = cell\<rparr>]\<rparr>
                in if swapped then ret (Some (MStored (unat myTail) elem), TIdle, q) else ret (None, TETail elem, q)))"

fun MPSCIndirect_Dequeue_step :: "mpsci_dpc \<Rightarrow> MPSCIndirect
    \<Rightarrow> (u64 mpsc_label option \<times> mpsci_dpc \<times> MPSCIndirect) go" where
  "MPSCIndirect_Dequeue_step TDIdle q = ret (None, TDIdle, q)"
| "MPSCIndirect_Dequeue_step TDHead q = ret (None, TDLoad (MPSCIndirect.sc_head q), q)"
| "MPSCIndirect_Dequeue_step (TDLoad h) q =
     (let i = unat (h AND MPSCIndirect.sc_mask q)
      in if MPSCIndirect.sc_capacity q = 0 then panics DivideByZero
         else if \<not> i < length (MPSCIndirect.sc_buffer q) then panics IndexOutOfRange
         else let slotCycle = fst (entry (MPSCIndirect.sc_buffer q ! i)); valHi = snd (entry (MPSCIndirect.sc_buffer q ! i))
           in if slotCycle \<noteq> h div MPSCIndirect.sc_capacity q + 1 then ret (Some MEmpty, TDIdle, q)
              else ret (None, TDStore h valHi, q))"
| "MPSCIndirect_Dequeue_step (TDStore h valHi) q =
     (let i = unat (h AND MPSCIndirect.sc_mask q)
      in if \<not> i < length (MPSCIndirect.sc_buffer q) then panics IndexOutOfRange
         else if MPSCIndirect.sc_capacity q = 0 then panics DivideByZero
         else ret (None, TDAdvance h valHi, q\<lparr>MPSCIndirect.sc_buffer := (MPSCIndirect.sc_buffer q)
                [i := \<lparr>entry = ((h + MPSCIndirect.sc_size q) div MPSCIndirect.sc_capacity q, 0)\<rparr>]\<rparr>))"
| "MPSCIndirect_Dequeue_step (TDAdvance h valHi) q =
     ret (Some (MDelivered (unat h) valHi), TDIdle, q\<lparr>MPSCIndirect.sc_head := h + 1\<rparr>)"

record mpsci_conf =
  mem128 :: MPSCIndirect
  epcs128 :: "nat \<Rightarrow> mpsci_epc"
  dpc128 :: mpsci_dpc

inductive mpsci_step :: "atomix \<Rightarrow> nat \<Rightarrow> mpsci_conf \<Rightarrow> u64 mpsc_label option \<Rightarrow> mpsci_conf \<Rightarrow> bool"
  for A :: atomix and P :: nat where
  mpsci_call_Enqueue: "i < P \<Longrightarrow> epcs128 c i = TIdle \<Longrightarrow> mpsci_step A P c None (c\<lparr>epcs128 := (epcs128 c)(i := TETail x)\<rparr>)"
| mpsci_call_Dequeue: "dpc128 c = TDIdle \<Longrightarrow> mpsci_step A P c None (c\<lparr>dpc128 := TDHead\<rparr>)"
| mpsci_call_Drain: "mpsci_step A P c None (c\<lparr>mem128 := MPSCIndirect_Drain (mem128 c)\<rparr>)"
| mpsci_step_Enqueue: "i < P \<Longrightarrow> epcs128 c i \<noteq> TIdle \<Longrightarrow> MPSCIndirect_Enqueue_step A (epcs128 c i) (mem128 c) = ret (l, pc, q) \<Longrightarrow>
    mpsci_step A P c l (c\<lparr>mem128 := q, epcs128 := (epcs128 c)(i := pc)\<rparr>)"
| mpsci_step_Dequeue: "dpc128 c \<noteq> TDIdle \<Longrightarrow> MPSCIndirect_Dequeue_step (dpc128 c) (mem128 c) = ret (l, pc, q) \<Longrightarrow>
    mpsci_step A P c l (c\<lparr>mem128 := q, dpc128 := pc\<rparr>)"

inductive_cases mpsci_stepE: "mpsci_step A P c l c'"

definition mpsci_init :: "MPSCIndirect \<Rightarrow> mpsci_conf" where
  "mpsci_init q = \<lparr>mem128 = q, epcs128 = (\<lambda>_. TIdle), dpc128 = TDIdle\<rparr>"

section \<open>As configurations of \<open>MPSC\<close>\<close>

fun epc128_abs :: "mpsci_epc \<Rightarrow> u64 mpsc_epc" where
  "epc128_abs TIdle = SIdle"
| "epc128_abs (TETail x) = SETail x"
| "epc128_abs (TEHead x t) = SEHead x t"
| "epc128_abs (TEAdd x t) = SEAdd x t"
| "epc128_abs (TELoad x p) = SECycle x p"
| "epc128_abs (TECas x p v) = SEData x p"

fun dpc128_abs :: "mpsci_dpc \<Rightarrow> u64 mpsc_dpc" where
  "dpc128_abs TDIdle = SDIdle"
| "dpc128_abs TDHead = SDHead"
| "dpc128_abs (TDLoad h) = SDCycle h"
| "dpc128_abs (TDStore h v) = SDClear h v"
| "dpc128_abs (TDAdvance h v) = SDAdvance h v"

definition mpsci_conf_abs :: "mpsci_conf \<Rightarrow> u64 mpsc_conf" where
  "mpsci_conf_abs c = \<lparr>shared = mpsc128_abs (mem128 c), epcs = (\<lambda>i. epc128_abs (epcs128 c i)), dpc = dpc128_abs (dpc128 c)\<rparr>"

lemma mpsci_conf_abs_simps [simp]:
  "shared (mpsci_conf_abs c) = mpsc128_abs (mem128 c)" "epcs (mpsci_conf_abs c) i = epc128_abs (epcs128 c i)"
  "dpc (mpsci_conf_abs c) = dpc128_abs (dpc128 c)"
  by (simp_all add: mpsci_conf_abs_def)

lemma mpsci_abs_upd:
  "mpsci_conf_abs (c\<lparr>mem128 := q, epcs128 := (epcs128 c)(i := pc)\<rparr>)
    = (mpsci_conf_abs c)\<lparr>shared := mpsc128_abs q, epcs := (epcs (mpsci_conf_abs c))(i := epc128_abs pc)\<rparr>"
  "mpsci_conf_abs (c\<lparr>epcs128 := (epcs128 c)(i := pc)\<rparr>)
    = (mpsci_conf_abs c)\<lparr>epcs := (epcs (mpsci_conf_abs c))(i := epc128_abs pc)\<rparr>"
  "mpsci_conf_abs (c\<lparr>mem128 := q, dpc128 := dp\<rparr>) = (mpsci_conf_abs c)\<lparr>shared := mpsc128_abs q, dpc := dpc128_abs dp\<rparr>"
  "mpsci_conf_abs (c\<lparr>dpc128 := dp\<rparr>) = (mpsci_conf_abs c)\<lparr>dpc := dpc128_abs dp\<rparr>"
  "mpsci_conf_abs (c\<lparr>mem128 := q\<rparr>) = (mpsci_conf_abs c)\<lparr>shared := mpsc128_abs q\<rparr>"
  by (auto simp: mpsci_conf_abs_def)

lemma epc128_abs_idle [simp]: "epc128_abs pc = SIdle \<longleftrightarrow> pc = TIdle"
  by (cases pc) simp_all

lemma dpc128_abs_idle [simp]: "dpc128_abs pc = SDIdle \<longleftrightarrow> pc = TDIdle"
  by (cases pc) simp_all

text \<open>The entry that a producer is about to replace is the one it has read.\<close>

definition entries_kept :: "MPSCIndirect \<Rightarrow> mpsci_epc \<Rightarrow> bool" where
  "entries_kept q pc \<longleftrightarrow> (\<forall>x p v. pc = TECas x p v \<longrightarrow>
     entry (MPSCIndirect.sc_buffer q ! unat (p AND MPSCIndirect.sc_mask q)) = (p div MPSCIndirect.sc_capacity q, v))"

definition mpsci_pinv :: "nat \<Rightarrow> nat \<Rightarrow> nat \<Rightarrow> u64 mpsc_label list \<Rightarrow> mpsci_conf \<Rightarrow> bool" where
  "mpsci_pinv k P m ls c \<longleftrightarrow> mpsc_pinv k P m ls (mpsci_conf_abs c) \<and> (\<forall>i. entries_kept (mem128 c) (epcs128 c i))"

lemma mpsc_pinv_shrink:
  "mpsc_pinv k P m ls c \<Longrightarrow> unat (MPSC.sc_tail (shared c)) \<le> m' \<Longrightarrow> mpsc_pinv k P m' ls c"
  by (auto simp: mpsc_pinv_def mpsc_cinv_def)

context atomix_sem
begin

lemma mpsc_two_steps:
  assumes "mpsc_pinv k P m ls c" and "m < mpsc_bound" and "mpsc_step A zero P c None c1"
    and "MPSC.sc_tail (shared c1) = MPSC.sc_tail (shared c)" and "mpsc_step A zero P c1 l c2"
  shows "mpsc_pinv k P (Suc m) (append_label ls l) c2"
proof -
  have "mpsc_pinv k P (Suc m) ls c1" using mpsc_step_inv [OF assms(1-3)] by simp
  then have "mpsc_pinv k P m ls c1"
    by (rule mpsc_pinv_shrink) (use assms(1,4) in \<open>simp add: mpsc_pinv_def mpsc_cinv_def\<close>)
  from mpsc_step_inv [OF this assms(2,5)] show ?thesis .
qed

lemma mpsci_enqueue_sim:
  assumes "MPSCIndirect_Enqueue_step A pc q = ret (l, pc', q')" and "\<And>x p v. pc \<noteq> TECas x p v"
  shows "MPSC_Enqueue_step A (epc128_abs pc) (mpsc128_abs q) = ret (l, epc128_abs pc', mpsc128_abs q')"
  using assms by (cases pc) (auto simp: Let_def rmw mpsc128_abs_def split: if_splits)

lemma mpsci_dequeue_sim:
  assumes "MPSCIndirect_Dequeue_step pc q = ret (l, pc', q')" and "\<And>h v. pc \<noteq> TDStore h v" and "\<And>h v. pc' \<noteq> TDStore h v"
  shows "MPSC_Dequeue_step 0 (dpc128_abs pc) (mpsc128_abs q) = ret (l, dpc128_abs pc', mpsc128_abs q')"
  using assms by (cases pc) (auto simp: Let_def mpsc128_abs_def split: if_splits)

end

section \<open>Invariant\<close>

lemma mpsci_pinvD:
  assumes "mpsci_pinv k P m ls c"
  shows "mpsc_pinv k P m ls (mpsci_conf_abs c)" and "entries_kept (mem128 c) (epcs128 c i)"
    and "mpsc_cinv k m ls (mpsci_conf_abs c)"
  using assms by (simp_all add: mpsci_pinv_def mpsc_pinv_def)

lemma mpsci_index:
  assumes "mpsci_pinv k P m ls c"
  shows "unat (p AND MPSCIndirect.sc_mask (mem128 c)) = unat p mod length (MPSCIndirect.sc_buffer (mem128 c))"
    and "unat p mod length (MPSCIndirect.sc_buffer (mem128 c)) < length (MPSCIndirect.sc_buffer (mem128 c))"
    and "MPSCIndirect.sc_capacity (mem128 c) \<noteq> 0"
  using mpsc_staticD(1,2,6) [OF mpsc_cinvD(1) [OF mpsci_pinvD(3) [OF assms]]] by simp_all

text \<open>A producer about to replace an entry holds a free position within the window.\<close>

lemma mpsci_held:
  assumes "mpsci_pinv k P m ls c" and "epcs128 c j = TECas x p v"
  shows "held (epcs (mpsci_conf_abs c) j) = Some (unat p)" and "eff_head (mpsci_conf_abs c) \<le> unat p"
    and "unat p < eff_head (mpsci_conf_abs c) + 2 * 2 ^ k" and "stored_at ls (unat p) = None"
proof -
  note I = mpsc_cinvD [OF mpsci_pinvD(3) [OF assms(1)]]
  show h: "held (epcs (mpsci_conf_abs c) j) = Some (unat p)" using assms(2) by simp
  show "eff_head (mpsci_conf_abs c) \<le> unat p" "stored_at ls (unat p) = None"
    using mpsc_positionsD(3,5) [OF I(4) h] by simp_all
  show "unat p < eff_head (mpsci_conf_abs c) + 2 * 2 ^ k" using I(5) [of j] assms(2) by simp
qed

lemma entries_kept_write:
  assumes "entries_kept q pc" and "\<And>x p v. pc = TECas x p v \<Longrightarrow> unat (p AND MPSCIndirect.sc_mask q) \<noteq> i"
  shows "entries_kept (q\<lparr>MPSCIndirect.sc_buffer := (MPSCIndirect.sc_buffer q)[i := s]\<rparr>) pc"
  using assms by (auto simp: entries_kept_def)

lemma mpsci_others_apart:
  assumes I: "mpsci_pinv k P m ls c" and i: "epcs128 c i = TECas x p v" and j: "epcs128 c j = TECas y r w" and ij: "i \<noteq> j"
  shows "unat (r AND MPSCIndirect.sc_mask (mem128 c)) \<noteq> unat (p AND MPSCIndirect.sc_mask (mem128 c))"
proof -
  note C = mpsci_pinvD(3) [OF I] and H = mpsci_held [OF I i] and J = mpsci_held [OF I j]
  have "unat r \<noteq> unat p" using mpsc_positionsD(1) [OF mpsc_cinvD(4) [OF C] H(1)] J(1) ij by metis
  with mpsc_window [OF C J(2,3) H(2,3)] show ?thesis by (simp add: mpsci_index [OF I])
qed

lemma mpsci_head_apart:
  assumes I: "mpsci_pinv k P m ls c" and d: "dpc128 c = TDStore h v" and j: "epcs128 c j = TECas y r w"
  shows "unat (r AND MPSCIndirect.sc_mask (mem128 c)) \<noteq> unat (h AND MPSCIndirect.sc_mask (mem128 c))"
proof -
  note C = mpsci_pinvD(3) [OF I] and J = mpsci_held [OF I j]
  have h: "h = MPSCIndirect.sc_head (mem128 c)" "stored_at ls (unat h) = Some v"
    using mpsc_cinvD(6) [OF C] d by simp_all
  then have e: "eff_head (mpsci_conf_abs c) = unat h" using d by (simp add: eff_head_def)
  have "unat r \<noteq> unat h" using J(4) h(2) by auto
  moreover have "unat h < eff_head (mpsci_conf_abs c) + 2 * 2 ^ k" unfolding e by simp
  ultimately show ?thesis using mpsc_window [OF C J(2,3) _ _, of "unat h"] e by (simp add: mpsci_index [OF I])
qed

context atomix_sem
begin

lemma mpsci_enqueue_inv:
  assumes I: "mpsci_pinv k P m ls c" and m: "m < mpsc_bound" and i: "i < P" "epcs128 c i \<noteq> TIdle"
    and st: "MPSCIndirect_Enqueue_step A (epcs128 c i) (mem128 c) = ret (l, pc', q')"
  shows "mpsci_pinv k P (Suc m) (append_label ls l) (c\<lparr>mem128 := q', epcs128 := (epcs128 c)(i := pc')\<rparr>)"
proof (cases "\<exists>x p v. epcs128 c i = TECas x p v")
  case False
  then have "MPSC_Enqueue_step A (epcs (mpsci_conf_abs c) i) (shared (mpsci_conf_abs c)) = ret (l, epc128_abs pc', mpsc128_abs q')"
    using mpsci_enqueue_sim [OF st] by simp
  then have "mpsc_step A 0 P (mpsci_conf_abs c) l
      (mpsci_conf_abs (c\<lparr>mem128 := q', epcs128 := (epcs128 c)(i := pc')\<rparr>))"
    unfolding mpsci_abs_upd using i by (intro mpsc_step_Enqueue) simp_all
  note mpsc_step_inv [OF mpsci_pinvD(1) [OF I] m this]
  moreover have "entries_kept q' pc'" "MPSCIndirect.sc_buffer q' = MPSCIndirect.sc_buffer (mem128 c)"
      "MPSCIndirect.sc_mask q' = MPSCIndirect.sc_mask (mem128 c)" "MPSCIndirect.sc_capacity q' = MPSCIndirect.sc_capacity (mem128 c)"
    using st False by (cases "epcs128 c i"; auto simp: entries_kept_def Let_def rmw prod_eq_iff split: if_splits)+
  ultimately show ?thesis using mpsci_pinvD(2) [OF I] by (simp add: mpsci_pinv_def entries_kept_def)
next
  case True
  then obtain x p v where pc: "epcs128 c i = TECas x p v" by blast
  let ?q = "mem128 c" let ?i = "unat p mod length (MPSCIndirect.sc_buffer ?q)" let ?e = "p div MPSCIndirect.sc_capacity ?q"
  note X = mpsci_index [OF I]
  have e: "entry (MPSCIndirect.sc_buffer ?q ! ?i) = (?e, v)"
    using mpsci_pinvD(2) [OF I, of i] pc by (simp add: entries_kept_def X)
  have r: "l = Some (MStored (unat p) x)" "pc' = TIdle"
    "q' = ?q\<lparr>MPSCIndirect.sc_buffer := (MPSCIndirect.sc_buffer ?q)[?i := \<lparr>entry = (?e + 1, x)\<rparr>]\<rparr>"
    using st by (simp_all add: pc Let_def X e rmw)
  let ?c1 = "(mpsci_conf_abs c)\<lparr>shared := (mpsc128_abs ?q)\<lparr>MPSC.sc_buffer := (MPSC.sc_buffer (mpsc128_abs ?q))
    [?i := (MPSC.sc_buffer (mpsc128_abs ?q) ! ?i)\<lparr>data := x\<rparr>]\<rparr>, epcs := (epcs (mpsci_conf_abs c))(i := SEPublish x p)\<rparr>"
  have 1: "mpsc_step A 0 P (mpsci_conf_abs c) None ?c1"
    by (rule mpsc_step_Enqueue [OF i(1)]) (simp_all add: pc Let_def X)
  have "mpsc_step A 0 P ?c1 l (?c1\<lparr>shared := mpsc128_abs q', epcs := (epcs ?c1)(i := SIdle)\<rparr>)"
    by (rule mpsc_step_Enqueue [OF i(1)])
      (use X in \<open>simp_all add: Let_def r mpsc128_abs_def map_update faa128_slot_def\<close>)
  moreover have "?c1\<lparr>shared := mpsc128_abs q', epcs := (epcs ?c1)(i := SIdle)\<rparr>
      = mpsci_conf_abs (c\<lparr>mem128 := q', epcs128 := (epcs128 c)(i := pc')\<rparr>)"
    by (simp add: mpsci_abs_upd r(2))
  ultimately have "mpsc_pinv k P (Suc m) (append_label ls l) (mpsci_conf_abs (c\<lparr>mem128 := q', epcs128 := (epcs128 c)(i := pc')\<rparr>))"
    using mpsc_two_steps [OF mpsci_pinvD(1) [OF I] m 1] by simp
  moreover have "entries_kept q' (epcs128 c j)" if "j \<noteq> i" for j
    unfolding r(3) by (rule entries_kept_write [OF mpsci_pinvD(2) [OF I]])
      (use mpsci_others_apart [OF I pc _ that [symmetric]] in \<open>simp add: X\<close>)
  ultimately show ?thesis by (simp add: mpsci_pinv_def r(2) entries_kept_def [of _ TIdle])
qed

lemma mpsci_dequeue_inv:
  assumes I: "mpsci_pinv k P m ls c" and m: "m < mpsc_bound" and d: "dpc128 c \<noteq> TDIdle"
    and st: "MPSCIndirect_Dequeue_step (dpc128 c) (mem128 c) = ret (l, pc', q')"
  shows "mpsci_pinv k P (Suc m) (append_label ls l) (c\<lparr>mem128 := q', dpc128 := pc'\<rparr>)"
proof -
  let ?q = "mem128 c" and ?a = "mpsci_conf_abs c"
  let ?goal = "mpsc_pinv k P (Suc m) (append_label ls l) (mpsci_conf_abs (c\<lparr>mem128 := q', dpc128 := pc'\<rparr>))"
  note X = mpsci_index [OF I] and two = mpsc_two_steps [OF mpsci_pinvD(1) [OF I] m]
  consider (load) h v where "dpc128 c = TDLoad h" "pc' = TDStore h v" | (store) h v where "dpc128 c = TDStore h v"
    | (other) "\<And>h v. dpc128 c \<noteq> TDStore h v" "\<And>h v. pc' \<noteq> TDStore h v"
    using st by (cases "dpc128 c") (auto simp: Let_def split: if_splits)
  then have "?goal \<and> (\<forall>j. entries_kept q' (epcs128 c j))"
  proof cases
    case load
    have r: "l = None" "q' = ?q" "v = snd (entry (MPSCIndirect.sc_buffer ?q ! (unat h mod length (MPSCIndirect.sc_buffer ?q))))"
      "fst (entry (MPSCIndirect.sc_buffer ?q ! (unat h mod length (MPSCIndirect.sc_buffer ?q)))) = h div MPSCIndirect.sc_capacity ?q + 1"
      using st load by (auto simp: Let_def X split: if_splits)
    have 1: "mpsc_step A 0 P ?a None (?a\<lparr>shared := shared ?a, dpc := SDData h\<rparr>)"
      by (rule mpsc_step_Dequeue) (simp_all add: load Let_def X r)
    have "mpsc_step A 0 P (?a\<lparr>shared := shared ?a, dpc := SDData h\<rparr>) None
        (?a\<lparr>shared := shared ?a, dpc := SDData h, shared := shared ?a, dpc := SDClear h v\<rparr>)"
      by (rule mpsc_step_Dequeue) (simp_all add: Let_def X r)
    from two [OF 1 _ this] have ?goal unfolding mpsci_abs_upd r(1,2) load by simp
    with mpsci_pinvD(2) [OF I] r(2) show ?thesis by simp
  next
    case store
    let ?i = "unat h mod length (MPSCIndirect.sc_buffer ?q)"
    have r: "l = None" "pc' = TDAdvance h v" "q' = ?q\<lparr>MPSCIndirect.sc_buffer := (MPSCIndirect.sc_buffer ?q)
        [?i := \<lparr>entry = ((h + MPSCIndirect.sc_size ?q) div MPSCIndirect.sc_capacity ?q, 0)\<rparr>]\<rparr>"
      using st store by (auto simp: Let_def X split: if_splits)
    let ?c1 = "?a\<lparr>shared := (mpsc128_abs ?q)\<lparr>MPSC.sc_buffer := (MPSC.sc_buffer (mpsc128_abs ?q))
      [?i := (MPSC.sc_buffer (mpsc128_abs ?q) ! ?i)\<lparr>data := 0\<rparr>]\<rparr>, dpc := SDRelease h v\<rparr>"
    have 1: "mpsc_step A 0 P ?a None ?c1" by (rule mpsc_step_Dequeue) (simp_all add: store Let_def X)
    have "mpsc_step A 0 P ?c1 None (?c1\<lparr>shared := mpsc128_abs q', dpc := SDAdvance h v\<rparr>)"
      by (rule mpsc_step_Dequeue) (use X in \<open>simp_all add: Let_def r mpsc128_abs_def map_update faa128_slot_def\<close>)
    from two [OF 1 _ this] have ?goal unfolding mpsci_abs_upd r(1,2) by simp
    moreover have "entries_kept q' (epcs128 c j)" for j
      unfolding r(3) by (rule entries_kept_write [OF mpsci_pinvD(2) [OF I]])
        (use mpsci_head_apart [OF I store] in \<open>simp add: X\<close>)
    ultimately show ?thesis by blast
  next
    case other
    then have "MPSC_Dequeue_step 0 (dpc ?a) (shared ?a) = ret (l, dpc128_abs pc', mpsc128_abs q')"
      using mpsci_dequeue_sim [OF st] by simp
    then have "mpsc_step A 0 P ?a l (mpsci_conf_abs (c\<lparr>mem128 := q', dpc128 := pc'\<rparr>))"
      unfolding mpsci_abs_upd using d by (intro mpsc_step_Dequeue) simp_all
    note mpsc_step_inv [OF mpsci_pinvD(1) [OF I] m this]
    moreover have "MPSCIndirect.sc_buffer q' = MPSCIndirect.sc_buffer ?q" "MPSCIndirect.sc_mask q' = MPSCIndirect.sc_mask ?q"
        "MPSCIndirect.sc_capacity q' = MPSCIndirect.sc_capacity ?q"
      using st other by (cases "dpc128 c"; auto simp: Let_def split: if_splits)+
    ultimately show ?thesis using mpsci_pinvD(2) [OF I] by (simp add: entries_kept_def)
  qed
  then show ?thesis by (simp add: mpsci_pinv_def)
qed

lemma mpsci_step_inv:
  assumes I: "mpsci_pinv k P m ls c" and m: "m < mpsc_bound" and step: "mpsci_step A P c l c'"
  shows "mpsci_pinv k P (Suc m) (append_label ls l) c'"
proof -
  note J = mpsc_step_inv [OF mpsci_pinvD(1) [OF I] m] and K = mpsci_pinvD(2) [OF I]
  from step show ?thesis
  proof cases
    case (mpsci_call_Enqueue i x)
    then have "mpsc_step A 0 P (mpsci_conf_abs c) l (mpsci_conf_abs c')"
      by (simp add: mpsci_abs_upd mpsc_call_Enqueue)
    from J [OF this] K mpsci_call_Enqueue show ?thesis by (simp add: mpsci_pinv_def entries_kept_def)
  next
    case mpsci_call_Dequeue
    then have "mpsc_step A 0 P (mpsci_conf_abs c) l (mpsci_conf_abs c')"
      by (simp add: mpsci_abs_upd mpsc_call_Dequeue)
    from J [OF this] K mpsci_call_Dequeue show ?thesis by (simp add: mpsci_pinv_def)
  next
    case mpsci_call_Drain
    have "mpsc128_abs (MPSCIndirect_Drain q) = MPSC_Drain (mpsc128_abs q)" for q
      by (simp add: mpsc128_abs_def MPSCIndirect_Drain_def MPSC_Drain_def)
    then have "mpsc_step A 0 P (mpsci_conf_abs c) l (mpsci_conf_abs c')"
      using mpsc_call_Drain [of A 0 P "mpsci_conf_abs c"] mpsci_call_Drain by (simp add: mpsci_abs_upd)
    from J [OF this] K mpsci_call_Drain show ?thesis by (simp add: mpsci_pinv_def entries_kept_def MPSCIndirect_Drain_def)
  next
    case (mpsci_step_Enqueue i pc q)
    then show ?thesis using mpsci_enqueue_inv [OF I m] by simp
  next
    case (mpsci_step_Dequeue pc q)
    then show ?thesis using mpsci_dequeue_inv [OF I m] by simp
  qed
qed

lemma mpsci_exec_inv:
  assumes "exec (mpsci_step A P) c0 m ls c" and "mpsci_pinv k P 0 [] c0" and "m \<le> mpsc_bound"
  shows "mpsci_pinv k P m ls c"
  by (rule exec_trace_invariant [of _ _ _ _ _ "mpsci_pinv k P", OF assms mpsci_step_inv])

lemma mpsci_swap_succeeds:
  assumes "mpsci_pinv k P m ls c" and "epcs128 c i = TECas x p v"
  shows "\<exists>q'. MPSCIndirect_Enqueue_step A (epcs128 c i) (mem128 c) = ret (Some (MStored (unat p) x), TIdle, q')"
  using mpsci_pinvD(2) [OF assms(1), of i] mpsci_index [OF assms(1)] assms(2) by (simp add: entries_kept_def Let_def rmw)

end

lemma mpsci_init_pinv:
  assumes "NewMPSCIndirect c = ret q" and "2 \<le> sint c" and "sint c \<le> 2 ^ 61"
  shows "\<exists>k. mpsci_pinv k P 0 [] (mpsci_init q) \<and> unat (roundToPow2 c) = 2 ^ k"
proof -
  have "NewMPSC 0 c = ret (mpsc128_abs q)" using NewMPSCIndirect_abs [of c] assms(1) by simp
  from mpsc_init_pinv [OF this assms(2,3), of P] obtain k
    where k: "mpsc_pinv k P 0 [] (mpsc_init (mpsc128_abs q))" "unat (roundToPow2 c) = 2 ^ k" by blast
  moreover have "mpsci_conf_abs (mpsci_init q) = mpsc_init (mpsc128_abs q)"
    by (simp add: mpsci_conf_abs_def mpsci_init_def mpsc_init_def)
  ultimately show ?thesis by (auto simp: mpsci_pinv_def mpsci_init_def entries_kept_def)
qed

section \<open>A call alone\<close>

context atomix_sem
begin

lemma MPSCIndirect_steps:
  assumes "mpmc_shape k (mpsc_abs (mpsc128_abs q))" and "unat (MPSCIndirect.sc_tail q) + 1 + 4 * 2 ^ k < 2 ^ 64"
  shows "go_bind (run_alone (MPSCIndirect_Enqueue_step A) TIdle None (TETail x) q) (\<lambda>(l, q'). ret (mpsc_enq_result l, q'))
     = MPSCIndirect_Enqueue A x q"
    and "go_bind (run_alone MPSCIndirect_Dequeue_step TDIdle None TDHead q) (\<lambda>(l, q'). ret (mpsc_deq_result 0 l, q'))
     = MPSCIndirect_Dequeue q"
proof -
  note S = mpsc128_shapeD [OF assms(1)]
  show "go_bind (run_alone (MPSCIndirect_Enqueue_step A) TIdle None (TETail x) q) (\<lambda>(l, q'). ret (mpsc_enq_result l, q'))
     = MPSCIndirect_Enqueue A x q"
  proof (cases "unat (MPSCIndirect.sc_tail q) < unat (MPSCIndirect.sc_head q) + 2 ^ k")
    case True
    with faa_push(1) [OF S(1) True assms(2)] S(6) obtain v
      where "entry (MPSCIndirect.sc_buffer q ! faa_idx k (MPSCIndirect.sc_tail q)) = (MPSCIndirect.sc_tail q div 2 ^ k, v)"
      by (metis faa128_slot_simps(1) nth_map prod.collapse)
    with True faa_full_test [OF S(1)] show ?thesis
      by (subst MPSCIndirect_Enqueue.simps) (simp add: run_alone_simps Let_def S rmw)
  next
    case False
    with faa_full_test [OF S(1)] show ?thesis
      by (subst MPSCIndirect_Enqueue.simps) (simp add: run_alone_simps Let_def S)
  qed
  show "go_bind (run_alone MPSCIndirect_Dequeue_step TDIdle None TDHead q) (\<lambda>(l, q'). ret (mpsc_deq_result 0 l, q'))
     = MPSCIndirect_Dequeue q"
    by (simp add: run_alone_simps Let_def MPSCIndirect_Dequeue_def S case_prod_beta)
qed

end

section \<open>Executing an interleaving\<close>

fun mpsci_do :: "atomix \<Rightarrow> nat \<Rightarrow> u64 mpsc_move \<Rightarrow> mpsci_conf \<Rightarrow> (u64 mpsc_label option \<times> mpsci_conf) option" where
  "mpsci_do A P (SEnqueue i x) c =
     (if i < P \<and> epcs128 c i = TIdle then Some (None, c\<lparr>epcs128 := (epcs128 c)(i := TETail x)\<rparr>) else None)"
| "mpsci_do A P SDequeue c = (if dpc128 c = TDIdle then Some (None, c\<lparr>dpc128 := TDHead\<rparr>) else None)"
| "mpsci_do A P (SRun i) c =
     (if i < P \<and> epcs128 c i \<noteq> TIdle then
        (case MPSCIndirect_Enqueue_step A (epcs128 c i) (mem128 c) of
           Some (Inr (l, pc, q)) \<Rightarrow> Some (l, c\<lparr>mem128 := q, epcs128 := (epcs128 c)(i := pc)\<rparr>) | _ \<Rightarrow> None) else None)"
| "mpsci_do A P SConsume c =
     (if dpc128 c \<noteq> TDIdle then
        (case MPSCIndirect_Dequeue_step (dpc128 c) (mem128 c) of
           Some (Inr (l, pc, q)) \<Rightarrow> Some (l, c\<lparr>mem128 := q, dpc128 := pc\<rparr>) | _ \<Rightarrow> None) else None)"

lemma mpsci_do_step: "mpsci_do A P mv c = Some (l, c') \<Longrightarrow> mpsci_step A P c l c'"
  by (cases mv) (auto intro: mpsci_step.intros split: if_splits option.splits sum.splits)

lemma mpsci_sched_exec:
  "sched (mpsci_do A P) mvs c0 = Some (ls, c) \<Longrightarrow> length mvs = n \<Longrightarrow> exec (mpsci_step A P) c0 n ls c"
  using sched_init_exec [of "mpsci_do A P" mvs c0 ls c "mpsci_step A P", OF _ mpsci_do_step] by simp

lemma NewMPSCIndirect_2:
  "NewMPSCIndirect 2 = ret \<lparr>MPSCIndirect.sc_head = 0, MPSCIndirect.sc_tail = 0, MPSCIndirect.sc_draining = False,
     MPSCIndirect.sc_buffer = [\<lparr>entry = (0, 0)\<rparr>, \<lparr>entry = (0, 0)\<rparr>, \<lparr>entry = (1, 0)\<rparr>, \<lparr>entry = (1, 0)\<rparr>],
     MPSCIndirect.sc_capacity = 2, MPSCIndirect.sc_size = 4, MPSCIndirect.sc_mask = 3\<rparr>"
proof -
  have "[0..<4] = [0, 1, 2, 3]" by (simp add: upt_rec)
  moreover have "replicate 4 z = [z, z, z, z]" for z :: mpmc128Slot by (simp add: numeral_eq_Suc)
  moreover have "(of_nat 2 :: u64) div 2 = 1" "(of_nat 3 :: u64) div 2 = 1" "(of_nat 1 :: u64) div 2 = 0" by code_simp+
  ultimately show ?thesis by (simp add: roundToPow2_2 NewMPSCIndirect_def make_slice_def)
qed

text \<open>The schedule of \<open>wedge_moves\<close> on this queue.\<close>

definition wedge128_moves :: "u64 \<Rightarrow> u64 mpsc_move list" where
  "wedge128_moves x = SEnqueue 0 x # replicate 5 (SRun 0)
     @ [SEnqueue 0 x, SEnqueue 1 x, SEnqueue 2 x, SEnqueue 3 x, SRun 0, SRun 0, SRun 1, SRun 1, SRun 2, SRun 2, SRun 3, SRun 3,
        SRun 0, SRun 1, SRun 2, SRun 3, SRun 3, SRun 0, SRun 0, SRun 1, SRun 1, SRun 2, SRun 2]
     @ concat (replicate 4 (SDequeue # replicate 4 SConsume))
     @ SEnqueue 0 x # replicate 5 (SRun 0)"

context atomix_sem
begin

lemma mpsci_wedge:
  assumes "NewMPSCIndirect 2 = ret q"
  shows "sched (mpsci_do A 4) (wedge128_moves x) (mpsci_init q)
     = Some ([MStored 0 x, MBurned 4, MStored 1 x, MStored 2 x, MStored 3 x,
           MDelivered 0 x, MDelivered 1 x, MDelivered 2 x, MDelivered 3 x, MStored 5 x],
        \<lparr>mem128 = \<lparr>MPSCIndirect.sc_head = 4, MPSCIndirect.sc_tail = 6, MPSCIndirect.sc_draining = False,
           MPSCIndirect.sc_buffer = [\<lparr>entry = (2, 0)\<rparr>, \<lparr>entry = (3, x)\<rparr>, \<lparr>entry = (3, 0)\<rparr>, \<lparr>entry = (3, 0)\<rparr>],
           MPSCIndirect.sc_capacity = 2, MPSCIndirect.sc_size = 4, MPSCIndirect.sc_mask = 3\<rparr>,
         epcs128 = (\<lambda>_. TIdle), dpc128 = TDIdle\<rparr>)"
proof -
  from assms have "q = \<lparr>MPSCIndirect.sc_head = 0, MPSCIndirect.sc_tail = 0, MPSCIndirect.sc_draining = False,
     MPSCIndirect.sc_buffer = [\<lparr>entry = (0, 0)\<rparr>, \<lparr>entry = (0, 0)\<rparr>, \<lparr>entry = (1, 0)\<rparr>, \<lparr>entry = (1, 0)\<rparr>],
     MPSCIndirect.sc_capacity = 2, MPSCIndirect.sc_size = 4, MPSCIndirect.sc_mask = 3\<rparr>" by (simp add: NewMPSCIndirect_2)
  moreover have "replicate 5 mv = [mv, mv, mv, mv, mv]" "replicate 4 mv = [mv, mv, mv, mv]" "replicate 4 mvs = [mvs, mvs, mvs, mvs]"
    for mv :: "u64 mpsc_move" and mvs :: "u64 mpsc_move list"
    by (simp_all add: numeral_eq_Suc)
  moreover have "\<not> (2 :: u64) \<le> 1" by code_simp
  ultimately show ?thesis by (simp add: mpsci_init_def wedge128_moves_def Let_def rmw fun_eq_iff)
qed

lemma mpsci_wedge_polls:
  "polls_fail MPSCIndirect_Dequeue 0 \<lparr>MPSCIndirect.sc_head = 4, MPSCIndirect.sc_tail = 6, MPSCIndirect.sc_draining = False,
     MPSCIndirect.sc_buffer = [\<lparr>entry = (2, 0)\<rparr>, \<lparr>entry = (3, x)\<rparr>, \<lparr>entry = (3, 0)\<rparr>, \<lparr>entry = (3, 0)\<rparr>],
     MPSCIndirect.sc_capacity = 2, MPSCIndirect.sc_size = 4, MPSCIndirect.sc_mask = 3\<rparr>"
  by (rule polls_fail_stuck) (simp add: MPSCIndirect_Dequeue_def Let_def)

end

end
