(* ===== verification/Faa_Spmc.thy ===== *)
theory Faa_Spmc
  imports Faa_Concurrent Goroutines
begin

text \<open>
  \<open>SPMC[T]\<close> (\<open>spmc.go\<close>) with its single producer, goroutine \<open>0\<close>, and any number of consumers, cut into
  shared accesses like \<open>MPMC[T]\<close> in theory \<open>Faa_Concurrent\<close>. The producer keeps its position until it
  stores \<open>tail\<close>; the consumers run the code of \<open>MPMC[T]\<close>.

  Both queues fail in the same two ways. The slot repair of a consumer can overtake a producer
  between its check and its stores, so that the value is lost. And it can overtake a consumer
  between its check and its read: the slot is then used for a later position and two consumers
  read, and return, the same value.
\<close>

section \<open>Atomic steps\<close>

datatype 'a spmc_pc = QIdle
  | QETail 'a | QEHead 'a u64 | QECycle 'a u64 | QEData 'a u64 | QEPublish 'a u64 | QEAdvance 'a u64 | QEThreshold 'a
  | QDDraining | QDThreshold | QDAdd | QDCycle u64 | QDData u64 | QDClear u64 'a | QDRelease u64 'a
  | QDRepair u64 u64 | QDTail u64 | QDCount | QDDrained | QDLower
  | QCCas u64 u64 | QCTail | QCHead u64

definition spmc_catchup_pc :: "u64 \<Rightarrow> u64 \<Rightarrow> 'a spmc_pc" where
  "spmc_catchup_pc t h = (if t < h then QCCas t h else QDLower)"

fun SPMC_step :: "atomix \<Rightarrow> 'a \<Rightarrow> 'a spmc_pc \<Rightarrow> 'a SPMC
    \<Rightarrow> (('a call \<times> 'a answer) option \<times> 'a spmc_pc \<times> 'a SPMC) go" where
  "SPMC_step A zero QIdle q = ret (None, QIdle, q)"
| "SPMC_step A zero (QETail elem) q = ret (None, QEHead elem (tail q), q)"
| "SPMC_step A zero (QEHead elem t) q =
     (if t \<ge> head q + capacity q
      then ret (Some (Enqueue elem, EnqueueRet (Some ErrWouldBlock)), QIdle, q)
      else ret (None, QECycle elem t, q))"
| "SPMC_step A zero (QECycle elem t) q =
     (if capacity q = 0 then panics DivideByZero
      else let i = unat (t AND mask_q q)
        in if \<not> i < length (buffer q) then panics IndexOutOfRange
           else if cycle (buffer q ! i) \<noteq> t div capacity q
           then ret (Some (Enqueue elem, EnqueueRet (Some ErrWouldBlock)), QIdle, q)
           else ret (None, QEData elem t, q))"
| "SPMC_step A zero (QEData elem t) q =
     (let i = unat (t AND mask_q q)
      in if \<not> i < length (buffer q) then panics IndexOutOfRange
         else ret (None, QEPublish elem t, q\<lparr>buffer := (buffer q)[i := (buffer q ! i)\<lparr>data := elem\<rparr>]\<rparr>))"
| "SPMC_step A zero (QEPublish elem t) q =
     (let i = unat (t AND mask_q q)
      in if \<not> i < length (buffer q) then panics IndexOutOfRange
         else if capacity q = 0 then panics DivideByZero
         else ret (None, QEAdvance elem t,
                q\<lparr>buffer := (buffer q)[i := (buffer q ! i)\<lparr>cycle := t div capacity q + 1\<rparr>]\<rparr>))"
| "SPMC_step A zero (QEAdvance elem t) q = ret (None, QEThreshold elem, q\<lparr>tail := t + 1\<rparr>)"
| "SPMC_step A zero (QEThreshold elem) q =
     ret (Some (Enqueue elem, EnqueueRet None), QIdle, q\<lparr>threshold := 3 * capacity q - 1\<rparr>)"
| "SPMC_step A zero QDDraining q = ret (None, if draining q then QDAdd else QDThreshold, q)"
| "SPMC_step A zero QDThreshold q =
     (if sint (threshold q) < 0 then ret (refused zero, QIdle, q) else ret (None, QDAdd, q))"
| "SPMC_step A zero QDAdd q =
     (case Add64 A (head q) 1 of (added, cell) \<Rightarrow> ret (None, QDCycle (added - 1), q\<lparr>head := cell\<rparr>))"
| "SPMC_step A zero (QDCycle myHead) q =
     (let i = unat (myHead AND mask_q q)
      in if \<not> i < length (buffer q) then panics IndexOutOfRange
         else if capacity q = 0 then panics DivideByZero
         else let expectedCycle = myHead div capacity q + 1; slotCycle = cycle (buffer q ! i)
           in if slotCycle = expectedCycle then ret (None, QDData myHead, q)
              else if sint slotCycle < sint expectedCycle then ret (None, QDRepair myHead slotCycle, q)
              else ret (None, QDAdd, q))"
| "SPMC_step A zero (QDData myHead) q =
     (let i = unat (myHead AND mask_q q)
      in if \<not> i < length (buffer q) then panics IndexOutOfRange
         else ret (None, QDClear myHead (data (buffer q ! i)), q))"
| "SPMC_step A zero (QDClear myHead elem) q =
     (let i = unat (myHead AND mask_q q)
      in if \<not> i < length (buffer q) then panics IndexOutOfRange
         else ret (None, QDRelease myHead elem, q\<lparr>buffer := (buffer q)[i := (buffer q ! i)\<lparr>data := zero\<rparr>]\<rparr>))"
| "SPMC_step A zero (QDRelease myHead elem) q =
     (let i = unat (myHead AND mask_q q)
      in if \<not> i < length (buffer q) then panics IndexOutOfRange
         else if capacity q = 0 then panics DivideByZero
         else ret (Some (Dequeue, DequeueRet elem None), QIdle,
                q\<lparr>buffer := (buffer q)[i := (buffer q ! i)\<lparr>cycle := (myHead + size_q q) div capacity q\<rparr>]\<rparr>))"
| "SPMC_step A zero (QDRepair myHead slotCycle) q =
     (let i = unat (myHead AND mask_q q)
      in if \<not> i < length (buffer q) then panics IndexOutOfRange
         else if capacity q = 0 then panics DivideByZero
         else let nextEnqCycle = (myHead + size_q q) div capacity q;
                  repaired = snd (CompareAndSwap64 A (cycle (buffer q ! i)) slotCycle nextEnqCycle)
           in ret (None, QDTail myHead, q\<lparr>buffer := (buffer q)[i := (buffer q ! i)\<lparr>cycle := repaired\<rparr>]\<rparr>))"
| "SPMC_step A zero (QDTail myHead) q =
     (let t = tail q
      in if t \<le> myHead + 1 then ret (None, spmc_catchup_pc t (myHead + 1), q) else ret (None, QDCount, q))"
| "SPMC_step A zero QDCount q =
     (case AddInt64 A (threshold q) (- 1) of (left, cell) \<Rightarrow>
        ret (None, if sint left \<le> 0 then QDDrained else QDAdd, q\<lparr>threshold := cell\<rparr>))"
| "SPMC_step A zero QDDrained q =
     (if draining q then ret (None, QDAdd, q) else ret (refused zero, QIdle, q))"
| "SPMC_step A zero QDLower q =
     ret (refused zero, QIdle, q\<lparr>threshold := snd (AddInt64 A (threshold q) (- 1))\<rparr>)"
| "SPMC_step A zero (QCCas t h) q =
     (case CompareAndSwap64 A (tail q) t h of (swapped, cell) \<Rightarrow>
        ret (None, if swapped then QDLower else QCTail, q\<lparr>tail := cell\<rparr>))"
| "SPMC_step A zero QCTail q = ret (None, QCHead (tail q), q)"
| "SPMC_step A zero (QCHead t) q = ret (None, spmc_catchup_pc t (head q), q)"

abbreviation spmc_step where
  "spmc_step A zero \<equiv> go_step (SPMC_step A zero) QIdle QETail QDDraining (\<lambda>i. i = 0) (\<lambda>_. True)"

section \<open>A call alone\<close>

context atomix_sem
begin

lemma SPMC_Enqueue_steps:
  assumes "mpmc_shape k q" and "unat (tail q) + 1 + 4 * 2 ^ k < 2 ^ 64"
  shows "run_alone (SPMC_step A zero) QIdle None (QETail x) q
    = go_bind (SPMC_Enqueue x q) (\<lambda>(e, q'). ret (Some (Enqueue x, EnqueueRet e), q'))"
proof -
  note S = mpmc_shapeD [OF assms(1)]
  show ?thesis
    unfolding SPMC_Enqueue_eq [OF assms]
    using faa_full_test [OF S(1)] faa_push(1) [OF S(1) _ assms(2)]
    by (simp add: run_alone_simps Let_def S mpmc_push_def)
qed

lemma SPMC_Dequeue_steps:
  assumes "mpmc_shape k q"
  shows "run_alone (SPMC_step A zero) QIdle None QDDraining q
    = go_bind (SPMC_Dequeue A zero q) (\<lambda>((v, e), q'). ret (Some (Dequeue, DequeueRet v e), q'))"
proof -
  note S = mpmc_shapeD [OF assms] and D = faa_okD [OF mpmc_shapeD(1) [OF assms]]
  note c = faa_cycles [OF D(1,2,7)]
  have lt: "h < h + 1" "h \<le> h + 1" if "h = head q" for h
    using faa_succ [OF D(7)] that by (simp_all add: word_less_nat_alt word_le_nat_alt)
  show ?thesis
  proof (cases "unat (head q) < unat (tail q)")
    case True
    with faa_pop(1) [OF S(1) True] show ?thesis unfolding SPMC_Dequeue_eq [OF assms]
      by (simp add: run_alone_simps Let_def S rmw mpmc_pop_def refused_def)
  next
    case False
    then have e: "tail q = head q" using faa_empty_iff(2) [OF S(1)] by simp
    then have cy: "cycle (buffer q ! faa_idx k (head q)) = head q div 2 ^ k"
      using S(1) by (intro faa_empty_cycle) simp
    with False e c(4,5) lt [OF refl] show ?thesis unfolding SPMC_Dequeue_eq [OF assms]
      by (simp add: run_alone_simps Let_def S rmw spmc_catchup_pc_def refused_def mpmc_skip_def faa_slot_cycle_upd)
  qed
qed

end

section \<open>Lost values\<close>

context atomix_sem
begin

lemma spmc_lost:
  assumes "NewSPMC zero 2 = ret q"
  shows "sched (go_do (SPMC_step A zero) QIdle QETail QDDraining (\<lambda>i. i = 0) (\<lambda>_. True))
      [StartEnqueue 0 x, Resume 0, Resume 0, Resume 0,
       StartDequeue 1, Resume 1, Resume 1, Resume 1, Resume 1, Resume 1, Resume 1, Resume 1, Resume 1,
       Resume 0, Resume 0, Resume 0, Resume 0] (go_init q QIdle)
     = Some ([(Dequeue, DequeueRet zero (Some ErrWouldBlock)), (Enqueue x, EnqueueRet None)],
        \<lparr>memory = \<lparr>tail = 1, head = 1, threshold = 5, draining = False,
           buffer = [\<lparr>cycle = 1, data = x\<rparr>, \<lparr>cycle = 0, data = zero\<rparr>, \<lparr>cycle = 1, data = zero\<rparr>, \<lparr>cycle = 1, data = zero\<rparr>],
           capacity = 2, size_q = 4, mask_q = 3\<rparr>, at_pc = (\<lambda>_. QIdle)\<rparr>)"
proof -
  from assms have "q = \<lparr>tail = 0, head = 0, threshold = 5, draining = False,
     buffer = [\<lparr>cycle = 0, data = zero\<rparr>, \<lparr>cycle = 0, data = zero\<rparr>, \<lparr>cycle = 1, data = zero\<rparr>, \<lparr>cycle = 1, data = zero\<rparr>],
     capacity = 2, size_q = 4, mask_q = 3\<rparr>" by (simp add: NewMPMC_2 NewSPMC_same)
  then show ?thesis by (simp add: go_init_def refused_def spmc_catchup_pc_def Let_def rmw fun_eq_iff)
qed

lemma spmc_lost_polls:
  "polls_fail (SPMC_Dequeue A zero) zero \<lparr>tail = 1, head = 1, threshold = 5, draining = False,
     buffer = [\<lparr>cycle = 1, data = x\<rparr>, \<lparr>cycle = 0, data = zero\<rparr>, \<lparr>cycle = 1, data = zero\<rparr>, \<lparr>cycle = 1, data = zero\<rparr>],
     capacity = 2, size_q = 4, mask_q = 3\<rparr>"
  by (rule polls_fail_step [OF _ polls_fail_step [OF _ polls_fail_step [OF _ polls_fail_step [OF _ polls_fail_step [OF _ polls_fail_step [OF _ polls_fail_stuck]]]]]])
    (simp add: SPMC_Dequeue_def SPMC_Dequeue_loop.simps SPMC_catchup.simps Let_def rmw)+

end

section \<open>Values delivered twice\<close>

text \<open>
  A consumer has seen the value \<open>x\<close> at position \<open>0\<close> and pauses. Another one polls the queue until
  position \<open>4\<close>, which has the same slot, and repairs the slot. After \<open>a\<close> at position \<open>5\<close> and two more
  polls the producer puts \<open>y\<close> into the slot, for position \<open>8\<close>; the first consumer and the one of
  position \<open>8\<close> both read it.
\<close>

definition twice_schedule :: "(nat \<Rightarrow> 'a \<Rightarrow> 'm) \<Rightarrow> (nat \<Rightarrow> 'm) \<Rightarrow> (nat \<Rightarrow> 'm) \<Rightarrow> 'a \<Rightarrow> 'a \<Rightarrow> 'a \<Rightarrow> 'm list" where
  "twice_schedule E D R x a y =
     E 0 x # replicate 7 (R 0) @ D 1 # replicate 4 (R 1) @ concat (replicate 4 (D 2 # replicate 8 (R 2)))
     @ E 0 a # replicate 7 (R 0) @ D 2 # replicate 7 (R 2) @ concat (replicate 2 (D 2 # replicate 8 (R 2)))
     @ E 0 y # replicate 7 (R 0) @ R 1 # D 2 # replicate 5 (R 2) @ [R 1, R 1, R 2, R 2]"

lemma twice_length: "length (twice_schedule E D R x a y) = 102"
  by (simp add: twice_schedule_def length_concat sum_list_replicate)

definition twice_trace :: "'a \<Rightarrow> 'a \<Rightarrow> 'a \<Rightarrow> 'a \<Rightarrow> ('a call \<times> 'a answer) list" where
  "twice_trace zero x a y =
     (Enqueue x, EnqueueRet None) # replicate 4 (Dequeue, DequeueRet zero (Some ErrWouldBlock))
     @ [(Enqueue a, EnqueueRet None), (Dequeue, DequeueRet a None)] @ replicate 2 (Dequeue, DequeueRet zero (Some ErrWouldBlock))
     @ [(Enqueue y, EnqueueRet None), (Dequeue, DequeueRet y None), (Dequeue, DequeueRet y None)]"

lemma twice_replicates:
  "replicate 2 z = [z, z]" "replicate 4 z = [z, z, z, z]" "replicate 5 z = [z, z, z, z, z]"
  "replicate 7 z = [z, z, z, z, z, z, z]" "replicate 8 z = [z, z, z, z, z, z, z, z]"
  by (simp_all add: numeral_eq_Suc)

context atomix_sem
begin

lemma mpmc_twice:
  assumes "NewMPMC zero 2 = ret q"
  shows "\<exists>cf. sched (mpmc_do A zero) (twice_schedule MEnqueue MDequeue MRun x a y) (mpmc_init q)
    = Some (twice_trace zero x a y, cf) \<and> (\<forall>i. pcs cf i = FIdle)"
proof -
  from assms have "q = \<lparr>tail = 0, head = 0, threshold = 5, draining = False,
     buffer = [\<lparr>cycle = 0, data = zero\<rparr>, \<lparr>cycle = 0, data = zero\<rparr>, \<lparr>cycle = 1, data = zero\<rparr>, \<lparr>cycle = 1, data = zero\<rparr>],
     capacity = 2, size_q = 4, mask_q = 3\<rparr>" by (simp add: NewMPMC_2)
  then show ?thesis unfolding twice_schedule_def twice_trace_def twice_replicates
    by (simp add: mpmc_init_def refused_def catchup_pc_def Let_def rmw fun_eq_iff)
qed

lemma spmc_twice:
  assumes "NewSPMC zero 2 = ret q"
  shows "\<exists>cf. sched (go_do (SPMC_step A zero) QIdle QETail QDDraining (\<lambda>i. i = 0) (\<lambda>_. True))
      (twice_schedule StartEnqueue StartDequeue Resume x a y) (go_init q QIdle)
    = Some (twice_trace zero x a y, cf) \<and> (\<forall>i. at_pc cf i = QIdle)"
proof -
  from assms have "q = \<lparr>tail = 0, head = 0, threshold = 5, draining = False,
     buffer = [\<lparr>cycle = 0, data = zero\<rparr>, \<lparr>cycle = 0, data = zero\<rparr>, \<lparr>cycle = 1, data = zero\<rparr>, \<lparr>cycle = 1, data = zero\<rparr>],
     capacity = 2, size_q = 4, mask_q = 3\<rparr>" by (simp add: NewMPMC_2 NewSPMC_same)
  then show ?thesis unfolding twice_schedule_def twice_trace_def twice_replicates
    by (simp add: go_init_def refused_def spmc_catchup_pc_def Let_def rmw fun_eq_iff)
qed

end

end
