(* ===== verification/Faa128_Concurrent.thy ===== *)
theory Faa128_Concurrent
  imports Faa128_Queues Faa_Concurrent
begin

text \<open>
  Any number of goroutines on an \<open>MPMCIndirect\<close> queue (\<open>mpmc_128.go\<close>), interleaved; \<open>MPMCPtr\<close> has the
  same code. Cycle and value of a slot change together in one 128-bit compare-and-swap. No value
  is delivered twice or to the consumer of another position. Values can get lost: a consumer that
  is a lap of \<open>2n\<close> positions ahead of a stalled one repairs the slot of the stalled consumer
  although it holds a value.
\<close>

section \<open>Atomic steps\<close>

datatype faa128_pc = XIdle
  | XETail u64 | XEHead u64 u64 | XEAdd u64 | XELoad u64 u64 | XECas u64 u64 "u64 \<times> u64" | XEThreshold
  | XDDraining | XDThreshold | XDAdd | XDLoad u64 | XDCas u64 "u64 \<times> u64" | XDRepair u64 "u64 \<times> u64"
  | XDTail u64 | XDCount | XDDrained | XDLower
  | XCCas u64 u64 | XCTail | XCHead u64

datatype faa128_label = XStored nat u64 | XFull | XDelivered nat u64 | XEmpty

definition catchup128_pc :: "u64 \<Rightarrow> u64 \<Rightarrow> faa128_pc" where
  "catchup128_pc t h = (if t < h then XCCas t h else XDLower)"

fun MPMCIndirect_step :: "atomix \<Rightarrow> faa128_pc \<Rightarrow> MPMCIndirect
    \<Rightarrow> (faa128_label option \<times> faa128_pc \<times> MPMCIndirect) go" where
  "MPMCIndirect_step A XIdle q = ret (None, XIdle, q)"
| "MPMCIndirect_step A (XETail elem) q = ret (None, XEHead elem (tail q), q)"
| "MPMCIndirect_step A (XEHead elem t) q =
     (if t \<ge> head q + capacity q then ret (Some XFull, XIdle, q) else ret (None, XEAdd elem, q))"
| "MPMCIndirect_step A (XEAdd elem) q =
     (case Add64 A (tail q) 1 of (added, cell) \<Rightarrow> ret (None, XELoad elem (added - 1), q\<lparr>tail := cell\<rparr>))"
| "MPMCIndirect_step A (XELoad elem myTail) q =
     (let i = unat (myTail AND mask_q q)
      in if \<not> i < length (buffer q) then panics IndexOutOfRange
         else if capacity q = 0 then panics DivideByZero
         else let expectedCycle = myTail div capacity q; slotCycle = fst (entry (buffer q ! i))
           in if slotCycle = expectedCycle then ret (None, XECas elem myTail (entry (buffer q ! i)), q)
              else if sint slotCycle < sint expectedCycle then ret (Some XFull, XIdle, q)
              else ret (None, XETail elem, q))"
| "MPMCIndirect_step A (XECas elem myTail e) q =
     (let i = unat (myTail AND mask_q q)
      in if \<not> i < length (buffer q) then panics IndexOutOfRange
         else (case CompareAndSwap128 A (entry (buffer q ! i)) e (fst e + 1, elem) of (swapped, cell) \<Rightarrow>
           let q = q\<lparr>buffer := (buffer q)[i := \<lparr>entry = cell\<rparr>]\<rparr>
           in if swapped then ret (Some (XStored (unat myTail) elem), XEThreshold, q) else ret (None, XETail elem, q)))"
| "MPMCIndirect_step A XEThreshold q = ret (None, XIdle, q\<lparr>threshold := 3 * capacity q - 1\<rparr>)"
| "MPMCIndirect_step A XDDraining q = ret (None, if draining q then XDAdd else XDThreshold, q)"
| "MPMCIndirect_step A XDThreshold q =
     (if sint (threshold q) < 0 then ret (Some XEmpty, XIdle, q) else ret (None, XDAdd, q))"
| "MPMCIndirect_step A XDAdd q =
     (case Add64 A (head q) 1 of (added, cell) \<Rightarrow> ret (None, XDLoad (added - 1), q\<lparr>head := cell\<rparr>))"
| "MPMCIndirect_step A (XDLoad myHead) q =
     (let i = unat (myHead AND mask_q q)
      in if \<not> i < length (buffer q) then panics IndexOutOfRange
         else if capacity q = 0 then panics DivideByZero
         else let expectedCycle = myHead div capacity q + 1; slotCycle = fst (entry (buffer q ! i))
           in if slotCycle = expectedCycle then ret (None, XDCas myHead (entry (buffer q ! i)), q)
              else if sint slotCycle < sint expectedCycle then ret (None, XDRepair myHead (entry (buffer q ! i)), q)
              else ret (None, XDAdd, q))"
| "MPMCIndirect_step A (XDCas myHead e) q =
     (let i = unat (myHead AND mask_q q)
      in if \<not> i < length (buffer q) then panics IndexOutOfRange
         else if capacity q = 0 then panics DivideByZero
         else (case CompareAndSwap128 A (entry (buffer q ! i)) e ((myHead + size_q q) div capacity q, 0) of (swapped, cell) \<Rightarrow>
           let q = q\<lparr>buffer := (buffer q)[i := \<lparr>entry = cell\<rparr>]\<rparr>
           in if swapped then ret (Some (XDelivered (unat myHead) (snd e)), XIdle, q) else ret (None, XDAdd, q)))"
| "MPMCIndirect_step A (XDRepair myHead e) q =
     (let i = unat (myHead AND mask_q q)
      in if \<not> i < length (buffer q) then panics IndexOutOfRange
         else if capacity q = 0 then panics DivideByZero
         else let repaired = snd (CompareAndSwap128 A (entry (buffer q ! i)) e ((myHead + size_q q) div capacity q, 0))
           in ret (None, XDTail myHead, q\<lparr>buffer := (buffer q)[i := \<lparr>entry = repaired\<rparr>]\<rparr>))"
| "MPMCIndirect_step A (XDTail myHead) q =
     (let t = tail q
      in if t \<le> myHead + 1 then ret (None, catchup128_pc t (myHead + 1), q) else ret (None, XDCount, q))"
| "MPMCIndirect_step A XDCount q =
     (case AddInt64 A (threshold q) (- 1) of (left, cell) \<Rightarrow>
        ret (None, if sint left \<le> 0 then XDDrained else XDAdd, q\<lparr>threshold := cell\<rparr>))"
| "MPMCIndirect_step A XDDrained q =
     (if draining q then ret (None, XDAdd, q) else ret (Some XEmpty, XIdle, q))"
| "MPMCIndirect_step A XDLower q =
     ret (Some XEmpty, XIdle, q\<lparr>threshold := snd (AddInt64 A (threshold q) (- 1))\<rparr>)"
| "MPMCIndirect_step A (XCCas t h) q =
     (case CompareAndSwap64 A (tail q) t h of (swapped, cell) \<Rightarrow>
        ret (None, if swapped then XDLower else XCTail, q\<lparr>tail := cell\<rparr>))"
| "MPMCIndirect_step A XCTail q = ret (None, XCHead (tail q), q)"
| "MPMCIndirect_step A (XCHead t) q = ret (None, catchup128_pc t (head q), q)"

record faa128_conf =
  shared :: MPMCIndirect
  pcs :: "nat \<Rightarrow> faa128_pc"

inductive faa128_step :: "atomix \<Rightarrow> faa128_conf \<Rightarrow> faa128_label option \<Rightarrow> faa128_conf \<Rightarrow> bool"
  for A :: atomix where
  faa128_call_Enqueue: "pcs c i = XIdle \<Longrightarrow> faa128_step A c None (c\<lparr>pcs := (pcs c)(i := XETail x)\<rparr>)"
| faa128_call_Dequeue: "pcs c i = XIdle \<Longrightarrow> faa128_step A c None (c\<lparr>pcs := (pcs c)(i := XDDraining)\<rparr>)"
| faa128_call_Drain: "faa128_step A c None (c\<lparr>shared := MPMCIndirect_Drain (shared c)\<rparr>)"
| faa128_run: "pcs c i \<noteq> XIdle \<Longrightarrow> MPMCIndirect_step A (pcs c i) (shared c) = ret (l, pc, q) \<Longrightarrow>
    faa128_step A c l (c\<lparr>shared := q, pcs := (pcs c)(i := pc)\<rparr>)"

definition faa128_init :: "MPMCIndirect \<Rightarrow> faa128_conf" where
  "faa128_init q = \<lparr>shared = q, pcs = (\<lambda>_. XIdle)\<rparr>"

section \<open>Cycles and positions\<close>

text \<open>Two positions of the same slot: the cycle tells which one, and whether it is full.\<close>

lemma same_slot_cycles:
  assumes "p mod (2 * n) = r mod (2 * n :: nat)" and "0 < n"
  shows "p div n = r div n \<longleftrightarrow> p = r" and "p div n + 2 \<noteq> r div n + 1"
proof -
  have d: "n * (p div n mod 2) + p mod n = n * (r div n mod 2) + r mod n"
    using assms(1) mod_mult2_eq [of p n 2] mod_mult2_eq [of r n 2] by (simp add: mult.commute)
  have "(n * a + b) mod n = b \<and> (n * a + b) div n = a" if "b < n" for a b using that by simp
  then have m: "p mod n = r mod n" "p div n mod 2 = r div n mod 2" using d assms(2) by (metis mod_less_divisor)+
  show "p div n = r div n \<longleftrightarrow> p = r" using m(1) by (metis mult_div_mod_eq)
  have "a + 2 \<noteq> b + 1" if "a mod 2 = b mod 2" for a b :: nat using that by presburger
  from this [OF m(2)] show "p div n + 2 \<noteq> r div n + 1" .
qed

lemma first_lap_cycle:
  assumes "p mod (2 * n) = s" and "0 < n"
  shows "s div n \<le> (p :: nat) div n"
  using assms by (metis div_le_mono mod_less_eq_dividend)

section \<open>Invariant\<close>

fun xstores :: "faa128_label list \<Rightarrow> (nat \<times> u64) list" where
  "xstores [] = []"
| "xstores (XStored p x # ls) = (p, x) # xstores ls"
| "xstores (_ # ls) = xstores ls"

fun xdelivs :: "faa128_label list \<Rightarrow> (nat \<times> u64) list" where
  "xdelivs [] = []"
| "xdelivs (XDelivered p x # ls) = (p, x) # xdelivs ls"
| "xdelivs (_ # ls) = xdelivs ls"

lemma xlabels_append [simp]:
  "xstores (ls @ ls') = xstores ls @ xstores ls'" "xdelivs (ls @ ls') = xdelivs ls @ xdelivs ls'"
  by (induction ls rule: xstores.induct; simp)+

fun enq_claim :: "faa128_pc \<Rightarrow> nat option" where
  "enq_claim (XELoad x p) = Some (unat p)"
| "enq_claim (XECas x p e) = Some (unat p)"
| "enq_claim _ = None"

fun deq_claim :: "faa128_pc \<Rightarrow> nat option" where
  "deq_claim (XDLoad p) = Some (unat p)"
| "deq_claim (XDCas p e) = Some (unat p)"
| "deq_claim _ = None"

fun pc128_ok :: "nat \<Rightarrow> u64 \<Rightarrow> faa128_pc \<Rightarrow> bool" where
  "pc128_ok n h (XECas x p e) \<longleftrightarrow> fst e = of_nat (unat p div n)"
| "pc128_ok n h (XDCas p e) \<longleftrightarrow> fst e = of_nat (unat p div n + 1)"
| "pc128_ok n h (XDRepair p e) \<longleftrightarrow> unat p < unat h"
| "pc128_ok n h (XDTail p) \<longleftrightarrow> unat p < unat h"
| "pc128_ok n h (XCCas t h') \<longleftrightarrow> unat t < unat h' \<and> unat h' \<le> unat h"
| "pc128_ok n h _ \<longleftrightarrow> True"

definition faa128_static :: "nat \<Rightarrow> MPMCIndirect \<Rightarrow> bool" where
  "faa128_static k q \<longleftrightarrow> 1 \<le> k \<and> k \<le> 61 \<and> capacity q = 2 ^ k \<and> size_q q = 2 ^ k * 2
     \<and> mask_q q = 2 ^ k * 2 - 1 \<and> length (buffer q) = 2 * 2 ^ k"

text \<open>A slot is full only with the value stored at its position, which nobody has taken yet.\<close>

definition slot128_ok :: "nat \<Rightarrow> nat \<Rightarrow> (nat \<times> u64) set \<Rightarrow> nat set \<Rightarrow> nat \<Rightarrow> u64 \<times> u64 \<Rightarrow> bool" where
  "slot128_ok n m S D s e \<longleftrightarrow> (\<exists>a \<le> m + 2. fst e = of_nat a
     \<and> (\<forall>p. p mod (2 * n) = s \<longrightarrow> a = p div n + 1 \<longrightarrow> (p, snd e) \<in> S \<and> p \<notin> D))"

definition claims128 :: "(nat \<Rightarrow> nat option) \<Rightarrow> nat \<Rightarrow> nat set \<Rightarrow> bool" where
  "claims128 f b U \<longleftrightarrow> (\<forall>i j p. f i = Some p \<longrightarrow> f j = Some p \<longrightarrow> i = j)
     \<and> (\<forall>i p. f i = Some p \<longrightarrow> p < b \<and> p \<notin> U) \<and> (\<forall>p \<in> U. p < b)"

definition faa128_cinv :: "nat \<Rightarrow> nat \<Rightarrow> faa128_label list \<Rightarrow> faa128_conf \<Rightarrow> bool" where
  "faa128_cinv k m ls c \<longleftrightarrow> faa128_static k (shared c) \<and> unat (head (shared c)) \<le> m \<and> unat (tail (shared c)) \<le> m
     \<and> (\<forall>s < 2 * 2 ^ k. slot128_ok (2 ^ k) m (set (xstores ls)) (fst ` set (xdelivs ls)) s (entry (buffer (shared c) ! s)))
     \<and> claims128 (\<lambda>i. enq_claim (pcs c i)) (unat (tail (shared c))) (fst ` set (xstores ls))
     \<and> claims128 (\<lambda>i. deq_claim (pcs c i)) (unat (head (shared c))) (fst ` set (xdelivs ls))
     \<and> (\<forall>i. pc128_ok (2 ^ k) (head (shared c)) (pcs c i))
     \<and> distinct (map fst (xstores ls)) \<and> distinct (map fst (xdelivs ls)) \<and> set (xdelivs ls) \<subseteq> set (xstores ls)"

definition faa128_bound :: nat where
  "faa128_bound = 2 ^ 62"

section \<open>Preservation\<close>

lemma claims128_mono:
  assumes "claims128 f b U" and "\<And>i. f' i = f i \<or> f' i = None" and "b \<le> b'"
  shows "claims128 f' b' U"
proof -
  have "f i = Some p" if "f' i = Some p" for i p using assms(2) [of i] that by auto
  then show ?thesis using assms(1,3) unfolding claims128_def by (meson le_trans less_le_trans)
qed

lemma claims128_new:
  assumes "claims128 f b U" and "f i = None"
  shows "claims128 (f(i := Some b)) (Suc b) U"
  using assms unfolding claims128_def by (auto simp: less_Suc_eq)

lemma claims128_use:
  assumes "claims128 f b U" and "f i = Some p"
  shows "claims128 (f(i := None)) b (insert p U)"
  using assms unfolding claims128_def by auto

lemma slot128_mono:
  assumes "slot128_ok n m S D s e" and "m \<le> m'" and "S \<subseteq> S'" and "\<And>p. p mod (2 * n) = s \<Longrightarrow> p \<in> D' \<Longrightarrow> p \<in> D"
  shows "slot128_ok n m' S' D' s e"
proof -
  from assms(1) obtain a where "a \<le> m + 2" "fst e = of_nat a"
    "\<forall>p. p mod (2 * n) = s \<longrightarrow> a = p div n + 1 \<longrightarrow> (p, snd e) \<in> S \<and> p \<notin> D"
    unfolding slot128_ok_def by blast
  with assms(2-) show ?thesis unfolding slot128_ok_def by (intro exI [of _ a]) auto
qed

lemma slot128_free:
  assumes "0 < n" and "p < m"
  shows "slot128_ok n m S D (p mod (2 * n)) (of_nat ((p + 2 * n) div n), v)"
proof -
  have a: "(p + 2 * n) div n = p div n + 2" using assms(1) by (metis div_mult_self2 add.commute less_irrefl mult.commute)
  have "p div n \<le> p" by (rule div_le_dividend)
  then have "p div n + 2 \<le> m + 2" using assms(2) by linarith
  then show ?thesis using same_slot_cycles(2) [of p n] assms(1) unfolding slot128_ok_def a
    by (intro exI [of _ "p div n + 2"]) (auto simp del: of_nat_add)
qed

lemma slot128_full:
  assumes "0 < n" and "p < m" and "(p, x) \<in> S" and "p \<notin> D"
  shows "slot128_ok n m S D (p mod (2 * n)) (of_nat (p div n + 1), x)"
proof -
  have "p div n \<le> p" by (rule div_le_dividend)
  then have "p div n + 1 \<le> m + 2" using assms(2) by linarith
  moreover have "r = p" if "r mod (2 * n) = p mod (2 * n)" "p div n + 1 = r div n + 1" for r
    using same_slot_cycles(1) [of r n p] that assms(1) by simp
  ultimately show ?thesis using assms(3,4) unfolding slot128_ok_def
    by (intro exI [of _ "p div n + 1"]) (auto simp del: of_nat_add)
qed

lemma slot128_taken:
  assumes "slot128_ok n m S D (p mod (2 * n)) e" and "fst e = of_nat (p div n + 1)" and "p < m" and "m \<le> faa128_bound"
  shows "(p, snd e) \<in> S" and "p \<notin> D"
proof -
  from assms(1) obtain a where a: "a \<le> m + 2" "fst e = of_nat a"
    "\<And>r. r mod (2 * n) = p mod (2 * n) \<Longrightarrow> a = r div n + 1 \<Longrightarrow> (r, snd e) \<in> S \<and> r \<notin> D"
    unfolding slot128_ok_def by blast
  have "p div n \<le> p" by (rule div_le_dividend)
  then have "p div n + 1 \<le> m" using assms(3) by linarith
  then have "a < 2 ^ 64" "p div n + 1 < 2 ^ 64" using a(1) assms(4) by (simp_all add: faa128_bound_def)
  then have "a = p div n + 1" using a(2) assms(2) by (metis unat_of_nat_u64 mod_less)
  with a(3) [OF refl] show "(p, snd e) \<in> S" "p \<notin> D" by simp_all
qed

lemma faa128_staticD:
  assumes "faa128_static k q"
  shows "unat (p AND mask_q q) = unat p mod (2 * 2 ^ k)" and "length (buffer q) = 2 * 2 ^ k"
    and "capacity q = 2 ^ k" and "size_q q = 2 ^ k * 2" and "capacity q \<noteq> 0"
proof -
  have k: "1 \<le> k" "k \<le> 61" "length (buffer q) = 2 * 2 ^ k" "mask_q q = 2 ^ k * 2 - 1" "capacity q = 2 ^ k" "size_q q = 2 ^ k * 2"
    using assms by (auto simp: faa128_static_def)
  show "unat (p AND mask_q q) = unat p mod (2 * 2 ^ k)" using faa_mask [OF k(1,2)] by (simp add: k faa_idx_def)
  show "length (buffer q) = 2 * 2 ^ k" "capacity q = 2 ^ k" "size_q q = 2 ^ k * 2" by fact+
  have "unat (2 ^ k :: u64) = 2 ^ k" by (rule faa_consts(1) [OF k(1,2)])
  then show "capacity q \<noteq> 0" using k by auto
qed

lemma faa128_cycles:
  assumes "faa128_static k q" and "unat p \<le> faa128_bound"
  shows "p div capacity q = of_nat (unat p div 2 ^ k)"
    and "p div capacity q + 1 = of_nat (unat p div 2 ^ k + 1)"
    and "(p + size_q q) div capacity q = of_nat ((unat p + 2 * 2 ^ k) div 2 ^ k)"
proof -
  have k: "1 \<le> k" "k \<le> 61" using assms(1) by (auto simp: faa128_static_def)
  have "unat p + 4 * 2 ^ k < 2 ^ 64" using assms(2) faa_consts(4) [OF k] by (simp add: faa128_bound_def)
  note c = faa_cycles [OF k this]
  show "p div capacity q = of_nat (unat p div 2 ^ k)"
    and "p div capacity q + 1 = of_nat (unat p div 2 ^ k + 1)"
    and "(p + size_q q) div capacity q = of_nat ((unat p + 2 * 2 ^ k) div 2 ^ k)"
    using c by (simp_all add: faa128_staticD(3,4) [OF assms(1)])
qed

lemma faa128_cinvD:
  assumes "faa128_cinv k m ls c"
  shows "faa128_static k (shared c)" and "unat (head (shared c)) \<le> m" and "unat (tail (shared c)) \<le> m"
    and "\<And>s. s < 2 * 2 ^ k \<Longrightarrow> slot128_ok (2 ^ k) m (set (xstores ls)) (fst ` set (xdelivs ls)) s (entry (buffer (shared c) ! s))"
    and "claims128 (\<lambda>i. enq_claim (pcs c i)) (unat (tail (shared c))) (fst ` set (xstores ls))"
    and "claims128 (\<lambda>i. deq_claim (pcs c i)) (unat (head (shared c))) (fst ` set (xdelivs ls))"
    and "\<And>i. pc128_ok (2 ^ k) (head (shared c)) (pcs c i)"
    and "distinct (map fst (xstores ls))" and "distinct (map fst (xdelivs ls))" and "set (xdelivs ls) \<subseteq> set (xstores ls)"
  using assms unfolding faa128_cinv_def by blast+

lemma pc128_ok_mono: "pc128_ok n h pc \<Longrightarrow> unat h \<le> unat h' \<Longrightarrow> pc128_ok n h' pc"
  by (cases pc) auto

text \<open>Steps that leave the slots alone.\<close>

lemma faa128_local:
  assumes inv: "faa128_cinv k m ls c" and st: "faa128_static k q'" and buf: "buffer q' = buffer (shared c)"
    and hd: "unat (head (shared c)) \<le> unat (head q')" "unat (head q') \<le> Suc m"
    and tl: "unat (tail (shared c)) \<le> unat (tail q')" "unat (tail q') \<le> Suc m"
    and ce: "enq_claim pc = None \<or> enq_claim pc = enq_claim (pcs c i)
       \<or> enq_claim (pcs c i) = None \<and> enq_claim pc = Some (unat (tail (shared c))) \<and> unat (tail q') = Suc (unat (tail (shared c)))"
    and cd: "deq_claim pc = None \<or> deq_claim pc = deq_claim (pcs c i)
       \<or> deq_claim (pcs c i) = None \<and> deq_claim pc = Some (unat (head (shared c))) \<and> unat (head q') = Suc (unat (head (shared c)))"
    and ok: "pc128_ok (2 ^ k) (head q') pc"
    and l: "xstores ls' = xstores ls" "xdelivs ls' = xdelivs ls"
  shows "faa128_cinv k (Suc m) ls' (c\<lparr>shared := q', pcs := (pcs c)(i := pc)\<rparr>)" (is "faa128_cinv k _ ls' ?c")
proof -
  note I = faa128_cinvD [OF inv]
  have pcs: "(\<lambda>j. f (pcs ?c j)) = (\<lambda>j. f (pcs c j))(i := f pc)" for f :: "faa128_pc \<Rightarrow> nat option" by auto
  have claims: "claims128 (f(i := v)) b' U"
    if "claims128 f b U" "b \<le> b'" "v = None \<or> v = f i \<or> f i = None \<and> v = Some b \<and> b' = Suc b" for f v b b' U
    using that(3)
  proof (elim disjE)
    assume "f i = None \<and> v = Some b \<and> b' = Suc b"
    then show ?thesis using claims128_new [OF that(1), of i] by simp
  qed (use claims128_mono [OF that(1) _ that(2), of "f(i := v)"] in auto)
  have "pc128_ok (2 ^ k) (head q') (pcs ?c j)" for j using ok pc128_ok_mono [OF I(7) hd(1)] by simp
  moreover have "slot128_ok (2 ^ k) (Suc m) (set (xstores ls)) (fst ` set (xdelivs ls)) s (entry (buffer q' ! s))"
    if "s < 2 * 2 ^ k" for s
    unfolding buf using I(4) [OF that] by (rule slot128_mono) auto
  moreover have "claims128 (\<lambda>j. enq_claim (pcs ?c j)) (unat (tail q')) (fst ` set (xstores ls))"
    unfolding pcs using I(5) tl(1) ce by (rule claims)
  moreover have "claims128 (\<lambda>j. deq_claim (pcs ?c j)) (unat (head q')) (fst ` set (xdelivs ls))"
    unfolding pcs using I(6) hd(1) cd by (rule claims)
  ultimately show ?thesis
    using st hd(2) tl(2) I(8-10) unfolding faa128_cinv_def l by simp
qed

text \<open>Steps that write one slot.\<close>

lemma faa128_write:
  assumes inv: "faa128_cinv k m ls c" and s: "s < 2 * 2 ^ k"
    and slot: "slot128_ok (2 ^ k) (Suc m) (set (xstores ls')) (fst ` set (xdelivs ls')) s e'"
    and S: "set (xstores ls) \<subseteq> set (xstores ls')"
    and D: "\<And>p. p mod (2 * 2 ^ k) \<noteq> s \<Longrightarrow> p \<in> fst ` set (xdelivs ls') \<Longrightarrow> p \<in> fst ` set (xdelivs ls)"
    and claims: "claims128 ((\<lambda>j. enq_claim (pcs c j))(i := enq_claim pc)) (unat (tail (shared c))) (fst ` set (xstores ls'))"
      "claims128 ((\<lambda>j. deq_claim (pcs c j))(i := deq_claim pc)) (unat (head (shared c))) (fst ` set (xdelivs ls'))"
    and ok: "pc128_ok (2 ^ k) (head (shared c)) pc"
    and dist: "distinct (map fst (xstores ls'))" "distinct (map fst (xdelivs ls'))" "set (xdelivs ls') \<subseteq> set (xstores ls')"
  shows "faa128_cinv k (Suc m) ls' (c\<lparr>shared := (shared c)\<lparr>buffer := (buffer (shared c))[s := \<lparr>entry = e'\<rparr>]\<rparr>,
    pcs := (pcs c)(i := pc)\<rparr>)" (is "faa128_cinv k _ ls' ?c")
proof -
  note I = faa128_cinvD [OF inv]
  have pcs: "(\<lambda>j. f (pcs ?c j)) = (\<lambda>j. f (pcs c j))(i := f pc)" for f :: "faa128_pc \<Rightarrow> nat option" by auto
  have "slot128_ok (2 ^ k) (Suc m) (set (xstores ls')) (fst ` set (xdelivs ls')) r (entry (buffer (shared ?c) ! r))"
    if r: "r < 2 * 2 ^ k" for r
  proof (cases "r = s")
    case True
    then show ?thesis using slot s faa128_staticD(2) [OF I(1)] by simp
  next
    case False
    have "slot128_ok (2 ^ k) (Suc m) (set (xstores ls')) (fst ` set (xdelivs ls')) r (entry (buffer (shared c) ! r))"
      using I(4) [OF r] by (rule slot128_mono) (use S D False in auto)
    with False show ?thesis by simp
  qed
  moreover have "pc128_ok (2 ^ k) (head (shared c)) (pcs ?c j)" for j using ok I(7) by simp
  ultimately show ?thesis
    using I(1-3) claims dist unfolding faa128_cinv_def pcs by (simp add: faa128_static_def)
qed

lemma faa128_store:
  assumes inv: "faa128_cinv k m ls c" and pc: "pcs c i = XECas x p e"
  shows "faa128_cinv k (Suc m) (ls @ [XStored (unat p) x])
    (c\<lparr>shared := (shared c)\<lparr>buffer := (buffer (shared c))[unat p mod (2 * 2 ^ k) := \<lparr>entry = (fst e + 1, x)\<rparr>]\<rparr>,
       pcs := (pcs c)(i := XEThreshold)\<rparr>)"
proof (rule faa128_write [OF inv])
  note I = faa128_cinvD [OF inv]
  have cl: "enq_claim (pcs c i) = Some (unat p)" and e: "fst e = of_nat (unat p div 2 ^ k)"
    using I(7) [of i] by (simp_all add: pc)
  have p: "unat p < unat (tail (shared c))" "unat p \<notin> fst ` set (xstores ls)"
    using I(5) cl unfolding claims128_def by blast+
  have nd: "unat p \<notin> fst ` set (xdelivs ls)" using p(2) I(10) by auto
  show "slot128_ok (2 ^ k) (Suc m) (set (xstores (ls @ [XStored (unat p) x]))) (fst ` set (xdelivs (ls @ [XStored (unat p) x])))
      (unat p mod (2 * 2 ^ k)) (fst e + 1, x)"
    using slot128_full [of "2 ^ k" "unat p" "Suc m" x] p(1) I(3) nd by (simp add: e add.commute)
  show "claims128 ((\<lambda>j. enq_claim (pcs c j))(i := enq_claim XEThreshold)) (unat (tail (shared c)))
      (fst ` set (xstores (ls @ [XStored (unat p) x])))"
    using claims128_use [OF I(5) cl] by simp
  show "claims128 ((\<lambda>j. deq_claim (pcs c j))(i := deq_claim XEThreshold)) (unat (head (shared c)))
      (fst ` set (xdelivs (ls @ [XStored (unat p) x])))"
    using claims128_mono [OF I(6) _ order_refl] by simp
  show "distinct (map fst (xstores (ls @ [XStored (unat p) x])))" using I(8) p(2) by simp
  show "distinct (map fst (xdelivs (ls @ [XStored (unat p) x])))" using I(9) by simp
  show "set (xdelivs (ls @ [XStored (unat p) x])) \<subseteq> set (xstores (ls @ [XStored (unat p) x]))" using I(10) by auto
qed auto

lemma faa128_deliver:
  assumes inv: "faa128_cinv k m ls c" and pc: "pcs c i = XDCas p e" and m: "m < faa128_bound"
    and e: "entry (buffer (shared c) ! (unat p mod (2 * 2 ^ k))) = e"
  shows "faa128_cinv k (Suc m) (ls @ [XDelivered (unat p) (snd e)])
    (c\<lparr>shared := (shared c)\<lparr>buffer := (buffer (shared c))
        [unat p mod (2 * 2 ^ k) := \<lparr>entry = (of_nat ((unat p + 2 * 2 ^ k) div 2 ^ k), 0)\<rparr>]\<rparr>,
       pcs := (pcs c)(i := XIdle)\<rparr>)" (is "faa128_cinv k _ ?ls _")
proof (rule faa128_write [OF inv])
  note I = faa128_cinvD [OF inv]
  have cl: "deq_claim (pcs c i) = Some (unat p)" and fe: "fst e = of_nat (unat p div 2 ^ k + 1)"
    using I(7) [of i] by (simp_all add: pc)
  have p: "unat p < unat (head (shared c))" "unat p \<notin> fst ` set (xdelivs ls)"
    using I(6) cl unfolding claims128_def by blast+
  have pm: "unat p < m" using p(1) I(2) by simp
  have "slot128_ok (2 ^ k) m (set (xstores ls)) (fst ` set (xdelivs ls)) (unat p mod (2 * 2 ^ k)) e"
    using I(4) [of "unat p mod (2 * 2 ^ k)"] e by simp
  from slot128_taken(1) [OF this fe pm] m have st: "(unat p, snd e) \<in> set (xstores ls)" by simp
  show "slot128_ok (2 ^ k) (Suc m) (set (xstores ?ls)) (fst ` set (xdelivs ?ls))
      (unat p mod (2 * 2 ^ k)) (of_nat ((unat p + 2 * 2 ^ k) div 2 ^ k), 0)"
    using slot128_free [of "2 ^ k" "unat p" "Suc m"] pm by simp
  show "claims128 ((\<lambda>j. enq_claim (pcs c j))(i := enq_claim XIdle)) (unat (tail (shared c))) (fst ` set (xstores ?ls))"
    using claims128_mono [OF I(5) _ order_refl] by simp
  show "claims128 ((\<lambda>j. deq_claim (pcs c j))(i := deq_claim XIdle)) (unat (head (shared c))) (fst ` set (xdelivs ?ls))"
    using claims128_use [OF I(6) cl] by simp
  show "distinct (map fst (xstores ?ls))" using I(8) by simp
  show "distinct (map fst (xdelivs ?ls))" using I(9) p(2) by simp
  show "set (xdelivs ?ls) \<subseteq> set (xstores ?ls)" using I(10) st by simp
qed auto

lemma faa128_repair:
  assumes inv: "faa128_cinv k m ls c" and pc: "pcs c i = XDRepair p e"
  shows "faa128_cinv k (Suc m) ls
    (c\<lparr>shared := (shared c)\<lparr>buffer := (buffer (shared c))
        [unat p mod (2 * 2 ^ k) := \<lparr>entry = (of_nat ((unat p + 2 * 2 ^ k) div 2 ^ k), 0)\<rparr>]\<rparr>,
       pcs := (pcs c)(i := XDTail p)\<rparr>)"
proof (rule faa128_write [OF inv])
  note I = faa128_cinvD [OF inv]
  have p: "unat p < unat (head (shared c))" using I(7) [of i] by (simp add: pc)
  then show "slot128_ok (2 ^ k) (Suc m) (set (xstores ls)) (fst ` set (xdelivs ls))
      (unat p mod (2 * 2 ^ k)) (of_nat ((unat p + 2 * 2 ^ k) div 2 ^ k), 0)"
    using slot128_free [of "2 ^ k" "unat p" "Suc m"] I(2) by simp
  show "claims128 ((\<lambda>j. enq_claim (pcs c j))(i := enq_claim (XDTail p))) (unat (tail (shared c))) (fst ` set (xstores ls))"
    using claims128_mono [OF I(5) _ order_refl] by simp
  show "claims128 ((\<lambda>j. deq_claim (pcs c j))(i := deq_claim (XDTail p))) (unat (head (shared c))) (fst ` set (xdelivs ls))"
    using claims128_mono [OF I(6) _ order_refl] by simp
  show "pc128_ok (2 ^ k) (head (shared c)) (XDTail p)" using p by simp
qed (use faa128_cinvD(8-10) [OF inv] in auto)

context atomix_sem
begin

lemma faa128_claim_bound:
  assumes "faa128_cinv k m ls c" and "m < faa128_bound"
    and "enq_claim (pcs c i) = Some (unat p) \<or> deq_claim (pcs c i) = Some (unat p) \<or> unat p < unat (head (shared c))"
  shows "unat p \<le> faa128_bound"
  using assms(2,3) faa128_cinvD(2,3,5,6) [OF assms(1)] unfolding claims128_def by (meson le_trans less_imp_le_nat)

text \<open>The three compare-and-swaps on a slot.\<close>

lemma faa128_swap_inv:
  assumes inv: "faa128_cinv k m ls c" and m: "m < faa128_bound"
    and step: "MPMCIndirect_step A (pcs c i) (shared c) = ret (l, pc', q')"
    and pc: "(\<exists>x. pcs c i = XECas x p e) \<or> pcs c i = XDCas p e \<or> pcs c i = XDRepair p e"
  shows "faa128_cinv k (Suc m) (append_label ls l) (c\<lparr>shared := q', pcs := (pcs c)(i := pc')\<rparr>)"
proof -
  note I = faa128_cinvD [OF inv] and idx = faa128_staticD [OF faa128_cinvD(1) [OF inv]]
  let ?q = "shared c" and ?r = "unat p mod (2 * 2 ^ k)"
  have slot: "?r < length (buffer ?q)" by (simp add: idx(2))
  have nop: "(buffer ?q)[?r := \<lparr>entry = entry (buffer ?q ! ?r)\<rparr>] = buffer ?q"
    by (metis (full_types) list_update_id mpmc128Slot.surjective old.unit.exhaust)
  have "unat p \<le> faa128_bound" using pc I(7) [of i] by (intro faa128_claim_bound [OF inv m, of i]) auto
  note cy = faa128_cycles(3) [OF I(1) this]
  show ?thesis
  proof (cases "entry (buffer ?q ! ?r) = e")
    case True
    note sw = Let_def idx(1) slot rmw
    from pc show ?thesis
    proof (elim disjE exE)
      fix x assume "pcs c i = XECas x p e"
      with faa128_store [OF inv this] True step show ?thesis by (auto simp: sw)
    next
      assume "pcs c i = XDCas p e"
      with faa128_deliver [OF inv this m True] True step cy idx(5) show ?thesis by (auto simp: sw)
    next
      assume "pcs c i = XDRepair p e"
      with faa128_repair [OF inv this] True step cy idx(5) show ?thesis by (auto simp: sw)
    qed
  next
    case False
    have "q' = ?q" "enq_claim pc' = None" "deq_claim pc' = None" "pc128_ok (2 ^ k) (head ?q) pc'" "l = None"
      using False pc step idx(5) I(7) [of i] by (auto simp: Let_def idx(1) slot rmw nop)
    then show ?thesis using faa128_local [OF inv I(1) refl, of pc' i ls] I(2,3) by simp
  qed
qed

lemma faa128_run_inv:
  assumes inv: "faa128_cinv k m ls c" and m: "m < faa128_bound"
    and step: "MPMCIndirect_step A (pcs c i) (shared c) = ret (l, pc', q')"
  shows "faa128_cinv k (Suc m) (append_label ls l) (c\<lparr>shared := q', pcs := (pcs c)(i := pc')\<rparr>)"
proof -
  note I = faa128_cinvD [OF inv] and idx = faa128_staticD [OF faa128_cinvD(1) [OF inv]]
  let ?q = "shared c"
  have t1: "unat (tail ?q + 1) = Suc (unat (tail ?q))" and h1: "unat (head ?q + 1) = Suc (unat (head ?q))"
    using I(2,3) m by (simp_all add: unat_Suc_no_wrap faa128_bound_def)
  have st: "faa128_static k (?q\<lparr>tail := t\<rparr>)" "faa128_static k (?q\<lparr>head := t\<rparr>)" "faa128_static k (?q\<lparr>threshold := t\<rparr>)"
    "faa128_static k ?q" for t
    using I(1) by (simp_all add: faa128_static_def)
  have slot: "r mod (2 * 2 ^ k) < length (buffer ?q)" for r by (simp add: idx(2))
  note local = faa128_local [OF inv, of q' pc' i "append_label ls l"] and bound = faa128_claim_bound [OF inv m, of i]
  show ?thesis
  proof (cases "pcs c i")
    case (XELoad x p)
    with step I(2,3) show ?thesis
      by (intro local) (auto simp: Let_def idx slot faa128_cycles(1) [OF I(1) bound, of p, unfolded idx(3)] st split: if_splits)
  next
    case (XDLoad p)
    have "unat p < unat (head ?q)" using I(6) XDLoad unfolding claims128_def by (metis deq_claim.simps(1))
    with XDLoad step I(2,3) show ?thesis
      by (intro local) (auto simp: Let_def idx slot faa128_cycles(2) [OF I(1) bound, of p, unfolded idx(3)] st split: if_splits)
  next
    case (XDTail p)
    have p: "unat p < unat (head ?q)" using I(7) [of i] XDTail by simp
    then have "unat (p + 1) = Suc (unat p)" using I(2) m by (simp add: unat_Suc_no_wrap faa128_bound_def)
    with p XDTail step I(2,3) show ?thesis
      by (intro local) (auto simp: Let_def catchup128_pc_def word_less_nat_alt st split: if_splits)
  next
    case (XCCas t h)
    with step I(2,3) I(7) [of i] show ?thesis by (intro local) (auto simp: rmw st split: if_splits)
  qed (use step I(2,3) t1 h1 faa128_swap_inv [OF inv m step] in
      \<open>(blast | intro local; auto simp: rmw catchup128_pc_def word_less_nat_alt st split: if_splits)\<close>)+
qed

lemma faa128_step_inv:
  assumes "faa128_cinv k m ls c" and "m < faa128_bound" and "faa128_step A c l c'"
  shows "faa128_cinv k (Suc m) (append_label ls l) c'"
  using assms(3)
proof cases
  case (faa128_call_Enqueue i x)
  then show ?thesis using faa128_local [OF assms(1), of "shared c" "XETail x" i ls] faa128_cinvD(1-3) [OF assms(1)] by simp
next
  case (faa128_call_Dequeue i)
  then show ?thesis using faa128_local [OF assms(1), of "shared c" XDDraining i ls] faa128_cinvD(1-3) [OF assms(1)] by simp
next
  case faa128_call_Drain
  have "pcs c = (pcs c)(0 := pcs c 0)" by simp
  then show ?thesis
    using faa128_local [OF assms(1), of "MPMCIndirect_Drain (shared c)" "pcs c 0" 0 ls] faa128_cinvD [OF assms(1)] faa128_call_Drain
    by (simp add: MPMCIndirect_Drain_def faa128_static_def)
next
  case (faa128_run i pc q)
  then show ?thesis using faa128_run_inv [OF assms(1,2)] by simp
qed

lemma faa128_exec_inv:
  assumes "exec (faa128_step A) c0 m ls c" and "faa128_cinv k 0 [] c0" and "m \<le> faa128_bound"
  shows "faa128_cinv k m ls c"
  by (rule exec_trace_invariant [of _ _ _ _ _ "faa128_cinv k", OF assms faa128_step_inv])

end

lemma faa128_init_cinv:
  assumes "NewMPMCIndirect c = ret q" and "2 \<le> sint c" and "sint c \<le> 2 ^ 61"
  shows "\<exists>k. faa128_cinv k 0 [] (faa128_init q)"
proof -
  from NewMPMCIndirect_ok [OF assms(2,3)] assms(1) have "mpmc_inv (2 ^ 62) (faa128_abs q)" by auto
  then obtain k where k: "mpmc_shape k (faa128_abs q)" by (auto simp: mpmc_inv_def)
  have z: "head q = 0" "tail q = 0" using assms(1,2) by (auto simp: NewMPMCIndirect_def Let_def go_simps)
  note S = faa128_shapeD(1) [OF k] and D = faa_okD [OF faa128_shapeD(1) [OF k]]
  have st: "faa128_static k q" using k D by (auto simp: mpmc_shape_def faa128_static_def)
  have r: "faa_ring (2 ^ k) 0 0 (\<lambda>i. cycle (map faa128_slot (buffer q) ! i))" using S z by (simp add: faa_ok_def)
  have "slot128_ok (2 ^ k) 0 {} {} s (entry (buffer q ! s))" if s: "s < 2 * 2 ^ k" for s
  proof -
    have "fst (entry (buffer q ! s)) = of_nat (s div 2 ^ k)"
      using faa_ringD [OF r s] s faa128_staticD(2) [OF st] by (simp add: faa128_slot_def)
    moreover have "s div 2 ^ k < 2" using s by (simp add: div_less_iff_less_mult)
    moreover have "s div 2 ^ k \<noteq> p div 2 ^ k + 1" if "p mod (2 * 2 ^ k) = s" for p
      using first_lap_cycle [OF that] by simp
    ultimately show ?thesis unfolding slot128_ok_def by (intro exI [of _ "s div 2 ^ k"]) auto
  qed
  then have "faa128_cinv k 0 [] (faa128_init q)"
    using st z by (simp add: faa128_cinv_def faa128_init_def claims128_def)
  then show ?thesis ..
qed

section \<open>A call alone\<close>

fun faa128_enq_result :: "faa128_label option \<Rightarrow> err option" where
  "faa128_enq_result (Some (XStored p x)) = None"
| "faa128_enq_result _ = Some ErrWouldBlock"

fun faa128_deq_result :: "faa128_label option \<Rightarrow> u64 \<times> err option" where
  "faa128_deq_result (Some (XDelivered p x)) = (x, None)"
| "faa128_deq_result _ = (0, Some ErrWouldBlock)"

context atomix_sem
begin

lemma MPMCIndirect_Enqueue_steps:
  assumes "mpmc_shape k (faa128_abs q)" and "unat (tail q) + 1 + 4 * 2 ^ k < 2 ^ 64"
  shows "go_bind (run_alone (MPMCIndirect_step A) XIdle None (XETail x) q) (\<lambda>(l, q'). ret (faa128_enq_result l, q'))
     = MPMCIndirect_Enqueue A x q"
proof (cases "unat (tail q) < unat (head q) + 2 ^ k")
  case True
  note S = faa128_shapeD [OF assms(1)]
  from faa128_at_tail [OF assms True] obtain v
    where "entry (buffer q ! faa_idx k (tail q)) = (tail q div 2 ^ k, v)" .
  with True faa_full_test [OF S(1)] show ?thesis
    by (subst MPMCIndirect_Enqueue.simps) (simp add: run_alone_simps Let_def S rmw)
next
  case False
  with faa_full_test [OF faa128_shapeD(1) [OF assms(1)]] faa128_shapeD(2) [OF assms(1)] show ?thesis
    by (subst MPMCIndirect_Enqueue.simps) (simp add: run_alone_simps Let_def)
qed

lemma MPMCIndirect_Dequeue_steps:
  assumes "mpmc_shape k (faa128_abs q)"
  shows "go_bind (run_alone (MPMCIndirect_step A) XIdle None XDDraining q) (\<lambda>(l, q'). ret (faa128_deq_result l, q'))
     = MPMCIndirect_Dequeue A q"
proof -
  note S = faa128_shapeD [OF assms] and D = faa_okD [OF faa128_shapeD(1) [OF assms]]
  note c = faa_cycles [OF D(1,2,7)]
  have lt: "h < h + 1" "h \<le> h + 1" if "h = head q" for h
    using faa_succ [OF D(7)] that by (simp_all add: word_less_nat_alt word_le_nat_alt)
  from faa128_at_head [OF assms] obtain v where v: "entry (buffer q ! faa_idx k (head q))
    = (if unat (head q) < unat (tail q) then head q div 2 ^ k + 1 else head q div 2 ^ k, v)" .
  show ?thesis
  proof (cases "unat (head q) < unat (tail q)")
    case True
    with v show ?thesis unfolding MPMCIndirect_Dequeue_def
      by (subst MPMCIndirect_Dequeue_loop.simps) (simp add: run_alone_simps Let_def S rmw)
  next
    case False
    then have e: "tail q = head q" using faa_empty_iff(2) [OF S(1)] by simp
    with False v c(4,5) lt [OF refl] show ?thesis unfolding MPMCIndirect_Dequeue_def
      by (subst MPMCIndirect_Dequeue_loop.simps)
        (simp add: run_alone_simps Let_def S rmw catchup128_pc_def MPMCIndirect_catchup_eq)
  qed
qed

end

section \<open>Executing an interleaving\<close>

datatype faa128_move = XEnqueue nat u64 | XDequeue nat | XRun nat

fun faa128_do :: "atomix \<Rightarrow> faa128_move \<Rightarrow> faa128_conf \<Rightarrow> (faa128_label option \<times> faa128_conf) option" where
  "faa128_do A (XEnqueue i x) c = (if pcs c i = XIdle then Some (None, c\<lparr>pcs := (pcs c)(i := XETail x)\<rparr>) else None)"
| "faa128_do A (XDequeue i) c = (if pcs c i = XIdle then Some (None, c\<lparr>pcs := (pcs c)(i := XDDraining)\<rparr>) else None)"
| "faa128_do A (XRun i) c =
     (if pcs c i \<noteq> XIdle then
        (case MPMCIndirect_step A (pcs c i) (shared c) of
           Some (Inr (l, pc, q)) \<Rightarrow> Some (l, c\<lparr>shared := q, pcs := (pcs c)(i := pc)\<rparr>) | _ \<Rightarrow> None) else None)"

lemma faa128_do_step: "faa128_do A mv c = Some (l, c') \<Longrightarrow> faa128_step A c l c'"
  by (cases mv) (auto intro: faa128_step.intros split: if_splits option.splits sum.splits)

lemma faa128_sched_exec:
  "sched (faa128_do A) mvs c0 = Some (ls, c) \<Longrightarrow> length mvs = n \<Longrightarrow> exec (faa128_step A) c0 n ls c"
  using sched_init_exec [of "faa128_do A" mvs c0 ls c "faa128_step A", OF _ faa128_do_step] by simp

lemma NewMPMCIndirect_2:
  "NewMPMCIndirect 2 = ret \<lparr>tail = 0, head = 0, threshold = 5, draining = False,
     buffer = [\<lparr>entry = (0, 0)\<rparr>, \<lparr>entry = (0, 0)\<rparr>, \<lparr>entry = (1, 0)\<rparr>, \<lparr>entry = (1, 0)\<rparr>],
     capacity = 2, size_q = 4, mask_q = 3\<rparr>"
proof -
  have "[0..<4] = [0, 1, 2, 3]" by (simp add: upt_rec)
  moreover have "replicate 4 z = [z, z, z, z]" for z :: mpmc128Slot by (simp add: numeral_eq_Suc)
  moreover have "(of_nat 2 :: u64) div 2 = 1" "(of_nat 3 :: u64) div 2 = 1" "(of_nat 1 :: u64) div 2 = 0" by code_simp+
  ultimately show ?thesis by (simp add: roundToPow2_2 NewMPMCIndirect_def make_slice_def)
qed

text \<open>
  A consumer claims position 0 and stalls; another one polls the queue, which looks empty to it,
  until it has gone once around the ring and repairs the slot that holds the value.
\<close>

definition lap_moves :: "u64 \<Rightarrow> faa128_move list" where
  "lap_moves x = XEnqueue 0 x # replicate 6 (XRun 0) @ [XDequeue 1, XRun 1, XRun 1, XRun 1]
     @ concat (replicate 4 (XDequeue 2 # replicate 8 (XRun 2))) @ replicate 7 (XRun 1)"

context atomix_sem
begin

lemma faa128_lost:
  assumes "NewMPMCIndirect 2 = ret q"
  shows "sched (faa128_do A) (lap_moves x) (faa128_init q)
     = Some ([XStored 0 x, XEmpty, XEmpty, XEmpty, XEmpty, XEmpty],
        \<lparr>shared = \<lparr>tail = 6, head = 6, threshold = 0, draining = False,
           buffer = [\<lparr>entry = (4, 0)\<rparr>, \<lparr>entry = (4, 0)\<rparr>, \<lparr>entry = (3, 0)\<rparr>, \<lparr>entry = (3, 0)\<rparr>],
           capacity = 2, size_q = 4, mask_q = 3\<rparr>, pcs = (\<lambda>_. XIdle)\<rparr>)"
proof -
  from assms have "q = \<lparr>tail = 0, head = 0, threshold = 5, draining = False,
     buffer = [\<lparr>entry = (0, 0)\<rparr>, \<lparr>entry = (0, 0)\<rparr>, \<lparr>entry = (1, 0)\<rparr>, \<lparr>entry = (1, 0)\<rparr>],
     capacity = 2, size_q = 4, mask_q = 3\<rparr>" by (simp add: NewMPMCIndirect_2)
  moreover have "replicate 6 mv = [mv, mv, mv, mv, mv, mv]" "replicate 7 mv = [mv, mv, mv, mv, mv, mv, mv]"
    "replicate 8 mv = [mv, mv, mv, mv, mv, mv, mv, mv]" "replicate 4 mvs = [mvs, mvs, mvs, mvs]"
    for mv :: faa128_move and mvs :: "faa128_move list"
    by (simp_all add: numeral_eq_Suc)
  ultimately show ?thesis by (simp add: faa128_init_def lap_moves_def catchup128_pc_def Let_def rmw fun_eq_iff)
qed

lemma faa128_lost_polls:
  "polls_fail (MPMCIndirect_Dequeue A) 0 \<lparr>tail = 6, head = 6, threshold = 0, draining = False,
     buffer = [\<lparr>entry = (4, 0)\<rparr>, \<lparr>entry = (4, 0)\<rparr>, \<lparr>entry = (3, 0)\<rparr>, \<lparr>entry = (3, 0)\<rparr>],
     capacity = 2, size_q = 4, mask_q = 3\<rparr>"
  by (rule polls_fail_step [OF _ polls_fail_stuck])
    (simp add: MPMCIndirect_Dequeue_def MPMCIndirect_Dequeue_loop.simps MPMCIndirect_catchup.simps Let_def rmw)+

end

end
