(* ===== verification/Faa128_Spmc.thy ===== *)
theory Faa128_Spmc
  imports Faa128_Concurrent Goroutines
begin

text \<open>
  \<open>SPMCIndirect\<close> (\<open>spmc_128.go\<close>) with its single producer, goroutine \<open>0\<close>, and any number of consumers;
  \<open>SPMCPtr\<close> has the same code. The producer writes its entry with a plain store, and \<open>tail\<close> after it,
  so \<open>tail\<close> can fall back behind what the consumers made of it. Its states are read as states of
  \<open>MPMCIndirect\<close> with another value of \<open>tail\<close>: the number of positions that the producer has used. As
  there, no value is delivered twice or invented, and values can get lost.
\<close>

section \<open>Atomic steps\<close>

datatype spmci_pc = YIdle
  | YETail u64 | YEHead u64 u64 | YELoad u64 u64 | YEStore u64 u64 | YEAdvance u64 u64 | YEThreshold u64
  | YDDraining | YDThreshold | YDAdd | YDLoad u64 | YDCas u64 "u64 \<times> u64" | YDRepair u64 "u64 \<times> u64"
  | YDTail u64 | YDCount | YDDrained | YDLower
  | YCCas u64 u64 | YCTail | YCHead u64

definition spmci_catchup_pc :: "u64 \<Rightarrow> u64 \<Rightarrow> spmci_pc" where
  "spmci_catchup_pc t h = (if t < h then YCCas t h else YDLower)"

fun SPMCIndirect_step :: "atomix \<Rightarrow> spmci_pc \<Rightarrow> SPMCIndirect
    \<Rightarrow> (faa128_label option \<times> spmci_pc \<times> SPMCIndirect) go" where
  "SPMCIndirect_step A YIdle q = ret (None, YIdle, q)"
| "SPMCIndirect_step A (YETail elem) q = ret (None, YEHead elem (tail q), q)"
| "SPMCIndirect_step A (YEHead elem t) q =
     (if t \<ge> head q + capacity q then ret (Some XFull, YIdle, q) else ret (None, YELoad elem t, q))"
| "SPMCIndirect_step A (YELoad elem t) q =
     (if capacity q = 0 then panics DivideByZero
      else let i = unat (t AND mask_q q)
        in if \<not> i < length (buffer q) then panics IndexOutOfRange
           else if fst (entry (buffer q ! i)) \<noteq> t div capacity q then ret (Some XFull, YIdle, q)
           else ret (None, YEStore elem t, q))"
| "SPMCIndirect_step A (YEStore elem t) q =
     (let i = unat (t AND mask_q q)
      in if \<not> i < length (buffer q) then panics IndexOutOfRange
         else if capacity q = 0 then panics DivideByZero
         else ret (Some (XStored (unat t) elem), YEAdvance elem t,
                q\<lparr>buffer := (buffer q)[i := \<lparr>entry = (t div capacity q + 1, elem)\<rparr>]\<rparr>))"
| "SPMCIndirect_step A (YEAdvance elem t) q = ret (None, YEThreshold elem, q\<lparr>tail := t + 1\<rparr>)"
| "SPMCIndirect_step A (YEThreshold elem) q = ret (None, YIdle, q\<lparr>threshold := 3 * capacity q - 1\<rparr>)"
| "SPMCIndirect_step A YDDraining q = ret (None, if draining q then YDAdd else YDThreshold, q)"
| "SPMCIndirect_step A YDThreshold q =
     (if sint (threshold q) < 0 then ret (Some XEmpty, YIdle, q) else ret (None, YDAdd, q))"
| "SPMCIndirect_step A YDAdd q =
     (case Add64 A (head q) 1 of (added, cell) \<Rightarrow> ret (None, YDLoad (added - 1), q\<lparr>head := cell\<rparr>))"
| "SPMCIndirect_step A (YDLoad myHead) q =
     (let i = unat (myHead AND mask_q q)
      in if \<not> i < length (buffer q) then panics IndexOutOfRange
         else if capacity q = 0 then panics DivideByZero
         else let expectedCycle = myHead div capacity q + 1; slotCycle = fst (entry (buffer q ! i))
           in if slotCycle = expectedCycle then ret (None, YDCas myHead (entry (buffer q ! i)), q)
              else if sint slotCycle < sint expectedCycle then ret (None, YDRepair myHead (entry (buffer q ! i)), q)
              else ret (None, YDAdd, q))"
| "SPMCIndirect_step A (YDCas myHead e) q =
     (let i = unat (myHead AND mask_q q)
      in if \<not> i < length (buffer q) then panics IndexOutOfRange
         else if capacity q = 0 then panics DivideByZero
         else (case CompareAndSwap128 A (entry (buffer q ! i)) e ((myHead + size_q q) div capacity q, 0) of (swapped, cell) \<Rightarrow>
           let q = q\<lparr>buffer := (buffer q)[i := \<lparr>entry = cell\<rparr>]\<rparr>
           in if swapped then ret (Some (XDelivered (unat myHead) (snd e)), YIdle, q) else ret (None, YDAdd, q)))"
| "SPMCIndirect_step A (YDRepair myHead e) q =
     (let i = unat (myHead AND mask_q q)
      in if \<not> i < length (buffer q) then panics IndexOutOfRange
         else if capacity q = 0 then panics DivideByZero
         else let repaired = snd (CompareAndSwap128 A (entry (buffer q ! i)) e ((myHead + size_q q) div capacity q, 0))
           in ret (None, YDTail myHead, q\<lparr>buffer := (buffer q)[i := \<lparr>entry = repaired\<rparr>]\<rparr>))"
| "SPMCIndirect_step A (YDTail myHead) q =
     (let t = tail q
      in if t \<le> myHead + 1 then ret (None, spmci_catchup_pc t (myHead + 1), q) else ret (None, YDCount, q))"
| "SPMCIndirect_step A YDCount q =
     (case AddInt64 A (threshold q) (- 1) of (left, cell) \<Rightarrow>
        ret (None, if sint left \<le> 0 then YDDrained else YDAdd, q\<lparr>threshold := cell\<rparr>))"
| "SPMCIndirect_step A YDDrained q =
     (if draining q then ret (None, YDAdd, q) else ret (Some XEmpty, YIdle, q))"
| "SPMCIndirect_step A YDLower q =
     ret (Some XEmpty, YIdle, q\<lparr>threshold := snd (AddInt64 A (threshold q) (- 1))\<rparr>)"
| "SPMCIndirect_step A (YCCas t h) q =
     (case CompareAndSwap64 A (tail q) t h of (swapped, cell) \<Rightarrow>
        ret (None, if swapped then YDLower else YCTail, q\<lparr>tail := cell\<rparr>))"
| "SPMCIndirect_step A YCTail q = ret (None, YCHead (tail q), q)"
| "SPMCIndirect_step A (YCHead t) q = ret (None, spmci_catchup_pc t (head q), q)"

text \<open>\<open>Drain\<close> may be called at any moment.\<close>

definition spmci_step :: "atomix \<Rightarrow> (SPMCIndirect, spmci_pc) goroutines \<Rightarrow> faa128_label option
    \<Rightarrow> (SPMCIndirect, spmci_pc) goroutines \<Rightarrow> bool" where
  "spmci_step A c l c' \<longleftrightarrow> go_step (SPMCIndirect_step A) YIdle YETail YDDraining (\<lambda>i. i = 0) (\<lambda>_. True) c l c'
     \<or> l = None \<and> c' = c\<lparr>memory := SPMCIndirect_Drain (memory c)\<rparr>"

lemma spmci_sched_exec:
  assumes "sched (go_do (SPMCIndirect_step A) YIdle YETail YDDraining (\<lambda>i. i = 0) (\<lambda>_. True)) mvs c0 = Some (ls, c)"
    and "length mvs = n"
  shows "exec (spmci_step A) c0 n ls c"
proof -
  have "spmci_step A d l d'"
    if "go_do (SPMCIndirect_step A) YIdle YETail YDDraining (\<lambda>i. i = 0) (\<lambda>_. True) mv d = Some (l, d')" for mv d l d'
    using go_do_step [OF that] by (simp add: spmci_step_def)
  from sched_init_exec [OF assms(1) this] assms(2) show ?thesis by simp
qed

section \<open>As configurations of \<open>MPMCIndirect\<close>\<close>

fun spmci_pc_abs :: "u64 \<Rightarrow> spmci_pc \<Rightarrow> faa128_pc" where
  "spmci_pc_abs n YIdle = XIdle"
| "spmci_pc_abs n (YETail x) = XETail x"
| "spmci_pc_abs n (YEHead x t) = XEHead x t"
| "spmci_pc_abs n (YELoad x t) = XETail x"
| "spmci_pc_abs n (YEStore x t) = XECas x t (t div n, 0)"
| "spmci_pc_abs n (YEAdvance x t) = XEThreshold"
| "spmci_pc_abs n (YEThreshold x) = XEThreshold"
| "spmci_pc_abs n YDDraining = XDDraining"
| "spmci_pc_abs n YDThreshold = XDThreshold"
| "spmci_pc_abs n YDAdd = XDAdd"
| "spmci_pc_abs n (YDLoad h) = XDLoad h"
| "spmci_pc_abs n (YDCas h e) = XDCas h e"
| "spmci_pc_abs n (YDRepair h e) = XDRepair h e"
| "spmci_pc_abs n (YDTail h) = XDTail h"
| "spmci_pc_abs n YDCount = XDCount"
| "spmci_pc_abs n YDDrained = XDDrained"
| "spmci_pc_abs n YDLower = XDLower"
| "spmci_pc_abs n (YCCas t h) = XCCas t h"
| "spmci_pc_abs n YCTail = XCTail"
| "spmci_pc_abs n (YCHead t) = XCHead t"

fun spmci_producing :: "spmci_pc \<Rightarrow> bool" where
  "spmci_producing (YETail x) \<longleftrightarrow> True"
| "spmci_producing (YEHead x t) \<longleftrightarrow> True"
| "spmci_producing (YELoad x t) \<longleftrightarrow> True"
| "spmci_producing (YEStore x t) \<longleftrightarrow> True"
| "spmci_producing (YEAdvance x t) \<longleftrightarrow> True"
| "spmci_producing (YEThreshold x) \<longleftrightarrow> True"
| "spmci_producing _ \<longleftrightarrow> False"

definition spmci_abs :: "u64 \<Rightarrow> (SPMCIndirect, spmci_pc) goroutines \<Rightarrow> faa128_conf" where
  "spmci_abs g c = \<lparr>shared = (memory c)\<lparr>tail := g\<rparr>, pcs = (\<lambda>i. spmci_pc_abs (capacity (memory c)) (at_pc c i))\<rparr>"

lemma spmci_abs_simps [simp]:
  "shared (spmci_abs g c) = (memory c)\<lparr>tail := g\<rparr>" "pcs (spmci_abs g c) i = spmci_pc_abs (capacity (memory c)) (at_pc c i)"
  by (simp_all add: spmci_abs_def)

lemma spmci_abs_upd:
  assumes "capacity q = capacity (memory c)"
  shows "spmci_abs g' (c\<lparr>memory := q, at_pc := (at_pc c)(i := pc)\<rparr>)
    = (spmci_abs g c)\<lparr>shared := q\<lparr>tail := g'\<rparr>, pcs := (pcs (spmci_abs g c))(i := spmci_pc_abs (capacity (memory c)) pc)\<rparr>"
  using assms by (auto simp: spmci_abs_def)

text \<open>How the number of used positions relates to \<open>tail\<close> and to the position the producer works on.\<close>

fun spmci_mark :: "nat \<Rightarrow> nat \<Rightarrow> spmci_pc \<Rightarrow> bool" where
  "spmci_mark w g (YEHead x t) \<longleftrightarrow> g \<le> unat t \<and> unat t \<le> w"
| "spmci_mark w g (YELoad x t) \<longleftrightarrow> g \<le> unat t \<and> unat t \<le> w"
| "spmci_mark w g (YEStore x t) \<longleftrightarrow> g = Suc (unat t) \<and> unat t \<le> w"
| "spmci_mark w g (YEAdvance x t) \<longleftrightarrow> g = Suc (unat t) \<and> unat t \<le> w"
| "spmci_mark w g _ \<longleftrightarrow> g \<le> w"

lemma spmci_mark_mono: "spmci_mark w g pc \<Longrightarrow> w \<le> w' \<Longrightarrow> spmci_mark w' g pc"
  by (cases pc) auto

lemma spmci_mark_idle: "spmci_mark w g pc \<Longrightarrow> \<not> spmci_producing pc \<Longrightarrow> g \<le> w"
  by (cases pc) auto

definition spmci_inv :: "nat \<Rightarrow> nat \<Rightarrow> faa128_label list \<Rightarrow> (SPMCIndirect, spmci_pc) goroutines \<Rightarrow> bool" where
  "spmci_inv k m ls c \<longleftrightarrow> (\<exists>g. faa128_cinv k m ls (spmci_abs g c) \<and> spmci_mark (unat (tail (memory c))) (unat g) (at_pc c 0))
     \<and> unat (tail (memory c)) \<le> m \<and> (\<forall>i. spmci_producing (at_pc c i) \<longrightarrow> i = 0)"

lemma faa128_cinv_raise:
  assumes "faa128_cinv k m ls c" and "unat (tail (shared c)) \<le> unat t" and "unat t \<le> m"
  shows "faa128_cinv k m ls (c\<lparr>shared := (shared c)\<lparr>tail := t\<rparr>\<rparr>)"
  using assms claims128_mono [OF faa128_cinvD(5) [OF assms(1)] _ assms(2)]
  by (auto simp: faa128_cinv_def faa128_static_def)

section \<open>Invariant\<close>

text \<open>Accesses of a consumer that do not touch \<open>tail\<close> are steps of \<open>MPMCIndirect\<close>.\<close>

fun spmci_at_tail :: "spmci_pc \<Rightarrow> bool" where
  "spmci_at_tail (YDTail h) \<longleftrightarrow> True"
| "spmci_at_tail (YCCas t h) \<longleftrightarrow> True"
| "spmci_at_tail YCTail \<longleftrightarrow> True"
| "spmci_at_tail _ \<longleftrightarrow> False"

context atomix_sem
begin

lemma spmci_consumer_sim:
  assumes "SPMCIndirect_step A pc q = ret (l, pc', q')" and "\<not> spmci_producing pc" and "\<not> spmci_at_tail pc" and "pc \<noteq> YIdle"
  shows "MPMCIndirect_step A (spmci_pc_abs n pc) (q\<lparr>tail := g\<rparr>) = ret (l, spmci_pc_abs n pc', q'\<lparr>tail := g\<rparr>)"
    and "tail q' = tail q"
  using assms by (cases pc; auto simp: Let_def rmw catchup128_pc_def spmci_catchup_pc_def split: if_splits prod.splits)+

lemma spmci_step_capacity:
  "SPMCIndirect_step A pc q = ret (l, pc', q') \<Longrightarrow> capacity q' = capacity q"
  by (cases pc) (auto simp: Let_def split: if_splits prod.splits)

lemma spmci_step_consuming:
  "SPMCIndirect_step A pc q = ret (l, pc', q') \<Longrightarrow> \<not> spmci_producing pc \<Longrightarrow> \<not> spmci_producing pc'"
  by (cases pc) (auto simp: Let_def spmci_catchup_pc_def split: if_splits prod.splits)

lemma spmci_consumer_inv:
  assumes I: "spmci_inv k m ls c" and m: "m < faa128_bound" and pc: "\<not> spmci_producing (at_pc c i)" "at_pc c i \<noteq> YIdle"
    and st: "SPMCIndirect_step A (at_pc c i) (memory c) = ret (l, pc', q')"
  shows "spmci_inv k (Suc m) (append_label ls l) (c\<lparr>memory := q', at_pc := (at_pc c)(i := pc')\<rparr>)"
proof -
  from I obtain g where g: "faa128_cinv k m ls (spmci_abs g c)" "spmci_mark (unat (tail (memory c))) (unat g) (at_pc c 0)"
    and t: "unat (tail (memory c)) \<le> m" and p: "\<forall>i. spmci_producing (at_pc c i) \<longrightarrow> i = 0" by (auto simp: spmci_inv_def)
  note D = faa128_cinvD [OF g(1), simplified] and upd = spmci_abs_upd [OF spmci_step_capacity [OF st]]
  note pr = spmci_step_consuming [OF st pc(1)]
  have "faa128_cinv k (Suc m) (append_label ls l) (spmci_abs g (c\<lparr>memory := q', at_pc := (at_pc c)(i := pc')\<rparr>))
      \<and> unat (tail (memory c)) \<le> unat (tail q') \<and> unat (tail q') \<le> m"
  proof (cases "spmci_at_tail (at_pc c i)")
    case False
    from faa128_run_inv [OF g(1) m] spmci_consumer_sim [OF st pc(1) False pc(2)] t show ?thesis
      by (auto simp: upd [of g _ _ g])
  next
    case True
    have q: "q'\<lparr>tail := g\<rparr> = (memory c)\<lparr>tail := g\<rparr>" "l = None"
      using st True by (cases "at_pc c i"; auto simp: Let_def rmw split: if_splits)+
    let ?pc = "spmci_pc_abs (capacity (memory c)) pc'"
    have n: "enq_claim ?pc = None" "deq_claim ?pc = None"
      using st True by (cases "at_pc c i"; auto simp: Let_def rmw spmci_catchup_pc_def split: if_splits)+
    have s: "unat (h + 1) = Suc (unat h)" if "unat h < unat (head (memory c))" for h :: u64
      using that D(2) m by (subst unat_Suc_no_wrap) (auto simp: faa128_bound_def)
    have ok: "pc128_ok (2 ^ k) (head (memory c)) ?pc" using D(7) [of i] st True s
      by (cases "at_pc c i") (auto simp: Let_def rmw spmci_catchup_pc_def word_less_nat_alt split: if_splits)
    have "faa128_cinv k (Suc m) ls ((spmci_abs g c)\<lparr>shared := (memory c)\<lparr>tail := g\<rparr>, pcs := (pcs (spmci_abs g c))(i := ?pc)\<rparr>)"
      by (rule faa128_local [OF g(1)]) (use D(1-3) n ok in simp_all)
    then have "faa128_cinv k (Suc m) (append_label ls l) (spmci_abs g (c\<lparr>memory := q', at_pc := (at_pc c)(i := pc')\<rparr>))"
      by (simp add: upd [of g _ _ g] q)
    moreover have "unat (tail (memory c)) \<le> unat (tail q') \<and> unat (tail q') \<le> m"
      using st True t D(7) [of i] D(2) by (cases "at_pc c i") (auto simp: Let_def rmw split: if_splits)
    ultimately show ?thesis by blast
  qed
  then have r: "faa128_cinv k (Suc m) (append_label ls l) (spmci_abs g (c\<lparr>memory := q', at_pc := (at_pc c)(i := pc')\<rparr>))"
    "unat (tail (memory c)) \<le> unat (tail q')" "unat (tail q') \<le> m" by auto
  have "spmci_mark (unat (tail q')) (unat g) (if i = 0 then pc' else at_pc c 0)"
    using spmci_mark_mono [OF g(2) r(2)] spmci_mark_idle [OF g(2)] r(2) pc pr by (cases pc') auto
  with r p pr show ?thesis by (auto simp: spmci_inv_def)
qed

lemma spmci_producer_inv:
  assumes I: "spmci_inv k m ls c" and m: "m < faa128_bound" and pc: "spmci_producing (at_pc c i)"
    and st: "SPMCIndirect_step A (at_pc c i) (memory c) = ret (l, pc', q')"
  shows "spmci_inv k (Suc m) (append_label ls l) (c\<lparr>memory := q', at_pc := (at_pc c)(i := pc')\<rparr>)"
proof -
  let ?q = "memory c" let ?cap = "capacity ?q" let ?c = "c\<lparr>memory := q', at_pc := (at_pc c)(0 := pc')\<rparr>"
  from I obtain g where g: "faa128_cinv k m ls (spmci_abs g c)" "spmci_mark (unat (tail ?q)) (unat g) (at_pc c 0)"
    and t: "unat (tail ?q) \<le> m" and p: "\<forall>i. spmci_producing (at_pc c i) \<longrightarrow> i = 0" by (auto simp: spmci_inv_def)
  have i: "i = 0" using p pc by blast
  note D = faa128_cinvD [OF g(1), simplified] and cap = spmci_step_capacity [OF st]
  note upd = spmci_abs_upd [OF cap] and X = faa128_staticD [OF D(1), simplified]
  have s1: "unat (w + 1) = Suc (unat w)" if "unat w \<le> m" for w :: u64
    using that m by (subst unat_Suc_no_wrap) (auto simp: faa128_bound_def)
  have fin: "spmci_inv k (Suc m) (append_label ls l) ?c"
    if "faa128_cinv k (Suc m) (append_label ls l) (spmci_abs g' ?c)" "spmci_mark (unat (tail q')) (unat g') pc'" "unat (tail q') \<le> Suc m" for g'
    using that p by (auto simp: spmci_inv_def)
  have local: "faa128_cinv k (Suc m) (append_label ls l) (spmci_abs g ?c)"
    if "buffer q' = buffer ?q" "head q' = head ?q" "faa128_static k (q'\<lparr>tail := g\<rparr>)"
      "enq_claim (spmci_pc_abs ?cap pc') = None" "deq_claim (spmci_pc_abs ?cap pc') = None" "pc128_ok (2 ^ k) (head ?q) (spmci_pc_abs ?cap pc')"
      "append_label ls l = ls \<or> append_label ls l = ls @ [XFull]"
    unfolding upd [of g _ _ g]
    by (rule faa128_local [OF g(1)]) (use D(2,3) that in auto)
  have st': "faa128_static k (?q\<lparr>tail := g\<rparr>)" "faa128_static k (?q\<lparr>threshold := th, tail := g\<rparr>)" "faa128_static k (?q\<lparr>tail := g, threshold := th\<rparr>)" for th
    using D(1) by (simp_all add: faa128_static_def)
  have "spmci_inv k (Suc m) (append_label ls l) ?c"
  proof (cases "at_pc c 0")
    case (YELoad x w)
    have w: "unat g \<le> unat w" "unat w \<le> unat (tail ?q)" using g(2) YELoad by auto
    consider "q' = ?q" "l = Some XFull" "pc' = YIdle" | "q' = ?q" "l = None" "pc' = YEStore x w"
      using st YELoad i by (auto simp: Let_def split: if_splits)
    then show ?thesis
    proof cases
      case 1
      show ?thesis by (rule fin [OF local]) (use 1 st' w t in auto)
    next
      case 2
      let ?d = "(spmci_abs g c)\<lparr>shared := (shared (spmci_abs g c))\<lparr>tail := w\<rparr>\<rparr>"
      have r: "faa128_cinv k m ls ?d" by (rule faa128_cinv_raise [OF g(1)]) (use w t in auto)
      have w1: "unat (w + 1) = Suc (unat w)" using s1 w t by simp
      have "w div ?cap = of_nat (unat w div 2 ^ k)"
        using faa128_cycles(1) [OF D(1), of w] w t m by (simp add: faa128_bound_def)
      then have "faa128_cinv k (Suc m) ls (?d\<lparr>shared := ?q\<lparr>tail := w + 1\<rparr>, pcs := (pcs ?d)(0 := XECas x w (w div ?cap, 0))\<rparr>)"
        using D(1,2) w t w1 by (intro faa128_local [OF r]) (auto simp: faa128_static_def YELoad)
      also have "?d\<lparr>shared := ?q\<lparr>tail := w + 1\<rparr>, pcs := (pcs ?d)(0 := XECas x w (w div ?cap, 0))\<rparr> = spmci_abs (w + 1) ?c"
        by (auto simp: spmci_abs_def 2)
      finally show ?thesis by (intro fin [of "w + 1"]) (use 2 w t w1 in auto)
    qed
  next
    case (YEStore x w)
    have w: "unat g = Suc (unat w)" "unat w \<le> unat (tail ?q)" using g(2) YEStore by auto
    let ?i = "unat w mod (2 * 2 ^ k)"
    have r: "l = Some (XStored (unat w) x)" "pc' = YEAdvance x w" "q' = ?q\<lparr>buffer := (buffer ?q)[?i := \<lparr>entry = (w div ?cap + 1, x)\<rparr>]\<rparr>"
      using st YEStore i X by (auto simp: Let_def split: if_splits)
    have sw: "?q\<lparr>buffer := b, tail := g\<rparr> = ?q\<lparr>tail := g, buffer := b\<rparr>" for b by simp
    have "faa128_cinv k (Suc m) (append_label ls l) (spmci_abs g ?c)"
      unfolding upd [of g _ _ g] using faa128_store [OF g(1), of 0 x w "(w div ?cap, 0)"] YEStore by (simp add: r sw)
    then show ?thesis by (rule fin) (use w t r in auto)
  next
    case (YEAdvance x w)
    then have w: "unat g = Suc (unat w)" "unat w \<le> unat (tail ?q)" using g(2) by auto
    have r: "l = None" "pc' = YEThreshold x" "q' = ?q\<lparr>tail := w + 1\<rparr>" using st YEAdvance i by simp_all
    have "faa128_cinv k (Suc m) (append_label ls l) (spmci_abs g ?c)" by (rule local) (use r st' in auto)
    then show ?thesis by (rule fin) (use w t r s1 in auto)
  next
    case (YETail x)
    then show ?thesis by (intro fin [OF local]) (use st i g(2) st' t in auto)
  next
    case (YEHead x w)
    then show ?thesis by (intro fin [OF local]) (use st i g(2) st' t in \<open>auto split: if_splits\<close>)
  next
    case (YEThreshold x)
    then show ?thesis by (intro fin [OF local]) (use st i g(2) st' t in auto)
  qed (use pc i in auto)
  then show ?thesis by (simp add: i)
qed

lemma spmci_step_inv:
  assumes I: "spmci_inv k m ls c" and m: "m < faa128_bound" and step: "spmci_step A c l c'"
  shows "spmci_inv k (Suc m) (append_label ls l) c'"
proof -
  from I obtain g where g: "faa128_cinv k m ls (spmci_abs g c)" "spmci_mark (unat (tail (memory c))) (unat g) (at_pc c 0)"
    and t: "unat (tail (memory c)) \<le> m" and p: "\<forall>i. spmci_producing (at_pc c i) \<longrightarrow> i = 0" by (auto simp: spmci_inv_def)
  note D = faa128_cinvD [OF g(1), simplified]
  have call: "faa128_cinv k (Suc m) ls (spmci_abs g (c\<lparr>at_pc := (at_pc c)(i := pc)\<rparr>))"
    if "(\<exists>x. pc = YETail x) \<or> pc = YDDraining" for i pc
  proof -
    let ?pc = "spmci_pc_abs (capacity (memory c)) pc"
    have "faa128_cinv k (Suc m) ls ((spmci_abs g c)\<lparr>shared := (memory c)\<lparr>tail := g\<rparr>, pcs := (pcs (spmci_abs g c))(i := ?pc)\<rparr>)"
      by (rule faa128_local [OF g(1)]) (use D(1-3) that in auto)
    also have "(spmci_abs g c)\<lparr>shared := (memory c)\<lparr>tail := g\<rparr>, pcs := (pcs (spmci_abs g c))(i := ?pc)\<rparr>
        = spmci_abs g (c\<lparr>at_pc := (at_pc c)(i := pc)\<rparr>)" by (auto simp: spmci_abs_def)
    finally show ?thesis .
  qed
  from step show ?thesis unfolding spmci_step_def
  proof (elim disjE conjE)
    assume "go_step (SPMCIndirect_step A) YIdle YETail YDDraining (\<lambda>i. i = 0) (\<lambda>_. True) c l c'"
    then show ?thesis
    proof cases
      case (go_call_Enqueue i x)
      with call [of "YETail x" 0] g(2) t p show ?thesis by (auto simp: spmci_inv_def)
    next
      case (go_call_Dequeue i)
      with call [of YDDraining i] g(2) t p show ?thesis by (auto simp: spmci_inv_def)
    next
      case (go_run i pc q)
      then show ?thesis using spmci_producer_inv [OF I m] spmci_consumer_inv [OF I m]
        by (cases "spmci_producing (at_pc c i)") simp_all
    qed
  next
    assume d: "l = None" "c' = c\<lparr>memory := SPMCIndirect_Drain (memory c)\<rparr>"
    have "spmci_abs g c' = (spmci_abs g c)\<lparr>shared := MPMCIndirect_Drain (shared (spmci_abs g c))\<rparr>"
      by (auto simp: spmci_abs_def d(2) SPMCIndirect_Drain_def MPMCIndirect_Drain_def)
    with faa128_step_inv [OF g(1) m faa128_call_Drain] have "faa128_cinv k (Suc m) ls (spmci_abs g c')" by simp
    with g(2) t p d show ?thesis by (auto simp: spmci_inv_def SPMCIndirect_Drain_def)
  qed
qed

lemma spmci_exec_inv:
  assumes "exec (spmci_step A) c0 m ls c" and "spmci_inv k 0 [] c0" and "m \<le> faa128_bound"
  shows "spmci_inv k m ls c"
  by (rule exec_trace_invariant [of _ _ _ _ _ "spmci_inv k", OF assms spmci_step_inv])

end

lemma spmci_init_inv:
  assumes "NewMPMCIndirect c = ret q" and "2 \<le> sint c" and "sint c \<le> 2 ^ 61"
  shows "\<exists>k. spmci_inv k 0 [] (go_init q YIdle)"
proof -
  from faa128_init_cinv [OF assms] obtain k where "faa128_cinv k 0 [] (faa128_init q)" by blast
  moreover have z: "tail q = 0" using assms(1,2) by (auto simp: NewMPMCIndirect_def Let_def go_simps)
  then have "spmci_abs 0 (go_init q YIdle) = faa128_init q" by (simp add: spmci_abs_def go_init_def faa128_init_def)
  ultimately show ?thesis using z unfolding spmci_inv_def by (intro exI [of _ k] conjI exI [of _ 0]) (simp_all add: go_init_def)
qed

section \<open>A call alone\<close>

context atomix_sem
begin

lemma SPMCIndirect_Enqueue_steps:
  assumes "mpmc_shape k (faa128_abs q)" and "unat (tail q) + 1 + 4 * 2 ^ k < 2 ^ 64"
  shows "go_bind (run_alone (SPMCIndirect_step A) YIdle None (YETail x) q) (\<lambda>(l, q'). ret (faa128_enq_result l, q'))
     = SPMCIndirect_Enqueue x q"
proof (cases "unat (tail q) < unat (head q) + 2 ^ k")
  case True
  note S = faa128_shapeD [OF assms(1)]
  from faa128_at_tail [OF assms True] obtain v
    where "entry (buffer q ! faa_idx k (tail q)) = (tail q div 2 ^ k, v)" .
  with True faa_full_test [OF S(1)] show ?thesis
    by (simp add: SPMCIndirect_Enqueue_def run_alone_simps Let_def S)
next
  case False
  with faa_full_test [OF faa128_shapeD(1) [OF assms(1)]] faa128_shapeD(2) [OF assms(1)] show ?thesis
    by (simp add: SPMCIndirect_Enqueue_def run_alone_simps Let_def)
qed

lemma SPMCIndirect_Dequeue_steps:
  assumes "mpmc_shape k (faa128_abs q)"
  shows "go_bind (run_alone (SPMCIndirect_step A) YIdle None YDDraining q) (\<lambda>(l, q'). ret (faa128_deq_result l, q'))
     = SPMCIndirect_Dequeue A q"
proof -
  note S = faa128_shapeD [OF assms] and D = faa_okD [OF faa128_shapeD(1) [OF assms]]
  note c = faa_cycles [OF D(1,2,7)]
  have lt: "h < h + 1" "h \<le> h + 1" if "h = head q" for h
    using faa_succ [OF D(7)] that by (simp_all add: word_less_nat_alt word_le_nat_alt)
  from faa128_at_head [OF assms] obtain v where v: "entry (buffer q ! faa_idx k (head q))
    = (if unat (head q) < unat (tail q) then head q div 2 ^ k + 1 else head q div 2 ^ k, v)" .
  show ?thesis
  proof (cases "unat (head q) < unat (tail q)")
    case True
    with v show ?thesis unfolding SPMCIndirect_Dequeue_def
      by (subst SPMCIndirect_Dequeue_loop.simps) (simp add: run_alone_simps Let_def S rmw)
  next
    case False
    then have e: "tail q = head q" using faa_empty_iff(2) [OF S(1)] by simp
    with False v c(4,5) lt [OF refl] show ?thesis unfolding SPMCIndirect_Dequeue_def
      by (subst SPMCIndirect_Dequeue_loop.simps)
        (simp add: run_alone_simps Let_def S rmw spmci_catchup_pc_def SPMCIndirect_catchup_eq)
  qed
qed

text \<open>The slot repair overtakes the producer between its check and its store.\<close>

lemma spmci_lost:
  assumes "NewMPMCIndirect 2 = ret q"
  shows "sched (go_do (SPMCIndirect_step A) YIdle YETail YDDraining (\<lambda>i. i = 0) (\<lambda>_. True))
      [StartEnqueue 0 x, Resume 0, Resume 0, Resume 0,
       StartDequeue 1, Resume 1, Resume 1, Resume 1, Resume 1, Resume 1, Resume 1, Resume 1, Resume 1,
       Resume 0, Resume 0, Resume 0] (go_init q YIdle)
     = Some ([XEmpty, XStored 0 x], \<lparr>memory = \<lparr>tail = 1, head = 1, threshold = 5, draining = False,
           buffer = [\<lparr>entry = (1, x)\<rparr>, \<lparr>entry = (0, 0)\<rparr>, \<lparr>entry = (1, 0)\<rparr>, \<lparr>entry = (1, 0)\<rparr>],
           capacity = 2, size_q = 4, mask_q = 3\<rparr>, at_pc = (\<lambda>_. YIdle)\<rparr>)"
proof -
  from assms have "q = \<lparr>tail = 0, head = 0, threshold = 5, draining = False,
     buffer = [\<lparr>entry = (0, 0)\<rparr>, \<lparr>entry = (0, 0)\<rparr>, \<lparr>entry = (1, 0)\<rparr>, \<lparr>entry = (1, 0)\<rparr>],
     capacity = 2, size_q = 4, mask_q = 3\<rparr>" by (simp add: NewMPMCIndirect_2)
  then show ?thesis by (simp add: go_init_def spmci_catchup_pc_def Let_def rmw fun_eq_iff)
qed

lemma spmci_lost_polls:
  "polls_fail (SPMCIndirect_Dequeue A) 0 \<lparr>tail = 1, head = 1, threshold = 5, draining = False,
     buffer = [\<lparr>entry = (1, x)\<rparr>, \<lparr>entry = (0, 0)\<rparr>, \<lparr>entry = (1, 0)\<rparr>, \<lparr>entry = (1, 0)\<rparr>],
     capacity = 2, size_q = 4, mask_q = 3\<rparr>"
  by (rule polls_fail_step [OF _ polls_fail_step [OF _ polls_fail_step [OF _ polls_fail_step [OF _ polls_fail_step [OF _ polls_fail_step [OF _ polls_fail_stuck]]]]]])
    (simp add: SPMCIndirect_Dequeue_def SPMCIndirect_Dequeue_loop.simps SPMCIndirect_catchup.simps Let_def rmw)+

end

end
