(* ===== verification/Faa128_Ptr.thy ===== *)
theory Faa128_Ptr
  imports Faa128_Queues
begin

text \<open>
  The FAA-based queues for \<open>unsafe.Pointer\<close> run the code of those for \<open>uintptr\<close>: every operation returns
  what the other one returns, in every state and whatever the atomic operations do.
\<close>

section \<open>\<open>MPMCPtr\<close>\<close>

lemma MPMCPtr_Enqueue_le: "MPMCPtr_Enqueue A x q = Some r \<Longrightarrow> MPMCIndirect_Enqueue A x q = Some r"
  by (erule MPMCPtr_Enqueue.raw_induct [rotated], subst MPMCIndirect_Enqueue.simps)
    (auto simp: Let_def split: prod.splits if_splits)

lemma MPMCIndirect_Enqueue_le: "MPMCIndirect_Enqueue A x q = Some r \<Longrightarrow> MPMCPtr_Enqueue A x q = Some r"
  by (erule MPMCIndirect_Enqueue.raw_induct [rotated], subst MPMCPtr_Enqueue.simps)
    (auto simp: Let_def split: prod.splits if_splits)

lemma MPMCPtr_catchupPtr_le: "MPMCPtr_catchupPtr A t h q = Some r \<Longrightarrow> MPMCIndirect_catchup A t h q = Some r"
  by (erule MPMCPtr_catchupPtr.raw_induct [rotated], subst MPMCIndirect_catchup.simps)
    (auto simp: Let_def split: prod.splits if_splits)

lemma MPMCIndirect_catchup_le: "MPMCIndirect_catchup A t h q = Some r \<Longrightarrow> MPMCPtr_catchupPtr A t h q = Some r"
  by (erule MPMCIndirect_catchup.raw_induct [rotated], subst MPMCPtr_catchupPtr.simps)
    (auto simp: Let_def split: prod.splits if_splits)

lemma MPMCPtr_catchupPtr_same: "MPMCPtr_catchupPtr = MPMCIndirect_catchup"
  by ((rule ext)+, rule option_eqI) (erule MPMCPtr_catchupPtr_le, erule MPMCIndirect_catchup_le)

lemma MPMCPtr_Dequeue_loop_le: "MPMCPtr_Dequeue_loop A q = Some r \<Longrightarrow> MPMCIndirect_Dequeue_loop A q = Some r"
  by (erule MPMCPtr_Dequeue_loop.raw_induct [rotated], subst MPMCIndirect_Dequeue_loop.simps)
    (auto simp: Let_def MPMCPtr_catchupPtr_same split: prod.splits if_splits)

lemma MPMCIndirect_Dequeue_loop_le: "MPMCIndirect_Dequeue_loop A q = Some r \<Longrightarrow> MPMCPtr_Dequeue_loop A q = Some r"
  by (erule MPMCIndirect_Dequeue_loop.raw_induct [rotated], subst MPMCPtr_Dequeue_loop.simps)
    (auto simp: Let_def MPMCPtr_catchupPtr_same split: prod.splits if_splits)

lemma MPMCPtr_Enqueue_same: "MPMCPtr_Enqueue = MPMCIndirect_Enqueue"
  by ((rule ext)+, rule option_eqI) (erule MPMCPtr_Enqueue_le, erule MPMCIndirect_Enqueue_le)

lemma MPMCPtr_Dequeue_loop_same: "MPMCPtr_Dequeue_loop = MPMCIndirect_Dequeue_loop"
  by ((rule ext)+, rule option_eqI) (erule MPMCPtr_Dequeue_loop_le, erule MPMCIndirect_Dequeue_loop_le)

lemma MPMCPtr_Dequeue_same: "MPMCPtr_Dequeue = MPMCIndirect_Dequeue"
  by (simp add: fun_eq_iff MPMCPtr_Dequeue_def MPMCIndirect_Dequeue_def MPMCPtr_Dequeue_loop_same)

section \<open>\<open>MPSCPtr\<close>\<close>

lemma MPSCPtr_Enqueue_le: "MPSCPtr_Enqueue A x q = Some r \<Longrightarrow> MPSCIndirect_Enqueue A x q = Some r"
  by (erule MPSCPtr_Enqueue.raw_induct [rotated], subst MPSCIndirect_Enqueue.simps)
    (auto simp: Let_def split: prod.splits if_splits)

lemma MPSCIndirect_Enqueue_le: "MPSCIndirect_Enqueue A x q = Some r \<Longrightarrow> MPSCPtr_Enqueue A x q = Some r"
  by (erule MPSCIndirect_Enqueue.raw_induct [rotated], subst MPSCPtr_Enqueue.simps)
    (auto simp: Let_def split: prod.splits if_splits)

lemma MPSCPtr_Enqueue_same: "MPSCPtr_Enqueue = MPSCIndirect_Enqueue"
  by ((rule ext)+, rule option_eqI) (erule MPSCPtr_Enqueue_le, erule MPSCIndirect_Enqueue_le)

lemma MPSCPtr_Dequeue_same: "MPSCPtr_Dequeue = MPSCIndirect_Dequeue"
  by (simp add: fun_eq_iff MPSCPtr_Dequeue_def MPSCIndirect_Dequeue_def)

section \<open>\<open>SPMCPtr\<close>\<close>

lemma SPMCPtr_Enqueue_same: "SPMCPtr_Enqueue = SPMCIndirect_Enqueue"
  by (simp add: fun_eq_iff SPMCPtr_Enqueue_def SPMCIndirect_Enqueue_def)

lemma SPMCPtr_catchupPtr_le: "SPMCPtr_catchupPtr A t h q = Some r \<Longrightarrow> SPMCIndirect_catchup A t h q = Some r"
  by (erule SPMCPtr_catchupPtr.raw_induct [rotated], subst SPMCIndirect_catchup.simps)
    (auto simp: Let_def split: prod.splits if_splits)

lemma SPMCIndirect_catchup_le: "SPMCIndirect_catchup A t h q = Some r \<Longrightarrow> SPMCPtr_catchupPtr A t h q = Some r"
  by (erule SPMCIndirect_catchup.raw_induct [rotated], subst SPMCPtr_catchupPtr.simps)
    (auto simp: Let_def split: prod.splits if_splits)

lemma SPMCPtr_catchupPtr_same: "SPMCPtr_catchupPtr = SPMCIndirect_catchup"
  by ((rule ext)+, rule option_eqI) (erule SPMCPtr_catchupPtr_le, erule SPMCIndirect_catchup_le)

lemma SPMCPtr_Dequeue_loop_le: "SPMCPtr_Dequeue_loop A q = Some r \<Longrightarrow> SPMCIndirect_Dequeue_loop A q = Some r"
  by (erule SPMCPtr_Dequeue_loop.raw_induct [rotated], subst SPMCIndirect_Dequeue_loop.simps)
    (auto simp: Let_def SPMCPtr_catchupPtr_same split: prod.splits if_splits)

lemma SPMCIndirect_Dequeue_loop_le: "SPMCIndirect_Dequeue_loop A q = Some r \<Longrightarrow> SPMCPtr_Dequeue_loop A q = Some r"
  by (erule SPMCIndirect_Dequeue_loop.raw_induct [rotated], subst SPMCPtr_Dequeue_loop.simps)
    (auto simp: Let_def SPMCPtr_catchupPtr_same split: prod.splits if_splits)

lemma SPMCPtr_Dequeue_loop_same: "SPMCPtr_Dequeue_loop = SPMCIndirect_Dequeue_loop"
  by ((rule ext)+, rule option_eqI) (erule SPMCPtr_Dequeue_loop_le, erule SPMCIndirect_Dequeue_loop_le)

lemma SPMCPtr_Dequeue_same: "SPMCPtr_Dequeue = SPMCIndirect_Dequeue"
  by (simp add: fun_eq_iff SPMCPtr_Dequeue_def SPMCIndirect_Dequeue_def SPMCPtr_Dequeue_loop_same)

lemmas Faa128_Ptr_same = MPMCPtr_Enqueue_same MPMCPtr_Dequeue_same MPSCPtr_Enqueue_same MPSCPtr_Dequeue_same
  SPMCPtr_Enqueue_same SPMCPtr_Dequeue_same

end
