(* ===== verification/Spec2Isabelle.thy ===== *)
theory Spec2Isabelle
  imports Selection Errors SPSC_Asm SPSC_Concurrent Seq_Progress Seq128_OneSided Compact_OneSided Compact_Reuse
    Mpsc128_Concurrent Faa_Spmc Faa128_Spmc Faa128_Ptr
begin

text \<open>
  Verification of \<open>lfq\<close>, a Go library of bounded FIFO queues for goroutines.

  \<^bold>\<open>The program.\<close> A client configures a \<open>Builder\<close> (\<open>options.go\<close>) with the constraints it can promise
  (single producer, single consumer, compact slots) and gets a queue behind one of the interfaces
  of \<open>types.go\<close>: \<open>Queue[T]\<close> for any element type, \<open>QueueIndirect\<close> for \<open>uintptr\<close> and \<open>QueuePtr\<close> for
  \<open>unsafe.Pointer\<close>. \<open>Enqueue\<close> and \<open>Dequeue\<close> never block: they return \<open>ErrWouldBlock\<close> on a full or an
  empty queue. Twenty-two concrete types implement the interfaces, in four families: Lamport
  rings, CAS queues with per-slot sequence numbers, fetch-and-add (FAA) queues with \<open>2n\<close> slots
  and cycle numbers, and compact queues that keep the round in the slot's value.

  \<^bold>\<open>The theories.\<close>

  \<^item> \<open>Go_Prelude\<close>: what is used of Go (64-bit integers as words, calls that return, panic or
    never return as \<open>'r go\<close>, \<open>make\<close>), and ring-buffer arithmetic.
  \<^item> \<open>Fifo_Spec\<close>: the abstract bounded FIFO on lists and client programs over it; the locale
    \<open>bounded_queue\<close> (the contract of an implementation, with what a client concludes from it),
    \<open>queue_simulation\<close> (a queue that simulates another one keeps its contract) and
    \<open>fifo_object\<close> (a constructor together with the operations on what it returns); \<open>observed_fifo\<close>, the
    contract in terms of the calls and answers alone.
  \<^item> \<open>Atomix\<close>: the third-party package \<open>code.hybscloud.com/atomix\<close> as the record parameter \<open>A\<close> of
    the operations that call its read-modify-write primitives, and \<open>atomix_ok\<close>, their documented
    behaviour, with the instance \<open>atomix_impl\<close>.
  \<^item> \<open>Pow2\<close>: \<open>roundToPow2\<close> (\<open>options.go\<close>).
  \<^item> \<open>SPSC\<close>: \<open>SPSC\<close>, \<open>SPSCIndirect\<close>, \<open>SPSCPtr\<close> (\<open>spsc.go\<close>, \<open>spsc_indirect_generic.go\<close>).
  \<^item> \<open>Seq_Ring\<close>, \<open>Seq_Queues\<close>: sequence numbers, and \<open>MPMCSeq\<close>, \<open>MPSCSeq\<close>, \<open>SPMCSeq\<close>
    (\<open>mpmc_seq.go\<close>, \<open>mpsc_seq.go\<close>, \<open>spmc_seq.go\<close>).
  \<^item> \<open>Seq128_Queues\<close>: the six \<open>*IndirectSeq\<close> and \<open>*PtrSeq\<close> types, whose slots pack sequence number
    and value into one 128-bit word (\<open>mpmc_128_seq.go\<close>, \<open>mpsc_128_seq.go\<close>, \<open>spmc_128_seq.go\<close>), shown
    to simulate the generic ones.
  \<^item> \<open>Faa_Ring\<close>, \<open>Faa_Queues\<close>: cycle numbers, and \<open>MPMC\<close>, \<open>MPSC\<close>, \<open>SPMC\<close> with \<open>catchup\<close> and
    \<open>Drain\<close> (\<open>mpmc.go\<close>, \<open>mpsc.go\<close>, \<open>spmc.go\<close>).
  \<^item> \<open>Faa128_Queues\<close>: their six variants for words (\<open>mpmc_128.go\<close>, \<open>mpsc_128.go\<close>, \<open>spmc_128.go\<close>);
    \<open>Faa128_Ptr\<close>: those for pointers are, operation by operation, those for \<open>uintptr\<close>.
  \<^item> \<open>Compact_Queues\<close>: the three \<open>*CompactIndirect\<close> types (\<open>mpmc_compact.go\<close>, \<open>mpsc_compact.go\<close>,
    \<open>spmc_compact.go\<close>).
  \<^item> \<open>Fifo_Objects\<close>: every concrete type is a \<open>fifo_object\<close>.
  \<^item> \<open>Builder\<close>: \<open>Options\<close>, \<open>Builder\<close>, its setters and its three groups of \<open>Build*\<close> functions, and
    the interfaces as sum types whose operations dispatch.
  \<^item> \<open>Selection\<close>: the concrete type behind a built interface value.
  \<^item> \<open>Errors\<close>: \<open>errors.go\<close>, over the third-party package \<open>code.hybscloud.com/iox\<close> as the record
    parameter \<open>X\<close> with its documented behaviour \<open>iox_ok\<close>. The three predicates only delegate; a lemma tells what
    they say of the errors that the queues return.
  \<^item> \<open>SPSC_Asm\<close>: the assembly of \<open>SPSCIndirect\<close> (\<open>internal/asm/asm_*.s\<close>, \<open>spsc_indirect_asm.go\<close>) as
    instruction lists of a small machine.
  \<^item> \<open>Interleaving\<close>: executions as interleavings of atomic steps, schedules that compute one, and
    the locale \<open>fifo_linearization\<close>.
  \<^item> \<open>Goroutines\<close>: any number of goroutines on a queue given by a step function, and the locale
    \<open>go_linearization\<close>, which reduces linearizability to single steps. \<open>Slot_Window\<close>: rings whose slots
    tell for which position they are free, with the locale \<open>slot_codes\<close>.
  \<^item> \<open>SPSC_Concurrent\<close>, \<open>Seq_Concurrent\<close>, \<open>Faa_Concurrent\<close>, \<open>Mpsc_Concurrent\<close>, \<open>Faa128_Concurrent\<close>: \<open>SPSC\<close>,
    \<open>MPMCSeq\<close>, \<open>MPMC\<close>, \<open>MPSC\<close> and \<open>MPMCIndirect\<close> cut into their shared accesses; \<open>Seq_Mpsc\<close> and \<open>Seq_Spmc\<close>: \<open>MPSCSeq\<close> and
    \<open>SPMCSeq\<close>, whose states are read as states of \<open>MPMCSeq\<close> with one index ahead; \<open>Seq128_Concurrent\<close> and
    \<open>Seq128_OneSided\<close>: \<open>MPMCIndirectSeq\<close>, and \<open>MPSCIndirectSeq\<close> and \<open>SPMCIndirectSeq\<close>;
    \<open>Faa_Spmc\<close>, \<open>Mpsc128_Concurrent\<close> and \<open>Faa128_Spmc\<close>: \<open>SPMC\<close>, \<open>MPSCIndirect\<close> (each step as one or two steps of
    \<open>MPSC\<close>) and \<open>SPMCIndirect\<close> (as \<open>MPMCIndirect\<close> with another \<open>tail\<close>);
    \<open>Compact_Concurrent\<close>, \<open>Compact_OneSided\<close> and \<open>Compact_Spmc\<close>: \<open>MPMCCompactIndirect\<close>, \<open>MPSCCompactIndirect\<close>
    and \<open>SPMCCompactIndirect\<close>, the last by simulation in the first; \<open>Compact_Reuse\<close>: what a value that comes back
    does to the two with several consumers, and slots that no schedule fills again.
  \<^item> \<open>Progress\<close>: the locales \<open>credit_system\<close> and \<open>go_credits\<close>, which bound the number of steps by the number of
    operations that have taken effect; \<open>Seq_Progress\<close> gives the credits for \<open>MPMCSeq\<close>, \<open>MPSCSeq\<close> and \<open>SPMCSeq\<close>.

  \<^bold>\<open>State and operations.\<close> A struct is a record with the source's field names (the padding is left
  out; \<open>mask\<close> and \<open>size\<close> are written \<open>mask_q\<close> and \<open>size_q\<close>). An atomic field holds its value. An
  operation takes the struct and returns its results and the struct afterwards, in the type \<open>go\<close>:
  \<open>ret\<close> a value, \<open>panics\<close> with a reason, or \<open>None\<close> when the call does not return. Retry loops are
  partial functions into that type, so a lemma that a call equals \<open>ret\<close> something also says that
  it ends. Slice accesses are guarded as Go guards them; the accesses through unsafe pointers
  panic in the model where they would leave the buffer, so the theorems show that they do not.

  \<^bold>\<open>What is shown, one caller at a time.\<close> Each queue is a bounded FIFO of capacity \<open>roundToPow2 c\<close>:
  every program of calls gets the answers of the list specification, refusals included; for built
  queues the same is also stated without that specification, as what a client observes. The
  number of calls is bounded by the width of the counters: \<open>2 ^ 64 - 1\<close> for the Lamport rings,
  whose comparison \<open>head >= cachedTail\<close> is not wrap-safe, \<open>2 ^ 63\<close> for the families that compare
  counters or rounds, \<open>2 ^ 62\<close> for the FAA queues, which advance several positions in one call.
  \<open>MPMCSeq\<close> is shown to need no bound. At a billion calls per second the smallest bound is over a
  century away. Capacities up to \<open>2 ^ 62\<close> (\<open>2 ^ 61\<close> for the FAA queues) are covered; beyond them
  the constructors are shown to panic or, for the FAA queues above \<open>2 ^ 62\<close>, to build an unusable
  queue.

  \<^bold>\<open>What is shown for goroutines.\<close> \<open>SPSC\<close> is linearizable, its plain accesses do not race and both
  operations are wait-free. In \<open>MPMCSeq\<close>, with any number of producers and consumers, every
  accepted value is delivered once, to the consumer of its position, and refusals are justified; the same holds for \<open>SPMCSeq\<close> with
  its one producer, and \<open>MPSCSeq\<close> hands its values to its one consumer in the order of acceptance.
  These three are lock-free: with \<open>G\<close> goroutines, in the order of \<open>G\<close> shared accesses suffice for every operation that takes effect.
  \<open>MPMCIndirectSeq\<close>, \<open>MPSCIndirectSeq\<close> and \<open>SPMCIndirectSeq\<close> are linearizable (and so are the pointer types,
  which run the same code), but not lock-free: a goroutine that rests between its entry and its
  index keeps the others of its side from finishing. \<open>MPSCCompactIndirect\<close> delivers what it accepted
  in order, and so do \<open>MPMCCompactIndirect\<close> and \<open>SPMCCompactIndirect\<close> as long as no value is accepted
  twice; with a value that comes back, a delayed consumer can take it out of turn and the slot is
  lost: no later step of any goroutine fills it again, and the queue with a single producer stops for good.
  \<open>MPSC\<close> and \<open>MPSCIndirect\<close> deliver the positions in order with the values stored there, and no position
  is given up as long as there are at most capacity + 1 producers; with one more, the consumer can get
  stuck for ever. \<open>MPMCIndirect\<close> and \<open>SPMCIndirect\<close> never duplicate or invent a value. They, \<open>MPMC\<close> and \<open>SPMC\<close>
  can lose an accepted value through the slot repair of \<open>Dequeue\<close>, and \<open>MPMC\<close> and \<open>SPMC\<close> can deliver one
  twice; the schedules that do so are given and run.
  The step functions run alone are the operations of the sequential theories. Steps are
  sequentially consistent: the acquire and release annotations of the source are taken to order
  the accesses as they are written. An execution may have up to \<open>2 ^ 64 - 1\<close> steps for \<open>SPSC\<close> and
  \<open>2 ^ 62\<close> for the other queues, counted so that no counter wraps within it.

  \<^bold>\<open>What is shown of the assembly.\<close> On a struct laid out in memory with the offsets
  that the routines use, those of amd64, arm64 and loong64 end with the result and the struct of the portable version.
  So do those of riscv64 while the counters are below \<open>2 ^ 63\<close>; its \<open>SPSCDequeue\<close> compares signed. The machine runs one
  routine at a time; memory barriers do nothing in it. The theorem that a routine equals the
  portable version needs a buffer of at most \<open>2 ^ 60\<close> words, half of the address space.

  \<^bold>\<open>Not modelled.\<close> Memory exhaustion and the size limit of \<open>make\<close> that depends on the element size;
  a nil pointer as the argument of \<open>Enqueue\<close> (the element is passed as a value);
  the garbage collector, including whether it sees the pointers that the \<open>*Ptr\<close> queues store as
  integers; cache-line padding; \<open>spin.Wait\<close>, which only pauses; weak memory. \<open>race.go\<close> and \<open>race_off.go\<close>
  hold a constant for the tests, \<open>doc.go\<close> documentation and \<open>internal/asm/stubs_*.go\<close> declarations without
  bodies (the generic stubs apart). The model assumes a 64-bit platform.

  \<^bold>\<open>Coverage.\<close> Every operation of every concrete type is modelled as a function, and every queue whose
  sides may have several goroutines also as interleaved steps (\<open>Drain\<close>, which sets a flag,
  is such a step of every fetch-and-add queue but \<open>SPMC\<close>). \<open>SPSCIndirect\<close> and \<open>SPSCPtr\<close>, which run the
  algorithm of \<open>SPSC\<close> on unchecked pointers, and the pointer types are not interleaved again.
\<close>

section \<open>Concurrent executions\<close>

text \<open>
  C1: SPSC is linearizable: in every interleaving of a producer and a consumer on a new queue
  (up to 2^64 - 1 shared accesses), the operations in the order in which they take effect get
  exactly the answers of the bounded FIFO, refusals included, and the contents of the queue
  are those of the FIFO.
\<close>

theorem SPSC_linearizable:
  assumes "2 \<le> sint c" and "sint c \<le> 2 ^ 62" and "NewSPSC zero c = ret q"
    and "exec (spsc_step zero) (spsc_init q) m ls cf" and "m \<le> 2 ^ 64 - 1"
  shows "fifo_run zero (unat (roundToPow2 c)) (map fst ls) [] = (map snd ls, spsc_celems cf)"
proof -
  from spsc_init_cinv [OF assms(1,2), of zero] assms(3) have q: "spsc_cinv 0 (spsc_init q)"
    "spsc_celems (spsc_init q) = []" "length (SPSC.buffer q) = unat (roundToPow2 c)" by (metis option.inject sum.inject(2))+
  from assms(5) have "m \<le> spsc_bound" by (simp add: spsc_bound_def)
  from spsc_lin.exec_linearizes [OF assms(4) q(1) this] q(2,3) show ?thesis by (simp add: spsc_init_def)
qed

theorem SPSC_linearizable_witness:
  "\<exists>q cf. NewSPSC 0 2 = ret q
    \<and> exec (spsc_step 0) (spsc_init q) 13
        [(Dequeue, DequeueRet 0 (Some ErrWouldBlock)), (Enqueue 7, EnqueueRet None), (Dequeue, DequeueRet 7 None)] cf
    \<and> fifo_run 0 2 [Dequeue, Enqueue 7, Dequeue] []
        = ([DequeueRet 0 (Some ErrWouldBlock), EnqueueRet None, DequeueRet (7 :: int) None], spsc_celems cf)"
proof -
  let ?ls = "[(Dequeue, DequeueRet 0 (Some ErrWouldBlock)), (Enqueue 7, EnqueueRet None), (Dequeue, DequeueRet (7 :: int) None)]"
  obtain q :: "int SPSC" where q: "NewSPSC 0 2 = ret q" "q = \<lparr>SPSC.head = 0, SPSC.cachedTail = 0, SPSC.tail = 0, SPSC.cachedHead = 0, SPSC.buffer = [0, 0], SPSC.mask_q = 1\<rparr>"
    by (simp add: NewSPSC_2)
  have "\<exists>cf. sched (spsc_do 0) [CallEnqueue 7, CallDequeue, Producer, Consumer, Consumer, Producer, Producer,
      CallDequeue, Consumer, Consumer, Consumer, Consumer, Consumer] (spsc_init q) = Some (?ls, cf)"
    by (simp add: spsc_init_def q(2))
  then obtain cf where "exec (spsc_step 0) (spsc_init q) 13 ?ls cf" by - (elim exE, drule spsc_sched_exec [where n = 13], auto)
  from this SPSC_linearizable [OF _ _ q(1) this] q(1) show ?thesis by (auto simp: NewSPSC_2 roundToPow2_2)
qed

text \<open>
  C2: MPMCSeq under any number of goroutines: number the values by the order in which their
  compare-and-swap on tail succeeds. In every interleaving (up to 2^62 shared accesses) a
  consumer that claimed position p returns value number p, no position is delivered twice, at
  most the capacity of positions are open, and whenever all goroutines are at rest exactly the
  positions below head have been delivered and the queue holds the remaining values in order:
  nothing is lost, duplicated or reordered. Enqueue is refused only if the queue is full or
  the consumer of the slot it needs is still at work, and Dequeue only if the queue is empty
  or the producer of the value it needs is still at work.
\<close>

theorem MPMCSeq_concurrent_fifo:
  assumes "atomix_ok A" and "2 \<le> sint c" and "sint c \<le> 2 ^ 62" and "NewMPMCSeq zero c = ret q"
    and "exec (seq_step A zero) (seq_init q) m ls cf" and "m < 2 ^ 62"
  shows "(\<forall>(p, x) \<in> set (delivs ls). p < length (accs ls) \<and> x = accs ls ! p) \<and> distinct (map fst (delivs ls))
    \<and> length (accs ls) \<le> unat (MPMCSeq.head (seq_conf.shared cf)) + unat (roundToPow2 c)
    \<and> ((\<forall>i. seq_conf.pcs cf i = Idle) \<longrightarrow> fst ` set (delivs ls) = {..<unat (MPMCSeq.head (seq_conf.shared cf))}
         \<and> seqq_elems (seq_conf.shared cf) = drop (unat (MPMCSeq.head (seq_conf.shared cf))) (accs ls))
    \<and> (\<forall>i pc q'. MPMCSeq_step A zero (seq_conf.pcs cf i) (seq_conf.shared cf) = ret (Some EnqueueRefused, pc, q') \<longrightarrow>
        unat (MPMCSeq.tail (seq_conf.shared cf)) = unat (MPMCSeq.head (seq_conf.shared cf)) + unat (roundToPow2 c)
        \<or> (\<exists>j. deq_pos (seq_conf.pcs cf j) = Some (unat (MPMCSeq.tail (seq_conf.shared cf)) - unat (roundToPow2 c))))
    \<and> (\<forall>i pc q'. MPMCSeq_step A zero (seq_conf.pcs cf i) (seq_conf.shared cf) = ret (Some DequeueRefused, pc, q') \<longrightarrow>
        unat (MPMCSeq.head (seq_conf.shared cf)) = unat (MPMCSeq.tail (seq_conf.shared cf))
        \<or> (\<exists>j. enq_pos (seq_conf.pcs cf j) = Some (unat (MPMCSeq.head (seq_conf.shared cf)))))"
proof -
  note sem = atomix_sem.intro [OF assms(1)] and i = seq_init_cinv [OF assms(4,2,3)]
  have m: "m < seq_bound" "m \<le> seq_bound" using assms(6) by (simp_all add: seq_bound_def)
  have I: "seq_cinv m ls cf" by (rule atomix_sem.seq_exec_inv [OF sem assms(5) i(1) m(2)])
  have n: "length (MPMCSeq.buffer (seq_conf.shared cf)) = unat (roundToPow2 c)"
    using atomix_sem.seq_exec_length [OF sem assms(5)] i(2) by (simp add: seq_init_def)
  have E: "\<exists>x t. seq_conf.pcs cf i = ESlot x t"
    if "MPMCSeq_step A zero (seq_conf.pcs cf i) (seq_conf.shared cf) = ret (Some EnqueueRefused, pc, q')" for i pc q'
    using that by (cases "seq_conf.pcs cf i") (auto simp: Let_def split: if_splits prod.splits)
  have D: "\<exists>h. seq_conf.pcs cf i = DSlot h"
    if "MPMCSeq_step A zero (seq_conf.pcs cf i) (seq_conf.shared cf) = ret (Some DequeueRefused, pc, q')" for i pc q'
    using that by (cases "seq_conf.pcs cf i") (auto simp: Let_def split: if_splits prod.splits)
  show ?thesis unfolding n [symmetric]
    using seq_cinv_delivered [OF I m(2)] enqueue_refused [OF I m(1)] dequeue_refused [OF I m(1)] E D
    by (intro conjI) (blast | metis)+
qed

theorem MPMCSeq_concurrent_fifo_witness:
  "\<exists>q cf q'. NewMPMCSeq 0 2 = ret q
    \<and> exec (seq_step atomix_impl 0) (seq_init q) 6 [Accepted (7 :: int)] cf
    \<and> MPMCSeq_step atomix_impl 0 (seq_conf.pcs cf 1) (seq_conf.shared cf) = ret (Some DequeueRefused, Idle, q')
    \<and> (\<exists>j. enq_pos (seq_conf.pcs cf j) = Some (unat (MPMCSeq.head (seq_conf.shared cf))))"
proof -
  obtain q :: "int MPMCSeq" where q: "NewMPMCSeq 0 2 = ret q" "q = \<lparr>MPMCSeq.tail = 0, MPMCSeq.head = 0,
      MPMCSeq.buffer = [\<lparr>seq = 0, data = 0\<rparr>, \<lparr>seq = 1, data = 0\<rparr>], MPMCSeq.mask_q = 1, MPMCSeq.capacity = 2\<rparr>"
    by (simp add: NewMPMCSeq_2)
  have "\<exists>cf. sched (seq_do atomix_impl 0) [SeqEnqueue 0 7, SeqDequeue 1, SeqRun 0, SeqRun 0, SeqRun 0, SeqRun 1] (seq_init q)
        = Some ([Accepted 7], cf)
      \<and> (\<exists>q'. MPMCSeq_step atomix_impl 0 (seq_conf.pcs cf 1) (seq_conf.shared cf) = ret (Some DequeueRefused, Idle, q'))
      \<and> MPMCSeq.head (seq_conf.shared cf) \<noteq> MPMCSeq.tail (seq_conf.shared cf)"
    by (simp add: seq_init_def q(2) atomix_impl_def cas_impl_def)
  then obtain cf q' where cf: "exec (seq_step atomix_impl 0) (seq_init q) 6 [Accepted 7] cf"
    "MPMCSeq_step atomix_impl 0 (seq_conf.pcs cf 1) (seq_conf.shared cf) = ret (Some DequeueRefused, Idle, q')"
    "MPMCSeq.head (seq_conf.shared cf) \<noteq> MPMCSeq.tail (seq_conf.shared cf)"
    by - (elim exE conjE, drule seq_sched_exec [where n = 6], auto)
  from MPMCSeq_concurrent_fifo [OF atomix_ok_impl _ _ q(1) cf(1)] cf q(1) show ?thesis
    by (auto simp: word_unat_eq_iff)
qed

text \<open>
  C3: the plain buffer accesses of SPSC do not race: in every interleaving, when the producer
  is about to write a slot and the consumer is about to read or clear one, the slots are
  different.
\<close>

theorem SPSC_race_free:
  assumes "2 \<le> sint c" and "sint c \<le> 2 ^ 62" and "NewSPSC zero c = ret q"
    and "exec (spsc_step zero) (spsc_init q) m ls cf" and "m \<le> 2 ^ 64 - 1"
    and "producer_slot (ppc cf) (spsc_conf.shared cf) = Some i" and "consumer_slot (cpc cf) (spsc_conf.shared cf) = Some j"
  shows "i \<noteq> j"
proof -
  from spsc_init_cinv [OF assms(1,2), of zero] assms(3) have q: "spsc_cinv 0 (spsc_init q)"
    by (metis option.inject sum.inject(2))
  from assms(5) have "m \<le> spsc_bound" by (simp add: spsc_bound_def)
  from spsc_no_race [OF spsc_lin.exec_inv(1) [OF assms(4) q this]] assms(6,7) show ?thesis by auto
qed

theorem SPSC_race_free_witness:
  "\<exists>q cf i j. NewSPSC (0 :: int) 2 = ret q \<and> exec (spsc_step 0) (spsc_init q) 9 [(Enqueue 7, EnqueueRet None)] cf
    \<and> producer_slot (ppc cf) (spsc_conf.shared cf) = Some i \<and> consumer_slot (cpc cf) (spsc_conf.shared cf) = Some j \<and> i \<noteq> j"
proof -
  obtain q :: "int SPSC" where q: "NewSPSC 0 2 = ret q" "q = \<lparr>SPSC.head = 0, SPSC.cachedTail = 0, SPSC.tail = 0, SPSC.cachedHead = 0, SPSC.buffer = [0, 0], SPSC.mask_q = 1\<rparr>"
    by (simp add: NewSPSC_2)
  have "\<exists>cf. sched (spsc_do 0) [CallEnqueue 7, Producer, Producer, Producer, CallEnqueue 8, Producer,
      CallDequeue, Consumer, Consumer] (spsc_init q) = Some ([(Enqueue 7, EnqueueRet None)], cf)
      \<and> (\<exists>i j. producer_slot (ppc cf) (spsc_conf.shared cf) = Some i \<and> consumer_slot (cpc cf) (spsc_conf.shared cf) = Some j)"
    by (simp add: spsc_init_def q(2))
  then obtain cf i j where cf: "exec (spsc_step 0) (spsc_init q) 9 [(Enqueue 7, EnqueueRet None)] cf"
    "producer_slot (ppc cf) (spsc_conf.shared cf) = Some i" "consumer_slot (cpc cf) (spsc_conf.shared cf) = Some j"
    by - (elim exE conjE, drule spsc_sched_exec [where n = 9], auto)
  from SPSC_race_free [OF _ _ q(1) cf(1) _ cf(2,3)] cf q(1) show ?thesis by auto
qed

text \<open>
  C4: SPSC is wait-free: in every interleaving the next step of a busy side succeeds, never
  panics, brings its call strictly closer to its end whatever the other side does (at most
  four steps for Enqueue, five for Dequeue), and ends the call exactly when it takes effect.
\<close>

theorem SPSC_wait_free:
  assumes "2 \<le> sint c" and "sint c \<le> 2 ^ 62" and "NewSPSC zero c = ret q"
    and "exec (spsc_step zero) (spsc_init q) m ls cf" and "m \<le> 2 ^ 64 - 1"
  shows "(ppc cf \<noteq> PIdle \<longrightarrow> (\<exists>l pc' q'. SPSC_Enqueue_step (ppc cf) (spsc_conf.shared cf) = ret (l, pc', q')
        \<and> producer_rank pc' < producer_rank (ppc cf) \<and> producer_rank (ppc cf) \<le> 4 \<and> (l \<noteq> None \<longleftrightarrow> pc' = PIdle)))
    \<and> (cpc cf \<noteq> CIdle \<longrightarrow> (\<exists>l pc' q'. SPSC_Dequeue_step zero (cpc cf) (spsc_conf.shared cf) = ret (l, pc', q')
        \<and> consumer_rank pc' < consumer_rank (cpc cf) \<and> consumer_rank (cpc cf) \<le> 5 \<and> (l \<noteq> None \<longleftrightarrow> pc' = CIdle)))"
proof -
  from spsc_init_cinv [OF assms(1,2), of zero] assms(3) have q: "spsc_cinv 0 (spsc_init q)"
    by (metis option.inject sum.inject(2))
  from assms(5) have "m \<le> spsc_bound" by (simp add: spsc_bound_def)
  from spsc_lin.exec_inv(1) [OF assms(4) q this] have s: "spsc_shape m (spsc_conf.shared cf)" by (simp add: spsc_cinv_def)
  have "producer_rank pc \<le> 4" "consumer_rank pc' \<le> 5" for pc :: "'a producer_pc" and pc' :: "'a consumer_pc"
    by (cases pc; simp) (cases pc'; simp)
  with producer_progress [OF s] consumer_progress [OF s] show ?thesis by meson
qed

theorem SPSC_wait_free_witness:
  "\<exists>q cf l pc' q'. NewSPSC (0 :: int) 2 = ret q \<and> exec (spsc_step 0) (spsc_init q) 2 [] cf
    \<and> SPSC_Enqueue_step (ppc cf) (spsc_conf.shared cf) = ret (l, pc', q') \<and> producer_rank pc' < producer_rank (ppc cf)"
proof -
  obtain q :: "int SPSC" where q: "NewSPSC 0 2 = ret q" "q = \<lparr>SPSC.head = 0, SPSC.cachedTail = 0, SPSC.tail = 0, SPSC.cachedHead = 0, SPSC.buffer = [0, 0], SPSC.mask_q = 1\<rparr>"
    by (simp add: NewSPSC_2)
  have "\<exists>cf. sched (spsc_do 0) [CallEnqueue 7, Producer] (spsc_init q) = Some ([], cf) \<and> ppc cf \<noteq> PIdle"
    by (simp add: spsc_init_def q(2))
  then obtain cf where cf: "exec (spsc_step 0) (spsc_init q) 2 [] cf" "ppc cf \<noteq> PIdle"
    by - (elim exE conjE, drule spsc_sched_exec [where n = 2], auto)
  from SPSC_wait_free [OF _ _ q(1) cf(1)] cf q(1) show ?thesis by auto
qed

lemma SPSC_steps_alone:
  "SPSC_Enqueue_alone (PCall x) q = SPSC_Enqueue x q \<and> SPSC_Dequeue_alone zero CCall q = SPSC_Dequeue zero q"
  by (simp add: enqueue_alone dequeue_alone)

lemma MPMCSeq_steps_alone:
  assumes "atomix_ok A" and "seqq_ok q"
  shows "MPMCSeq_Enqueue_alone A zero (ETail x) q = MPMCSeq_Enqueue A x q
    \<and> MPMCSeq_Dequeue_alone A zero DHead q = MPMCSeq_Dequeue A zero q"
  using atomix_sem.seq_enqueue_alone [OF atomix_sem.intro [OF assms(1)] assms(2)]
    atomix_sem.seq_dequeue_alone [OF atomix_sem.intro [OF assms(1)] assms(2)] by blast

text \<open>
  C5: MPMCSeq, MPSCSeq and SPMCSeq are lock-free: with G goroutines, in every interleaving of
  m shared accesses (call starts included, m up to 2^62) operations have taken effect at an
  explicit rate - at least (m - G (3 G + 3)) / (3 G + 4) of them in MPMCSeq, (m - G (4 G + 4))
  / (4 G + 6) in MPSCSeq and (m - G (4 G + 4)) / (4 G + 8) in SPMCSeq - however the goroutines
  are scheduled or delayed, so the retry loops of Enqueue and Dequeue cannot all spin; and no
  goroutine is ever stuck: each has a next step that neither panics nor waits.
\<close>

theorem Seq_lock_free:
  assumes "atomix_ok A" and "2 \<le> sint c" and "sint c \<le> 2 ^ 62"
    and "NewMPMCSeq zero c = ret q" and "exec (among seq_conf.pcs G (seq_step A zero)) (seq_init q) m ls cf" and "m < 2 ^ 62"
    and "NewMPSCSeq zero c = ret p" and "exec (among at_pc G (mpscs_step A zero)) (go_init p BIdle) k ps cp" and "k < 2 ^ 62"
    and "NewSPMCSeq zero c = ret s" and "exec (among at_pc G (spmcs_step A zero)) (go_init s GIdle) n ss cs" and "n < 2 ^ 62"
  shows "m \<le> (3 * G + 4) * length ls + G * (3 * G + 3)
    \<and> k \<le> (4 * G + 6) * length ps + G * (4 * G + 4)
    \<and> n \<le> (4 * G + 8) * length ss + G * (4 * G + 4)
    \<and> (\<forall>i. (\<exists>r. MPMCSeq_step A zero (seq_conf.pcs cf i) (seq_conf.shared cf) = ret r)
          \<and> (\<exists>r. MPSCSeq_step A zero (at_pc cp i) (memory cp) = ret r)
          \<and> (\<exists>r. SPMCSeq_step A zero (at_pc cs i) (memory cs) = ret r))"
proof -
  note sem = atomix_sem.intro [OF assms(1)] and new = assms(7) [unfolded NewSeq_same] assms(10) [unfolded NewSeq_same]
  have b: "m < seq_bound" "k < seq_bound" "n < seq_bound" using assms(6,9,12) by (simp_all add: seq_bound_def)
  have id: "seq_conf.pcs (seq_init q) j = Idle" "at_pc (go_init p BIdle) j = BIdle" "at_pc (go_init s GIdle) j = GIdle" for j
    by (simp_all add: seq_init_def go_init_def)
  note M = atomix_sem.mpmcs_progress [OF sem assms(5) seq_init_cinv(1) [OF assms(4,2,3)] id(1) less_imp_le [OF b(1)]]
    and K = atomix_sem.mpscs_progress [OF sem assms(8) mpscs_init [OF new(1) assms(2,3)] id(2) less_imp_le [OF b(2)]]
    and N = atomix_sem.spmcs_progress [OF sem assms(11) spmcs_init [OF new(2) assms(2,3)] id(3) less_imp_le [OF b(3)]]
  show ?thesis
    by (intro conjI allI M(1) K(1) N(1) MPMCSeq_step_ret [OF M(2) b(1)] MPSCSeq_step_ret [OF K(2) b(2)] SPMCSeq_step_ret [OF N(2) b(3)])
qed

theorem Seq_lock_free_witness:
  "\<exists>q cf p cp s cs. NewMPMCSeq 0 2 = ret q \<and> NewMPSCSeq 0 2 = ret p \<and> NewSPMCSeq 0 2 = ret s
    \<and> exec (among seq_conf.pcs 2 (seq_step atomix_impl 0)) (seq_init q) 18 [Accepted (7 :: int), Accepted 8] cf
    \<and> (18 :: nat) \<le> (3 * 2 + 4) * length [Accepted (7 :: int), Accepted 8] + 2 * (3 * 2 + 3)
    \<and> exec (among at_pc 2 (mpscs_step atomix_impl 0)) (go_init p BIdle) 8 [Accepted (7 :: int)] cp
    \<and> (8 :: nat) \<le> (4 * 2 + 6) * length [Accepted (7 :: int)] + 2 * (4 * 2 + 4)
    \<and> exec (among at_pc 2 (spmcs_step atomix_impl 0)) (go_init s GIdle) 9 [Accepted (7 :: int), DequeueRefused] cs
    \<and> (9 :: nat) \<le> (4 * 2 + 8) * length [Accepted (7 :: int), DequeueRefused] + 2 * (4 * 2 + 4)"
proof -
  let ?ls = "[Accepted 7, Accepted (8 :: int)]" and ?ps = "[Accepted (7 :: int)]" and ?ss = "[Accepted (7 :: int), DequeueRefused]"
  obtain q :: "int MPMCSeq" where q: "NewMPMCSeq 0 2 = ret q" "q = \<lparr>MPMCSeq.tail = 0, MPMCSeq.head = 0,
      MPMCSeq.buffer = [\<lparr>seq = 0, data = 0\<rparr>, \<lparr>seq = 1, data = 0\<rparr>], MPMCSeq.mask_q = 1, MPMCSeq.capacity = 2\<rparr>"
    by (simp add: NewMPMCSeq_2)
  note q2 = q(1) [folded NewSeq_same(1)] q(1) [folded NewSeq_same(2)]
  have le: "\<not> (2 :: u64) \<le> 1" by code_simp
  have "\<exists>cf. sched (among_do seq_mover 2 (seq_do atomix_impl 0))
      [SeqEnqueue 0 7, SeqEnqueue 1 8, SeqRun 0, SeqRun 1, SeqRun 0, SeqRun 1, SeqRun 0, SeqRun 1, SeqRun 1, SeqRun 1,
       SeqRun 1, SeqRun 1, SeqRun 0, SeqRun 0, SeqRun 1, SeqDequeue 0, SeqRun 0, SeqRun 0] (seq_init q) = Some (?ls, cf)"
    by (simp add: among_do_def seq_init_def q(2) atomix_impl_def cas_impl_def)
  then obtain cf where cf: "exec (among seq_conf.pcs 2 (seq_step atomix_impl 0)) (seq_init q) 18 ?ls cf"
    by - (elim exE, drule seq_among_sched [where n = 18], auto)
  have "\<exists>cf. sched (among_do go_mover 2 (go_do (MPSCSeq_step atomix_impl 0) BIdle BETail BDHead (\<lambda>_. True) (\<lambda>i. i = 0)))
      [StartEnqueue 1 7, StartDequeue 0, Resume 1, Resume 1, Resume 1, Resume 1, Resume 1, Resume 1] (go_init q BIdle) = Some (?ps, cf)"
    by (simp add: among_do_def go_init_def q(2) atomix_impl_def cas_impl_def Let_def le)
  then obtain cp where cp: "exec (among at_pc 2 (mpscs_step atomix_impl 0)) (go_init q BIdle) 8 ?ps cp"
    by - (elim exE, drule go_among_sched [where n = 8], auto)
  have "\<exists>cf. sched (among_do go_mover 2 (go_do (SPMCSeq_step atomix_impl 0) GIdle GETail GDHead (\<lambda>i. i = 0) (\<lambda>_. True)))
      [StartEnqueue 0 7, StartDequeue 1, Resume 0, Resume 0, Resume 0, Resume 0, Resume 1, Resume 1, Resume 0] (go_init q GIdle) = Some (?ss, cf)"
    by (simp add: among_do_def go_init_def q(2) atomix_impl_def cas_impl_def Let_def le)
  then obtain cs where cs: "exec (among at_pc 2 (spmcs_step atomix_impl 0)) (go_init q GIdle) 9 ?ss cs"
    by - (elim exE, drule go_among_sched [where n = 9], auto)
  from Seq_lock_free [OF atomix_ok_impl _ _ q(1) cf _ q2(1) cp _ q2(2) cs] cf cp cs q(1) q2 show ?thesis by auto
qed

text \<open>
  C6: MPSCSeq with any number of producers and its single consumer: in every interleaving (up
  to 2^62 shared accesses) the values delivered are, in order, the first of the values whose
  compare-and-swap on tail succeeded, at most the capacity of them are inside, and when all
  goroutines are at rest the queue holds exactly the rest. Enqueue is refused only while tail
  is a whole lap ahead of head; Dequeue only if the queue is empty or the producer of the
  value it needs is still at work.
\<close>

theorem MPSCSeq_concurrent_fifo:
  assumes "atomix_ok A" and "2 \<le> sint c" and "sint c \<le> 2 ^ 62" and "NewMPSCSeq zero c = ret q"
    and "exec (mpscs_step A zero) (go_init q BIdle) m ls cf" and "m < 2 ^ 62"
  shows "(\<exists>rest. accs ls = map snd (delivs ls) @ rest \<and> length rest \<le> unat (roundToPow2 c)
      \<and> ((\<forall>i. at_pc cf i = BIdle) \<longrightarrow> rest = seqq_elems (memory cf)))
    \<and> (\<forall>i pc q'. MPSCSeq_step A zero (at_pc cf i) (memory cf) = ret (Some EnqueueRefused, pc, q') \<longrightarrow>
        unat (MPMCSeq.tail (memory cf)) = unat (MPMCSeq.head (memory cf)) + unat (roundToPow2 c))
    \<and> (\<forall>i pc q'. MPSCSeq_step A zero (at_pc cf i) (memory cf) = ret (Some DequeueRefused, pc, q') \<longrightarrow>
        MPMCSeq.head (memory cf) = MPMCSeq.tail (memory cf)
        \<or> (\<exists>j x. at_pc cf j = BEData x (MPMCSeq.head (memory cf)) \<or> at_pc cf j = BESeq x (MPMCSeq.head (memory cf))))"
proof -
  note sem = atomix_sem.intro [OF assms(1)] and new = assms(4) [unfolded NewSeq_same]
  have m: "m < seq_bound" "m \<le> seq_bound" using assms(6) by (simp_all add: seq_bound_def)
  have I: "mpscs_inv m ls cf" by (rule atomix_sem.mpscs_exec_inv [OF sem assms(5) mpscs_init [OF new assms(2,3)] m(2)])
  note R = mpscs_results [OF I m(2)]
  have n: "length (MPMCSeq.buffer (memory cf)) = unat (roundToPow2 c)"
    using atomix_sem.mpscs_exec_length [OF sem assms(5)] seq_init_cinv(2) [OF new assms(2,3)] by (simp add: go_init_def)
  have "accs ls = map snd (delivs ls) @ drop (length (delivs ls)) (accs ls)" unfolding R(1) by simp
  moreover have "length (accs ls) \<le> length (delivs ls) + unat (roundToPow2 c)" using R(2,3) mpscs_invD(6) [OF I] n by simp
  ultimately show ?thesis unfolding n [symmetric]
    by (intro conjI allI impI exI [of _ "drop (length (delivs ls)) (accs ls)"] R(4) [symmetric])
      (use n in \<open>auto dest: mpscs_enqueue_refused [OF I m(1)] mpscs_dequeue_refused [OF I m(1)]\<close>)
qed

theorem MPSCSeq_concurrent_fifo_witness:
  "\<exists>q cf. NewMPSCSeq 0 2 = ret q
    \<and> exec (mpscs_step atomix_impl 0) (go_init q BIdle) 35
        [Accepted (7 :: int), Accepted 8, EnqueueRefused, Delivered 0 7, Accepted 9] cf
    \<and> (\<forall>i. at_pc cf i = BIdle) \<and> seqq_elems (memory cf) = [8, 9]"
proof -
  let ?ls = "[Accepted (7 :: int), Accepted 8, EnqueueRefused, Delivered 0 7, Accepted 9]"
  obtain q :: "int MPMCSeq" where q: "NewMPSCSeq 0 2 = ret q" "q = \<lparr>MPMCSeq.tail = 0, MPMCSeq.head = 0,
      MPMCSeq.buffer = [\<lparr>seq = 0, data = 0\<rparr>, \<lparr>seq = 1, data = 0\<rparr>], MPMCSeq.mask_q = 1, MPMCSeq.capacity = 2\<rparr>"
    by (simp add: NewSeq_same NewMPMCSeq_2)
  let ?mvs = "[StartEnqueue 1 7, StartEnqueue 2 8, Resume 1, Resume 2, Resume 1, Resume 2, Resume 1, Resume 2, Resume 1, Resume 2,
    Resume 2, Resume 2, Resume 2, Resume 2, Resume 1, Resume 2, Resume 2, Resume 1, StartEnqueue 3 9, Resume 3, Resume 3,
    StartDequeue 0, Resume 0, Resume 0, Resume 0, Resume 0, Resume 0, Resume 0,
    StartEnqueue 3 9, Resume 3, Resume 3, Resume 3, Resume 3, Resume 3, Resume 3]"
  have le: "\<not> (2 :: u64) \<le> 1" by code_simp
  have "\<exists>cf. sched (go_do (MPSCSeq_step atomix_impl 0) BIdle BETail BDHead (\<lambda>_. True) (\<lambda>i. i = 0)) ?mvs (go_init q BIdle) = Some (?ls, cf)
      \<and> (\<forall>i. at_pc cf i = BIdle)"
    by (simp add: go_init_def q(2) atomix_impl_def cas_impl_def Let_def le)
  then obtain cf where cf: "exec (mpscs_step atomix_impl 0) (go_init q BIdle) 35 ?ls cf" "\<And>i. at_pc cf i = BIdle"
    by - (elim exE conjE, drule go_sched_exec [where n = 35], auto)
  from conjunct1 [OF MPSCSeq_concurrent_fifo [OF atomix_ok_impl _ _ q(1) cf(1)]] cf q(1) show ?thesis by auto
qed

text \<open>
  C7: SPMCSeq with its single producer and any number of consumers: in every interleaving (up
  to 2^62 shared accesses) a consumer that claimed position p returns the value enqueued as
  number p, no position is delivered twice, at most the capacity of positions are open, and
  when all goroutines are at rest exactly the positions below head have been delivered and the
  queue holds the other values in order. Dequeue is refused only if head equals tail; Enqueue
  only if the queue is full or the consumer of the slot it needs is still at work.
\<close>

theorem SPMCSeq_concurrent_fifo:
  assumes "atomix_ok A" and "2 \<le> sint c" and "sint c \<le> 2 ^ 62" and "NewSPMCSeq zero c = ret q"
    and "exec (spmcs_step A zero) (go_init q GIdle) m ls cf" and "m < 2 ^ 62"
  shows "(\<forall>(p, x) \<in> set (delivs ls). p < length (accs ls) \<and> x = accs ls ! p) \<and> distinct (map fst (delivs ls))
    \<and> length (accs ls) \<le> unat (MPMCSeq.head (memory cf)) + unat (roundToPow2 c)
    \<and> ((\<forall>i. at_pc cf i = GIdle) \<longrightarrow> fst ` set (delivs ls) = {..<unat (MPMCSeq.head (memory cf))}
         \<and> seqq_elems (memory cf) = drop (unat (MPMCSeq.head (memory cf))) (accs ls))
    \<and> (\<forall>i pc q'. SPMCSeq_step A zero (at_pc cf i) (memory cf) = ret (Some DequeueRefused, pc, q') \<longrightarrow>
        MPMCSeq.head (memory cf) = MPMCSeq.tail (memory cf))
    \<and> (\<forall>i pc q'. SPMCSeq_step A zero (at_pc cf i) (memory cf) = ret (Some EnqueueRefused, pc, q') \<longrightarrow>
        unat (MPMCSeq.tail (memory cf)) = unat (MPMCSeq.head (memory cf)) + unat (roundToPow2 c)
        \<or> (\<exists>j h. unat h + unat (roundToPow2 c) = unat (MPMCSeq.tail (memory cf))
            \<and> (at_pc cf j = GDData h \<or> (\<exists>x. at_pc cf j = GDClear h x \<or> at_pc cf j = GDSeq h x))))"
proof -
  note sem = atomix_sem.intro [OF assms(1)] and new = assms(4) [unfolded NewSeq_same]
  have m: "m < seq_bound" "m \<le> seq_bound" using assms(6) by (simp_all add: seq_bound_def)
  have I: "spmcs_inv m ls cf" by (rule atomix_sem.spmcs_exec_inv [OF sem assms(5) spmcs_init [OF new assms(2,3)] m(2)])
  note R = spmcs_results [OF I m(2)]
  have n: "length (MPMCSeq.buffer (memory cf)) = unat (roundToPow2 c)"
    using atomix_sem.spmcs_exec_length [OF sem assms(5)] seq_init_cinv(2) [OF new assms(2,3)] by (simp add: go_init_def)
  show ?thesis unfolding n [symmetric]
    by (intro conjI allI impI ballI R)
      (use R(2) in \<open>auto dest: spmcs_dequeue_refused [OF I m(1)] spmcs_enqueue_refused [OF I m(1)]\<close>)
qed

theorem SPMCSeq_concurrent_fifo_witness:
  "\<exists>q cf. NewSPMCSeq 0 2 = ret q
    \<and> exec (spmcs_step atomix_impl 0) (go_init q GIdle) 37
        [Accepted (7 :: int), Accepted 8, Delivered 1 8, EnqueueRefused, Delivered 0 7, Accepted 9] cf
    \<and> (\<forall>i. at_pc cf i = GIdle) \<and> MPMCSeq.head (memory cf) = 2 \<and> seqq_elems (memory cf) = [9]"
proof -
  let ?ls = "[Accepted (7 :: int), Accepted 8, Delivered 1 8, EnqueueRefused, Delivered 0 7, Accepted 9]"
  obtain q :: "int MPMCSeq" where q: "NewSPMCSeq 0 2 = ret q" "q = \<lparr>MPMCSeq.tail = 0, MPMCSeq.head = 0,
      MPMCSeq.buffer = [\<lparr>seq = 0, data = 0\<rparr>, \<lparr>seq = 1, data = 0\<rparr>], MPMCSeq.mask_q = 1, MPMCSeq.capacity = 2\<rparr>"
    by (simp add: NewSeq_same NewMPMCSeq_2)
  let ?mvs = "[StartEnqueue 0 7, Resume 0, Resume 0, Resume 0, Resume 0, Resume 0, StartEnqueue 0 8, Resume 0, Resume 0, Resume 0, Resume 0, Resume 0,
    StartDequeue 1, Resume 1, Resume 1, Resume 1, Resume 1, Resume 1, StartDequeue 2, Resume 2, Resume 2, Resume 2, Resume 2,
    Resume 2, Resume 2, Resume 2, StartEnqueue 0 9, Resume 0, Resume 0, Resume 1, Resume 1, StartEnqueue 0 9, Resume 0, Resume 0, Resume 0, Resume 0, Resume 0]"
  have le: "\<not> (2 :: u64) \<le> 1" by code_simp
  have "\<exists>cf. sched (go_do (SPMCSeq_step atomix_impl 0) GIdle GETail GDHead (\<lambda>i. i = 0) (\<lambda>_. True)) ?mvs (go_init q GIdle) = Some (?ls, cf)
      \<and> (\<forall>i. at_pc cf i = GIdle) \<and> MPMCSeq.head (memory cf) = 2"
    by (simp add: go_init_def q(2) atomix_impl_def cas_impl_def Let_def le)
  then obtain cf where cf: "exec (spmcs_step atomix_impl 0) (go_init q GIdle) 37 ?ls cf" "\<And>i. at_pc cf i = GIdle" "MPMCSeq.head (memory cf) = 2"
    by - (elim exE conjE, drule go_sched_exec [where n = 37], auto)
  from SPMCSeq_concurrent_fifo [OF atomix_ok_impl _ _ q(1) cf(1)] cf q(1) show ?thesis by auto
qed

text \<open>
  C8: MPSC with P producers and its single consumer: in every interleaving (up to 2^62 shared
  accesses) the consumer has received exactly the positions 0, 1, 2, ... in order, each with
  the value that its producer stored there, and no position is filled twice. Fewer than
  capacity + P positions are ever open, and with P at most capacity + 1 producers no claimed
  position is given up. Whenever the producers are at rest, every claimed position has been
  filled or given up.
\<close>

theorem MPSC_concurrent_fifo:
  assumes "atomix_ok A" and "2 \<le> sint c" and "sint c \<le> 2 ^ 61" and "NewMPSC zero c = ret q"
    and "exec (mpsc_step A zero P) (mpsc_init q) m ls cf" and "m \<le> 2 ^ 62"
  shows "map fst (mdelivs ls) = [0..<unat (MPSC.sc_head (mpsc_conf.shared cf))] \<and> set (mdelivs ls) \<subseteq> set (stores ls)
    \<and> distinct (map fst (stores ls))
    \<and> (0 < P \<longrightarrow> unat (MPSC.sc_tail (mpsc_conf.shared cf)) < unat (MPSC.sc_head (mpsc_conf.shared cf)) + unat (roundToPow2 c) + P)
    \<and> (P \<le> unat (roundToPow2 c) + 1 \<longrightarrow> burns ls = [])
    \<and> ((\<forall>i. epcs cf i = SIdle) \<longrightarrow> fst ` set (stores ls) \<union> set (burns ls) = {..<unat (MPSC.sc_tail (mpsc_conf.shared cf))})"
proof -
  from mpsc_init_pinv [OF assms(4,2,3), of P] obtain k where
    k: "mpsc_pinv k P 0 [] (mpsc_init q)" "unat (roundToPow2 c) = 2 ^ k" by blast
  have "m \<le> mpsc_bound" using assms(6) by (simp add: mpsc_bound_def)
  note R = mpsc_pinv_results [OF atomix_sem.mpsc_exec_inv [OF atomix_sem.intro [OF assms(1)] assms(5) k(1) this]]
  show ?thesis unfolding k(2) by (intro conjI impI R)
qed

theorem MPSC_concurrent_fifo_witness:
  "\<exists>q cf. NewMPSC 0 2 = ret q
    \<and> exec (mpsc_step atomix_impl 0 2) (mpsc_init q) 24 [MStored 1 8, MEmpty, MStored 0 7, MDelivered 0 (7 :: int)] cf
    \<and> fst ` set (stores [MStored 1 8, MEmpty, MStored 0 7, MDelivered 0 (7 :: int)])
        = {..<unat (MPSC.sc_tail (mpsc_conf.shared cf))}"
proof -
  let ?ls = "[MStored 1 8, MEmpty, MStored 0 7, MDelivered 0 (7 :: int)]"
  obtain q :: "int MPSC" where q: "NewMPSC 0 2 = ret q" "q = \<lparr>MPSC.sc_head = 0, MPSC.sc_tail = 0, MPSC.sc_draining = False,
     MPSC.sc_buffer = [\<lparr>cycle = 0, data = 0\<rparr>, \<lparr>cycle = 0, data = 0\<rparr>, \<lparr>cycle = 1, data = 0\<rparr>, \<lparr>cycle = 1, data = 0\<rparr>],
     MPSC.sc_capacity = 2, MPSC.sc_size = 4, MPSC.sc_mask = 3\<rparr>" by (simp add: NewMPSC_2)
  let ?mvs = "[SEnqueue 0 7, SEnqueue 1 8, SRun 0, SRun 0, SRun 0, SRun 1, SRun 1, SRun 1, SRun 1, SRun 1, SRun 1,
    SDequeue, SConsume, SConsume, SRun 0, SRun 0, SRun 0,
    SDequeue, SConsume, SConsume, SConsume, SConsume, SConsume, SConsume]"
  have le: "\<not> (2 :: u64) \<le> 1" by code_simp
  have "\<exists>cf. sched (mpsc_do atomix_impl 0 2) ?mvs (mpsc_init q) = Some (?ls, cf) \<and> (\<forall>i. epcs cf i = SIdle)"
    by (simp add: mpsc_init_def q(2) atomix_impl_def add_impl_def Let_def le)
  then obtain cf where cf: "exec (mpsc_step atomix_impl 0 2) (mpsc_init q) 24 ?ls cf" "\<And>i. epcs cf i = SIdle"
    by - (elim exE conjE, drule mpsc_sched_exec [where n = 24], auto)
  from MPSC_concurrent_fifo [OF atomix_ok_impl _ _ q(1) cf(1)] cf q(1) show ?thesis by auto
qed

text \<open>
  C9: MPSCIndirect with P producers and its single consumer: in every interleaving (up to 2^62
  shared accesses) the consumer has received exactly the positions 0, 1, 2, ... in order, each
  with the value that its producer stored there, and no position is filled twice. Fewer than
  capacity + P positions are ever open, with P at most capacity + 1 producers no claimed
  position is given up, and whenever the producers are at rest every claimed position has been
  filled or given up. The compare-and-swap of a producer that found its slot free does not
  fail.
\<close>

theorem MPSCIndirect_concurrent_fifo:
  assumes "atomix_ok A" and "2 \<le> sint c" and "sint c \<le> 2 ^ 61" and "NewMPSCIndirect c = ret q"
    and "exec (mpsci_step A P) (mpsci_init q) m ls cf" and "m \<le> 2 ^ 62"
  shows "map fst (mdelivs ls) = [0..<unat (MPSCIndirect.sc_head (mem128 cf))] \<and> set (mdelivs ls) \<subseteq> set (stores ls)
    \<and> distinct (map fst (stores ls))
    \<and> (0 < P \<longrightarrow> unat (MPSCIndirect.sc_tail (mem128 cf)) < unat (MPSCIndirect.sc_head (mem128 cf)) + unat (roundToPow2 c) + P)
    \<and> (P \<le> unat (roundToPow2 c) + 1 \<longrightarrow> burns ls = [])
    \<and> ((\<forall>i. epcs128 cf i = TIdle) \<longrightarrow> fst ` set (stores ls) \<union> set (burns ls) = {..<unat (MPSCIndirect.sc_tail (mem128 cf))})
    \<and> (\<forall>i x p v. epcs128 cf i = TECas x p v \<longrightarrow>
         (\<exists>q'. MPSCIndirect_Enqueue_step A (epcs128 cf i) (mem128 cf) = ret (Some (MStored (unat p) x), TIdle, q')))"
proof -
  note sem = atomix_sem.intro [OF assms(1)]
  from mpsci_init_pinv [OF assms(4,2,3), of P] obtain k where
    k: "mpsci_pinv k P 0 [] (mpsci_init q)" "unat (roundToPow2 c) = 2 ^ k" by blast
  have "m \<le> mpsc_bound" using assms(6) by (simp add: mpsc_bound_def)
  note I = atomix_sem.mpsci_exec_inv [OF sem assms(5) k(1) this]
  note R = mpsc_pinv_results [OF mpsci_pinvD(1) [OF I], simplified]
  show ?thesis unfolding k(2) by (intro conjI impI allI R) ((erule atomix_sem.mpsci_swap_succeeds [OF sem I] | simp)+)
qed

theorem MPSCIndirect_concurrent_fifo_witness:
  "\<exists>q cf. NewMPSCIndirect 2 = ret q
    \<and> exec (mpsci_step atomix_impl 2) (mpsci_init q) 20 [MStored 1 8, MEmpty, MStored 0 7, MDelivered 0 7] cf
    \<and> fst ` set (stores [MStored 1 8, MEmpty, MStored 0 7, MDelivered 0 (7 :: u64)])
        = {..<unat (MPSCIndirect.sc_tail (mem128 cf))}"
proof -
  let ?ls = "[MStored 1 8, MEmpty, MStored 0 7, MDelivered 0 7] :: u64 mpsc_label list"
  obtain q where q: "NewMPSCIndirect 2 = ret q" "q = \<lparr>MPSCIndirect.sc_head = 0, MPSCIndirect.sc_tail = 0, MPSCIndirect.sc_draining = False,
     MPSCIndirect.sc_buffer = [\<lparr>mpmc128Slot.entry = (0, 0)\<rparr>, \<lparr>mpmc128Slot.entry = (0, 0)\<rparr>, \<lparr>mpmc128Slot.entry = (1, 0)\<rparr>, \<lparr>mpmc128Slot.entry = (1, 0)\<rparr>],
     MPSCIndirect.sc_capacity = 2, MPSCIndirect.sc_size = 4, MPSCIndirect.sc_mask = 3\<rparr>" by (simp add: NewMPSCIndirect_2)
  let ?mvs = "[SEnqueue 0 7, SEnqueue 1 8, SRun 0, SRun 0, SRun 0, SRun 1, SRun 1, SRun 1, SRun 1, SRun 1,
    SDequeue, SConsume, SConsume, SRun 0, SRun 0, SDequeue, SConsume, SConsume, SConsume, SConsume]"
  have le: "\<not> (2 :: u64) \<le> 1" by code_simp
  have "\<exists>cf. sched (mpsci_do atomix_impl 2) ?mvs (mpsci_init q) = Some (?ls, cf) \<and> (\<forall>i. epcs128 cf i = TIdle)"
    by (simp add: mpsci_init_def q(2) atomix_impl_def add_impl_def cas_impl_def Let_def le)
  then obtain cf where cf: "exec (mpsci_step atomix_impl 2) (mpsci_init q) 20 ?ls cf" "\<And>i. epcs128 cf i = TIdle"
    by - (elim exE conjE, drule mpsci_sched_exec [where n = 20], auto)
  from MPSCIndirect_concurrent_fifo [OF atomix_ok_impl _ _ q(1) cf(1)] cf q(1) show ?thesis by auto
qed

text \<open>
  C10: MPMCIndirect under any number of goroutines and SPMCIndirect with its single producer
  and any number of consumers: in every interleaving (up to 2^62 shared accesses) no position
  is filled twice, no position is delivered twice, and what is delivered at a position is the
  value stored there: values are never duplicated or invented.
\<close>

theorem FAA128_at_most_once:
  assumes "atomix_ok A" and "2 \<le> sint c" and "sint c \<le> 2 ^ 61" and "m \<le> 2 ^ 62"
    and "NewMPMCIndirect c = ret q" and "exec (faa128_step A) (faa128_init q) m ls cf"
    and "NewSPMCIndirect c = ret r" and "exec (spmci_step A) (go_init r YIdle) m ks df"
  shows "distinct (map fst (xstores ls)) \<and> distinct (map fst (xdelivs ls)) \<and> set (xdelivs ls) \<subseteq> set (xstores ls)
    \<and> distinct (map fst (xstores ks)) \<and> distinct (map fst (xdelivs ks)) \<and> set (xdelivs ks) \<subseteq> set (xstores ks)"
proof -
  note sem = atomix_sem.intro [OF assms(1)]
  have m: "m \<le> faa128_bound" using assms(4) by (simp add: faa128_bound_def)
  from faa128_init_cinv [OF assms(5,2,3)] obtain k where k: "faa128_cinv k 0 [] (faa128_init q)" by blast
  note I = faa128_cinvD [OF atomix_sem.faa128_exec_inv [OF sem assms(6) k m]]
  from spmci_init_inv [OF assms(7) [unfolded New128_same] assms(2,3)] obtain j where j: "spmci_inv j 0 [] (go_init r YIdle)" by blast
  from atomix_sem.spmci_exec_inv [OF sem assms(8) j m] obtain g where "faa128_cinv j m ks (spmci_abs g df)" by (auto simp: spmci_inv_def)
  note J = faa128_cinvD [OF this]
  show ?thesis by (intro conjI I(8-10) J(8-10))
qed

theorem FAA128_at_most_once_witness:
  "\<exists>q cf df. NewMPMCIndirect 2 = ret q \<and> NewSPMCIndirect 2 = ret q
    \<and> exec (faa128_step atomix_impl) (faa128_init q) 18 [XStored 0 7, XStored 1 8, XDelivered 0 7] cf
    \<and> exec (spmci_step atomix_impl) (go_init q YIdle) 18 [XStored 0 7, XStored 1 8, XDelivered 0 7] df
    \<and> set (xdelivs [XStored 0 7, XStored 1 8, XDelivered 0 7]) \<subseteq> set (xstores [XStored 0 7, XStored 1 8, XDelivered 0 7])"
proof -
  let ?ls = "[XStored 0 7, XStored 1 8, XDelivered 0 7]"
  obtain q where q: "NewMPMCIndirect 2 = ret q" "q = \<lparr>MPMCIndirect.tail = 0, MPMCIndirect.head = 0, MPMCIndirect.threshold = 5,
     MPMCIndirect.draining = False,
     MPMCIndirect.buffer = [\<lparr>mpmc128Slot.entry = (0, 0)\<rparr>, \<lparr>mpmc128Slot.entry = (0, 0)\<rparr>, \<lparr>mpmc128Slot.entry = (1, 0)\<rparr>, \<lparr>mpmc128Slot.entry = (1, 0)\<rparr>],
     MPMCIndirect.capacity = 2, MPMCIndirect.size_q = 4, MPMCIndirect.mask_q = 3\<rparr>" by (simp add: NewMPMCIndirect_2)
  from q(1) have n: "NewSPMCIndirect 2 = ret q" by (simp add: New128_same)
  let ?mvs = "[XEnqueue 0 7, XRun 0, XRun 0, XRun 0, XEnqueue 1 8, XRun 1, XRun 1, XRun 1, XRun 0, XRun 0, XRun 1, XRun 1,
    XDequeue 2, XRun 2, XRun 2, XRun 2, XRun 2, XRun 2]"
  have le: "\<not> (2 :: u64) \<le> 1" by code_simp
  have "\<exists>cf. sched (faa128_do atomix_impl) ?mvs (faa128_init q) = Some (?ls, cf)"
    by (simp add: faa128_init_def q(2) atomix_impl_def add_impl_def cas_impl_def Let_def le)
  then obtain cf where cf: "exec (faa128_step atomix_impl) (faa128_init q) 18 ?ls cf"
    by - (elim exE, drule faa128_sched_exec [where n = 18], auto)
  let ?moves = "[StartEnqueue 0 7, Resume 0, Resume 0, Resume 0, Resume 0, Resume 0, Resume 0,
    StartEnqueue 0 8, Resume 0, Resume 0, Resume 0, Resume 0, StartDequeue 2, Resume 2, Resume 2, Resume 2, Resume 2, Resume 2]"
  have "\<exists>df. sched (go_do (SPMCIndirect_step atomix_impl) YIdle YETail YDDraining (\<lambda>i. i = 0) (\<lambda>_. True)) ?moves (go_init q YIdle) = Some (?ls, df)"
    by (simp add: go_init_def q(2) atomix_impl_def add_impl_def cas_impl_def Let_def le)
  then obtain df where df: "exec (spmci_step atomix_impl) (go_init q YIdle) 18 ?ls df"
    by - (elim exE, drule spmci_sched_exec [where n = 18], auto)
  from cf df FAA128_at_most_once [OF atomix_ok_impl _ _ _ q(1) cf n df] q(1) n show ?thesis by auto
qed

text \<open>
  C11: the step models of MPMC, MPSC, SPMC, MPMCIndirect, MPSCIndirect and SPMCIndirect are
  the code: from every well-formed state, a call whose steps run without interference is the
  call as one function, with the same result and the same final state. The pointer variants
  MPMCPtr, MPSCPtr and SPMCPtr equal the uintptr ones in every state.
\<close>

theorem FAA_steps_alone:
  assumes "atomix_ok A" and "mpmc_inv 1 q" and "mpmc_inv 1 (mpsc_abs r)" and "mpmc_inv 1 (faa128_abs s)"
    and "mpmc_inv 1 (mpsc_abs (mpsc128_abs u))"
  shows "run_alone (MPMC_step A zero) FIdle None (FETail x) q
      = go_bind (MPMC_Enqueue A x q) (\<lambda>(e, q'). ret (Some (Enqueue x, EnqueueRet e), q'))
    \<and> run_alone (MPMC_step A zero) FIdle None FDDraining q
      = go_bind (MPMC_Dequeue A zero q) (\<lambda>((v, e), q'). ret (Some (Dequeue, DequeueRet v e), q'))
    \<and> run_alone (SPMC_step A zero) QIdle None (QETail x) q
      = go_bind (SPMC_Enqueue x q) (\<lambda>(e, q'). ret (Some (Enqueue x, EnqueueRet e), q'))
    \<and> run_alone (SPMC_step A zero) QIdle None QDDraining q
      = go_bind (SPMC_Dequeue A zero q) (\<lambda>((v, e), q'). ret (Some (Dequeue, DequeueRet v e), q'))
    \<and> go_bind (run_alone (MPSC_Enqueue_step A) SIdle None (SETail y) r) (\<lambda>(l, r'). ret (mpsc_enq_result l, r'))
      = MPSC_Enqueue A y r
    \<and> go_bind (run_alone (MPSC_Dequeue_step zero') SDIdle None SDHead r) (\<lambda>(l, r'). ret (mpsc_deq_result zero' l, r'))
      = MPSC_Dequeue zero' r
    \<and> go_bind (run_alone (MPMCIndirect_step A) XIdle None (XETail w) s) (\<lambda>(l, s'). ret (faa128_enq_result l, s'))
      = MPMCIndirect_Enqueue A w s
    \<and> go_bind (run_alone (MPMCIndirect_step A) XIdle None XDDraining s) (\<lambda>(l, s'). ret (faa128_deq_result l, s'))
      = MPMCIndirect_Dequeue A s
    \<and> go_bind (run_alone (SPMCIndirect_step A) YIdle None (YETail w) s) (\<lambda>(l, s'). ret (faa128_enq_result l, s'))
      = SPMCIndirect_Enqueue w s
    \<and> go_bind (run_alone (SPMCIndirect_step A) YIdle None YDDraining s) (\<lambda>(l, s'). ret (faa128_deq_result l, s'))
      = SPMCIndirect_Dequeue A s
    \<and> go_bind (run_alone (MPSCIndirect_Enqueue_step A) TIdle None (TETail w) u) (\<lambda>(l, u'). ret (mpsc_enq_result l, u'))
      = MPSCIndirect_Enqueue A w u
    \<and> go_bind (run_alone MPSCIndirect_Dequeue_step TDIdle None TDHead u) (\<lambda>(l, u'). ret (mpsc_deq_result 0 l, u'))
      = MPSCIndirect_Dequeue u
    \<and> MPMCPtr_Enqueue = MPMCIndirect_Enqueue \<and> MPMCPtr_Dequeue = MPMCIndirect_Dequeue
    \<and> MPSCPtr_Enqueue = MPSCIndirect_Enqueue \<and> MPSCPtr_Dequeue = MPSCIndirect_Dequeue
    \<and> SPMCPtr_Enqueue = SPMCIndirect_Enqueue \<and> SPMCPtr_Dequeue = SPMCIndirect_Dequeue"
proof -
  note sem = atomix_sem.intro [OF assms(1)]
  from assms(2) obtain k where k: "mpmc_shape k q" "unat (MPMC.tail q) + 1 + 4 * 2 ^ k < 2 ^ 64" by (auto simp: mpmc_inv_def)
  from assms(3) obtain j where j: "mpmc_shape j (mpsc_abs r)" "unat (MPSC.sc_tail r) + 1 + 4 * 2 ^ j < 2 ^ 64"
    by (auto simp: mpmc_inv_def)
  from assms(4) obtain i where i: "mpmc_shape i (faa128_abs s)" "unat (MPMCIndirect.tail s) + 1 + 4 * 2 ^ i < 2 ^ 64"
    by (auto simp: mpmc_inv_def)
  from assms(5) obtain h where h: "mpmc_shape h (mpsc_abs (mpsc128_abs u))" "unat (MPSCIndirect.sc_tail u) + 1 + 4 * 2 ^ h < 2 ^ 64"
    by (auto simp: mpmc_inv_def)
  show ?thesis
    by (intro conjI atomix_sem.MPMC_Enqueue_steps [OF sem k] atomix_sem.MPMC_Dequeue_steps [OF sem k(1)]
        atomix_sem.SPMC_Enqueue_steps [OF sem k] atomix_sem.SPMC_Dequeue_steps [OF sem k(1)]
        atomix_sem.MPSC_Enqueue_steps [OF sem j] MPSC_Dequeue_steps
        atomix_sem.MPMCIndirect_Enqueue_steps [OF sem i] atomix_sem.MPMCIndirect_Dequeue_steps [OF sem i(1)]
        atomix_sem.SPMCIndirect_Enqueue_steps [OF sem i] atomix_sem.SPMCIndirect_Dequeue_steps [OF sem i(1)]
        atomix_sem.MPSCIndirect_steps [OF sem h] Faa128_Ptr_same)
qed

theorem FAA_steps_alone_witness:
  "\<exists>q r s u. NewMPMC 0 2 = ret q \<and> NewMPSC 0 2 = ret r \<and> NewMPMCIndirect 2 = ret s \<and> NewMPSCIndirect 2 = ret u
    \<and> run_alone (MPMC_step atomix_impl 0) FIdle None (FETail 5) q
      = go_bind (MPMC_Enqueue atomix_impl (5 :: int) q) (\<lambda>(e, q'). ret (Some (Enqueue 5, EnqueueRet e), q'))
    \<and> go_bind (run_alone (MPSC_Enqueue_step atomix_impl) SIdle None (SETail (6 :: int)) r)
        (\<lambda>(l, r'). ret (mpsc_enq_result l, r')) = MPSC_Enqueue atomix_impl 6 r
    \<and> go_bind (run_alone (MPMCIndirect_step atomix_impl) XIdle None XDDraining s)
        (\<lambda>(l, s'). ret (faa128_deq_result l, s')) = MPMCIndirect_Dequeue atomix_impl s
    \<and> go_bind (run_alone (MPSCIndirect_Enqueue_step atomix_impl) TIdle None (TETail 7) u)
        (\<lambda>(l, u'). ret (mpsc_enq_result l, u')) = MPSCIndirect_Enqueue atomix_impl 7 u"
proof -
  have i: "mpmc_inv 1 p" if "mpmc_inv (2 ^ 62) p" for p :: "'b MPMC" using that by (auto simp: mpmc_inv_def)
  from NewMPMC_ok [of 2 "0 :: int"] i obtain q :: "int MPMC" where q: "NewMPMC 0 2 = ret q" "mpmc_inv 1 q" by auto
  from NewMPSC_ok [of 2 "0 :: int"] obtain r :: "int MPSC" where r: "NewMPSC 0 2 = ret r" "mpmc_inv (2 ^ 62) (mpsc_abs r)" by auto
  from r(2) have r1: "mpmc_inv 1 (mpsc_abs r)" by (auto simp: mpmc_inv_def)
  from NewMPMCIndirect_ok [of 2] obtain s where s: "NewMPMCIndirect 2 = ret s" "mpmc_inv (2 ^ 62) (faa128_abs s)" by auto
  from s(2) have s1: "mpmc_inv 1 (faa128_abs s)" by (auto simp: mpmc_inv_def)
  from NewMPSCIndirect_ok [of 2] obtain u where u: "NewMPSCIndirect 2 = ret u" "mpmc_inv (2 ^ 62) (mpsc_abs (mpsc128_abs u))" by auto
  from u(2) have u1: "mpmc_inv 1 (mpsc_abs (mpsc128_abs u))" by (auto simp: mpmc_inv_def)
  from FAA_steps_alone [OF atomix_ok_impl q(2) r1 s1 u1, of 0 5 6 0 7] q(1) r(1) s(1) u(1) show ?thesis by fast
qed

text \<open>
  C12: MPMCIndirectSeq is linearizable for any number of producers and consumers: in every
  interleaving on a new queue (up to 2^62 shared accesses) the operations, in the order in
  which the compare-and-swaps on the entries succeed and refusals are decided, get exactly the
  answers of the bounded FIFO, and no step of any goroutine panics.
\<close>

theorem MPMCIndirectSeq_linearizable:
  assumes "atomix_ok A" and "2 \<le> sint c" and "sint c \<le> 2 ^ 62" and "NewMPMCIndirectSeq c = ret q"
    and "exec (mpmc128_step A) (go_init q VIdle) m ls cf" and "m \<le> 2 ^ 62"
  shows "fifo_run 0 (unat (roundToPow2 c)) (map fst ls) [] = (map snd ls, mpmc128_elems (memory cf) (at_pc cf))
    \<and> (\<forall>i. \<exists>r. MPMCIndirectSeq_step A (at_pc cf i) (memory cf) = ret r)"
proof -
  note sem = atomix_sem.intro [OF assms(1)] and N = NewMPMCIndirectSeq_phys [OF assms(4,2,3)]
  have I: "mpmc128_inv 0 (memory (go_init q VIdle)) (at_pc (go_init q VIdle))"
    using N(1) by (auto simp: mpmc128_inv_def go_init_def)
  have "mpmc128_elems q (\<lambda>_. VIdle) = []" using mpmc128_elems_eq [OF N(1)] N(3) by simp
  then have "fifo_run 0 (unat (roundToPow2 c)) (map fst ls) [] = (map snd ls, mpmc128_elems (memory cf) (at_pc cf))"
    using atomix_sem.mpmc128_exec_linearizes [OF sem assms(5) I assms(6)] N(2) by (simp add: go_init_def)
  moreover from atomix_sem.mpmc128_exec_inv [OF sem assms(5) I assms(6)]
  have "\<exists>r. MPMCIndirectSeq_step A (at_pc cf i) (memory cf) = ret r" for i
    unfolding mpmc128_inv_def using MPMCIndirectSeq_step_ret by blast
  ultimately show ?thesis by blast
qed

theorem MPMCIndirectSeq_linearizable_witness:
  "\<exists>q cf. NewMPMCIndirectSeq 2 = ret q
    \<and> exec (mpmc128_step atomix_impl) (go_init q VIdle) 16
        [(Enqueue 7, EnqueueRet None), (Dequeue, DequeueRet 7 None), (Enqueue 8, EnqueueRet None)] cf
    \<and> fifo_run 0 2 [Enqueue 7, Dequeue, Enqueue 8] []
        = ([EnqueueRet None, DequeueRet 7 None, EnqueueRet None], mpmc128_elems (memory cf) (at_pc cf))"
proof -
  let ?ls = "[(Enqueue 7, EnqueueRet None), (Dequeue, DequeueRet 7 None), (Enqueue 8, EnqueueRet None)] :: (u64 call \<times> u64 answer) list"
  obtain q where q: "NewMPMCIndirectSeq 2 = ret q" "q = \<lparr>MPMCIndirectSeq.tail = 0, MPMCIndirectSeq.head = 0,
      MPMCIndirectSeq.buffer = [\<lparr>mpmc128SeqSlot.entry = (0, 0)\<rparr>, \<lparr>mpmc128SeqSlot.entry = (1, 0)\<rparr>],
      MPMCIndirectSeq.mask_q = 1, MPMCIndirectSeq.capacity = 2\<rparr>"
    by (simp add: NewMPMCIndirectSeq_2)
  let ?mvs = "[StartEnqueue 0 7, StartEnqueue 1 8, Resume 0, Resume 0, Resume 1, Resume 1, Resume 0, Resume 1,
    StartDequeue 2, Resume 2, Resume 2, Resume 2, Resume 0, Resume 1, Resume 1, Resume 1]"
  have "\<exists>cf. sched (go_do (MPMCIndirectSeq_step atomix_impl) VIdle VETail VDHead (\<lambda>_. True) (\<lambda>_. True)) ?mvs (go_init q VIdle) = Some (?ls, cf)"
    by (simp add: go_init_def q(2) atomix_impl_def cas_impl_def Let_def)
  then obtain cf where "exec (mpmc128_step atomix_impl) (go_init q VIdle) 16 ?ls cf"
    by - (elim exE, drule go_sched_exec [where n = 16], auto)
  from this MPMCIndirectSeq_linearizable [OF atomix_ok_impl _ _ q(1) this] q(1) show ?thesis by (auto simp: roundToPow2_2)
qed

text \<open>
  C13: MPSCIndirectSeq with its single consumer and SPMCIndirectSeq with its single producer
  are linearizable in the same sense, the operations of the single side taking effect when
  they publish their index.
\<close>

theorem OneSidedSeq128_linearizable:
  assumes "atomix_ok A" and "2 \<le> sint c" and "sint c \<le> 2 ^ 62" and "m \<le> 2 ^ 62"
    and "NewMPSCIndirectSeq c = ret q"
    and "exec (go_step (MPSCIndirectSeq_step A) WIdle WETail WDHead (\<lambda>_. True) (\<lambda>i. i = 0)) (go_init q WIdle) m ls cf"
    and "NewSPMCIndirectSeq c = ret r"
    and "exec (go_step (SPMCIndirectSeq_step A) UIdle UETail UDHead (\<lambda>i. i = 0) (\<lambda>_. True)) (go_init r UIdle) m ks df"
  shows "fifo_run 0 (unat (roundToPow2 c)) (map fst ls) [] = (map snd ls, mpsc128_elems (memory cf) (at_pc cf))
    \<and> (\<forall>i. \<exists>s. MPSCIndirectSeq_step A (at_pc cf i) (memory cf) = ret s)
    \<and> fifo_run 0 (unat (roundToPow2 c)) (map fst ks) [] = (map snd ks, spmc128_elems (memory df) (at_pc df))
    \<and> (\<forall>i. \<exists>s. SPMCIndirectSeq_step A (at_pc df i) (memory df) = ret s)"
proof -
  note sem = atomix_sem.intro [OF assms(1)]
  note N = NewMPMCIndirectSeq_phys [OF assms(5) [unfolded New128Seq_same] assms(2,3)]
    and R = NewMPMCIndirectSeq_phys [OF assms(7) [unfolded New128Seq_same] assms(2,3)]
  have I: "mpsc128_inv 0 (memory (go_init q WIdle)) (at_pc (go_init q WIdle))"
    "spmc128_inv 0 (memory (go_init r UIdle)) (at_pc (go_init r UIdle))"
    using mpsc128_init [OF N(1)] spmc128_init [OF R(1)] by (simp_all add: go_init_def)
  have e: "mpsc128_elems q (\<lambda>_. WIdle) = []" "spmc128_elems r (\<lambda>_. UIdle) = []"
    using mpsc128_init [OF N(1)] spmc128_init [OF R(1)] N(3) R(3) by simp_all
  have "fifo_run 0 (unat (roundToPow2 c)) (map fst ls) [] = (map snd ls, mpsc128_elems (memory cf) (at_pc cf))"
    using atomix_sem.mpsc128_exec_linearizes [OF sem assms(6) I(1) assms(4)] N(2) e by (simp add: go_init_def)
  moreover have "fifo_run 0 (unat (roundToPow2 c)) (map fst ks) [] = (map snd ks, spmc128_elems (memory df) (at_pc df))"
    using atomix_sem.spmc128_exec_linearizes [OF sem assms(8) I(2) assms(4)] R(2) e by (simp add: go_init_def)
  moreover note MPSCIndirectSeq_step_ret [OF atomix_sem.mpsc128_exec_inv [OF sem assms(6) I(1) assms(4)]]
    SPMCIndirectSeq_step_ret [OF atomix_sem.spmc128_exec_inv [OF sem assms(8) I(2) assms(4)]]
  ultimately show ?thesis by blast
qed

theorem OneSidedSeq128_linearizable_witness:
  "\<exists>q cf df. NewMPSCIndirectSeq 2 = ret q \<and> NewSPMCIndirectSeq 2 = ret q
    \<and> exec (go_step (MPSCIndirectSeq_step atomix_impl) WIdle WETail WDHead (\<lambda>_. True) (\<lambda>i. i = 0)) (go_init q WIdle) 11
        [(Enqueue 7, EnqueueRet None), (Dequeue, DequeueRet 7 None)] cf
    \<and> exec (go_step (SPMCIndirectSeq_step atomix_impl) UIdle UETail UDHead (\<lambda>i. i = 0) (\<lambda>_. True)) (go_init q UIdle) 11
        [(Enqueue 7, EnqueueRet None), (Dequeue, DequeueRet 7 None)] df
    \<and> fifo_run 0 2 [Enqueue 7, Dequeue] [] = ([EnqueueRet None, DequeueRet 7 None], mpsc128_elems (memory cf) (at_pc cf))
    \<and> fifo_run 0 2 [Enqueue 7, Dequeue] [] = ([EnqueueRet None, DequeueRet 7 None], spmc128_elems (memory df) (at_pc df))"
proof -
  let ?ls = "[(Enqueue 7, EnqueueRet None), (Dequeue, DequeueRet 7 None)] :: (u64 call \<times> u64 answer) list"
  obtain q where q: "NewMPMCIndirectSeq 2 = ret q" "q = \<lparr>MPMCIndirectSeq.tail = 0, MPMCIndirectSeq.head = 0,
      MPMCIndirectSeq.buffer = [\<lparr>mpmc128SeqSlot.entry = (0, 0)\<rparr>, \<lparr>mpmc128SeqSlot.entry = (1, 0)\<rparr>],
      MPMCIndirectSeq.mask_q = 1, MPMCIndirectSeq.capacity = 2\<rparr>"
    by (simp add: NewMPMCIndirectSeq_2)
  from q(1) have n: "NewMPSCIndirectSeq 2 = ret q" "NewSPMCIndirectSeq 2 = ret q" by (simp_all add: New128Seq_same)
  let ?p = "[StartEnqueue 1 7, Resume 1, Resume 1, Resume 1, Resume 1, StartDequeue 0, Resume 0, Resume 0, Resume 0, Resume 1, Resume 0]"
  have "\<exists>cf. sched (go_do (MPSCIndirectSeq_step atomix_impl) WIdle WETail WDHead (\<lambda>_. True) (\<lambda>i. i = 0)) ?p (go_init q WIdle) = Some (?ls, cf)"
    by (simp add: go_init_def q(2) atomix_impl_def cas_impl_def Let_def)
  then obtain cf where cf: "exec (go_step (MPSCIndirectSeq_step atomix_impl) WIdle WETail WDHead (\<lambda>_. True) (\<lambda>i. i = 0)) (go_init q WIdle) 11 ?ls cf"
    by - (elim exE, drule go_sched_exec [where n = 11], auto)
  let ?c = "[StartEnqueue 0 7, Resume 0, Resume 0, Resume 0, StartDequeue 1, Resume 1, Resume 0, Resume 1, Resume 1, Resume 1, Resume 1]"
  have "\<exists>df. sched (go_do (SPMCIndirectSeq_step atomix_impl) UIdle UETail UDHead (\<lambda>i. i = 0) (\<lambda>_. True)) ?c (go_init q UIdle) = Some (?ls, df)"
    by (simp add: go_init_def q(2) atomix_impl_def cas_impl_def Let_def)
  then obtain df where df: "exec (go_step (SPMCIndirectSeq_step atomix_impl) UIdle UETail UDHead (\<lambda>i. i = 0) (\<lambda>_. True)) (go_init q UIdle) 11 ?ls df"
    by - (elim exE, drule go_sched_exec [where n = 11], auto)
  from cf df OneSidedSeq128_linearizable [OF atomix_ok_impl _ _ _ n(1) cf n(2) df] n show ?thesis by (auto simp: roundToPow2_2)
qed

text \<open>
  C14: MPMCIndirectSeq is not lock-free: while a producer rests between filling its entry and
  advancing the tail (the others being between calls when it stops), no other Enqueue returns,
  neither nil nor ErrWouldBlock, however many steps the others make; likewise no Dequeue while
  a consumer rests before advancing the head.
\<close>

theorem MPMCIndirectSeq_stalls:
  assumes "atomix_ok A" and "2 \<le> sint c" and "sint c \<le> 2 ^ 62" and "NewMPMCIndirectSeq c = ret q"
    and "exec (mpmc128_step A) (go_init q VIdle) m ls cf" and "\<And>j. j \<noteq> i \<Longrightarrow> at_pc cf j = VIdle"
    and "exec (others i (mpmc128_step A)) cf m' ls' cf'" and "m + m' \<le> 2 ^ 62"
  shows "(at_pc cf i = VEAdvance (MPMCIndirectSeq.tail (memory cf)) \<longrightarrow> (\<forall>(f, a) \<in> set ls'. f = Dequeue))
    \<and> (at_pc cf i = VDAdvance (MPMCIndirectSeq.head (memory cf)) \<longrightarrow> (\<forall>(f, a) \<in> set ls'. f \<noteq> Dequeue))"
proof -
  note sem = atomix_sem.intro [OF assms(1)] and N = NewMPMCIndirectSeq_phys [OF assms(4,2,3)]
  have "mpmc128_inv 0 (memory (go_init q VIdle)) (at_pc (go_init q VIdle))"
    using N(1) by (auto simp: mpmc128_inv_def go_init_def)
  from atomix_sem.mpmc128_exec_inv [OF sem assms(5) this] assms(8)
  have I: "mpmc128_inv m (memory cf) (at_pc cf)" by simp
  show ?thesis
    using atomix_sem.stalled_producer [OF sem assms(7) I assms(8) _ assms(6)]
      atomix_sem.stalled_consumer [OF sem assms(7) I assms(8) _ assms(6)] by fastforce
qed

theorem MPMCIndirectSeq_stalls_witness:
  "\<exists>q cf cf'. NewMPMCIndirectSeq 2 = ret q
    \<and> exec (mpmc128_step atomix_impl) (go_init q VIdle) 4 [(Enqueue 7, EnqueueRet None)] cf
    \<and> at_pc cf 0 = VEAdvance (MPMCIndirectSeq.tail (memory cf))
    \<and> exec (others 0 (mpmc128_step atomix_impl)) cf 9 [(Dequeue, DequeueRet 7 None)] cf'
    \<and> at_pc cf' 1 = VETail 8"
proof -
  obtain q where q: "NewMPMCIndirectSeq 2 = ret q" "q = \<lparr>MPMCIndirectSeq.tail = 0, MPMCIndirectSeq.head = 0,
      MPMCIndirectSeq.buffer = [\<lparr>mpmc128SeqSlot.entry = (0, 0)\<rparr>, \<lparr>mpmc128SeqSlot.entry = (1, 0)\<rparr>],
      MPMCIndirectSeq.mask_q = 1, MPMCIndirectSeq.capacity = 2\<rparr>"
    by (simp add: NewMPMCIndirectSeq_2)
  let ?do = "go_do (MPMCIndirectSeq_step atomix_impl) VIdle VETail VDHead (\<lambda>_. True) (\<lambda>_. True)"
  have "\<exists>cf cf'. sched ?do [StartEnqueue 0 7, Resume 0, Resume 0, Resume 0] (go_init q VIdle)
        = Some ([(Enqueue 7, EnqueueRet None)], cf)
    \<and> at_pc cf 0 = VEAdvance (MPMCIndirectSeq.tail (memory cf)) \<and> (\<forall>j. j \<noteq> 0 \<longrightarrow> at_pc cf j = VIdle)
    \<and> sched (others_do 0 ?do) [StartEnqueue 1 8, Resume 1, Resume 1, StartDequeue 2, Resume 2, Resume 2, Resume 2, Resume 1, Resume 1] cf
        = Some ([(Dequeue, DequeueRet 7 None)], cf') \<and> at_pc cf' 1 = VETail 8"
    by (simp add: go_init_def q(2) atomix_impl_def cas_impl_def others_do_def Let_def)
  then obtain cf cf' where cf: "sched ?do [StartEnqueue 0 7, Resume 0, Resume 0, Resume 0] (go_init q VIdle) = Some ([(Enqueue 7, EnqueueRet None)], cf)"
      "at_pc cf 0 = VEAdvance (MPMCIndirectSeq.tail (memory cf))" "\<And>j. j \<noteq> 0 \<Longrightarrow> at_pc cf j = VIdle"
      "sched (others_do 0 ?do) [StartEnqueue 1 8, Resume 1, Resume 1, StartDequeue 2, Resume 2, Resume 2, Resume 2, Resume 1, Resume 1] cf
        = Some ([(Dequeue, DequeueRet 7 None)], cf')" "at_pc cf' 1 = VETail 8"
    by blast
  have e: "exec (mpmc128_step atomix_impl) (go_init q VIdle) 4 [(Enqueue 7, EnqueueRet None)] cf"
    by (rule go_sched_exec [OF cf(1)]) simp
  have f: "exec (others 0 (mpmc128_step atomix_impl)) cf 9 [(Dequeue, DequeueRet 7 None)] cf'"
    by (rule others_sched_exec [OF cf(4)]) simp
  from MPMCIndirectSeq_stalls [OF atomix_ok_impl _ _ q(1) e cf(3) f] cf(2,5) e f q(1) show ?thesis by auto
qed

text \<open>
  C15: MPSCCompactIndirect with any number of producers and its single consumer: in every
  interleaving (up to 2^62 shared accesses) the values delivered are, in order, the first of
  the values accepted, at most the capacity of them are inside, and when all goroutines are at
  rest the queue holds exactly the rest. Enqueue is refused only if the queue is full, not
  counting a value the consumer is just taking out; Dequeue only if the queue is empty or
  holds just a value whose Enqueue has not returned.
\<close>

theorem MPSCCompact_concurrent_fifo:
  assumes "atomix_ok A" and "2 \<le> sint c" and "sint c \<le> 2 ^ 62" and "NewMPSCCompactIndirect c = ret q"
    and "exec (mpscc_step A) (go_init q LIdle) m ls cf" and "m < 2 ^ 62"
  defines "ins \<equiv> accepted (map fst ls) (map snd ls)" and "outs \<equiv> delivered (map snd ls)"
  shows "(\<exists>rest. ins = outs @ rest \<and> length rest \<le> unat (roundToPow2 c)
      \<and> ((\<forall>i. at_pc cf i = LIdle) \<longrightarrow> rest = compact_elems (memory cf)))
    \<and> (\<forall>i x e pc q'. MPSCCompactIndirect_step A (at_pc cf i) (memory cf) = ret (Some (Enqueue x, EnqueueRet (Some e)), pc, q') \<longrightarrow>
        length ins + (if \<exists>h v. at_pc cf 0 = LDPublish h v then 1 else 0) = length outs + unat (roundToPow2 c))
    \<and> (\<forall>i v e pc q'. MPSCCompactIndirect_step A (at_pc cf i) (memory cf) = ret (Some (Dequeue, DequeueRet v (Some e)), pc, q') \<longrightarrow>
        ins = outs \<or> length ins = Suc (length outs)
          \<and> (\<exists>j x d. at_pc cf j = LEAdvance x (MPMCCompactIndirect.tail (memory cf)) d))"
proof -
  note sem = atomix_sem.intro [OF assms(1)] and new = assms(4) [unfolded NewCompact_same]
  have I: "mpscc_inv m ls cf"
    by (rule atomix_sem.mpscc_exec_inv [OF sem assms(5) mpscc_init [OF new assms(2,3)]]) (use assms(6) in simp)
  have n: "length (MPMCCompactIndirect.buffer (memory cf)) = unat (roundToPow2 c)"
    using atomix_sem.mpscc_exec_length [OF sem assms(5)] NewMPMCCompactIndirect_phys(2) [OF new assms(2,3)] by (simp add: go_init_def)
  have v: "ins = acc_vals ls" "outs = del_vals ls" by (simp_all add: ins_def outs_def acc_vals_def del_vals_def)
  have o: "\<exists>x d. pc = LEAdvance x t d" if "mpscc_owes_tail t pc" for t pc using that by (cases pc) auto
  note D = mpscc_dequeue_refused [OF I assms(6)]
  show ?thesis unfolding v
  proof (intro conjI allI impI)
    show "\<exists>rest. acc_vals ls = del_vals ls @ rest \<and> length rest \<le> unat (roundToPow2 c)
      \<and> ((\<forall>i. at_pc cf i = LIdle) \<longrightarrow> rest = compact_elems (memory cf))"
      using mpscc_results [OF I] unfolding n .
  next
    fix i x e pc q'
    assume "MPSCCompactIndirect_step A (at_pc cf i) (memory cf) = ret (Some (Enqueue x, EnqueueRet (Some e)), pc, q')"
    from mpscc_enqueue_refused [OF I assms(6) this]
    show "length (acc_vals ls) + (if \<exists>h v. at_pc cf 0 = LDPublish h v then 1 else 0) = length (del_vals ls) + unat (roundToPow2 c)"
      unfolding n .
  next
    fix i w e pc q'
    assume "MPSCCompactIndirect_step A (at_pc cf i) (memory cf) = ret (Some (Dequeue, DequeueRet w (Some e)), pc, q')"
    from D [OF this] show "acc_vals ls = del_vals ls \<or> length (acc_vals ls) = Suc (length (del_vals ls))
      \<and> (\<exists>j x d. at_pc cf j = LEAdvance x (MPMCCompactIndirect.tail (memory cf)) d)" using o by blast
  qed
qed

theorem MPSCCompact_concurrent_fifo_witness:
  "\<exists>q cf. NewMPSCCompactIndirect 2 = ret q
    \<and> exec (mpscc_step atomix_impl) (go_init q LIdle) 22 [(Enqueue 7, EnqueueRet None), (Enqueue 7, EnqueueRet None), (Dequeue, DequeueRet 7 None)] cf
    \<and> (\<forall>i. at_pc cf i = LIdle) \<and> compact_elems (memory cf) = [7]"
proof -
  let ?ls = "[(Enqueue 7, EnqueueRet None), (Enqueue 7, EnqueueRet None), (Dequeue, DequeueRet 7 None)] :: (u64 call \<times> u64 answer) list"
  obtain q where q: "NewMPSCCompactIndirect 2 = ret q" "q = \<lparr>MPMCCompactIndirect.tail = 0, MPMCCompactIndirect.head = 0,
      MPMCCompactIndirect.buffer = [emptyFlag, emptyFlag], MPMCCompactIndirect.mask_q = 1, MPMCCompactIndirect.capacity = 2, order_q = 1\<rparr>"
    by (simp add: NewCompact_same NewMPMCCompactIndirect_2)
  let ?mvs = "[StartEnqueue 1 7, StartEnqueue 2 7, Resume 1, Resume 2, Resume 1, Resume 2, Resume 1, Resume 2, Resume 1, Resume 2,
    Resume 2, Resume 1, Resume 2, Resume 2, Resume 2, Resume 2, StartDequeue 0, Resume 0, Resume 0, Resume 0, Resume 0, Resume 0]"
  have le: "\<not> (2 :: u64) \<le> 1" by code_simp
  have "\<exists>cf. sched (go_do (MPSCCompactIndirect_step atomix_impl) LIdle LECall LDHead (\<lambda>_. True) (\<lambda>i. i = 0)) ?mvs (go_init q LIdle) = Some (?ls, cf)
      \<and> (\<forall>i. at_pc cf i = LIdle)"
    by (simp add: go_init_def q(2) atomix_impl_def cas_impl_def compact_expected_def compact_nextEmpty_def emptyFlag_def le)
  then obtain cf where cf: "exec (mpscc_step atomix_impl) (go_init q LIdle) 22 ?ls cf" "\<And>i. at_pc cf i = LIdle"
    by - (elim exE conjE, drule go_sched_exec [where n = 22], auto)
  from conjunct1 [OF MPSCCompact_concurrent_fifo [OF atomix_ok_impl _ _ q(1) cf(1)]] cf q(1) show ?thesis by auto
qed

text \<open>
  C16: MPMCCompactIndirect under any number of goroutines, when no value is accepted twice: in
  every interleaving (up to 2^62 shared accesses) the values delivered are, in order, the
  first of the values accepted, at most the capacity of them are inside, and when all
  goroutines are at rest the queue holds exactly the rest.
\<close>

theorem MPMCCompact_concurrent_fifo:
  assumes "atomix_ok A" and "2 \<le> sint c" and "sint c \<le> 2 ^ 62" and "NewMPMCCompactIndirect c = ret q"
    and "exec (mpmcc_step A) (go_init q KIdle) m ls cf" and "m \<le> 2 ^ 62" and "distinct (accepted (map fst ls) (map snd ls))"
  shows "\<exists>rest. accepted (map fst ls) (map snd ls) = delivered (map snd ls) @ rest \<and> length rest \<le> unat (roundToPow2 c)
    \<and> ((\<forall>i. at_pc cf i = KIdle) \<longrightarrow> rest = compact_elems (memory cf))"
proof -
  note sem = atomix_sem.intro [OF assms(1)]
  have I: "mpmcc_inv m ls cf"
    by (rule atomix_sem.mpmcc_exec_inv [OF sem assms(5) mpmcc_init [OF assms(4,2,3)] assms(6)]) (use assms(7) in \<open>simp add: acc_vals_def\<close>)
  have "length (MPMCCompactIndirect.buffer (memory cf)) = unat (roundToPow2 c)"
    using atomix_sem.mpmcc_exec_length [OF sem assms(5)] NewMPMCCompactIndirect_phys(2) [OF assms(4,2,3)] by (simp add: go_init_def)
  with mpmcc_results [OF I] show ?thesis by (simp add: acc_vals_def del_vals_def)
qed

theorem MPMCCompact_concurrent_fifo_witness:
  "\<exists>q cf. NewMPMCCompactIndirect 2 = ret q
    \<and> exec (mpmcc_step atomix_impl) (go_init q KIdle) 21 [(Enqueue 5, EnqueueRet None), (Dequeue, DequeueRet 5 None), (Enqueue 6, EnqueueRet None)] cf
    \<and> (\<forall>i. at_pc cf i = KIdle) \<and> compact_elems (memory cf) = [6]"
proof -
  let ?ls = "[(Enqueue 5, EnqueueRet None), (Dequeue, DequeueRet 5 None), (Enqueue 6, EnqueueRet None)] :: (u64 call \<times> u64 answer) list"
  obtain q where q: "NewMPMCCompactIndirect 2 = ret q" "q = \<lparr>MPMCCompactIndirect.tail = 0, MPMCCompactIndirect.head = 0,
      MPMCCompactIndirect.buffer = [emptyFlag, emptyFlag], MPMCCompactIndirect.mask_q = 1, MPMCCompactIndirect.capacity = 2, order_q = 1\<rparr>"
    by (simp add: NewMPMCCompactIndirect_2)
  let ?mvs = "[StartEnqueue 0 5, Resume 0, Resume 0, Resume 0, Resume 0, Resume 0, Resume 0,
    StartDequeue 1, StartEnqueue 2 6, Resume 1, Resume 2, Resume 1, Resume 2, Resume 1, Resume 2, Resume 1, Resume 2, Resume 1,
    Resume 2, Resume 1, Resume 2]"
  have le: "\<not> (2 :: u64) \<le> 1" by code_simp
  have "\<exists>cf. sched (go_do (MPMCCompactIndirect_step atomix_impl) KIdle KECall KDHead (\<lambda>_. True) (\<lambda>_. True)) ?mvs (go_init q KIdle) = Some (?ls, cf)
      \<and> (\<forall>i. at_pc cf i = KIdle)"
    by (simp add: go_init_def q(2) atomix_impl_def cas_impl_def compact_expected_def compact_nextEmpty_def emptyFlag_def le)
  then obtain cf where cf: "exec (mpmcc_step atomix_impl) (go_init q KIdle) 21 ?ls cf" "\<And>i. at_pc cf i = KIdle"
    by - (elim exE conjE, drule go_sched_exec [where n = 21], auto)
  from MPMCCompact_concurrent_fifo [OF atomix_ok_impl _ _ q(1) cf(1)] cf q(1) show ?thesis by auto
qed

text \<open>
  C17: SPMCCompactIndirect with its single producer and any number of consumers, when no value
  is accepted twice: in every interleaving (up to 2^62 shared accesses) the values delivered
  are, in order, the first of the values accepted, at most the capacity of them are inside,
  and when all goroutines are at rest the queue holds exactly the rest. Enqueue is refused
  only if the queue is full, not counting a value that a consumer is just taking out of the
  slot at the head; Dequeue only if the queue is empty or holds just the value whose Enqueue
  has not returned.
\<close>

theorem SPMCCompact_concurrent_fifo:
  assumes "atomix_ok A" and "2 \<le> sint c" and "sint c \<le> 2 ^ 62" and "NewSPMCCompactIndirect c = ret q"
    and "exec (spmcc_step A) (go_init q JIdle) m ls cf" and "m < 2 ^ 62"
  defines "ins \<equiv> accepted (map fst ls) (map snd ls)" and "outs \<equiv> delivered (map snd ls)"
  assumes "distinct ins"
  shows "(\<exists>rest. ins = outs @ rest \<and> length rest \<le> unat (roundToPow2 c)
      \<and> ((\<forall>i. at_pc cf i = JIdle) \<longrightarrow> rest = compact_elems (memory cf)))
    \<and> (\<forall>i x e pc q'. SPMCCompactIndirect_step A (at_pc cf i) (memory cf) = ret (Some (Enqueue x, EnqueueRet (Some e)), pc, q') \<longrightarrow>
        length ins = length outs + unat (roundToPow2 c) \<or> Suc (length ins) = length outs + unat (roundToPow2 c)
          \<and> (\<exists>j d. at_pc cf j = JDAdvance (MPMCCompactIndirect.head (memory cf)) d))
    \<and> (\<forall>i v e pc q'. SPMCCompactIndirect_step A (at_pc cf i) (memory cf) = ret (Some (Dequeue, DequeueRet v (Some e)), pc, q') \<longrightarrow>
        ins = outs \<or> length ins = Suc (length outs) \<and> (\<exists>x. at_pc cf 0 = JEStore x (MPMCCompactIndirect.tail (memory cf))))"
proof -
  note sem = atomix_sem.intro [OF assms(1)] and new = assms(4) [unfolded NewCompact_same]
  have v: "ins = acc_vals ls" "outs = del_vals ls" by (simp_all add: ins_def outs_def acc_vals_def del_vals_def)
  have I: "spmcc_inv m ls cf"
    by (rule atomix_sem.spmcc_exec_inv [OF sem assms(5) spmcc_init [OF new assms(2,3)]]) (use assms(6,9) v in simp_all)
  have n: "length (MPMCCompactIndirect.buffer (memory cf)) = unat (roundToPow2 c)"
    using atomix_sem.spmcc_exec_length [OF sem assms(5)] NewMPMCCompactIndirect_phys(2) [OF new assms(2,3)] by (simp add: go_init_def)
  show ?thesis unfolding v n [symmetric]
    by (intro conjI allI impI spmcc_results [OF I])
      (erule atomix_sem.spmcc_enqueue_refused [OF sem I assms(6)] spmcc_dequeue_refused [OF I])+
qed

theorem SPMCCompact_concurrent_fifo_witness:
  "\<exists>q cf. NewSPMCCompactIndirect 2 = ret q
    \<and> exec (spmcc_step atomix_impl) (go_init q JIdle) 38
        [(Enqueue 5, EnqueueRet None), (Enqueue 6, EnqueueRet None), (Dequeue, DequeueRet 5 None), (Dequeue, DequeueRet 6 None), (Enqueue 7, EnqueueRet None)] cf
    \<and> (\<forall>i. at_pc cf i = JIdle) \<and> compact_elems (memory cf) = [7]"
proof -
  let ?ls = "[(Enqueue 5, EnqueueRet None), (Enqueue 6, EnqueueRet None), (Dequeue, DequeueRet 5 None), (Dequeue, DequeueRet 6 None),
    (Enqueue 7, EnqueueRet None)] :: (u64 call \<times> u64 answer) list"
  obtain q where q: "NewSPMCCompactIndirect 2 = ret q" "q = \<lparr>MPMCCompactIndirect.tail = 0, MPMCCompactIndirect.head = 0,
      MPMCCompactIndirect.buffer = [emptyFlag, emptyFlag], MPMCCompactIndirect.mask_q = 1, MPMCCompactIndirect.capacity = 2, order_q = 1\<rparr>"
    by (simp add: NewCompact_same NewMPMCCompactIndirect_2)
  let ?r = "\<lambda>i n. replicate n (Resume i)"
  let ?mvs = "[StartEnqueue 0 5] @ ?r 0 5 @ [StartEnqueue 0 6] @ ?r 0 5 @ [StartDequeue 1, StartDequeue 2]
    @ [Resume 1, Resume 2, Resume 1, Resume 2, Resume 1, Resume 2, Resume 1, Resume 2, Resume 1, Resume 2, Resume 1]
    @ ?r 2 7 @ [StartEnqueue 0 7] @ ?r 0 5"
  have r: "replicate 5 z = [z, z, z, z, z]" "replicate 7 z = [z, z, z, z, z, z, z]" for z :: "u64 go_move" by (simp_all add: numeral_eq_Suc)
  have le: "\<not> (2 :: u64) \<le> 1" "\<not> (4 :: u64) \<le> 2" by code_simp+
  have "\<exists>cf. sched (go_do (SPMCCompactIndirect_step atomix_impl) JIdle JECall JDHead (\<lambda>i. i = 0) (\<lambda>_. True)) ?mvs (go_init q JIdle) = Some (?ls, cf)
      \<and> (\<forall>i. at_pc cf i = JIdle)"
    by (simp add: go_init_def q(2) r atomix_impl_def cas_impl_def compact_expected_def spmcc_nextEmpty_def emptyFlag_def le)
  then obtain cf where cf: "exec (spmcc_step atomix_impl) (go_init q JIdle) 38 ?ls cf" "\<And>i. at_pc cf i = JIdle"
    by - (elim exE conjE, drule go_sched_exec [where n = 38], auto)
  from conjunct1 [OF SPMCCompact_concurrent_fifo [OF atomix_ok_impl _ _ q(1) cf(1)]] cf q(1) show ?thesis by auto
qed

text \<open>
  C18: the step models of SPSC, MPMCSeq, MPSCSeq, SPMCSeq, MPMCIndirectSeq, MPSCIndirectSeq,
  SPMCIndirectSeq, MPMCCompactIndirect, MPSCCompactIndirect and SPMCCompactIndirect are the
  code: from every well-formed state (SPSC: from every state), a call whose steps run without
  interference is the call as one function, with the same result and the same final state. The
  pointer variants of the 128-bit queues equal the uintptr ones in every state.
\<close>

theorem CAS_steps_alone:
  assumes "atomix_ok A" and "seqq_ok p" and "seqq_inv 1 (seq128_abs r)" and "compact_inv 1 s" and "valid63 v" and "seqq_inv 1 t"
  shows "SPSC_Enqueue_alone (PCall x) q = SPSC_Enqueue x q \<and> SPSC_Dequeue_alone zero CCall q = SPSC_Dequeue zero q
    \<and> MPMCSeq_Enqueue_alone A zero' (ETail y) p = MPMCSeq_Enqueue A y p \<and> MPMCSeq_Dequeue_alone A zero' DHead p = MPMCSeq_Dequeue A zero' p
    \<and> run_alone (MPSCSeq_step A zero') BIdle None (BETail y) t
      = go_bind (MPSCSeq_Enqueue A y t) (\<lambda>(e, t'). ret (Some (if e = None then Accepted y else EnqueueRefused), t'))
    \<and> run_alone (MPSCSeq_step A zero') BIdle None BDHead t
      = go_bind (MPSCSeq_Dequeue zero' t)
          (\<lambda>((z, e), t'). ret (Some (if e = None then Delivered (unat (MPMCSeq.head t)) z else DequeueRefused), t'))
    \<and> run_alone (SPMCSeq_step A zero') GIdle None (GETail y) t
      = go_bind (SPMCSeq_Enqueue y t) (\<lambda>(e, t'). ret (Some (if e = None then Accepted y else EnqueueRefused), t'))
    \<and> run_alone (SPMCSeq_step A zero') GIdle None GDHead t
      = go_bind (SPMCSeq_Dequeue A zero' t)
          (\<lambda>((z, e), t'). ret (Some (if e = None then Delivered (unat (MPMCSeq.head t)) z else DequeueRefused), t'))
    \<and> run_alone (MPMCIndirectSeq_step A) VIdle None (VETail w) r
      = go_bind (MPMCIndirectSeq_Enqueue A w r) (\<lambda>(e, r'). ret (Some (Enqueue w, EnqueueRet e), r'))
    \<and> run_alone (MPMCIndirectSeq_step A) VIdle None VDHead r
      = go_bind (MPMCIndirectSeq_Dequeue A r) (\<lambda>((u, e), r'). ret (Some (Dequeue, DequeueRet u e), r'))
    \<and> run_alone (MPSCIndirectSeq_step A) WIdle None (WETail w) r
      = go_bind (MPSCIndirectSeq_Enqueue A w r) (\<lambda>(e, r'). ret (Some (Enqueue w, EnqueueRet e), r'))
    \<and> run_alone (MPSCIndirectSeq_step A) WIdle None WDHead r
      = go_bind (MPSCIndirectSeq_Dequeue r) (\<lambda>((u, e), r'). ret (Some (Dequeue, DequeueRet u e), r'))
    \<and> run_alone (SPMCIndirectSeq_step A) UIdle None (UETail w) r
      = go_bind (SPMCIndirectSeq_Enqueue w r) (\<lambda>(e, r'). ret (Some (Enqueue w, EnqueueRet e), r'))
    \<and> run_alone (SPMCIndirectSeq_step A) UIdle None UDHead r
      = go_bind (SPMCIndirectSeq_Dequeue A r) (\<lambda>((u, e), r'). ret (Some (Dequeue, DequeueRet u e), r'))
    \<and> MPMCPtrSeq_Enqueue = MPMCIndirectSeq_Enqueue \<and> MPMCPtrSeq_Dequeue = MPMCIndirectSeq_Dequeue
    \<and> MPSCPtrSeq_Enqueue = MPSCIndirectSeq_Enqueue \<and> MPSCPtrSeq_Dequeue = MPSCIndirectSeq_Dequeue
    \<and> SPMCPtrSeq_Enqueue = SPMCIndirectSeq_Enqueue \<and> SPMCPtrSeq_Dequeue = SPMCIndirectSeq_Dequeue
    \<and> run_alone (MPMCCompactIndirect_step A) KIdle None (KECall v) s
      = go_bind (MPMCCompactIndirect_Enqueue A v s) (\<lambda>(e, s'). ret (Some (Enqueue v, EnqueueRet e), s'))
    \<and> run_alone (MPMCCompactIndirect_step A) KIdle None KDHead s
      = go_bind (MPMCCompactIndirect_Dequeue A s) (\<lambda>((u, e), s'). ret (Some (Dequeue, DequeueRet u e), s'))
    \<and> run_alone (MPSCCompactIndirect_step A) LIdle None (LECall v) s
      = go_bind (MPSCCompactIndirect_Enqueue A v s) (\<lambda>(e, s'). ret (Some (Enqueue v, EnqueueRet e), s'))
    \<and> run_alone (MPSCCompactIndirect_step A) LIdle None LDHead s
      = go_bind (MPSCCompactIndirect_Dequeue s) (\<lambda>((u, e), s'). ret (Some (Dequeue, DequeueRet u e), s'))
    \<and> run_alone (SPMCCompactIndirect_step A) JIdle None (JECall v) s
      = go_bind (SPMCCompactIndirect_Enqueue A v s) (\<lambda>(e, s'). ret (Some (Enqueue v, EnqueueRet e), s'))
    \<and> run_alone (SPMCCompactIndirect_step A) JIdle None JDHead s
      = go_bind (SPMCCompactIndirect_Dequeue A s) (\<lambda>((u, e), s'). ret (Some (Dequeue, DequeueRet u e), s'))"
proof -
  note sem = atomix_sem.intro [OF assms(1)]
  have r: "seqq_ok (seq128_abs r)" using assms(3) by (simp add: seqq_inv_def)
  from assms(4) obtain k where k: "compact_good k (Suc 0) s" by (auto simp: compact_inv_good)
  note M = atomix_sem.MPMCIndirectSeq_steps [OF sem r] and C = atomix_sem.MPMCCompactIndirect_steps [OF sem k]
  show ?thesis
    by (intro conjI M C(1) [OF assms(5)] C(2) atomix_sem.MPSCIndirectSeq_steps [OF sem assms(3)]
        atomix_sem.SPMCIndirectSeq_steps [OF sem assms(3)] atomix_sem.MPSCSeq_steps [OF sem assms(6)]
        atomix_sem.SPMCSeq_steps [OF sem assms(6)] MPMCPtrSeq_same MPSCPtrSeq_same SPMCPtrSeq_same
        atomix_sem.MPSCCompactIndirect_steps(1) [OF sem k assms(5)] atomix_sem.MPSCCompactIndirect_steps(2) [OF sem k]
        atomix_sem.SPMCCompactIndirect_steps(1) [OF sem k assms(5)] atomix_sem.SPMCCompactIndirect_steps(2) [OF sem k]
        SPSC_steps_alone [THEN conjunct1] SPSC_steps_alone [THEN conjunct2]
        MPMCSeq_steps_alone [OF assms(1,2), THEN conjunct1] MPMCSeq_steps_alone [OF assms(1,2), THEN conjunct2])
qed

theorem CAS_steps_alone_witness:
  "\<exists>p r. NewMPMCSeq 0 2 = ret p \<and> NewMPMCIndirectSeq 2 = ret r
    \<and> MPMCSeq_Enqueue_alone atomix_impl 0 (ETail (5 :: int)) p = MPMCSeq_Enqueue atomix_impl 5 p
    \<and> run_alone (MPSCSeq_step atomix_impl 0) BIdle None (BETail 5) p
      = go_bind (MPSCSeq_Enqueue atomix_impl 5 p) (\<lambda>(e, p'). ret (Some (if e = None then Accepted 5 else EnqueueRefused), p'))
    \<and> run_alone (MPMCIndirectSeq_step atomix_impl) VIdle None (VETail 6) r
      = go_bind (MPMCIndirectSeq_Enqueue atomix_impl 6 r) (\<lambda>(e, r'). ret (Some (Enqueue 6, EnqueueRet e), r'))"
proof -
  from NewMPMCSeq_ok [of 2 "0 :: int"] obtain p :: "int MPMCSeq" where p: "NewMPMCSeq 0 2 = ret p" "seqq_inv (2 ^ 63) p" by auto
  from p(2) have p1: "seqq_ok p" "seqq_inv 1 p" by (auto simp: seqq_inv_def)
  from NewMPMCIndirectSeq_ok [of 2] obtain r where r: "NewMPMCIndirectSeq 2 = ret r" "seqq_inv (2 ^ 63) (seq128_abs r)" by auto
  from r(2) have r1: "seqq_inv 1 (seq128_abs r)" by (auto simp: seqq_inv_def)
  from NewMPMCCompactIndirect_ok [of 2] obtain s where s: "NewMPMCCompactIndirect 2 = ret s" "compact_inv (2 ^ 63) s" by auto
  from s(2) have s1: "compact_inv 1 s" by (auto simp: compact_inv_def)
  have v: "valid63 7" by code_simp
  note W = CAS_steps_alone [OF atomix_ok_impl p1(1) r1 s1 v p1(2), where y = 5 and zero' = 0 and w = 6 and x = "0 :: int" and zero = 0]
  from p(1) r(1) W [THEN conjunct2, THEN conjunct2, THEN conjunct1]
    W [THEN conjunct2, THEN conjunct2, THEN conjunct2, THEN conjunct2, THEN conjunct1]
    W [THEN conjunct2, THEN conjunct2, THEN conjunct2, THEN conjunct2, THEN conjunct2, THEN conjunct2, THEN conjunct2, THEN conjunct2, THEN conjunct1]
  show ?thesis by blast
qed

section \<open>Queues made by the builder\<close>

lemma BuildQueue_fifo:
  assumes "atomix_ok A" and "2 \<le> sint c" and "sint c \<le> 2 ^ 61"
  shows "fifo_object (go_bind (New c) (\<lambda>b. Build zero (configure p s k b))) (Queue_Enqueue A) (Queue_Dequeue A zero)
           Queue_Cap zero (\<lambda>_. True) (unat (roundToPow2 c)) (2 ^ 62)"
proof -
  from New_configure [OF assms(2), of "Build zero" p s k] obtain b where
    b: "go_bind (New c) (\<lambda>b. Build zero (configure p s k b)) = Build zero b"
      "opts b = \<lparr>singleProducer = p, singleConsumer = s, compact = k, capacity = c\<rparr>" .
  from assms(2,3) b(2) atomix_sem.Build_object [OF atomix_sem.intro [OF assms(1)], of b zero] show ?thesis
    unfolding b(1) by simp
qed

lemma BuildIndirect_fifo:
  assumes "atomix_ok A" and "2 \<le> sint c" and "sint c \<le> 2 ^ 61"
  shows "fifo_object (go_bind (New c) (\<lambda>b. BuildIndirect (configure p s k b))) (QueueIndirect_Enqueue A) (QueueIndirect_Dequeue A)
           QueueIndirect_Cap 0 (\<lambda>x. k \<and> \<not> (p \<and> s) \<longrightarrow> valid63 x) (unat (roundToPow2 c)) (2 ^ 62)"
proof -
  from New_configure [OF assms(2), of "BuildIndirect" p s k] obtain b where
    b: "go_bind (New c) (\<lambda>b. BuildIndirect (configure p s k b)) = BuildIndirect b"
      "opts b = \<lparr>singleProducer = p, singleConsumer = s, compact = k, capacity = c\<rparr>" .
  from assms(2,3) b(2) atomix_sem.BuildIndirect_object [OF atomix_sem.intro [OF assms(1)], of b] show ?thesis
    unfolding b(1) by simp
qed

lemma BuildPtr_fifo:
  assumes "atomix_ok A" and "2 \<le> sint c" and "sint c \<le> 2 ^ 61"
  shows "fifo_object (go_bind (New c) (\<lambda>b. BuildPtr (configure p s k b))) (QueuePtr_Enqueue A) (QueuePtr_Dequeue A)
           QueuePtr_Cap 0 (\<lambda>_. True) (unat (roundToPow2 c)) (2 ^ 62)"
proof -
  from New_configure [OF assms(2), of "BuildPtr" p s k] obtain b where
    b: "go_bind (New c) (\<lambda>b. BuildPtr (configure p s k b)) = BuildPtr b"
      "opts b = \<lparr>singleProducer = p, singleConsumer = s, compact = k, capacity = c\<rparr>" .
  from assms(2,3) b(2) atomix_sem.BuildPtr_object [OF atomix_sem.intro [OF assms(1)], of b] show ?thesis
    unfolding b(1) by simp
qed

text \<open>
  C19: whatever options are set on a builder of capacity c (2 to 2^61), the queues that Build,
  BuildIndirect and BuildPtr return have the rounded capacity and give every program of up to
  2^62 Enqueue and Dequeue calls the answers of a bounded FIFO; no call panics or fails to
  return. A compact queue of uintptr values that is not SPSC takes values below 2^63.
\<close>

theorem Build_fifo:
  assumes "atomix_ok A" and "2 \<le> sint c" and "sint c \<le> 2 ^ 61"
  shows "fifo_object (go_bind (New c) (\<lambda>b. Build zero (configure p s k b))) (Queue_Enqueue A) (Queue_Dequeue A zero)
           Queue_Cap zero (\<lambda>_. True) (unat (roundToPow2 c)) (2 ^ 62)
    \<and> fifo_object (go_bind (New c) (\<lambda>b. BuildIndirect (configure p s k b))) (QueueIndirect_Enqueue A) (QueueIndirect_Dequeue A)
           QueueIndirect_Cap 0 (\<lambda>x. k \<and> \<not> (p \<and> s) \<longrightarrow> valid63 x) (unat (roundToPow2 c)) (2 ^ 62)
    \<and> fifo_object (go_bind (New c) (\<lambda>b. BuildPtr (configure p s k b))) (QueuePtr_Enqueue A) (QueuePtr_Dequeue A)
           QueuePtr_Cap 0 (\<lambda>_. True) (unat (roundToPow2 c)) (2 ^ 62)"
  by (intro conjI BuildQueue_fifo [OF assms] BuildIndirect_fifo [OF assms] BuildPtr_fifo [OF assms])

theorem Build_fifo_witness:
  "\<exists>q q'. go_bind (New 2) (\<lambda>b. Build 0 (configure False True False b)) = ret q
     \<and> run_calls (Queue_Enqueue atomix_impl) (Queue_Dequeue atomix_impl 0)
         [Enqueue 7, Enqueue 8, Enqueue 9, Dequeue, Dequeue, Dequeue] q
       = ret ([EnqueueRet None, EnqueueRet None, EnqueueRet (Some ErrWouldBlock),
               DequeueRet 7 None, DequeueRet 8 None, DequeueRet (0 :: int) (Some ErrWouldBlock)], q')"
proof -
  have c: "unat (roundToPow2 2) = 2" by code_simp
  have "\<exists>q q'. go_bind (New 2) (\<lambda>b. Build 0 (configure False True False b)) = ret q
      \<and> run_calls (Queue_Enqueue atomix_impl) (Queue_Dequeue atomix_impl 0)
          [Enqueue 7, Enqueue 8, Enqueue 9, Dequeue, Dequeue, Dequeue] q
        = ret (fst (fifo_run (0 :: int) (unat (roundToPow2 2))
            [Enqueue 7, Enqueue 8, Enqueue 9, Dequeue, Dequeue, Dequeue] []), q')"
    by (rule fifo_object_run [OF conjunct1 [OF Build_fifo [OF atomix_ok_impl]]]) simp_all
  then show ?thesis unfolding c by simp
qed

lemma rounded_le_61:
  assumes "2 \<le> sint c" and "sint c \<le> 2 ^ 61"
  shows "unat (roundToPow2 c) \<le> 2 ^ 61"
  using assms sint_neg_iff [of c]
  by (intro roundToPow2_least) (auto simp: sint_u64 simp del: of_nat_unat split: if_splits)



text \<open>
  C21: filling a fresh queue with at most its capacity of values and draining it returns the
  same values in the same order.
\<close>

theorem Build_fill_drain:
  assumes "atomix_ok A" and "2 \<le> sint c" and "sint c \<le> 2 ^ 61" and "length xs \<le> unat (roundToPow2 c)"
  shows "\<exists>q q'. go_bind (New c) (\<lambda>b. Build zero (configure p s k b)) = ret q
     \<and> run_calls (Queue_Enqueue A) (Queue_Dequeue A zero) (map Enqueue xs @ replicate (length xs) Dequeue) q
       = ret (replicate (length xs) (EnqueueRet None) @ map (\<lambda>x. DequeueRet x None) xs, q')"
proof -
  have "unat (roundToPow2 c) \<le> 2 ^ 61" by (rule rounded_le_61 [OF assms(2,3)])
  with assms show ?thesis by (intro fifo_object_fill_drain [OF New_Build_object]) simp_all
qed

theorem Build_fill_drain_witness:
  "\<exists>q q'. go_bind (New 4) (\<lambda>b. Build 0 (configure False False False b)) = ret q
     \<and> run_calls (Queue_Enqueue atomix_impl) (Queue_Dequeue atomix_impl 0)
         (map Enqueue [5, 6, 7 :: int] @ replicate (length [5, 6, 7 :: int]) Dequeue) q
       = ret (replicate (length [5, 6, 7 :: int]) (EnqueueRet None) @ map (\<lambda>x. DequeueRet x None) [5, 6, 7], q')"
proof -
  have "unat (roundToPow2 4) = 4" by code_simp
  then show ?thesis by (intro Build_fill_drain [OF atomix_ok_impl]) simp_all
qed

text \<open>
  C22: each typed builder returns what the automatic selection returns when the options fit
  its name, and panics with its message when they do not, for generic, uintptr and pointer
  queues.
\<close>

theorem typed_builders_agree:
  "go_bind (BuildSPSC zero b) (\<lambda>q. ret (Q_SPSC q)) = (if singleProducer (opts b) \<and> singleConsumer (opts b) then Build zero b
        else panics (PanicMsg ''lfq: BuildSPSC requires SingleProducer().SingleConsumer()''))
   \<and> BuildMPSC zero b = (if \<not> singleProducer (opts b) \<and> singleConsumer (opts b) then Build zero b
        else panics (PanicMsg ''lfq: BuildMPSC requires SingleConsumer() without SingleProducer()''))
   \<and> BuildSPMC zero b = (if singleProducer (opts b) \<and> \<not> singleConsumer (opts b) then Build zero b
        else panics (PanicMsg ''lfq: BuildSPMC requires SingleProducer() without SingleConsumer()''))
   \<and> BuildMPMC zero b = (if \<not> singleProducer (opts b) \<and> \<not> singleConsumer (opts b) then Build zero b
        else panics (PanicMsg ''lfq: BuildMPMC requires no constraints''))
   \<and> go_bind (BuildIndirectSPSC b) (\<lambda>q. ret (QI_SPSCIndirect q)) = (if singleProducer (opts b) \<and> singleConsumer (opts b) then BuildIndirect b
        else panics (PanicMsg ''lfq: BuildIndirectSPSC requires SingleProducer().SingleConsumer()''))
   \<and> BuildIndirectMPSC b = (if \<not> singleProducer (opts b) \<and> singleConsumer (opts b) then BuildIndirect b
        else panics (PanicMsg ''lfq: BuildIndirectMPSC requires SingleConsumer() without SingleProducer()''))
   \<and> BuildIndirectSPMC b = (if singleProducer (opts b) \<and> \<not> singleConsumer (opts b) then BuildIndirect b
        else panics (PanicMsg ''lfq: BuildIndirectSPMC requires SingleProducer() without SingleConsumer()''))
   \<and> BuildIndirectMPMC b = (if \<not> singleProducer (opts b) \<and> \<not> singleConsumer (opts b) then BuildIndirect b
        else panics (PanicMsg ''lfq: BuildIndirectMPMC requires no constraints''))
   \<and> go_bind (BuildPtrSPSC b) (\<lambda>q. ret (QP_SPSCPtr q)) = (if singleProducer (opts b) \<and> singleConsumer (opts b) then BuildPtr b
        else panics (PanicMsg ''lfq: BuildPtrSPSC requires SingleProducer().SingleConsumer()''))
   \<and> BuildPtrMPSC b = (if \<not> singleProducer (opts b) \<and> singleConsumer (opts b) then BuildPtr b
        else panics (PanicMsg ''lfq: BuildPtrMPSC requires SingleConsumer() without SingleProducer()''))
   \<and> BuildPtrSPMC b = (if singleProducer (opts b) \<and> \<not> singleConsumer (opts b) then BuildPtr b
        else panics (PanicMsg ''lfq: BuildPtrSPMC requires SingleProducer() without SingleConsumer()''))
   \<and> BuildPtrMPMC b = (if \<not> singleProducer (opts b) \<and> \<not> singleConsumer (opts b) then BuildPtr b
        else panics (PanicMsg ''lfq: BuildPtrMPMC requires no constraints''))"
  by (simp add: Build_def BuildSPSC_def BuildMPSC_def BuildSPMC_def BuildMPMC_def
      BuildIndirect_def BuildIndirectSPSC_def BuildIndirectMPSC_def BuildIndirectSPMC_def BuildIndirectMPMC_def
      BuildPtr_def BuildPtrSPSC_def BuildPtrMPSC_def BuildPtrSPMC_def BuildPtrMPMC_def)

section \<open>Capacities\<close>

text \<open>
  C23: for a capacity between 2 and 2^62, roundToPow2 returns a power of two that is at least
  the requested capacity, and no smaller power of two is.
\<close>

theorem roundToPow2_correct:
  assumes "2 \<le> sint n" and "sint n \<le> 2 ^ 62"
  shows "\<exists>k. sint (roundToPow2 n) = 2 ^ k \<and> sint n \<le> 2 ^ k \<and> (\<forall>j. sint n \<le> 2 ^ j \<longrightarrow> k \<le> j)"
proof -
  from assms obtain k where k: "k \<le> 62" "roundToPow2 n = 2 ^ k" "unat n \<le> 2 ^ k"
    by (rule roundToPow2_in_range) blast
  have "unat n < 2 ^ 63" using assms(1) sint_neg_iff [of n] by linarith
  then have s: "sint n = int (unat n)" by (simp add: sint_u64 del: of_nat_unat)
  have "k \<le> j" if "sint n \<le> 2 ^ j" for j
  proof -
    from that s have "unat n \<le> 2 ^ j" by (metis of_nat_le_iff of_nat_numeral of_nat_power)
    from roundToPow2_least [OF assms(1) this] k have "(2 :: nat) ^ k \<le> 2 ^ j" by (simp add: unat_pow2)
    then show ?thesis by simp
  qed
  moreover have "sint n \<le> 2 ^ k" using k(3) s by (metis of_nat_le_iff of_nat_numeral of_nat_power)
  moreover have "sint (roundToPow2 n) = 2 ^ k" using k by (simp add: sint_pow2)
  ultimately show ?thesis by blast
qed

theorem roundToPow2_correct_witness:
  "\<exists>k. sint (roundToPow2 1000) = 2 ^ k \<and> sint (1000 :: u64) \<le> 2 ^ k \<and> (\<forall>j. sint (1000 :: u64) \<le> 2 ^ j \<longrightarrow> k \<le> j)"
  by (rule roundToPow2_correct) simp_all

lemma small_capacity_panics:
  assumes "sint b < 2"
  shows "NewSPSC zero b = panics (PanicMsg ''lfq: capacity must be >= 2'')
    \<and> NewMPMC zero b = panics (PanicMsg ''lfq: capacity must be >= 2'')
    \<and> NewMPSC zero b = panics (PanicMsg ''lfq: capacity must be >= 2'')
    \<and> NewSPMC zero b = panics (PanicMsg ''lfq: capacity must be >= 2'')
    \<and> NewMPMCSeq zero b = panics (PanicMsg ''lfq: capacity must be >= 2'')
    \<and> NewMPSCSeq zero b = panics (PanicMsg ''lfq: capacity must be >= 2'')
    \<and> NewSPMCSeq zero b = panics (PanicMsg ''lfq: capacity must be >= 2'')
    \<and> NewSPSCIndirect b = panics (PanicMsg ''lfq: capacity must be >= 2'')
    \<and> NewSPSCPtr b = panics (PanicMsg ''lfq: capacity must be >= 2'')
    \<and> NewMPMCIndirect b = panics (PanicMsg ''lfq: capacity must be >= 2'')
    \<and> NewMPMCPtr b = panics (PanicMsg ''lfq: capacity must be >= 2'')
    \<and> NewMPMCIndirectSeq b = panics (PanicMsg ''lfq: capacity must be >= 2'')
    \<and> NewMPMCPtrSeq b = panics (PanicMsg ''lfq: capacity must be >= 2'')
    \<and> NewMPMCCompactIndirect b = panics (PanicMsg ''lfq: capacity must be >= 2'')
    \<and> NewMPSCIndirect b = panics (PanicMsg ''lfq: capacity must be >= 2'')
    \<and> NewMPSCPtr b = panics (PanicMsg ''lfq: capacity must be >= 2'')
    \<and> NewMPSCIndirectSeq b = panics (PanicMsg ''lfq: capacity must be >= 2'')
    \<and> NewMPSCPtrSeq b = panics (PanicMsg ''lfq: capacity must be >= 2'')
    \<and> NewMPSCCompactIndirect b = panics (PanicMsg ''lfq: capacity must be >= 2'')
    \<and> NewSPMCIndirect b = panics (PanicMsg ''lfq: capacity must be >= 2'')
    \<and> NewSPMCPtr b = panics (PanicMsg ''lfq: capacity must be >= 2'')
    \<and> NewSPMCIndirectSeq b = panics (PanicMsg ''lfq: capacity must be >= 2'')
    \<and> NewSPMCPtrSeq b = panics (PanicMsg ''lfq: capacity must be >= 2'')
    \<and> NewSPMCCompactIndirect b = panics (PanicMsg ''lfq: capacity must be >= 2'')
    \<and> New b = panics (PanicMsg ''lfq: capacity must be >= 2'')"
  using assms by (simp_all add: NewSPSC_def NewMPMC_def NewMPSC_def NewSPMC_def
      NewMPMCSeq_def NewMPSCSeq_def NewSPMCSeq_def NewSPSCIndirect_def
      NewSPSCPtr_def NewMPMCIndirect_def NewMPMCPtr_def NewMPMCIndirectSeq_def
      NewMPMCPtrSeq_def NewMPMCCompactIndirect_def NewMPSCIndirect_def NewMPSCPtr_def
      NewMPSCIndirectSeq_def NewMPSCPtrSeq_def NewMPSCCompactIndirect_def NewSPMCIndirect_def
      NewSPMCPtr_def NewSPMCIndirectSeq_def NewSPMCPtrSeq_def NewSPMCCompactIndirect_def
      New_def)

lemma large_capacity_panics_n:
  assumes "2 ^ 62 < sint c"
  shows "NewSPSC zero c = panics MakeSliceLenOutOfRange
    \<and> NewMPMCSeq zero c = panics MakeSliceLenOutOfRange
    \<and> NewMPSCSeq zero c = panics MakeSliceLenOutOfRange
    \<and> NewSPMCSeq zero c = panics MakeSliceLenOutOfRange
    \<and> NewSPSCIndirect c = panics MakeSliceLenOutOfRange
    \<and> NewSPSCPtr c = panics MakeSliceLenOutOfRange
    \<and> NewMPMCIndirectSeq c = panics MakeSliceLenOutOfRange
    \<and> NewMPMCPtrSeq c = panics MakeSliceLenOutOfRange
    \<and> NewMPMCCompactIndirect c = panics MakeSliceLenOutOfRange
    \<and> NewMPSCIndirectSeq c = panics MakeSliceLenOutOfRange
    \<and> NewMPSCPtrSeq c = panics MakeSliceLenOutOfRange
    \<and> NewMPSCCompactIndirect c = panics MakeSliceLenOutOfRange
    \<and> NewSPMCIndirectSeq c = panics MakeSliceLenOutOfRange
    \<and> NewSPMCPtrSeq c = panics MakeSliceLenOutOfRange
    \<and> NewSPMCCompactIndirect c = panics MakeSliceLenOutOfRange"
  using assms order_loop_pow2 [of 63 0]
  by (simp add: roundToPow2_overflow make_slice_def sint_neg_iff
      NewSPSC_def NewMPMCSeq_def NewMPSCSeq_def NewSPMCSeq_def
      NewSPSCIndirect_def NewSPSCPtr_def NewMPMCIndirectSeq_def NewMPMCPtrSeq_def
      NewMPMCCompactIndirect_def NewMPSCIndirectSeq_def NewMPSCPtrSeq_def NewMPSCCompactIndirect_def
      NewSPMCIndirectSeq_def NewSPMCPtrSeq_def NewSPMCCompactIndirect_def)

lemma faa_large_capacity_panics:
  assumes "2 ^ 61 < sint c" and "sint c \<le> 2 ^ 62"
  shows "NewMPMC zero c = panics MakeSliceLenOutOfRange
    \<and> NewMPSC zero c = panics MakeSliceLenOutOfRange
    \<and> NewSPMC zero c = panics MakeSliceLenOutOfRange
    \<and> NewMPMCIndirect c = panics MakeSliceLenOutOfRange
    \<and> NewMPMCPtr c = panics MakeSliceLenOutOfRange
    \<and> NewMPSCIndirect c = panics MakeSliceLenOutOfRange
    \<and> NewMPSCPtr c = panics MakeSliceLenOutOfRange
    \<and> NewSPMCIndirect c = panics MakeSliceLenOutOfRange
    \<and> NewSPMCPtr c = panics MakeSliceLenOutOfRange"
  using assms by (simp add: roundToPow2_62 make_slice_def sint_neg_iff
      NewMPMC_def NewMPSC_def NewSPMC_def NewMPMCIndirect_def
      NewMPMCPtr_def NewMPSCIndirect_def NewMPSCPtr_def NewSPMCIndirect_def
      NewSPMCPtr_def)

text \<open>
  C24: every constructor and New panic with "lfq: capacity must be >= 2" for a capacity below
  2. The queues with n slots refuse a capacity above 2^62, whose rounding overflows to a
  negative length, through make; those with 2n slots refuse a capacity above 2^61 and up to
  2^62. Beyond 2^62 NewMPMC refuses no more: n * 2 wraps to 0, the queue has no slots and a
  negative Cap, and the first Enqueue panics with an index out of range.
\<close>

theorem capacity_limits:
  assumes "sint b < 2" and "2 ^ 62 < sint c" and "2 ^ 61 < sint d" and "sint d \<le> 2 ^ 62" and "atomix_ok A"
  shows "NewSPSC zero b = panics (PanicMsg ''lfq: capacity must be >= 2'')
    \<and> NewMPMC zero b = panics (PanicMsg ''lfq: capacity must be >= 2'')
    \<and> NewMPSC zero b = panics (PanicMsg ''lfq: capacity must be >= 2'')
    \<and> NewSPMC zero b = panics (PanicMsg ''lfq: capacity must be >= 2'')
    \<and> NewMPMCSeq zero b = panics (PanicMsg ''lfq: capacity must be >= 2'')
    \<and> NewMPSCSeq zero b = panics (PanicMsg ''lfq: capacity must be >= 2'')
    \<and> NewSPMCSeq zero b = panics (PanicMsg ''lfq: capacity must be >= 2'')
    \<and> NewSPSCIndirect b = panics (PanicMsg ''lfq: capacity must be >= 2'')
    \<and> NewSPSCPtr b = panics (PanicMsg ''lfq: capacity must be >= 2'')
    \<and> NewMPMCIndirect b = panics (PanicMsg ''lfq: capacity must be >= 2'')
    \<and> NewMPMCPtr b = panics (PanicMsg ''lfq: capacity must be >= 2'')
    \<and> NewMPMCIndirectSeq b = panics (PanicMsg ''lfq: capacity must be >= 2'')
    \<and> NewMPMCPtrSeq b = panics (PanicMsg ''lfq: capacity must be >= 2'')
    \<and> NewMPMCCompactIndirect b = panics (PanicMsg ''lfq: capacity must be >= 2'')
    \<and> NewMPSCIndirect b = panics (PanicMsg ''lfq: capacity must be >= 2'')
    \<and> NewMPSCPtr b = panics (PanicMsg ''lfq: capacity must be >= 2'')
    \<and> NewMPSCIndirectSeq b = panics (PanicMsg ''lfq: capacity must be >= 2'')
    \<and> NewMPSCPtrSeq b = panics (PanicMsg ''lfq: capacity must be >= 2'')
    \<and> NewMPSCCompactIndirect b = panics (PanicMsg ''lfq: capacity must be >= 2'')
    \<and> NewSPMCIndirect b = panics (PanicMsg ''lfq: capacity must be >= 2'')
    \<and> NewSPMCPtr b = panics (PanicMsg ''lfq: capacity must be >= 2'')
    \<and> NewSPMCIndirectSeq b = panics (PanicMsg ''lfq: capacity must be >= 2'')
    \<and> NewSPMCPtrSeq b = panics (PanicMsg ''lfq: capacity must be >= 2'')
    \<and> NewSPMCCompactIndirect b = panics (PanicMsg ''lfq: capacity must be >= 2'')
    \<and> New b = panics (PanicMsg ''lfq: capacity must be >= 2'')
    \<and> NewSPSC zero c = panics MakeSliceLenOutOfRange
    \<and> NewMPMCSeq zero c = panics MakeSliceLenOutOfRange
    \<and> NewMPSCSeq zero c = panics MakeSliceLenOutOfRange
    \<and> NewSPMCSeq zero c = panics MakeSliceLenOutOfRange
    \<and> NewSPSCIndirect c = panics MakeSliceLenOutOfRange
    \<and> NewSPSCPtr c = panics MakeSliceLenOutOfRange
    \<and> NewMPMCIndirectSeq c = panics MakeSliceLenOutOfRange
    \<and> NewMPMCPtrSeq c = panics MakeSliceLenOutOfRange
    \<and> NewMPMCCompactIndirect c = panics MakeSliceLenOutOfRange
    \<and> NewMPSCIndirectSeq c = panics MakeSliceLenOutOfRange
    \<and> NewMPSCPtrSeq c = panics MakeSliceLenOutOfRange
    \<and> NewMPSCCompactIndirect c = panics MakeSliceLenOutOfRange
    \<and> NewSPMCIndirectSeq c = panics MakeSliceLenOutOfRange
    \<and> NewSPMCPtrSeq c = panics MakeSliceLenOutOfRange
    \<and> NewSPMCCompactIndirect c = panics MakeSliceLenOutOfRange
    \<and> NewMPMC zero d = panics MakeSliceLenOutOfRange
    \<and> NewMPSC zero d = panics MakeSliceLenOutOfRange
    \<and> NewSPMC zero d = panics MakeSliceLenOutOfRange
    \<and> NewMPMCIndirect d = panics MakeSliceLenOutOfRange
    \<and> NewMPMCPtr d = panics MakeSliceLenOutOfRange
    \<and> NewMPSCIndirect d = panics MakeSliceLenOutOfRange
    \<and> NewMPSCPtr d = panics MakeSliceLenOutOfRange
    \<and> NewSPMCIndirect d = panics MakeSliceLenOutOfRange
    \<and> NewSPMCPtr d = panics MakeSliceLenOutOfRange
    \<and> (\<exists>q. NewMPMC zero c = ret q \<and> MPMC_Cap q < 0 \<and> MPMC_Enqueue A x q = panics IndexOutOfRange)"
  by (intro conjI atomix_sem.MPMC_overflow_unusable [OF atomix_sem.intro [OF assms(5)] assms(2)];
    simp add: small_capacity_panics [OF assms(1)] large_capacity_panics_n [OF assms(2)] faa_large_capacity_panics [OF assms(3,4)])

theorem capacity_limits_witness:
  "NewSPSC (0 :: int) (- 1) = panics (PanicMsg ''lfq: capacity must be >= 2'')
    \<and> NewMPMC (0 :: int) (- 1) = panics (PanicMsg ''lfq: capacity must be >= 2'')
    \<and> NewMPSC (0 :: int) (- 1) = panics (PanicMsg ''lfq: capacity must be >= 2'')
    \<and> NewSPMC (0 :: int) (- 1) = panics (PanicMsg ''lfq: capacity must be >= 2'')
    \<and> NewMPMCSeq (0 :: int) (- 1) = panics (PanicMsg ''lfq: capacity must be >= 2'')
    \<and> NewMPSCSeq (0 :: int) (- 1) = panics (PanicMsg ''lfq: capacity must be >= 2'')
    \<and> NewSPMCSeq (0 :: int) (- 1) = panics (PanicMsg ''lfq: capacity must be >= 2'')
    \<and> NewSPSCIndirect (- 1) = panics (PanicMsg ''lfq: capacity must be >= 2'')
    \<and> NewSPSCPtr (- 1) = panics (PanicMsg ''lfq: capacity must be >= 2'')
    \<and> NewMPMCIndirect (- 1) = panics (PanicMsg ''lfq: capacity must be >= 2'')
    \<and> NewMPMCPtr (- 1) = panics (PanicMsg ''lfq: capacity must be >= 2'')
    \<and> NewMPMCIndirectSeq (- 1) = panics (PanicMsg ''lfq: capacity must be >= 2'')
    \<and> NewMPMCPtrSeq (- 1) = panics (PanicMsg ''lfq: capacity must be >= 2'')
    \<and> NewMPMCCompactIndirect (- 1) = panics (PanicMsg ''lfq: capacity must be >= 2'')
    \<and> NewMPSCIndirect (- 1) = panics (PanicMsg ''lfq: capacity must be >= 2'')
    \<and> NewMPSCPtr (- 1) = panics (PanicMsg ''lfq: capacity must be >= 2'')
    \<and> NewMPSCIndirectSeq (- 1) = panics (PanicMsg ''lfq: capacity must be >= 2'')
    \<and> NewMPSCPtrSeq (- 1) = panics (PanicMsg ''lfq: capacity must be >= 2'')
    \<and> NewMPSCCompactIndirect (- 1) = panics (PanicMsg ''lfq: capacity must be >= 2'')
    \<and> NewSPMCIndirect (- 1) = panics (PanicMsg ''lfq: capacity must be >= 2'')
    \<and> NewSPMCPtr (- 1) = panics (PanicMsg ''lfq: capacity must be >= 2'')
    \<and> NewSPMCIndirectSeq (- 1) = panics (PanicMsg ''lfq: capacity must be >= 2'')
    \<and> NewSPMCPtrSeq (- 1) = panics (PanicMsg ''lfq: capacity must be >= 2'')
    \<and> NewSPMCCompactIndirect (- 1) = panics (PanicMsg ''lfq: capacity must be >= 2'')
    \<and> New (- 1) = panics (PanicMsg ''lfq: capacity must be >= 2'')
    \<and> NewSPSC (0 :: int) (2 ^ 62 + 1) = panics MakeSliceLenOutOfRange
    \<and> NewMPMCSeq (0 :: int) (2 ^ 62 + 1) = panics MakeSliceLenOutOfRange
    \<and> NewMPSCSeq (0 :: int) (2 ^ 62 + 1) = panics MakeSliceLenOutOfRange
    \<and> NewSPMCSeq (0 :: int) (2 ^ 62 + 1) = panics MakeSliceLenOutOfRange
    \<and> NewSPSCIndirect (2 ^ 62 + 1) = panics MakeSliceLenOutOfRange
    \<and> NewSPSCPtr (2 ^ 62 + 1) = panics MakeSliceLenOutOfRange
    \<and> NewMPMCIndirectSeq (2 ^ 62 + 1) = panics MakeSliceLenOutOfRange
    \<and> NewMPMCPtrSeq (2 ^ 62 + 1) = panics MakeSliceLenOutOfRange
    \<and> NewMPMCCompactIndirect (2 ^ 62 + 1) = panics MakeSliceLenOutOfRange
    \<and> NewMPSCIndirectSeq (2 ^ 62 + 1) = panics MakeSliceLenOutOfRange
    \<and> NewMPSCPtrSeq (2 ^ 62 + 1) = panics MakeSliceLenOutOfRange
    \<and> NewMPSCCompactIndirect (2 ^ 62 + 1) = panics MakeSliceLenOutOfRange
    \<and> NewSPMCIndirectSeq (2 ^ 62 + 1) = panics MakeSliceLenOutOfRange
    \<and> NewSPMCPtrSeq (2 ^ 62 + 1) = panics MakeSliceLenOutOfRange
    \<and> NewSPMCCompactIndirect (2 ^ 62 + 1) = panics MakeSliceLenOutOfRange
    \<and> NewMPMC (0 :: int) (2 ^ 62) = panics MakeSliceLenOutOfRange
    \<and> NewMPSC (0 :: int) (2 ^ 62) = panics MakeSliceLenOutOfRange
    \<and> NewSPMC (0 :: int) (2 ^ 62) = panics MakeSliceLenOutOfRange
    \<and> NewMPMCIndirect (2 ^ 62) = panics MakeSliceLenOutOfRange
    \<and> NewMPMCPtr (2 ^ 62) = panics MakeSliceLenOutOfRange
    \<and> NewMPSCIndirect (2 ^ 62) = panics MakeSliceLenOutOfRange
    \<and> NewMPSCPtr (2 ^ 62) = panics MakeSliceLenOutOfRange
    \<and> NewSPMCIndirect (2 ^ 62) = panics MakeSliceLenOutOfRange
    \<and> NewSPMCPtr (2 ^ 62) = panics MakeSliceLenOutOfRange
    \<and> (\<exists>q. NewMPMC (0 :: int) (2 ^ 62 + 1) = ret q \<and> MPMC_Cap q < 0 \<and> MPMC_Enqueue atomix_impl 1 q = panics IndexOutOfRange)"
  by (rule capacity_limits [OF _ _ _ _ atomix_ok_impl]) simp_all

section \<open>The algorithms\<close>

text \<open>
  C25: the Lamport ring buffers SPSC, SPSCIndirect and SPSCPtr are bounded FIFOs from
  construction on, for 2^64 - 1 calls; the unchecked pointer accesses of the last two stay
  inside the slice.
\<close>

theorem SPSC_family_fifo:
  assumes "2 \<le> sint c" and "sint c \<le> 2 ^ 62"
  shows "fifo_object (NewSPSC zero c) SPSC_Enqueue (SPSC_Dequeue zero) SPSC_Cap zero (\<lambda>_. True) (unat (roundToPow2 c)) (2 ^ 64 - 1)
    \<and> fifo_object (NewSPSCIndirect c) SPSCIndirect_Enqueue SPSCIndirect_Dequeue SPSCIndirect_Cap 0 (\<lambda>_. True) (unat (roundToPow2 c)) (2 ^ 64 - 1)
    \<and> fifo_object (NewSPSCPtr c) SPSCPtr_Enqueue SPSCPtr_Dequeue SPSCPtr_Cap 0 (\<lambda>_. True) (unat (roundToPow2 c)) (2 ^ 64 - 1)"
  by (intro conjI; rule SPSC_object [OF assms] SPSCIndirect_object [OF assms] SPSCPtr_object [OF assms])

theorem SPSC_family_fifo_witness:
  "fifo_object (NewSPSC (0 :: int) 3) SPSC_Enqueue (SPSC_Dequeue (0 :: int)) SPSC_Cap (0 :: int) (\<lambda>_. True) (unat (roundToPow2 3)) (2 ^ 64 - 1)
    \<and> fifo_object (NewSPSCIndirect 3) SPSCIndirect_Enqueue SPSCIndirect_Dequeue SPSCIndirect_Cap 0 (\<lambda>_. True) (unat (roundToPow2 3)) (2 ^ 64 - 1)
    \<and> fifo_object (NewSPSCPtr 3) SPSCPtr_Enqueue SPSCPtr_Dequeue SPSCPtr_Cap 0 (\<lambda>_. True) (unat (roundToPow2 3)) (2 ^ 64 - 1)"
  by (rule SPSC_family_fifo) simp_all

text \<open>
  C26: the sequence-number queues MPMCSeq, MPSCSeq and SPMCSeq and the six with 128-bit
  entries are bounded FIFOs for 2^63 calls.
\<close>

theorem Seq_family_fifo:
  assumes "atomix_ok A" and "2 \<le> sint c" and "sint c \<le> 2 ^ 62"
  shows "fifo_object (NewMPMCSeq zero c) (MPMCSeq_Enqueue A) (MPMCSeq_Dequeue A zero) MPMCSeq_Cap zero (\<lambda>_. True) (unat (roundToPow2 c)) (2 ^ 63)
    \<and> fifo_object (NewMPSCSeq zero c) (MPSCSeq_Enqueue A) (MPSCSeq_Dequeue zero) MPSCSeq_Cap zero (\<lambda>_. True) (unat (roundToPow2 c)) (2 ^ 63)
    \<and> fifo_object (NewSPMCSeq zero c) SPMCSeq_Enqueue (SPMCSeq_Dequeue A zero) SPMCSeq_Cap zero (\<lambda>_. True) (unat (roundToPow2 c)) (2 ^ 63)
    \<and> fifo_object (NewMPMCIndirectSeq c) (MPMCIndirectSeq_Enqueue A) (MPMCIndirectSeq_Dequeue A) MPMCIndirectSeq_Cap 0 (\<lambda>_. True) (unat (roundToPow2 c)) (2 ^ 63)
    \<and> fifo_object (NewMPMCPtrSeq c) (MPMCPtrSeq_Enqueue A) (MPMCPtrSeq_Dequeue A) MPMCPtrSeq_Cap 0 (\<lambda>_. True) (unat (roundToPow2 c)) (2 ^ 63)
    \<and> fifo_object (NewMPSCIndirectSeq c) (MPSCIndirectSeq_Enqueue A) MPSCIndirectSeq_Dequeue MPSCIndirectSeq_Cap 0 (\<lambda>_. True) (unat (roundToPow2 c)) (2 ^ 63)
    \<and> fifo_object (NewMPSCPtrSeq c) (MPSCPtrSeq_Enqueue A) MPSCPtrSeq_Dequeue MPSCPtrSeq_Cap 0 (\<lambda>_. True) (unat (roundToPow2 c)) (2 ^ 63)
    \<and> fifo_object (NewSPMCIndirectSeq c) SPMCIndirectSeq_Enqueue (SPMCIndirectSeq_Dequeue A) SPMCIndirectSeq_Cap 0 (\<lambda>_. True) (unat (roundToPow2 c)) (2 ^ 63)
    \<and> fifo_object (NewSPMCPtrSeq c) SPMCPtrSeq_Enqueue (SPMCPtrSeq_Dequeue A) SPMCPtrSeq_Cap 0 (\<lambda>_. True) (unat (roundToPow2 c)) (2 ^ 63)"
proof -
  note sem = atomix_sem.intro [OF assms(1)]
  show ?thesis
    by (intro conjI; rule atomix_sem.MPMCSeq_object [OF sem assms(2,3)] atomix_sem.MPSCSeq_object [OF sem assms(2,3)] atomix_sem.SPMCSeq_object [OF sem assms(2,3)] atomix_sem.MPMCIndirectSeq_object [OF sem assms(2,3)] atomix_sem.MPMCPtrSeq_object [OF sem assms(2,3)] atomix_sem.MPSCIndirectSeq_object [OF sem assms(2,3)] atomix_sem.MPSCPtrSeq_object [OF sem assms(2,3)] atomix_sem.SPMCIndirectSeq_object [OF sem assms(2,3)] atomix_sem.SPMCPtrSeq_object [OF sem assms(2,3)])
qed

theorem Seq_family_fifo_witness:
  "fifo_object (NewMPMCSeq (0 :: int) 3) (MPMCSeq_Enqueue atomix_impl) (MPMCSeq_Dequeue atomix_impl (0 :: int)) MPMCSeq_Cap (0 :: int) (\<lambda>_. True) (unat (roundToPow2 3)) (2 ^ 63)
    \<and> fifo_object (NewMPSCSeq (0 :: int) 3) (MPSCSeq_Enqueue atomix_impl) (MPSCSeq_Dequeue (0 :: int)) MPSCSeq_Cap (0 :: int) (\<lambda>_. True) (unat (roundToPow2 3)) (2 ^ 63)
    \<and> fifo_object (NewSPMCSeq (0 :: int) 3) SPMCSeq_Enqueue (SPMCSeq_Dequeue atomix_impl (0 :: int)) SPMCSeq_Cap (0 :: int) (\<lambda>_. True) (unat (roundToPow2 3)) (2 ^ 63)
    \<and> fifo_object (NewMPMCIndirectSeq 3) (MPMCIndirectSeq_Enqueue atomix_impl) (MPMCIndirectSeq_Dequeue atomix_impl) MPMCIndirectSeq_Cap 0 (\<lambda>_. True) (unat (roundToPow2 3)) (2 ^ 63)
    \<and> fifo_object (NewMPMCPtrSeq 3) (MPMCPtrSeq_Enqueue atomix_impl) (MPMCPtrSeq_Dequeue atomix_impl) MPMCPtrSeq_Cap 0 (\<lambda>_. True) (unat (roundToPow2 3)) (2 ^ 63)
    \<and> fifo_object (NewMPSCIndirectSeq 3) (MPSCIndirectSeq_Enqueue atomix_impl) MPSCIndirectSeq_Dequeue MPSCIndirectSeq_Cap 0 (\<lambda>_. True) (unat (roundToPow2 3)) (2 ^ 63)
    \<and> fifo_object (NewMPSCPtrSeq 3) (MPSCPtrSeq_Enqueue atomix_impl) MPSCPtrSeq_Dequeue MPSCPtrSeq_Cap 0 (\<lambda>_. True) (unat (roundToPow2 3)) (2 ^ 63)
    \<and> fifo_object (NewSPMCIndirectSeq 3) SPMCIndirectSeq_Enqueue (SPMCIndirectSeq_Dequeue atomix_impl) SPMCIndirectSeq_Cap 0 (\<lambda>_. True) (unat (roundToPow2 3)) (2 ^ 63)
    \<and> fifo_object (NewSPMCPtrSeq 3) SPMCPtrSeq_Enqueue (SPMCPtrSeq_Dequeue atomix_impl) SPMCPtrSeq_Cap 0 (\<lambda>_. True) (unat (roundToPow2 3)) (2 ^ 63)"
  by (rule Seq_family_fifo [OF atomix_ok_impl]) simp_all

text \<open>
  C27: the fetch-and-add queues MPMC, MPSC and SPMC and the six with 128-bit entries are
  bounded FIFOs for 2^62 calls.
\<close>

theorem FAA_family_fifo:
  assumes "atomix_ok A" and "2 \<le> sint c" and "sint c \<le> 2 ^ 61"
  shows "fifo_object (NewMPMC zero c) (MPMC_Enqueue A) (MPMC_Dequeue A zero) MPMC_Cap zero (\<lambda>_. True) (unat (roundToPow2 c)) (2 ^ 62)
    \<and> fifo_object (NewMPSC zero c) (MPSC_Enqueue A) (MPSC_Dequeue zero) MPSC_Cap zero (\<lambda>_. True) (unat (roundToPow2 c)) (2 ^ 62)
    \<and> fifo_object (NewSPMC zero c) SPMC_Enqueue (SPMC_Dequeue A zero) SPMC_Cap zero (\<lambda>_. True) (unat (roundToPow2 c)) (2 ^ 62)
    \<and> fifo_object (NewMPMCIndirect c) (MPMCIndirect_Enqueue A) (MPMCIndirect_Dequeue A) MPMCIndirect_Cap 0 (\<lambda>_. True) (unat (roundToPow2 c)) (2 ^ 62)
    \<and> fifo_object (NewMPMCPtr c) (MPMCPtr_Enqueue A) (MPMCPtr_Dequeue A) MPMCPtr_Cap 0 (\<lambda>_. True) (unat (roundToPow2 c)) (2 ^ 62)
    \<and> fifo_object (NewMPSCIndirect c) (MPSCIndirect_Enqueue A) MPSCIndirect_Dequeue MPSCIndirect_Cap 0 (\<lambda>_. True) (unat (roundToPow2 c)) (2 ^ 62)
    \<and> fifo_object (NewMPSCPtr c) (MPSCPtr_Enqueue A) MPSCPtr_Dequeue MPSCPtr_Cap 0 (\<lambda>_. True) (unat (roundToPow2 c)) (2 ^ 62)
    \<and> fifo_object (NewSPMCIndirect c) SPMCIndirect_Enqueue (SPMCIndirect_Dequeue A) SPMCIndirect_Cap 0 (\<lambda>_. True) (unat (roundToPow2 c)) (2 ^ 62)
    \<and> fifo_object (NewSPMCPtr c) SPMCPtr_Enqueue (SPMCPtr_Dequeue A) SPMCPtr_Cap 0 (\<lambda>_. True) (unat (roundToPow2 c)) (2 ^ 62)"
proof -
  note sem = atomix_sem.intro [OF assms(1)]
  show ?thesis
    by (intro conjI; rule atomix_sem.MPMC_object [OF sem assms(2,3)] atomix_sem.MPSC_object [OF sem assms(2,3)] atomix_sem.SPMC_object [OF sem assms(2,3)] atomix_sem.MPMCIndirect_object [OF sem assms(2,3)] atomix_sem.MPMCPtr_object [OF sem assms(2,3)] atomix_sem.MPSCIndirect_object [OF sem assms(2,3)] atomix_sem.MPSCPtr_object [OF sem assms(2,3)] atomix_sem.SPMCIndirect_object [OF sem assms(2,3)] atomix_sem.SPMCPtr_object [OF sem assms(2,3)])
qed

theorem FAA_family_fifo_witness:
  "fifo_object (NewMPMC (0 :: int) 3) (MPMC_Enqueue atomix_impl) (MPMC_Dequeue atomix_impl (0 :: int)) MPMC_Cap (0 :: int) (\<lambda>_. True) (unat (roundToPow2 3)) (2 ^ 62)
    \<and> fifo_object (NewMPSC (0 :: int) 3) (MPSC_Enqueue atomix_impl) (MPSC_Dequeue (0 :: int)) MPSC_Cap (0 :: int) (\<lambda>_. True) (unat (roundToPow2 3)) (2 ^ 62)
    \<and> fifo_object (NewSPMC (0 :: int) 3) SPMC_Enqueue (SPMC_Dequeue atomix_impl (0 :: int)) SPMC_Cap (0 :: int) (\<lambda>_. True) (unat (roundToPow2 3)) (2 ^ 62)
    \<and> fifo_object (NewMPMCIndirect 3) (MPMCIndirect_Enqueue atomix_impl) (MPMCIndirect_Dequeue atomix_impl) MPMCIndirect_Cap 0 (\<lambda>_. True) (unat (roundToPow2 3)) (2 ^ 62)
    \<and> fifo_object (NewMPMCPtr 3) (MPMCPtr_Enqueue atomix_impl) (MPMCPtr_Dequeue atomix_impl) MPMCPtr_Cap 0 (\<lambda>_. True) (unat (roundToPow2 3)) (2 ^ 62)
    \<and> fifo_object (NewMPSCIndirect 3) (MPSCIndirect_Enqueue atomix_impl) MPSCIndirect_Dequeue MPSCIndirect_Cap 0 (\<lambda>_. True) (unat (roundToPow2 3)) (2 ^ 62)
    \<and> fifo_object (NewMPSCPtr 3) (MPSCPtr_Enqueue atomix_impl) MPSCPtr_Dequeue MPSCPtr_Cap 0 (\<lambda>_. True) (unat (roundToPow2 3)) (2 ^ 62)
    \<and> fifo_object (NewSPMCIndirect 3) SPMCIndirect_Enqueue (SPMCIndirect_Dequeue atomix_impl) SPMCIndirect_Cap 0 (\<lambda>_. True) (unat (roundToPow2 3)) (2 ^ 62)
    \<and> fifo_object (NewSPMCPtr 3) SPMCPtr_Enqueue (SPMCPtr_Dequeue atomix_impl) SPMCPtr_Cap 0 (\<lambda>_. True) (unat (roundToPow2 3)) (2 ^ 62)"
  by (rule FAA_family_fifo [OF atomix_ok_impl]) simp_all

text \<open>
  C28: the compact queues are bounded FIFOs of values below 2^63 for 2^63 calls; a value with
  its high bit set makes Enqueue panic with "lfq: value exceeds 63 bits" in every state.
\<close>

theorem Compact_family_fifo:
  assumes "atomix_ok A" and "2 \<le> sint c" and "sint c \<le> 2 ^ 62"
  shows "fifo_object (NewMPMCCompactIndirect c) (MPMCCompactIndirect_Enqueue A) (MPMCCompactIndirect_Dequeue A) MPMCCompactIndirect_Cap 0 valid63 (unat (roundToPow2 c)) (2 ^ 63)
    \<and> fifo_object (NewMPSCCompactIndirect c) (MPSCCompactIndirect_Enqueue A) MPSCCompactIndirect_Dequeue MPSCCompactIndirect_Cap 0 valid63 (unat (roundToPow2 c)) (2 ^ 63)
    \<and> fifo_object (NewSPMCCompactIndirect c) (SPMCCompactIndirect_Enqueue A) (SPMCCompactIndirect_Dequeue A) SPMCCompactIndirect_Cap 0 valid63 (unat (roundToPow2 c)) (2 ^ 63)
    \<and> (\<forall>v q. 2 ^ 63 \<le> unat v \<longrightarrow> MPMCCompactIndirect_Enqueue A v q = panics (PanicMsg ''lfq: value exceeds 63 bits'') \<and>
        MPSCCompactIndirect_Enqueue A v q = panics (PanicMsg ''lfq: value exceeds 63 bits'') \<and>
        SPMCCompactIndirect_Enqueue A v q = panics (PanicMsg ''lfq: value exceeds 63 bits''))"
proof -
  note sem = atomix_sem.intro [OF assms(1)]
  show ?thesis
    by (intro conjI; (rule atomix_sem.MPMCCompactIndirect_object [OF sem assms(2,3)] atomix_sem.MPSCCompactIndirect_object [OF sem assms(2,3)] atomix_sem.SPMCCompactIndirect_object [OF sem assms(2,3)])?) (simp add: compact_Enqueue_invalid valid63_iff)
qed

theorem Compact_family_fifo_witness:
  "fifo_object (NewMPMCCompactIndirect 3) (MPMCCompactIndirect_Enqueue atomix_impl) (MPMCCompactIndirect_Dequeue atomix_impl) MPMCCompactIndirect_Cap 0 valid63 (unat (roundToPow2 3)) (2 ^ 63)
    \<and> fifo_object (NewMPSCCompactIndirect 3) (MPSCCompactIndirect_Enqueue atomix_impl) MPSCCompactIndirect_Dequeue MPSCCompactIndirect_Cap 0 valid63 (unat (roundToPow2 3)) (2 ^ 63)
    \<and> fifo_object (NewSPMCCompactIndirect 3) (SPMCCompactIndirect_Enqueue atomix_impl) (SPMCCompactIndirect_Dequeue atomix_impl) SPMCCompactIndirect_Cap 0 valid63 (unat (roundToPow2 3)) (2 ^ 63)
    \<and> (\<forall>q. MPMCCompactIndirect_Enqueue atomix_impl (2 ^ 63) q = panics (PanicMsg ''lfq: value exceeds 63 bits'') \<and>
        MPSCCompactIndirect_Enqueue atomix_impl (2 ^ 63) q = panics (PanicMsg ''lfq: value exceeds 63 bits'') \<and>
        SPMCCompactIndirect_Enqueue atomix_impl (2 ^ 63) q = panics (PanicMsg ''lfq: value exceeds 63 bits''))"
  using Compact_family_fifo [OF atomix_ok_impl, of 3] by simp

text \<open>
  C29: MPMCSeq works across the wrap-around of its counters: from any well-formed state,
  whatever the values of head and tail, a program of any length gets the answers of the
  bounded FIFO and leaves a well-formed state.
\<close>

theorem MPMCSeq_wrap_safe:
  assumes "atomix_ok A" and "seqq_ok q"
  shows "\<exists>q'. run_calls (MPMCSeq_Enqueue A) (MPMCSeq_Dequeue A zero) cs q
        = ret (fst (fifo_run zero (nat (MPMCSeq_Cap q)) cs (seqq_elems q)), q')
      \<and> seqq_elems q' = snd (fifo_run zero (nat (MPMCSeq_Cap q)) cs (seqq_elems q)) \<and> seqq_ok q'"
  by (rule atomix_sem.mpmcseq_run [OF atomix_sem.intro [OF assms(1)] assms(2)])

theorem MPMCSeq_wrap_safe_witness:
  "\<exists>q'. run_calls (MPMCSeq_Enqueue atomix_impl) (MPMCSeq_Dequeue atomix_impl 0) [Enqueue 4, Enqueue 5, Dequeue, Dequeue]
      \<lparr>MPMCSeq.tail = - 1, MPMCSeq.head = - 1, MPMCSeq.buffer = [\<lparr>seq = 0, data = 0\<rparr>, \<lparr>seq = - 1, data = (0 :: int)\<rparr>],
       MPMCSeq.mask_q = 1, MPMCSeq.capacity = 2\<rparr>
    = ret ([EnqueueRet None, EnqueueRet None, DequeueRet 4 None, DequeueRet 5 None], q')"
proof -
  let ?q = "\<lparr>MPMCSeq.tail = - 1, MPMCSeq.head = - 1, MPMCSeq.buffer = [\<lparr>seq = 0, data = 0\<rparr>, \<lparr>seq = - 1, data = (0 :: int)\<rparr>],
       MPMCSeq.mask_q = 1, MPMCSeq.capacity = 2\<rparr>"
  have u: "unat (- 1 :: u64) = 2 ^ 64 - 1" by (simp add: unsigned_minus_1_eq_mask mask_eq_exp_minus_1)
  have "seqq_shape 1 ?q" by (simp add: seqq_shape_def)
  moreover have "seq_ring 2 (- 1) (- 1) (\<lambda>i. seq (MPMCSeq.buffer ?q ! i))"
    unfolding seq_ring_def by (auto simp: u dest!: less_2_cases)
  ultimately have "seqq_ok ?q" unfolding seqq_ok_def by (auto intro!: exI [of _ 1] simp: numeral_2_eq_2)
  from MPMCSeq_wrap_safe [OF atomix_ok_impl this, of 0 "[Enqueue 4, Enqueue 5, Dequeue, Dequeue]"]
  show ?thesis by (auto simp: MPMCSeq_Cap_def seqq_elems_def simp del: run_calls.simps)
qed

text \<open>
  C30: packing the sequence number and the value into one 128-bit entry changes nothing: on
  every well-formed queue (the invariant that holds of each reachable one within the bound on
  the number of calls) each operation of the six queues with packed entries commutes with the
  view of their slots as those of the generic queue, result and state.
\<close>

theorem Seq128_simulation:
  assumes "atomix_ok A" and "seqq_inv b (seq128_abs q)"
  shows "go_map seq128_abs (MPMCIndirectSeq_Enqueue A x q) = MPMCSeq_Enqueue A x (seq128_abs q)
    \<and> go_map seq128_abs (MPMCIndirectSeq_Dequeue A q) = MPMCSeq_Dequeue A 0 (seq128_abs q)
    \<and> go_map seq128_abs (MPMCPtrSeq_Enqueue A x q) = MPMCSeq_Enqueue A x (seq128_abs q)
    \<and> go_map seq128_abs (MPMCPtrSeq_Dequeue A q) = MPMCSeq_Dequeue A 0 (seq128_abs q)
    \<and> go_map seq128_abs (MPSCIndirectSeq_Enqueue A x q) = MPSCSeq_Enqueue A x (seq128_abs q)
    \<and> go_map seq128_abs (MPSCIndirectSeq_Dequeue q) = MPSCSeq_Dequeue 0 (seq128_abs q)
    \<and> go_map seq128_abs (MPSCPtrSeq_Enqueue A x q) = MPSCSeq_Enqueue A x (seq128_abs q)
    \<and> go_map seq128_abs (MPSCPtrSeq_Dequeue q) = MPSCSeq_Dequeue 0 (seq128_abs q)
    \<and> go_map seq128_abs (SPMCIndirectSeq_Enqueue x q) = SPMCSeq_Enqueue x (seq128_abs q)
    \<and> go_map seq128_abs (SPMCIndirectSeq_Dequeue A q) = SPMCSeq_Dequeue A 0 (seq128_abs q)
    \<and> go_map seq128_abs (SPMCPtrSeq_Enqueue x q) = SPMCSeq_Enqueue x (seq128_abs q)
    \<and> go_map seq128_abs (SPMCPtrSeq_Dequeue A q) = SPMCSeq_Dequeue A 0 (seq128_abs q)"
proof -
  note sem = atomix_sem.intro [OF assms(1)]
  have m: "mpmcseq_inv b (seq128_abs q)" using assms(2) by (rule mpmcseq_inv_if_seqq_inv)
  show ?thesis
    by (intro conjI; rule atomix_sem.MPMCIndirectSeq_Enqueue_sim [OF sem m]
        atomix_sem.MPMCIndirectSeq_Dequeue_sim [OF sem m]
        atomix_sem.MPMCPtrSeq_Enqueue_sim [OF sem m]
        atomix_sem.MPMCPtrSeq_Dequeue_sim [OF sem m]
        atomix_sem.MPSCIndirectSeq_Enqueue_sim [OF sem assms(2)]
        atomix_sem.MPSCIndirectSeq_Dequeue_sim [OF sem assms(2)]
        atomix_sem.MPSCPtrSeq_Enqueue_sim [OF sem assms(2)]
        atomix_sem.MPSCPtrSeq_Dequeue_sim [OF sem assms(2)]
        atomix_sem.SPMCIndirectSeq_Enqueue_sim [OF sem assms(2)]
        atomix_sem.SPMCIndirectSeq_Dequeue_sim [OF sem assms(2)]
        atomix_sem.SPMCPtrSeq_Enqueue_sim [OF sem assms(2)]
        atomix_sem.SPMCPtrSeq_Dequeue_sim [OF sem assms(2)])
qed

theorem Seq128_simulation_witness:
  "\<exists>q. NewMPMCIndirectSeq 2 = ret q
    \<and> go_map seq128_abs (MPMCIndirectSeq_Enqueue atomix_impl 9 q) = MPMCSeq_Enqueue atomix_impl 9 (seq128_abs q)
    \<and> go_map seq128_abs (MPMCIndirectSeq_Dequeue atomix_impl q) = MPMCSeq_Dequeue atomix_impl 0 (seq128_abs q)
    \<and> go_map seq128_abs (MPMCPtrSeq_Enqueue atomix_impl 9 q) = MPMCSeq_Enqueue atomix_impl 9 (seq128_abs q)
    \<and> go_map seq128_abs (MPMCPtrSeq_Dequeue atomix_impl q) = MPMCSeq_Dequeue atomix_impl 0 (seq128_abs q)
    \<and> go_map seq128_abs (MPSCIndirectSeq_Enqueue atomix_impl 9 q) = MPSCSeq_Enqueue atomix_impl 9 (seq128_abs q)
    \<and> go_map seq128_abs (MPSCIndirectSeq_Dequeue q) = MPSCSeq_Dequeue 0 (seq128_abs q)
    \<and> go_map seq128_abs (MPSCPtrSeq_Enqueue atomix_impl 9 q) = MPSCSeq_Enqueue atomix_impl 9 (seq128_abs q)
    \<and> go_map seq128_abs (MPSCPtrSeq_Dequeue q) = MPSCSeq_Dequeue 0 (seq128_abs q)
    \<and> go_map seq128_abs (SPMCIndirectSeq_Enqueue 9 q) = SPMCSeq_Enqueue 9 (seq128_abs q)
    \<and> go_map seq128_abs (SPMCIndirectSeq_Dequeue atomix_impl q) = SPMCSeq_Dequeue atomix_impl 0 (seq128_abs q)
    \<and> go_map seq128_abs (SPMCPtrSeq_Enqueue 9 q) = SPMCSeq_Enqueue 9 (seq128_abs q)
    \<and> go_map seq128_abs (SPMCPtrSeq_Dequeue atomix_impl q) = SPMCSeq_Dequeue atomix_impl 0 (seq128_abs q)"
proof -
  from NewMPMCIndirectSeq_ok [of 2] obtain q where q: "NewMPMCIndirectSeq 2 = ret q" "seqq_inv (2 ^ 63) (seq128_abs q)" by auto
  from Seq128_simulation [OF atomix_ok_impl q(2), of 9] q(1) show ?thesis by blast
qed

text \<open>
  C31: Drain at any moment changes no answer: a drained MPMC or SPMC queue answers every
  following program as the bounded FIFO with the same contents and the same capacity.
\<close>

theorem Drain_transparent:
  assumes "atomix_ok A" and "mpmc_inv (length cs) q"
  shows "(\<exists>q'. run_calls (MPMC_Enqueue A) (MPMC_Dequeue A zero) cs (MPMC_Drain q)
        = ret (fst (fifo_run zero (nat (MPMC_Cap q)) cs (mpmc_elems q)), q'))
    \<and> (\<exists>q'. run_calls SPMC_Enqueue (SPMC_Dequeue A zero) cs (SPMC_Drain q)
        = ret (fst (fifo_run zero (nat (SPMC_Cap q)) cs (mpmc_elems q)), q'))"
proof -
  note run = atomix_sem.mpmc_run [OF atomix_sem.intro [OF assms(1)] MPMC_Drain_keeps(1) [OF assms(2)]]
  show ?thesis
    using run [of zero] unfolding SPMC_Drain_eq SPMC_Cap_eq MPMC_Drain_keeps(2,3) [OF assms(2)] by blast
qed

theorem Drain_transparent_witness:
  "\<exists>q. NewMPMC 0 2 = ret q
    \<and> (\<exists>q'. run_calls (MPMC_Enqueue atomix_impl) (MPMC_Dequeue atomix_impl 0) [Enqueue (3 :: int), Dequeue] (MPMC_Drain q)
        = ret (fst (fifo_run 0 (nat (MPMC_Cap q)) [Enqueue 3, Dequeue] (mpmc_elems q)), q'))"
proof -
  from NewMPMC_ok [of 2 "0 :: int"] obtain q :: "int MPMC" where q: "NewMPMC 0 2 = ret q" "mpmc_inv (2 ^ 62) q" by auto
  then have "mpmc_inv (length [Enqueue (3 :: int), Dequeue]) q" by (auto simp: mpmc_inv_def)
  from Drain_transparent [OF atomix_ok_impl this, of 0] q(1) show ?thesis by blast
qed

text \<open>
  C32: polling an empty MPMC or SPMC queue (well formed, with counters at least n calls away
  from the end of their range): every Dequeue call returns ErrWouldBlock, the queue stays
  empty, and of n calls in a row the first threshold + 1 each burn one position of head and
  tail and lower the threshold by one; those after them, once the threshold is negative,
  return at once and change nothing. On a queue that is draining the threshold does not stop
  them and all n calls burn a position.
\<close>

theorem FAA_empty_polls:
  assumes "atomix_ok A" and "mpmc_inv n q" and "mpmc_elems q = []"
    and "b = (if MPMC.draining q then n else min n (nat (sint (MPMC.threshold q) + 1)))"
  shows "\<forall>deq \<in> {MPMC_Dequeue A zero, SPMC_Dequeue A zero}. \<exists>q'.
      run_calls enq deq (replicate n Dequeue) q = ret (replicate n (DequeueRet zero (Some ErrWouldBlock)), q')
      \<and> MPMC.head q' = MPMC.head q + of_nat b \<and> MPMC.tail q' = MPMC.tail q + of_nat b
      \<and> MPMC.threshold q' = MPMC.threshold q - of_nat b \<and> mpmc_elems q' = [] \<and> (b = 0 \<longrightarrow> q' = q)"
proof -
  note sem = atomix_sem.intro [OF assms(1)] and b = assms(4) [folded burned_def]
  let ?P = "\<lambda>deq q'. run_calls enq deq (replicate n Dequeue) q = ret (replicate n (DequeueRet zero (Some ErrWouldBlock)), q')
      \<and> MPMC.head q' = MPMC.head q + of_nat b \<and> MPMC.tail q' = MPMC.tail q + of_nat b
      \<and> MPMC.threshold q' = MPMC.threshold q - of_nat b \<and> mpmc_elems q' = [] \<and> (b = 0 \<longrightarrow> q' = q)"
  have "\<exists>q'. ?P (MPMC_Dequeue A zero) q'" unfolding b
    by (rule empty_polls [OF _ assms(2,3)]) (rule atomix_sem.MPMC_Dequeue_eq [OF sem])
  moreover have "\<exists>q'. ?P (SPMC_Dequeue A zero) q'" unfolding b
    by (rule empty_polls [OF _ assms(2,3)]) (rule atomix_sem.SPMC_Dequeue_eq [OF sem])
  ultimately show ?thesis by simp
qed

theorem FAA_empty_polls_witness:
  "\<exists>q. NewMPMC 0 2 = ret q
    \<and> (\<exists>q'. run_calls (MPMC_Enqueue atomix_impl) (MPMC_Dequeue atomix_impl 0) (replicate 9 Dequeue) q
             = ret (replicate 9 (DequeueRet (0 :: int) (Some ErrWouldBlock)), q')
      \<and> MPMC.head q' = MPMC.head q + of_nat 6 \<and> MPMC.tail q' = MPMC.tail q + of_nat 6)
    \<and> (\<exists>q'. run_calls (MPMC_Enqueue atomix_impl) (MPMC_Dequeue atomix_impl 0) (replicate 9 Dequeue) (MPMC_Drain q)
             = ret (replicate 9 (DequeueRet 0 (Some ErrWouldBlock)), q')
      \<and> MPMC.head q' = MPMC.head q + of_nat 9 \<and> MPMC.tail q' = MPMC.tail q + of_nat 9)"
proof -
  have r: "roundToPow2 2 = 2" by code_simp
  from NewMPMC_ok [of 2 "0 :: int"] obtain q :: "int MPMC" where q: "NewMPMC 0 2 = ret q" "mpmc_inv (2 ^ 62) q" "mpmc_elems q = []"
    by auto
  then have i: "mpmc_inv 9 q" by (auto simp: mpmc_inv_def)
  have "\<not> MPMC.draining q" "sint (MPMC.threshold q) = 5" using q(1) by (auto simp: NewMPMC_def r make_slice_def)
  then have "6 = (if MPMC.draining q then 9 else min 9 (nat (sint (MPMC.threshold q) + 1)))" by simp
  moreover have "9 = (if MPMC.draining (MPMC_Drain q) then 9 else min 9 (nat (sint (MPMC.threshold (MPMC_Drain q)) + 1)))"
    by (simp add: MPMC_Drain_def)
  moreover have "MPMC.head (MPMC_Drain q) = MPMC.head q" "MPMC.tail (MPMC_Drain q) = MPMC.tail q" by (simp_all add: MPMC_Drain_def)
  moreover have "mpmc_elems (MPMC_Drain q) = []" using MPMC_Drain_keeps(2) [OF i] q(3) by simp
  ultimately show ?thesis
    using q(1) FAA_empty_polls [OF atomix_ok_impl i q(3), of 6 0] FAA_empty_polls [OF atomix_ok_impl MPMC_Drain_keeps(1) [OF i], of 9 0]
    by (auto simp del: run_calls.simps)
qed

section \<open>The type of a built queue\<close>

text \<open>
  C33: the concrete type behind each interface is the one that the documentation of the
  builder announces (the client promises give SPSC, SPMC, MPSC or MPMC; Compact gives the CAS
  variant except for SPSC), and no program of calls changes it.
\<close>

theorem selection_typed:
  "(\<forall>q cs as q'. go_bind (New c) (\<lambda>b. Build zero (configure p s k b)) = ret q \<longrightarrow>
       run_calls (Queue_Enqueue A) (Queue_Dequeue A zero) cs q = ret (as, q') \<longrightarrow>
       Queue_type q' = pattern p s @ compacted p s k ''Seq'')
    \<and> (\<forall>q cs as q'. go_bind (New c) (\<lambda>b. BuildIndirect (configure p s k b)) = ret q \<longrightarrow>
       run_calls (QueueIndirect_Enqueue A) (QueueIndirect_Dequeue A) cs q = ret (as, q') \<longrightarrow>
       QueueIndirect_type q' = pattern p s @ compacted p s k ''Compact'' @ ''Indirect'')
    \<and> (\<forall>q cs as q'. go_bind (New c) (\<lambda>b. BuildPtr (configure p s k b)) = ret q \<longrightarrow>
       run_calls (QueuePtr_Enqueue A) (QueuePtr_Dequeue A) cs q = ret (as, q') \<longrightarrow>
       QueuePtr_type q' = pattern p s @ ''Ptr'' @ compacted p s k ''Seq'')"
proof -
  note keeps = run_calls_keeps [of "Queue_Enqueue A" Queue_type "Queue_Dequeue A zero", OF Queue_keeps_type]
    run_calls_keeps [of "QueueIndirect_Enqueue A" QueueIndirect_type "QueueIndirect_Dequeue A", OF QueueIndirect_keeps_type]
    run_calls_keeps [of "QueuePtr_Enqueue A" QueuePtr_type "QueuePtr_Dequeue A", OF QueuePtr_keeps_type]
  show ?thesis
    by (auto simp: go_bind_ret_iff New_def opts_configure keeps Build_type BuildIndirect_type BuildPtr_type split: if_splits)
qed

theorem selection_typed_witness:
  "\<exists>q q'. go_bind (New 2) (\<lambda>b. Build 0 (configure True False True b)) = ret q
    \<and> run_calls (Queue_Enqueue atomix_impl) (Queue_Dequeue atomix_impl 0) [Enqueue 5, Dequeue] q
        = ret ([EnqueueRet None, DequeueRet (5 :: int) None], q')
    \<and> Queue_type q' = ''SPMCSeq''"
proof -
  have c: "unat (roundToPow2 2) = 2" by code_simp
  have "\<exists>q q'. go_bind (New 2) (\<lambda>b. Build 0 (configure True False True b)) = ret q
    \<and> run_calls (Queue_Enqueue atomix_impl) (Queue_Dequeue atomix_impl 0) [Enqueue 5, Dequeue] q
        = ret (fst (fifo_run 0 (unat (roundToPow2 2)) [Enqueue (5 :: int), Dequeue] []), q')"
    by (rule fifo_object_run [OF New_Build_object [OF atomix_ok_impl]]) simp_all
  then obtain q q' where q: "go_bind (New 2) (\<lambda>b. Build 0 (configure True False True b)) = ret q"
    "run_calls (Queue_Enqueue atomix_impl) (Queue_Dequeue atomix_impl 0) [Enqueue 5, Dequeue] q
       = ret ([EnqueueRet None, DequeueRet (5 :: int) None], q')" by (auto simp: c simp del: run_calls.simps)
  with selection_typed [of 2 "0 :: int" True False True atomix_impl] show ?thesis
    by (fastforce simp: pattern_def compacted_def simp del: run_calls.simps)
qed

section \<open>The assembly versions\<close>

text \<open>
  C34: the hand-written assembly of SPSCIndirect computes what the portable Go version
  computes: run on a struct laid out in memory, each of the four Enqueue routines and the
  amd64, arm64 and loong64 Dequeue routines reaches its RET with the same result and the same
  struct, and so does the riscv64 Dequeue while head and tail are below 2^63.
\<close>

theorem SPSC_asm_refines:
  assumes "asm_layout b n (mem s)"
  shows "(\<forall>prog \<in> {amd64_SPSCEnqueue, arm64_SPSCEnqueue, riscv64_SPSCEnqueue, loong64_SPSCEnqueue}.
       \<exists>e s'. SPSCIndirect_Enqueue_asm prog b v s = ret (e, s')
         \<and> SPSCIndirect_Enqueue v (asm_queue b n (mem s)) = ret (e, asm_queue b n (mem s')) \<and> asm_layout b n (mem s'))
    \<and> (\<forall>prog \<in> {amd64_SPSCDequeue, arm64_SPSCDequeue, loong64_SPSCDequeue}.
       \<exists>r s'. SPSCIndirect_Dequeue_asm prog b s = ret (r, s')
         \<and> SPSCIndirect_Dequeue (asm_queue b n (mem s)) = ret (r, asm_queue b n (mem s')) \<and> asm_layout b n (mem s'))
    \<and> (unat (mem s (b + HEAD_OFF)) < 2 ^ 63 \<longrightarrow> unat (mem s (b + TAIL_OFF)) < 2 ^ 63 \<longrightarrow>
       (\<exists>r s'. SPSCIndirect_Dequeue_asm riscv64_SPSCDequeue b s = ret (r, s')
         \<and> SPSCIndirect_Dequeue (asm_queue b n (mem s)) = ret (r, asm_queue b n (mem s')) \<and> asm_layout b n (mem s')))"
  using enq_asm_refines [OF _ assms] deq_asm_refines [where below = "\<lambda>h t. h < t", OF _ assms refl] deq_asm_refines [OF riscv64_deq_runs assms signed_below]
  by (auto simp: amd64_enq_runs arm64_enq_runs riscv64_enq_runs loong64_enq_runs
      amd64_deq_runs arm64_deq_runs loong64_deq_runs)

theorem SPSC_asm_refines_witness:
  "\<exists>e s'. SPSCIndirect_Enqueue_asm amd64_SPSCEnqueue 0 9 \<lparr>regs = \<lambda>_. 0, mem = (\<lambda>_. 0)(376 := 1, 352 := 1000), args = \<lambda>_. 0, flags = (0, 0)\<rparr> = ret (e, s')
     \<and> SPSCIndirect_Enqueue 9 (asm_queue 0 2 ((\<lambda>_. 0)(376 := 1, 352 := 1000))) = ret (e, asm_queue 0 2 (mem s'))"
proof -
  let ?s = "\<lparr>regs = \<lambda>_. 0, mem = (\<lambda>_. 0)(376 := 1, 352 := 1000), args = \<lambda>_. 0, flags = (0, 0)\<rparr>"
  have "asm_layout 0 2 (mem ?s)" unfolding asm_layout_def
    by (auto simp: buf_addr_def dest!: less_2_cases intro!: exI [of _ 1])
  from SPSC_asm_refines [OF this, of 9] show ?thesis by fastforce
qed

lemma riscv64_spurious_empty:
  assumes "asm_layout b n (mem s)" and "unat (mem s (b + HEAD_OFF)) < 2 ^ 63" and "2 ^ 63 \<le> unat (mem s (b + TAIL_OFF))"
    and "mem s (b + CACHED_TAIL) \<le> mem s (b + HEAD_OFF)"
  shows "(\<exists>s'. SPSCIndirect_Dequeue_asm riscv64_SPSCDequeue b s = ret ((0, Some ErrWouldBlock), s')
       \<and> asm_queue b n (mem s') = (asm_queue b n (mem s))\<lparr>SPSC.cachedTail := mem s (b + TAIL_OFF)\<rparr>)
    \<and> (\<exists>v q'. SPSCIndirect_Dequeue (asm_queue b n (mem s)) = ret ((v, None), q'))"
proof -
  have "mem s (b + HEAD_OFF) < mem s (b + TAIL_OFF)" using assms(2,3) by (simp add: word_less_nat_alt)
  with asm_index(1) [OF assms(1), of "mem s (b + HEAD_OFF)"]
  have "\<exists>v q'. SPSCIndirect_Dequeue (asm_queue b n (mem s)) = ret ((v, None), q')"
    by (auto simp: SPSCIndirect_Dequeue_def Let_def)
  with riscv64_crossing [OF assms] show ?thesis by blast
qed

section \<open>Limits of the implementation\<close>

lemma SPSC_wrap_loses:
  assumes "spsc_ring k q" and "SPSC.head q = - 1" and "SPSC.tail q = - 1" and "SPSC.cachedHead q = - 1"
    and "SPSC.cachedTail q = - 1"
  shows "\<exists>q1 q2. SPSC_Enqueue x q = ret (None, q1) \<and> SPSC.tail q1 - SPSC.head q1 = 1
     \<and> SPSC_Dequeue zero q1 = ret ((zero, Some ErrWouldBlock), q2)"
proof -
  have "unat (SPSC.tail q AND SPSC.mask_q q) < length (SPSC.buffer q)"
    using spsc_idx [OF assms(1)] spsc_pos [OF assms(1)] by simp
  moreover have "\<not> (- 1 :: u64) \<le> 0" by simp
  ultimately show ?thesis using assms(2-5) by (simp add: SPSC_Enqueue_def SPSC_Dequeue_def Let_def)
qed

text \<open>
  C35: two limits of the comparisons of the SPSC queues. SPSC is not wrap-safe: with head,
  tail and both cached indices at 2^64 - 1 an Enqueue is accepted and moves the tail to 0, and
  the following Dequeue reports an empty queue. The riscv64 Dequeue compares head and tail as
  signed numbers: when they are on different sides of 2^63 and the cached tail is used up, it
  reports an empty queue although the portable version delivers an element; it changes nothing
  but the cached tail.
\<close>

theorem SPSC_counter_limits:
  assumes "spsc_ring k q" and "SPSC.head q = - 1" and "SPSC.tail q = - 1" and "SPSC.cachedHead q = - 1"
    and "SPSC.cachedTail q = - 1" and "asm_layout b n (mem s)" and "unat (mem s (b + HEAD_OFF)) < 2 ^ 63"
    and "2 ^ 63 \<le> unat (mem s (b + TAIL_OFF))" and "mem s (b + CACHED_TAIL) \<le> mem s (b + HEAD_OFF)"
  shows "(\<exists>q1 q2. SPSC_Enqueue x q = ret (None, q1) \<and> SPSC.tail q1 - SPSC.head q1 = 1
       \<and> SPSC_Dequeue zero q1 = ret ((zero, Some ErrWouldBlock), q2))
    \<and> (\<exists>s'. SPSCIndirect_Dequeue_asm riscv64_SPSCDequeue b s = ret ((0, Some ErrWouldBlock), s')
       \<and> asm_queue b n (mem s') = (asm_queue b n (mem s))\<lparr>SPSC.cachedTail := mem s (b + TAIL_OFF)\<rparr>)
    \<and> (\<exists>v q'. SPSCIndirect_Dequeue (asm_queue b n (mem s)) = ret ((v, None), q'))"
  by (intro conjI SPSC_wrap_loses [OF assms(1-5)] riscv64_spurious_empty [OF assms(6-9), THEN conjunct1]
      riscv64_spurious_empty [OF assms(6-9), THEN conjunct2])

theorem SPSC_counter_limits_witness:
  "(\<exists>q1 q2. SPSC_Enqueue 5 \<lparr>SPSC.head = - 1, SPSC.cachedTail = - 1, SPSC.tail = - 1, SPSC.cachedHead = - 1,
       SPSC.buffer = [0, 0 :: int], SPSC.mask_q = 1\<rparr> = ret (None, q1) \<and> SPSC.tail q1 - SPSC.head q1 = 1
     \<and> SPSC_Dequeue 0 q1 = ret ((0, Some ErrWouldBlock), q2))
    \<and> (\<exists>s'. SPSCIndirect_Dequeue_asm riscv64_SPSCDequeue 0 \<lparr>regs = \<lambda>_. 0, mem = (\<lambda>_. 0)(376 := 1, 352 := 1000, 64 := 2 ^ 63 - 1, 136 := 2 ^ 63 - 1, 208 := 2 ^ 63), args = \<lambda>_. 0, flags = (0, 0)\<rparr> = ret ((0, Some ErrWouldBlock), s'))"
proof -
  let ?s = "\<lparr>regs = \<lambda>_. 0, mem = (\<lambda>_. 0)(376 := 1, 352 := 1000, 64 := 2 ^ 63 - 1, 136 := 2 ^ 63 - 1, 208 := 2 ^ 63), args = \<lambda>_. 0, flags = (0, 0)\<rparr>"
  let ?q = "\<lparr>SPSC.head = - 1, SPSC.cachedTail = - 1, SPSC.tail = - 1, SPSC.cachedHead = - 1, SPSC.buffer = [0, 0 :: int], SPSC.mask_q = 1\<rparr>"
  have q: "spsc_ring 1 ?q" by (simp add: spsc_ring_def)
  have l: "asm_layout 0 2 (mem ?s)" unfolding asm_layout_def
    by (auto simp: buf_addr_def dest!: less_2_cases intro!: exI [of _ 1])
  have "unat (mem ?s (0 + HEAD_OFF)) < 2 ^ 63" "2 ^ 63 \<le> unat (mem ?s (0 + TAIL_OFF))"
    "mem ?s (0 + CACHED_TAIL) \<le> mem ?s (0 + HEAD_OFF)" by simp_all
  from SPSC_counter_limits [OF q _ _ _ _ l this, of 5 0] show ?thesis by auto
qed

text \<open>
  C36: MPMC, SPMC, MPMCIndirect and SPMCIndirect can lose a value that Enqueue accepted. In
  MPMC, SPMC and SPMCIndirect a consumer that finds the slot of a running producer empty moves
  the slot on to a later cycle between the check and the stores of the producer, which then
  publishes under a cycle that nobody waits for. In MPMCIndirect, while a consumer that
  claimed its position is delayed, another one polls the queue once around the ring and
  repairs the slot although it is full. In all cases Enqueue has returned nil, all goroutines
  are at rest, and every later Dequeue, however often it is repeated, reports an empty queue.
\<close>

theorem FAA_loses_values:
  assumes "atomix_ok A" and "NewMPMC zero 2 = ret q" and "NewSPMC zero 2 = ret p" and "NewMPMCIndirect 2 = ret r"
    and "NewSPMCIndirect 2 = ret s"
  shows "(\<exists>cf. exec (mpmc_step A zero) (mpmc_init q) 16
         [(Dequeue, DequeueRet zero (Some ErrWouldBlock)), (Enqueue x, EnqueueRet None)] cf
     \<and> (\<forall>i. mpmc_conf.pcs cf i = FIdle) \<and> polls_fail (MPMC_Dequeue A zero) zero (mpmc_conf.shared cf))
   \<and> (\<exists>cf. exec (spmc_step A zero) (go_init p QIdle) 17
         [(Dequeue, DequeueRet zero (Some ErrWouldBlock)), (Enqueue x, EnqueueRet None)] cf
     \<and> (\<forall>i. at_pc cf i = QIdle) \<and> polls_fail (SPMC_Dequeue A zero) zero (memory cf))
   \<and> (\<exists>cf. exec (faa128_step A) (faa128_init r) 54 [XStored 0 w, XEmpty, XEmpty, XEmpty, XEmpty, XEmpty] cf
     \<and> (\<forall>i. faa128_conf.pcs cf i = XIdle) \<and> polls_fail (MPMCIndirect_Dequeue A) 0 (faa128_conf.shared cf))
   \<and> (\<exists>cf. exec (spmci_step A) (go_init s YIdle) 16 [XEmpty, XStored 0 w] cf
     \<and> (\<forall>i. at_pc cf i = YIdle) \<and> polls_fail (SPMCIndirect_Dequeue A) 0 (memory cf))"
    (is "?mpmc \<and> ?spmc \<and> ?mpmc128 \<and> ?spmc128")
proof (intro conjI)
  note sem = atomix_sem.intro [OF assms(1)]
  show ?mpmc
    by (intro exI conjI, rule mpmc_sched_exec [OF atomix_sem.mpmc_lost [OF sem assms(2)]])
      (simp_all add: atomix_sem.mpmc_lost_polls [OF sem])
  show ?spmc
    by (intro exI conjI, rule go_sched_exec [OF atomix_sem.spmc_lost [OF sem assms(3)]])
      (simp_all add: atomix_sem.spmc_lost_polls [OF sem])
  have "length (lap_moves w) = 54" by (simp add: lap_moves_def length_concat sum_list_replicate)
  from faa128_sched_exec [OF atomix_sem.faa128_lost [OF sem assms(4)] this] atomix_sem.faa128_lost_polls [OF sem]
  show ?mpmc128 by fastforce
  show ?spmc128
    by (intro exI conjI, rule spmci_sched_exec [OF atomix_sem.spmci_lost [OF sem assms(5) [unfolded New128_same]]])
      (simp_all add: atomix_sem.spmci_lost_polls [OF sem])
qed

theorem FAA_loses_values_witness:
  "\<exists>q cf df r ef ff. NewMPMC 0 2 = ret q \<and> NewSPMC 0 2 = ret q \<and> exec (mpmc_step atomix_impl 0) (mpmc_init q) 16
         [(Dequeue, DequeueRet 0 (Some ErrWouldBlock)), (Enqueue (7 :: int), EnqueueRet None)] cf
     \<and> polls_fail (MPMC_Dequeue atomix_impl 0) 0 (mpmc_conf.shared cf)
     \<and> exec (spmc_step atomix_impl 0) (go_init q QIdle) 17
         [(Dequeue, DequeueRet 0 (Some ErrWouldBlock)), (Enqueue (7 :: int), EnqueueRet None)] df
     \<and> polls_fail (SPMC_Dequeue atomix_impl 0) 0 (memory df)
     \<and> NewMPMCIndirect 2 = ret r \<and> exec (faa128_step atomix_impl) (faa128_init r) 54 [XStored 0 7, XEmpty, XEmpty, XEmpty, XEmpty, XEmpty] ef
     \<and> polls_fail (MPMCIndirect_Dequeue atomix_impl) 0 (faa128_conf.shared ef)
     \<and> NewSPMCIndirect 2 = ret r \<and> exec (spmci_step atomix_impl) (go_init r YIdle) 16 [XEmpty, XStored 0 7] ff
     \<and> polls_fail (SPMCIndirect_Dequeue atomix_impl) 0 (memory ff)"
proof -
  obtain q :: "int MPMC" and r where n: "NewMPMC 0 2 = ret q" "NewSPMC 0 2 = ret q" "NewMPMCIndirect 2 = ret r" "NewSPMCIndirect 2 = ret r"
    by (simp add: NewSPMC_same New128_same NewMPMC_2 NewMPMCIndirect_2)
  from FAA_loses_values [OF atomix_ok_impl n, of 7 7] n show ?thesis by blast
qed

text \<open>
  C37: MPMC and SPMC can deliver a value twice and lose another one: a consumer that has seen
  that its slot is full and is delayed before it reads the value is overtaken by one that
  polls the empty queue once around the ring and repairs the slot; the producer reuses the
  slot, and both the delayed consumer and the one of the new position return the new value.
  Accepted are x, a, y; delivered are a, y, y.
\<close>

theorem FAA_delivers_twice:
  assumes "atomix_ok A" and "NewMPMC zero 2 = ret q" and "NewSPMC zero 2 = ret p"
  shows "\<exists>ls cf df. exec (mpmc_step A zero) (mpmc_init q) 102 ls cf \<and> (\<forall>i. mpmc_conf.pcs cf i = FIdle)
     \<and> exec (spmc_step A zero) (go_init p QIdle) 102 ls df \<and> (\<forall>i. at_pc df i = QIdle)
     \<and> accepted (map fst ls) (map snd ls) = [x, a, y] \<and> delivered (map snd ls) = [a, y, y]"
proof -
  note sem = atomix_sem.intro [OF assms(1)]
  from mpmc_sched_exec [OF _ twice_length [of MEnqueue MDequeue MRun x a y]] atomix_sem.mpmc_twice [OF sem assms(2), of x a y]
  obtain cf where cf: "exec (mpmc_step A zero) (mpmc_init q) 102 (twice_trace zero x a y) cf" "\<forall>i. mpmc_conf.pcs cf i = FIdle" by blast
  from go_sched_exec [OF _ twice_length [of StartEnqueue StartDequeue Resume x a y],
      of "SPMC_step A zero" QIdle QETail QDDraining "\<lambda>i. i = 0" "\<lambda>_. True"] atomix_sem.spmc_twice [OF sem assms(3), of x a y]
  obtain df where df: "exec (spmc_step A zero) (go_init p QIdle) 102 (twice_trace zero x a y) df" "\<forall>i. at_pc df i = QIdle" by blast
  have "accepted (map fst (twice_trace zero x a y)) (map snd (twice_trace zero x a y)) = [x, a, y]"
    "delivered (map snd (twice_trace zero x a y)) = [a, y, y]"
    by (simp_all add: twice_trace_def twice_replicates)
  with cf df show ?thesis by blast
qed

theorem FAA_delivers_twice_witness:
  "\<exists>q ls cf df. NewMPMC 0 2 = ret q \<and> NewSPMC 0 2 = ret q
     \<and> exec (mpmc_step atomix_impl 0) (mpmc_init q) 102 ls cf \<and> exec (spmc_step atomix_impl 0) (go_init q QIdle) 102 ls df
     \<and> accepted (map fst ls) (map snd ls) = [7 :: int, 8, 9] \<and> delivered (map snd ls) = [8, 9, 9]"
proof -
  obtain q :: "int MPMC" where n: "NewMPMC 0 2 = ret q" "NewSPMC 0 2 = ret q" by (simp add: NewSPMC_same NewMPMC_2)
  from FAA_delivers_twice [OF atomix_ok_impl n, of 7 8 9] n show ?thesis by blast
qed

text \<open>
  C38: MPSC and MPSCIndirect can get stuck for good: with capacity + 2 producers a claimed
  position can be given up (the Enqueue reports a full queue), and the consumer waits at that
  position for ever: with all goroutines at rest, a value accepted afterwards is in the queue
  and every Dequeue reports an empty queue.
\<close>

theorem MPSC_wedges:
  assumes "atomix_ok A" and "NewMPSC zero 2 = ret q" and "NewMPSCIndirect 2 = ret r"
  shows "(\<exists>cf. exec (mpsc_step A zero 4) (mpsc_init q) 68
         [MStored 0 x, MBurned 4, MStored 1 x, MStored 2 x, MStored 3 x,
          MDelivered 0 x, MDelivered 1 x, MDelivered 2 x, MDelivered 3 x, MStored 5 x] cf
     \<and> (\<forall>i. epcs cf i = SIdle) \<and> dpc cf = SDIdle \<and> polls_fail (MPSC_Dequeue zero) zero (mpsc_conf.shared cf))
   \<and> (\<exists>cf. exec (mpsci_step A 4) (mpsci_init r) 55
         [MStored 0 w, MBurned 4, MStored 1 w, MStored 2 w, MStored 3 w,
          MDelivered 0 w, MDelivered 1 w, MDelivered 2 w, MDelivered 3 w, MStored 5 w] cf
     \<and> (\<forall>i. epcs128 cf i = TIdle) \<and> dpc128 cf = TDIdle \<and> polls_fail MPSCIndirect_Dequeue 0 (mem128 cf))"
proof (intro conjI)
  note sem = atomix_sem.intro [OF assms(1)]
  have "length (wedge_moves x) = 68" by (simp add: wedge_moves_def length_concat sum_list_replicate)
  from mpsc_sched_exec [OF atomix_sem.mpsc_wedge [OF sem assms(2)] this] atomix_sem.mpsc_wedge_polls [OF sem]
  show "\<exists>cf. exec (mpsc_step A zero 4) (mpsc_init q) 68
         [MStored 0 x, MBurned 4, MStored 1 x, MStored 2 x, MStored 3 x,
          MDelivered 0 x, MDelivered 1 x, MDelivered 2 x, MDelivered 3 x, MStored 5 x] cf
     \<and> (\<forall>i. epcs cf i = SIdle) \<and> dpc cf = SDIdle \<and> polls_fail (MPSC_Dequeue zero) zero (mpsc_conf.shared cf)" by fastforce
  have "length (wedge128_moves w) = 55" by (simp add: wedge128_moves_def length_concat sum_list_replicate)
  from mpsci_sched_exec [OF atomix_sem.mpsci_wedge [OF sem assms(3)] this] atomix_sem.mpsci_wedge_polls [OF sem]
  show "\<exists>cf. exec (mpsci_step A 4) (mpsci_init r) 55
         [MStored 0 w, MBurned 4, MStored 1 w, MStored 2 w, MStored 3 w,
          MDelivered 0 w, MDelivered 1 w, MDelivered 2 w, MDelivered 3 w, MStored 5 w] cf
     \<and> (\<forall>i. epcs128 cf i = TIdle) \<and> dpc128 cf = TDIdle \<and> polls_fail MPSCIndirect_Dequeue 0 (mem128 cf)" by fastforce
qed

theorem MPSC_wedges_witness:
  "\<exists>q cf r df. NewMPSC 0 2 = ret q \<and> exec (mpsc_step atomix_impl 0 4) (mpsc_init q) 68
         [MStored 0 7, MBurned 4, MStored 1 7, MStored 2 7, MStored 3 7,
          MDelivered 0 7, MDelivered 1 7, MDelivered 2 7, MDelivered 3 7, MStored 5 (7 :: int)] cf
     \<and> polls_fail (MPSC_Dequeue 0) 0 (mpsc_conf.shared cf)
     \<and> NewMPSCIndirect 2 = ret r \<and> exec (mpsci_step atomix_impl 4) (mpsci_init r) 55
         [MStored 0 7, MBurned 4, MStored 1 7, MStored 2 7, MStored 3 7,
          MDelivered 0 7, MDelivered 1 7, MDelivered 2 7, MDelivered 3 7, MStored 5 7] df
     \<and> polls_fail MPSCIndirect_Dequeue 0 (mem128 df)"
  using MPSC_wedges [OF atomix_ok_impl NewMPSC_2 NewMPSCIndirect_2, of 0 7 7] NewMPSC_2 [of "0 :: int"] NewMPSCIndirect_2 by blast

text \<open>
  C39: MPMCCompactIndirect and SPMCCompactIndirect (capacity 2, any 63-bit values x, y, z)
  with a value that is enqueued again: a consumer delayed between reading its slot and the
  compare-and-swap finds the same value one lap later and takes it. Of the accepted values x,
  y, x the deliveries are x, x, y, which is not first in, first out when x and y differ. The
  slot is left with the empty mark of a round that is over, and it is lost: in every
  continuation of up to 2^62 steps of any goroutines the slot of the MPMC queue keeps that
  mark, so it never holds a value again and at most one value is inside a queue of capacity 2.
  The SPMC queue, whose producer does not step over the slot, reaches a state at rest and
  empty in which no step of any goroutine changes the memory any more: nothing is ever
  accepted or delivered again, and every Enqueue of a 63-bit value is refused.
\<close>

theorem Compact_reused_value:
  assumes "atomix_ok A" and "valid63 x" and "valid63 y" and "valid63 z"
    and "NewMPMCCompactIndirect 2 = ret q" and "NewSPMCCompactIndirect 2 = ret p"
  shows "(\<exists>cf. exec (mpmcc_step A) (go_init q KIdle) 42
        [(Enqueue x, EnqueueRet None), (Dequeue, DequeueRet x None), (Enqueue y, EnqueueRet None), (Enqueue x, EnqueueRet None),
         (Dequeue, DequeueRet x None), (Dequeue, DequeueRet y None)] cf
      \<and> (\<forall>i. at_pc cf i = KIdle)
      \<and> (\<forall>m ls d. exec (mpmcc_step A) cf m ls d \<longrightarrow> m < 2 ^ 62 \<longrightarrow>
           MPMCCompactIndirect.buffer (memory d) ! 0 = emptyFlag OR 1 \<and> length (acc_vals ls) \<le> length (del_vals ls) + 1))
    \<and> (\<exists>cf. exec (spmcc_step A) (go_init p JIdle) 57
        [(Enqueue x, EnqueueRet None), (Dequeue, DequeueRet x None), (Enqueue y, EnqueueRet None), (Enqueue x, EnqueueRet None),
         (Dequeue, DequeueRet x None), (Dequeue, DequeueRet y None),
         (Enqueue z, EnqueueRet None), (Dequeue, DequeueRet z None)] cf
      \<and> (\<forall>i. at_pc cf i = JIdle) \<and> MPMCCompactIndirect.head (memory cf) = MPMCCompactIndirect.tail (memory cf)
      \<and> (\<forall>m ls d. exec (spmcc_step A) cf m ls d \<longrightarrow> memory d = memory cf \<and> acc_vals ls = [] \<and> del_vals ls = [])
      \<and> (\<forall>v. SPMCCompactIndirect_Enqueue A v (memory cf)
          = (if valid63 v then ret (Some ErrWouldBlock, memory cf) else panics (PanicMsg ''lfq: value exceeds 63 bits'')))
      \<and> SPMCCompactIndirect_Dequeue A (memory cf) = ret ((0, Some ErrWouldBlock), memory cf))"
proof -
  note sem = atomix_sem.intro [OF assms(1)]
  have len: "length (reuse_schedule 6 x y) = 42"
    "length (reuse_schedule 5 x y @ StartEnqueue 0 z # replicate 5 (Resume 0) @ StartDequeue 2 # replicate 11 (Resume 2)) = 57"
    by (simp_all add: reuse_schedule_def)
  obtain cf where c: "exec (mpmcc_step A) (go_init q KIdle) 42 (reuse_trace x y) cf" "\<And>i. at_pc cf i = KIdle"
      "memory cf = \<lparr>MPMCCompactIndirect.tail = 3, MPMCCompactIndirect.head = 2, MPMCCompactIndirect.buffer = [empty_mark 1, empty_mark 1],
        MPMCCompactIndirect.mask_q = 1, MPMCCompactIndirect.capacity = 2, order_q = 1\<rparr>"
    using atomix_sem.mpmcc_reuse [OF sem assms(5,2,3)] len(1) by (auto dest: go_sched_exec)
  obtain df where d: "exec (spmcc_step A) (go_init p JIdle) 57 (reuse_trace x y @ [(Enqueue z, EnqueueRet None), (Dequeue, DequeueRet z None)]) df"
      "\<And>i. at_pc df i = JIdle"
      "memory df = \<lparr>MPMCCompactIndirect.tail = 4, MPMCCompactIndirect.head = 4, MPMCCompactIndirect.buffer = [empty_mark 1, empty_mark 2],
        MPMCCompactIndirect.mask_q = 1, MPMCCompactIndirect.capacity = 2, order_q = 1\<rparr>"
    using atomix_sem.spmcc_reuse [OF sem assms(6,2,3,4)] len(2) by (auto dest: go_sched_exec)
  have s: "cshape 1 (memory cf)" "cshape 1 (memory df)" by (simp_all add: cshape_def c(3) d(3))
  have L: "lost_slot 0 1 cf" using s(1) c(2) by (auto simp: lost_slot_def) (simp_all add: c(3))
  have F: "filled (memory cf) = 0" by (simp add: filled_def c(3) empty_mark_not_valid)
  have "MPMCCompactIndirect.buffer (memory e) ! 0 = emptyFlag OR 1 \<and> length (acc_vals ls) \<le> length (del_vals ls) + 1"
    if e: "exec (mpmcc_step A) cf m ls e" "m < 2 ^ 62" for m ls e
  proof -
    have t: "unat (MPMCCompactIndirect.tail (memory cf)) < 2 ^ 62" by (simp add: c(3))
    note X = atomix_sem.lost_slot_exec [OF sem e(1) L t e(2)]
    have "length (MPMCCompactIndirect.buffer (memory e)) = 2"
      using atomix_sem.mpmcc_exec_length [OF sem e(1)] by (simp add: c(3))
    with X lost_slot_filled [OF X(1)] F show ?thesis by (simp add: lost_slot_def empty_mark_def)
  qed
  moreover have S: "stopped (memory df)" using s(2) small_marks [of 1 2] by (auto simp: stopped_def marks_2 d(3))
  note atomix_sem.stopped_exec [OF sem _ S d(2)] atomix_sem.stopped_calls [OF sem S]
  ultimately show ?thesis using c(1,2) d(1,2) S unfolding reuse_trace_def append_Cons append_Nil
    by (intro conjI exI [of _ cf] exI [of _ df]) (simp_all add: stopped_def)
qed

theorem Compact_reused_value_witness:
  "\<exists>q p. NewMPMCCompactIndirect 2 = ret q \<and> NewSPMCCompactIndirect 2 = ret p
    \<and> (\<exists>cf. exec (mpmcc_step atomix_impl) (go_init q KIdle) 42
        [(Enqueue 5, EnqueueRet None), (Dequeue, DequeueRet 5 None), (Enqueue 6, EnqueueRet None), (Enqueue 5, EnqueueRet None),
         (Dequeue, DequeueRet 5 None), (Dequeue, DequeueRet 6 None)] cf
      \<and> (\<forall>i. at_pc cf i = KIdle)
      \<and> MPMCCompactIndirect.buffer (memory cf) ! 0 = emptyFlag OR 1)
    \<and> (\<exists>cf. exec (spmcc_step atomix_impl) (go_init p JIdle) 57
        [(Enqueue 5, EnqueueRet None), (Dequeue, DequeueRet 5 None), (Enqueue 6, EnqueueRet None), (Enqueue 5, EnqueueRet None),
         (Dequeue, DequeueRet 5 None), (Dequeue, DequeueRet 6 None),
         (Enqueue 7, EnqueueRet None), (Dequeue, DequeueRet 7 None)] cf
      \<and> (\<forall>i. at_pc cf i = JIdle) \<and> MPMCCompactIndirect.head (memory cf) = MPMCCompactIndirect.tail (memory cf)
      \<and> (\<forall>v. SPMCCompactIndirect_Enqueue atomix_impl v (memory cf)
          = (if valid63 v then ret (Some ErrWouldBlock, memory cf) else panics (PanicMsg ''lfq: value exceeds 63 bits'')))
      \<and> SPMCCompactIndirect_Dequeue atomix_impl (memory cf) = ret ((0, Some ErrWouldBlock), memory cf))"
proof -
  obtain q where q: "NewMPMCCompactIndirect 2 = ret q" "NewSPMCCompactIndirect 2 = ret q"
    by (simp add: NewCompact_same NewMPMCCompactIndirect_2)
  have "valid63 5" "valid63 6" "valid63 7" by (simp_all add: valid63_def emptyFlag_def)
  note X = Compact_reused_value [OF atomix_ok_impl this q]
  from X [THEN conjunct1] obtain cf where c: "exec (mpmcc_step atomix_impl) (go_init q KIdle) 42 [(Enqueue 5, EnqueueRet None), (Dequeue, DequeueRet 5 None), (Enqueue 6, EnqueueRet None), (Enqueue 5, EnqueueRet None), (Dequeue, DequeueRet 5 None), (Dequeue, DequeueRet 6 None)] cf \<and> (\<forall>i. at_pc cf i = KIdle) \<and> MPMCCompactIndirect.buffer (memory cf) ! 0 = emptyFlag OR 1"
    by (metis (no_types, lifting) exec_init zero_less_numeral zero_less_power)
  from c X [THEN conjunct2] q show ?thesis by blast
qed

end
